(* ===== verification/Prelude.thy ===== *)
theory Prelude
  imports Main "HOL-Library.Word"
begin

text \<open>
  Shared vocabulary of the development.

  Machine integers are words of the code's width. A Rust \<open>&str\<close> or \<open>String\<close> is a HOL
  \<open>string\<close> whose characters are its UTF-8 bytes, so \<open>length\<close> is Rust's \<open>len()\<close>; a
  \<open>&[u8]\<close> or \<open>Vec<u8>\<close> is a list of 8-bit words. \<open>usize\<close> (64 bits) is \<open>nat\<close>, with the
  bound \<open>usize_max\<close> written out wherever the code depends on it. \<open>Result<A, E>\<close> is the sum
  \<open>E + A\<close>, with \<open>Err\<close> and \<open>Ok\<close> for its injections and \<open>and_then\<close> for the \<open>?\<close> operator.
\<close>

unbundle bit_operations_syntax

section \<open>Types\<close>

type_synonym u8 = "8 word"
type_synonym u16 = "16 word"
type_synonym u32 = "32 word"
type_synonym u64 = "64 word"
type_synonym bytes = "u8 list"

definition usize_max :: nat where
  "usize_max = 2 ^ 64 - 1"

named_theorems res_simps \<open>rules that take \<open>and_then\<close> chains apart\<close>
named_theorems codec_simps \<open>round-trip and length rules of the byte codecs\<close>

section \<open>Results\<close>

abbreviation Ok :: "'a \<Rightarrow> 'e + 'a" where
  "Ok \<equiv> Inr"

abbreviation Err :: "'e \<Rightarrow> 'e + 'a" where
  "Err \<equiv> Inl"

definition and_then :: "'e + 'a \<Rightarrow> ('a \<Rightarrow> 'e + 'b) \<Rightarrow> 'e + 'b" where
  "and_then r f = (case r of Inl e \<Rightarrow> Inl e | Inr x \<Rightarrow> f x)"

definition ok_or :: "'a option \<Rightarrow> 'e \<Rightarrow> 'e + 'a" where
  "ok_or x e = (case x of None \<Rightarrow> Inl e | Some y \<Rightarrow> Inr y)"

lemma and_then_Ok [simp, res_simps]: "and_then (Inr x) f = f x"
  by (simp add: and_then_def)

lemma and_then_Err [simp, res_simps]: "and_then (Inl e) f = Inl e"
  by (simp add: and_then_def)

lemma and_then_eq_Ok [res_simps]:
  "(and_then r f = Inr y) = (\<exists>x. r = Inr x \<and> f x = Inr y)"
  by (cases r) simp_all

lemma and_then_eq_Err [res_simps]:
  "(and_then r f = Inl e) = (r = Inl e \<or> (\<exists>x. r = Inr x \<and> f x = Inl e))"
  by (cases r) simp_all

lemma and_then_assoc: "and_then (and_then r f) g = and_then r (\<lambda>x. and_then (f x) g)"
  by (cases r) simp_all

lemma and_then_cong [fundef_cong]:
  "r = r' \<Longrightarrow> (\<And>x. r' = Inr x \<Longrightarrow> f x = g x) \<Longrightarrow> and_then r f = and_then r' g"
  by (cases r') simp_all

lemma ok_or_None [simp, res_simps]: "ok_or None e = Inl e"
  by (simp add: ok_or_def)

lemma ok_or_Some [simp, res_simps]: "ok_or (Some x) e = Inr x"
  by (simp add: ok_or_def)

lemma ok_or_eq_Ok [res_simps]: "(ok_or x e = Inr y) = (x = Some y)"
  by (cases x) simp_all

lemma ok_or_eq_Err [res_simps]: "(ok_or x e = Inl e') = (x = None \<and> e' = e)"
  by (cases x) auto

section \<open>Characters, bytes and UTF-8\<close>

definition byte_of :: "char \<Rightarrow> u8" where
  "byte_of c = of_char c"

definition char_of_byte :: "u8 \<Rightarrow> char" where
  "char_of_byte b = char_of (unat b)"

definition as_bytes :: "string \<Rightarrow> bytes" where
  "as_bytes s = map byte_of s"

definition of_bytes :: "bytes \<Rightarrow> string" where
  "of_bytes bs = map char_of_byte bs"

lemma unat_less_256 [simp]: "unat (b :: u8) < 256"
  using unsigned_less [of b, where ?'a = nat] by simp

lemma char_of_byte_of [simp]: "char_of_byte (byte_of c) = c"
proof -
  have "unat (byte_of c) = (of_char c :: nat)"
    by (simp add: byte_of_def unat_of_nat flip: of_nat_of_char [where ?'a = u8])
  then show ?thesis by (simp add: char_of_byte_def)
qed

lemma byte_of_char_of_byte [simp]: "byte_of (char_of_byte b) = b"
proof -
  have "(of_char (char_of (unat b)) :: nat) = unat b"
    by (simp add: of_char_of)
  then have "(of_char (char_of (unat b)) :: u8) = of_nat (unat b)"
    by (metis of_nat_of_char)
  then show ?thesis
    by (simp add: byte_of_def char_of_byte_def)
qed

lemma of_bytes_as_bytes [simp]: "of_bytes (as_bytes s) = s"
  by (simp add: as_bytes_def of_bytes_def comp_def)

lemma as_bytes_of_bytes [simp]: "as_bytes (of_bytes bs) = bs"
  by (simp add: as_bytes_def of_bytes_def comp_def)

lemma length_as_bytes [simp]: "length (as_bytes s) = length s"
  by (simp add: as_bytes_def)

lemma length_of_bytes [simp]: "length (of_bytes bs) = length bs"
  by (simp add: of_bytes_def)

lemma as_bytes_append [simp]: "as_bytes (s @ t) = as_bytes s @ as_bytes t"
  by (simp add: as_bytes_def)

lemma as_bytes_eq_iff [simp]: "as_bytes s = as_bytes t \<longleftrightarrow> s = t"
  by (metis of_bytes_as_bytes)

text \<open>
  Well-formed UTF-8 (Unicode, table 3-7), which \<open>String::from_utf8\<close> and \<open>str::from_utf8\<close>
  of the standard library accept: no overlong form, no surrogate, nothing above U+10FFFF.
\<close>

definition utf8_cont :: "u8 \<Rightarrow> bool" where
  "utf8_cont b \<longleftrightarrow> 0x80 \<le> b \<and> b \<le> 0xBF"

fun utf8_valid :: "bytes \<Rightarrow> bool" where
  "utf8_valid [] = True"
| "utf8_valid (a # s) =
    (if a \<le> 0x7F then utf8_valid s
     else if 0xC2 \<le> a \<and> a \<le> 0xDF then
       (case s of b # s' \<Rightarrow> utf8_cont b \<and> utf8_valid s' | _ \<Rightarrow> False)
     else if 0xE0 \<le> a \<and> a \<le> 0xEF then
       (case s of b # c # s' \<Rightarrow>
          (if a = 0xE0 then 0xA0 \<le> b \<and> b \<le> 0xBF
           else if a = 0xED then 0x80 \<le> b \<and> b \<le> 0x9F else utf8_cont b)
          \<and> utf8_cont c \<and> utf8_valid s' | _ \<Rightarrow> False)
     else if 0xF0 \<le> a \<and> a \<le> 0xF4 then
       (case s of b # c # d # s' \<Rightarrow>
          (if a = 0xF0 then 0x90 \<le> b \<and> b \<le> 0xBF
           else if a = 0xF4 then 0x80 \<le> b \<and> b \<le> 0x8F else utf8_cont b)
          \<and> utf8_cont c \<and> utf8_cont d \<and> utf8_valid s' | _ \<Rightarrow> False)
     else False)"

definition from_utf8 :: "bytes \<Rightarrow> string option" where
  "from_utf8 bs = (if utf8_valid bs then Some (of_bytes bs) else None)"

text \<open>The invariant of every Rust string: its bytes are well-formed UTF-8.\<close>

definition valid_str :: "string \<Rightarrow> bool" where
  "valid_str s \<longleftrightarrow> utf8_valid (as_bytes s)"

lemma from_utf8_as_bytes [simp]: "valid_str s \<Longrightarrow> from_utf8 (as_bytes s) = Some s"
  by (simp add: from_utf8_def valid_str_def)

lemma from_utf8_Some: "from_utf8 bs = Some s \<Longrightarrow> valid_str s \<and> as_bytes s = bs"
  by (auto simp: from_utf8_def valid_str_def split: if_splits)

lemma utf8_valid_ascii: "(\<And>b. b \<in> set bs \<Longrightarrow> b \<le> 0x7F) \<Longrightarrow> utf8_valid bs"
  by (induction bs) auto

section \<open>String operations of the standard library\<close>

text \<open>\<open>str::find\<close> of a character: the index of its first occurrence.\<close>

fun str_find :: "char \<Rightarrow> string \<Rightarrow> nat option" where
  "str_find c [] = None"
| "str_find c (x # s) = (if x = c then Some 0 else map_option Suc (str_find c s))"

lemma str_find_None: "str_find c s = None \<longleftrightarrow> c \<notin> set s"
  by (induction s) auto

lemma str_find_Some:
  "str_find c s = Some i \<Longrightarrow> s = take i s @ c # drop (Suc i) s \<and> c \<notin> set (take i s) \<and> i < length s"
  by (induction s arbitrary: i) (auto split: if_splits)

lemma str_find_append: "c \<notin> set p \<Longrightarrow> str_find c (p @ c # s) = Some (length p)"
  by (induction p) auto

text \<open>\<open>str::split\<close> of a character: always at least one piece.\<close>

fun split_on :: "char \<Rightarrow> string \<Rightarrow> string list" where
  "split_on c [] = [[]]"
| "split_on c (x # s) =
    (if x = c then [] # split_on c s
     else (case split_on c s of p # ps \<Rightarrow> (x # p) # ps | [] \<Rightarrow> [[x]]))"

fun join_with :: "char \<Rightarrow> string list \<Rightarrow> string" where
  "join_with c [] = []"
| "join_with c [p] = p"
| "join_with c (p # q # ps) = p @ c # join_with c (q # ps)"

lemma split_on_not_Nil [simp]: "split_on c s \<noteq> []"
  by (cases s) (auto split: list.split)

lemma split_on_no_sep: "p \<in> set (split_on c s) \<Longrightarrow> c \<notin> set p"
  by (induction s arbitrary: p) (auto split: list.splits if_splits)

lemma split_on_chars: "p \<in> set (split_on c s) \<Longrightarrow> set p \<subseteq> set s"
proof (induction s arbitrary: p)
  case Nil
  then show ?case by simp
next
  case (Cons x s)
  then show ?case
    by (cases "split_on c s") (auto split: if_splits, blast+)
qed

lemma split_on_atom [simp]: "c \<notin> set p \<Longrightarrow> split_on c p = [p]"
  by (induction p) auto

lemma split_on_append: "c \<notin> set p \<Longrightarrow> split_on c (p @ c # s) = p # split_on c s"
  by (induction p) auto

lemma split_on_at: "split_on c (s @ c # t) = split_on c s @ split_on c t"
  by (induction s) (auto split: list.split)

lemma split_on_join:
  "ps \<noteq> [] \<Longrightarrow> (\<And>p. p \<in> set ps \<Longrightarrow> c \<notin> set p) \<Longrightarrow> split_on c (join_with c ps) = ps"
  by (induction c ps rule: join_with.induct) (auto simp: split_on_append)

lemma join_with_split_on [simp]: "join_with c (split_on c s) = s"
proof (induction s)
  case Nil
  then show ?case by simp
next
  case (Cons x s)
  then show ?case
    by (cases "split_on c s"; cases "tl (split_on c s)") auto
qed

lemma set_join_with: "set (join_with c ps) \<subseteq> insert c (\<Union> (set (map set ps)))"
  by (induction c ps rule: join_with.induct) auto

lemma join_with_append:
  "ps \<noteq> [] \<Longrightarrow> join_with c (ps @ [q]) = join_with c ps @ c # q"
  by (induction c ps rule: join_with.induct) auto

lemma join_with_eq_Nil: "join_with c xs = [] \<longleftrightarrow> xs = [] \<or> xs = [[]]"
  by (induction c xs rule: join_with.induct) auto

lemma join_with_ne: "join_with c xs \<noteq> [] \<Longrightarrow> xs \<noteq> []"
  by auto

section \<open>Lists\<close>

lemma list_all_butlast: "list_all P xs \<Longrightarrow> list_all P (butlast xs)"
  by (induction xs) auto

lemma list_all_last: "list_all P xs \<Longrightarrow> xs \<noteq> [] \<Longrightarrow> P (last xs)"
  by (induction xs) auto

section \<open>UTF-8 and ASCII separators\<close>

lemma utf8_valid_append_ascii:
  assumes "c \<le> 0x7F"
  shows "utf8_valid (xs @ c # ys) \<longleftrightarrow> utf8_valid xs \<and> utf8_valid ys"
proof (induction xs rule: utf8_valid.induct)
  case 1
  then show ?case using assms by simp
next
  case (2 a s)
  have c: "\<not> utf8_cont c" "\<not> 0xA0 \<le> c" "\<not> 0x90 \<le> c" "\<not> 0x80 \<le> c"
    using assms by (auto simp: utf8_cont_def dest: order.trans)
  show ?case
  proof (cases s)
    case Nil
    then show ?thesis using assms c by (auto split: list.splits)
  next
    case (Cons b s1)
    note s = Cons
    show ?thesis
    proof (cases s1)
      case Nil
      then show ?thesis using 2 s assms c by (auto split: list.splits)
    next
      case (Cons d s2)
      note s1 = Cons
      then show ?thesis
        using 2 s s1 assms c by (cases s2) (auto split: list.splits)
    qed
  qed
qed


lemma byte_of_ascii [simp]:
  "byte_of CHR ''/'' = 0x2F" "byte_of CHR ''?'' = 0x3F" "byte_of CHR 0x5C = 0x5C"
  "byte_of CHR 0x00 = 0" "byte_of CHR ''%'' = 0x25"
  by (simp_all add: byte_of_def)

lemma byte_of_inject [simp]: "byte_of c = byte_of d \<longleftrightarrow> c = d"
  by (metis char_of_byte_of)

lemma unat_byte_of: "unat (byte_of c) = (of_char c :: nat)"
  by (simp add: byte_of_def unat_of_nat flip: of_nat_of_char [where ?'a = u8])

lemma mem_as_bytes [simp]: "byte_of c \<in> set (as_bytes s) \<longleftrightarrow> c \<in> set s"
  by (auto simp: as_bytes_def)

definition ascii :: "char \<Rightarrow> bool" where
  "ascii c \<longleftrightarrow> byte_of c \<le> 0x7F"

lemma valid_str_Nil [simp]: "valid_str []"
  by (simp add: valid_str_def as_bytes_def)

lemma valid_str_append_ascii:
  "ascii c \<Longrightarrow> valid_str (s @ c # t) \<longleftrightarrow> valid_str s \<and> valid_str t"
  by (simp add: valid_str_def ascii_def utf8_valid_append_ascii as_bytes_def)

lemma valid_str_Cons_ascii: "ascii c \<Longrightarrow> valid_str (c # t) \<longleftrightarrow> valid_str t"
  using valid_str_append_ascii [of c "[]" t] by simp

lemma valid_str_split_on:
  "ascii c \<Longrightarrow> valid_str s \<longleftrightarrow> list_all valid_str (split_on c s)"
proof (induction "split_on c s" arbitrary: s rule: induct_list012)
  case 1
  then show ?case by (metis split_on_not_Nil)
next
  case (2 p)
  have "s = p" by (metis 2(1) join_with.simps(2) join_with_split_on)
  moreover have "split_on c s = [p]" using 2(1) by simp
  ultimately show ?case by simp
next
  case (3 p q ps)
  have s: "s = p @ c # join_with c (q # ps)"
    by (metis "3.hyps"(3) join_with.simps(3) join_with_split_on)
  have "c \<notin> set p"
    using split_on_no_sep [of p c s] by (simp flip: "3.hyps"(3))
  then have "split_on c (join_with c (q # ps)) = q # ps"
    using "3.hyps"(3) by (simp add: s split_on_append)
  then have IH: "valid_str (join_with c (q # ps)) = list_all valid_str (q # ps)"
    using "3.hyps"(2) [of "join_with c (q # ps)"] "3.prems" by simp
  have "valid_str s \<longleftrightarrow> valid_str p \<and> valid_str (join_with c (q # ps))"
    using "3.prems" by (subst s) (rule valid_str_append_ascii)
  then show ?case
    using IH by (simp flip: "3.hyps"(3))
qed


lemma valid_str_join:
  "ascii c \<Longrightarrow> list_all valid_str ps \<Longrightarrow> valid_str (join_with c ps)"
  by (induction c ps rule: join_with.induct) (auto simp: valid_str_append_ascii)

lemma ascii_simps [simp]: "ascii CHR ''/''" "ascii CHR ''?''"
  by (simp_all add: ascii_def byte_of_def)

section \<open>Self-delimiting codecs\<close>

text \<open>
  The contract of the wire formats: an encoder and a decoder that returns the value and the
  number of bytes consumed. \<open>ok\<close> holds of the values the encoder accepts.
\<close>

fun parse_seq :: "(bytes \<Rightarrow> ('a \<times> nat) option) \<Rightarrow> nat \<Rightarrow> bytes \<Rightarrow> ('a list \<times> bytes) option" where
  "parse_seq dec 0 bs = Some ([], bs)"
| "parse_seq dec (Suc n) bs =
    (case dec bs of None \<Rightarrow> None
     | Some (x, used) \<Rightarrow>
         (case parse_seq dec n (drop used bs) of None \<Rightarrow> None
          | Some (xs, rest) \<Rightarrow> Some (x # xs, rest)))"

locale prefix_codec =
  fixes enc :: "'a \<Rightarrow> bytes"
    and dec :: "bytes \<Rightarrow> ('a \<times> nat) option"
    and ok :: "'a \<Rightarrow> bool"
  assumes dec_enc: "ok x \<Longrightarrow> dec (enc x @ rest) = Some (x, length (enc x))"
begin

lemma unique_parse:
  assumes "ok x" "ok y" "enc x @ r = enc y @ s"
  shows "x = y \<and> r = s"
  using dec_enc [OF assms(1), of r] dec_enc [OF assms(2), of s] assms(3) by auto

lemma enc_inject: "ok x \<Longrightarrow> ok y \<Longrightarrow> enc x = enc y \<longleftrightarrow> x = y"
  using unique_parse [of x y "[]" "[]"] by auto

lemma parse_seq_enc:
  "list_all ok xs \<Longrightarrow> parse_seq dec (length xs) (concat (map enc xs) @ rest) = Some (xs, rest)"
  by (induction xs) (simp_all add: dec_enc)

end

definition res_option :: "'e + 'a \<Rightarrow> 'a option" where
  "res_option r = (case r of Inl _ \<Rightarrow> None | Inr x \<Rightarrow> Some x)"

lemma res_option_simps [simp]: "res_option (Inl e) = None" "res_option (Inr x) = Some x"
  by (simp_all add: res_option_def)

section \<open>Comparisons that fold the differences\<close>

lemma or_eq_zero: "(x :: 'a::len word) OR y = 0 \<longleftrightarrow> x = 0 \<and> y = 0"
  by (auto simp: bit_eq_iff bit_simps)

lemma xor_eq_zero: "(x :: 'a::len word) XOR y = 0 \<longleftrightarrow> x = y"
  by (auto simp: bit_eq_iff bit_simps)

end
