(* ===== verification/Normalize.thy ===== *)
theory Normalize
  imports Prelude
begin

text \<open>
  Request-target normalisation: \<open>crates/tomcatrs-coyote/src/normalize.rs\<close>.
\<close>

record NormalizedUri =
  uri_path :: string
  uri_query :: "string option"

datatype NormalizeError =
    PathTraversal
  | Backslash
  | NulByte
  | EncodedSlash
  | BadPercentEncoding
  | InvalidUtf8
  | NotAbsolute

definition hex_val :: "u8 \<Rightarrow> u8 option" where
  "hex_val b =
    (if 0x30 \<le> b \<and> b \<le> 0x39 then Some (b - 0x30)
     else if 0x61 \<le> b \<and> b \<le> 0x66 then Some (b - 0x61 + 10)
     else if 0x41 \<le> b \<and> b \<le> 0x46 then Some (b - 0x41 + 10)
     else None)"

text \<open>
  \<open>percent_decode\<close>: the index loop is recursion on the bytes from the index on; fewer than
  two bytes after a percent sign is the code's \<open>i + 2 >= input.len()\<close>.
\<close>

fun percent_decode :: "bytes \<Rightarrow> NormalizeError + bytes" where
  "percent_decode [] = Ok []"
| "percent_decode (b # input) =
    (if b = 0x25 then
       (case input of
          h # l # rest \<Rightarrow>
            and_then (ok_or (hex_val h) BadPercentEncoding) (\<lambda>hi.
            and_then (ok_or (hex_val l) BadPercentEncoding) (\<lambda>lo.
              let byte = push_bit 4 hi OR lo in
              if byte = 0x2F then Err EncodedSlash
              else if byte = 0 then Err NulByte
              else and_then (percent_decode rest) (\<lambda>out. Ok (byte # out))))
        | _ \<Rightarrow> Err BadPercentEncoding)
     else if b = 0 then Err NulByte
     else and_then (percent_decode input) (\<lambda>out. Ok (b # out)))"

text \<open>\<open>collapse_dot_segments\<close>: the loop over the segments, then the rebuilt path.\<close>

fun collapse_loop :: "string list \<Rightarrow> string list \<Rightarrow> NormalizeError + string list" where
  "collapse_loop stack [] = Ok stack"
| "collapse_loop stack (segment # segments) =
    (if segment = [] \<or> segment = ''.'' then collapse_loop stack segments
     else if segment = ''..'' then
       (if stack = [] then Err PathTraversal else collapse_loop (butlast stack) segments)
     else collapse_loop (stack @ [segment]) segments)"

definition collapse_dot_segments :: "string \<Rightarrow> NormalizeError + string" where
  "collapse_dot_segments p =
    (let trailing_slash = (1 < length p \<and> last p = CHR ''/'') in
     and_then (collapse_loop [] (split_on CHR ''/'' p)) (\<lambda>stack.
       let result = CHR ''/'' # join_with CHR ''/'' stack in
       Ok (if trailing_slash \<and> 1 < length result then result @ ''/'' else result)))"

definition normalize_target :: "string \<Rightarrow> NormalizeError + NormalizedUri" where
  "normalize_target target =
    (let (raw_path, q) =
       (case str_find CHR ''?'' target of
          Some idx \<Rightarrow> (take idx target, Some (drop (idx + 1) target))
        | None \<Rightarrow> (target, None))
     in if raw_path = ''*'' then Ok \<lparr>uri_path = ''*'', uri_query = q\<rparr>
        else if raw_path = [] \<or> hd raw_path \<noteq> CHR ''/'' then Err NotAbsolute
        else if 0x5C \<in> set (as_bytes raw_path) then Err Backslash
        else and_then (percent_decode (as_bytes raw_path)) (\<lambda>decoded.
          if 0x5C \<in> set decoded then Err Backslash
          else and_then (ok_or (from_utf8 decoded) InvalidUtf8) (\<lambda>decoded_str.
            and_then (collapse_dot_segments decoded_str) (\<lambda>p.
              Ok \<lparr>uri_path = p, uri_query = q\<rparr>))))"

section \<open>Segments\<close>

definition is_name :: "string \<Rightarrow> bool" where
  "is_name s \<longleftrightarrow> s \<noteq> [] \<and> s \<noteq> ''.'' \<and> s \<noteq> ''..'' \<and> CHR ''/'' \<notin> set s"

lemma collapse_loop_names:
  "collapse_loop stack segs = Ok out \<Longrightarrow> list_all is_name stack \<Longrightarrow>
   list_all (\<lambda>s. CHR ''/'' \<notin> set s) segs \<Longrightarrow> list_all is_name out"
proof (induction segs arbitrary: stack)
  case Nil
  then show ?case by simp
next
  case (Cons s segs)
  consider "s = [] \<or> s = ''.''" | "s = ''..''" | "is_name s"
    using Cons.prems(3) by (auto simp: is_name_def)
  then show ?case
  proof cases
    case 3
    then show ?thesis
      using Cons.prems Cons.IH [of "stack @ [s]"] by (simp add: is_name_def)
  qed (use Cons.prems in \<open>auto split: if_splits intro!: Cons.IH simp: list_all_butlast\<close>)
qed

lemma collapse_loop_all_names:
  "list_all is_name segs \<Longrightarrow> collapse_loop stack segs = Ok (stack @ segs)"
  by (induction segs arbitrary: stack) (simp_all add: is_name_def)

lemma collapse_loop_append:
  "collapse_loop stack (xs @ ys) = and_then (collapse_loop stack xs) (\<lambda>st. collapse_loop st ys)"
  by (induction xs arbitrary: stack) simp_all

text \<open>
  Specification of the traversal check: the depth below the root a sequence of segments reaches.
\<close>

definition seg_delta :: "string \<Rightarrow> int" where
  "seg_delta s = (if s = [] \<or> s = ''.'' then 0 else if s = ''..'' then -1 else 1)"

definition depth :: "string list \<Rightarrow> int" where
  "depth segs = sum_list (map seg_delta segs)"

lemma depth_simps [simp]: "depth [] = 0" "depth (s # ss) = seg_delta s + depth ss"
  by (simp_all add: depth_def)

lemma ex_take_Cons: "(\<exists>k. P (take k (s # ss))) \<longleftrightarrow> P [] \<or> (\<exists>k. P (s # take k ss))"
  by (metis take_0 take_Suc_Cons not0_implies_Suc)

lemma collapse_loop_Err:
  "collapse_loop stack segs = Err e \<longleftrightarrow>
     e = PathTraversal \<and> (\<exists>k. int (length stack) + depth (take k segs) < 0)"
proof (induction segs arbitrary: stack)
  case Nil
  then show ?case by simp
next
  case (Cons s segs)
  have step: "(\<exists>k. int (length stack) + depth (take k (s # segs)) < 0)
     \<longleftrightarrow> (\<exists>k. int (length stack) + (seg_delta s + depth (take k segs)) < 0)"
    by (subst ex_take_Cons) simp
  consider "s = [] \<or> s = ''.''" | "s = ''..''" "stack = []" | "s = ''..''" "stack \<noteq> []"
    | "s \<noteq> []" "s \<noteq> ''.''" "s \<noteq> ''..''" by blast
  then show ?case
  proof cases
    case 1
    then show ?thesis unfolding step by (auto simp: Cons.IH seg_delta_def)
  next
    case 2
    have "depth (take 0 segs) = 0" by simp
    then show ?thesis unfolding step using 2 
      by (auto simp: seg_delta_def intro!: exI[of _ 0])
  next
    case 3
    then show ?thesis unfolding step 
      by (simp add: Cons.IH seg_delta_def algebra_simps of_nat_diff Suc_leI)
  next
    case 4
    then show ?thesis unfolding step by (simp add: Cons.IH seg_delta_def algebra_simps)
  qed
qed

text \<open>
  Specification of what is left: read from the right, the number of double dots that have crossed out no
  name yet, and the names that none crosses out.
\<close>

fun cancelled :: "string list \<Rightarrow> nat \<times> string list" where
  "cancelled [] = (0, [])"
| "cancelled (s # ss) =
    (case cancelled ss of
       (climbs, ns) \<Rightarrow>
         if s = [] \<or> s = ''.'' then (climbs, ns)
         else if s = ''..'' then (climbs + 1, ns)
         else if 0 < climbs then (climbs - 1, ns)
         else (0, s # ns))"

lemma collapse_loop_cancelled:
  assumes "cancelled segs = (climbs, ns)"
  shows "collapse_loop stack segs =
    (if length stack < climbs then Err PathTraversal else Ok (take (length stack - climbs) stack @ ns))"
  using assms
proof (induction segs arbitrary: stack climbs ns)
  case (Cons s segs)
  obtain k ms where c: "cancelled segs = (k, ms)" by fastforce
  note IH = Cons.IH [OF c]
  consider "s = [] \<or> s = ''.''" | "s = ''..''" "stack = []" | "s = ''..''" "stack \<noteq> []"
    | "s \<noteq> []" "s \<noteq> ''.''" "s \<noteq> ''..''" by blast
  then show ?case
  proof cases
    case 1
    then show ?thesis using Cons.prems c IH by auto
  next
    case 2
    then show ?thesis using Cons.prems c by auto
  next
    case 3
    then show ?thesis using Cons.prems c IH [of "butlast stack"] by (cases stack rule: rev_cases) auto
  next
    case 4
    then show ?thesis using Cons.prems c IH [of "stack @ [s]"] by (cases "0 < k") (auto simp: Suc_diff_le)
  qed
qed simp

section \<open>Percent decoding\<close>

lemma percent_decode_no_nul: "percent_decode bs = Ok out \<Longrightarrow> 0 \<notin> set out"
  by (induction bs arbitrary: out rule: percent_decode.induct)
    (auto simp: res_simps Let_def split: if_splits list.splits)

lemma hex_val_slash [simp]: "hex_val 0x2F = None"
  by (simp add: hex_val_def)

lemma percent_decode_count_slash:
  "percent_decode bs = Ok out \<Longrightarrow> count_list out 0x2F = count_list bs 0x2F"
  by (induction bs arbitrary: out rule: percent_decode.induct)
   (auto simp: res_simps Let_def split: if_splits list.splits)

lemma percent_decode_literal:
  "0x25 \<notin> set bs \<Longrightarrow> 0 \<notin> set bs \<Longrightarrow> percent_decode bs = Ok bs"
  by (induction bs) auto

lemma percent_decode_hd:
  "percent_decode (0x2F # bs) = Ok out \<Longrightarrow> \<exists>out'. out = 0x2F # out'"
  by (auto simp: res_simps)

section \<open>Canonical paths\<close>

definition safe_path :: "string \<Rightarrow> bool" where
  "safe_path p \<longleftrightarrow>
    (case split_on CHR ''/'' p of
       first # segs \<Rightarrow> first = [] \<and> segs \<noteq> [] \<and> list_all is_name (butlast segs)
         \<and> (last segs = [] \<or> is_name (last segs))
     | [] \<Rightarrow> False)
    \<and> CHR 0x00 \<notin> set p \<and> CHR 0x5C \<notin> set p"

lemma is_name_noslash: "list_all is_name ns \<Longrightarrow> s \<in> set ns \<Longrightarrow> CHR ''/'' \<notin> set s"
  by (auto simp: list_all_iff is_name_def)

lemma split_on_join_names:
  assumes "list_all is_name ns"
  shows "split_on CHR ''/'' (join_with CHR ''/'' ns) = (if ns = [] then [[]] else ns)"
    and "split_on CHR ''/'' (join_with CHR ''/'' (ns @ [[]])) = ns @ [[]]"
proof -
  have *: "CHR ''/'' \<notin> set p" if "p \<in> set ns" for p
    using assms that by (rule is_name_noslash)
  then show "split_on CHR ''/'' (join_with CHR ''/'' ns) = (if ns = [] then [[]] else ns)"
    by (simp add: split_on_join)
  show "split_on CHR ''/'' (join_with CHR ''/'' (ns @ [[]])) = ns @ [[]]"
    by (rule split_on_join) (use * in auto)
qed

lemma split_root_join:
  assumes "list_all is_name ns"
  shows "split_on CHR ''/'' (CHR ''/'' # join_with CHR ''/'' ns) = [] # (if ns = [] then [[]] else ns)"
    and "ns \<noteq> [] \<Longrightarrow>
      split_on CHR ''/'' (CHR ''/'' # join_with CHR ''/'' ns @ ''/'') = [] # ns @ [[]]"
  using split_on_join_names [OF assms] by (simp_all add: join_with_append)

lemma join_names_ne: "list_all is_name xs \<Longrightarrow> join_with c xs = [] \<longleftrightarrow> xs = []"
  by (auto simp: join_with_eq_Nil is_name_def)

lemma collapse_dot_segments_shape:
  assumes "collapse_dot_segments p = Ok q"
  shows "\<exists>ns. list_all is_name ns \<and> collapse_loop [] (split_on CHR ''/'' p) = Ok ns \<and>
    (q = CHR ''/'' # join_with CHR ''/'' ns
     \<or> ns \<noteq> [] \<and> q = CHR ''/'' # join_with CHR ''/'' ns @ ''/'')"
proof -
  from assms obtain ns where ns: "collapse_loop [] (split_on CHR ''/'' p) = Ok ns"
    and q: "q = CHR ''/'' # join_with CHR ''/'' ns
     \<or> ns \<noteq> [] \<and> q = CHR ''/'' # join_with CHR ''/'' ns @ ''/''"
    by (auto simp: collapse_dot_segments_def res_simps Let_def split: if_splits dest: join_with_ne)
  have "list_all is_name ns"
    using ns by (rule collapse_loop_names) (auto simp: list_all_iff dest: split_on_no_sep)
  with ns q show ?thesis by blast
qed

lemma collapse_dot_segments_split:
  assumes "collapse_dot_segments p = Ok q"
  shows "\<exists>segs. split_on CHR ''/'' q = [] # segs \<and> segs \<noteq> [] \<and> list_all is_name (butlast segs)
    \<and> (last segs = [] \<or> is_name (last segs))"
  using collapse_dot_segments_shape [OF assms]
  by (auto simp: split_root_join list_all_butlast list_all_last simp del: split_on.simps)

lemma collapse_loop_chars:
  "collapse_loop stack segs = Ok out \<Longrightarrow> set out \<subseteq> set stack \<union> set segs"
proof (induction segs arbitrary: stack)
  case (Cons s segs)
  then show ?case
    by (auto split: if_splits dest!: Cons.IH dest: in_set_butlastD)
qed simp

lemma collapse_dot_segments_chars:
  assumes "collapse_dot_segments p = Ok q"
  shows "set q \<subseteq> insert CHR ''/'' (set p)"
proof -
  obtain ns where ns: "collapse_loop [] (split_on CHR ''/'' p) = Ok ns"
    and q: "set q \<subseteq> insert CHR ''/'' (set (join_with CHR ''/'' ns))"
    using collapse_dot_segments_shape [OF assms] by auto
  have "\<Union> (set (map set ns)) \<subseteq> set p"
    using collapse_loop_chars [OF ns] split_on_chars by fastforce
  then show ?thesis
    using q set_join_with [of "CHR ''/''" ns] by blast
qed

lemma collapse_safe_fixpoint:
  assumes "safe_path p"
  shows "collapse_dot_segments p = Ok p"
proof -
  obtain segs where sp: "split_on CHR ''/'' p = [] # segs" and ne: "segs \<noteq> []"
    and bl: "list_all is_name (butlast segs)" and la: "last segs = [] \<or> is_name (last segs)"
    using assms by (auto simp: safe_path_def split: list.splits)
  have p: "p = CHR ''/'' # join_with CHR ''/'' segs"
    using join_with_split_on [of "CHR ''/''" p] ne unfolding sp by (cases segs) auto
  have segs: "segs = butlast segs @ [last segs]" using ne by simp
  let ?ns = "butlast segs"
  show ?thesis
  proof (cases "last segs = []")
    case True
    have "collapse_loop [] ([] # segs) = Ok ?ns"
      using True bl by (subst segs) (simp add: collapse_loop_append collapse_loop_all_names)
    moreover have "p = CHR ''/'' # (if ?ns = [] then [] else join_with CHR ''/'' ?ns @ ''/'')"
      unfolding p using True by (subst segs) (auto simp: join_with_append)
    moreover from this have "(1 < length p \<and> last p = CHR ''/'') = (?ns \<noteq> [])"
      by auto
    ultimately show ?thesis
      using join_names_ne [OF bl] unfolding collapse_dot_segments_def sp by simp
  next
    case False
    with la have nm: "is_name (last segs)" by simp
    then have "list_all is_name segs" using bl by (subst segs) simp
    then have "collapse_loop [] ([] # segs) = Ok segs"
      by (simp add: collapse_loop_all_names)
    moreover have "last p \<noteq> CHR ''/''"
    proof -
      have "p = (if ?ns = [] then [] else CHR ''/'' # join_with CHR ''/'' ?ns) @ CHR ''/'' # last segs"
        unfolding p by (subst segs) (auto simp: join_with_append)
      then have "last p = last (last segs)"
        using False by auto
      then show ?thesis using nm False last_in_set by (force simp: is_name_def)
    qed
    ultimately show ?thesis
      unfolding collapse_dot_segments_def sp by (simp add: p)
  qed
qed
lemma collapse_dot_segments_valid:
  assumes "collapse_dot_segments p = Ok q" "valid_str p"
  shows "valid_str q"
proof -
  obtain ns where ns: "collapse_loop [] (split_on CHR ''/'' p) = Ok ns"
    and q: "q = CHR ''/'' # join_with CHR ''/'' ns
     \<or> q = CHR ''/'' # join_with CHR ''/'' ns @ ''/''"
    using collapse_dot_segments_shape [OF assms(1)] by blast
  have "list_all valid_str (split_on CHR ''/'' p)"
    using assms(2) valid_str_split_on [of "CHR ''/''" p] by simp
  then have "list_all valid_str ns"
    using collapse_loop_chars [OF ns] by (auto simp: list_all_iff)
  then have "valid_str (join_with CHR ''/'' ns)"
    by (simp add: valid_str_join)
  then show ?thesis
    using q by (auto simp: valid_str_Cons_ascii valid_str_append_ascii [of _ _ "[]"])
qed

lemma normalize_target_OkE:
  assumes "normalize_target t = Ok u"
  obtains "uri_path u = ''*''" | raw decoded ds where
    "percent_decode (as_bytes raw) = Ok decoded" "hd raw = CHR ''/''" "raw \<noteq> []"
    "0x5C \<notin> set decoded" "from_utf8 decoded = Some ds"
    "collapse_dot_segments ds = Ok (uri_path u)"
proof -
  have "uri_path u = ''*'' \<or> (\<exists>raw decoded ds. percent_decode (as_bytes raw) = Ok decoded \<and>
      hd raw = CHR ''/'' \<and> raw \<noteq> [] \<and> 0x5C \<notin> set decoded \<and> from_utf8 decoded = Some ds \<and>
      collapse_dot_segments ds = Ok (uri_path u))"
    using assms
    by (cases "str_find CHR ''?'' t")
      (auto simp: normalize_target_def res_simps simp del: take_eq_Nil hd_take split: if_splits; blast)+
  then show ?thesis using that by blast
qed

lemma set_as_bytes_of_utf8: "from_utf8 bs = Some s \<Longrightarrow> byte_of c \<in> set bs \<longleftrightarrow> c \<in> set s"
  by (metis from_utf8_Some mem_as_bytes)

lemma normalize_safe_path:
  assumes "normalize_target t = Ok u" "uri_path u \<noteq> ''*''"
  shows "safe_path (uri_path u)"
  using assms(1)
proof (cases rule: normalize_target_OkE)
  case 1
  then show ?thesis using assms(2) by simp
next
  case (2 raw decoded ds)
  have "0 \<notin> set decoded" using 2(1) by (rule percent_decode_no_nul)
  then have "CHR 0x00 \<notin> set ds" "CHR 0x5C \<notin> set ds"
    using 2 set_as_bytes_of_utf8 [of decoded ds "CHR 0x00"] set_as_bytes_of_utf8 [of decoded ds "CHR 0x5C"]
    by simp_all
  then have "CHR 0x00 \<notin> set (uri_path u)" "CHR 0x5C \<notin> set (uri_path u)"
    using collapse_dot_segments_chars [OF 2(6)] by auto
  then show ?thesis
    using collapse_dot_segments_split [OF 2(6)] by (auto simp: safe_path_def)
qed

section \<open>Properties\<close>

text \<open>
  C1. Whatever the request target, a path that \<open>normalize_target\<close> returns (other than the
  asterisk form) is canonical: it is absolute, no segment is empty, a dot or a double dot (only
  the last may be empty, for a trailing slash), and it holds no NUL byte and no backslash.
\<close>

theorem normalize_target_safe:
  assumes "normalize_target t = Ok u" "uri_path u \<noteq> ''*''"
  shows "safe_path (uri_path u)"
  using assms by (rule normalize_safe_path)

theorem normalize_target_safe_witness:
  "safe_path ''/a/c''"
proof -
  have "normalize_target ''/a/./b/%2e%2e//c?q=%2e'' = Ok \<lparr>uri_path = ''/a/c'', uri_query = Some ''q=%2e''\<rparr>"
    by code_simp
  from normalize_target_safe [OF this] show ?thesis by simp
qed

text \<open>
  Canonical paths are fixpoints: a canonical path without percent sign or question mark is
  accepted and returned as it is, without a query. With the previous property, normalising a
  second time changes nothing.
\<close>

lemma normalize_target_fixpoint:
  assumes "valid_str p" "safe_path p" "CHR ''%'' \<notin> set p" "CHR ''?'' \<notin> set p"
  shows "normalize_target p = Ok \<lparr>uri_path = p, uri_query = None\<rparr>"
proof -
  have chars: "CHR 0x00 \<notin> set p" "CHR 0x5C \<notin> set p"
    using assms(2) by (auto simp: safe_path_def)
  have hd: "p \<noteq> []" "hd p = CHR ''/''"
    using assms(2) by (cases p; auto simp: safe_path_def split: if_splits list.splits)+
  have "percent_decode (as_bytes p) = Ok (as_bytes p)"
    by (rule percent_decode_literal) (use assms(3) chars mem_as_bytes [of "CHR ''%''" p] mem_as_bytes [of "CHR 0x00" p] in simp_all)
  moreover have "0x5C \<notin> set (as_bytes p)"
    using chars mem_as_bytes [of "CHR 0x5C" p] by simp
  moreover have "str_find CHR ''?'' p = None"
    using assms(4) by (simp add: str_find_None)
  moreover have "p \<noteq> ''*''" using hd by auto
  ultimately show ?thesis
    using hd assms(1) collapse_safe_fixpoint [OF assms(2)]
    by (simp add: normalize_target_def)
qed

lemma normalize_target_fixpoint_witness:
  "normalize_target ''/a/b.html/'' = Ok \<lparr>uri_path = ''/a/b.html/'', uri_query = None\<rparr>"
  by (rule normalize_target_fixpoint) code_simp+

text \<open>
  C9. Collapsing dot segments computes the path that is read from the right, each \<open>..\<close> crossing out the
  nearest name before it that is not crossed out yet: if some \<open>..\<close> finds no name, the path climbs above the
  root and the answer is \<open>PathTraversal\<close>, which is so exactly when a prefix of the segments holds more double
  dots than names; otherwise the names that are left are joined by single slashes behind a slash, and a slash
  follows them if the path ended in one and a name is left. A final dot segment leaves no slash, unlike in
  RFC 3986.
\<close>

theorem collapse_dot_segments_exact:
  "collapse_dot_segments p =
     (case cancelled (split_on CHR ''/'' p) of
        (climbs, ns) \<Rightarrow>
          if 0 < climbs then Err PathTraversal
          else Ok (CHR ''/'' # join_with CHR ''/'' ns @
            (if 1 < length p \<and> last p = CHR ''/'' \<and> ns \<noteq> [] then ''/'' else []))) \<and>
   (collapse_dot_segments p = Err e \<longleftrightarrow>
     e = PathTraversal \<and> (\<exists>k. depth (take k (split_on CHR ''/'' p)) < 0))"
proof
  obtain climbs ns where c: "cancelled (split_on CHR ''/'' p) = (climbs, ns)" by (metis surj_pair)
  have loop: "collapse_loop [] (split_on CHR ''/'' p) = (if 0 < climbs then Err PathTraversal else Ok ns)"
    using collapse_loop_cancelled [OF c, of "[]"] by simp
  have names: "list_all is_name ns" if "\<not> 0 < climbs"
  proof (rule collapse_loop_names)
    show "collapse_loop [] (split_on CHR ''/'' p) = Ok ns" using loop that by simp
    show "list_all (\<lambda>s. CHR ''/'' \<notin> set s) (split_on CHR ''/'' p)" by (auto simp: list_all_iff dest: split_on_no_sep)
  qed simp
  show "collapse_dot_segments p =
     (case cancelled (split_on CHR ''/'' p) of
        (climbs, ns) \<Rightarrow>
          if 0 < climbs then Err PathTraversal
          else Ok (CHR ''/'' # join_with CHR ''/'' ns @
            (if 1 < length p \<and> last p = CHR ''/'' \<and> ns \<noteq> [] then ''/'' else [])))"
  proof (cases "0 < climbs")
    case True
    then show ?thesis by (simp only: collapse_dot_segments_def loop c Let_def) simp
  next
    case False
    then show ?thesis using join_names_ne [OF names [OF False], of "CHR ''/''"]
      by (simp only: collapse_dot_segments_def loop c Let_def) simp
  qed
  have "collapse_dot_segments p = Err e \<longleftrightarrow> collapse_loop [] (split_on CHR ''/'' p) = Err e"
    by (simp add: collapse_dot_segments_def res_simps Let_def)
  then show "collapse_dot_segments p = Err e \<longleftrightarrow>
      e = PathTraversal \<and> (\<exists>k. depth (take k (split_on CHR ''/'' p)) < 0)"
    by (simp add: collapse_loop_Err)
qed

text \<open>
  Percent-decoding introduces no path separator and no NUL byte: the decoded path has as many
  slashes as the raw one, since an encoded slash is refused.
\<close>

lemma percent_decode_no_new_slash:
  assumes "percent_decode bs = Ok out"
  shows "count_list out 0x2F = count_list bs 0x2F \<and> 0 \<notin> set out"
  using assms percent_decode_count_slash percent_decode_no_nul by blast

lemma percent_decode_no_new_slash_witness:
  "count_list (as_bytes ''/a b'') 0x2F = count_list (as_bytes ''/a%20b'') 0x2F
   \<and> 0 \<notin> set (as_bytes ''/a b'')"
proof -
  have "percent_decode (as_bytes ''/a%20b'') = Ok (as_bytes ''/a b'')" by code_simp
  then show ?thesis by (rule percent_decode_no_new_slash)
qed

end
