(* ===== verification/HpackPrim.thy ===== *)
theory HpackPrim
  imports Prelude
begin

text \<open>
  HPACK errors and the variable-length integer code:
  \<open>crates/tomcatrs-coyote/src/hpack.rs\<close>, lines 46-110 and 392-459.
\<close>

text \<open>The reason of an \<open>InvalidHuffman\<close> error is the code's message.\<close>

datatype HpackError =
    IntegerOverflow
  | Truncated
  | InvalidIndex nat
  | InvalidHuffman string
  | InvalidUtf8
  | TableSizeExceeded (requested: nat) (limit: nat)
  | HeaderListTooLarge nat
  | UnexpectedTableSizeUpdate

section \<open>Integers\<close>

text \<open>The loop that emits the continuation bytes of \<open>remaining\<close>.\<close>

function encode_rest :: "nat \<Rightarrow> bytes" where
  "encode_rest remaining =
    (if 128 \<le> remaining then of_nat (remaining AND 0x7F OR 0x80) # encode_rest (drop_bit 7 remaining)
     else [of_nat remaining])"
  by pat_completeness auto
termination
  by (relation "measure id") (auto simp: drop_bit_eq_div)

declare encode_rest.simps [simp del]

definition encode_integer :: "nat \<Rightarrow> nat \<Rightarrow> bytes" where
  "encode_integer value prefix_bits =
    (let max_prefix = push_bit prefix_bits 1 - 1 in
     if value < max_prefix then [of_nat value]
     else of_nat max_prefix # encode_rest (value - max_prefix))"

fun decode_int_loop :: "bytes \<Rightarrow> nat \<Rightarrow> nat \<Rightarrow> nat \<Rightarrow> HpackError + nat \<times> nat" where
  "decode_int_loop [] value shift consumed = Err Truncated"
| "decode_int_loop (b # bs) value shift consumed =
    (if 64 \<le> shift then Err IntegerOverflow
     else let candidate = value + push_bit shift (unat (b AND 0x7F)) in
       if usize_max < candidate then Err IntegerOverflow
       else if b AND 0x80 = 0 then Ok (candidate, consumed + 1)
       else decode_int_loop bs candidate (shift + 7) (consumed + 1))"

definition decode_integer :: "bytes \<Rightarrow> nat \<Rightarrow> HpackError + nat \<times> nat" where
  "decode_integer bs prefix_bits =
    (let max_prefix = push_bit prefix_bits 1 - 1 in
     case bs of [] \<Rightarrow> Err Truncated
     | first # rest \<Rightarrow>
         let prefix = unat first AND max_prefix in
         if prefix < max_prefix then Ok (prefix, 1)
         else decode_int_loop rest max_prefix 0 1)"

text \<open>\<open>tmp[0] |= flag\<close>: the callers set the flag bits of the first byte.\<close>

definition or_first :: "u8 \<Rightarrow> bytes \<Rightarrow> bytes" where
  "or_first flag bs = (case bs of [] \<Rightarrow> [] | b # bs' \<Rightarrow> (b OR flag) # bs')"

section \<open>Lemmas\<close>

lemma mask7 [simp]: "(r::nat) AND 0x7F = r mod 128"
  using take_bit_eq_mask [of 7 r] by (simp add: take_bit_eq_mod mask_eq_exp_minus_1)

lemma u8_high_bit: "(b :: u8) AND 0x80 = 0 \<longleftrightarrow> \<not> bit b 7"
  using and_exp_eq_0_iff_not_bit [of b 7] by simp

lemma u8_low_bits: "unat ((b :: u8) AND 0x7F) = unat b mod 128"
  using take_bit_eq_mask [of 7 b] unsigned_take_bit_eq [of 7 b, where ?'a = nat]
  by (simp add: mask_eq_exp_minus_1 take_bit_eq_mod)

lemma cont_byte:
  "(of_nat (r mod 128 OR 0x80) :: u8) AND 0x80 \<noteq> 0"
  "unat ((of_nat (r mod 128 OR 0x80) :: u8) AND 0x7F) = r mod 128"
proof -
  have b: "bit (0x80 :: nat) 7" by (simp add: bit_iff_odd)
  show "(of_nat (r mod 128 OR 0x80) :: u8) AND 0x80 \<noteq> 0"
    unfolding u8_high_bit using b by (simp add: bit_simps)
  have "(r mod 128 OR 0x80) mod 128 = r mod 128"
    using take_bit_or [of 7 "r mod 128" "0x80 :: nat"] by (simp add: take_bit_eq_mod)
  then show "unat ((of_nat (r mod 128 OR 0x80) :: u8) AND 0x7F) = r mod 128"
    unfolding u8_low_bits by (simp add: unat_of_nat mod_mod_cancel)
qed

lemma last_byte:
  assumes "r < 128"
  shows "(of_nat r :: u8) AND 0x80 = 0" "unat ((of_nat r :: u8) AND 0x7F) = r"
proof -
  have "\<not> bit r 7" using assms by (simp add: bit_iff_odd)
  then show "(of_nat r :: u8) AND 0x80 = 0"
    unfolding u8_high_bit by (simp add: bit_simps)
  show "unat ((of_nat r :: u8) AND 0x7F) = r"
    unfolding u8_low_bits using assms by (simp add: unat_of_nat)
qed

lemma decode_encode_rest:
  "push_bit shift r + v \<le> usize_max \<Longrightarrow> shift < 64 \<Longrightarrow>
   decode_int_loop (encode_rest r @ rest) v shift consumed
     = Ok (push_bit shift r + v, consumed + length (encode_rest r))"
proof (induction r arbitrary: v shift consumed rule: encode_rest.induct)
  case (1 r)
  show ?case
  proof (cases "128 \<le> r")
    case False
    then show ?thesis
      using 1 by (simp add: encode_rest.simps [of r] last_byte add.commute)
  next
    case True
    define c where "c = v + push_bit shift (r mod 128)"
    have split: "push_bit shift r + v = push_bit (shift + 7) (drop_bit 7 r) + c"
    proof -
      define q m where "q = r div 128" and "m = r mod 128"
      have "r = 128 * q + m" by (simp add: q_def m_def)
      then have "push_bit shift r = push_bit (shift + 7) q + push_bit shift m"
        by (simp add: push_bit_eq_mult power_add algebra_simps)
      then show ?thesis
        by (simp add: c_def q_def m_def drop_bit_eq_div)
    qed
    have "push_bit (shift + 7) (1::nat) \<le> push_bit shift r"
      using True by (simp add: push_bit_eq_mult power_add)
    also have "push_bit shift r < 2 ^ 64" using 1(2) by (simp add: usize_max_def)
    finally have "(2::nat) ^ (shift + 7) < 2 ^ 64"
      unfolding push_bit_eq_mult by simp
    then have "shift + 7 < 64"
      by (rule power_less_imp_less_exp [rotated]) simp
    moreover have "c \<le> usize_max"
      using 1(2) split by simp
    ultimately show ?thesis
      using True 1 split by (simp add: encode_rest.simps [of r] cont_byte c_def [symmetric])
  qed
qed

lemma push_bit_mask: "push_bit n (1::nat) - 1 = mask n"
  by (simp add: push_bit_eq_mult mask_eq_exp_minus_1)

lemma encode_integer_mask:
  "encode_integer v p =
    (if v < mask p then [of_nat v] else of_nat (mask p) # encode_rest (v - mask p))"
  unfolding encode_integer_def push_bit_mask Let_def by simp

lemma decode_integer_mask:
  "decode_integer (b # bs) p =
    (if unat b AND mask p < mask p then Ok (unat b AND mask p, 1) else decode_int_loop bs (mask p) 0 1)"
  unfolding decode_integer_def push_bit_mask Let_def by simp

lemma flagged_prefix:
  assumes "n < 2 ^ p" "p \<le> 8" "take_bit p flag = 0"
  shows "unat ((of_nat n :: u8) OR flag) AND mask p = n"
proof -
  have "take_bit p ((of_nat n :: u8) OR flag) = take_bit p (of_nat n)"
    using assms(3) by (simp add: take_bit_or)
  then have "take_bit p (unat ((of_nat n :: u8) OR flag)) = take_bit p (unat (of_nat n :: u8))"
    by (metis unsigned_take_bit_eq)
  also have "unat (of_nat n :: u8) = n"
  proof -
    have "n < 2 ^ 8"
      using assms(1,2) less_le_trans [of n "2 ^ p" "2 ^ 8"] power_increasing [of p 8 "2::nat"] by simp
    then show ?thesis by (simp add: unat_of_nat)
  qed
  finally show ?thesis
    using assms(1) by (simp add: take_bit_eq_mask [symmetric] take_bit_nat_eq_self)
qed

lemma encode_rest_ne [simp]: "encode_rest r \<noteq> []"
  by (subst encode_rest.simps) simp

lemma length_or_first [simp]: "length (or_first flag bs) = length bs"
  by (simp add: or_first_def split: list.split)

lemma encode_integer_ne [simp]: "encode_integer v p \<noteq> []"
  by (simp add: encode_integer_def Let_def)

lemma decode_int_loop_bounds:
  "decode_int_loop bs v shift consumed = Ok (n, used) \<Longrightarrow>
   consumed < used \<and> used \<le> consumed + length bs \<and> 7 * (used - consumed) + shift < 64 + 7 \<and> n \<le> usize_max
   \<and> v \<le> n"
  by (induction bs v shift consumed rule: decode_int_loop.induct)
    (auto simp: Let_def split: if_splits)

lemma decode_encode_integer:
  assumes "v \<le> usize_max" "1 \<le> p" "p \<le> 8" "take_bit p flag = 0"
  shows "decode_integer (or_first flag (encode_integer v p) @ rest) p
    = Ok (v, length (encode_integer v p))"
proof (cases "v < mask p")
  case True
  then have "unat ((of_nat v :: u8) OR flag) AND mask p = v"
    using assms by (intro flagged_prefix) (auto simp: mask_eq_exp_minus_1)
  then show ?thesis
    using True by (simp add: encode_integer_mask decode_integer_mask or_first_def del: of_nat_mask_eq)
next
  case False
  have "unat ((of_nat (mask p) :: u8) OR flag) AND mask p = mask p"
    using assms by (intro flagged_prefix) (auto simp: mask_eq_exp_minus_1)
  then show ?thesis
    using False assms(1) decode_encode_rest [of 0 "v - mask p" "mask p" rest 1]
    by (simp add: encode_integer_mask decode_integer_mask or_first_def del: of_nat_mask_eq)
qed

lemma decode_integer_used:
  assumes "decode_integer bs p = Ok (n, used)" "p \<le> 8"
  shows "0 < used \<and> used \<le> length bs \<and> used \<le> 11 \<and> n \<le> usize_max"
proof (cases bs)
  case Nil
  then show ?thesis using assms by (simp add: decode_integer_def)
next
  case (Cons b rest)
  have "mask p \<le> usize_max"
    using power_increasing [OF assms(2), of "2 :: nat"] by (simp add: mask_eq_exp_minus_1 usize_max_def)
  then show ?thesis
    using assms Cons decode_int_loop_bounds [of rest "mask p" 0 1 n used]
    by (auto simp: decode_integer_mask split: if_splits)
qed

section \<open>The codec contract\<close>

lemma or_first_0 [simp]: "or_first 0 bs = bs"
  by (simp add: or_first_def split: list.split)

interpretation int_codec: prefix_codec
    "\<lambda>v. encode_integer v 7" "\<lambda>bs. res_option (decode_integer bs 7)" "\<lambda>v. v \<le> usize_max"
proof
  fix v :: nat and rest :: bytes
  assume "v \<le> usize_max"
  then show "res_option (decode_integer (encode_integer v 7 @ rest) 7)
      = Some (v, length (encode_integer v 7))"
    using decode_encode_integer [of v 7 0 rest] by simp
qed

section \<open>Properties\<close>

text \<open>
  Integer round trip: every \<open>usize\<close>, coded with any prefix width from 1 to 8 bits and any flag
  bits above the prefix, decodes to itself, whatever follows it, and decoding consumes exactly
  the bytes that encoding wrote.
\<close>

lemma decode_integer_encode_integer:
  assumes "v \<le> usize_max" "1 \<le> p" "p \<le> 8" "take_bit p flag = 0"
  shows "decode_integer (or_first flag (encode_integer v p) @ rest) p
    = Ok (v, length (encode_integer v p))"
  using assms by (rule decode_encode_integer)

lemma decode_integer_encode_integer_witness:
  "decode_integer (or_first 0x20 (encode_integer 1337 5) @ [7]) 5 = Ok (1337, length (encode_integer 1337 5))"
  by (rule decode_integer_encode_integer) (simp_all add: usize_max_def take_bit_eq_mod)

text \<open>
  Integer decoding is bounded: whatever the bytes, a decoded value fits a \<open>usize\<close>, and the
  bytes consumed are at least one, no more than there are, and at most eleven, so a peer cannot
  keep the loop running.
\<close>

lemma decode_integer_bounds:
  assumes "decode_integer bs p = Ok (n, used)" "p \<le> 8"
  shows "0 < used \<and> used \<le> length bs \<and> used \<le> 11 \<and> n \<le> usize_max"
  using assms by (rule decode_integer_used)

lemma decode_integer_bounds_witness:
  "0 < (3::nat) \<and> 3 \<le> length [0x1F :: u8, 0x9A, 0x0A] \<and> (3::nat) \<le> 11 \<and> (1337::nat) \<le> usize_max"
proof -
  have "decode_integer [0x1F, 0x9A, 0x0A] 5 = Ok (1337, 3)"
    using decode_encode_integer [of 1337 5 0 "[]"]
    by (simp add: encode_integer_mask encode_rest.simps usize_max_def mask_eq_exp_minus_1)
  then show ?thesis by (rule decode_integer_bounds) simp
qed

text \<open>
  Decoding sees every byte pattern the encoder can write exactly once: two flagged integers
  with the same prefix width that start the same byte string are the same integer, so an
  instruction's length never depends on what follows it.
\<close>

lemma encode_integer_unique:
  assumes "v \<le> usize_max" "w \<le> usize_max" "encode_integer v 7 @ r = encode_integer w 7 @ s"
  shows "v = w \<and> r = s"
  using assms by (rule int_codec.unique_parse)

lemma encode_integer_unique_witness:
  "(300 :: nat) = 300 \<and> [9 :: u8] = [9]"
  by (rule encode_integer_unique [of 300 300 "[9]" "[9]"]) (simp_all add: usize_max_def)

end
