(* ===== verification/BitLists.thy ===== *)
theory BitLists
  imports Prelude
begin

text \<open>
  Words as lists of bits, most significant first, and prefix codes over bit lists. The bit
  twiddling of the Huffman codec is proved against this vocabulary.
\<close>

section \<open>Bits of a word\<close>

definition bits_of :: "nat \<Rightarrow> 'a::len word \<Rightarrow> bool list" where
  "bits_of n w = map (bit w) (rev [0..<n])"

lemma length_bits_of [simp]: "length (bits_of n w) = n"
  by (simp add: bits_of_def)

lemma bits_of_0 [simp]: "bits_of 0 w = []"
  by (simp add: bits_of_def)

lemma nth_bits_of [simp]: "i < n \<Longrightarrow> bits_of n w ! i = bit w (n - Suc i)"
  by (simp add: bits_of_def rev_nth)

lemma bits_of_eq_iff: "bits_of n a = bits_of n b \<longleftrightarrow> (\<forall>i<n. bit a i = bit b i)"
  by (auto simp: bits_of_def)

lemma bits_of_shift_or:
  fixes a b :: "'a::len word"
  assumes "m + k \<le> LENGTH('a)" "\<And>i. k \<le> i \<Longrightarrow> \<not> bit b i"
  shows "bits_of (m + k) (push_bit k a OR b) = bits_of m a @ bits_of k b"
proof (rule nth_equalityI)
  fix i assume "i < length (bits_of (m + k) (push_bit k a OR b))"
  then have i: "i < m + k" by simp
  show "bits_of (m + k) (push_bit k a OR b) ! i = (bits_of m a @ bits_of k b) ! i"
  proof (cases "i < m")
    case True
    then have "m + k - Suc i = (m - Suc i) + k" "m + k - Suc i < LENGTH('a)" "k \<le> m + k - Suc i"
      using assms(1) by auto
    then show ?thesis using True i assms by (simp add: nth_append bit_simps)
  next
    case False
    then have "m + k - Suc i = k - Suc (i - m)" "k - Suc (i - m) < k" using i by auto
    then show ?thesis using False i by (simp add: nth_append bit_simps)
  qed
qed simp

lemma bits_of_split:
  fixes a :: "'a::len word"
  assumes "l \<le> m" "m \<le> LENGTH('a)"
  shows "bits_of m a = bits_of l (drop_bit (m - l) a) @ bits_of (m - l) a"
  by (rule nth_equalityI) (use assms in \<open>auto simp: nth_append bit_simps algebra_simps\<close>)

lemma bits_of_ucast:
  fixes a :: "'a::len word"
  assumes "n \<le> LENGTH('a)" "n \<le> LENGTH('b)"
  shows "bits_of n (ucast a :: 'b::len word) = bits_of n a"
  by (rule nth_equalityI) (use assms in \<open>auto simp: bit_simps\<close>)

lemma bits_of_and_mask: "bits_of n (a AND mask n) = bits_of n a"
  by (auto simp: bits_of_eq_iff bit_simps dest: bit_imp_le_length)

lemma bits_of_mask: "n \<le> LENGTH('a) \<Longrightarrow> bits_of n (mask n :: 'a::len word) = replicate n True"
  by (rule nth_equalityI) (auto simp: bit_simps)

section \<open>Bits of a byte string\<close>

definition byte_bits :: "u8 \<Rightarrow> bool list" where
  "byte_bits b = bits_of 8 b"

definition bytes_bits :: "bytes \<Rightarrow> bool list" where
  "bytes_bits bs = concat (map byte_bits bs)"

lemma length_byte_bits [simp]: "length (byte_bits b) = 8"
  by (simp add: byte_bits_def)

lemma bytes_bits_simps [simp]:
  "bytes_bits [] = []" "bytes_bits (b # bs) = byte_bits b @ bytes_bits bs"
  "bytes_bits (bs @ cs) = bytes_bits bs @ bytes_bits cs"
  by (simp_all add: bytes_bits_def)

lemma length_bytes_bits [simp]: "length (bytes_bits bs) = 8 * length bs"
  by (induction bs) simp_all

lemma byte_bits_inject [simp]: "byte_bits a = byte_bits b \<longleftrightarrow> a = b"
  by (auto simp: byte_bits_def bits_of_eq_iff intro: bit_word_eqI)

lemma bytes_bits_inject [simp]: "bytes_bits as = bytes_bits bs \<longleftrightarrow> as = bs"
proof
  assume eq: "bytes_bits as = bytes_bits bs"
  then have "length as = length bs"
    by (metis length_bytes_bits mult_cancel1 zero_neq_numeral)
  then show "as = bs" using eq
    by (induction as bs rule: list_induct2) auto
qed simp

section \<open>Binary values\<close>

text \<open>A bit list read as a binary number.\<close>

definition bits_val :: "bool list \<Rightarrow> int" where
  "bits_val bs = horner_sum of_bool 2 (rev bs)"

lemma bits_val_range: "0 \<le> bits_val bs \<and> bits_val bs < 2 ^ length bs"
  using horner_sum_of_bool_2_less [of "rev bs"]
  by (auto simp: bits_val_def horner_sum_nonnegative)

lemma bits_val_append: "bits_val (as @ bs) = bits_val as * 2 ^ length bs + bits_val bs"
  by (simp add: bits_val_def horner_sum_append)

lemma bits_val_inject: "length as = length bs \<Longrightarrow> bits_val as = bits_val bs \<longleftrightarrow> as = bs"
proof
  assume l: "length as = length bs" and "bits_val as = bits_val bs"
  then have "rev as = rev bs"
    unfolding bits_val_def by (intro nth_equalityI) (auto simp: bit_horner_sum_bit_iff dest: arg_cong [where f = "\<lambda>x. bit x _"])
  then show "as = bs" by simp
qed simp

lemma bits_val_bits_of: "n \<le> LENGTH('a) \<Longrightarrow> bits_val (bits_of n (w :: 'a::len word)) = take_bit n (uint w)"
proof -
  assume n: "n \<le> LENGTH('a)"
  have *: "map (bit w) [0..<n] = map (bit (uint w)) [0..<n]"
    using n by (auto simp: bit_simps)
  show ?thesis
    unfolding bits_val_def bits_of_def rev_map [symmetric] rev_rev_ident *
    by (rule horner_sum_bit_eq_take_bit)
qed

section \<open>Complete prefix codes\<close>

text \<open>
  Symbols below \<open>n\<close> with code words, no code word a prefix of another, and every string of
  \<open>maxlen\<close> bits starting with one. \<open>stuck\<close> strings are those a decoder can peel nothing off.
\<close>

locale prefix_code =
  fixes code :: "nat \<Rightarrow> bool list" and n :: nat and maxlen :: nat
  assumes prefix_free: "s < n \<Longrightarrow> t < n \<Longrightarrow> code s @ u = code t @ v \<Longrightarrow> s = t"
    and complete: "maxlen \<le> length bs \<Longrightarrow> \<exists>s<n. \<exists>u. bs = code s @ u"
    and code_ne: "s < n \<Longrightarrow> code s \<noteq> []"
begin

definition stuck :: "bool list \<Rightarrow> bool" where
  "stuck bs \<longleftrightarrow> (\<forall>s<n. \<forall>u. bs \<noteq> code s @ u)"

definition code_all :: "nat list \<Rightarrow> bool list" where
  "code_all ss = concat (map code ss)"

lemma code_all_simps [simp]:
  "code_all [] = []" "code_all (s # ss) = code s @ code_all ss"
  "code_all (ss @ ts) = code_all ss @ code_all ts"
  by (simp_all add: code_all_def)

lemma stuck_Nil [simp]: "stuck []"
  using code_ne by (auto simp: stuck_def)

lemma stuck_short: "stuck bs \<Longrightarrow> length bs < maxlen"
  using complete [of bs] by (force simp: stuck_def)

lemma cancel:
  assumes "code_all ss @ y = code_all ts @ r" "stuck r" "set ss \<subseteq> {..<n}" "set ts \<subseteq> {..<n}"
  shows "\<exists>us. ts = ss @ us \<and> y = code_all us @ r"
  using assms
proof (induction ss arbitrary: ts)
  case Nil
  then show ?case by simp
next
  case (Cons s ss)
  obtain t ts' where ts: "ts = t # ts'"
    using Cons.prems by (cases ts) (auto simp: stuck_def)
  have "s = t"
    using Cons.prems unfolding ts by (intro prefix_free [of s t]) auto
  then show ?case
    using Cons.IH [of ts'] Cons.prems ts by auto
qed

lemma unique:
  assumes "code_all ss @ y = code_all ts @ r" "stuck r" "stuck y" "set ss \<subseteq> {..<n}" "set ts \<subseteq> {..<n}"
  shows "ss = ts \<and> y = r"
proof -
  obtain us where us: "ts = ss @ us" "y = code_all us @ r"
    using cancel [OF assms(1,2,4,5)] by blast
  have "us = []"
    using us assms(3,5) by (cases us) (auto simp: stuck_def)
  then show ?thesis using us by simp
qed

end

end
