(* ===== verification/HpackHuffman.thy ===== *)
theory HpackHuffman
  imports HpackPrim BitLists
begin

text \<open>
  The Huffman code of HPACK string literals: module \<open>huffman\<close> of
  \<open>crates/tomcatrs-coyote/src/hpack.rs\<close>, lines 472-858. The code's accumulators are kept at
  their width (\<open>u64\<close> for the bits, \<open>u32\<close> for a candidate code); the reference they are proved
  against works on lists of bits.
\<close>

section \<open>The code table\<close>

text \<open>\<open>(code, bit_length)\<close> for every symbol from 0 to 256, where 256 is the end-of-string symbol.\<close>

definition TABLE :: "(u32 \<times> nat) list" where
  "TABLE =
   [
    (0x1ff8, 13), (0x7fffd8, 23), (0xfffffe2, 28), (0xfffffe3, 28),
    (0xfffffe4, 28), (0xfffffe5, 28), (0xfffffe6, 28), (0xfffffe7, 28),
    (0xfffffe8, 28), (0xffffea, 24), (0x3ffffffc, 30), (0xfffffe9, 28),
    (0xfffffea, 28), (0x3ffffffd, 30), (0xfffffeb, 28), (0xfffffec, 28),
    (0xfffffed, 28), (0xfffffee, 28), (0xfffffef, 28), (0xffffff0, 28),
    (0xffffff1, 28), (0xffffff2, 28), (0x3ffffffe, 30), (0xffffff3, 28),
    (0xffffff4, 28), (0xffffff5, 28), (0xffffff6, 28), (0xffffff7, 28),
    (0xffffff8, 28), (0xffffff9, 28), (0xffffffa, 28), (0xffffffb, 28),
    (0x14, 6), (0x3f8, 10), (0x3f9, 10), (0xffa, 12),
    (0x1ff9, 13), (0x15, 6), (0xf8, 8), (0x7fa, 11),
    (0x3fa, 10), (0x3fb, 10), (0xf9, 8), (0x7fb, 11),
    (0xfa, 8), (0x16, 6), (0x17, 6), (0x18, 6),
    (0x0, 5), (0x1, 5), (0x2, 5), (0x19, 6),
    (0x1a, 6), (0x1b, 6), (0x1c, 6), (0x1d, 6),
    (0x1e, 6), (0x1f, 6), (0x5c, 7), (0xfb, 8),
    (0x7ffc, 15), (0x20, 6), (0xffb, 12), (0x3fc, 10),
    (0x1ffa, 13), (0x21, 6), (0x5d, 7), (0x5e, 7),
    (0x5f, 7), (0x60, 7), (0x61, 7), (0x62, 7),
    (0x63, 7), (0x64, 7), (0x65, 7), (0x66, 7),
    (0x67, 7), (0x68, 7), (0x69, 7), (0x6a, 7),
    (0x6b, 7), (0x6c, 7), (0x6d, 7), (0x6e, 7),
    (0x6f, 7), (0x70, 7), (0x71, 7), (0x72, 7),
    (0xfc, 8), (0x73, 7), (0xfd, 8), (0x1ffb, 13),
    (0x7fff0, 19), (0x1ffc, 13), (0x3ffc, 14), (0x22, 6),
    (0x7ffd, 15), (0x3, 5), (0x23, 6), (0x4, 5),
    (0x24, 6), (0x5, 5), (0x25, 6), (0x26, 6),
    (0x27, 6), (0x6, 5), (0x74, 7), (0x75, 7),
    (0x28, 6), (0x29, 6), (0x2a, 6), (0x7, 5),
    (0x2b, 6), (0x76, 7), (0x2c, 6), (0x8, 5),
    (0x9, 5), (0x2d, 6), (0x77, 7), (0x78, 7),
    (0x79, 7), (0x7a, 7), (0x7b, 7), (0x7ffe, 15),
    (0x7fc, 11), (0x3ffd, 14), (0x1ffd, 13), (0xffffffc, 28),
    (0xfffe6, 20), (0x3fffd2, 22), (0xfffe7, 20), (0xfffe8, 20),
    (0x3fffd3, 22), (0x3fffd4, 22), (0x3fffd5, 22), (0x7fffd9, 23),
    (0x3fffd6, 22), (0x7fffda, 23), (0x7fffdb, 23), (0x7fffdc, 23),
    (0x7fffdd, 23), (0x7fffde, 23), (0xffffeb, 24), (0x7fffdf, 23),
    (0xffffec, 24), (0xffffed, 24), (0x3fffd7, 22), (0x7fffe0, 23),
    (0xffffee, 24), (0x7fffe1, 23), (0x7fffe2, 23), (0x7fffe3, 23),
    (0x7fffe4, 23), (0x1fffdc, 21), (0x3fffd8, 22), (0x7fffe5, 23),
    (0x3fffd9, 22), (0x7fffe6, 23), (0x7fffe7, 23), (0xffffef, 24),
    (0x3fffda, 22), (0x1fffdd, 21), (0xfffe9, 20), (0x3fffdb, 22),
    (0x3fffdc, 22), (0x7fffe8, 23), (0x7fffe9, 23), (0x1fffde, 21),
    (0x7fffea, 23), (0x3fffdd, 22), (0x3fffde, 22), (0xfffff0, 24),
    (0x1fffdf, 21), (0x3fffdf, 22), (0x7fffeb, 23), (0x7fffec, 23),
    (0x1fffe0, 21), (0x1fffe1, 21), (0x3fffe0, 22), (0x1fffe2, 21),
    (0x7fffed, 23), (0x3fffe1, 22), (0x7fffee, 23), (0x7fffef, 23),
    (0xfffea, 20), (0x3fffe2, 22), (0x3fffe3, 22), (0x3fffe4, 22),
    (0x7ffff0, 23), (0x3fffe5, 22), (0x3fffe6, 22), (0x7ffff1, 23),
    (0x3ffffe0, 26), (0x3ffffe1, 26), (0xfffeb, 20), (0x7fff1, 19),
    (0x3fffe7, 22), (0x7ffff2, 23), (0x3fffe8, 22), (0x1ffffec, 25),
    (0x3ffffe2, 26), (0x3ffffe3, 26), (0x3ffffe4, 26), (0x7ffffde, 27),
    (0x7ffffdf, 27), (0x3ffffe5, 26), (0xfffff1, 24), (0x1ffffed, 25),
    (0x7fff2, 19), (0x1fffe3, 21), (0x3ffffe6, 26), (0x7ffffe0, 27),
    (0x7ffffe1, 27), (0x3ffffe7, 26), (0x7ffffe2, 27), (0xfffff2, 24),
    (0x1fffe4, 21), (0x1fffe5, 21), (0x3ffffe8, 26), (0x3ffffe9, 26),
    (0xffffffd, 28), (0x7ffffe3, 27), (0x7ffffe4, 27), (0x7ffffe5, 27),
    (0xfffec, 20), (0xfffff3, 24), (0xfffed, 20), (0x1fffe6, 21),
    (0x3fffe9, 22), (0x1fffe7, 21), (0x1fffe8, 21), (0x7ffff3, 23),
    (0x3fffea, 22), (0x3fffeb, 22), (0x1ffffee, 25), (0x1ffffef, 25),
    (0xfffff4, 24), (0xfffff5, 24), (0x3ffffea, 26), (0x7ffff4, 23),
    (0x3ffffeb, 26), (0x7ffffe6, 27), (0x3ffffec, 26), (0x3ffffed, 26),
    (0x7ffffe7, 27), (0x7ffffe8, 27), (0x7ffffe9, 27), (0x7ffffea, 27),
    (0x7ffffeb, 27), (0xffffffe, 28), (0x7ffffec, 27), (0x7ffffed, 27),
    (0x7ffffee, 27), (0x7ffffef, 27), (0x7fffff0, 27), (0x3ffffee, 26),
    (0x3fffffff, 30)
   ]"

section \<open>Encoder\<close>

text \<open>\<open>while bits >= 8 { bits -= 8; out.push((acc >> bits) as u8) }\<close>\<close>

function flush_bits :: "u64 \<Rightarrow> nat \<Rightarrow> bytes \<Rightarrow> bytes \<times> nat" where
  "flush_bits acc bits out =
    (if 8 \<le> bits then flush_bits acc (bits - 8) (out @ [ucast (drop_bit (bits - 8) acc)])
     else (out, bits))"
  by pat_completeness auto
termination
  by (relation "measure (\<lambda>(acc, bits, out). bits)") auto

declare flush_bits.simps [simp del]

fun huffman_encode_loop :: "bytes \<Rightarrow> bytes \<Rightarrow> u64 \<Rightarrow> nat \<Rightarrow> bytes \<times> u64 \<times> nat" where
  "huffman_encode_loop [] out acc bits = (out, acc, bits)"
| "huffman_encode_loop (b # data) out acc bits =
    (let (code, len) = TABLE ! unat b;
         acc' = push_bit len acc OR ucast code;
         (out', bits') = flush_bits acc' (bits + len) out
     in huffman_encode_loop data out' acc' bits')"

definition huffman_encode :: "bytes \<Rightarrow> bytes" where
  "huffman_encode data =
    (let (out, acc, bits) = huffman_encode_loop data [] 0 0 in
     if 0 < bits then
       (let pad = 8 - bits; acc' = push_bit pad acc OR (push_bit pad 1 - 1) in out @ [ucast acc'])
     else out)"

text \<open>The sum is a \<open>u32\<close>, so it wraps for an input of more than 2^32 bits of code.\<close>

definition encoded_len :: "bytes \<Rightarrow> nat" where
  "encoded_len data =
    (let bits = sum_list (map (\<lambda>b. of_nat (snd (TABLE ! unat b)) :: u32) data) in
     (unat bits + 7) div 8)"

section \<open>Decoder\<close>

text \<open>\<open>lookup\<close>: the linear scan of the table.\<close>

fun lookup_from :: "nat \<Rightarrow> (u32 \<times> nat) list \<Rightarrow> u32 \<Rightarrow> nat \<Rightarrow> nat option" where
  "lookup_from symb [] code len = None"
| "lookup_from symb ((c, l) # rows) code len =
    (if l = len \<and> c = code then Some symb else lookup_from (Suc symb) rows code len)"

definition huffman_lookup :: "u32 \<Rightarrow> nat \<Rightarrow> nat option" where
  "huffman_lookup code len = lookup_from 0 TABLE code len"

text \<open>
  \<open>for len in 5..=30\<close>: the first length whose bits at the front of the accumulator are a code,
  with the symbol; \<open>None\<close> when the loop ends or breaks without a match.
\<close>

fun match_len :: "nat list \<Rightarrow> u64 \<Rightarrow> nat \<Rightarrow> (nat \<times> nat) option" where
  "match_len [] acc acc_bits = None"
| "match_len (len # lens) acc acc_bits =
    (if acc_bits < len then None
     else let candidate = ucast (drop_bit (acc_bits - len) acc AND (push_bit len 1 - 1)) in
       case huffman_lookup candidate len of
         Some symb \<Rightarrow> Some (symb, len)
       | None \<Rightarrow> match_len lens acc acc_bits)"

lemma match_len_bounds:
  "match_len lens acc acc_bits = Some (symb, len) \<Longrightarrow> len \<in> set lens \<and> len \<le> acc_bits"
  by (induction lens) (auto simp: Let_def split: if_splits option.splits)

definition match_code :: "u64 \<Rightarrow> nat \<Rightarrow> (nat \<times> nat) option" where
  "match_code acc acc_bits = match_len [5..<31] acc acc_bits"

lemma match_code_bounds:
  "match_code acc acc_bits = Some (symb, len) \<Longrightarrow> 5 \<le> len \<and> len \<le> 30 \<and> len \<le> acc_bits"
  unfolding match_code_def by (drule match_len_bounds) auto

text \<open>The inner \<open>loop\<close>: peel symbols off the front of the accumulator until none matches.\<close>

function peel :: "u64 \<Rightarrow> nat \<Rightarrow> bytes \<Rightarrow> HpackError + nat \<times> bytes" where
  "peel acc acc_bits out =
    (case match_code acc acc_bits of
       None \<Rightarrow> Ok (acc_bits, out)
     | Some (symb, len) \<Rightarrow>
         if symb = 256 then Err (InvalidHuffman ''embedded end-of-string symbol'')
         else peel acc (acc_bits - len) (out @ [of_nat symb]))"
  by pat_completeness auto
termination
  by (relation "measure (\<lambda>(acc, acc_bits, out). acc_bits)")
    (auto dest!: match_code_bounds)

declare peel.simps [simp del]

fun huffman_decode_loop :: "bytes \<Rightarrow> u64 \<Rightarrow> nat \<Rightarrow> bytes \<Rightarrow> HpackError + u64 \<times> nat \<times> bytes" where
  "huffman_decode_loop [] acc acc_bits out = Ok (acc, acc_bits, out)"
| "huffman_decode_loop (b # data) acc acc_bits out =
    (let acc' = push_bit 8 acc OR ucast b in
     and_then (peel acc' (acc_bits + 8) out) (\<lambda>(acc_bits', out').
       huffman_decode_loop data acc' acc_bits' out'))"

definition huffman_decode :: "bytes \<Rightarrow> HpackError + bytes" where
  "huffman_decode data =
    and_then (huffman_decode_loop data 0 0 []) (\<lambda>(acc, acc_bits, out).
      if 8 \<le> acc_bits then Err (InvalidHuffman ''incomplete code in input'')
      else let mask = push_bit acc_bits 1 - 1 in
        if 0 < acc_bits \<and> acc AND mask \<noteq> mask then Err (InvalidHuffman ''padding is not all ones'')
        else Ok out)"

section \<open>The table is a complete prefix code\<close>

text \<open>The symbols in the order of their codes read as binary fractions.\<close>

definition canonical_order :: "nat list" where
  "canonical_order =
    [48, 49, 50, 97, 99, 101, 105, 111, 115, 116, 32, 37, 45, 46, 47, 51, 52, 53, 54, 55, 56,
     57, 61, 65, 95, 98, 100, 102, 103, 104, 108, 109, 110, 112, 114, 117, 58, 66, 67, 68,
     69, 70, 71, 72, 73, 74, 75, 76, 77, 78, 79, 80, 81, 82, 83, 84, 85, 86, 87, 89, 106,
     107, 113, 118, 119, 120, 121, 122, 38, 42, 44, 59, 88, 90, 33, 34, 40, 41, 63, 39, 43,
     124, 35, 62, 0, 36, 64, 91, 93, 126, 94, 125, 60, 96, 123, 92, 195, 208, 128, 130, 131,
     162, 184, 194, 224, 226, 153, 161, 167, 172, 176, 177, 179, 209, 216, 217, 227, 229,
     230, 129, 132, 133, 134, 136, 146, 154, 156, 160, 163, 164, 169, 170, 173, 178, 181,
     185, 186, 187, 189, 190, 196, 198, 228, 232, 233, 1, 135, 137, 138, 139, 140, 141, 143,
     147, 149, 150, 151, 152, 155, 157, 158, 165, 166, 168, 174, 175, 180, 182, 183, 188,
     191, 197, 231, 239, 9, 142, 144, 145, 148, 159, 171, 206, 215, 225, 236, 237, 199, 207,
     234, 235, 192, 193, 200, 201, 202, 205, 210, 213, 218, 219, 238, 240, 242, 243, 255,
     203, 204, 211, 212, 214, 221, 222, 223, 241, 244, 245, 246, 247, 248, 250, 251, 252,
     253, 254, 2, 3, 4, 5, 6, 7, 8, 11, 12, 14, 15, 16, 17, 18, 19, 20, 21, 23, 24, 25, 26,
     27, 28, 29, 30, 31, 127, 220, 249, 10, 13, 22, 256]"

text \<open>Each code's interval of 30-bit values starts where the one before it ends.\<close>

fun chain :: "int \<Rightarrow> (u32 \<times> nat) list \<Rightarrow> int \<Rightarrow> bool" where
  "chain a [] b = (a = b)"
| "chain a ((c, l) # rows) b =
    (5 \<le> l \<and> l \<le> 30 \<and> uint c * 2 ^ (30 - l) = a \<and> chain (a + 2 ^ (30 - l)) rows b)"

lemma table_chain: "chain 0 (map ((!) TABLE) canonical_order) (2 ^ 30)"
  by (simp add: TABLE_def canonical_order_def)

lemma length_TABLE [simp]: "length TABLE = 257"
  by (simp add: TABLE_def)

lemma set_canonical_order: "set canonical_order = {..<257}"
proof (rule card_subset_eq)
  have "list_all (\<lambda>i. i < 257) canonical_order" by (simp add: canonical_order_def)
  then show "set canonical_order \<subseteq> {..<257}" by (auto simp: list_all_iff)
  have "distinct canonical_order" by (simp add: canonical_order_def)
  then have "card (set canonical_order) = length canonical_order" by (rule distinct_card)
  also have "length canonical_order = 257" by (simp add: canonical_order_def)
  finally show "card (set canonical_order) = card {..<257::nat}" by simp
qed simp

abbreviation low :: "u32 \<times> nat \<Rightarrow> int" where
  "low r \<equiv> uint (fst r) * 2 ^ (30 - snd r)"

abbreviation high :: "u32 \<times> nat \<Rightarrow> int" where
  "high r \<equiv> low r + 2 ^ (30 - snd r)"

lemma chain_mono: "chain a rows b \<Longrightarrow> a \<le> b"
proof (induction a rows b rule: chain.induct)
  case (2 a c l rows b)
  have "(0::int) < 2 ^ (30 - l)" by simp
  then show ?case using 2 by (auto intro: order.trans [rotated])
qed simp

lemma chain_range:
  "chain a rows b \<Longrightarrow> r \<in> set rows \<Longrightarrow> a \<le> low r \<and> high r \<le> b \<and> 5 \<le> snd r \<and> snd r \<le> 30"
proof (induction a rows b rule: chain.induct)
  case (2 a c l rows b)
  have pos: "(0::int) < 2 ^ (30 - l)" by simp
  have c: "chain (a + 2 ^ (30 - l)) rows b" "uint c * 2 ^ (30 - l) = a" "5 \<le> l" "l \<le> 30"
    using 2(2) by auto
  show ?case
  proof (cases "r = (c, l)")
    case True
    then show ?thesis using c chain_mono [OF c(1)] by simp
  next
    case False
    then have "a + 2 ^ (30 - l) \<le> low r \<and> high r \<le> b \<and> 5 \<le> snd r \<and> snd r \<le> 30"
      using 2 c(1) by auto
    then show ?thesis using pos by linarith
  qed
qed simp

lemma chain_cover:
  "chain a rows b \<Longrightarrow> a \<le> v \<Longrightarrow> v < b \<Longrightarrow> \<exists>r \<in> set rows. low r \<le> v \<and> v < high r"
  by (induction a rows b rule: chain.induct) force+

lemma chain_disjoint:
  "chain a rows b \<Longrightarrow> i < j \<Longrightarrow> j < length rows \<Longrightarrow> high (rows ! i) \<le> low (rows ! j)"
proof (induction a rows b arbitrary: i j rule: chain.induct)
  case (2 a c l rows b)
  obtain j' where j: "j = Suc j'" using 2 by (cases j) auto
  show ?case
  proof (cases i)
    case 0
    then show ?thesis
      using 2 j chain_range [of "a + 2 ^ (30 - l)" rows b "rows ! j'"] by simp
  next
    case (Suc i')
    then show ?thesis using 2 j by simp
  qed
qed simp


definition code_word :: "nat \<Rightarrow> bool list" where
  "code_word s = bits_of (snd (TABLE ! s)) (fst (TABLE ! s))"

lemma table_row:
  assumes "s < 257"
  shows "0 \<le> low (TABLE ! s) \<and> high (TABLE ! s) \<le> 2 ^ 30 \<and> 5 \<le> snd (TABLE ! s) \<and> snd (TABLE ! s) \<le> 30"
proof -
  have "s \<in> set canonical_order" using assms by (simp add: set_canonical_order)
  then show ?thesis using chain_range [OF table_chain, of "TABLE ! s"] by auto
qed

lemma table_disjoint:
  assumes "s < 257" "t < 257" "s \<noteq> t"
  shows "high (TABLE ! s) \<le> low (TABLE ! t) \<or> high (TABLE ! t) \<le> low (TABLE ! s)"
proof -
  obtain i j where ij: "i < length canonical_order" "canonical_order ! i = s"
    "j < length canonical_order" "canonical_order ! j = t"
    using assms set_canonical_order by (metis in_set_conv_nth lessThan_iff)
  then consider "i < j" | "j < i" using assms(3) by (metis nat_neq_iff)
  then show ?thesis
    using ij chain_disjoint [OF table_chain, of i j] chain_disjoint [OF table_chain, of j i]
    by cases auto
qed

lemma table_cover:
  assumes "0 \<le> v" "v < 2 ^ 30"
  shows "\<exists>s < 257. low (TABLE ! s) \<le> v \<and> v < high (TABLE ! s)"
proof -
  obtain s where "s \<in> set canonical_order" "low (TABLE ! s) \<le> v" "v < high (TABLE ! s)"
    using chain_cover [OF table_chain assms] by auto
  then show ?thesis using set_canonical_order by blast
qed

lemma length_code_word [simp]: "length (code_word s) = snd (TABLE ! s)"
  by (simp add: code_word_def)

lemma bits_val_code_word:
  assumes "s < 257"
  shows "bits_val (code_word s) = uint (fst (TABLE ! s))"
proof -
  obtain c l where cl: "TABLE ! s = (c, l)" by fastforce
  have r: "0 \<le> uint c * 2 ^ (30 - l)" "uint c * 2 ^ (30 - l) + 2 ^ (30 - l) \<le> 2 ^ 30" "l \<le> 30"
    using table_row [OF assms] by (auto simp: cl)
  have "(0::int) < 2 ^ (30 - l)" by simp
  then have "uint c * 2 ^ (30 - l) < 2 ^ 30" using r(2) by linarith
  then have "uint c * 2 ^ (30 - l) < 2 ^ l * 2 ^ (30 - l)"
    using r(3) by (simp flip: power_add)
  then have "uint c < 2 ^ l" by simp
  then show ?thesis
    using r by (simp add: code_word_def cl bits_val_bits_of take_bit_int_eq_self)
qed

text \<open>Padded to 30 bits, a string that starts with a code lies in that code's interval.\<close>

lemma code_word_interval:
  assumes "s < 257" "code_word s @ u = bs" "length bs = 30"
  shows "low (TABLE ! s) \<le> bits_val bs \<and> bits_val bs < high (TABLE ! s)"
proof -
  have l: "length u = 30 - snd (TABLE ! s)"
    using assms(2,3) by auto
  have "bits_val bs = low (TABLE ! s) + bits_val u"
    by (simp add: assms(2) [symmetric] bits_val_append bits_val_code_word assms(1) l)
  then show ?thesis using bits_val_range [of u] by (simp add: l)
qed

lemma code_word_prefix_free:
  assumes "s < 257" "t < 257" "code_word s @ u = code_word t @ v"
  shows "s = t"
proof (rule ccontr)
  assume ne: "s \<noteq> t"
  have ls: "length (code_word s) \<le> 30" "length (code_word t) \<le> 30"
    using table_row assms(1,2) by auto
  define bs where "bs = take 30 (code_word s @ u @ replicate 30 False)"
  have len: "length bs = 30" by (simp add: bs_def)
  have "bs = code_word s @ take (30 - length (code_word s)) (u @ replicate 30 False)"
    using ls by (simp add: bs_def del: length_code_word)
  moreover have "bs = code_word t @ take (30 - length (code_word t)) (v @ replicate 30 False)"
    using ls assms(3) by (simp add: bs_def del: length_code_word flip: append_assoc)
  ultimately show False
    using code_word_interval [OF assms(1) _ len] code_word_interval [OF assms(2) _ len]
      table_disjoint [OF assms(1,2) ne] by (smt (verit, best))
qed

lemma code_word_complete:
  assumes "30 \<le> length bs"
  shows "\<exists>s < 257. \<exists>u. bs = code_word s @ u"
proof -
  let ?b = "take 30 bs"
  have lb: "length ?b = 30" using assms by simp
  obtain s where s: "s < 257" "low (TABLE ! s) \<le> bits_val ?b" "bits_val ?b < high (TABLE ! s)"
    using table_cover [of "bits_val ?b"] bits_val_range [of ?b] lb by auto
  define l where "l = snd (TABLE ! s)"
  have l: "l \<le> 30" using table_row [OF s(1)] by (simp add: l_def)
  have split: "bits_val ?b = bits_val (take l ?b) * 2 ^ (30 - l) + bits_val (drop l ?b)"
    using lb l by (subst append_take_drop_id [of l ?b, symmetric], subst bits_val_append) simp
  have "bits_val (take l ?b) = bits_val ?b div 2 ^ (30 - l)"
    using split bits_val_range [of "drop l ?b"] lb l by simp
  also have "bits_val ?b div 2 ^ (30 - l) = uint (fst (TABLE ! s))"
    using s by (intro div_int_pos_iff [THEN iffD1] int_div_pos_eq [where r = "bits_val ?b - low (TABLE ! s)"])
      (auto simp: l_def)
  finally have "bits_val (take l ?b) = bits_val (code_word s)"
    using s(1) by (simp add: bits_val_code_word)
  then have "take l ?b = code_word s"
    using lb l by (subst (asm) bits_val_inject) (auto simp: l_def)
  then have "bs = code_word s @ drop l bs"
    using l by (metis append_take_drop_id min.absorb1 take_take)
  then show ?thesis using s(1) by blast
qed

interpretation huff: prefix_code code_word 257 30
proof
  fix s :: nat
  assume "s < 257"
  then show "code_word s \<noteq> []"
    using table_row [of s] by (auto simp flip: length_greater_0_conv)
qed (fact code_word_prefix_free code_word_complete)+

section \<open>The encoder writes the code words and pads with ones\<close>

abbreviation huff_code :: "nat list \<Rightarrow> bool list" where
  "huff_code ss \<equiv> concat (map code_word ss)"

abbreviation syms :: "bytes \<Rightarrow> nat list" where
  "syms data \<equiv> map unat data"

lemma code_bits_below:
  assumes "s < 257" "snd (TABLE ! s) \<le> i"
  shows "\<not> bit (fst (TABLE ! s)) i"
proof
  assume b: "bit (fst (TABLE ! s)) i"
  obtain c l where cl: "TABLE ! s = (c, l)" by fastforce
  have r: "uint c * 2 ^ (30 - l) + 2 ^ (30 - l) \<le> 2 ^ 30" "l \<le> 30"
    using table_row [OF assms(1)] by (auto simp: cl)
  have "(0::int) < 2 ^ (30 - l)" by simp
  then have "uint c * 2 ^ (30 - l) < 2 ^ 30" using r(1) by linarith
  then have "uint c * 2 ^ (30 - l) < 2 ^ l * 2 ^ (30 - l)"
    using r(2) by (simp flip: power_add)
  then have "uint c < 2 ^ l" by simp
  then have "take_bit l (uint c) = uint c"
    by (simp add: take_bit_int_eq_self)
  moreover have "bit (uint c) i"
    using b by (simp add: cl bit_simps bit_imp_le_length)
  ultimately show False
    using assms(2) by (metis bit_take_bit_iff cl linorder_not_less snd_conv)
qed

lemma bits_of_push_code:
  assumes "s < 257" "TABLE ! s = (c, l)" "bits + l \<le> 64"
  shows "bits_of (bits + l) (push_bit l acc OR ucast c :: u64) = bits_of bits acc @ code_word s"
proof -
  have l: "l \<le> 30" using table_row [OF assms(1)] assms(2) by simp
  have "bits_of (bits + l) (push_bit l acc OR ucast c :: u64) = bits_of bits acc @ bits_of l (ucast c :: u64)"
    using assms code_bits_below [OF assms(1)] by (intro bits_of_shift_or) (auto simp: bit_simps)
  also have "bits_of l (ucast c :: u64) = bits_of l c"
    using l by (intro bits_of_ucast) auto
  finally show ?thesis by (simp add: code_word_def assms(2))
qed

lemma flush_bits_bits:
  "bits \<le> 64 \<Longrightarrow> flush_bits acc bits out = (out', bits') \<Longrightarrow>
   bytes_bits out' @ bits_of bits' acc = bytes_bits out @ bits_of bits acc \<and> bits' < 8 \<and> bits' \<le> bits"
proof (induction acc bits out rule: flush_bits.induct)
  case (1 acc bits out)
  show ?case
  proof (cases "8 \<le> bits")
    case True
    have "bits_of bits acc = bits_of 8 (drop_bit (bits - 8) acc) @ bits_of (bits - 8) acc"
      using True 1(2) by (intro bits_of_split) auto
    then have "bits_of bits acc = byte_bits (ucast (drop_bit (bits - 8) acc)) @ bits_of (bits - 8) acc"
      by (simp add: byte_bits_def bits_of_ucast)
    then show ?thesis using 1 True by (force simp: flush_bits.simps [of acc bits])
  next
    case False
    then show ?thesis using 1 by (auto simp: flush_bits.simps [of acc bits])
  qed
qed

lemma unat_byte_sym [simp]: "unat (b :: u8) < 257"
  using unat_less_256 [of b] by linarith

lemma huffman_encode_loop_bits:
  "bits < 8 \<Longrightarrow> huffman_encode_loop data out acc bits = (out', acc', bits') \<Longrightarrow>
   bytes_bits out' @ bits_of bits' acc' = bytes_bits out @ bits_of bits acc @ huff_code (syms data) \<and> bits' < 8"
proof (induction data out acc bits rule: huffman_encode_loop.induct)
  case (2 b data out acc bits)
  obtain c l where cl: "TABLE ! unat b = (c, l)" by fastforce
  define acc1 where "acc1 = push_bit l acc OR ucast c"
  obtain out1 bits1 where fl: "flush_bits acc1 (bits + l) out = (out1, bits1)" by fastforce
  have "l \<le> 30" using table_row [of "unat b"] cl by simp
  then have le: "bits + l \<le> 64" using 2(2) by simp
  have "bits_of (bits + l) acc1 = bits_of bits acc @ code_word (unat b)"
    unfolding acc1_def using cl le by (intro bits_of_push_code) auto
  then have f: "bytes_bits out1 @ bits_of bits1 acc1 = bytes_bits out @ bits_of bits acc @ code_word (unat b)" "bits1 < 8"
    using flush_bits_bits [OF le fl] by auto
  have "huffman_encode_loop data out1 acc1 bits1 = (out', acc', bits')"
    using 2(3) by (simp add: cl fl acc1_def [symmetric] Let_def)
  then show ?case
    using 2(1) [OF refl cl [symmetric] acc1_def refl fl [symmetric]] f by simp
qed simp

lemma huffman_encode_bits:
  "\<exists>pad < 8. bytes_bits (huffman_encode data) = huff_code (syms data) @ replicate pad True"
proof -
  obtain out acc bits where lp: "huffman_encode_loop data [] 0 0 = (out, acc, bits)" by (metis prod_cases3)
  have b: "bytes_bits out @ bits_of bits acc = huff_code (syms data)" "bits < 8"
    using huffman_encode_loop_bits [OF _ lp] by auto
  show ?thesis
  proof (cases "bits = 0")
    case True
    then show ?thesis using b lp by (intro exI [of _ 0]) (simp add: huffman_encode_def)
  next
    case False
    define pad where "pad = 8 - bits"
    have m: "push_bit pad 1 - 1 = (mask pad :: u64)" by (simp add: mask_eq_exp_minus_1)
    have "bits_of (bits + pad) (push_bit pad acc OR mask pad) = bits_of bits acc @ bits_of pad (mask pad :: u64)"
      using b(2) by (intro bits_of_shift_or) (auto simp: pad_def bit_simps)
    also have "bits_of pad (mask pad :: u64) = replicate pad True"
      by (rule nth_equalityI) (use b(2) in \<open>auto simp: bit_simps pad_def\<close>)
    finally have "byte_bits (ucast (push_bit pad acc OR mask pad)) = bits_of bits acc @ replicate pad True"
      using b(2) by (simp add: byte_bits_def bits_of_ucast pad_def)
    moreover have "huffman_encode data = out @ [ucast (push_bit pad acc OR mask pad)]"
      using False by (simp add: huffman_encode_def lp Let_def pad_def [symmetric] mask_eq_exp_minus_1)
    ultimately have "bytes_bits (huffman_encode data) = huff_code (syms data) @ replicate pad True"
      using b(1) by (simp flip: append_assoc)
    then show ?thesis using False by (intro exI [of _ pad]) (simp add: pad_def)
  qed
qed

lemma sum_code_lengths:
  "sum_list (map (\<lambda>b. of_nat (snd (TABLE ! unat b)) :: u32) data) = of_nat (length (huff_code (syms data)))"
  by (induction data) simp_all

lemma length_huff_code: "length (huff_code (syms data)) \<le> 30 * length data"
proof (induction data)
  case (Cons b data)
  have "snd (TABLE ! unat b) \<le> 30" using table_row [of "unat b"] by simp
  then show ?case using Cons by simp
qed simp

lemma length_huffman_encode:
  "length (huffman_encode data) = (length (huff_code (syms data)) + 7) div 8"
proof -
  obtain pad where pad: "pad < 8" "bytes_bits (huffman_encode data) = huff_code (syms data) @ replicate pad True"
    using huffman_encode_bits by blast
  have "8 * length (huffman_encode data) = length (huff_code (syms data)) + pad"
    using arg_cong [OF pad(2), of length] by simp
  then show ?thesis using pad(1) by linarith
qed

lemma encoded_len_eq:
  assumes "30 * length data < 2 ^ 32"
  shows "encoded_len data = length (huffman_encode data)"
proof -
  have "unat (of_nat (length (huff_code (syms data))) :: u32) = length (huff_code (syms data))"
    using assms length_huff_code [of data] by (simp add: unat_of_nat)
  then show ?thesis
    unfolding encoded_len_def sum_code_lengths Let_def length_huffman_encode by simp
qed

section \<open>The decoder peels code words\<close>

lemma lookup_from_Some:
  "lookup_from k rows c l = Some s \<Longrightarrow> k \<le> s \<and> s < k + length rows \<and> rows ! (s - k) = (c, l)"
proof (induction k rows c l rule: lookup_from.induct)
  case (2 k c' l' rows c l)
  show ?case
  proof (cases "l' = l \<and> c' = c")
    case False
    then have "Suc k \<le> s \<and> s < Suc k + length rows \<and> rows ! (s - Suc k) = (c, l)"
      using 2 by (simp split: if_splits)
    moreover from this have "s - k = Suc (s - Suc k)" by (auto simp: Suc_diff_Suc)
    ultimately show ?thesis by simp
  qed (use 2 in auto)
qed simp

lemma lookup_from_None: "lookup_from k rows c l = None \<longleftrightarrow> (c, l) \<notin> set rows"
  by (induction k rows c l rule: lookup_from.induct) auto

lemma huffman_lookup_Some: "huffman_lookup c l = Some s \<Longrightarrow> s < 257 \<and> TABLE ! s = (c, l)"
  using lookup_from_Some [of 0 TABLE c l s] by (simp add: huffman_lookup_def)

lemma huffman_lookup_None: "huffman_lookup c l = None \<longleftrightarrow> (\<forall>s < 257. TABLE ! s \<noteq> (c, l))"
  by (auto simp: huffman_lookup_def lookup_from_None in_set_conv_nth)

lemma candidate_bits:
  assumes "l \<le> m" "m \<le> 64" "l \<le> 32"
  shows "bits_of l (ucast (drop_bit (m - l) (acc :: u64) AND (push_bit l 1 - 1)) :: u32) = take l (bits_of m acc)"
proof -
  have m: "(push_bit l 1 - 1 :: u64) = mask l" by (simp add: mask_eq_exp_minus_1)
  have "bits_of l (ucast (drop_bit (m - l) acc AND mask l) :: u32) = bits_of l (drop_bit (m - l) acc AND mask l)"
    using assms by (intro bits_of_ucast) auto
  also have "bits_of l (drop_bit (m - l) acc AND mask l) = take l (bits_of m acc)"
    using assms by (simp add: bits_of_and_mask bits_of_split [of l m acc])
  finally show ?thesis by (simp only: m)
qed

lemma candidate_row:
  assumes "l \<le> m" "m \<le> 64" "l \<le> 30" "s < 257" "snd (TABLE ! s) = l"
  shows "TABLE ! s = (ucast (drop_bit (m - l) (acc :: u64) AND (push_bit l 1 - 1)), l)
    \<longleftrightarrow> bits_of m acc = code_word s @ bits_of (m - l) acc" (is "_ = (?c, l) \<longleftrightarrow> _")
proof -
  have "bits_of l ?c = take l (bits_of m acc)"
    using assms by (intro candidate_bits) auto
  moreover have "take l (bits_of m acc) = code_word s \<longleftrightarrow> bits_of m acc = code_word s @ bits_of (m - l) acc"
    using assms by (simp add: bits_of_split [of l m acc] code_word_def)
  moreover have "bits_of l ?c = code_word s \<longleftrightarrow> fst (TABLE ! s) = ?c"
  proof
    assume "bits_of l ?c = code_word s"
    then have "bit (fst (TABLE ! s)) i = bit ?c i" if "i < l" for i
      using that by (simp add: code_word_def assms(5) bits_of_eq_iff)
    moreover have "bit (fst (TABLE ! s)) i = bit ?c i" if "l \<le> i" for i
      using code_bits_below [OF assms(4), of i] assms(5) that by (auto simp: bit_simps simp flip: mask_eq_exp_minus_1)
    ultimately show "fst (TABLE ! s) = ?c"
      by (intro bit_word_eqI) (meson linorder_not_less)
  qed (simp add: code_word_def assms(5))
  ultimately show ?thesis using assms(5) by (cases "TABLE ! s") auto
qed

lemma match_len_Some:
  "match_len lens acc m = Some (s, l) \<Longrightarrow> m \<le> 64 \<Longrightarrow> set lens \<subseteq> {..30} \<Longrightarrow>
   s < 257 \<and> snd (TABLE ! s) = l \<and> bits_of m acc = code_word s @ bits_of (m - l) acc"
proof (induction lens)
  case (Cons l' lens)
  show ?case
  proof (cases "huffman_lookup (ucast (drop_bit (m - l') acc AND (push_bit l' 1 - 1))) l'")
    case None
    then show ?thesis using Cons by (simp add: Let_def split: if_splits)
  next
    case (Some s')
    then have sl: "s' = s" "l' = l" "l \<le> m" using Cons.prems(1) by (auto simp: Let_def split: if_splits)
    note row = huffman_lookup_Some [OF Some]
    then have "s < 257" "snd (TABLE ! s) = l" using sl by simp_all
    moreover have "l \<le> 30" using sl Cons.prems(3) by simp
    ultimately show ?thesis using candidate_row [of l m s acc] row sl Cons.prems(2) by simp
  qed
qed simp

lemma match_len_None:
  "match_len lens acc m = None \<Longrightarrow> m \<le> 64 \<Longrightarrow> sorted lens \<Longrightarrow> l \<in> set lens \<Longrightarrow> l \<le> m \<Longrightarrow> l \<le> 30 \<Longrightarrow>
   s < 257 \<Longrightarrow> snd (TABLE ! s) = l \<Longrightarrow> bits_of m acc \<noteq> code_word s @ bits_of (m - l) acc"
proof (induction lens)
  case (Cons l' lens)
  have le: "l' \<le> m" using Cons.prems by auto
  then have none: "huffman_lookup (ucast (drop_bit (m - l') acc AND (push_bit l' 1 - 1))) l' = None"
    "match_len lens acc m = None"
    using Cons.prems(1) by (auto simp: Let_def split: option.splits)
  show ?case
  proof (cases "l = l'")
    case True
    then show ?thesis
      using none(1) Cons.prems candidate_row [of l m s acc] by (auto simp: huffman_lookup_None)
  next
    case False
    then show ?thesis using Cons none(2) by auto
  qed
qed simp

lemma match_code_Some:
  "match_code acc m = Some (s, l) \<Longrightarrow> m \<le> 64 \<Longrightarrow>
   s < 257 \<and> snd (TABLE ! s) = l \<and> bits_of m acc = code_word s @ bits_of (m - l) acc"
  unfolding match_code_def
  by (rule match_len_Some [of "[5..<31]"]) (simp_all only: set_upt, simp_all add: subset_iff)

lemma match_code_None:
  assumes "match_code acc m = None" "m \<le> 64"
  shows "huff.stuck (bits_of m acc)"
  unfolding huff.stuck_def
proof (intro allI impI notI)
  fix s u
  assume s: "s < 257" and eq: "bits_of m acc = code_word s @ u"
  define l where "l = snd (TABLE ! s)"
  have l: "5 \<le> l" "l \<le> 30" using table_row [OF s] by (auto simp: l_def)
  have lm: "l \<le> m" using arg_cong [OF eq, of length] by (simp add: l_def)
  have "bits_of m acc = bits_of l (drop_bit (m - l) acc) @ bits_of (m - l) acc"
    using lm assms(2) by (intro bits_of_split) auto
  then have "bits_of m acc = code_word s @ bits_of (m - l) acc"
    using eq by (simp add: l_def append_eq_append_conv)
  moreover have "l \<in> set [5..<31]" using l unfolding set_upt atLeastLessThan_iff by linarith
  ultimately show False
    using match_len_None [OF assms(1) [unfolded match_code_def] assms(2) sorted_upt _ lm l(2) s l_def [symmetric]]
    by blast
qed

lemma peel_spec:
  "m \<le> 64 \<Longrightarrow> \<exists>ss r. bits_of m acc = huff_code ss @ r \<and>
    (set ss \<subseteq> {..<256} \<and> huff.stuck r \<and> r = bits_of (length r) acc \<and> length r \<le> m
        \<and> peel acc m out = Ok (length r, out @ map of_nat ss)
     \<or> (\<exists>ss1. ss = ss1 @ [256] \<and> set ss1 \<subseteq> {..<256}
        \<and> peel acc m out = Err (InvalidHuffman ''embedded end-of-string symbol'')))"
proof (induction acc m out rule: peel.induct)
  case (1 acc m out)
  show ?case
  proof (cases "match_code acc m")
    case None
    then show ?thesis
      using match_code_None [OF None 1(2)]
      by (intro exI [of _ "[]"] exI [of _ "bits_of m acc"]) (simp add: peel.simps [of acc m])
  next
    case (Some p)
    then obtain s l where p: "match_code acc m = Some (s, l)" by (cases p) auto
    note c = match_code_Some [OF p 1(2)]
    show ?thesis
    proof (cases "s = 256")
      case True
      then show ?thesis
        using c p by (intro exI [of _ "[s]"] exI [of _ "bits_of (m - l) acc"]) (simp add: peel.simps [of acc m])
    next
      case False
      have pe: "peel acc m out = peel acc (m - l) (out @ [of_nat s])"
        using p False by (simp add: peel.simps [of acc m])
      have s: "s < 256" using c False by simp
      have "m - l \<le> 64" using 1(2) by simp
      from 1(1) [OF p refl False this] obtain ss r where
        b: "bits_of (m - l) acc = huff_code ss @ r" and
        d: "set ss \<subseteq> {..<256} \<and> huff.stuck r \<and> r = bits_of (length r) acc \<and> length r \<le> m - l
          \<and> peel acc (m - l) (out @ [of_nat s]) = Ok (length r, (out @ [of_nat s]) @ map of_nat ss)
         \<or> (\<exists>ss1. ss = ss1 @ [256] \<and> set ss1 \<subseteq> {..<256} \<and> peel acc (m - l) (out @ [of_nat s])
             = Err (InvalidHuffman ''embedded end-of-string symbol''))"
        by blast
      have b': "bits_of m acc = huff_code (s # ss) @ r" using c b by simp
      from d show ?thesis
      proof (elim disjE exE conjE)
        assume "set ss \<subseteq> {..<256}" "huff.stuck r" "r = bits_of (length r) acc" "length r \<le> m - l"
          "peel acc (m - l) (out @ [of_nat s]) = Ok (length r, (out @ [of_nat s]) @ map of_nat ss)"
        then show ?thesis
          using b' s by (intro exI [of _ "s # ss"] exI [of _ r]) (simp add: pe)
      next
        fix ss1
        assume "ss = ss1 @ [256]" "set ss1 \<subseteq> {..<256}"
          "peel acc (m - l) (out @ [of_nat s]) = Err (InvalidHuffman ''embedded end-of-string symbol'')"
        then show ?thesis
          using b' s by (intro exI [of _ "s # ss"] exI [of _ r] conjI disjI2 exI [of _ "s # ss1"]) (simp_all add: pe)
      qed
    qed
  qed
qed

lemma bits_of_push_byte:
  assumes "m + 8 \<le> 64"
  shows "bits_of (m + 8) (push_bit 8 acc OR ucast b :: u64) = bits_of m acc @ byte_bits b"
proof -
  have "bits_of (m + 8) (push_bit 8 acc OR ucast b :: u64) = bits_of m acc @ bits_of 8 (ucast b :: u64)"
    using assms by (intro bits_of_shift_or) (auto simp: bit_simps dest: bit_imp_le_length)
  then show ?thesis by (simp add: byte_bits_def bits_of_ucast)
qed

lemma huffman_decode_loop_sound:
  "huffman_decode_loop data acc m out = Ok (acc', m', out') \<Longrightarrow> huff.stuck (bits_of m acc) \<Longrightarrow>
   \<exists>ss. set ss \<subseteq> {..<256} \<and> out' = out @ map of_nat ss \<and>
     bits_of m acc @ bytes_bits data = huff_code ss @ bits_of m' acc' \<and> huff.stuck (bits_of m' acc')"
proof (induction data acc m out rule: huffman_decode_loop.induct)
  case (2 b data acc m out)
  define acc1 where "acc1 = push_bit 8 acc OR ucast b"
  have m: "m + 8 \<le> 64" using huff.stuck_short [OF 2(3)] by simp
  obtain m1 out1 where pe: "peel acc1 (m + 8) out = Ok (m1, out1)"
    and lp: "huffman_decode_loop data acc1 m1 out1 = Ok (acc', m', out')"
    using 2(2) by (auto simp: Let_def acc1_def res_simps)
  obtain ss r where ss: "bits_of (m + 8) acc1 = huff_code ss @ r" "set ss \<subseteq> {..<256}" "huff.stuck r"
    "r = bits_of m1 acc1" "out1 = out @ map of_nat ss"
    using peel_spec [OF m, of acc1 out] pe by auto
  obtain ss' where "set ss' \<subseteq> {..<256}" "out' = out1 @ map of_nat ss'"
    "bits_of m1 acc1 @ bytes_bits data = huff_code ss' @ bits_of m' acc'" "huff.stuck (bits_of m' acc')"
    using 2(1) [OF acc1_def pe refl lp] ss by auto
  moreover have "bits_of m acc @ bytes_bits (b # data) = huff_code ss @ bits_of m1 acc1 @ bytes_bits data"
    using ss(1,4) bits_of_push_byte [OF m, of acc b] by (simp flip: acc1_def append_assoc)
  ultimately show ?case
    using ss by (intro exI [of _ "ss @ ss'"]) simp
qed (auto intro: exI [of _ "[]"])

lemma huffman_decode_loop_complete:
  "bits_of m acc @ bytes_bits data = huff_code ss @ r \<Longrightarrow> huff.stuck (bits_of m acc) \<Longrightarrow> huff.stuck r \<Longrightarrow>
   set ss \<subseteq> {..<256} \<Longrightarrow>
   \<exists>acc'. huffman_decode_loop data acc m out = Ok (acc', length r, out @ map of_nat ss) \<and> bits_of (length r) acc' = r"
proof (induction data arbitrary: acc m out ss)
  case Nil
  then have "[] = ss \<and> bits_of m acc = r"
    by (intro huff.unique) (auto simp: huff.code_all_def)
  then show ?case using length_bits_of [of m acc] by auto
next
  case (Cons b data)
  define acc1 where "acc1 = push_bit 8 acc OR ucast b"
  have m: "m + 8 \<le> 64" using huff.stuck_short [OF Cons(3)] by simp
  obtain ss1 r1 where b1: "bits_of (m + 8) acc1 = huff_code ss1 @ r1" and
    alt: "set ss1 \<subseteq> {..<256} \<and> huff.stuck r1 \<and> r1 = bits_of (length r1) acc1 \<and> length r1 \<le> m + 8
        \<and> peel acc1 (m + 8) out = Ok (length r1, out @ map of_nat ss1)
     \<or> (\<exists>t. ss1 = t @ [256] \<and> set t \<subseteq> {..<256}
        \<and> peel acc1 (m + 8) out = Err (InvalidHuffman ''embedded end-of-string symbol''))"
    using peel_spec [OF m, of acc1 out] by blast
  have all: "huff_code ss1 @ (r1 @ bytes_bits data) = huff_code ss @ r"
    using Cons(2) b1 bits_of_push_byte [OF m, of acc b] by (simp flip: acc1_def append_assoc)
  have sub: "{..<256} \<subseteq> {..<257 :: nat}" by auto
  have "set ss1 \<subseteq> {..<257}" "set ss \<subseteq> {..<257}"
    using alt Cons(5) sub by (auto dest!: subset_trans [OF _ sub])
  then obtain us where us: "ss = ss1 @ us" "r1 @ bytes_bits data = huff_code us @ r"
    using huff.cancel [of ss1 "r1 @ bytes_bits data" ss r] all Cons(4)
    unfolding huff.code_all_def by blast
  have a: "huff.stuck r1" "r1 = bits_of (length r1) acc1" "peel acc1 (m + 8) out = Ok (length r1, out @ map of_nat ss1)"
    using alt us(1) Cons(5) by auto
  have "bits_of (length r1) acc1 @ bytes_bits data = huff_code us @ r" "huff.stuck (bits_of (length r1) acc1)"
    using a us(2) by simp_all
  then obtain acc' where "huffman_decode_loop data acc1 (length r1) (out @ map of_nat ss1)
      = Ok (acc', length r, (out @ map of_nat ss1) @ map of_nat us)" "bits_of (length r) acc' = r"
    using Cons(1) [of "length r1" acc1 us "out @ map of_nat ss1"] Cons(4,5) us(1) by auto
  then show ?case using a(3) us(1) by (auto simp: Let_def acc1_def)
qed

lemma all_ones_stuck: "k < 8 \<Longrightarrow> huff.stuck (replicate k True)"
  unfolding huff.stuck_def
proof (intro allI impI notI)
  fix s u
  assume k: "k < 8" and s: "s < 257" and eq: "replicate k True = code_word s @ u"
  define l where "l = length (code_word s)"
  have len: "l \<le> k" using arg_cong [OF eq, of length] unfolding l_def length_append length_replicate by simp
  have "code_word s = take l (replicate k True)" unfolding eq l_def by simp
  then have ones: "code_word s = replicate l True" using len by simp
  have "TABLE ! 256 = (mask 30, 30)" by (simp add: TABLE_def mask_eq_exp_minus_1)
  then have eos: "code_word 256 = replicate 30 True"
    by (simp add: code_word_def bits_of_mask)
  have "code_word s @ replicate (30 - l) True = code_word 256 @ []"
    using len k unfolding ones eos by (simp flip: replicate_add)
  then have "s = 256" by (rule code_word_prefix_free [OF s, rotated]) simp
  then have "l = 30" using eos unfolding l_def by simp
  then show False using len k by simp
qed

lemma map_of_nat_unat: "set ss \<subseteq> {..<256} \<Longrightarrow> syms (map of_nat ss) = ss"
  by (induction ss) (auto simp: unat_of_nat)

lemma map_of_nat_unat_id [simp]: "map (of_nat \<circ> unat) bs = (bs :: bytes)"
  by (induction bs) auto

lemma syms_bound: "set (syms bs) \<subseteq> {..<256}"
  by auto

lemma huffman_decode_padding:
  assumes "k < 8"
  shows "(acc AND (push_bit k 1 - 1) :: u64) = push_bit k 1 - 1 \<longleftrightarrow> bits_of k acc = replicate k True"
proof -
  have m: "(push_bit k 1 - 1 :: u64) = mask k" by (simp add: mask_eq_exp_minus_1)
  have "bits_of k acc = replicate k True \<longleftrightarrow> (\<forall>i<k. bit acc i)"
  proof
    assume eq: "bits_of k acc = replicate k True"
    show "\<forall>i<k. bit acc i"
    proof (intro allI impI)
      fix i assume i: "i < k"
      then have "bits_of k acc ! (k - Suc i)" by (simp add: eq)
      then show "bit acc i" using i by (simp add: Suc_diff_Suc)
    qed
  qed (auto intro: nth_equalityI)
  also have "(\<forall>i<k. bit acc i) \<longleftrightarrow> acc AND mask k = mask k"
  proof
    assume eq: "acc AND mask k = mask k"
    have "bit acc i" if "i < k" for i
      using arg_cong [OF eq, of "\<lambda>w. bit w i"] that assms by (simp add: bit_simps)
    then show "\<forall>i<k. bit acc i" by blast
  qed (auto simp: bit_eq_iff bit_simps)
  finally show ?thesis unfolding m by simp
qed

lemma huffman_decode_encode: "huffman_decode (huffman_encode data) = Ok data"
proof -
  obtain pad where pad: "pad < 8" "bytes_bits (huffman_encode data) = huff_code (syms data) @ replicate pad True"
    using huffman_encode_bits by blast
  obtain acc' where "huffman_decode_loop (huffman_encode data) 0 0 [] = Ok (acc', pad, data)"
    "bits_of pad acc' = replicate pad True"
    using huffman_decode_loop_complete [of 0 0 "huffman_encode data" "syms data" "replicate pad True" "[]"]
      pad all_ones_stuck [OF pad(1)] syms_bound [of data] by (auto simp del: set_map)
  then show ?thesis
    using pad(1) huffman_decode_padding [OF pad(1), of acc'] by (simp add: huffman_decode_def Let_def)
qed

lemma huffman_decode_inj:
  assumes "huffman_decode bs = Ok data"
  shows "huffman_encode data = bs"
proof -
  obtain acc k where lp: "huffman_decode_loop bs 0 0 [] = Ok (acc, k, data)" and k: "k < 8"
    and pad: "bits_of k acc = replicate k True"
  proof -
    from assms obtain acc k where "huffman_decode_loop bs 0 0 [] = Ok (acc, k, data)" "k < 8"
      "k = 0 \<or> acc AND (push_bit k 1 - 1) = push_bit k 1 - 1"
      by (auto simp: huffman_decode_def Let_def res_simps split: if_splits)
    then show ?thesis using that huffman_decode_padding [of k acc] by auto
  qed
  obtain ss where ss: "set ss \<subseteq> {..<256}" "data = map of_nat ss" "bytes_bits bs = huff_code ss @ replicate k True"
    using huffman_decode_loop_sound [OF lp] pad by auto
  obtain p where p: "p < 8" "bytes_bits (huffman_encode data) = huff_code (syms data) @ replicate p True"
    using huffman_encode_bits by blast
  have "syms data = ss" using ss(1,2) map_of_nat_unat by simp
  then have "8 * length (huffman_encode data) + k = 8 * length bs + p"
    using arg_cong [OF p(2), of length] arg_cong [OF ss(3), of length] by simp
  then have "p = k" using p(1) k by presburger
  then have "bytes_bits (huffman_encode data) = bytes_bits bs"
    using p(2) ss(3) \<open>syms data = ss\<close> by simp
  then show ?thesis by simp
qed
section \<open>Properties\<close>

text \<open>
  The code table is a complete prefix code: every string of at least 30 bits starts with the
  code of exactly one of the 257 symbols. The peeling loop of the decoder therefore never has a
  choice, and never holds 30 undecoded bits.
\<close>

lemma huffman_table_complete_prefix_code:
  assumes "30 \<le> length bs"
  shows "\<exists>!s. s < 257 \<and> (\<exists>u. bs = code_word s @ u)"
  using code_word_complete [OF assms] code_word_prefix_free by blast

lemma huffman_table_complete_prefix_code_witness:
  "\<exists>!s. s < 257 \<and> (\<exists>u. replicate 30 True = code_word s @ u)"
  by (rule huffman_table_complete_prefix_code) simp

text \<open>
  C4. Huffman decoding is exactly the inverse of encoding: a byte string decodes to \<open>data\<close> if and
  only if it is the encoding of \<open>data\<close>. So every string round-trips, and the decoder refuses
  everything the encoder does not write: embedded end-of-string symbols, padding of eight bits or
  more, padding that is not all ones.
\<close>

theorem huffman_decode_iff_encode:
  "huffman_decode bs = Ok data \<longleftrightarrow> huffman_encode data = bs"
  using huffman_decode_encode huffman_decode_inj by blast

text \<open>
  The length announced before a Huffman-coded string is the number of bytes the encoder then
  writes, for every string below 2^32 / 30 bytes, where the 32-bit sum of code lengths cannot wrap.
\<close>

lemma encoded_len_exact:
  assumes "30 * length data < 2 ^ 32"
  shows "encoded_len data = length (huffman_encode data)"
  using assms by (rule encoded_len_eq)

lemma encoded_len_exact_witness:
  "encoded_len [0x61, 0xFF, 0] = length (huffman_encode [0x61, 0xFF, 0])"
  by (rule encoded_len_exact) simp

text \<open>
  Beyond that bound the announced length is wrong: for a run of 143165577 line feeds (30-bit
  codes) the \<open>u32\<close> sum in \<open>encoded_len\<close> wraps to 14 bits, so 2 bytes are announced while the
  encoder writes 536870914.
\<close>

lemma encoded_len_wraps:
  "encoded_len (replicate 143165577 0x0A) = 2
   \<and> length (huffman_encode (replicate 143165577 0x0A)) = 536870914"
proof -
  have row: "snd (TABLE ! 10) = 30" by (simp add: TABLE_def)
  have len: "length (huff_code (syms (replicate n 0x0A))) = 30 * n" for n
    by (induction n) (simp_all add: row)
  show ?thesis
    unfolding encoded_len_def sum_code_lengths length_huffman_encode len Let_def
    by (simp add: unat_of_nat)
qed

end
