(* ===== verification/HpackTable.thy ===== *)
theory HpackTable
  imports HpackPrim
begin

text \<open>
  HPACK's static and dynamic tables and their common index space:
  \<open>crates/tomcatrs-coyote/src/hpack.rs\<close>, lines 113-388.
\<close>

section \<open>The static table\<close>

definition STATIC_TABLE :: "(string \<times> string) list" where
  "STATIC_TABLE =
   [
    ('':authority'', []),
    ('':method'', ''GET''),
    ('':method'', ''POST''),
    ('':path'', ''/''),
    ('':path'', ''/index.html''),
    ('':scheme'', ''http''),
    ('':scheme'', ''https''),
    ('':status'', ''200''),
    ('':status'', ''204''),
    ('':status'', ''206''),
    ('':status'', ''304''),
    ('':status'', ''400''),
    ('':status'', ''404''),
    ('':status'', ''500''),
    (''accept-charset'', []),
    (''accept-encoding'', ''gzip, deflate''),
    (''accept-language'', []),
    (''accept-ranges'', []),
    (''accept'', []),
    (''access-control-allow-origin'', []),
    (''age'', []),
    (''allow'', []),
    (''authorization'', []),
    (''cache-control'', []),
    (''content-disposition'', []),
    (''content-encoding'', []),
    (''content-language'', []),
    (''content-length'', []),
    (''content-location'', []),
    (''content-range'', []),
    (''content-type'', []),
    (''cookie'', []),
    (''date'', []),
    (''etag'', []),
    (''expect'', []),
    (''expires'', []),
    (''from'', []),
    (''host'', []),
    (''if-match'', []),
    (''if-modified-since'', []),
    (''if-none-match'', []),
    (''if-range'', []),
    (''if-unmodified-since'', []),
    (''last-modified'', []),
    (''link'', []),
    (''location'', []),
    (''max-forwards'', []),
    (''proxy-authenticate'', []),
    (''proxy-authorization'', []),
    (''range'', []),
    (''referer'', []),
    (''refresh'', []),
    (''retry-after'', []),
    (''server'', []),
    (''set-cookie'', []),
    (''strict-transport-security'', []),
    (''transfer-encoding'', []),
    (''user-agent'', []),
    (''vary'', []),
    (''via'', []),
    (''www-authenticate'', [])
   ]"

definition ENTRY_OVERHEAD :: nat where
  "ENTRY_OVERHEAD = 32"

section \<open>The dynamic table\<close>

text \<open>Entries are newest first, as in the code's \<open>VecDeque\<close>.\<close>

record DynamicTable =
  dt_entries :: "(string \<times> string) list"
  dt_size :: nat
  dt_capacity :: nat
  dt_max_capacity :: nat

definition dt_new :: "nat \<Rightarrow> DynamicTable" where
  "dt_new max_capacity =
    \<lparr>dt_entries = [], dt_size = 0, dt_capacity = max_capacity, dt_max_capacity = max_capacity\<rparr>"

definition entry_size :: "string \<Rightarrow> string \<Rightarrow> nat" where
  "entry_size name val = length name + length val + ENTRY_OVERHEAD"

function evict_to_fit :: "nat \<Rightarrow> DynamicTable \<Rightarrow> DynamicTable" where
  "evict_to_fit additional t =
    (if dt_capacity t < dt_size t + additional then
       (if dt_entries t = [] then t
        else let (n, v) = last (dt_entries t) in
          evict_to_fit additional
            (t\<lparr>dt_entries := butlast (dt_entries t), dt_size := dt_size t - entry_size n v\<rparr>))
     else t)"
  by pat_completeness auto
termination
  by (relation "measure (\<lambda>(additional, t). length (dt_entries t))") auto

declare evict_to_fit.simps [simp del]

definition dt_resize :: "nat \<Rightarrow> DynamicTable \<Rightarrow> DynamicTable" where
  "dt_resize new_capacity t = evict_to_fit 0 (t\<lparr>dt_capacity := new_capacity\<rparr>)"

definition dt_set_max_capacity :: "nat \<Rightarrow> DynamicTable \<Rightarrow> DynamicTable" where
  "dt_set_max_capacity max_capacity t =
    (let t' = t\<lparr>dt_max_capacity := max_capacity\<rparr> in
     if max_capacity < dt_capacity t' then dt_resize max_capacity t' else t')"

definition dt_apply_size_update :: "nat \<Rightarrow> DynamicTable \<Rightarrow> HpackError + DynamicTable" where
  "dt_apply_size_update new_capacity t =
    (if dt_max_capacity t < new_capacity then Err (TableSizeExceeded new_capacity (dt_max_capacity t))
     else Ok (dt_resize new_capacity t))"

definition dt_insert :: "string \<Rightarrow> string \<Rightarrow> DynamicTable \<Rightarrow> DynamicTable" where
  "dt_insert name val t =
    (let es = entry_size name val; t' = evict_to_fit es t in
     if dt_capacity t' < es then t'
     else t'\<lparr>dt_entries := (name, val) # dt_entries t', dt_size := dt_size t' + es\<rparr>)"

definition dt_get :: "nat \<Rightarrow> DynamicTable \<Rightarrow> (string \<times> string) option" where
  "dt_get idx t = (if idx < length (dt_entries t) then Some (dt_entries t ! idx) else None)"

section \<open>The combined index space\<close>

definition resolve_index :: "nat \<Rightarrow> DynamicTable \<Rightarrow> HpackError + string \<times> string" where
  "resolve_index idx dynamic =
    (if idx = 0 then Err (InvalidIndex 0)
     else if idx \<le> length STATIC_TABLE then Ok (STATIC_TABLE ! (idx - 1))
     else ok_or (dt_get (idx - length STATIC_TABLE - 1) dynamic) (InvalidIndex idx))"

text \<open>The scan of a table from the 1-based index \<open>i\<close> on.\<close>

fun scan_from :: "nat \<Rightarrow> (string \<times> string \<Rightarrow> bool) \<Rightarrow> (string \<times> string) list \<Rightarrow> nat option" where
  "scan_from i P [] = None"
| "scan_from i P (e # es) = (if P e then Some i else scan_from (Suc i) P es)"

definition find_full :: "string \<Rightarrow> string \<Rightarrow> DynamicTable \<Rightarrow> nat option" where
  "find_full name val dynamic =
    (case scan_from 1 (\<lambda>(n, v). n = name \<and> v = val) STATIC_TABLE of
       Some i \<Rightarrow> Some i
     | None \<Rightarrow> scan_from (length STATIC_TABLE + 1) (\<lambda>(n, v). n = name \<and> v = val) (dt_entries dynamic))"

definition find_name :: "string \<Rightarrow> DynamicTable \<Rightarrow> nat option" where
  "find_name name dynamic =
    (case scan_from 1 (\<lambda>(n, v). n = name) STATIC_TABLE of
       Some i \<Rightarrow> Some i
     | None \<Rightarrow> scan_from (length STATIC_TABLE + 1) (\<lambda>(n, v). n = name) (dt_entries dynamic))"

section \<open>The table invariant\<close>

definition entries_size :: "(string \<times> string) list \<Rightarrow> nat" where
  "entries_size es = sum_list (map (\<lambda>(n, v). entry_size n v) es)"

text \<open>
  The accounted size is the entries' size and within the capacity; capacity and ceiling are \<open>usize\<close>.
\<close>

definition dt_inv :: "DynamicTable \<Rightarrow> bool" where
  "dt_inv t \<longleftrightarrow> dt_size t = entries_size (dt_entries t) \<and> dt_size t \<le> dt_capacity t
    \<and> dt_capacity t \<le> usize_max \<and> dt_max_capacity t \<le> usize_max"

lemma entries_size_simps [simp]:
  "entries_size [] = 0" "entries_size (e # es) = entry_size (fst e) (snd e) + entries_size es"
  "entries_size (es @ fs) = entries_size es + entries_size fs"
  by (simp_all add: entries_size_def case_prod_beta)

text \<open>
  Eviction against its specification: what stays is the longest run of newest entries that fits.
\<close>

fun keep :: "nat \<Rightarrow> (string \<times> string) list \<Rightarrow> (string \<times> string) list" where
  "keep room [] = []"
| "keep room (e # es) =
    (if entry_size (fst e) (snd e) \<le> room then e # keep (room - entry_size (fst e) (snd e)) es else [])"

lemma entry_size_pos [simp]: "0 < entry_size n v" "entry_size n v \<noteq> 0"
  by (simp_all add: entry_size_def ENTRY_OVERHEAD_def)

lemma keep_all: "entries_size es \<le> room \<Longrightarrow> keep room es = es"
  by (induction es arbitrary: room) auto

lemma keep_snoc: "room < entries_size (es @ [e]) \<Longrightarrow> keep room (es @ [e]) = keep room es"
  by (induction es arbitrary: room) auto

lemma keep_size: "entries_size (keep room es) \<le> room"
proof (induction room es rule: keep.induct)
  case (2 room e es)
  then show ?case by auto
qed simp

lemma keep_0 [simp]: "keep 0 es = []"
  by (cases es) auto

lemma keep_keep: "r \<le> s \<Longrightarrow> keep r (keep s es) = keep r es"
proof (induction s es arbitrary: r rule: keep.induct)
  case (2 s e es)
  then show ?case by (auto simp: diff_le_mono)
qed simp

lemma keep_Cons_keep: "r \<le> s \<Longrightarrow> keep r (e # keep s es) = keep r (e # es)"
  by (auto simp: keep_keep)

lemma keep_prefix: "\<exists>k. keep room es = take k es"
proof (induction room es rule: keep.induct)
  case (2 room e es)
  then show ?case
  proof (cases "entry_size (fst e) (snd e) \<le> room")
    case True
    with 2 obtain k where "keep (room - entry_size (fst e) (snd e)) es = take k es" by auto
    with True have "keep room (e # es) = take (Suc k) (e # es)" by simp
    then show ?thesis by blast
  next
    case False
    then have "keep room (e # es) = take 0 (e # es)" by simp
    then show ?thesis by blast
  qed
qed simp

lemma keep_maximal: "k \<le> length es \<Longrightarrow> entries_size (take k es) \<le> room \<Longrightarrow> k \<le> length (keep room es)"
proof (induction room es arbitrary: k rule: keep.induct)
  case (2 room e es)
  then show ?case by (cases k) auto
qed simp

section \<open>Lemmas\<close>

lemma evict_to_fit_spec:
  "dt_size t = entries_size (dt_entries t) \<Longrightarrow>
   evict_to_fit a t = t\<lparr>dt_entries := keep (dt_capacity t - a) (dt_entries t),
     dt_size := entries_size (keep (dt_capacity t - a) (dt_entries t))\<rparr>"
proof (induction a t rule: evict_to_fit.induct)
  case (1 a t)
  show ?case
  proof (cases "dt_capacity t < dt_size t + a")
    case False
    then have "keep (dt_capacity t - a) (dt_entries t) = dt_entries t"
      using 1(2) by (intro keep_all) simp
    then show ?thesis using False 1(2) by (simp add: evict_to_fit.simps [of a t])
  next
    case over: True
    show ?thesis
    proof (cases "dt_entries t" rule: rev_cases)
      case Nil
      then show ?thesis using over 1(2) by (simp add: evict_to_fit.simps [of a t])
    next
      case (snoc es e)
      then have "keep (dt_capacity t - a) (dt_entries t) = keep (dt_capacity t - a) es"
      proof -
        have "dt_capacity t - a < entries_size (es @ [e])"
        proof -
          have "0 < entry_size (fst e) (snd e)" by simp
          moreover have "dt_capacity t < entries_size (es @ [e]) + a" "entries_size (es @ [e]) = entries_size es + entry_size (fst e) (snd e)"
            using over 1(2) snoc by simp_all
          ultimately show ?thesis by linarith
        qed
        from keep_snoc [OF this] show ?thesis using snoc by simp
      qed
      then show ?thesis
        using over 1 snoc
        by (cases e) (simp add: evict_to_fit.simps [of a t])
    qed
  qed
qed

lemma dt_inv_size: "dt_inv t \<Longrightarrow> dt_size t = entries_size (dt_entries t)"
  by (simp add: dt_inv_def)

lemma dt_new_inv [simp]: "c \<le> usize_max \<Longrightarrow> dt_inv (dt_new c)"
  by (simp add: dt_new_def dt_inv_def)

lemma dt_resize_entries:
  "dt_inv t \<Longrightarrow> dt_entries (dt_resize c t) = keep c (dt_entries t)"
  by (simp add: dt_resize_def evict_to_fit_spec dt_inv_def)

lemma dt_resize_capacity [simp]:
  "dt_inv t \<Longrightarrow> dt_capacity (dt_resize c t) = c"
  "dt_inv t \<Longrightarrow> dt_max_capacity (dt_resize c t) = dt_max_capacity t"
  by (simp_all add: dt_resize_def evict_to_fit_spec dt_inv_def)

lemma dt_resize_inv [simp]: "dt_inv t \<Longrightarrow> c \<le> usize_max \<Longrightarrow> dt_inv (dt_resize c t)"
  by (simp add: dt_resize_def evict_to_fit_spec dt_inv_def keep_size)

lemma dt_insert_eq:
  "dt_inv t \<Longrightarrow> dt_insert n v t = t\<lparr>dt_entries := keep (dt_capacity t) ((n, v) # dt_entries t),
     dt_size := entries_size (keep (dt_capacity t) ((n, v) # dt_entries t))\<rparr>"
  by (simp add: dt_insert_def evict_to_fit_spec dt_inv_size Let_def)

lemma dt_insert_entries:
  "dt_inv t \<Longrightarrow> dt_entries (dt_insert n v t) = keep (dt_capacity t) ((n, v) # dt_entries t)"
  by (simp add: dt_insert_eq del: keep.simps)

lemma dt_insert_capacity [simp]:
  "dt_inv t \<Longrightarrow> dt_capacity (dt_insert n v t) = dt_capacity t"
  "dt_inv t \<Longrightarrow> dt_max_capacity (dt_insert n v t) = dt_max_capacity t"
  by (simp_all add: dt_insert_eq)

lemma dt_insert_inv [simp]: "dt_inv t \<Longrightarrow> dt_inv (dt_insert n v t)"
  using keep_size [of "dt_capacity t" "(n, v) # dt_entries t"]
  by (simp add: dt_insert_eq dt_inv_def del: keep.simps)

lemma dt_set_max_capacity_inv [simp]:
  assumes "dt_inv t" "m \<le> usize_max"
  shows "dt_inv (dt_set_max_capacity m t)"
proof -
  have "dt_inv (t\<lparr>dt_max_capacity := m\<rparr>)" using assms by (simp add: dt_inv_def)
  then show ?thesis using assms by (auto simp: dt_set_max_capacity_def Let_def)
qed

lemma dt_apply_size_update_Ok:
  "dt_apply_size_update c t = Ok t' \<longleftrightarrow> c \<le> dt_max_capacity t \<and> t' = dt_resize c t"
  by (auto simp: dt_apply_size_update_def)

text \<open>Between them, the operations of the code never build a table whose capacity is above its ceiling,
  \<open>resize\<close> with a size above it apart.\<close>

lemma capacity_bounded:
  "dt_capacity (dt_new c) \<le> dt_max_capacity (dt_new c)"
  "dt_inv t \<Longrightarrow> dt_capacity t \<le> dt_max_capacity t \<Longrightarrow>
     dt_capacity (dt_insert n v t) \<le> dt_max_capacity (dt_insert n v t)"
  "dt_inv t \<Longrightarrow> dt_apply_size_update c t = Ok t' \<Longrightarrow> dt_capacity t' \<le> dt_max_capacity t'"
  by (simp_all add: dt_new_def dt_apply_size_update_Ok)

lemma scan_from_Some:
  "scan_from i P es = Some j \<Longrightarrow> i \<le> j \<and> j < i + length es \<and> P (es ! (j - i))
    \<and> (\<forall>k < j - i. \<not> P (es ! k))"
proof (induction i P es arbitrary: j rule: scan_from.induct)
  case (2 i P e es)
  show ?case
  proof (cases "P e")
    case True
    then show ?thesis using 2(2) by simp
  next
    case False
    with 2 have *: "Suc i \<le> j" "j < Suc i + length es" "P (es ! (j - Suc i))"
      "\<forall>k < j - Suc i. \<not> P (es ! k)" by auto
    have "j - i = Suc (j - Suc i)" using *(1) by simp
    then show ?thesis using * False by (auto simp: nth_Cons split: nat.split)
  qed
qed simp

lemma scan_from_None: "scan_from i P es = None \<longleftrightarrow> (\<forall>e \<in> set es. \<not> P e)"
  by (induction i P es rule: scan_from.induct) auto

lemma length_STATIC_TABLE: "length STATIC_TABLE = 61"
  by (simp add: STATIC_TABLE_def)

lemma find_full_resolve:
  "find_full n v t = Some i \<Longrightarrow> resolve_index i t = Ok (n, v) \<and> 0 < i \<and> i \<le> 61 + length (dt_entries t)"
  by (auto simp: find_full_def resolve_index_def dt_get_def length_STATIC_TABLE
      split: option.splits dest!: scan_from_Some)

lemma find_name_resolve:
  "find_name n t = Some i \<Longrightarrow> (\<exists>v. resolve_index i t = Ok (n, v)) \<and> 0 < i \<and> i \<le> 61 + length (dt_entries t)"
  by (auto simp: find_name_def resolve_index_def dt_get_def length_STATIC_TABLE
      split: option.splits dest!: scan_from_Some)

lemma resolve_index_Ok:
  "resolve_index i t = Ok e \<longleftrightarrow>
    (1 \<le> i \<and> i \<le> 61 \<and> e = STATIC_TABLE ! (i - 1)) \<or>
    (62 \<le> i \<and> i - 62 < length (dt_entries t) \<and> e = dt_entries t ! (i - 62))"
  by (auto simp: resolve_index_def dt_get_def length_STATIC_TABLE diff_diff_eq res_simps)

lemma entries_size_ge: "32 * length es \<le> entries_size es"
  by (induction es) (auto simp: entry_size_def ENTRY_OVERHEAD_def)

lemma dt_inv_length: "dt_inv t \<Longrightarrow> 61 + length (dt_entries t) \<le> usize_max"
  using entries_size_ge [of "dt_entries t"] by (simp add: dt_inv_def usize_max_def)

section \<open>Agreeing tables\<close>

text \<open>
  What the two ends of a connection rely on: the encoder's table and the decoder's table, possibly
  not equal, but such that an index the encoder finds means the same field to the decoder, and
  that the same insertion on both sides keeps it so.
\<close>

locale agreeing_tables =
  fixes agrees :: "'t \<Rightarrow> 't \<Rightarrow> bool"
    and ins :: "string \<Rightarrow> string \<Rightarrow> 't \<Rightarrow> 't"
    and res :: "nat \<Rightarrow> 't \<Rightarrow> 'e + string \<times> string"
    and full :: "string \<Rightarrow> string \<Rightarrow> 't \<Rightarrow> nat option"
    and nm :: "string \<Rightarrow> 't \<Rightarrow> nat option"
  assumes agrees_ins: "agrees t u \<Longrightarrow> agrees (ins n v t) (ins n v u)"
    and full_res: "agrees t u \<Longrightarrow> full n v t = Some i \<Longrightarrow> res i u = Ok (n, v)"
    and nm_res: "agrees t u \<Longrightarrow> nm n t = Some i \<Longrightarrow> \<exists>v. res i u = Ok (n, v)"
    and full_index: "agrees t u \<Longrightarrow> full n v t = Some i \<Longrightarrow> 0 < i \<and> i \<le> usize_max"
    and nm_index: "agrees t u \<Longrightarrow> nm n t = Some i \<Longrightarrow> 0 < i \<and> i \<le> usize_max"
begin

lemma agrees_inserts: "agrees t u \<Longrightarrow> agrees (fold (case_prod ins) es t) (fold (case_prod ins) es u)"
  by (induction es arbitrary: t u) (auto intro: agrees_ins)

lemma full_after_inserts:
  "agrees t u \<Longrightarrow> full n v (fold (case_prod ins) es t) = Some i \<Longrightarrow>
   res i (fold (case_prod ins) es u) = Ok (n, v)"
  by (rule full_res [OF agrees_inserts])

end

text \<open>The encoder's entries are the newest ones of the decoder's, within no larger a capacity.\<close>

definition agree :: "DynamicTable \<Rightarrow> DynamicTable \<Rightarrow> bool" where
  "agree t u \<longleftrightarrow> dt_inv t \<and> dt_inv u \<and> dt_capacity t \<le> dt_capacity u \<and>
    (\<exists>old. dt_entries u = dt_entries t @ old)"

lemma keep_append: "r \<le> s \<Longrightarrow> \<exists>more. keep s (es @ old) = keep r es @ more"
proof (induction s es arbitrary: r rule: keep.induct)
  case (2 s e es)
  then show ?case
    by (cases "entry_size (fst e) (snd e) \<le> r") (auto simp: diff_le_mono)
qed simp

lemma resolve_index_append:
  assumes "resolve_index i t = Ok e" "dt_entries u = dt_entries t @ old"
  shows "resolve_index i u = Ok e"
  using assms unfolding resolve_index_Ok by (auto simp: nth_append)

interpretation tabs: agreeing_tables agree dt_insert resolve_index find_full find_name
proof
  fix t u n v i
  assume a: "agree t u"
  then have inv: "dt_inv t" "dt_inv u" and cap: "dt_capacity t \<le> dt_capacity u"
    and ext: "\<exists>old. dt_entries u = dt_entries t @ old" by (auto simp: agree_def)
  have "\<exists>old. dt_entries (dt_insert n v u) = dt_entries (dt_insert n v t) @ old"
    using ext keep_append [OF cap, of "(n, v) # dt_entries t"]
    by (auto simp: dt_insert_entries inv simp del: keep.simps)
  then show "agree (dt_insert n v t) (dt_insert n v u)"
    by (simp add: agree_def inv cap)
  show "resolve_index i u = Ok (n, v)" if "find_full n v t = Some i"
    using find_full_resolve [OF that] ext by (auto dest: resolve_index_append)
  show "\<exists>v. resolve_index i u = Ok (n, v)" if "find_name n t = Some i"
    using find_name_resolve [OF that] ext by (auto dest: resolve_index_append)
  show "0 < i \<and> i \<le> usize_max" if "find_full n v t = Some i"
    using find_full_resolve [OF that] dt_inv_length [OF inv(1)] by simp
  show "0 < i \<and> i \<le> usize_max" if "find_name n t = Some i"
    using find_name_resolve [OF that] dt_inv_length [OF inv(1)] by simp
qed

lemma keep_append_keep: "r \<le> s \<Longrightarrow> keep r (xs @ keep s ys) = keep r (xs @ ys)"
  by (induction xs arbitrary: r) (auto simp: keep_keep)

lemma dt_entries_inserts:
  "dt_inv t \<Longrightarrow>
   dt_entries (fold (case_prod dt_insert) es t) = keep (dt_capacity t) (rev es @ dt_entries t)"
proof (induction es arbitrary: t)
  case Nil
  then show ?case by (simp add: keep_all dt_inv_def)
next
  case (Cons e es)
  obtain n v where e: "e = (n, v)" by fastforce
  show ?case
    using Cons.IH [of "dt_insert n v t"] Cons.prems keep_append_keep [of "dt_capacity t" "dt_capacity t"]
    by (simp add: e dt_insert_entries del: keep.simps)
qed

section \<open>Properties\<close>

text \<open>
  Eviction order: after any sequence of insertions into a new table, the table holds exactly the
  newest fields, newest first, as many of them as fit its capacity, and no fewer.
\<close>

lemma dynamic_table_keeps_newest:
  assumes "c \<le> usize_max"
  shows "\<exists>k. dt_entries (fold (case_prod dt_insert) hs (dt_new c)) = take k (rev hs)
    \<and> entries_size (take k (rev hs)) \<le> c
    \<and> (\<forall>j \<le> length hs. entries_size (take j (rev hs)) \<le> c \<longrightarrow> j \<le> k)"
proof -
  have "dt_entries (fold (case_prod dt_insert) hs (dt_new c)) = keep c (rev hs)"
    using dt_entries_inserts [OF dt_new_inv [OF assms], of hs] by (simp add: dt_new_def)
  moreover have "keep c (rev hs) = take (length (keep c (rev hs))) (rev hs)"
    using keep_prefix [of c "rev hs"] by (metis length_take min.cobounded1 min.cobounded2 take_all_iff take_take min_def)
  ultimately show ?thesis
    using keep_size [of c "rev hs"] keep_maximal [of _ "rev hs" c] by (metis length_rev)
qed

lemma dynamic_table_keeps_newest_witness:
  "dt_entries (fold (case_prod dt_insert) [(''a'', ''b''), (''c'', ''d'')] (dt_new 40)) = [(''c'', ''d'')]"
proof -
  obtain k where k: "dt_entries (fold (case_prod dt_insert) [(''a'', ''b''), (''c'', ''d'')] (dt_new 40)) 
      = take k [(''c'', ''d''), (''a'', ''b'')]" "entries_size (take k [(''c'', ''d''), (''a'', ''b'')]) \<le> 40"
    "1 \<le> k"
    using dynamic_table_keeps_newest [of 40 "[(''a'', ''b''), (''c'', ''d'')]"]
    by (force simp: usize_max_def entry_size_def ENTRY_OVERHEAD_def)
  then have "k = 1"
    by (cases k; cases "k - 1") (auto simp: entry_size_def ENTRY_OVERHEAD_def)
  then show ?thesis using k(1) by simp
qed

end
