(* ===== verification/Hpack.thy ===== *)
theory Hpack
  imports HpackHuffman HpackTable
begin

text \<open>
  HPACK string literals, the decoder and the encoder:
  \<open>crates/tomcatrs-coyote/src/hpack.rs\<close>, lines 859-1247.

  A method on \<open>&mut self\<close> returns the new state with its result, on the error paths too: what a
  failing \<open>decode\<close> has already done to the dynamic table stays done. The byte position \<open>pos\<close> of the
  code is the rest of the block from that position.
\<close>

section \<open>String literals\<close>

definition encode_string :: "string \<Rightarrow> bytes" where
  "encode_string s =
    (let raw = as_bytes s; huff_len = encoded_len raw in
     if huff_len < length raw then or_first 0x80 (encode_integer huff_len 7) @ huffman_encode raw
     else encode_integer (length raw) 7 @ raw)"

definition decode_string :: "bytes \<Rightarrow> HpackError + string \<times> nat" where
  "decode_string bs =
    (case bs of [] \<Rightarrow> Err Truncated
     | first # _ \<Rightarrow>
         let huffman_flag = (first AND 0x80 \<noteq> 0) in
         and_then (decode_integer bs 7) (\<lambda>(len, start).
           let end_pos = start + len in
           if usize_max < end_pos then Err IntegerOverflow
           else if length bs < end_pos then Err Truncated
           else
             let payload = take len (drop start bs) in
             and_then (if huffman_flag then huffman_decode payload else Ok payload) (\<lambda>raw.
               and_then (ok_or (from_utf8 raw) InvalidUtf8) (\<lambda>s. Ok (s, end_pos)))))"

section \<open>The decoder\<close>

record HpackDecoder =
  dec_dynamic :: DynamicTable
  dec_max_header_list_size :: nat

definition decoder_new :: "nat \<Rightarrow> HpackDecoder" where
  "decoder_new header_table_size =
    \<lparr>dec_dynamic = dt_new header_table_size, dec_max_header_list_size = 16 * 1024 * 1024\<rparr>"

definition set_max_header_list_size :: "nat \<Rightarrow> HpackDecoder \<Rightarrow> HpackDecoder" where
  "set_max_header_list_size lim d = d\<lparr>dec_max_header_list_size := lim\<rparr>"

definition set_max_table_size :: "nat \<Rightarrow> HpackDecoder \<Rightarrow> HpackDecoder" where
  "set_max_table_size m d = d\<lparr>dec_dynamic := dt_set_max_capacity m (dec_dynamic d)\<rparr>"

definition decode_literal :: "bytes \<Rightarrow> nat \<Rightarrow> HpackDecoder \<Rightarrow> HpackError + string \<times> string \<times> nat" where
  "decode_literal bs prefix_bits d =
    and_then (decode_integer bs prefix_bits) (\<lambda>(idx, pos).
      and_then
        (if idx = 0 then
           and_then (decode_string (drop pos bs)) (\<lambda>(n, used). Ok (n, pos + used))
         else and_then (resolve_index idx (dec_dynamic d)) (\<lambda>(n, _). Ok (n, pos)))
        (\<lambda>(name, pos').
           and_then (decode_string (drop pos' bs)) (\<lambda>(val, used). Ok (name, val, pos' + used))))"

definition check_size :: "nat \<Rightarrow> HpackDecoder \<Rightarrow> HpackError + unit" where
  "check_size new_total d =
    (if dec_max_header_list_size d < new_total then Err (HeaderListTooLarge (dec_max_header_list_size d))
     else Ok ())"

lemma decode_literal_used:
  "decode_literal bs p d = Ok (n, v, used) \<Longrightarrow> p \<le> 8 \<Longrightarrow> 0 < used"
  by (auto simp: decode_literal_def res_simps split: if_splits dest!: decode_integer_used)

function decode_loop ::
  "bytes \<Rightarrow> bool \<Rightarrow> nat \<Rightarrow> (string \<times> string) list \<Rightarrow> HpackDecoder
   \<Rightarrow> HpackDecoder \<times> (HpackError + (string \<times> string) list)" where
  "decode_loop bs allow_size_update total_size headers d =
    (case bs of [] \<Rightarrow> (d, Ok headers)
     | byte # _ \<Rightarrow>
       if byte AND 0x80 \<noteq> 0 then
         (case decode_integer bs 7 of Inl e \<Rightarrow> (d, Err e)
          | Inr (idx, used) \<Rightarrow>
            (case resolve_index idx (dec_dynamic d) of Inl e \<Rightarrow> (d, Err e)
             | Inr (name, val) \<Rightarrow>
               let new_total = total_size + length name + length val + ENTRY_OVERHEAD in
               (case check_size new_total d of Inl e \<Rightarrow> (d, Err e)
                | Inr _ \<Rightarrow> decode_loop (drop used bs) False new_total (headers @ [(name, val)]) d)))
       else if byte AND 0x40 \<noteq> 0 then
         (case decode_literal bs 6 d of Inl e \<Rightarrow> (d, Err e)
          | Inr (name, val, used) \<Rightarrow>
            let d' = d\<lparr>dec_dynamic := dt_insert name val (dec_dynamic d)\<rparr>;
                new_total = total_size + length name + length val + ENTRY_OVERHEAD in
            (case check_size new_total d' of Inl e \<Rightarrow> (d', Err e)
             | Inr _ \<Rightarrow> decode_loop (drop used bs) False new_total (headers @ [(name, val)]) d'))
       else if byte AND 0x20 \<noteq> 0 then
         (if \<not> allow_size_update then (d, Err UnexpectedTableSizeUpdate)
          else
            (case decode_integer bs 5 of Inl e \<Rightarrow> (d, Err e)
             | Inr (new_size, used) \<Rightarrow>
               (case dt_apply_size_update new_size (dec_dynamic d) of Inl e \<Rightarrow> (d, Err e)
                | Inr dyn \<Rightarrow>
                  decode_loop (drop used bs) allow_size_update total_size headers (d\<lparr>dec_dynamic := dyn\<rparr>))))
       else
         (case decode_literal bs 4 d of Inl e \<Rightarrow> (d, Err e)
          | Inr (name, val, used) \<Rightarrow>
            let new_total = total_size + length name + length val + ENTRY_OVERHEAD in
            (case check_size new_total d of Inl e \<Rightarrow> (d, Err e)
             | Inr _ \<Rightarrow> decode_loop (drop used bs) False new_total (headers @ [(name, val)]) d)))"
  by pat_completeness auto
termination
  by (relation "measure (\<lambda>(bs, _). length bs)")
    (auto dest!: decode_integer_used decode_literal_used)

declare decode_loop.simps [simp del]

definition decode :: "bytes \<Rightarrow> HpackDecoder \<Rightarrow> HpackDecoder \<times> (HpackError + (string \<times> string) list)" where
  "decode block d = decode_loop block True 0 [] d"

section \<open>The encoder\<close>

datatype HeaderHint = Index | WithoutIndex | NeverIndex

record HpackEncoder =
  enc_dynamic :: DynamicTable
  enc_sensitive :: "string \<Rightarrow> string \<Rightarrow> bool"
  enc_pending_size_update :: "nat option"

definition default_sensitive :: "string \<Rightarrow> string \<Rightarrow> bool" where
  "default_sensitive name val \<longleftrightarrow>
    name \<in> {''authorization'', ''proxy-authorization'', ''cookie'', ''set-cookie''}"

definition encoder_new :: "nat \<Rightarrow> HpackEncoder" where
  "encoder_new header_table_size =
    \<lparr>enc_dynamic = dt_new header_table_size, enc_sensitive = default_sensitive,
     enc_pending_size_update = None\<rparr>"

definition set_sensitivity_predicate :: "(string \<Rightarrow> string \<Rightarrow> bool) \<Rightarrow> HpackEncoder \<Rightarrow> HpackEncoder" where
  "set_sensitivity_predicate pred e = e\<lparr>enc_sensitive := pred\<rparr>"

definition set_table_size :: "nat \<Rightarrow> HpackEncoder \<Rightarrow> HpackEncoder" where
  "set_table_size new_size e =
    (let clamped = min new_size (dt_max_capacity (enc_dynamic e)) in
     e\<lparr>enc_dynamic := dt_resize clamped (enc_dynamic e), enc_pending_size_update := Some clamped\<rparr>)"

definition encode_literal :: "string \<Rightarrow> string \<Rightarrow> nat option \<Rightarrow> nat \<Rightarrow> u8 \<Rightarrow> bytes" where
  "encode_literal name val name_idx prefix_bits flag_bits =
    or_first flag_bits
      (case name_idx of Some idx \<Rightarrow> encode_integer idx prefix_bits | None \<Rightarrow> encode_integer 0 prefix_bits)
    @ (if name_idx = None then encode_string name else [])
    @ encode_string val"

definition encode_field :: "string \<Rightarrow> string \<Rightarrow> HeaderHint \<Rightarrow> DynamicTable \<Rightarrow> DynamicTable \<times> bytes" where
  "encode_field name val hint t =
    (case find_full name val t of
       Some idx \<Rightarrow> (t, or_first 0x80 (encode_integer idx 7))
     | None \<Rightarrow>
         let name_idx = find_name name t in
         (case hint of
            Index \<Rightarrow> (dt_insert name val t, encode_literal name val name_idx 6 0x40)
          | WithoutIndex \<Rightarrow> (t, encode_literal name val name_idx 4 0x00)
          | NeverIndex \<Rightarrow> (t, encode_literal name val name_idx 4 0x10)))"

fun encode_fields :: "((string \<times> string) \<times> HeaderHint) list \<Rightarrow> DynamicTable \<Rightarrow> DynamicTable \<times> bytes" where
  "encode_fields [] t = (t, [])"
| "encode_fields (((name, val), hint) # fs) t =
    (let (t', out) = encode_field name val hint t; (t'', out') = encode_fields fs t' in
     (t'', out @ out'))"

text \<open>\<open>None\<close> is the panic of the length assertion.\<close>

definition encode_with_hints ::
  "(string \<times> string) list \<Rightarrow> HeaderHint list \<Rightarrow> HpackEncoder \<Rightarrow> (HpackEncoder \<times> bytes) option" where
  "encode_with_hints headers hints e =
    (if length headers \<noteq> length hints then None
     else
       let update = (case enc_pending_size_update e of
             Some new_size \<Rightarrow> or_first 0x20 (encode_integer new_size 5) | None \<Rightarrow> []);
           (t, out) = encode_fields (zip headers hints) (enc_dynamic e) in
       Some (e\<lparr>enc_dynamic := t, enc_pending_size_update := None\<rparr>, update @ out))"

definition encode :: "(string \<times> string) list \<Rightarrow> HpackEncoder \<Rightarrow> (HpackEncoder \<times> bytes) option" where
  "encode headers e =
    encode_with_hints headers
      (map (\<lambda>(n, v). if enc_sensitive e n v then NeverIndex else Index) headers) e"

section \<open>String literals decode to themselves\<close>

lemma first_byte:
  assumes "1 \<le> p" "p \<le> 8"
  obtains b r where "or_first flag (encode_integer v p) = b # r"
    "\<And>i. p \<le> i \<Longrightarrow> i < 8 \<Longrightarrow> bit b i = bit flag i"
proof -
  obtain n r where n: "encode_integer v p = of_nat n # r" "n < 2 ^ p"
  proof (cases "v < mask p")
    case True
    then have "v < 2 ^ p" by (simp add: mask_eq_exp_minus_1)
    then show ?thesis using True by (intro that [of v "[]"]) (simp_all add: encode_integer_mask)
  next
    case False
    then show ?thesis
      by (intro that [of "mask p" "encode_rest (v - mask p)"])
        (simp_all add: encode_integer_mask mask_eq_exp_minus_1 del: of_nat_mask_eq)
  qed
  have "\<not> bit n i" if "p \<le> i" for i
    using that n(2) less_le_trans [OF n(2), of "2 ^ i"] by (simp add: bit_iff_odd)
  then have "bit ((of_nat n :: u8) OR flag) i = bit flag i" if "p \<le> i" "i < 8" for i
    using that by (simp add: bit_simps)
  then show ?thesis using n(1) by (intro that [of "of_nat n OR flag" r]) (simp_all add: or_first_def)
qed

lemma byte_flags [simp]:
  "(b :: u8) AND 0x80 = 0 \<longleftrightarrow> \<not> bit b 7"
  "(b :: u8) AND 0x40 = 0 \<longleftrightarrow> \<not> bit b 6"
  "(b :: u8) AND 0x20 = 0 \<longleftrightarrow> \<not> bit b 5"
  using and_exp_eq_0_iff_not_bit [of b 7] and_exp_eq_0_iff_not_bit [of b 6]
    and_exp_eq_0_iff_not_bit [of b 5] by simp_all

lemma flag_bits [simp]:
  "bit (0x80 :: u8) 7" "\<not> bit (0x40 :: u8) 7" "bit (0x40 :: u8) 6"
  "\<not> bit (0x20 :: u8) 7" "\<not> bit (0x20 :: u8) 6" "bit (0x20 :: u8) 5"
  "\<not> bit (0x10 :: u8) 7" "\<not> bit (0x10 :: u8) 6" "\<not> bit (0x10 :: u8) 5"
  by (simp_all add: bit_simps)

lemma flags_clear [simp]:
  "take_bit 7 (0x80 :: u8) = 0" "take_bit 6 (0x40 :: u8) = 0" "take_bit 5 (0x20 :: u8) = 0"
  "take_bit 4 (0x10 :: u8) = 0"
  by (simp_all)

lemma decode_encode_string:
  assumes "valid_str s" "30 * length s < 2 ^ 32"
  shows "decode_string (encode_string s @ rest) = Ok (s, length (encode_string s))"
proof (cases "encoded_len (as_bytes s) < length s")
  case True
  define n where "n = encoded_len (as_bytes s)"
  have n: "n = length (huffman_encode (as_bytes s))"
    unfolding n_def using assms(2) by (intro encoded_len_eq) simp
  have small: "n \<le> usize_max" using True assms(2) by (simp add: n_def usize_max_def)
  obtain b r where b: "or_first 0x80 (encode_integer n 7) = b # r" "bit b 7"
    by (rule first_byte [of 7 "0x80" n]) auto
  have len: "length (encode_integer n 7) = Suc (length r)"
    by (metis b(1) length_Cons length_or_first)
  have dec: "decode_integer (b # r @ huffman_encode (as_bytes s) @ rest) 7 = Ok (n, Suc (length r))"
    using decode_encode_integer [of n 7 "0x80" "huffman_encode (as_bytes s) @ rest"] small b(1) len by simp
  have enc: "encode_string s = b # r @ huffman_encode (as_bytes s)"
    using True b(1) by (simp add: encode_string_def n_def)
  have "\<not> usize_max < Suc (length r) + n"
  proof -
    have "Suc (length r) \<le> 11" using decode_integer_used [OF dec] by simp
    moreover have "n < 2 ^ 32" using True assms(2) by (simp add: n_def)
    ultimately show ?thesis by (simp add: usize_max_def)
  qed
  then show ?thesis
    using b assms(1) by (simp add: decode_string_def enc dec n huffman_decode_encode)
next
  case False
  have small: "length s \<le> usize_max" using assms(2) by (simp add: usize_max_def)
  obtain b r where b: "or_first 0 (encode_integer (length s) 7) = b # r" "\<not> bit b 7"
    by (rule first_byte [of 7 0 "length s"]) auto
  have len: "length (encode_integer (length s) 7) = Suc (length r)"
    by (metis b(1) length_Cons length_or_first)
  have dec: "decode_integer (b # r @ as_bytes s @ rest) 7 = Ok (length s, Suc (length r))"
    using decode_encode_integer [of "length s" 7 0 "as_bytes s @ rest"] small b(1) len by simp
  have enc: "encode_string s = b # r @ as_bytes s"
    using False b(1) by (simp add: encode_string_def)
  have "\<not> usize_max < Suc (length r) + length s"
  proof -
    have "Suc (length r) \<le> 11" using decode_integer_used [OF dec] by simp
    then show ?thesis using assms(2) by (simp add: usize_max_def)
  qed
  then show ?thesis
    using b assms(1) by (simp add: decode_string_def enc dec)
qed

lemma decode_string_bounds:
  assumes "decode_string bs = Ok (s, used)"
  shows "0 < used \<and> used \<le> length bs \<and> valid_str s"
  using assms
  by (auto simp: decode_string_def res_simps Let_def split: list.splits if_splits
      dest!: decode_integer_used from_utf8_Some)

section \<open>A field decodes to itself\<close>

text \<open>What a string must satisfy to be a header name or value that this code can carry.\<close>

definition str_ok :: "string \<Rightarrow> bool" where
  "str_ok s \<longleftrightarrow> valid_str s \<and> 30 * length s < 2 ^ 32"

lemma decode_literal_encode:
  assumes "agree t (dec_dynamic d)" "str_ok n" "str_ok v" "1 \<le> p" "p \<le> 8" "take_bit p flag = 0"
  shows "decode_literal (encode_literal n v (find_name n t) p flag @ rest) p d
    = Ok (n, v, length (encode_literal n v (find_name n t) p flag))"
proof (cases "find_name n t")
  case None
  have i: "decode_integer (or_first flag (encode_integer 0 p) @ r) p = Ok (0, length (encode_integer 0 p))" for r
    using assms by (intro decode_encode_integer) (simp_all add: usize_max_def)
  show ?thesis
    using assms(2,3) None
    by (simp add: decode_literal_def encode_literal_def i str_ok_def decode_encode_string)
next
  case (Some idx)
  from tabs.nm_index [OF assms(1) Some] tabs.nm_res [OF assms(1) Some] obtain w
    where idx: "0 < idx" "idx \<le> usize_max" "resolve_index idx (dec_dynamic d) = Ok (n, w)" by auto
  have i: "decode_integer (or_first flag (encode_integer idx p) @ r) p = Ok (idx, length (encode_integer idx p))" for r
    using assms idx(2) by (intro decode_encode_integer)
  show ?thesis
    using assms(3) Some idx
    by (simp add: decode_literal_def encode_literal_def i str_ok_def decode_encode_string)
qed

lemma encode_literal_first:
  assumes "1 \<le> p" "p \<le> 8"
  obtains b r where "encode_literal n v ni p flag = b # r"
    "\<And>i. p \<le> i \<Longrightarrow> i < 8 \<Longrightarrow> bit b i = bit flag i"
proof -
  obtain b r where b: "or_first flag (encode_integer (case ni of Some i \<Rightarrow> i | None \<Rightarrow> 0) p) = b # r"
    "\<And>i. p \<le> i \<Longrightarrow> i < 8 \<Longrightarrow> bit b i = bit flag i"
    using first_byte [OF assms] by metis
  then show ?thesis
    by (intro that [of b "r @ (if ni = None then encode_string n else []) @ encode_string v"])
      (auto simp: encode_literal_def split: option.splits)
qed

text \<open>One step of the decoder for each representation.\<close>

lemma decode_loop_indexed:
  assumes "bs = b # r" "bit b 7" "decode_integer bs 7 = Ok (idx, used)"
    "resolve_index idx (dec_dynamic d) = Ok (n, v)"
    "tot + entry_size n v \<le> dec_max_header_list_size d"
  shows "decode_loop bs allow tot hs d
    = decode_loop (drop used bs) False (tot + entry_size n v) (hs @ [(n, v)]) d"
  using assms by (subst decode_loop.simps) (simp add: check_size_def entry_size_def add.assoc)

lemma decode_loop_incremental:
  assumes "bs = b # r" "\<not> bit b 7" "bit b 6" "decode_literal bs 6 d = Ok (n, v, used)"
    "tot + entry_size n v \<le> dec_max_header_list_size d"
  shows "decode_loop bs allow tot hs d
    = decode_loop (drop used bs) False (tot + entry_size n v) (hs @ [(n, v)])
        (d\<lparr>dec_dynamic := dt_insert n v (dec_dynamic d)\<rparr>)"
  using assms by (subst decode_loop.simps) (simp add: check_size_def entry_size_def add.assoc)

lemma decode_loop_update:
  assumes "bs = b # r" "\<not> bit b 7" "\<not> bit b 6" "bit b 5" "decode_integer bs 5 = Ok (c, used)"
    "dt_apply_size_update c (dec_dynamic d) = Ok dyn"
  shows "decode_loop bs True tot hs d = decode_loop (drop used bs) True tot hs (d\<lparr>dec_dynamic := dyn\<rparr>)"
  using assms by (subst decode_loop.simps) simp

lemma decode_loop_literal:
  assumes "bs = b # r" "\<not> bit b 7" "\<not> bit b 6" "\<not> bit b 5" "decode_literal bs 4 d = Ok (n, v, used)"
    "tot + entry_size n v \<le> dec_max_header_list_size d"
  shows "decode_loop bs allow tot hs d
    = decode_loop (drop used bs) False (tot + entry_size n v) (hs @ [(n, v)]) d"
  using assms by (subst decode_loop.simps) (simp add: check_size_def entry_size_def add.assoc)

lemma decode_loop_field:
  assumes "agree t (dec_dynamic d)" "str_ok n" "str_ok v"
    "tot + entry_size n v \<le> dec_max_header_list_size d" "encode_field n v hint t = (t', out)"
  shows "\<exists>u. agree t' u \<and> dt_max_capacity u = dt_max_capacity (dec_dynamic d) \<and>
    decode_loop (out @ rest) allow tot hs d
      = decode_loop rest False (tot + entry_size n v) (hs @ [(n, v)]) (d\<lparr>dec_dynamic := u\<rparr>)"
proof (cases "find_full n v t")
  case (Some idx)
  have out: "out = or_first 0x80 (encode_integer idx 7)" "t' = t"
    using assms(5) Some by (auto simp: encode_field_def)
  obtain b r where b: "out = b # r" "bit b 7"
    unfolding out by (rule first_byte [of 7 "0x80" idx]) auto
  have "decode_integer (out @ rest) 7 = Ok (idx, length out)"
    using tabs.full_index [OF assms(1) Some] decode_encode_integer [of idx 7 "0x80" rest] by (simp add: out)
  then have "decode_loop (out @ rest) allow tot hs d
      = decode_loop rest False (tot + entry_size n v) (hs @ [(n, v)]) d"
    using decode_loop_indexed [of "out @ rest" b _ idx "length out" d] b
      tabs.full_res [OF assms(1) Some] assms(4) by simp
  then show ?thesis
    using assms(1) by (intro exI [of _ "dec_dynamic d"]) (simp add: out)
next
  case None
  have inv: "dt_inv (dec_dynamic d)" using assms(1) by (simp add: agree_def)
  show ?thesis
  proof (cases "hint = Index")
    case True
    then have out: "out = encode_literal n v (find_name n t) 6 0x40" "t' = dt_insert n v t"
      using assms(5) None by (auto simp: encode_field_def)
    obtain b r where b: "out = b # r" "\<not> bit b 7" "bit b 6"
      unfolding out by (rule encode_literal_first [of 6 n v "find_name n t" "0x40"]) auto
    have "decode_literal (out @ rest) 6 d = Ok (n, v, length out)"
      unfolding out by (rule decode_literal_encode) (use assms in simp_all)
    then have "decode_loop (out @ rest) allow tot hs d
        = decode_loop rest False (tot + entry_size n v) (hs @ [(n, v)])
            (d\<lparr>dec_dynamic := dt_insert n v (dec_dynamic d)\<rparr>)"
      using assms(4) b decode_loop_incremental [of "out @ rest" b _ d n v "length out"] by simp
    then show ?thesis
      using tabs.agrees_ins [OF assms(1)] inv
      by (intro exI [of _ "dt_insert n v (dec_dynamic d)"]) (simp add: out)
  next
    case False
    define flag :: u8 where "flag = (if hint = NeverIndex then 0x10 else 0)"
    have flag: "flag = 0 \<or> flag = 0x10" by (simp add: flag_def)
    have out: "out = encode_literal n v (find_name n t) 4 flag" "t' = t"
      using False assms(5) None by (cases hint; simp add: encode_field_def flag_def)+
    obtain b r where b: "out = b # r" "\<not> bit b 7" "\<not> bit b 6" "\<not> bit b 5"
      unfolding out by (rule encode_literal_first [of 4 n v "find_name n t" flag]) (use flag in auto)
    have "decode_literal (out @ rest) 4 d = Ok (n, v, length out)"
      unfolding out by (rule decode_literal_encode) (use assms flag in auto)
    then have "decode_loop (out @ rest) allow tot hs d
        = decode_loop rest False (tot + entry_size n v) (hs @ [(n, v)]) d"
      using assms(4) b decode_loop_literal [of "out @ rest" b _ d n v "length out"] by simp
    then show ?thesis
      using assms(1) by (intro exI [of _ "dec_dynamic d"]) (simp add: out)
  qed
qed

lemma decode_loop_fields:
  "agree t (dec_dynamic d) \<Longrightarrow> \<forall>(h, _) \<in> set fs. str_ok (fst h) \<and> str_ok (snd h) \<Longrightarrow>
   tot + entries_size (map fst fs) \<le> dec_max_header_list_size d \<Longrightarrow> encode_fields fs t = (t', out) \<Longrightarrow>
   \<exists>u. agree t' u \<and> dt_max_capacity u = dt_max_capacity (dec_dynamic d) \<and>
     decode_loop out allow tot hs d = (d\<lparr>dec_dynamic := u\<rparr>, Ok (hs @ map fst fs))"
proof (induction fs arbitrary: t d tot hs out allow)
  case Nil
  then show ?case
    by (intro exI [of _ "dec_dynamic d"]) (simp add: decode_loop.simps)
next
  case (Cons f fs)
  obtain n v hint where f: "f = ((n, v), hint)" by (cases f) auto
  obtain t1 out1 where 1: "encode_field n v hint t = (t1, out1)" by fastforce
  obtain out2 where 2: "encode_fields fs t1 = (t', out2)" "out = out1 @ out2"
    using Cons.prems(4) by (auto simp: f 1 split: prod.splits)
  obtain u1 where u1: "agree t1 u1" "dt_max_capacity u1 = dt_max_capacity (dec_dynamic d)"
    "decode_loop (out1 @ out2) allow tot hs d
      = decode_loop out2 False (tot + entry_size n v) (hs @ [(n, v)]) (d\<lparr>dec_dynamic := u1\<rparr>)"
    using decode_loop_field [OF Cons.prems(1) _ _ _ 1, of tot out2 allow hs] Cons.prems(2,3) by (auto simp: f)
  obtain u where "agree t' u" "dt_max_capacity u = dt_max_capacity u1"
    "decode_loop out2 False (tot + entry_size n v) (hs @ [(n, v)]) (d\<lparr>dec_dynamic := u1\<rparr>)
      = (d\<lparr>dec_dynamic := u1, dec_dynamic := u\<rparr>, Ok ((hs @ [(n, v)]) @ map fst fs))"
    using Cons.IH [of t1 "d\<lparr>dec_dynamic := u1\<rparr>" "tot + entry_size n v" out2 False "hs @ [(n, v)]"]
      u1(1) Cons.prems 2(1) by (auto simp: f add.assoc)
  then show ?case using u1 2(2) by (auto simp: f)
qed

section \<open>The two ends of a connection\<close>

text \<open>Where the decoder's table goes before the next header field: through the announced size update.\<close>

definition in_sync :: "HpackEncoder \<Rightarrow> HpackDecoder \<Rightarrow> bool" where
  "in_sync e d \<longleftrightarrow>
    dt_capacity (enc_dynamic e) \<le> dt_max_capacity (enc_dynamic e) \<and>
    dt_max_capacity (enc_dynamic e) \<le> dt_max_capacity (dec_dynamic d) \<and>
    dt_inv (dec_dynamic d) \<and>
    (case enc_pending_size_update e of
       None \<Rightarrow> agree (enc_dynamic e) (dec_dynamic d)
     | Some c \<Rightarrow> c \<le> dt_max_capacity (enc_dynamic e) \<and> agree (enc_dynamic e) (dt_resize c (dec_dynamic d)))"

definition headers_ok :: "(string \<times> string) list \<Rightarrow> bool" where
  "headers_ok hs \<longleftrightarrow> (\<forall>(n, v) \<in> set hs. str_ok n \<and> str_ok v)"

text \<open>
  The histories of one direction of a connection: an encoder and the decoder of its peer, their
  settings changed at any time, and blocks decoded in the order in which they were encoded. The
  decoder's ceiling must not go below what the encoder was told at its creation.
\<close>

inductive session :: "HpackEncoder \<Rightarrow> HpackDecoder \<Rightarrow> bool" where
  start: "N \<le> M \<Longrightarrow> M \<le> usize_max \<Longrightarrow> session (encoder_new N) (decoder_new M)"
| table_size: "session e d \<Longrightarrow> session (set_table_size n e) d"
| policy: "session e d \<Longrightarrow> session (set_sensitivity_predicate pred e) d"
| ceiling: "session e d \<Longrightarrow> dt_max_capacity (enc_dynamic e) \<le> m \<Longrightarrow> m \<le> usize_max \<Longrightarrow>
    session e (set_max_table_size m d)"
| budget: "session e d \<Longrightarrow> session e (set_max_header_list_size lim d)"
| block: "session e d \<Longrightarrow> headers_ok hs \<Longrightarrow> entries_size hs \<le> dec_max_header_list_size d \<Longrightarrow>
    encode_with_hints hs hints e = Some (e', block) \<Longrightarrow> decode block d = (d', r) \<Longrightarrow> session e' d'"

lemma encode_field_table:
  "dt_inv t \<Longrightarrow> encode_field n v hint t = (t', out) \<Longrightarrow>
   dt_inv t' \<and> dt_max_capacity t' = dt_max_capacity t \<and> dt_capacity t' = dt_capacity t"
  by (cases hint; cases "find_full n v t") (auto simp: encode_field_def)

lemma encode_fields_Cons:
  "encode_fields (((n, v), hint) # fs) t = (t', out) \<longleftrightarrow>
   (\<exists>t1 o1 o2. encode_field n v hint t = (t1, o1) \<and> encode_fields fs t1 = (t', o2) \<and> out = o1 @ o2)"
  by (simp split: prod.split) auto

lemma encode_fields_table:
  "dt_inv t \<Longrightarrow> encode_fields fs t = (t', out) \<Longrightarrow>
   dt_inv t' \<and> dt_max_capacity t' = dt_max_capacity t \<and> dt_capacity t' = dt_capacity t"
proof (induction fs arbitrary: t out)
  case (Cons f fs)
  obtain n v hint where f: "f = ((n, v), hint)" by (metis surj_pair)
  obtain t1 o1 o2 where "encode_field n v hint t = (t1, o1)" "encode_fields fs t1 = (t', o2)"
    using Cons.prems(2) unfolding f encode_fields_Cons by blast
  then show ?case
    using Cons.IH [of t1 o2] encode_field_table [OF Cons.prems(1)] by metis
qed simp

lemma encode_with_hints_Some:
  assumes "encode_with_hints hs hints e = Some (e', block)"
  shows "\<exists>out. length hs = length hints \<and> encode_fields (zip hs hints) (enc_dynamic e) = (enc_dynamic e', out) \<and>
    e' = e\<lparr>enc_dynamic := enc_dynamic e', enc_pending_size_update := None\<rparr> \<and>
    block = (case enc_pending_size_update e of
      Some new_size \<Rightarrow> or_first 0x20 (encode_integer new_size 5) | None \<Rightarrow> []) @ out"
  using assms by (cases "encode_fields (zip hs hints) (enc_dynamic e)")
    (auto simp: encode_with_hints_def Let_def split: if_splits)

lemma encode_with_hints_None:
  "encode_with_hints hs hints e = None \<longleftrightarrow> length hs \<noteq> length hints"
  by (simp add: encode_with_hints_def Let_def split: prod.split)

lemma decode_encode_with_hints:
  assumes sync: "in_sync e d" and ok: "headers_ok hs" and lim: "entries_size hs \<le> dec_max_header_list_size d"
    and enc: "encode_with_hints hs hints e = Some (e', block)"
  shows "\<exists>d'. decode block d = (d', Ok hs) \<and> in_sync e' d'"
proof -
  let ?t = "enc_dynamic e" and ?u = "dec_dynamic d"
  have len: "length hs = length hints" using enc by (auto simp: encode_with_hints_def split: if_splits)
  obtain t out where out: "encode_fields (zip hs hints) ?t = (t, out)" by fastforce
  have fst: "map fst (zip hs hints) = hs" using len by simp
  have zok: "\<forall>(h, _) \<in> set (zip hs hints). str_ok (fst h) \<and> str_ok (snd h)"
    using ok by (auto simp: headers_ok_def dest!: set_zip_leftD)
  have bounds: "dt_capacity ?t \<le> dt_max_capacity ?t" "dt_max_capacity ?t \<le> dt_max_capacity ?u"
    and uinv: "dt_inv ?u" using sync by (auto simp: in_sync_def)
  have fin: "\<exists>d'. decode_loop out True 0 [] (d\<lparr>dec_dynamic := u0\<rparr>) = (d', Ok hs) \<and>
      in_sync (e\<lparr>enc_dynamic := t, enc_pending_size_update := None\<rparr>) d'"
    if a: "agree ?t u0" and m: "dt_max_capacity u0 = dt_max_capacity ?u" for u0
  proof -
    obtain u where u: "agree t u" "dt_max_capacity u = dt_max_capacity u0"
      "decode_loop out True 0 [] (d\<lparr>dec_dynamic := u0\<rparr>) = (d\<lparr>dec_dynamic := u0, dec_dynamic := u\<rparr>, Ok hs)"
      using decode_loop_fields [of ?t "d\<lparr>dec_dynamic := u0\<rparr>" "zip hs hints" 0 t out True "[]"] a zok lim out
      by (auto simp: fst)
    have "dt_inv ?t" using a by (simp add: agree_def)
    with encode_fields_table [OF this out] u bounds m show ?thesis
      by (auto simp: in_sync_def agree_def)
  qed
  show ?thesis
  proof (cases "enc_pending_size_update e")
    case None
    then have "block = out" "e' = e\<lparr>enc_dynamic := t, enc_pending_size_update := None\<rparr>"
      using enc len out by (auto simp: encode_with_hints_def)
    moreover have "agree ?t ?u" using sync None by (simp add: in_sync_def)
    ultimately show ?thesis using fin [of ?u] by (simp add: decode_def)
  next
    case (Some c)
    then have blk: "block = or_first 0x20 (encode_integer c 5) @ out"
      and e': "e' = e\<lparr>enc_dynamic := t, enc_pending_size_update := None\<rparr>"
      using enc len out by (auto simp: encode_with_hints_def)
    have a: "agree ?t (dt_resize c ?u)" and c: "c \<le> dt_max_capacity ?u"
      using sync Some bounds by (auto simp: in_sync_def)
    have "c \<le> usize_max" using a uinv by (auto simp: agree_def dt_inv_def [of "dt_resize c ?u"])
    then have dec: "decode_integer block 5 = Ok (c, length (encode_integer c 5))"
      unfolding blk by (intro decode_encode_integer) auto
    obtain b r where b: "or_first 0x20 (encode_integer c 5) = b # r" "\<not> bit b 7" "\<not> bit b 6" "bit b 5"
      by (rule first_byte [of 5 "0x20" c]) auto
    have "decode block d = decode_loop (drop (length (encode_integer c 5)) block) True 0 []
        (d\<lparr>dec_dynamic := dt_resize c ?u\<rparr>)"
      unfolding decode_def
      by (rule decode_loop_update) (use b blk dec c in \<open>simp_all add: dt_apply_size_update_Ok\<close>)
    also have "drop (length (encode_integer c 5)) block = out" by (simp add: blk)
    finally show ?thesis using fin [OF a] uinv by (simp add: e')
  qed
qed

lemma agree_resize:
  assumes "dt_inv t" "dt_inv u" "\<exists>old. dt_entries u = dt_entries t @ old" "c \<le> usize_max"
  shows "agree (dt_resize c t) (dt_resize c u)"
  using assms keep_append [of c c "dt_entries t"] by (auto simp: agree_def dt_resize_entries)

lemma in_sync_entries:
  assumes "in_sync e d"
  shows "dt_inv (enc_dynamic e)" "dt_inv (dec_dynamic d)"
    "\<exists>old. dt_entries (dec_dynamic d) = dt_entries (enc_dynamic e) @ old"
proof -
  show "dt_inv (enc_dynamic e)" "dt_inv (dec_dynamic d)"
    using assms by (auto simp: in_sync_def agree_def split: option.splits)
  show "\<exists>old. dt_entries (dec_dynamic d) = dt_entries (enc_dynamic e) @ old"
  proof (cases "enc_pending_size_update e")
    case None
    then show ?thesis using assms by (auto simp: in_sync_def agree_def)
  next
    case (Some c)
    obtain k where k: "keep c (dt_entries (dec_dynamic d)) = take k (dt_entries (dec_dynamic d))"
      using keep_prefix by blast
    obtain old where "keep c (dt_entries (dec_dynamic d)) = dt_entries (enc_dynamic e) @ old"
      using assms Some by (auto simp: in_sync_def agree_def dt_resize_entries)
    then show ?thesis by (metis append_assoc append_take_drop_id k)
  qed
qed

lemma in_sync_new: "N \<le> M \<Longrightarrow> M \<le> usize_max \<Longrightarrow> in_sync (encoder_new N) (decoder_new M)"
  by (simp add: in_sync_def encoder_new_def decoder_new_def agree_def) (simp add: dt_new_def)

lemma in_sync_set_table_size:
  assumes "in_sync e d"
  shows "in_sync (set_table_size n e) d"
proof -
  let ?c = "min n (dt_max_capacity (enc_dynamic e))"
  note inv = in_sync_entries [OF assms]
  have "?c \<le> usize_max" using inv(1) by (auto simp: dt_inv_def)
  then have "agree (dt_resize ?c (enc_dynamic e)) (dt_resize ?c (dec_dynamic d))"
    by (intro agree_resize inv)
  then show ?thesis
    using assms inv by (auto simp: in_sync_def set_table_size_def Let_def)
qed

lemma in_sync_ceiling:
  assumes "in_sync e d" "dt_max_capacity (enc_dynamic e) \<le> m" "m \<le> usize_max"
  shows "in_sync e (set_max_table_size m d)"
proof -
  let ?t = "enc_dynamic e" and ?u = "dec_dynamic d" and ?u' = "dt_set_max_capacity m (dec_dynamic d)"
  note inv = in_sync_entries [OF assms(1)]
  have caps: "dt_capacity ?t \<le> m" "entries_size (dt_entries ?t) \<le> m"
    using assms inv(1) by (auto simp: in_sync_def dt_inv_def)
  have mx: "dt_inv (?u\<lparr>dt_max_capacity := m\<rparr>)" using inv(2) assms(3) by (simp add: dt_inv_def)
  obtain old where old: "dt_entries ?u = dt_entries ?t @ old" using inv(3) by blast
  have ext: "\<exists>old. dt_entries ?u' = dt_entries ?t @ old"
    using old keep_append [of m m "dt_entries ?t" old] keep_all [OF caps(2)] mx
    by (auto simp: dt_set_max_capacity_def Let_def dt_resize_entries)
  have "dt_max_capacity ?u' = m" and cap: "dt_capacity ?u' = min m (dt_capacity ?u)"
    using mx by (auto simp: dt_set_max_capacity_def Let_def)
  moreover have "agree ?t ?u'" if "enc_pending_size_update e = None"
    using that assms inv ext cap caps by (auto simp: in_sync_def agree_def)
  moreover have "agree ?t (dt_resize c ?u')" if "enc_pending_size_update e = Some c" for c
  proof -
    have a: "agree ?t (dt_resize c ?u)" and c: "c \<le> dt_max_capacity ?t"
      using that assms(1) by (auto simp: in_sync_def)
    have fits: "entries_size (dt_entries ?t) \<le> c" "dt_capacity ?t \<le> c"
      using a inv by (auto simp: agree_def dt_inv_def [of ?t])
    obtain old' where "dt_entries ?u' = dt_entries ?t @ old'" using ext by blast
    then show ?thesis
      using keep_append [of c c "dt_entries ?t" old'] keep_all [OF fits(1)] inv assms fits(2) c
      by (auto simp: agree_def dt_resize_entries)
  qed
  ultimately show ?thesis
    using assms inv by (auto simp: in_sync_def set_max_table_size_def split: option.splits)
qed

lemma session_in_sync: "session e d \<Longrightarrow> in_sync e d"
proof (induction rule: session.induct)
  case (policy e d pred)
  then show ?case by (simp add: in_sync_def set_sensitivity_predicate_def split: option.splits)
next
  case (budget e d lim)
  then show ?case by (simp add: in_sync_def set_max_header_list_size_def split: option.splits)
next
  case (block e d hs hints e' block d' r)
  from decode_encode_with_hints [OF block.IH block.hyps(2,3,4)] block.hyps(5)
  show ?case by auto
qed (auto intro: in_sync_new in_sync_set_table_size in_sync_ceiling)

section \<open>Hostile blocks\<close>

text \<open>What holds of a decoder whatever its peer sends.\<close>

definition decoder_inv :: "HpackDecoder \<Rightarrow> bool" where
  "decoder_inv d \<longleftrightarrow> dt_inv (dec_dynamic d) \<and>
    dt_capacity (dec_dynamic d) \<le> dt_max_capacity (dec_dynamic d)"

lemma decoder_inv_insert [simp]:
  "decoder_inv d \<Longrightarrow> decoder_inv (d\<lparr>dec_dynamic := dt_insert n v (dec_dynamic d)\<rparr>)"
  by (simp add: decoder_inv_def)

lemma decoder_inv_update:
  "decoder_inv d \<Longrightarrow> dt_apply_size_update c (dec_dynamic d) = Ok t \<Longrightarrow>
   decoder_inv (d\<lparr>dec_dynamic := t\<rparr>) \<and> dt_max_capacity t = dt_max_capacity (dec_dynamic d)"
  by (auto simp: decoder_inv_def dt_apply_size_update_Ok dt_inv_def [of "dec_dynamic d"]
      intro!: dt_resize_inv)

definition decoder_frame :: "HpackDecoder \<Rightarrow> HpackDecoder \<Rightarrow> bool" where
  "decoder_frame d d' \<longleftrightarrow> decoder_inv d' \<and>
    dt_max_capacity (dec_dynamic d') = dt_max_capacity (dec_dynamic d) \<and>
    dec_max_header_list_size d' = dec_max_header_list_size d"

lemma decode_loop_safe:
  "decoder_inv d \<Longrightarrow> entries_size hs = tot \<Longrightarrow> tot \<le> dec_max_header_list_size d \<Longrightarrow>
   decode_loop bs allow tot hs d = (d', r) \<Longrightarrow>
   decoder_frame d d' \<and> (\<forall>hs'. r = Ok hs' \<longrightarrow> entries_size hs' \<le> dec_max_header_list_size d)"
proof (induction bs arbitrary: allow tot hs d d' r rule: length_induct)
  case (1 bs)
  note IH = 1(1) [rule_format] and prems = 1(2-5)
  define Q where "Q \<longleftrightarrow> decoder_frame d d' \<and> (\<forall>hs'. r = Ok hs' \<longrightarrow> entries_size hs' \<le> dec_max_header_list_size d)"
  have refl: "decoder_frame d d" using prems(1) by (simp add: decoder_frame_def)
  have refl': "decoder_frame d (d\<lparr>dec_dynamic := dt_insert n v (dec_dynamic d)\<rparr>)" for n v
    using prems(1) decoder_inv_insert [OF prems(1)] by (simp add: decoder_frame_def decoder_inv_def)
  have frame: "decoder_frame d d''" if "decoder_frame d1 d''" "decoder_frame d d1" for d1 d''
    using that by (simp add: decoder_frame_def)
  have step: Q
    if "bs \<noteq> []" "0 < used" "decode_loop (drop used bs) al (entries_size hs1) hs1 d1 = (d', r)" "decoder_frame d d1"
      "entries_size hs1 \<le> dec_max_header_list_size d" for used al hs1 d1
    using IH [of "drop used bs" d1 hs1 "entries_size hs1" al d' r] that frame [of d1 d']
    by (auto simp: decoder_frame_def Q_def)
  have Q
  proof (cases bs)
    case Nil
    then show ?thesis using prems refl by (auto simp: decode_loop.simps Q_def)
  next
    case (Cons b rest)
    have ne: "bs \<noteq> []" using Cons by simp
    note eq = prems(4) [unfolded Cons, unfolded decode_loop.simps [of "b # rest"] list.case]
    note un = decode_integer_used [of "b # rest" 7, simplified] decode_integer_used [of "b # rest" 5, simplified]
      decode_literal_used [of "b # rest" 6, simplified] decode_literal_used [of "b # rest" 4, simplified]
    have fail: Q if "decoder_frame d d'" "r = Err x" for x
      using that by (simp add: Q_def)
    have field: Q
      if "decode_loop (drop used (b # rest)) False (tot + length n + length v + ENTRY_OVERHEAD) (hs @ [(n, v)]) d1 = (d', r)"
        "0 < used" "decoder_frame d d1" "\<not> dec_max_header_list_size d < tot + length n + length v + ENTRY_OVERHEAD"
      for used n v d1
      using step [of used False "hs @ [(n, v)]" d1] that Cons prems(2) by (simp add: entry_size_def add.assoc)
    have update: Q
      if "decode_loop (drop used (b # rest)) al tot hs (d\<lparr>dec_dynamic := t\<rparr>) = (d', r)"
        "0 < used" "dt_apply_size_update c (dec_dynamic d) = Ok t" for used al t c
      using step [of used al hs "d\<lparr>dec_dynamic := t\<rparr>"] that Cons prems(2,3) decoder_inv_update [OF prems(1) that(3)]
      by (simp add: decoder_frame_def)
    note splits = sum.splits prod.splits if_splits
    consider "bit b 7" | "\<not> bit b 7" "bit b 6" | "\<not> bit b 7" "\<not> bit b 6" "bit b 5"
      | "\<not> bit b 7" "\<not> bit b 6" "\<not> bit b 5" by blast
    then show ?thesis
    proof cases
      case 1
      then show ?thesis
        using eq un(1) refl by (auto simp:  check_size_def Let_def split: splits dest!: field intro: fail)
    next
      case 2
      then show ?thesis
        using eq un(3) refl refl' by (auto simp: check_size_def Let_def split: splits dest!: field intro: fail)
    next
      case 3
      then show ?thesis
        using eq un(2) refl by (auto simp: Let_def split: splits dest!: update intro: fail)
    next
      case 4
      then show ?thesis
        using eq un(4) refl by (auto simp: check_size_def Let_def split: splits dest!: field intro: fail)
    qed
  qed
  then show ?case by (simp add: Q_def)
qed

section \<open>Sensitive fields stay out of the table\<close>

lemma keep_subset: "set (keep room es) \<subseteq> set es"
  using keep_prefix [of room es] set_take_subset by (metis)

lemma encode_field_table_set:
  assumes "dt_inv t" "encode_field n v hint t = (t', out)"
  shows "set (dt_entries t') \<subseteq> set (dt_entries t) \<union> (if hint = Index then {(n, v)} else {})"
  using assms keep_subset [of "dt_capacity t" "(n, v) # dt_entries t"]
  by (cases hint; cases "find_full n v t") (auto simp: encode_field_def dt_insert_entries simp del: keep.simps)

lemma encode_fields_table_set:
  "dt_inv t \<Longrightarrow> encode_fields fs t = (t', out) \<Longrightarrow>
   set (dt_entries t') \<subseteq> set (dt_entries t) \<union> {h. (h, Index) \<in> set fs}"
proof (induction fs arbitrary: t out)
  case (Cons f fs)
  obtain n v hint where f: "f = ((n, v), hint)" by (metis surj_pair)
  obtain t1 o1 o2 where 1: "encode_field n v hint t = (t1, o1)" "encode_fields fs t1 = (t', o2)"
    using Cons.prems(2) unfolding f encode_fields_Cons by blast
  have "dt_inv t1" using encode_field_table [OF Cons.prems(1) 1(1)] by simp
  from Cons.IH [OF this 1(2)] encode_field_table_set [OF Cons.prems(1) 1(1)]
  show ?case by (auto simp: f split: if_splits)
qed simp

lemma zip_map_self: "zip xs (map f xs) = map (\<lambda>x. (x, f x)) xs"
  by (induction xs) simp_all

lemma encode_table_set:
  assumes "dt_inv (enc_dynamic e)" "encode hs e = Some (e', block)"
  shows "set (dt_entries (enc_dynamic e')) \<subseteq>
    set (dt_entries (enc_dynamic e)) \<union> {(n, v). (n, v) \<in> set hs \<and> \<not> enc_sensitive e n v}"
proof -
  let ?f = "\<lambda>(n, v). if enc_sensitive e n v then NeverIndex else Index"
  obtain out where "encode_fields (zip hs (map ?f hs)) (enc_dynamic e) = (enc_dynamic e', out)"
    using encode_with_hints_Some [OF assms(2) [unfolded encode_def]] by blast
  from encode_fields_table_set [OF assms(1) this]
  have sub: "set (dt_entries (enc_dynamic e')) \<subseteq>
      set (dt_entries (enc_dynamic e)) \<union> {h. (h, Index) \<in> set (map (\<lambda>h. (h, ?f h)) hs)}"
    by (simp add: zip_map_self)
  have "{h. (h, Index) \<in> set (map (\<lambda>h. (h, ?f h)) hs)} \<subseteq> {(n, v). (n, v) \<in> set hs \<and> \<not> enc_sensitive e n v}"
    by (auto split: if_splits)
  with sub show ?thesis by blast
qed

section \<open>Properties\<close>

text \<open>
  C2. Every header list a connection encodes arrives intact. After any history of blocks, table size
  changes, sensitivity policies and decoder settings, a header list of UTF-8 strings within the
  peer's header list budget, encoded with any hints, decodes to the same list, in the same order.
\<close>

theorem decode_encode:
  assumes "session e d" "headers_ok hs" "entries_size hs \<le> dec_max_header_list_size d"
    "encode_with_hints hs hints e = Some (e', block)"
  shows "snd (decode block d) = Ok hs"
  using decode_encode_with_hints [OF session_in_sync [OF assms(1)] assms(2-4)] by auto

theorem decode_encode_witness:
  "snd (decode (snd (the (encode_with_hints [('':method'', ''GET''), (''a'', ''b'')] [Index, NeverIndex]
     (encoder_new 4096)))) (decoder_new 4096)) = Ok [('':method'', ''GET''), (''a'', ''b'')]"
proof -
  define e hs where e_def: "e = encoder_new 4096" and hs_def: "hs = [('':method'', ''GET''), (''a'', ''b'')]"
  obtain e' block where "encode_with_hints hs [Index, NeverIndex] e = Some (e', block)"
    using encode_with_hints_None [of hs "[Index, NeverIndex]" e]
    by (cases "encode_with_hints hs [Index, NeverIndex] e") (auto simp: hs_def)
  moreover have "session e (decoder_new 4096)"
    unfolding e_def by (rule session.start) (simp_all add: usize_max_def)
  moreover have "headers_ok hs"
    by (simp add: hs_def headers_ok_def str_ok_def valid_str_def as_bytes_def byte_of_def)
  ultimately show ?thesis
    using decode_encode [of e "decoder_new 4096" hs "[Index, NeverIndex]"]
    by (simp add: hs_def e_def decoder_new_def entry_size_def ENTRY_OVERHEAD_def)
qed

text \<open>
  C3. A hostile block cannot grow the decoder. Whatever the bytes, decoding terminates, and leaves,
  with an error or not, a table whose accounted size is exact and within its capacity, whose
  capacity is within the negotiated ceiling, and neither ceiling nor budget changed; a header list
  it returns is within the budget.
\<close>

theorem decode_safe:
  assumes "decoder_inv d" "decode block d = (d', r)"
  shows "decoder_inv d' \<and> dt_max_capacity (dec_dynamic d') = dt_max_capacity (dec_dynamic d)
    \<and> dec_max_header_list_size d' = dec_max_header_list_size d
    \<and> (\<forall>hs. r = Ok hs \<longrightarrow> entries_size hs \<le> dec_max_header_list_size d)"
  using decode_loop_safe [of d "[]" 0 block True d' r] assms
  by (simp add: decode_def decoder_frame_def)

theorem decode_safe_witness:
  "decoder_inv (fst (decode [0x41, 0x81] (decoder_new 64)))"
  using decode_safe [of "decoder_new 64" "[0x41, 0x81]"]
  by (cases "decode [0x41, 0x81] (decoder_new 64)")
    (simp add: decoder_inv_def decoder_new_def usize_max_def, simp add: dt_new_def)

text \<open>
  Credentials are never put into the compression table: \<open>encode\<close> adds only fields that the
  sensitivity policy does not flag, whatever the table held.
\<close>

lemma encode_keeps_sensitive_out:
  assumes "dt_inv (enc_dynamic e)" "encode hs e = Some (e', block)" "(n, v) \<in> set (dt_entries (enc_dynamic e'))"
    "(n, v) \<notin> set (dt_entries (enc_dynamic e))"
  shows "(n, v) \<in> set hs \<and> \<not> enc_sensitive e n v"
  using encode_table_set [OF assms(1,2)] assms(3,4) by auto

lemma encode_keeps_sensitive_out_witness:
  "(''a'', ''b'') \<in> set [(''a'', ''b''), (''cookie'', ''c'')] \<and> \<not> default_sensitive ''a'' ''b''"
proof -
  let ?e = "encoder_new 4096" and ?hs = "[(''a'', ''b''), (''cookie'', ''c'')]"
  obtain e' block where enc: "encode ?hs ?e = Some (e', block)"
    using encode_with_hints_None [of ?hs "[Index, NeverIndex]" ?e]
    by (cases "encode ?hs ?e") (auto simp: encode_def encoder_new_def default_sensitive_def)
  then have enc': "encode_with_hints ?hs [Index, NeverIndex] ?e = Some (e', block)"
    by (simp add: encode_def encoder_new_def default_sensitive_def)
  have new: "find_full ''a'' ''b'' (dt_new c) = None" "find_full ''cookie'' ''c'' t = None \<or> t \<noteq> dt_insert ''a'' ''b'' (dt_new 4096)" for c t
    by (auto simp: find_full_def STATIC_TABLE_def dt_new_def dt_insert_def entry_size_def
        ENTRY_OVERHEAD_def evict_to_fit.simps Let_def)
  obtain out where out: "encode_fields (zip ?hs [Index, NeverIndex]) (dt_new 4096) = (enc_dynamic e', out)"
    using encode_with_hints_Some [OF enc'] by (auto simp: encoder_new_def)
  have "enc_dynamic e' = dt_insert ''a'' ''b'' (dt_new 4096)"
    using out new(1) new(2) [of "dt_insert ''a'' ''b'' (dt_new 4096)"] by (simp add: encode_field_def Let_def)
  then have "(''a'', ''b'') \<in> set (dt_entries (enc_dynamic e'))"
    by (simp add: dt_insert_def dt_new_def entry_size_def ENTRY_OVERHEAD_def evict_to_fit.simps)
  then have "(''a'', ''b'') \<in> set ?hs \<and> \<not> enc_sensitive ?e ''a'' ''b''"
    using enc by (intro encode_keeps_sensitive_out [of ?e ?hs e' block])
      (simp_all add: encoder_new_def dt_new_inv usize_max_def, simp add: dt_new_def)
  then show ?thesis by (simp add: encoder_new_def)
qed

end
