(* ===== verification/Wire.thy ===== *)
theory Wire
  imports Prelude
begin

text \<open>
  Network byte order (\<open>to_be_bytes\<close> and \<open>from_be_bytes\<close> of the standard library), decimal output
  of integers (\<open>to_string\<close>), the workspace's error type
  (\<open>crates/tomcatrs-core/src/error.rs\<close>), and the contract of incremental parsers.
\<close>

section \<open>The error type of the workspace\<close>

text \<open>The message of an \<open>Io\<close> error stands for the operating system's error value.\<close>

datatype Error =
    Io string
  | Config string
  | Lifecycle string
  | Protocol string
  | Bridge string
  | Deployment string
  | NotFound string
  | Rejected string
  | Other string

section \<open>Decimal numbers\<close>

definition digit_char :: "nat \<Rightarrow> char" where
  "digit_char d = char_of (48 + d)"

fun dec_str :: "nat \<Rightarrow> string" where
  "dec_str n = (if n < 10 then [digit_char n] else dec_str (n div 10) @ [digit_char (n mod 10)])"

declare dec_str.simps [simp del]

section \<open>Big-endian integers\<close>

definition be16 :: "u16 \<Rightarrow> bytes" where
  "be16 w = [ucast (drop_bit 8 w), ucast w]"

definition be32 :: "u32 \<Rightarrow> bytes" where
  "be32 w = [ucast (drop_bit 24 w), ucast (drop_bit 16 w), ucast (drop_bit 8 w), ucast w]"

definition be64 :: "u64 \<Rightarrow> bytes" where
  "be64 w = [ucast (drop_bit 56 w), ucast (drop_bit 48 w), ucast (drop_bit 40 w), ucast (drop_bit 32 w),
    ucast (drop_bit 24 w), ucast (drop_bit 16 w), ucast (drop_bit 8 w), ucast w]"

definition from_be16 :: "u8 \<Rightarrow> u8 \<Rightarrow> u16" where
  "from_be16 a b = push_bit 8 (ucast a) OR ucast b"

definition from_be32 :: "u8 \<Rightarrow> u8 \<Rightarrow> u8 \<Rightarrow> u8 \<Rightarrow> u32" where
  "from_be32 a b c d = push_bit 24 (ucast a) OR push_bit 16 (ucast b) OR push_bit 8 (ucast c) OR ucast d"

definition from_be64 :: "u8 \<Rightarrow> u8 \<Rightarrow> u8 \<Rightarrow> u8 \<Rightarrow> u8 \<Rightarrow> u8 \<Rightarrow> u8 \<Rightarrow> u8 \<Rightarrow> u64" where
  "from_be64 a b c d e f g h =
    push_bit 56 (ucast a) OR push_bit 48 (ucast b) OR push_bit 40 (ucast c) OR push_bit 32 (ucast d) OR
    push_bit 24 (ucast e) OR push_bit 16 (ucast f) OR push_bit 8 (ucast g) OR ucast h"

lemma length_be [simp]: "length (be16 w) = 2" "length (be32 v) = 4" "length (be64 u) = 8"
  by (simp_all add: be16_def be32_def be64_def)

lemma from_be16_be16 [simp]: "from_be16 (ucast (drop_bit 8 w)) (ucast w) = w"
  by (rule bit_word_eqI) (auto simp: from_be16_def bit_simps)

lemma from_be32_be32 [simp]:
  "from_be32 (ucast (drop_bit 24 w)) (ucast (drop_bit 16 w)) (ucast (drop_bit 8 w)) (ucast w) = w"
proof (rule bit_word_eqI)
  fix n :: nat
  assume "n < LENGTH(32)"
  then consider "n < 8" | "8 \<le> n" "n < 16" | "16 \<le> n" "n < 24" | "24 \<le> n" "n < 32" by fastforce
  then show "bit (from_be32 (ucast (drop_bit 24 w)) (ucast (drop_bit 16 w)) (ucast (drop_bit 8 w)) (ucast w)) n
      = bit w n"
    by cases (auto simp: from_be32_def bit_simps)
qed

lemma from_be64_be64 [simp]:
  "from_be64 (ucast (drop_bit 56 w)) (ucast (drop_bit 48 w)) (ucast (drop_bit 40 w)) (ucast (drop_bit 32 w))
    (ucast (drop_bit 24 w)) (ucast (drop_bit 16 w)) (ucast (drop_bit 8 w)) (ucast w) = w"
proof (rule bit_word_eqI)
  fix n :: nat
  assume "n < LENGTH(64)"
  then consider "n < 8" | "8 \<le> n" "n < 16" | "16 \<le> n" "n < 24" | "24 \<le> n" "n < 32"
    | "32 \<le> n" "n < 40" | "40 \<le> n" "n < 48" | "48 \<le> n" "n < 56" | "56 \<le> n" "n < 64" by fastforce
  then show "bit (from_be64 (ucast (drop_bit 56 w)) (ucast (drop_bit 48 w)) (ucast (drop_bit 40 w)) (ucast (drop_bit 32 w))
    (ucast (drop_bit 24 w)) (ucast (drop_bit 16 w)) (ucast (drop_bit 8 w)) (ucast w)) n = bit w n"
    by cases (auto simp: from_be64_def bit_simps)
qed

lemma no_high_bit: "8 \<le> k \<Longrightarrow> \<not> bit (b :: u8) k"
  using bit_imp_le_length [of b k] by auto

lemma be_from_be16 [simp]: "be16 (from_be16 a b) = [a, b]"
  by (auto simp: be16_def from_be16_def bit_simps no_high_bit intro!: bit_word_eqI)

lemma be_from_be32 [simp]: "be32 (from_be32 a b c d) = [a, b, c, d]"
  by (auto simp: be32_def from_be32_def bit_simps no_high_bit intro!: bit_word_eqI)

section \<open>Incremental parsers\<close>

text \<open>
  A parser over a growing buffer: it fails, wants more bytes (\<open>Ok None\<close>), or returns a value with
  the number of bytes consumed. \<open>drain\<close> is the loop of a driver that takes value after value from
  its buffer; it returns the values, what is left in the buffer and the error that stopped it. Every
  round consumes a byte, so one more round than the buffer has bytes is enough.
\<close>

fun drain_rounds :: "nat \<Rightarrow> (bytes \<Rightarrow> 'e + ('a \<times> nat) option) \<Rightarrow> bytes \<Rightarrow> 'a list \<times> bytes \<times> 'e option" where
  "drain_rounds 0 parse buf = ([], buf, None)"
| "drain_rounds (Suc n) parse buf =
    (case parse buf of
       Inl e \<Rightarrow> ([], buf, Some e)
     | Inr None \<Rightarrow> ([], buf, None)
     | Inr (Some (x, used)) \<Rightarrow>
         (case drain_rounds n parse (drop used buf) of (xs, rest, err) \<Rightarrow> (x # xs, rest, err)))"

definition drain :: "(bytes \<Rightarrow> 'e + ('a \<times> nat) option) \<Rightarrow> bytes \<Rightarrow> 'a list \<times> bytes \<times> 'e option" where
  "drain parse buf = drain_rounds (Suc (length buf)) parse buf"

locale incremental_parser =
  fixes parse :: "bytes \<Rightarrow> 'e + ('a \<times> nat) option"
  assumes used: "parse buf = Ok (Some (x, n)) \<Longrightarrow> 0 < n \<and> n \<le> length buf"
    and more_value: "parse buf = Ok (Some (x, n)) \<Longrightarrow> parse (buf @ more) = Ok (Some (x, n))"
    and more_error: "parse buf = Err e \<Longrightarrow> parse (buf @ more) = Err e"
begin

lemma rounds_enough:
  "length buf < n \<Longrightarrow> length buf < m \<Longrightarrow> drain_rounds n parse buf = drain_rounds m parse buf"
proof (induction n arbitrary: m buf)
  case (Suc n)
  then obtain m' where m: "m = Suc m'" by (cases m) auto
  have "drain_rounds n parse (drop used buf) = drain_rounds m' parse (drop used buf)"
    if "parse buf = Ok (Some (x, used))" for x used
    using used [OF that] Suc.prems m by (intro Suc.IH) auto
  then show ?case by (auto simp: m split: sum.split option.split prod.split)
qed simp

lemma drain_unfold:
  "drain parse buf =
    (case parse buf of
       Inl e \<Rightarrow> ([], buf, Some e)
     | Inr None \<Rightarrow> ([], buf, None)
     | Inr (Some (x, used)) \<Rightarrow>
         (case drain parse (drop used buf) of (xs, rest, err) \<Rightarrow> (x # xs, rest, err)))"
proof -
  have "drain_rounds (length buf) parse (drop n buf) = drain_rounds (Suc (length (drop n buf))) parse (drop n buf)"
    if "parse buf = Ok (Some (x, n))" for x n
    using used [OF that] by (intro rounds_enough) auto
  then show ?thesis
    unfolding drain_def [of parse buf] by (auto simp: drain_def split: sum.split option.split prod.split)
qed

text \<open>The values found, and where and how parsing stops, do not depend on how the bytes arrive.\<close>

lemma drain_append:
  "drain parse (a @ b) =
    (case drain parse a of
       (xs, rest, Some e) \<Rightarrow> (xs, rest @ b, Some e)
     | (xs, rest, None) \<Rightarrow> (case drain parse (rest @ b) of (ys, rest', err) \<Rightarrow> (xs @ ys, rest', err)))"
proof (induction a rule: length_induct)
  case (1 a)
  show ?case
  proof (cases "parse a")
    case (Inl e)
    then show ?thesis using more_error [OF Inl, of b] by (simp add: drain_unfold [of a] drain_unfold [of "a @ b"])
  next
    case (Inr r)
    show ?thesis
    proof (cases r)
      case None
      then show ?thesis using Inr by (simp add: drain_unfold [of a] split: prod.split)
    next
      case (Some p)
      obtain x n where p: "p = (x, n)" by fastforce
      have pa: "parse a = Ok (Some (x, n))" using Inr Some p by simp
      have n: "0 < n" "n \<le> length a" using used [OF pa] by auto
      then have "length (drop n a) < length a" by simp
      with 1 have IH: "drain parse (drop n a @ b) =
        (case drain parse (drop n a) of
           (xs, rest, Some e) \<Rightarrow> (xs, rest @ b, Some e)
         | (xs, rest, None) \<Rightarrow> (case drain parse (rest @ b) of (ys, rest', err) \<Rightarrow> (xs @ ys, rest', err)))"
        by blast
      show ?thesis
        using n by (simp add: drain_unfold [of a] drain_unfold [of "a @ b"] pa more_value [OF pa] IH
            split: prod.split option.split)
    qed
  qed
qed

lemma drain_no_loss:
  "drain parse buf = (xs, rest, err) \<Longrightarrow> \<exists>n \<le> length buf. rest = drop n buf"
proof (induction buf arbitrary: xs rest err rule: length_induct)
  case (1 buf)
  show ?case
  proof (cases "\<exists>x n. parse buf = Ok (Some (x, n))")
    case False
    then have "rest = buf" using 1(2)
      by (subst (asm) drain_unfold) (auto split: sum.splits option.splits)
    then show ?thesis by (intro exI [of _ 0]) simp
  next
    case True
    then obtain x n where p: "parse buf = Ok (Some (x, n))" by blast
    obtain ys where "drain parse (drop n buf) = (ys, rest, err)"
      using 1(2) by (subst (asm) drain_unfold) (auto simp: p split: prod.splits)
    moreover have "length (drop n buf) < length buf" "n \<le> length buf" using used [OF p] by auto
    ultimately obtain m where "m \<le> length (drop n buf)" "rest = drop m (drop n buf)" using 1(1) by blast
    then show ?thesis by (intro exI [of _ "n + m"]) (use \<open>n \<le> length buf\<close> in \<open>auto simp: add.commute\<close>)
  qed
qed

end

end
