(* ===== verification/Http2Frame.thy ===== *)
theory Http2Frame
  imports Wire
begin

text \<open>
  The HTTP/2 frame layer: \<open>crates/tomcatrs-coyote/src/http2.rs\<close>.
\<close>

section \<open>Constants\<close>

definition PREFACE :: bytes where
  "PREFACE = [0x50, 0x52, 0x49, 0x20, 0x2A, 0x20, 0x48, 0x54, 0x54, 0x50, 0x2F, 0x32, 0x2E, 0x30,
    0x0D, 0x0A, 0x0D, 0x0A, 0x53, 0x4D, 0x0D, 0x0A, 0x0D, 0x0A]"

definition FRAME_HEADER_LEN :: nat where
  "FRAME_HEADER_LEN = 9"

definition STREAM_ID_MASK :: u32 where
  "STREAM_ID_MASK = 0x7FFFFFFF"

definition FLAG_END_STREAM :: u8 where
  "FLAG_END_STREAM = 0x1"

definition FLAG_ACK :: u8 where
  "FLAG_ACK = 0x1"

definition FLAG_END_HEADERS :: u8 where
  "FLAG_END_HEADERS = 0x4"

definition FLAG_PADDED :: u8 where
  "FLAG_PADDED = 0x8"

definition FLAG_PRIORITY :: u8 where
  "FLAG_PRIORITY = 0x20"

lemmas flag_defs = FLAG_END_STREAM_def FLAG_ACK_def FLAG_END_HEADERS_def FLAG_PADDED_def FLAG_PRIORITY_def

section \<open>Frame headers\<close>

datatype FrameType =
    FT_Data | FT_Headers | FT_Priority | FT_RstStream | FT_Settings
  | FT_PushPromise | FT_Ping | FT_GoAway | FT_WindowUpdate | FT_Continuation

definition frame_type_from_u8 :: "u8 \<Rightarrow> FrameType option" where
  "frame_type_from_u8 v =
    (if v = 0 then Some FT_Data
     else if v = 1 then Some FT_Headers
     else if v = 2 then Some FT_Priority
     else if v = 3 then Some FT_RstStream
     else if v = 4 then Some FT_Settings
     else if v = 5 then Some FT_PushPromise
     else if v = 6 then Some FT_Ping
     else if v = 7 then Some FT_GoAway
     else if v = 8 then Some FT_WindowUpdate
     else if v = 9 then Some FT_Continuation
     else None)"

text \<open>The discriminant of a frame type, \<open>ft as u8\<close>.\<close>

fun frame_type_u8 :: "FrameType \<Rightarrow> u8" where
  "frame_type_u8 FT_Data = 0"
| "frame_type_u8 FT_Headers = 1"
| "frame_type_u8 FT_Priority = 2"
| "frame_type_u8 FT_RstStream = 3"
| "frame_type_u8 FT_Settings = 4"
| "frame_type_u8 FT_PushPromise = 5"
| "frame_type_u8 FT_Ping = 6"
| "frame_type_u8 FT_GoAway = 7"
| "frame_type_u8 FT_WindowUpdate = 8"
| "frame_type_u8 FT_Continuation = 9"

record FrameHeader =
  fh_length :: u32
  fh_frame_type :: u8
  fh_flags :: u8
  fh_stream_id :: u32

fun frame_header_parse :: "bytes \<Rightarrow> FrameHeader option" where
  "frame_header_parse (b0 # b1 # b2 # b3 # b4 # b5 # b6 # b7 # b8 # _) =
    Some \<lparr>fh_length = from_be32 0 b0 b1 b2, fh_frame_type = b3, fh_flags = b4,
          fh_stream_id = from_be32 b5 b6 b7 b8 AND STREAM_ID_MASK\<rparr>"
| "frame_header_parse _ = None"

definition frame_header_encode :: "FrameHeader \<Rightarrow> bytes" where
  "frame_header_encode h =
    tl (be32 (fh_length h)) @ [fh_frame_type h, fh_flags h] @ be32 (fh_stream_id h AND STREAM_ID_MASK)"

section \<open>Frames\<close>

record Priority =
  pr_exclusive :: bool
  pr_stream_dependency :: u32
  pr_weight :: u8

text \<open>The callers pass at least five octets.\<close>

definition priority_parse :: "bytes \<Rightarrow> Priority" where
  "priority_parse buf =
    (let raw = from_be32 (buf ! 0) (buf ! 1) (buf ! 2) (buf ! 3) in
     \<lparr>pr_exclusive = (raw AND 0x80000000 \<noteq> 0), pr_stream_dependency = raw AND STREAM_ID_MASK,
      pr_weight = buf ! 4\<rparr>)"

definition priority_encode :: "Priority \<Rightarrow> bytes" where
  "priority_encode p =
    (let dep = pr_stream_dependency p AND STREAM_ID_MASK;
         dep' = (if pr_exclusive p then dep OR 0x80000000 else dep) in
     be32 dep' @ [pr_weight p])"

datatype Frame =
    Data u32 bytes bool
  | Headers u32 bytes bool bool "Priority option"
  | PriorityFrame u32 Priority
  | RstStream u32 u32
  | Settings bool "(u16 \<times> u32) list"
  | Ping bool bytes
  | GoAway u32 u32 bytes
  | WindowUpdate u32 u32
  | Continuation u32 bytes bool

definition frame_size_error :: "string \<Rightarrow> Error" where
  "frame_size_error msg = Protocol (''FRAME_SIZE_ERROR: '' @ msg)"

definition protocol_error :: "string \<Rightarrow> Error" where
  "protocol_error msg = Protocol (''PROTOCOL_ERROR: '' @ msg)"

definition strip_padding :: "bytes \<Rightarrow> Error + bytes" where
  "strip_padding payload =
    (case payload of
       [] \<Rightarrow> Err (protocol_error ''padded frame has no Pad Length octet'')
     | p # rest \<Rightarrow>
         let pad_len = unat p in
         if length rest < pad_len then Err (protocol_error ''Pad Length exceeds the remaining frame payload'')
         else Ok (take (length rest - pad_len) rest))"

fun decode_params :: "bytes \<Rightarrow> (u16 \<times> u32) list" where
  "decode_params (a # b # c # d # e # f # rest) = (from_be16 a b, from_be32 c d e f) # decode_params rest"
| "decode_params _ = []"

definition be32_at :: "nat \<Rightarrow> bytes \<Rightarrow> u32" where
  "be32_at i p = from_be32 (p ! i) (p ! (i + 1)) (p ! (i + 2)) (p ! (i + 3))"

definition decode_payload :: "FrameType \<Rightarrow> FrameHeader \<Rightarrow> bytes \<Rightarrow> Error + Frame" where
  "decode_payload ft header payload =
    (let flags = fh_flags header; sid = fh_stream_id header;
         stripped = (if flags AND FLAG_PADDED \<noteq> 0 then strip_padding payload else Ok payload) in
     case ft of
       FT_Data \<Rightarrow>
         and_then stripped (\<lambda>content. Ok (Data sid content (flags AND FLAG_END_STREAM \<noteq> 0)))
     | FT_Headers \<Rightarrow>
         and_then stripped (\<lambda>content.
           and_then
             (if flags AND FLAG_PRIORITY \<noteq> 0 then
                (if length content < 5 then
                   Err (frame_size_error ''HEADERS with PRIORITY flag is shorter than its 5-octet priority block'')
                 else Ok (Some (priority_parse (take 5 content)), drop 5 content))
              else Ok (None, content))
             (\<lambda>(priority, block).
                Ok (Headers sid block (flags AND FLAG_END_STREAM \<noteq> 0) (flags AND FLAG_END_HEADERS \<noteq> 0) priority)))
     | FT_Priority \<Rightarrow>
         if length payload \<noteq> 5 then Err (frame_size_error ''PRIORITY frame payload must be exactly 5 octets'')
         else Ok (PriorityFrame sid (priority_parse payload))
     | FT_RstStream \<Rightarrow>
         if length payload \<noteq> 4 then Err (frame_size_error ''RST_STREAM frame payload must be exactly 4 octets'')
         else Ok (RstStream sid (be32_at 0 payload))
     | FT_Settings \<Rightarrow>
         let ack = (flags AND FLAG_ACK \<noteq> 0) in
         if ack \<and> payload \<noteq> [] then Err (frame_size_error ''SETTINGS ACK frame must carry an empty payload'')
         else if length payload mod 6 \<noteq> 0 then
           Err (frame_size_error ''SETTINGS frame payload length must be a multiple of 6'')
         else Ok (Settings ack (decode_params payload))
     | FT_PushPromise \<Rightarrow> Err (protocol_error ''PUSH_PROMISE is not supported by this endpoint'')
     | FT_Ping \<Rightarrow>
         if length payload \<noteq> 8 then Err (frame_size_error ''PING frame payload must be exactly 8 octets'')
         else Ok (Ping (flags AND FLAG_ACK \<noteq> 0) payload)
     | FT_GoAway \<Rightarrow>
         if length payload < 8 then Err (frame_size_error ''GOAWAY frame payload must be at least 8 octets'')
         else Ok (GoAway (be32_at 0 payload AND STREAM_ID_MASK) (be32_at 4 payload) (drop 8 payload))
     | FT_WindowUpdate \<Rightarrow>
         if length payload \<noteq> 4 then Err (frame_size_error ''WINDOW_UPDATE frame payload must be exactly 4 octets'')
         else
           let increment = be32_at 0 payload AND STREAM_ID_MASK in
           if increment = 0 then Err (protocol_error ''WINDOW_UPDATE increment must be non-zero'')
           else Ok (WindowUpdate sid increment)
     | FT_Continuation \<Rightarrow> Ok (Continuation sid payload (flags AND FLAG_END_HEADERS \<noteq> 0)))"

function frame_parse_from :: "nat \<Rightarrow> bytes \<Rightarrow> u32 \<Rightarrow> Error + (Frame \<times> nat) option" where
  "frame_parse_from offset buf max_frame_size =
    (case frame_header_parse (drop offset buf) of
       None \<Rightarrow> Ok None
     | Some header \<Rightarrow>
         if max_frame_size < fh_length header then
           Err (frame_size_error (''frame length '' @ dec_str (unat (fh_length header))
             @ '' exceeds SETTINGS_MAX_FRAME_SIZE '' @ dec_str (unat max_frame_size)))
         else
           let payload_len = unat (fh_length header);
               frame_end = offset + FRAME_HEADER_LEN + payload_len in
           if length buf < frame_end then Ok None
           else
             let payload = take payload_len (drop (offset + FRAME_HEADER_LEN) buf) in
             (case frame_type_from_u8 (fh_frame_type header) of
                Some ft \<Rightarrow> and_then (decode_payload ft header payload) (\<lambda>frame. Ok (Some (frame, frame_end)))
              | None \<Rightarrow> frame_parse_from frame_end buf max_frame_size))"
  by pat_completeness auto
termination
  by (relation "measure (\<lambda>(offset, buf, _). length buf - offset)")
    (auto simp: FRAME_HEADER_LEN_def)

declare frame_parse_from.simps [simp del]

definition frame_parse :: "bytes \<Rightarrow> u32 \<Rightarrow> Error + (Frame \<times> nat) option" where
  "frame_parse buf max_frame_size = frame_parse_from 0 buf max_frame_size"

text \<open>The payload, type, flags and stream identifier that \<open>encode\<close> emits.\<close>

fun frame_parts :: "Frame \<Rightarrow> bytes \<times> FrameType \<times> u8 \<times> u32" where
  "frame_parts (Data sid content end_stream) =
    (content, FT_Data, (if end_stream then FLAG_END_STREAM else 0), sid)"
| "frame_parts (Headers sid block end_stream end_headers priority) =
    (let f0 = (if end_stream then FLAG_END_STREAM else 0);
         f1 = (if end_headers then f0 OR FLAG_END_HEADERS else f0) in
     case priority of
       Some p \<Rightarrow> (priority_encode p @ block, FT_Headers, f1 OR FLAG_PRIORITY, sid)
     | None \<Rightarrow> (block, FT_Headers, f1, sid))"
| "frame_parts (PriorityFrame sid p) = (priority_encode p, FT_Priority, 0, sid)"
| "frame_parts (RstStream sid error_code) = (be32 error_code, FT_RstStream, 0, sid)"
| "frame_parts (Settings ack params) =
    (concat (map (\<lambda>(k, v). be16 k @ be32 v) params), FT_Settings, (if ack then FLAG_ACK else 0), 0)"
| "frame_parts (Ping ack payload) = (payload, FT_Ping, (if ack then FLAG_ACK else 0), 0)"
| "frame_parts (GoAway last_stream_id error_code debug) =
    (be32 (last_stream_id AND STREAM_ID_MASK) @ be32 error_code @ debug, FT_GoAway, 0, 0)"
| "frame_parts (WindowUpdate sid increment) = (be32 (increment AND STREAM_ID_MASK), FT_WindowUpdate, 0, sid)"
| "frame_parts (Continuation sid block end_headers) =
    (block, FT_Continuation, (if end_headers then FLAG_END_HEADERS else 0), sid)"

definition frame_encode :: "Frame \<Rightarrow> bytes" where
  "frame_encode frame =
    (case frame_parts frame of (body, ft, flags, sid) \<Rightarrow>
       frame_header_encode
         \<lparr>fh_length = of_nat (length body), fh_frame_type = frame_type_u8 ft, fh_flags = flags, fh_stream_id = sid\<rparr>
       @ body)"

fun frame_stream_id :: "Frame \<Rightarrow> u32" where
  "frame_stream_id (Data sid _ _) = sid"
| "frame_stream_id (Headers sid _ _ _ _) = sid"
| "frame_stream_id (PriorityFrame sid _) = sid"
| "frame_stream_id (RstStream sid _) = sid"
| "frame_stream_id (WindowUpdate sid _) = sid"
| "frame_stream_id (Continuation sid _ _) = sid"
| "frame_stream_id (Settings _ _) = 0"
| "frame_stream_id (Ping _ _) = 0"
| "frame_stream_id (GoAway _ _ _) = 0"

section \<open>Lemmas\<close>

lemma frame_type_roundtrip [simp]: "frame_type_from_u8 (frame_type_u8 ft) = Some ft"
  by (cases ft) (simp_all add: frame_type_from_u8_def)

lemma STREAM_ID_MASK_mask: "STREAM_ID_MASK = mask 31"
  by (simp add: STREAM_ID_MASK_def mask_eq_exp_minus_1)

lemma mask31_take_bit: "(w :: u32) AND STREAM_ID_MASK = take_bit 31 w"
  by (simp only: STREAM_ID_MASK_mask take_bit_eq_mask)

lemma stream_id_mask_bound: "(w :: u32) AND STREAM_ID_MASK < 2 ^ 31"
proof -
  have "unat (take_bit 31 w) < 2 ^ 31"
    using unsigned_take_bit_eq [of 31 w, where ?'a = nat] take_bit_nat_less_exp [of 31 "unat w"] by linarith
  then show ?thesis unfolding mask31_take_bit word_less_nat_alt by simp
qed

lemma stream_id_mask_id: "(w :: u32) < 2 ^ 31 \<Longrightarrow> w AND STREAM_ID_MASK = w"
proof -
  assume "w < 2 ^ 31"
  then have "unat w < 2 ^ 31" unfolding word_less_nat_alt by simp
  then have "unat (take_bit 31 w) = unat w"
    using unsigned_take_bit_eq [of 31 w, where ?'a = nat] take_bit_nat_eq_self [of "unat w" 31] by linarith
  then show ?thesis unfolding mask31_take_bit word_unat_eq_iff .
qed

lemma from_be32_high_zero:
  assumes "(w :: u32) < 2 ^ 24"
  shows "from_be32 0 (ucast (drop_bit 16 w)) (ucast (drop_bit 8 w)) (ucast w) = w"
proof -
  have "unat w < 2 ^ 24" using assms unfolding word_less_nat_alt by simp
  then have "unat (drop_bit 24 w) = 0"
    using unat_drop_bit_eq [of 24 w] by (simp only: drop_bit_eq_div) simp
  then have "(0 :: u8) = ucast (drop_bit 24 w)" by (metis unat_eq_0 ucast_0)
  then show ?thesis by (metis from_be32_be32)
qed

lemma frame_header_roundtrip:
  assumes "fh_length h < 2 ^ 24" "fh_stream_id h < 2 ^ 31"
  shows "frame_header_parse (frame_header_encode h @ rest) = Some h"
  using assms by (simp add: frame_header_encode_def be32_def from_be32_high_zero stream_id_mask_id)

lemma length_frame_header_encode [simp]: "length (frame_header_encode h) = 9"
  by (simp add: frame_header_encode_def be32_def)

lemma frame_header_parse_None: "frame_header_parse bs = None \<longleftrightarrow> length bs < 9"
proof (cases "length bs < 9")
  case True
  then show ?thesis
    by (cases bs rule: frame_header_parse.cases) auto
next
  case False
  then show ?thesis
    by (cases bs rule: frame_header_parse.cases) auto
qed

lemma frame_header_parse_append:
  "frame_header_parse bs = Some h \<Longrightarrow> frame_header_parse (bs @ suf) = Some h"
  by (cases bs rule: frame_header_parse.cases) auto

lemma frame_header_parse_stream_id:
  "frame_header_parse bs = Some h \<Longrightarrow> fh_stream_id h < 2 ^ 31"
  by (cases bs rule: frame_header_parse.cases) (auto intro: stream_id_mask_bound [simplified])

lemma be32_at_be32 [simp]: "be32_at 0 (be32 w @ r) = w" "be32_at 0 (be32 w) = w" "be32_at 4 (be32 v @ be32 w @ r) = w"
  by (simp_all add: be32_at_def be32_def)

lemma decode_params_encode:
  "decode_params (concat (map (\<lambda>(k, v). be16 k @ be32 v) params)) = params"
  by (induction params) (auto simp: be16_def be32_def)

lemma length_params: "length (concat (map (\<lambda>(k, v). be16 k @ be32 v) params)) = 6 * length params"
  by (induction params) auto

lemma priority_roundtrip:
  assumes "pr_stream_dependency p < 2 ^ 31"
  shows "priority_parse (priority_encode p) = p"
proof -
  define dep where "dep = pr_stream_dependency p"
  have id: "dep AND STREAM_ID_MASK = dep" using assms by (simp add: dep_def stream_id_mask_id)
  have nb: "\<not> bit dep 31"
    using arg_cong [OF id, of "\<lambda>w. bit w 31"] by (simp add: STREAM_ID_MASK_mask bit_simps)
  have hi: "w AND 0x80000000 = 0 \<longleftrightarrow> \<not> bit w 31" for w :: u32
    using and_exp_eq_0_iff_not_bit [of w 31] by simp
  have b31: "bit (0x80000000 :: u32) 31" by (simp add: bit_simps)
  have "(0x80000000 :: u32) AND STREAM_ID_MASK = 0" by (simp add: STREAM_ID_MASK_def)
  then have low: "(dep OR 0x80000000) AND STREAM_ID_MASK = dep"
    using id by (simp add: bit.conj_disj_distrib2)
  show ?thesis
    using nb b31 id low
    by (cases p) (auto simp: priority_parse_def priority_encode_def be32_def hi dep_def Let_def bit_or_iff)
qed

lemma length_priority_encode [simp]: "length (priority_encode p) = 5"
  by (simp add: priority_encode_def Let_def)

lemma priority_parse_bound: "pr_stream_dependency (priority_parse bs) < 2 ^ 31"
  by (simp add: priority_parse_def Let_def stream_id_mask_bound [simplified])

text \<open>The frames that \<open>encode\<close> can carry: identifiers of 31 bits, and what each type requires.\<close>

fun frame_wf :: "Frame \<Rightarrow> bool" where
  "frame_wf (Data sid _ _) = (sid < 2 ^ 31)"
| "frame_wf (Headers sid _ _ _ priority) =
    (sid < 2 ^ 31 \<and> (case priority of Some p \<Rightarrow> pr_stream_dependency p < 2 ^ 31 | None \<Rightarrow> True))"
| "frame_wf (PriorityFrame sid p) = (sid < 2 ^ 31 \<and> pr_stream_dependency p < 2 ^ 31)"
| "frame_wf (RstStream sid _) = (sid < 2 ^ 31)"
| "frame_wf (Settings ack params) = (ack \<longrightarrow> params = [])"
| "frame_wf (Ping _ payload) = (length payload = 8)"
| "frame_wf (GoAway last_stream_id _ _) = (last_stream_id < 2 ^ 31)"
| "frame_wf (WindowUpdate sid increment) = (sid < 2 ^ 31 \<and> 0 < increment \<and> increment < 2 ^ 31)"
| "frame_wf (Continuation sid _ _) = (sid < 2 ^ 31)"

definition frame_ok :: "u32 \<Rightarrow> Frame \<Rightarrow> bool" where
  "frame_ok max_frame_size f \<longleftrightarrow> frame_wf f \<and> max_frame_size < 2 ^ 24
    \<and> length (fst (frame_parts f)) \<le> unat max_frame_size"

lemma decode_frame_parts:
  assumes "frame_wf f" "frame_parts f = (body, ft, fh_flags h, fh_stream_id h)"
  shows "decode_payload ft h body = Ok f"
proof (cases f)
  case (Headers sid block es eh pr)
  show ?thesis
  proof (cases pr)
    case None
    then show ?thesis using assms Headers
      by (auto simp: decode_payload_def flag_defs Let_def split: if_splits)
  next
    case (Some p)
    have "priority_parse (priority_encode p) = p"
      using assms(1) Headers Some by (intro priority_roundtrip) simp
    then show ?thesis using assms Headers Some
      by (auto simp: decode_payload_def flag_defs Let_def split: if_splits)
  qed
next
  case (PriorityFrame sid p)
  then show ?thesis using assms priority_roundtrip [of p] length_priority_encode [of p] by (auto simp: decode_payload_def Let_def simp del: length_priority_encode)
next
  case (Settings ack params)
  then show ?thesis
    using assms length_params [of params] by (auto simp: decode_payload_def flag_defs Let_def decode_params_encode split: if_splits)
next
  case (WindowUpdate sid inc)
  then show ?thesis
    using assms stream_id_mask_id [of inc] by (auto simp: decode_payload_def Let_def)
next
  case (GoAway last code debug)
  then show ?thesis
    using assms stream_id_mask_id [of last] by (auto simp: decode_payload_def Let_def)
qed (use assms in \<open>auto simp: decode_payload_def flag_defs Let_def split: if_splits\<close>)

lemma frame_parts_stream_id: "frame_wf f \<Longrightarrow> snd (snd (snd (frame_parts f))) < 2 ^ 31"
  by (cases f) (auto simp: Let_def split: option.splits)

lemma frame_parse_encode:
  assumes "frame_ok m f"
  shows "frame_parse (frame_encode f @ rest) m = Ok (Some (f, length (frame_encode f)))"
proof -
  obtain body ft flags sid where parts: "frame_parts f = (body, ft, flags, sid)" by (metis surj_pair)
  define h where "h = \<lparr>fh_length = of_nat (length body), fh_frame_type = frame_type_u8 ft,
    fh_flags = flags, fh_stream_id = sid\<rparr>"
  have "unat m < 2 ^ 24" using assms unfolding frame_ok_def word_less_nat_alt by simp
  then have len: "length body \<le> unat m" "length body < 2 ^ 24"
    using assms parts by (auto simp: frame_ok_def)
  have ul: "unat (of_nat (length body) :: u32) = length body"
    using len(2) by (simp add: unat_of_nat)
  have enc: "frame_encode f = frame_header_encode h @ body"
    by (simp add: frame_encode_def parts h_def)
  have hdr: "frame_header_parse (frame_header_encode h @ r) = Some h" for r
    using frame_parts_stream_id [of f] assms parts len(2) ul
    by (intro frame_header_roundtrip) (simp_all add: h_def frame_ok_def word_less_nat_alt)
  have "decode_payload ft h body = Ok f"
    using assms parts by (intro decode_frame_parts) (auto simp: frame_ok_def h_def)
  moreover have "\<not> m < fh_length h" using len(1) ul by (simp add: h_def word_less_nat_alt)
  moreover have "fh_frame_type h = frame_type_u8 ft" "unat (fh_length h) = length body"
    by (simp_all add: h_def ul)
  ultimately show ?thesis
    unfolding frame_parse_def enc
    by (subst frame_parse_from.simps) (simp add: hdr FRAME_HEADER_LEN_def)
qed

lemma frame_parse_from_used:
  "frame_parse_from off buf m = Ok (Some (f, n)) \<Longrightarrow> off + 9 \<le> n \<and> n \<le> length buf"
proof (induction off buf m rule: frame_parse_from.induct)
  case (1 off buf m)
  show ?case
    using 1(2) by (subst (asm) frame_parse_from.simps)
      (auto simp: Let_def res_simps FRAME_HEADER_LEN_def split: option.splits if_splits dest!: 1(1))
qed

lemma frame_parse_from_append:
  "frame_parse_from off buf m = r \<Longrightarrow> r \<noteq> Ok None \<Longrightarrow> frame_parse_from off (buf @ suf) m = r"
proof (induction off buf m rule: frame_parse_from.induct)
  case (1 off buf m)
  show ?case
  proof (cases "frame_header_parse (drop off buf)")
    case None
    then show ?thesis using 1(2,3) by (subst (asm) frame_parse_from.simps) simp
  next
    case (Some h)
    have h': "frame_header_parse (drop off (buf @ suf)) = Some h"
      using frame_header_parse_append [OF Some, of "drop (off - length buf) suf"] by simp
    show ?thesis
    proof (cases "m < fh_length h")
      case True
      then show ?thesis using 1(2) Some h'
        by (simp add: frame_parse_from.simps [of off buf] frame_parse_from.simps [of off "buf @ suf"])
    next
      case False
      have fits: "off + 9 + unat (fh_length h) \<le> length buf"
        using 1(2,3) Some False by (subst (asm) frame_parse_from.simps) (auto simp: Let_def FRAME_HEADER_LEN_def split: if_splits)
      then have pl: "take (unat (fh_length h)) (drop (off + 9) (buf @ suf)) = take (unat (fh_length h)) (drop (off + 9) buf)"
        by simp
      have "frame_parse_from (off + 9 + unat (fh_length h)) (buf @ suf) m = r"
        if "frame_type_from_u8 (fh_frame_type h) = None"
        using 1(1) [OF Some False refl refl _ refl that] fits 1(2,3) Some False that
        by (simp add: frame_parse_from.simps [of off buf] FRAME_HEADER_LEN_def)
      then show ?thesis
        using 1(2) Some h' False fits pl
        by (simp add: frame_parse_from.simps [of off buf] frame_parse_from.simps [of off "buf @ suf"]
            FRAME_HEADER_LEN_def Let_def split: option.splits)
    qed
  qed
qed


lemma decode_payload_wf:
  assumes "decode_payload ft h body = Ok f" "fh_stream_id h < 2 ^ 31"
  shows "frame_wf f"
proof (cases ft)
  case FT_Settings
  then show ?thesis
    using assms by (auto simp: decode_payload_def Let_def split: if_splits)
next
  case FT_WindowUpdate
  then show ?thesis
    using assms stream_id_mask_bound [of "be32_at 0 body"]
    by (auto simp: decode_payload_def Let_def word_neq_0_conv split: if_splits)
next
  case FT_GoAway
  then show ?thesis
    using assms stream_id_mask_bound [of "be32_at 0 body"]
    by (auto simp: decode_payload_def Let_def split: if_splits)
qed (use assms priority_parse_bound in \<open>auto simp: decode_payload_def Let_def res_simps split: if_splits\<close>)

lemma frame_parse_from_wf:
  "frame_parse_from off buf m = Ok (Some (f, n)) \<Longrightarrow> frame_wf f"
proof (induction off buf m rule: frame_parse_from.induct)
  case (1 off buf m)
  obtain h where h: "frame_header_parse (drop off buf) = Some h"
    using 1(2) by (subst (asm) frame_parse_from.simps) (auto split: option.splits)
  from h have "fh_stream_id h < 2 ^ 31" by (rule frame_header_parse_stream_id)
  then show ?case
    using 1(1) [OF h _ refl refl _ refl] 1(2) h
    by (subst (asm) frame_parse_from.simps)
      (auto simp: Let_def res_simps split: option.splits if_splits intro: decode_payload_wf)
qed

text \<open>A header that is not complete, or a payload that is not, waits.\<close>

lemma frame_parse_prefix:
  assumes "frame_ok m f" "k < length (frame_encode f)"
  shows "frame_parse (take k (frame_encode f)) m = Ok None"
proof (rule ccontr)
  assume "frame_parse (take k (frame_encode f)) m \<noteq> Ok None"
  then have "frame_parse_from 0 (take k (frame_encode f) @ drop k (frame_encode f)) m
      = frame_parse (take k (frame_encode f)) m"
    by (intro frame_parse_from_append) (simp_all add: frame_parse_def)
  then have "frame_parse (take k (frame_encode f)) m = Ok (Some (f, length (frame_encode f)))"
    using frame_parse_encode [OF assms(1), of "[]"] by (simp add: frame_parse_def)
  then show False
    using frame_parse_from_used [of 0 "take k (frame_encode f)" m] assms(2) by (auto simp: frame_parse_def)
qed

section \<open>The frame layer as a codec and as an incremental parser\<close>

definition frame_decode :: "u32 \<Rightarrow> bytes \<Rightarrow> (Frame \<times> nat) option" where
  "frame_decode m bs = (case frame_parse bs m of Inl _ \<Rightarrow> None | Inr r \<Rightarrow> r)"

interpretation frames: prefix_codec frame_encode "frame_decode m" "frame_ok m" for m
  by unfold_locales (simp add: frame_decode_def frame_parse_encode)

interpretation frames_inc: incremental_parser "\<lambda>buf. frame_parse buf m" for m
proof
  show "0 < n \<and> n \<le> length buf" if "frame_parse buf m = Ok (Some (x, n))" for buf x n
    using frame_parse_from_used [of 0 buf m x n] that by (simp add: frame_parse_def)
  show "frame_parse (buf @ suf) m = Ok (Some (x, n))" if "frame_parse buf m = Ok (Some (x, n))" for buf x n suf
    using frame_parse_from_append [of 0 buf m _ suf] that by (simp add: frame_parse_def)
  show "frame_parse (buf @ suf) m = Err e" if "frame_parse buf m = Err e" for buf e suf
    using frame_parse_from_append [of 0 buf m _ suf] that by (simp add: frame_parse_def)
qed

lemma drain_frames:
  "list_all (frame_ok m) fs \<Longrightarrow>
   drain (\<lambda>buf. frame_parse buf m) (concat (map frame_encode fs)) = (fs, [], None)"
proof (induction fs)
  case Nil
  have "frame_parse [] m = Ok None"
    unfolding frame_parse_def by (subst frame_parse_from.simps) simp
  then show ?case by (simp add: frames_inc.drain_unfold)
next
  case (Cons f fs)
  then show ?case
    using frame_parse_encode [of m f "concat (map frame_encode fs)"]
    by (subst frames_inc.drain_unfold) simp
qed

section \<open>Properties\<close>

text \<open>
  C5. Frame round trip: every well-formed frame whose payload is within the maximum frame size
  parses back from its encoding, whatever bytes follow, consuming exactly the encoding; and every
  proper prefix of the encoding is reported as incomplete, never as an error or another frame.
\<close>

theorem frame_roundtrip:
  assumes "frame_ok m f"
  shows "frame_parse (frame_encode f @ rest) m = Ok (Some (f, length (frame_encode f)))
    \<and> (\<forall>k < length (frame_encode f). frame_parse (take k (frame_encode f)) m = Ok None)"
  using frame_parse_encode [OF assms] frame_parse_prefix [OF assms] by blast

theorem frame_roundtrip_witness:
  "frame_parse (frame_encode (Headers 5 [0x82] True False
       (Some \<lparr>pr_exclusive = True, pr_stream_dependency = 3, pr_weight = 7\<rparr>)) @ [1, 2]) 16384
     = Ok (Some (Headers 5 [0x82] True False
       (Some \<lparr>pr_exclusive = True, pr_stream_dependency = 3, pr_weight = 7\<rparr>), 15))
   \<and> frame_parse (take 12 (frame_encode (Headers 5 [0x82] True False
       (Some \<lparr>pr_exclusive = True, pr_stream_dependency = 3, pr_weight = 7\<rparr>)))) 16384 = Ok None"
proof -
  let ?f = "Headers 5 [0x82] True False (Some \<lparr>pr_exclusive = True, pr_stream_dependency = 3, pr_weight = 7\<rparr>)"
  have "length (frame_encode ?f) = 15" by (simp add: frame_encode_def Let_def)
  moreover have "frame_ok 16384 ?f" by (simp add: frame_ok_def Let_def)
  ultimately show ?thesis using frame_roundtrip [of 16384 ?f "[1, 2]"] by simp
qed

text \<open>
  Chunking does not matter: however a byte stream is cut into two reads, parsing what the first
  read left together with the second finds the frames, the remainder and the error, if any, that
  parsing the whole stream finds.
\<close>

lemma frame_stream_chunking:
  "drain (\<lambda>buf. frame_parse buf m) (a @ b) =
    (case drain (\<lambda>buf. frame_parse buf m) a of
       (fs, rest, Some e) \<Rightarrow> (fs, rest @ b, Some e)
     | (fs, rest, None) \<Rightarrow>
         (case drain (\<lambda>buf. frame_parse buf m) (rest @ b) of (gs, rest', err) \<Rightarrow> (fs @ gs, rest', err)))"
  by (rule frames_inc.drain_append)

text \<open>
  C10. Whatever the bytes, a parsed frame is well-formed (identifiers below 2^31, a positive window
  increment, no parameters in a settings acknowledgement, eight octets in a ping) and the parser
  consumed at least a header and no more than the buffer.
\<close>

theorem frame_parse_wf:
  assumes "frame_parse buf m = Ok (Some (f, n))"
  shows "frame_wf f \<and> 9 \<le> n \<and> n \<le> length buf"
  using frame_parse_from_wf [of 0 buf m f n] frame_parse_from_used [of 0 buf m f n] assms
  by (simp add: frame_parse_def)

theorem frame_parse_wf_witness:
  "frame_wf (Ping True [1, 2, 3, 4, 5, 6, 7, 8]) \<and> 9 \<le> (17 :: nat)
    \<and> 17 \<le> length (frame_encode (Ping True [1, 2, 3, 4, 5, 6, 7, 8]))"
proof (rule frame_parse_wf)
  have "length (frame_encode (Ping True [1, 2, 3, 4, 5, 6, 7, 8])) = 17" by (simp add: frame_encode_def)
  then show "frame_parse (frame_encode (Ping True [1, 2, 3, 4, 5, 6, 7, 8])) 16384
      = Ok (Some (Ping True [1, 2, 3, 4, 5, 6, 7, 8], 17))"
    using frame_parse_encode [of 16384 "Ping True [1, 2, 3, 4, 5, 6, 7, 8]" "[]"] by (simp add: frame_ok_def)
qed

end
