(* ===== verification/Text.thy ===== *)
theory Text
  imports Wire
begin

text \<open>
  String operations of the standard library on UTF-8 text: \<open>trim\<close>, ASCII case, prefixes and
  suffixes, hexadecimal
  formatting and parsing with the overflow check of \<open>from_str_radix\<close>.
\<close>

section \<open>White space\<close>

text \<open>The UTF-8 encodings of the characters with the Unicode property White_Space.\<close>

definition whitespace :: "bytes list" where
  "whitespace =
    [[0x09], [0x0A], [0x0B], [0x0C], [0x0D], [0x20], [0xC2, 0x85], [0xC2, 0xA0], [0xE1, 0x9A, 0x80],
     [0xE2, 0x80, 0x80], [0xE2, 0x80, 0x81], [0xE2, 0x80, 0x82], [0xE2, 0x80, 0x83], [0xE2, 0x80, 0x84],
     [0xE2, 0x80, 0x85], [0xE2, 0x80, 0x86], [0xE2, 0x80, 0x87], [0xE2, 0x80, 0x88], [0xE2, 0x80, 0x89],
     [0xE2, 0x80, 0x8A], [0xE2, 0x80, 0xA8], [0xE2, 0x80, 0xA9], [0xE2, 0x80, 0xAF], [0xE2, 0x81, 0x9F],
     [0xE3, 0x80, 0x80]]"

text \<open>The length of the white-space character at the front, 0 if there is none.\<close>

definition ws_front :: "bytes \<Rightarrow> nat" where
  "ws_front bs = (case List.find (\<lambda>w. take (length w) bs = w) whitespace of Some w \<Rightarrow> length w | None \<Rightarrow> 0)"

definition ws_back :: "bytes \<Rightarrow> nat" where
  "ws_back bs =
    (case List.find (\<lambda>w. length w \<le> length bs \<and> drop (length bs - length w) bs = w) whitespace of
       Some w \<Rightarrow> length w | None \<Rightarrow> 0)"

function trim_start_bytes :: "bytes \<Rightarrow> bytes" where
  "trim_start_bytes bs = (if bs = [] \<or> ws_front bs = 0 then bs else trim_start_bytes (drop (ws_front bs) bs))"
  by pat_completeness auto
termination by (relation "measure length") auto

function trim_end_bytes :: "bytes \<Rightarrow> bytes" where
  "trim_end_bytes bs =
    (if bs = [] \<or> ws_back bs = 0 then bs else trim_end_bytes (take (length bs - ws_back bs) bs))"
  by pat_completeness auto
termination by (relation "measure length") auto

declare trim_start_bytes.simps [simp del] trim_end_bytes.simps [simp del]

definition trim :: "string \<Rightarrow> string" where
  "trim s = of_bytes (trim_end_bytes (trim_start_bytes (as_bytes s)))"

section \<open>ASCII case\<close>

definition to_ascii_lower :: "char \<Rightarrow> char" where
  "to_ascii_lower c =
    (let n = (of_char c :: nat) in if 65 \<le> n \<and> n \<le> 90 then char_of (n + 32) else c)"

definition to_ascii_lowercase :: "string \<Rightarrow> string" where
  "to_ascii_lowercase s = map to_ascii_lower s"

definition eq_ignore_ascii_case :: "string \<Rightarrow> string \<Rightarrow> bool" where
  "eq_ignore_ascii_case a b \<longleftrightarrow> to_ascii_lowercase a = to_ascii_lowercase b"

definition is_ascii_uppercase :: "char \<Rightarrow> bool" where
  "is_ascii_uppercase c \<longleftrightarrow> 65 \<le> (of_char c :: nat) \<and> (of_char c :: nat) \<le> 90"

definition to_ascii_upper :: "char \<Rightarrow> char" where
  "to_ascii_upper c =
    (let n = (of_char c :: nat) in if 97 \<le> n \<and> n \<le> 122 then char_of (n - 32) else c)"

definition to_ascii_uppercase :: "string \<Rightarrow> string" where
  "to_ascii_uppercase s = map to_ascii_upper s"

section \<open>Prefixes and suffixes\<close>

definition starts_with :: "string \<Rightarrow> string \<Rightarrow> bool" where
  "starts_with p s \<longleftrightarrow> take (length p) s = p"

definition ends_with :: "string \<Rightarrow> string \<Rightarrow> bool" where
  "ends_with q s \<longleftrightarrow> length q \<le> length s \<and> drop (length s - length q) s = q"

definition strip_prefix :: "string \<Rightarrow> string \<Rightarrow> string option" where
  "strip_prefix p s = (if starts_with p s then Some (drop (length p) s) else None)"

definition strip_suffix :: "string \<Rightarrow> string \<Rightarrow> string option" where
  "strip_suffix q s = (if ends_with q s then Some (take (length s - length q) s) else None)"

text \<open>\<open>split_once\<close> and \<open>rsplit_once\<close>: at the first and at the last occurrence.\<close>

definition split_once :: "char \<Rightarrow> string \<Rightarrow> (string \<times> string) option" where
  "split_once c s = (case str_find c s of None \<Rightarrow> None | Some k \<Rightarrow> Some (take k s, drop (Suc k) s))"

definition rsplit_once :: "char \<Rightarrow> string \<Rightarrow> (string \<times> string) option" where
  "rsplit_once c s =
    (case str_find c (rev s) of None \<Rightarrow> None
     | Some k \<Rightarrow> Some (take (length s - Suc k) s, drop (length s - k) s))"

text \<open>\<open>str::contains\<close> of a string.\<close>

fun contains_str :: "string \<Rightarrow> string \<Rightarrow> bool" where
  "contains_str p [] = (p = [])"
| "contains_str p (c # s) = (starts_with p (c # s) \<or> contains_str p s)"

section \<open>Numbers\<close>

definition hex_digit_value :: "char \<Rightarrow> nat option" where
  "hex_digit_value c =
    (let n = (of_char c :: nat) in
     if 48 \<le> n \<and> n \<le> 57 then Some (n - 48)
     else if 97 \<le> n \<and> n \<le> 102 then Some (n - 87)
     else if 65 \<le> n \<and> n \<le> 70 then Some (n - 55)
     else None)"

definition hex_char :: "nat \<Rightarrow> char" where
  "hex_char d = (if d < 10 then char_of (48 + d) else char_of (87 + d))"

fun hex_str :: "nat \<Rightarrow> string" where
  "hex_str n = (if n < 16 then [hex_char n] else hex_str (n div 16) @ [hex_char (n mod 16)])"

declare hex_str.simps [simp del]

text \<open>\<open>usize::from_str_radix(s, 16)\<close> on a non-empty string of hexadecimal digits: \<open>None\<close> on overflow.\<close>

fun parse_hex_from :: "nat \<Rightarrow> string \<Rightarrow> nat option" where
  "parse_hex_from acc [] = Some acc"
| "parse_hex_from acc (c # s) =
    (case hex_digit_value c of
       None \<Rightarrow> None
     | Some d \<Rightarrow> if usize_max < acc * 16 + d then None else parse_hex_from (acc * 16 + d) s)"

definition parse_hex :: "string \<Rightarrow> nat option" where
  "parse_hex s = (if s = [] then None else parse_hex_from 0 s)"

text \<open>\<open>str::parse::<usize>\<close>: a plus sign and decimal digits; \<open>None\<close> on any other text and on overflow.\<close>

definition digit_value :: "char \<Rightarrow> nat option" where
  "digit_value c = (let n = (of_char c :: nat) in if 48 \<le> n \<and> n \<le> 57 then Some (n - 48) else None)"

fun parse_dec_from :: "nat \<Rightarrow> string \<Rightarrow> nat option" where
  "parse_dec_from acc [] = Some acc"
| "parse_dec_from acc (c # s) =
    (case digit_value c of
       None \<Rightarrow> None
     | Some d \<Rightarrow> if usize_max < acc * 10 + d then None else parse_dec_from (acc * 10 + d) s)"

definition parse_usize :: "string \<Rightarrow> nat option" where
  "parse_usize s =
    (let digits = (case s of c # r \<Rightarrow> if c = CHR ''+'' then r else s | [] \<Rightarrow> []) in
     if digits = [] then None else parse_dec_from 0 digits)"

text \<open>\<open>str::split\<close> at the two-character line end.\<close>

fun split_crlf :: "string \<Rightarrow> string list" where
  "split_crlf (a # b # s) =
    (if a = CHR 0x0D \<and> b = CHR 0x0A then [] # split_crlf s
     else (case split_crlf (b # s) of p # ps \<Rightarrow> (a # p) # ps | [] \<Rightarrow> [[a]]))"
| "split_crlf s = [s]"

section \<open>Lemmas\<close>

lemma hex_digit_value_hex_char [simp]: "d < 16 \<Longrightarrow> hex_digit_value (hex_char d) = Some d"
  by (auto simp: hex_digit_value_def hex_char_def Let_def of_char_of)

lemma parse_hex_from_append:
  "parse_hex_from acc (s @ t) = (case parse_hex_from acc s of None \<Rightarrow> None | Some a \<Rightarrow> parse_hex_from a t)"
  by (induction acc s rule: parse_hex_from.induct) (auto split: option.split)

lemma parse_hex_from_hex_str: "n \<le> usize_max \<Longrightarrow> parse_hex_from 0 (hex_str n) = Some n"
proof (induction n rule: hex_str.induct)
  case (1 n)
  show ?case
  proof (cases "n < 16")
    case True
    then show ?thesis using 1(2) by (simp add: hex_str.simps)
  next
    case False
    then have "parse_hex_from 0 (hex_str (n div 16)) = Some (n div 16)"
      using 1 by (meson div_le_dividend le_trans)
    moreover have "n div 16 * 16 + n mod 16 = n" by simp
    ultimately show ?thesis
      using False 1(2) by (subst hex_str.simps) (simp add: parse_hex_from_append)
  qed
qed

lemma hex_str_ne [simp]: "hex_str n \<noteq> []"
  by (subst hex_str.simps) simp

lemma set_hex_str: "c \<in> set (hex_str n) \<Longrightarrow> hex_digit_value c \<noteq> None"
proof (induction n rule: hex_str.induct)
  case (1 n)
  then show ?case by (subst (asm) (2) hex_str.simps) (auto split: if_splits)
qed

lemma length_hex_str: "n < 16 ^ k \<Longrightarrow> 0 < k \<Longrightarrow> length (hex_str n) \<le> k"
proof (induction n arbitrary: k rule: hex_str.induct)
  case (1 n)
  show ?case
  proof (cases "n < 16")
    case True
    then show ?thesis using 1(3) by (simp add: hex_str.simps)
  next
    case False
    then obtain j where k: "k = Suc j" "0 < j" using 1(2,3) by (cases k; cases "k - 1") auto
    then have "n div 16 < 16 ^ j" using 1(2) by (simp add: less_mult_imp_div_less mult.commute)
    then have "length (hex_str (n div 16)) \<le> j" using 1(1) False k(2) by blast
    then show ?thesis using False k by (subst hex_str.simps) simp
  qed
qed

text \<open>A visible ASCII byte starts or ends no white space.\<close>

definition visible :: "u8 \<Rightarrow> bool" where
  "visible b \<longleftrightarrow> 0x20 < b \<and> b \<le> 0x7F"

lemma whitespace_ends: "w \<in> set whitespace \<Longrightarrow> w \<noteq> [] \<and> \<not> visible (hd w) \<and> \<not> visible (last w)"
  by (auto simp: whitespace_def visible_def)

lemma ws_front_visible: "visible b \<Longrightarrow> ws_front (b # bs) = 0"
proof -
  assume b: "visible b"
  have "take (length w) (b # bs) \<noteq> w" if "w \<in> set whitespace" for w
    using whitespace_ends [OF that] b by (cases w) auto
  then have "List.find (\<lambda>w. take (length w) (b # bs) = w) whitespace = None"
    by (auto simp: find_None_iff)
  then show ?thesis by (simp add: ws_front_def)
qed

lemma ws_back_visible: "visible b \<Longrightarrow> ws_back (bs @ [b]) = 0"
proof -
  assume b: "visible b"
  have "drop (length (bs @ [b]) - length w) (bs @ [b]) \<noteq> w" if "w \<in> set whitespace" for w
  proof
    assume eq: "drop (length (bs @ [b]) - length w) (bs @ [b]) = w"
    then have "last w = b"
      using whitespace_ends [OF that] by (metis drop_eq_Nil last_drop last_snoc not_le)
    then show False using whitespace_ends [OF that] b by simp
  qed
  then have "List.find (\<lambda>w. length w \<le> length (bs @ [b]) \<and> drop (length (bs @ [b]) - length w) (bs @ [b]) = w)
      whitespace = None"
    by (auto simp: find_None_iff)
  then show ?thesis by (simp add: ws_back_def)
qed

lemma trim_visible:
  assumes "s \<noteq> []" "\<And>c. c \<in> set s \<Longrightarrow> visible (byte_of c)"
  shows "trim s = s"
proof -
  obtain c t where c: "s = c # t" using assms(1) by (cases s) auto
  obtain u d where d: "s = u @ [d]" using assms(1) by (cases s rule: rev_cases) auto
  have "trim_start_bytes (as_bytes s) = as_bytes s"
    using assms(2) [of c] ws_front_visible [of "byte_of c"]
    by (subst trim_start_bytes.simps) (simp add: c as_bytes_def)
  moreover have "trim_end_bytes (as_bytes s) = as_bytes s"
    using assms(2) [of d] ws_back_visible [of "byte_of d"]
    by (subst trim_end_bytes.simps) (simp add: d as_bytes_def)
  ultimately show ?thesis by (simp add: trim_def)
qed

lemma trim_Nil [simp]: "trim [] = []"
  by (simp add: trim_def as_bytes_def of_bytes_def trim_start_bytes.simps trim_end_bytes.simps)

text \<open>Evaluated, a text of visible characters is not taken apart into bytes.\<close>

lemma trim_code [code]:
  "trim s =
    (if list_all (\<lambda>c. 0x20 < (of_char c :: nat) \<and> (of_char c :: nat) \<le> 0x7F) s then s
     else of_bytes (trim_end_bytes (trim_start_bytes (as_bytes s))))"
proof (cases "s \<noteq> [] \<and> list_all (\<lambda>c. 0x20 < (of_char c :: nat) \<and> (of_char c :: nat) \<le> 0x7F) s")
  case True
  then have "trim s = s"
    by (intro trim_visible)
      (auto simp: list_all_iff visible_def word_le_nat_alt word_less_nat_alt unat_byte_of)
  then show ?thesis using True by simp
next
  case False
  show ?thesis
  proof (cases "s = []")
    case True
    then show ?thesis by simp
  next
    case nonempty: False
    then show ?thesis using False by (simp add: trim_def)
  qed
qed

lemma eq_ignore_ascii_case_refl [simp]: "eq_ignore_ascii_case a a"
  by (simp add: eq_ignore_ascii_case_def)

lemma eq_ignore_ascii_case_sym: "eq_ignore_ascii_case a b \<longleftrightarrow> eq_ignore_ascii_case b a"
  by (auto simp: eq_ignore_ascii_case_def)

lemma eq_ignore_ascii_case_trans:
  "eq_ignore_ascii_case a b \<Longrightarrow> eq_ignore_ascii_case b c \<longleftrightarrow> eq_ignore_ascii_case a c"
  by (simp add: eq_ignore_ascii_case_def)

lemma to_ascii_lower_idem [simp]: "to_ascii_lower (to_ascii_lower c) = to_ascii_lower c"
  by (auto simp: to_ascii_lower_def Let_def)

lemma to_ascii_lower_not_upper: "\<not> is_ascii_uppercase (to_ascii_lower c)"
  by (auto simp: to_ascii_lower_def is_ascii_uppercase_def Let_def)

lemma starts_with_append [simp]: "starts_with p (p @ s)"
  by (simp add: starts_with_def)

lemma starts_withE: "starts_with p s \<Longrightarrow> (\<And>t. s = p @ t \<Longrightarrow> P) \<Longrightarrow> P"
  unfolding starts_with_def by (metis append_take_drop_id)

lemma strip_prefix_Some: "strip_prefix p s = Some t \<longleftrightarrow> s = p @ t"
  by (auto simp: strip_prefix_def elim: starts_withE)

lemma strip_suffix_Some: "strip_suffix q s = Some t \<longleftrightarrow> s = t @ q"
proof
  assume "strip_suffix q s = Some t"
  then show "s = t @ q"
    by (auto simp: strip_suffix_def ends_with_def split: if_splits) (metis append_take_drop_id)
qed (simp add: strip_suffix_def ends_with_def)

lemma split_once_Some: "split_once c s = Some (a, b) \<longleftrightarrow> s = a @ c # b \<and> c \<notin> set a"
proof
  assume "split_once c s = Some (a, b)"
  then show "s = a @ c # b \<and> c \<notin> set a"
    by (auto simp: split_once_def split: option.splits dest!: str_find_Some)
qed (simp add: split_once_def str_find_append)

lemma split_once_None: "split_once c s = None \<longleftrightarrow> c \<notin> set s"
  using str_find_None [of c s] by (auto simp: split_once_def split: option.split)

end
