(* ===== verification/Message.thy ===== *)
theory Message
  imports Text Normalize HpackPrim
begin

text \<open>
  Requests and responses, the shapes every connector produces and consumes
  (\<open>crates/tomcatrs-coyote/src/lib.rs\<close>, lines 68-219), and the texts of the error values that
  reach the wire or the log. A socket address is the string it prints as.
\<close>

section \<open>Requests and responses\<close>

record Request =
  rq_method :: string
  rq_uri :: string
  rq_path :: string
  rq_query :: "string option"
  rq_version :: string
  rq_headers :: "(string \<times> string) list"
  rq_body :: bytes
  rq_peer_addr :: string

record Response =
  rs_status :: u16
  rs_headers :: "(string \<times> string) list"
  rs_body :: bytes

text \<open>\<open>headers.iter().find(..).map(..)\<close>: the first header with that name.\<close>

fun header_of :: "string \<Rightarrow> (string \<times> string) list \<Rightarrow> string option" where
  "header_of name [] = None"
| "header_of name ((k, v) # hs) = (if eq_ignore_ascii_case k name then Some v else header_of name hs)"

definition request_header :: "string \<Rightarrow> Request \<Rightarrow> string option" where
  "request_header name r = header_of name (rq_headers r)"

definition response_header :: "string \<Rightarrow> Response \<Rightarrow> string option" where
  "response_header name r = header_of name (rs_headers r)"

definition response_new :: "u16 \<Rightarrow> Response" where
  "response_new status = \<lparr>rs_status = status, rs_headers = [], rs_body = []\<rparr>"

definition response_with_body :: "u16 \<Rightarrow> bytes \<Rightarrow> Response" where
  "response_with_body status body = \<lparr>rs_status = status, rs_headers = [], rs_body = body\<rparr>"

fun put_header :: "string \<Rightarrow> string \<Rightarrow> (string \<times> string) list \<Rightarrow> (string \<times> string) list" where
  "put_header name val [] = [(name, val)]"
| "put_header name val ((k, v) # hs) =
    (if eq_ignore_ascii_case k name then (k, val) # hs else (k, v) # put_header name val hs)"

definition set_header :: "string \<Rightarrow> string \<Rightarrow> Response \<Rightarrow> Response" where
  "set_header name val r = r\<lparr>rs_headers := put_header name val (rs_headers r)\<rparr>"

section \<open>Error texts\<close>

fun hpack_error_str :: "HpackError \<Rightarrow> string" where
  "hpack_error_str IntegerOverflow = ''hpack integer overflow''"
| "hpack_error_str Truncated = ''hpack block truncated''"
| "hpack_error_str (InvalidIndex i) = ''hpack invalid table index '' @ dec_str i"
| "hpack_error_str (InvalidHuffman why) = ''hpack invalid huffman string: '' @ why"
| "hpack_error_str HpackError.InvalidUtf8 = ''hpack string literal was not valid utf-8''"
| "hpack_error_str (TableSizeExceeded req lim) =
    ''hpack dynamic table size update '' @ dec_str req @ '' exceeds limit '' @ dec_str lim"
| "hpack_error_str (HeaderListTooLarge lim) = ''hpack header list exceeds limit '' @ dec_str lim @ '' bytes''"
| "hpack_error_str UnexpectedTableSizeUpdate = ''hpack dynamic table size update in unexpected position''"

fun normalize_error_str :: "NormalizeError \<Rightarrow> string" where
  "normalize_error_str PathTraversal = ''path traversal: target escapes the document root''"
| "normalize_error_str Backslash = ''illegal backslash in request path''"
| "normalize_error_str NulByte = ''illegal NUL byte in request path''"
| "normalize_error_str EncodedSlash = ''encoded slash (%2f) is not permitted in the path''"
| "normalize_error_str BadPercentEncoding = ''malformed percent-encoding in request target''"
| "normalize_error_str NormalizeError.InvalidUtf8 = ''request path is not valid UTF-8 after decoding''"
| "normalize_error_str NotAbsolute = ''request target must be an absolute path''"

fun error_str :: "Error \<Rightarrow> string" where
  "error_str (Io msg) = ''i/o error: '' @ msg"
| "error_str (Config msg) = ''configuration error: '' @ msg"
| "error_str (Lifecycle msg) = ''lifecycle error: '' @ msg"
| "error_str (Protocol msg) = ''protocol error: '' @ msg"
| "error_str (Bridge msg) = ''jvm bridge error: '' @ msg"
| "error_str (Deployment msg) = ''deployment error: '' @ msg"
| "error_str (NotFound msg) = ''not found: '' @ msg"
| "error_str (Rejected msg) = ''request rejected: '' @ msg"
| "error_str (Other msg) = msg"

section \<open>Lemmas\<close>

lemma header_of_put:
  "header_of m (put_header n v hs) = (if eq_ignore_ascii_case m n then Some v else header_of m hs)"
  by (induction n v hs rule: put_header.induct)
    (auto simp: eq_ignore_ascii_case_def)

lemma header_of_cong: "eq_ignore_ascii_case m n \<Longrightarrow> header_of m hs = header_of n hs"
  by (induction m hs rule: header_of.induct) (auto simp: eq_ignore_ascii_case_def)

end
