(* ===== verification/Http2Conn.thy ===== *)
theory Http2Conn
  imports Hpack Http2Frame Message
begin

text \<open>
  The HTTP/2 connection driver: \<open>crates/tomcatrs-coyote/src/http2_conn.rs\<close>.

  The connection is a record with the fields of \<open>Http2Connection\<close>; the socket is the list \<open>c_out\<close> of
  the frames written so far, in order, and writes succeed. The adapter's tasks are the list
  \<open>c_tasks\<close> of the requests handed to them. A handler returns the new connection with its result,
  on the error paths too. The stream table, a hash map, is an association list: its order stands for
  the map's iteration order. The \<open>i64\<close> windows are integers; the bounds below show they stay far
  inside 64 bits.
\<close>

section \<open>Constants\<close>

definition MAX_WINDOW :: int where
  "MAX_WINDOW = 0x7FFFFFFF"

definition HEADER_BLOCK_HARD_CAP :: nat where
  "HEADER_BLOCK_HARD_CAP = 1024 * 1024"

definition NO_ERROR :: u32 where
  "NO_ERROR = 0x0"

definition PROTOCOL_ERROR :: u32 where
  "PROTOCOL_ERROR = 0x1"

definition FLOW_CONTROL_ERROR :: u32 where
  "FLOW_CONTROL_ERROR = 0x3"

definition STREAM_CLOSED :: u32 where
  "STREAM_CLOSED = 0x5"

definition FRAME_SIZE_ERROR :: u32 where
  "FRAME_SIZE_ERROR = 0x6"

definition REFUSED_STREAM :: u32 where
  "REFUSED_STREAM = 0x7"

definition COMPRESSION_ERROR :: u32 where
  "COMPRESSION_ERROR = 0x9"

definition ID_HEADER_TABLE_SIZE :: u16 where
  "ID_HEADER_TABLE_SIZE = 0x1"

definition ID_ENABLE_PUSH :: u16 where
  "ID_ENABLE_PUSH = 0x2"

definition ID_MAX_CONCURRENT_STREAMS :: u16 where
  "ID_MAX_CONCURRENT_STREAMS = 0x3"

definition ID_INITIAL_WINDOW_SIZE :: u16 where
  "ID_INITIAL_WINDOW_SIZE = 0x4"

definition ID_MAX_FRAME_SIZE :: u16 where
  "ID_MAX_FRAME_SIZE = 0x5"

definition ID_MAX_HEADER_LIST_SIZE :: u16 where
  "ID_MAX_HEADER_LIST_SIZE = 0x6"

lemmas setting_ids = ID_HEADER_TABLE_SIZE_def ID_ENABLE_PUSH_def ID_MAX_CONCURRENT_STREAMS_def
  ID_INITIAL_WINDOW_SIZE_def ID_MAX_FRAME_SIZE_def ID_MAX_HEADER_LIST_SIZE_def

section \<open>Errors\<close>

record Http2Error =
  e_code :: u32
  e_detail :: string
  e_stream_only :: "u32 option"

definition connection_error :: "u32 \<Rightarrow> string \<Rightarrow> Http2Error" where
  "connection_error code detail = \<lparr>e_code = code, e_detail = detail, e_stream_only = None\<rparr>"

definition stream_error :: "u32 \<Rightarrow> string \<Rightarrow> Http2Error" where
  "stream_error code detail = \<lparr>e_code = code, e_detail = detail, e_stream_only = Some 0\<rparr>"

definition on_stream :: "u32 \<Rightarrow> Http2Error \<Rightarrow> Http2Error" where
  "on_stream sid e = (if e_stream_only e \<noteq> None then e\<lparr>e_stream_only := Some sid\<rparr> else e)"

definition map_err :: "('e \<Rightarrow> 'f) \<Rightarrow> 'e + 'a \<Rightarrow> 'f + 'a" where
  "map_err f r = (case r of Inl e \<Rightarrow> Inl (f e) | Inr x \<Rightarrow> Inr x)"

section \<open>Settings\<close>

record Http2Settings =
  st_header_table_size :: u32
  st_max_concurrent_streams :: u32
  st_initial_window_size :: u32
  st_max_frame_size :: u32
  st_max_header_list_size :: u32

definition settings_default :: Http2Settings where
  "settings_default =
    \<lparr>st_header_table_size = 4096, st_max_concurrent_streams = 128, st_initial_window_size = 65535,
     st_max_frame_size = 16384, st_max_header_list_size = 0xFFFFFFFF\<rparr>"

definition as_params :: "Http2Settings \<Rightarrow> (u16 \<times> u32) list" where
  "as_params s =
    [(ID_HEADER_TABLE_SIZE, st_header_table_size s),
     (ID_MAX_CONCURRENT_STREAMS, st_max_concurrent_streams s),
     (ID_INITIAL_WINDOW_SIZE, st_initial_window_size s),
     (ID_MAX_FRAME_SIZE, st_max_frame_size s),
     (ID_MAX_HEADER_LIST_SIZE, st_max_header_list_size s)]"

definition apply_setting :: "u16 \<Rightarrow> u32 \<Rightarrow> Http2Settings \<Rightarrow> Http2Error + Http2Settings" where
  "apply_setting k val s =
    (if k = ID_HEADER_TABLE_SIZE then Ok (s\<lparr>st_header_table_size := val\<rparr>)
     else if k = ID_ENABLE_PUSH \<and> 1 < val then
       Err (connection_error PROTOCOL_ERROR ''ENABLE_PUSH must be 0 or 1'')
     else if k = ID_MAX_CONCURRENT_STREAMS then Ok (s\<lparr>st_max_concurrent_streams := val\<rparr>)
     else if k = ID_INITIAL_WINDOW_SIZE then
       (if MAX_WINDOW < uint val then
          Err (connection_error FLOW_CONTROL_ERROR ''INITIAL_WINDOW_SIZE exceeds 2^31-1'')
        else Ok (s\<lparr>st_initial_window_size := val\<rparr>))
     else if k = ID_MAX_FRAME_SIZE then
       (if \<not> (16384 \<le> val \<and> val \<le> 16777215) then
          Err (connection_error PROTOCOL_ERROR ''MAX_FRAME_SIZE out of range'')
        else Ok (s\<lparr>st_max_frame_size := val\<rparr>))
     else if k = ID_MAX_HEADER_LIST_SIZE then Ok (s\<lparr>st_max_header_list_size := val\<rparr>)
     else Ok s)"

section \<open>Streams\<close>

datatype StreamState = Idle | Open | HalfClosedLocal | HalfClosedRemote | Closed

definition on_recv_headers :: "bool \<Rightarrow> StreamState \<Rightarrow> Http2Error + StreamState" where
  "on_recv_headers end_stream st =
    (case st of
       Idle \<Rightarrow> Ok (if end_stream then HalfClosedRemote else Open)
     | Open \<Rightarrow>
         if end_stream then Ok HalfClosedRemote
         else Err (connection_error STREAM_CLOSED ''HEADERS not valid in this stream state'')
     | _ \<Rightarrow> Err (connection_error STREAM_CLOSED ''HEADERS not valid in this stream state''))"

definition on_recv_data :: "bool \<Rightarrow> StreamState \<Rightarrow> Http2Error + StreamState" where
  "on_recv_data end_stream st =
    (case st of
       Open \<Rightarrow> Ok (if end_stream then HalfClosedRemote else Open)
     | HalfClosedLocal \<Rightarrow> Ok (if end_stream then Closed else HalfClosedLocal)
     | _ \<Rightarrow> Err (stream_error STREAM_CLOSED ''DATA not valid in this stream state''))"

definition on_send_end_stream :: "StreamState \<Rightarrow> StreamState" where
  "on_send_end_stream st =
    (case st of Open \<Rightarrow> HalfClosedLocal | HalfClosedRemote \<Rightarrow> Closed | other \<Rightarrow> other)"

record Stream =
  s_id :: u32
  s_state :: StreamState
  s_recv_window :: int
  s_send_window :: int
  s_header_block :: bytes
  s_awaiting_continuation :: bool
  s_headers_end_stream :: bool
  s_headers :: "(string \<times> string) list"
  s_headers_decoded :: bool
  s_body :: bytes
  s_dispatched :: bool

definition stream_new :: "u32 \<Rightarrow> u32 \<Rightarrow> u32 \<Rightarrow> Stream" where
  "stream_new sid local_initial_window peer_initial_window =
    \<lparr>s_id = sid, s_state = Idle, s_recv_window = uint local_initial_window,
     s_send_window = uint peer_initial_window, s_header_block = [], s_awaiting_continuation = False,
     s_headers_end_stream = False, s_headers = [], s_headers_decoded = False, s_body = [],
     s_dispatched = False\<rparr>"

type_synonym streams = "(u32 \<times> Stream) list"

text \<open>\<open>get_mut\<close> followed by an update of the stream.\<close>

definition upd_stream :: "u32 \<Rightarrow> (Stream \<Rightarrow> Stream) \<Rightarrow> streams \<Rightarrow> streams" where
  "upd_stream sid f ss = map (\<lambda>(k, s). if k = sid then (k, f s) else (k, s)) ss"

section \<open>The connection\<close>

record Http2Connection =
  c_peer_addr :: string
  c_local_settings :: Http2Settings
  c_peer_settings :: Http2Settings
  c_peer_acked_settings :: bool
  c_conn_recv_window :: int
  c_conn_send_window :: int
  c_streams :: streams
  c_last_stream_id :: u32
  c_open_stream_count :: u32
  c_hpack_decoder :: HpackDecoder
  c_hpack_encoder :: HpackEncoder
  c_inbuf :: bytes
  c_going_away :: bool
  c_out :: "Frame list"
  c_tasks :: "(u32 \<times> Request) list"

type_synonym 'a handler = "Http2Connection \<Rightarrow> Http2Connection \<times> (Http2Error + 'a)"

definition conn_new :: "string \<Rightarrow> Http2Connection" where
  "conn_new peer_addr =
    (let local_settings = settings_default;
         dec = decoder_new (unat (st_header_table_size local_settings));
         dec' = (if st_max_header_list_size local_settings \<noteq> 0xFFFFFFFF
                 then set_max_header_list_size (unat (st_max_header_list_size local_settings)) dec else dec) in
     \<lparr>c_peer_addr = peer_addr, c_local_settings = local_settings, c_peer_settings = settings_default,
      c_peer_acked_settings = False, c_conn_recv_window = 65535, c_conn_send_window = 65535,
      c_streams = [], c_last_stream_id = 0, c_open_stream_count = 0, c_hpack_decoder = dec',
      c_hpack_encoder = encoder_new (unat (st_header_table_size settings_default)), c_inbuf = [],
      c_going_away = False, c_out = [], c_tasks = []\<rparr>)"

definition send_frame :: "Frame \<Rightarrow> Http2Connection \<Rightarrow> Http2Connection" where
  "send_frame f c = c\<lparr>c_out := c_out c @ [f]\<rparr>"

definition stream_of :: "u32 \<Rightarrow> Http2Connection \<Rightarrow> Stream option" where
  "stream_of sid c = map_of (c_streams c) sid"

definition set_stream :: "u32 \<Rightarrow> (Stream \<Rightarrow> Stream) \<Rightarrow> Http2Connection \<Rightarrow> Http2Connection" where
  "set_stream sid f c = c\<lparr>c_streams := upd_stream sid f (c_streams c)\<rparr>"

definition continuation_expected_on :: "Http2Connection \<Rightarrow> u32 option" where
  "continuation_expected_on c =
    map_option (\<lambda>(k, s). s_id s) (List.find (\<lambda>(k, s). s_awaiting_continuation s) (c_streams c))"

text \<open>\<open>saturating_sub\<close> of the number of streams dropped.\<close>

definition retire_closed_streams :: "Http2Connection \<Rightarrow> Http2Connection" where
  "retire_closed_streams c =
    (let kept = filter (\<lambda>(k, s). s_state s \<noteq> Closed) (c_streams c);
         removed = (of_nat (length (c_streams c) - length kept) :: u32);
         n = c_open_stream_count c in
     c\<lparr>c_streams := kept, c_open_stream_count := (if n < removed then 0 else n - removed)\<rparr>)"

section \<open>Requests\<close>

record pseudo_acc =
  pa_method :: "string option"
  pa_path :: "string option"
  pa_scheme :: "string option"
  pa_authority :: "string option"
  pa_headers :: "(string \<times> string) list"
  pa_seen_regular :: bool

definition connection_specific :: "string \<Rightarrow> bool" where
  "connection_specific name \<longleftrightarrow>
    name \<in> {''connection'', ''keep-alive'', ''proxy-connection'', ''transfer-encoding'', ''upgrade''}"

fun build_loop :: "(string \<times> string) list \<Rightarrow> pseudo_acc \<Rightarrow> Http2Error + pseudo_acc" where
  "build_loop [] a = Ok a"
| "build_loop ((name, val) # decoded) a =
    (if name \<noteq> [] \<and> hd name = CHR '':'' then
       (if pa_seen_regular a then Err (stream_error PROTOCOL_ERROR ''pseudo-header after regular header'')
        else
          let pseudo = tl name in
          if pseudo = ''method'' then build_loop decoded (a\<lparr>pa_method := Some val\<rparr>)
          else if pseudo = ''path'' then build_loop decoded (a\<lparr>pa_path := Some val\<rparr>)
          else if pseudo = ''scheme'' then build_loop decoded (a\<lparr>pa_scheme := Some val\<rparr>)
          else if pseudo = ''authority'' then build_loop decoded (a\<lparr>pa_authority := Some val\<rparr>)
          else Err (stream_error PROTOCOL_ERROR (''unknown pseudo-header :'' @ pseudo)))
     else
       let a' = a\<lparr>pa_seen_regular := True\<rparr> in
       if \<exists>ch \<in> set name. is_ascii_uppercase ch then
         Err (stream_error PROTOCOL_ERROR ''uppercase header field name'')
       else if connection_specific name then
         Err (stream_error PROTOCOL_ERROR ''connection-specific header in HTTP/2'')
       else build_loop decoded (a'\<lparr>pa_headers := pa_headers a' @ [(name, val)]\<rparr>))"

definition build_request :: "(string \<times> string) list \<Rightarrow> bytes \<Rightarrow> string \<Rightarrow> Http2Error + Request" where
  "build_request decoded body peer_addr =
    and_then (build_loop decoded
      \<lparr>pa_method = None, pa_path = None, pa_scheme = None, pa_authority = None, pa_headers = [],
       pa_seen_regular = False\<rparr>) (\<lambda>a.
    and_then (ok_or (pa_method a) (stream_error PROTOCOL_ERROR ''missing :method pseudo-header'')) (\<lambda>method.
    and_then (ok_or (pa_path a) (stream_error PROTOCOL_ERROR ''missing :path pseudo-header'')) (\<lambda>raw_path.
      if raw_path = [] then Err (stream_error PROTOCOL_ERROR '':path must not be empty'')
      else
        let headers = (case pa_authority a of
              Some auth \<Rightarrow>
                if \<not> (\<exists>h \<in> set (pa_headers a). fst h = ''host'') then (''host'', auth) # pa_headers a
                else pa_headers a
            | None \<Rightarrow> pa_headers a) in
        and_then
          (map_err (\<lambda>e. stream_error PROTOCOL_ERROR (''invalid :path: '' @ normalize_error_str e))
            (normalize_target raw_path))
          (\<lambda>normalized.
             Ok \<lparr>rq_method = method, rq_uri = raw_path, rq_path = uri_path normalized,
                 rq_query = uri_query normalized, rq_version = ''HTTP/2.0'', rq_headers = headers,
                 rq_body = body, rq_peer_addr = peer_addr\<rparr>))))"

section \<open>Handlers\<close>

definition try_dispatch :: "u32 \<Rightarrow> unit handler" where
  "try_dispatch sid c =
    (case stream_of sid c of
       None \<Rightarrow> (c, Ok ())
     | Some s \<Rightarrow>
         if s_dispatched s then (c, Ok ())
         else
           let c' = set_stream sid (\<lambda>s. s\<lparr>s_dispatched := True, s_body := []\<rparr>) c in
           (case map_err (on_stream sid) (build_request (s_headers s) (s_body s) (c_peer_addr c)) of
              Inl e \<Rightarrow> (c', Err e)
            | Inr request \<Rightarrow> (c'\<lparr>c_tasks := c_tasks c' @ [(sid, request)]\<rparr>, Ok ())))"

definition finish_header_block :: "u32 \<Rightarrow> unit handler" where
  "finish_header_block sid c =
    (case stream_of sid c of
       None \<Rightarrow> (c, Ok ())
     | Some s \<Rightarrow>
         let block = s_header_block s; end_stream = s_headers_end_stream s;
             c1 = set_stream sid (\<lambda>s. s\<lparr>s_header_block := []\<rparr>) c;
             (dec, r) = decode block (c_hpack_decoder c1);
             c2 = c1\<lparr>c_hpack_decoder := dec\<rparr> in
         (case r of
            Inl e \<Rightarrow> (c2, Err (connection_error COMPRESSION_ERROR (''HPACK decode failed: '' @ hpack_error_str e)))
          | Inr decoded \<Rightarrow>
              let c3 = set_stream sid (\<lambda>s.
                    if s_headers_decoded s then s\<lparr>s_headers := s_headers s @ decoded\<rparr>
                    else s\<lparr>s_headers := decoded, s_headers_decoded := True\<rparr>) c2 in
              if end_stream then try_dispatch sid c3 else (c3, Ok ())))"

fun apply_settings :: "(u16 \<times> u32) list \<Rightarrow> Http2Settings \<Rightarrow> Http2Settings \<times> (Http2Error + unit)" where
  "apply_settings [] s = (s, Ok ())"
| "apply_settings ((k, val) # params) s =
    (case apply_setting k val s of Inl e \<Rightarrow> (s, Err e) | Inr s' \<Rightarrow> apply_settings params s')"

text \<open>The loop over \<open>streams.values_mut()\<close>; the flag says that it stopped at an overflow.\<close>

fun adjust_windows :: "int \<Rightarrow> streams \<Rightarrow> streams \<times> bool" where
  "adjust_windows delta [] = ([], False)"
| "adjust_windows delta ((k, s) # ss) =
    (let s' = s\<lparr>s_send_window := s_send_window s + delta\<rparr> in
     if MAX_WINDOW < s_send_window s' then ((k, s') # ss, True)
     else (case adjust_windows delta ss of (ss', ov) \<Rightarrow> ((k, s') # ss', ov)))"

definition on_settings :: "bool \<Rightarrow> (u16 \<times> u32) list \<Rightarrow> unit handler" where
  "on_settings ack params c =
    (if ack then
       (if params \<noteq> [] then (c, Err (connection_error FRAME_SIZE_ERROR ''SETTINGS ACK must be empty''))
        else (c\<lparr>c_peer_acked_settings := True\<rparr>, Ok ()))
     else
       let old_initial = uint (st_initial_window_size (c_peer_settings c));
           (peer, r) = apply_settings params (c_peer_settings c);
           c1 = c\<lparr>c_peer_settings := peer\<rparr> in
       (case r of
          Inl e \<Rightarrow> (c1, Err e)
        | Inr _ \<Rightarrow>
            let new_initial = uint (st_initial_window_size peer);
                (ss, overflow) = (if new_initial \<noteq> old_initial
                  then adjust_windows (new_initial - old_initial) (c_streams c1) else (c_streams c1, False));
                c2 = c1\<lparr>c_streams := ss\<rparr> in
            if overflow then
              (c2, Err (connection_error FLOW_CONTROL_ERROR ''INITIAL_WINDOW_SIZE change overflowed a stream window''))
            else (send_frame (Settings True []) c2, Ok ())))"

definition on_ping :: "bool \<Rightarrow> bytes \<Rightarrow> unit handler" where
  "on_ping ack payload c = (if ack then (c, Ok ()) else (send_frame (Ping True payload) c, Ok ()))"

definition on_window_update :: "u32 \<Rightarrow> u32 \<Rightarrow> unit handler" where
  "on_window_update sid increment c =
    (if increment = 0 then
       (if sid = 0 then (c, Err (connection_error PROTOCOL_ERROR ''WINDOW_UPDATE increment of 0''))
        else (c, Err (on_stream sid (stream_error PROTOCOL_ERROR ''WINDOW_UPDATE increment of 0''))))
     else if sid = 0 then
       let c' = c\<lparr>c_conn_send_window := c_conn_send_window c + uint increment\<rparr> in
       (if MAX_WINDOW < c_conn_send_window c' then
          (c', Err (connection_error FLOW_CONTROL_ERROR ''connection send window overflow''))
        else (c', Ok ()))
     else
       (case stream_of sid c of
          None \<Rightarrow> (c, Ok ())
        | Some s \<Rightarrow>
            let w = s_send_window s + uint increment;
                c' = set_stream sid (\<lambda>s. s\<lparr>s_send_window := w\<rparr>) c in
            if MAX_WINDOW < w then
              (c', Err (on_stream sid (stream_error FLOW_CONTROL_ERROR ''stream send window overflow'')))
            else (c', Ok ())))"

definition on_rst_stream :: "u32 \<Rightarrow> u32 \<Rightarrow> unit handler" where
  "on_rst_stream sid error_code c =
    (if sid = 0 then (c, Err (connection_error PROTOCOL_ERROR ''RST_STREAM on stream 0''))
     else if stream_of sid c \<noteq> None then
       (retire_closed_streams (set_stream sid (\<lambda>s. s\<lparr>s_state := Closed\<rparr>) c), Ok ())
     else (c, Ok ()))"

text \<open>
  \<open>on_headers\<close> from the point where the stream exists: advance the state machine, take the fragment,
  finish the block if it is complete.
\<close>

definition headers_on_stream :: "u32 \<Rightarrow> bytes \<Rightarrow> bool \<Rightarrow> bool \<Rightarrow> unit handler" where
  "headers_on_stream sid block end_stream end_headers c =
    (case stream_of sid c of
       None \<Rightarrow> (c, Ok ())
     | Some s \<Rightarrow>
         (case map_err (on_stream sid) (on_recv_headers end_stream (s_state s)) of
            Inl e \<Rightarrow> (c, Err e)
          | Inr st \<Rightarrow>
              let c' = set_stream sid (\<lambda>s. s\<lparr>s_state := st, s_headers_end_stream := end_stream,
                    s_header_block := s_header_block s @ block, s_awaiting_continuation := \<not> end_headers\<rparr>) c in
              if HEADER_BLOCK_HARD_CAP < length (s_header_block s @ block) then
                (c', Err (connection_error PROTOCOL_ERROR ''header block exceeds hard cap''))
              else if end_headers then finish_header_block sid c' else (c', Ok ())))"

definition on_headers :: "u32 \<Rightarrow> bytes \<Rightarrow> bool \<Rightarrow> bool \<Rightarrow> unit handler" where
  "on_headers sid block end_stream end_headers c =
    (if sid = 0 \<or> sid mod 2 = 0 then
       (c, Err (connection_error PROTOCOL_ERROR ''HEADERS must use an odd, non-zero stream id''))
     else if stream_of sid c = None then
       (if sid \<le> c_last_stream_id c then
          (c, Err (connection_error PROTOCOL_ERROR ''stream id did not increase''))
        else
          let c1 = c\<lparr>c_last_stream_id := sid\<rparr> in
          if st_max_concurrent_streams (c_local_settings c1) \<le> c_open_stream_count c1 then
            (send_frame (RstStream sid REFUSED_STREAM) c1, Ok ())
          else
            let s = stream_new sid (st_initial_window_size (c_local_settings c1))
                  (st_initial_window_size (c_peer_settings c1)) in
            headers_on_stream sid block end_stream end_headers
              (c1\<lparr>c_streams := (sid, s) # c_streams c1, c_open_stream_count := c_open_stream_count c1 + 1\<rparr>))
     else headers_on_stream sid block end_stream end_headers c)"

definition on_continuation :: "u32 \<Rightarrow> bytes \<Rightarrow> bool \<Rightarrow> unit handler" where
  "on_continuation sid block end_headers c =
    (case stream_of sid c of
       None \<Rightarrow> (c, Err (connection_error PROTOCOL_ERROR ''CONTINUATION for unknown stream''))
     | Some s \<Rightarrow>
         if \<not> s_awaiting_continuation s then
           (c, Err (connection_error PROTOCOL_ERROR ''unexpected CONTINUATION''))
         else
           let c' = set_stream sid (\<lambda>s. s\<lparr>s_header_block := s_header_block s @ block\<rparr>) c in
           if HEADER_BLOCK_HARD_CAP < length (s_header_block s @ block) then
             (c', Err (connection_error PROTOCOL_ERROR ''header block exceeds hard cap''))
           else if end_headers then
             finish_header_block sid (set_stream sid (\<lambda>s. s\<lparr>s_awaiting_continuation := False\<rparr>) c')
           else (c', Ok ()))"

definition on_data :: "u32 \<Rightarrow> bytes \<Rightarrow> bool \<Rightarrow> unit handler" where
  "on_data sid content end_stream c =
    (let len = int (length content) in
     if sid = 0 then (c, Err (connection_error PROTOCOL_ERROR ''DATA on stream 0''))
     else if c_conn_recv_window c < len then
       (c, Err (connection_error FLOW_CONTROL_ERROR ''DATA exceeds connection flow-control window''))
     else
       let c1 = c\<lparr>c_conn_recv_window := c_conn_recv_window c - len\<rparr> in
       (case stream_of sid c1 of
          None \<Rightarrow> (c1, Err (stream_error STREAM_CLOSED ''DATA for unknown stream''))
        | Some s \<Rightarrow>
            if s_recv_window s < len then
              (c1, Err (stream_error FLOW_CONTROL_ERROR ''DATA exceeds stream flow-control window''))
            else
              let c2 = set_stream sid (\<lambda>s. s\<lparr>s_recv_window := s_recv_window s - len\<rparr>) c1 in
              (case on_recv_data end_stream (s_state s) of
                 Inl e \<Rightarrow> (c2, Err e)
               | Inr st \<Rightarrow>
                   let c3 = set_stream sid (\<lambda>s. s\<lparr>s_state := st, s_body := s_body s @ content\<rparr>) c2;
                       c4 = (if 0 < len then
                         send_frame (WindowUpdate sid (of_nat (length content)))
                           (set_stream sid (\<lambda>s. s\<lparr>s_recv_window := s_recv_window s + len\<rparr>)
                             (send_frame (WindowUpdate 0 (of_nat (length content)))
                               (c3\<lparr>c_conn_recv_window := c_conn_recv_window c3 + len\<rparr>)))
                         else c3) in
                   if end_stream then try_dispatch sid c4 else (c4, Ok ()))))"

definition dispatch_frame :: "Frame \<Rightarrow> unit handler" where
  "dispatch_frame frame c =
    (if (case continuation_expected_on c of
           Some sid \<Rightarrow> \<not> (case frame of Continuation k _ _ \<Rightarrow> k = sid | _ \<Rightarrow> False)
         | None \<Rightarrow> False)
     then (c, Err (connection_error PROTOCOL_ERROR ''expected CONTINUATION frame''))
     else
       (case frame of
          Settings ack params \<Rightarrow> on_settings ack params c
        | Ping ack payload \<Rightarrow> on_ping ack payload c
        | WindowUpdate sid increment \<Rightarrow> on_window_update sid increment c
        | Headers sid block end_stream end_headers _ \<Rightarrow> on_headers sid block end_stream end_headers c
        | Continuation sid block end_headers \<Rightarrow> on_continuation sid block end_headers c
        | Data sid content end_stream \<Rightarrow> apsnd (map_err (on_stream sid)) (on_data sid content end_stream c)
        | RstStream sid error_code \<Rightarrow> on_rst_stream sid error_code c
        | PriorityFrame _ _ \<Rightarrow> (c, Ok ())
        | GoAway _ _ _ \<Rightarrow> (c\<lparr>c_going_away := True\<rparr>, Ok ())))"

definition handle_protocol_error :: "Http2Error \<Rightarrow> Http2Connection \<Rightarrow> Http2Connection" where
  "handle_protocol_error e c =
    (case e_stream_only e of
       Some sid \<Rightarrow>
         if sid \<noteq> 0 then
           retire_closed_streams
             (set_stream sid (\<lambda>s. s\<lparr>s_state := Closed\<rparr>) (send_frame (RstStream sid (e_code e)) c))
         else
           (send_frame (GoAway (c_last_stream_id c) (e_code e) (as_bytes (e_detail e))) c)\<lparr>c_going_away := True\<rparr>
     | None \<Rightarrow>
         (send_frame (GoAway (c_last_stream_id c) (e_code e) (as_bytes (e_detail e))) c)\<lparr>c_going_away := True\<rparr>)"

text \<open>What no handler changes: the input buffer, the local settings, the peer's address.\<close>

definition same_env :: "Http2Connection \<Rightarrow> Http2Connection \<Rightarrow> bool" where
  "same_env c c' \<longleftrightarrow> c_inbuf c' = c_inbuf c \<and> c_local_settings c' = c_local_settings c
    \<and> c_peer_addr c' = c_peer_addr c"

lemma same_env_refl [simp]: "same_env c c"
  by (simp add: same_env_def)

lemma same_env_trans: "same_env a b \<Longrightarrow> same_env b c \<Longrightarrow> same_env a c"
  by (simp add: same_env_def)

lemma same_env_updates [simp]:
  "same_env c (send_frame f c') = same_env c c'"
  "same_env c (set_stream sid g c') = same_env c c'"
  "same_env c (c'\<lparr>c_hpack_decoder := dec\<rparr>) = same_env c c'"
  "same_env c (c'\<lparr>c_tasks := ts\<rparr>) = same_env c c'"
  "same_env c (c'\<lparr>c_peer_settings := ps\<rparr>) = same_env c c'"
  "same_env c (c'\<lparr>c_peer_acked_settings := pa\<rparr>) = same_env c c'"
  "same_env c (c'\<lparr>c_streams := ss\<rparr>) = same_env c c'"
  "same_env c (c'\<lparr>c_conn_send_window := w\<rparr>) = same_env c c'"
  "same_env c (c'\<lparr>c_conn_recv_window := w\<rparr>) = same_env c c'"
  "same_env c (c'\<lparr>c_last_stream_id := k\<rparr>) = same_env c c'"
  "same_env c (c'\<lparr>c_open_stream_count := n\<rparr>) = same_env c c'"
  "same_env c (c'\<lparr>c_going_away := b\<rparr>) = same_env c c'"
  "same_env c (c'\<lparr>c_hpack_encoder := en\<rparr>) = same_env c c'"
  "same_env c (retire_closed_streams c') = same_env c c'"
  by (simp_all add: same_env_def send_frame_def set_stream_def retire_closed_streams_def Let_def)

lemma try_dispatch_env: "same_env c c' \<Longrightarrow> same_env c (fst (try_dispatch sid c'))"
  by (simp add: try_dispatch_def Let_def split: option.split sum.split)

lemma finish_header_block_env: "same_env c c' \<Longrightarrow> same_env c (fst (finish_header_block sid c'))"
  by (simp add: finish_header_block_def Let_def try_dispatch_env split: option.split sum.split prod.split)

lemma headers_on_stream_env:
  "same_env c c' \<Longrightarrow> same_env c (fst (headers_on_stream sid block es eh c'))"
  by (simp add: headers_on_stream_def Let_def finish_header_block_env split: option.split sum.split)

lemma on_headers_env: "same_env c (fst (on_headers sid block es eh c))"
  by (simp add: on_headers_def Let_def headers_on_stream_env)

lemma on_continuation_env: "same_env c (fst (on_continuation sid block eh c))"
  by (simp add: on_continuation_def Let_def finish_header_block_env split: option.split)

lemma on_data_env: "same_env c (fst (on_data sid content es c))"
  by (simp add: on_data_def Let_def try_dispatch_env split: option.split sum.split)

lemma on_settings_env: "same_env c (fst (on_settings ack params c))"
  by (simp add: on_settings_def Let_def split: option.split sum.split prod.split)

lemma on_window_update_env: "same_env c (fst (on_window_update sid inc c))"
  by (simp add: on_window_update_def Let_def split: option.split)

lemma dispatch_frame_env: "same_env c (fst (dispatch_frame f c))"
  by (cases f)
    (simp_all add: dispatch_frame_def on_headers_env on_continuation_env on_data_env on_settings_env
      on_window_update_env on_ping_def on_rst_stream_def)

lemma dispatch_frame_inbuf: "dispatch_frame f c = (c', r) \<Longrightarrow> c_inbuf c' = c_inbuf c"
  using dispatch_frame_env [of c f] by (simp add: same_env_def)

section \<open>The driver\<close>

text \<open>
  \<open>read_preface\<close> with the results of the reads: an empty chunk, or no more chunks, is the end of
  the stream. The result is the buffer after the preface.
\<close>

fun read_preface :: "bytes list \<Rightarrow> bytes \<Rightarrow> Error + bytes" where
  "read_preface reads inbuf =
    (if length inbuf < length PREFACE then
       (case reads of
          [] \<Rightarrow> Err (Protocol ''connection closed during HTTP/2 preface'')
        | chunk # reads' \<Rightarrow>
            if chunk = [] then Err (Protocol ''connection closed during HTTP/2 preface'')
            else read_preface reads' (inbuf @ chunk))
     else if take (length PREFACE) inbuf \<noteq> PREFACE then
       Err (Protocol ''malformed HTTP/2 connection preface'')
     else Ok (drop (length PREFACE) inbuf))"

declare read_preface.simps [simp del]

text \<open>The connection after the preface: the server's settings are the first frame it writes.\<close>

definition conn_start :: "string \<Rightarrow> bytes \<Rightarrow> Http2Connection" where
  "conn_start peer_addr inbuf =
    (let c = (conn_new peer_addr)\<lparr>c_inbuf := inbuf\<rparr> in
     send_frame (Settings False (as_params (c_local_settings c))) c)"

function process_buffered_frames :: "unit handler" where
  "process_buffered_frames c =
    (case frame_parse (c_inbuf c) (st_max_frame_size (c_local_settings c)) of
       Inl e \<Rightarrow> (c, Err (connection_error PROTOCOL_ERROR (''frame parse: '' @ error_str e)))
     | Inr None \<Rightarrow> (c, Ok ())
     | Inr (Some (frame, consumed)) \<Rightarrow>
         (case dispatch_frame frame (c\<lparr>c_inbuf := drop consumed (c_inbuf c)\<rparr>) of
            (c', Inl e) \<Rightarrow> (c', Err e)
          | (c', Inr _) \<Rightarrow> process_buffered_frames c'))"
  by pat_completeness auto
termination
  by (relation "measure (\<lambda>c. length (c_inbuf c))")
    (auto dest!: dispatch_frame_inbuf [OF sym] frames_inc.used)

declare process_buffered_frames.simps [simp del]

definition flow_frame :: "Frame \<Rightarrow> bool" where
  "flow_frame f \<longleftrightarrow>
    (case f of WindowUpdate _ _ \<Rightarrow> True | Settings _ _ \<Rightarrow> True | Ping _ _ \<Rightarrow> True | RstStream _ _ \<Rightarrow> True
     | _ \<Rightarrow> False)"

text \<open>The loop of \<open>read_more_for_flow_control\<close>, and the whole of it for a chunk that was read.\<close>

function pump_loop :: "Http2Connection \<Rightarrow> Http2Connection" where
  "pump_loop c =
    (case frame_parse (c_inbuf c) (st_max_frame_size (c_local_settings c)) of
       Inl _ \<Rightarrow> c
     | Inr None \<Rightarrow> c
     | Inr (Some (frame, consumed)) \<Rightarrow>
         if flow_frame frame then
           (case dispatch_frame frame (c\<lparr>c_inbuf := drop consumed (c_inbuf c)\<rparr>) of
              (c', Inl _) \<Rightarrow> c'
            | (c', Inr _) \<Rightarrow> pump_loop c')
         else c)"
  by pat_completeness auto
termination
  by (relation "measure (\<lambda>c. length (c_inbuf c))")
    (auto dest!: dispatch_frame_inbuf [OF sym] frames_inc.used)

declare pump_loop.simps [simp del]

definition read_more_for_flow_control :: "bytes \<Rightarrow> Http2Connection \<Rightarrow> Http2Connection" where
  "read_more_for_flow_control chunk c = pump_loop (c\<lparr>c_inbuf := c_inbuf c @ chunk\<rparr>)"

text \<open>
  \<open>write_body\<close>: \<open>send_credit\<close> is the stream's window, \<open>data_budget\<close> the size of the next frame and
  \<open>send_chunk\<close> the part of an iteration that sends it; \<open>body\<close> is what is left to send and \<open>reads\<close> what the socket will deliver. \<open>None\<close> is the
  loop that makes no progress (\<open>budget == 0\<close>, possible only with a maximum frame size of 0).
\<close>

definition send_credit :: "u32 \<Rightarrow> Http2Connection \<Rightarrow> int" where
  "send_credit sid c = (case stream_of sid c of Some s \<Rightarrow> s_send_window s | None \<Rightarrow> 0)"

definition data_budget :: "nat \<Rightarrow> u32 \<Rightarrow> bytes \<Rightarrow> Http2Connection \<Rightarrow> nat" where
  "data_budget max_frame sid body c =
    min (min (min (length body) max_frame) (nat (max (send_credit sid c) 0))) (nat (max (c_conn_send_window c) 0))"

definition send_chunk :: "u32 \<Rightarrow> bytes \<Rightarrow> nat \<Rightarrow> Http2Connection \<Rightarrow> Http2Connection" where
  "send_chunk sid body budget c =
    (let c1 = c\<lparr>c_conn_send_window := c_conn_send_window c - int budget\<rparr>;
         c2 = set_stream sid (\<lambda>s. s\<lparr>s_send_window := s_send_window s - int budget\<rparr>) c1 in
     send_frame (Data sid (take budget body) (length body \<le> budget)) c2)"

function write_body :: "nat \<Rightarrow> u32 \<Rightarrow> bytes \<Rightarrow> bytes list \<Rightarrow> Http2Connection
    \<Rightarrow> (Http2Connection \<times> bytes list) option" where
  "write_body max_frame sid body reads c =
    (if body = [] then Some (c, reads)
     else if send_credit sid c \<le> 0 \<or> c_conn_send_window c \<le> 0 then
       (case reads of
          [] \<Rightarrow> Some (c, [])
        | chunk # reads' \<Rightarrow>
            if chunk = [] then Some (c, reads')
            else write_body max_frame sid body reads' (read_more_for_flow_control chunk c))
     else if data_budget max_frame sid body c = 0 then None
     else
       write_body max_frame sid (drop (data_budget max_frame sid body c) body) reads
         (send_chunk sid body (data_budget max_frame sid body c) c))"
  by pat_completeness auto
termination
  by (relation "measures [\<lambda>(m, sid, body, reads, c). length reads, \<lambda>(m, sid, body, reads, c). length body]")
    simp_all

declare write_body.simps [simp del]

definition response_fields :: "Response \<Rightarrow> (string \<times> string) list" where
  "response_fields response =
    ('':status'', dec_str (unat (rs_status response)))
    # filter (\<lambda>(k, v). \<not> connection_specific k)
        (map (\<lambda>(k, v). (to_ascii_lowercase k, v)) (rs_headers response))"

definition write_response :: "u32 \<Rightarrow> Response \<Rightarrow> bytes list \<Rightarrow> Http2Connection
    \<Rightarrow> (Http2Connection \<times> bytes list) option" where
  "write_response sid response reads c =
    (if stream_of sid c = None then Some (c, reads)
     else
       (case encode (response_fields response) (c_hpack_encoder c) of
          None \<Rightarrow> None
        | Some (enc, block) \<Rightarrow>
            let body = rs_body response;
                c1 = send_frame (Headers sid block (body = []) True None) (c\<lparr>c_hpack_encoder := enc\<rparr>) in
            (case write_body (unat (st_max_frame_size (c_peer_settings c1))) sid body reads c1 of
               None \<Rightarrow> None
             | Some (c2, reads') \<Rightarrow>
                 Some (retire_closed_streams
                   (set_stream sid (\<lambda>s. s\<lparr>s_state := on_send_end_stream (s_state s)\<rparr>) c2), reads'))))"

text \<open>
  One pass of the main loop over the buffer: the buffered frames are processed, with the error
  handler after a failure. The loop ends when it is going away and no stream is left; after an
  error that sent \<open>GOAWAY\<close> it starts the next pass without waiting for input.
\<close>

definition driver_round :: "Http2Connection \<Rightarrow> Http2Connection" where
  "driver_round c =
    (case process_buffered_frames c of
       (c', Inl e) \<Rightarrow> handle_protocol_error e c'
     | (c', Inr _) \<Rightarrow> c')"

definition loop_done :: "Http2Connection \<Rightarrow> bool" where
  "loop_done c \<longleftrightarrow> c_going_away c \<and> c_streams c = []"

text \<open>
  The driver as a step relation: bytes arrive; the loop makes a pass; an adapter's task finishes
  and its response is written.
\<close>

inductive conn_step :: "Http2Connection \<Rightarrow> Http2Connection \<Rightarrow> bool" where
  receive: "conn_step c (c\<lparr>c_inbuf := c_inbuf c @ chunk\<rparr>)"
| round: "conn_step c (driver_round c)"
| respond: "c_tasks c = ts @ (sid, request) # ts' \<Longrightarrow>
    write_response sid response reads (c\<lparr>c_tasks := ts @ ts'\<rparr>) = Some (c', reads') \<Longrightarrow> conn_step c c'"

inductive reachable :: "Http2Connection \<Rightarrow> bool" where
  start: "reachable (conn_start peer_addr inbuf)"
| step: "reachable c \<Longrightarrow> conn_step c c' \<Longrightarrow> reachable c'"

end
