(* ===== verification/Http2ConnInv.thy ===== *)
theory Http2ConnInv
  imports Http2Conn
begin

text \<open>
  What holds of every state the HTTP/2 driver reaches, whatever the peer sends and whenever the
  adapter answers: stream accounting, stream identifiers, header-block framing, receive windows,
  HPACK state, and the requests handed to the adapter.
\<close>

section \<open>Invariants of the driver\<close>

text \<open>
  The contract under which a predicate holds in every state the driver reaches: the loops that take
  frames from the buffer, the loop that writes a body and the main loop only compose these steps.
\<close>

locale driver_invariant =
  fixes I :: "Http2Connection \<Rightarrow> bool"
  assumes inbuf: "I c \<Longrightarrow> I (c\<lparr>c_inbuf := buf\<rparr>)"
    and dispatch: "I c \<Longrightarrow> I (fst (dispatch_frame f c))"
    and handle_error: "I c \<Longrightarrow> I (handle_protocol_error e c)"
    and chunk: "I c \<Longrightarrow> I (send_chunk sid body n c)"
    and headers: "I c \<Longrightarrow> encode hs (c_hpack_encoder c) = Some (enc, block) \<Longrightarrow>
      I (send_frame f (c\<lparr>c_hpack_encoder := enc\<rparr>))"
    and end_stream: "I c \<Longrightarrow>
      I (retire_closed_streams (set_stream sid (\<lambda>s. s\<lparr>s_state := on_send_end_stream (s_state s)\<rparr>) c))"
    and task_done: "I c \<Longrightarrow> c_tasks c = ts @ t # ts' \<Longrightarrow> I (c\<lparr>c_tasks := ts @ ts'\<rparr>)"
    and initial: "I (conn_start peer_addr buf)"
begin

lemma drained: "I c \<Longrightarrow> dispatch_frame f (c\<lparr>c_inbuf := buf\<rparr>) = (c', r) \<Longrightarrow> I c'"
  using dispatch [OF inbuf, of c f buf] by simp

lemma process_buffered_frames: "I c \<Longrightarrow> I (fst (process_buffered_frames c))"
proof (induction c rule: process_buffered_frames.induct)
  case (1 c)
  show ?case
  proof (cases "\<exists>f n. frame_parse (c_inbuf c) (st_max_frame_size (c_local_settings c)) = Ok (Some (f, n))")
    case False
    then show ?thesis
      using 1(2) by (subst process_buffered_frames.simps) (auto split: sum.split option.split)
  next
    case True
    then obtain f n where f: "frame_parse (c_inbuf c) (st_max_frame_size (c_local_settings c)) = Ok (Some (f, n))"
      by blast
    obtain c' r where d: "dispatch_frame f (c\<lparr>c_inbuf := drop n (c_inbuf c)\<rparr>) = (c', r)" by fastforce
    have "I c'" using 1(2) d by (rule drained)
    then show ?thesis
      using 1(1) [OF f refl refl d [symmetric]] f d
      by (subst process_buffered_frames.simps) (auto split: sum.split)
  qed
qed

lemma pump_loop: "I c \<Longrightarrow> I (pump_loop c)"
proof (induction c rule: pump_loop.induct)
  case (1 c)
  show ?case
  proof (cases "\<exists>f n. frame_parse (c_inbuf c) (st_max_frame_size (c_local_settings c)) = Ok (Some (f, n)) \<and> flow_frame f")
    case False
    then show ?thesis
      using 1(2) by (subst pump_loop.simps) (auto split: sum.split option.split)
  next
    case True
    then obtain f n where f: "frame_parse (c_inbuf c) (st_max_frame_size (c_local_settings c)) = Ok (Some (f, n))"
      and flow: "flow_frame f" by blast
    obtain c' r where d: "dispatch_frame f (c\<lparr>c_inbuf := drop n (c_inbuf c)\<rparr>) = (c', r)" by fastforce
    have "I c'" using 1(2) d by (rule drained)
    then show ?thesis
      using 1(1) [OF f refl refl flow d [symmetric]] f d flow
      by (subst pump_loop.simps) (auto split: sum.split)
  qed
qed

lemma write_body:
  "I c \<Longrightarrow> write_body m sid body reads c = Some (c', reads') \<Longrightarrow> I c'"
proof (induction m sid body reads c rule: write_body.induct)
  case (1 m sid body reads c)
  let ?blocked = "send_credit sid c \<le> 0 \<or> c_conn_send_window c \<le> 0"
  consider "body = []" | "body \<noteq> []" "?blocked" | "body \<noteq> []" "\<not> ?blocked" by blast
  then show ?case
  proof cases
    case 1
    then show ?thesis using "1.prems" by (simp add: write_body.simps [of m sid "[]"])
  next
    case 2
    show ?thesis
    proof (cases "reads = [] \<or> hd reads = []")
      case True
      then show ?thesis
        using 2 "1.prems" by (auto simp: write_body.simps [of m sid body] split: list.splits)
    next
      case False
      then obtain chunk rs where rs: "reads = chunk # rs" "chunk \<noteq> []" by (cases reads) auto
      have "I (read_more_for_flow_control chunk c)"
        using "1.prems"(1) by (simp add: read_more_for_flow_control_def inbuf pump_loop)
      then show ?thesis
        using "1.IH"(1) [OF 2(1,2) rs] 2 rs "1.prems"(2) by (simp add: write_body.simps [of m sid body])
    qed
  next
    case 3
    show ?thesis
      using 3 "1.IH"(2) [OF 3] "1.prems" chunk
      by (cases "data_budget m sid body c = 0") (simp_all add: write_body.simps [of m sid body])
  qed
qed

lemma write_response:
  assumes inv: "I c" and w: "write_response sid rs reads c = Some (c', reads')"
  shows "I c'"
proof (cases "stream_of sid c = None")
  case True
  then show ?thesis using w inv by (simp add: write_response_def)
next
  case False
  obtain enc block where e: "encode (response_fields rs) (c_hpack_encoder c) = Some (enc, block)"
    using w False by (auto simp: write_response_def split: option.splits)
  define c1 where "c1 = send_frame (Headers sid block (rs_body rs = []) True None) (c\<lparr>c_hpack_encoder := enc\<rparr>)"
  obtain c2 where c2: "write_body (unat (st_max_frame_size (c_peer_settings c1))) sid (rs_body rs) reads c1 = Some (c2, reads')"
    and c': "c' = retire_closed_streams (set_stream sid (\<lambda>s. s\<lparr>s_state := on_send_end_stream (s_state s)\<rparr>) c2)"
    using w False e by (auto simp: write_response_def Let_def simp flip: c1_def split: option.splits)
  have "I c1" unfolding c1_def using inv e by (rule headers)
  then have "I c2" using c2 by (rule write_body)
  then show ?thesis unfolding c' by (rule end_stream)
qed

lemma step: "conn_step c c' \<Longrightarrow> I c \<Longrightarrow> I c'"
proof (induction rule: conn_step.induct)
  case (receive c chunk)
  then show ?case by (rule inbuf)
next
  case (round c)
  then show ?case
    using process_buffered_frames [of c] by (auto simp: driver_round_def handle_error split: prod.split sum.split)
next
  case (respond c ts sid rq ts' rs reads c' reads')
  then show ?case using write_response [OF task_done respond(2)] by blast
qed

lemma reachable: "reachable c \<Longrightarrow> I c"
  by (induction rule: reachable.induct) (auto intro: initial step)

end

section \<open>The connection invariant\<close>

definition settings_ok :: "Http2Settings \<Rightarrow> bool" where
  "settings_ok s \<longleftrightarrow> uint (st_initial_window_size s) \<le> MAX_WINDOW
    \<and> 16384 \<le> st_max_frame_size s \<and> st_max_frame_size s \<le> 16777215"

definition stream_inv :: "u32 \<Rightarrow> u32 \<times> Stream \<Rightarrow> bool" where
  "stream_inv last_id = (\<lambda>(k, s). s_id s = k \<and> odd (unat k) \<and> k \<le> last_id
    \<and> 0 \<le> s_recv_window s \<and> s_recv_window s \<le> 65535)"

definition one_awaiting :: "streams \<Rightarrow> bool" where
  "one_awaiting ss \<longleftrightarrow> (\<forall>(k, s) \<in> set ss. \<forall>(k', s') \<in> set ss.
    s_awaiting_continuation s \<longrightarrow> s_awaiting_continuation s' \<longrightarrow> k = k')"

definition none_awaiting :: "streams \<Rightarrow> bool" where
  "none_awaiting ss \<longleftrightarrow> (\<forall>(k, s) \<in> set ss. \<not> s_awaiting_continuation s)"

definition streams_inv :: "u32 \<Rightarrow> streams \<Rightarrow> bool" where
  "streams_inv last_id ss \<longleftrightarrow> distinct (map fst ss) \<and> list_all (stream_inv last_id) ss \<and> one_awaiting ss"

definition conn_inv :: "Http2Connection \<Rightarrow> bool" where
  "conn_inv c \<longleftrightarrow> streams_inv (c_last_stream_id c) (c_streams c)
    \<and> unat (c_open_stream_count c) = length (c_streams c) \<and> length (c_streams c) \<le> 128
    \<and> c_local_settings c = settings_default \<and> settings_ok (c_peer_settings c)
    \<and> 0 \<le> c_conn_recv_window c \<and> c_conn_recv_window c \<le> 65535
    \<and> decoder_inv (c_hpack_decoder c) \<and> dt_inv (enc_dynamic (c_hpack_encoder c))"

lemma conn_inv_updates [simp]:
  "conn_inv (send_frame f c) = conn_inv c"
  "conn_inv (c\<lparr>c_inbuf := buf\<rparr>) = conn_inv c"
  "conn_inv (c\<lparr>c_tasks := ts\<rparr>) = conn_inv c"
  "conn_inv (c\<lparr>c_peer_acked_settings := pa\<rparr>) = conn_inv c"
  "conn_inv (c\<lparr>c_conn_send_window := w\<rparr>) = conn_inv c"
  "conn_inv (c\<lparr>c_going_away := b\<rparr>) = conn_inv c"
  by (simp_all add: conn_inv_def send_frame_def)

lemma set_stream_fields [simp]:
  "c_streams (set_stream sid f c) = upd_stream sid f (c_streams c)"
  "c_hpack_decoder (set_stream sid f c) = c_hpack_decoder c"
  "c_conn_recv_window (set_stream sid f c) = c_conn_recv_window c"
  "c_conn_send_window (set_stream sid f c) = c_conn_send_window c"
  "c_tasks (set_stream sid f c) = c_tasks c"
  "c_last_stream_id (set_stream sid f c) = c_last_stream_id c"
  "c_out (set_stream sid f c) = c_out c"
  "c_peer_settings (set_stream sid f c) = c_peer_settings c"
  "c_inbuf (set_stream sid f c) = c_inbuf c"
  by (simp_all add: set_stream_def)

lemma map_fst_upd_stream [simp]: "map fst (upd_stream sid f ss) = map fst ss"
  by (induction ss) (auto simp: upd_stream_def)

lemma length_upd_stream [simp]: "length (upd_stream sid f ss) = length ss"
  by (simp add: upd_stream_def)

lemma set_upd_stream:
  "(k, s) \<in> set (upd_stream sid f ss) \<longleftrightarrow>
    (k \<noteq> sid \<and> (k, s) \<in> set ss) \<or> (k = sid \<and> (\<exists>s0. (sid, s0) \<in> set ss \<and> s = f s0))"
  by (induction ss) (auto simp: upd_stream_def split: if_splits)

lemma upd_stream_upd_stream [simp]: "upd_stream sid g (upd_stream sid f ss) = upd_stream sid (\<lambda>s. g (f s)) ss"
  by (simp add: upd_stream_def comp_def case_prod_beta)

lemma set_stream_set_stream: "set_stream sid g (set_stream sid f c) = set_stream sid (\<lambda>s. g (f s)) c"
  by (simp add: set_stream_def)

lemma map_of_upd_stream:
  "map_of (upd_stream sid f ss) k = (if k = sid then map_option f (map_of ss sid) else map_of ss k)"
  by (induction ss) (auto simp: upd_stream_def)

lemma stream_of_set_stream [simp]:
  "stream_of k (set_stream sid f c) = (if k = sid then map_option f (stream_of sid c) else stream_of k c)"
  by (simp add: stream_of_def map_of_upd_stream)

lemma streams_inv_upd:
  assumes "streams_inv l ss"
    and "\<And>s. (sid, s) \<in> set ss \<Longrightarrow> s_id (f s) = s_id s \<and> 0 \<le> s_recv_window (f s) \<and> s_recv_window (f s) \<le> 65535"
    and "(\<forall>s. (sid, s) \<in> set ss \<longrightarrow> s_awaiting_continuation (f s) \<longrightarrow> s_awaiting_continuation s) \<or> none_awaiting ss"
  shows "streams_inv l (upd_stream sid f ss)"
proof -
  have "list_all (stream_inv l) (upd_stream sid f ss)"
    using assms(1,2) by (fastforce simp: streams_inv_def list_all_iff stream_inv_def set_upd_stream)
  moreover have "one_awaiting (upd_stream sid f ss)"
    using assms(1,3) unfolding streams_inv_def one_awaiting_def none_awaiting_def
    by (fastforce simp: set_upd_stream)
  ultimately show ?thesis using assms(1) by (simp add: streams_inv_def)
qed

lemma conn_inv_set_stream:
  assumes "conn_inv c"
    and "\<And>s. stream_inv (c_last_stream_id c) (sid, s) \<Longrightarrow>
      s_id (f s) = s_id s \<and> 0 \<le> s_recv_window (f s) \<and> s_recv_window (f s) \<le> 65535"
    and "(\<forall>s. s_awaiting_continuation (f s) \<longrightarrow> s_awaiting_continuation s) \<or> none_awaiting (c_streams c)"
  shows "conn_inv (set_stream sid f c)"
proof -
  have "streams_inv (c_last_stream_id c) (upd_stream sid f (c_streams c))"
    using assms by (intro streams_inv_upd) (auto simp: conn_inv_def streams_inv_def list_all_iff)
  then show ?thesis using assms(1) by (simp add: conn_inv_def set_stream_def)
qed

lemma stream_of_inv:
  "conn_inv c \<Longrightarrow> stream_of sid c = Some s \<Longrightarrow> stream_inv (c_last_stream_id c) (sid, s)"
  by (auto simp: conn_inv_def streams_inv_def list_all_iff stream_of_def dest!: map_of_SomeD)

lemma streams_inv_filter: "streams_inv l ss \<Longrightarrow> streams_inv l (filter P ss)"
  by (auto simp: streams_inv_def list_all_iff one_awaiting_def distinct_map_filter)

lemma count_sub:
  assumes "unat (n :: u32) = a" "b \<le> a" "a \<le> 128"
  shows "\<not> n < of_nat (a - b)" "unat (n - of_nat (a - b)) = b"
proof -
  define m where "m = a - b"
  have "m \<le> 128" using assms by (simp add: m_def)
  then have m: "unat (of_nat m :: u32) = m" by (simp add: unat_of_nat)
  then show "\<not> n < of_nat (a - b)"
    unfolding m_def [symmetric] word_less_nat_alt using assms(1) by (simp add: m_def)
  have "(of_nat m :: u32) \<le> n" unfolding word_le_nat_alt using m assms(1) by (simp add: m_def)
  then have "unat (n - of_nat m) = unat n - unat (of_nat m :: u32)" by (rule unat_sub)
  then show "unat (n - of_nat (a - b)) = b"
    unfolding m_def [symmetric] m using assms by (simp add: m_def)
qed

lemma retire_fields [simp]:
  "c_streams (retire_closed_streams c) = filter (\<lambda>(k, s). s_state s \<noteq> Closed) (c_streams c)"
  "c_last_stream_id (retire_closed_streams c) = c_last_stream_id c"
  "c_local_settings (retire_closed_streams c) = c_local_settings c"
  "c_peer_settings (retire_closed_streams c) = c_peer_settings c"
  "c_conn_recv_window (retire_closed_streams c) = c_conn_recv_window c"
  "c_conn_send_window (retire_closed_streams c) = c_conn_send_window c"
  "c_hpack_decoder (retire_closed_streams c) = c_hpack_decoder c"
  "c_hpack_encoder (retire_closed_streams c) = c_hpack_encoder c"
  "c_out (retire_closed_streams c) = c_out c"
  "c_tasks (retire_closed_streams c) = c_tasks c"
  "c_inbuf (retire_closed_streams c) = c_inbuf c"
  "c_going_away (retire_closed_streams c) = c_going_away c"
  by (simp_all add: retire_closed_streams_def Let_def)

lemma retire_count:
  assumes "unat (c_open_stream_count c) = length (c_streams c)" "length (c_streams c) \<le> 128"
  shows "unat (c_open_stream_count (retire_closed_streams c)) = length (c_streams (retire_closed_streams c))"
proof -
  have le: "length (filter (\<lambda>(k, s). s_state s \<noteq> Closed) (c_streams c)) \<le> length (c_streams c)" by simp
  note cnt = count_sub [OF assms(1) le assms(2)]
  have "c_open_stream_count (retire_closed_streams c) = c_open_stream_count c
      - of_nat (length (c_streams c) - length (filter (\<lambda>(k, s). s_state s \<noteq> Closed) (c_streams c)))"
    unfolding retire_closed_streams_def Let_def using cnt(1) by (simp del: of_nat_diff)
  then show ?thesis using cnt(2) by (simp del: of_nat_diff)
qed

lemma conn_inv_retire [simp]:
  assumes inv: "conn_inv c" shows "conn_inv (retire_closed_streams c)"
proof -
  have cnt: "unat (c_open_stream_count c) = length (c_streams c)" "length (c_streams c) \<le> 128"
    using inv by (auto simp: conn_inv_def)
  note retire_count [OF this]
  moreover have "length (filter (\<lambda>(k, s). s_state s \<noteq> Closed) (c_streams c)) \<le> 128"
    by (rule le_trans [OF length_filter_le cnt(2)])
  ultimately show ?thesis
    using inv by (simp add: conn_inv_def streams_inv_filter)
qed

lemma conn_inv_decoder:
  assumes "conn_inv c" "decode block (c_hpack_decoder c) = (dec, r)"
  shows "conn_inv (c\<lparr>c_hpack_decoder := dec\<rparr>)"
  using assms decode_loop_safe [of "c_hpack_decoder c" "[]" 0 block True dec r]
  by (simp add: conn_inv_def decode_def decoder_frame_def)

lemma try_dispatch_inv: "conn_inv c \<Longrightarrow> conn_inv (fst (try_dispatch sid c))"
  using conn_inv_set_stream [of c sid "\<lambda>s. s\<lparr>s_dispatched := True, s_body := []\<rparr>"]
  by (simp add: try_dispatch_def Let_def stream_inv_def split: option.split sum.split)

lemma finish_header_block_inv:
  assumes "conn_inv c" shows "conn_inv (fst (finish_header_block sid c))"
proof (cases "stream_of sid c")
  case None
  then show ?thesis using assms by (simp add: finish_header_block_def)
next
  case (Some s)
  define c1 where "c1 = set_stream sid (\<lambda>s. s\<lparr>s_header_block := []\<rparr>) c"
  obtain dec r where dec: "decode (s_header_block s) (c_hpack_decoder c1) = (dec, r)" by fastforce
  have "conn_inv c1" unfolding c1_def using assms by (intro conn_inv_set_stream) (auto simp: stream_inv_def)
  then have c2: "conn_inv (c1\<lparr>c_hpack_decoder := dec\<rparr>)" using dec by (rule conn_inv_decoder)
  show ?thesis
  proof (cases r)
    case (Inl e)
    then show ?thesis using Some dec c2 by (simp add: finish_header_block_def Let_def flip: c1_def)
  next
    case (Inr decoded)
    define c3 where "c3 = set_stream sid (\<lambda>s. if s_headers_decoded s then s\<lparr>s_headers := s_headers s @ decoded\<rparr>
                    else s\<lparr>s_headers := decoded, s_headers_decoded := True\<rparr>) (c1\<lparr>c_hpack_decoder := dec\<rparr>)"
    have "conn_inv c3" unfolding c3_def using c2 by (intro conn_inv_set_stream) (auto simp: stream_inv_def)
    then have "conn_inv (fst (try_dispatch sid c3))" by (rule try_dispatch_inv)
    then show ?thesis
      using Some dec Inr \<open>conn_inv c3\<close> by (simp add: finish_header_block_def Let_def flip: c1_def c3_def)
  qed
qed

lemma headers_on_stream_inv:
  assumes "conn_inv c" "none_awaiting (c_streams c)"
  shows "conn_inv (fst (headers_on_stream sid block es eh c))"
proof (cases "stream_of sid c")
  case None
  then show ?thesis using assms by (simp add: headers_on_stream_def)
next
  case (Some s)
  have "conn_inv (set_stream sid (\<lambda>s. s\<lparr>s_state := st, s_headers_end_stream := es,
      s_header_block := s_header_block s @ block, s_awaiting_continuation := \<not> eh\<rparr>) c)" for st
    using assms by (intro conn_inv_set_stream) (auto simp: stream_inv_def)
  then show ?thesis
    using Some assms(1)
    by (auto simp: headers_on_stream_def Let_def intro!: finish_header_block_inv split: sum.split)
qed

lemma on_headers_inv:
  assumes inv: "conn_inv c" and aw: "none_awaiting (c_streams c)"
  shows "conn_inv (fst (on_headers sid block es eh c))"
proof (cases "sid = 0 \<or> sid mod 2 = 0 \<or> stream_of sid c \<noteq> None \<or> sid \<le> c_last_stream_id c")
  case True
  then consider "sid = 0 \<or> sid mod 2 = 0" | "\<not> (sid = 0 \<or> sid mod 2 = 0)" "stream_of sid c \<noteq> None"
    | "\<not> (sid = 0 \<or> sid mod 2 = 0)" "stream_of sid c = None" "sid \<le> c_last_stream_id c" by blast
  then show ?thesis
  proof cases
    case 1
    then show ?thesis unfolding on_headers_def by (simp only: if_True fst_conv inv)
  next
    case 2
    then show ?thesis
      unfolding on_headers_def by (simp only: if_False headers_on_stream_inv [OF inv aw])
  next
    case 3
    then show ?thesis unfolding on_headers_def by (simp only: if_False if_True fst_conv inv simp_thms)
  qed
next
  case False
  let ?c1 = "c\<lparr>c_last_stream_id := sid\<rparr>"
  have new: "stream_of sid c = None" "c_last_stream_id c < sid" and odd: "odd (unat sid)"
  proof -
    show "stream_of sid c = None" "c_last_stream_id c < sid" using False by auto
    have "sid mod 2 \<noteq> 0" using False by (simp only: de_Morgan_disj simp_thms)
    then have "unat (sid mod 2) \<noteq> 0" by (simp add: unat_eq_0)
    then show "odd (unat sid)" by (simp add: unat_mod odd_iff_mod_2_eq_one)
  qed
  have ss: "streams_inv sid (c_streams c)"
    using inv new(2) by (auto simp: conn_inv_def streams_inv_def list_all_iff stream_inv_def)
  then have c1: "conn_inv ?c1" using inv by (simp add: conn_inv_def)
  show ?thesis
  proof (cases "st_max_concurrent_streams (c_local_settings c) \<le> c_open_stream_count c")
    case True
    then show ?thesis using False c1 by (simp add: on_headers_def Let_def)
  next
    case free: False
    let ?s = "stream_new sid (st_initial_window_size (c_local_settings c)) (st_initial_window_size (c_peer_settings c))"
    let ?c2 = "?c1\<lparr>c_streams := (sid, ?s) # c_streams c, c_open_stream_count := c_open_stream_count c + 1\<rparr>"
    have cnt: "unat (c_open_stream_count c) < 128"
      using free inv by (simp add: conn_inv_def settings_default_def word_le_nat_alt)
    then have suc: "unat (c_open_stream_count c + 1) = Suc (unat (c_open_stream_count c))"
      by (simp add: unat_word_ariths)
    have fresh: "sid \<notin> fst ` set (c_streams c)"
      using new(1) by (auto simp: stream_of_def map_of_eq_None_iff)
    have "streams_inv sid ((sid, ?s) # c_streams c)"
      using ss fresh odd inv aw
      by (auto simp: streams_inv_def stream_inv_def stream_new_def one_awaiting_def none_awaiting_def
          conn_inv_def settings_default_def)
    then have "conn_inv ?c2"
      using inv cnt suc by (simp add: conn_inv_def)
    moreover have "none_awaiting (c_streams ?c2)"
      using aw by (auto simp: none_awaiting_def stream_new_def)
    ultimately have "conn_inv (fst (headers_on_stream sid block es eh ?c2))" by (rule headers_on_stream_inv)
    then show ?thesis using False free by (simp add: on_headers_def Let_def)
  qed
qed

lemma on_continuation_inv:
  assumes "conn_inv c" shows "conn_inv (fst (on_continuation sid block eh c))"
proof -
  have 1: "conn_inv (set_stream sid (\<lambda>s. s\<lparr>s_header_block := s_header_block s @ block\<rparr>) c)"
    using assms by (intro conn_inv_set_stream) (auto simp: stream_inv_def)
  have "conn_inv (set_stream sid (\<lambda>s. s\<lparr>s_awaiting_continuation := False\<rparr>)
      (set_stream sid (\<lambda>s. s\<lparr>s_header_block := s_header_block s @ block\<rparr>) c))"
    using 1 by (rule conn_inv_set_stream) (auto simp: stream_inv_def)
  then show ?thesis
    using assms 1 by (auto simp: on_continuation_def Let_def intro!: finish_header_block_inv split: option.split)
qed

lemma conn_inv_recv_window:
  "conn_inv c \<Longrightarrow> 0 \<le> w \<Longrightarrow> w \<le> 65535 \<Longrightarrow> conn_inv (c\<lparr>c_conn_recv_window := w\<rparr>)"
  by (simp add: conn_inv_def)

lemma set_stream_recv_window:
  "set_stream sid f (c\<lparr>c_conn_recv_window := w\<rparr>) = (set_stream sid f c)\<lparr>c_conn_recv_window := w\<rparr>"
  by (simp add: set_stream_def)

lemma set_stream_send_frame: "set_stream sid f (send_frame x c) = send_frame x (set_stream sid f c)"
  by (simp add: set_stream_def send_frame_def)

lemma set_stream_same_recv_window:
  "(set_stream sid f c)\<lparr>c_conn_recv_window := c_conn_recv_window c\<rparr> = set_stream sid f c"
  by (simp add: set_stream_def)

lemma send_frame_recv_window:
  "(send_frame x c)\<lparr>c_conn_recv_window := w\<rparr> = send_frame x (c\<lparr>c_conn_recv_window := w\<rparr>)"
  by (simp add: send_frame_def)

text \<open>\<open>on_data\<close> on a stream that accepts the frame: both windows are as before.\<close>

lemma on_data_accept:
  assumes "sid \<noteq> 0" "stream_of sid c = Some s" "int (length content) \<le> c_conn_recv_window c"
    "int (length content) \<le> s_recv_window s" "on_recv_data es (s_state s) = Ok st"
  defines "upd \<equiv> \<lambda>s. s\<lparr>s_state := st, s_body := s_body s @ content\<rparr>"
  defines "upds \<equiv> (if content = [] then [] else
    [WindowUpdate 0 (of_nat (length content)), WindowUpdate sid (of_nat (length content))])"
  defines "c' \<equiv> (set_stream sid upd c)\<lparr>c_out := c_out c @ upds\<rparr>"
  shows "on_data sid content es c = (if es then try_dispatch sid c' else (c', Ok ()))"
proof -
  let ?len = "int (length content)"
  have s: "stream_of sid (c\<lparr>c_conn_recv_window := w\<rparr>) = Some s" for w
    using assms(2) by (simp add: stream_of_def)
  have comp: "(\<lambda>s. (upd (s\<lparr>s_recv_window := s_recv_window s - ?len\<rparr>))\<lparr>s_recv_window :=
      s_recv_window (upd (s\<lparr>s_recv_window := s_recv_window s - ?len\<rparr>)) + ?len\<rparr>) = upd"
    by (simp add: upd_def fun_eq_iff)
  have empty: "(\<lambda>s. upd (s\<lparr>s_recv_window := s_recv_window s - 0\<rparr>)) = upd"
    by (simp add: upd_def fun_eq_iff)
  show ?thesis
  proof (cases "content = []")
    case True
    have "on_data sid content es c = (if es then try_dispatch sid (set_stream sid upd c)
        else (set_stream sid upd c, Ok ()))"
      using assms(1-5) True s by (simp add: on_data_def Let_def set_stream_set_stream upd_def)
    then show ?thesis using True by (simp add: c'_def upds_def set_stream_def)
  next
    case False
    have c': "c' = send_frame (WindowUpdate sid (of_nat (length content)))
        (send_frame (WindowUpdate 0 (of_nat (length content))) (set_stream sid upd c))"
      using False by (simp add: c'_def upds_def send_frame_def set_stream_def)
    show ?thesis
      using assms(1-5) False s
      by (simp add: on_data_def Let_def set_stream_set_stream set_stream_recv_window set_stream_send_frame
          send_frame_recv_window comp [unfolded upd_def] c' upd_def set_stream_same_recv_window)
  qed
qed


lemma on_data_inv:
  assumes inv: "conn_inv c" shows "conn_inv (fst (on_data sid content es c))"
proof -
  let ?len = "int (length content)" and ?c1 = "c\<lparr>c_conn_recv_window := c_conn_recv_window c - int (length content)\<rparr>"
  consider "sid = 0 \<or> c_conn_recv_window c < ?len" | "sid \<noteq> 0" "?len \<le> c_conn_recv_window c" by linarith
  then show ?thesis
  proof cases
    case 1
    then show ?thesis using inv by (auto simp: on_data_def Let_def)
  next
    case 2
    have c1: "conn_inv ?c1"
      using inv 2 by (intro conn_inv_recv_window) (auto simp: conn_inv_def)
    have s1: "stream_of sid ?c1 = stream_of sid c" by (simp add: stream_of_def)
    show ?thesis
    proof (cases "stream_of sid c")
      case None
      then show ?thesis using 2 c1 s1 by (simp add: on_data_def Let_def)
    next
      case (Some s)
      show ?thesis
      proof (cases "s_recv_window s < ?len")
        case True
        then show ?thesis using 2 c1 s1 Some by (simp add: on_data_def Let_def)
      next
        case False
        show ?thesis
        proof (cases "on_recv_data es (s_state s)")
          case (Inl e)
          have eq: "c_streams ?c1 = c_streams c" by simp
          have "streams_inv (c_last_stream_id c)
              (upd_stream sid (\<lambda>s. s\<lparr>s_recv_window := s_recv_window s - ?len\<rparr>) (c_streams c))"
          proof (rule streams_inv_upd)
            show "streams_inv (c_last_stream_id c) (c_streams c)" using inv by (simp add: conn_inv_def)
            fix s' assume s': "(sid, s') \<in> set (c_streams c)"
            then have "s' = s"
              using Some inv map_of_is_SomeI [of "c_streams c" sid s']
              by (simp add: stream_of_def conn_inv_def streams_inv_def)
            then show "s_id (s'\<lparr>s_recv_window := s_recv_window s' - ?len\<rparr>) = s_id s' \<and>
                0 \<le> s_recv_window (s'\<lparr>s_recv_window := s_recv_window s' - ?len\<rparr>) \<and>
                s_recv_window (s'\<lparr>s_recv_window := s_recv_window s' - ?len\<rparr>) \<le> 65535"
              using False stream_of_inv [OF inv Some] by (simp add: stream_inv_def)
          qed simp
          then have "conn_inv (set_stream sid (\<lambda>s. s\<lparr>s_recv_window := s_recv_window s - ?len\<rparr>) ?c1)"
            using c1 by (simp add: conn_inv_def set_stream_def)
          then show ?thesis using 2 s1 Some False Inl by (simp add: on_data_def Let_def)
        next
          case (Inr st)
          have "conn_inv (set_stream sid (\<lambda>s. s\<lparr>s_state := st, s_body := s_body s @ content\<rparr>) c)"
            using inv by (intro conn_inv_set_stream) (auto simp: stream_inv_def)
          then have "conn_inv ((set_stream sid (\<lambda>s. s\<lparr>s_state := st, s_body := s_body s @ content\<rparr>) c)\<lparr>c_out := x\<rparr>)" for x
            by (simp add: conn_inv_def)
          then show ?thesis
            using on_data_accept [OF 2(1) Some 2(2) _ Inr] False try_dispatch_inv by auto
        qed
      qed
    qed
  qed
qed

lemma apply_setting_ok: "settings_ok s \<Longrightarrow> apply_setting k v s = Ok s' \<Longrightarrow> settings_ok s'"
  by (auto simp: apply_setting_def settings_ok_def split: if_splits)

lemma apply_settings_ok: "settings_ok s \<Longrightarrow> settings_ok (fst (apply_settings params s))"
  by (induction params s rule: apply_settings.induct) (auto split: sum.splits dest: apply_setting_ok)

lemma adjust_windows_set:
  "(k, s) \<in> set (fst (adjust_windows d ss)) \<Longrightarrow> \<exists>s0 w. (k, s0) \<in> set ss \<and> s = s0\<lparr>s_send_window := w\<rparr>"
proof (induction d ss rule: adjust_windows.induct)
  case (2 d k' s' ss)
  let ?s = "s'\<lparr>s_send_window := s_send_window s' + d\<rparr>"
  consider "k = k'" "s = ?s" | "(k, s) \<in> set ss"
    | "\<not> MAX_WINDOW < s_send_window ?s" "(k, s) \<in> set (fst (adjust_windows d ss))"
    using 2(2) by (auto simp: Let_def split: if_splits prod.splits)
  then show ?case
  proof cases
    case 1
    then show ?thesis by auto
  next
    case 2
    then have "(k, s) \<in> set ((k', s') # ss) \<and> s = s\<lparr>s_send_window := s_send_window s\<rparr>" by simp
    then show ?thesis by blast
  next
    case 3
    from "2.IH" [OF refl this] show ?thesis by auto
  qed
qed simp

lemma adjust_windows_fst [simp]: "map fst (fst (adjust_windows d ss)) = map fst ss"
  by (induction d ss rule: adjust_windows.induct) (auto simp: Let_def split: prod.splits)

lemma streams_inv_adjust:
  assumes "streams_inv l ss" shows "streams_inv l (fst (adjust_windows d ss))"
proof -
  have "list_all (stream_inv l) (fst (adjust_windows d ss))"
    unfolding list_all_iff
  proof (rule ballI)
    fix x assume x: "x \<in> set (fst (adjust_windows d ss))"
    obtain k s where xs: "x = (k, s)" by fastforce
    obtain s0 w where "(k, s0) \<in> set ss" "s = s0\<lparr>s_send_window := w\<rparr>"
      using adjust_windows_set x xs by blast
    then show "stream_inv l x"
      using assms xs by (auto simp: streams_inv_def list_all_iff stream_inv_def)
  qed
  moreover have "one_awaiting (fst (adjust_windows d ss))"
    unfolding one_awaiting_def
  proof (clarify)
    fix k s k' s'
    assume "(k, s) \<in> set (fst (adjust_windows d ss))" "(k', s') \<in> set (fst (adjust_windows d ss))"
      "s_awaiting_continuation s" "s_awaiting_continuation s'"
    then show "k = k'"
      using adjust_windows_set [of k s d ss] adjust_windows_set [of k' s' d ss] assms
      by (fastforce simp: streams_inv_def one_awaiting_def)
  qed
  ultimately show ?thesis using assms by (simp add: streams_inv_def)
qed

lemma length_adjust_windows [simp]: "length (fst (adjust_windows d ss)) = length ss"
  by (metis adjust_windows_fst length_map)

lemma on_settings_inv: "conn_inv c \<Longrightarrow> conn_inv (fst (on_settings ack params c))"
proof -
  assume inv: "conn_inv c"
  obtain peer r where p: "apply_settings params (c_peer_settings c) = (peer, r)" by fastforce
  have "settings_ok peer" using apply_settings_ok [of "c_peer_settings c" params] inv p by (simp add: conn_inv_def)
  then have c1: "conn_inv (c\<lparr>c_peer_settings := peer\<rparr>)" using inv by (simp add: conn_inv_def)
  have c2: "conn_inv (c\<lparr>c_peer_settings := peer, c_streams := fst (adjust_windows d (c_streams c))\<rparr>)" for d
    using c1 by (simp add: conn_inv_def streams_inv_adjust)
  have c3: "conn_inv (c\<lparr>c_peer_settings := peer, c_streams := c_streams c\<rparr>)"
    using c1 by (simp add: conn_inv_def)
  show ?thesis
    using inv c1 c2 c3 by (auto simp: on_settings_def Let_def p split: sum.split prod.split if_splits)
      (metis fst_conv)+
qed

lemma on_window_update_inv: "conn_inv c \<Longrightarrow> conn_inv (fst (on_window_update sid inc c))"
  using conn_inv_set_stream [of c sid]
  by (auto simp: on_window_update_def Let_def stream_inv_def split: option.split)

lemma on_rst_stream_inv: "conn_inv c \<Longrightarrow> conn_inv (fst (on_rst_stream sid code c))"
  using conn_inv_set_stream [of c sid "\<lambda>s. s\<lparr>s_state := Closed\<rparr>"]
  by (auto simp: on_rst_stream_def stream_inv_def)

lemma continuation_expected_None:
  "continuation_expected_on c = None \<longleftrightarrow> none_awaiting (c_streams c)"
  by (auto simp: continuation_expected_on_def none_awaiting_def find_None_iff)

lemma dispatch_frame_inv:
  assumes inv: "conn_inv c" shows "conn_inv (fst (dispatch_frame f c))"
proof (cases "continuation_expected_on c")
  case None
  then have "none_awaiting (c_streams c)" by (simp add: continuation_expected_None)
  then show ?thesis
    using inv None
    by (cases f) (simp_all add: dispatch_frame_def on_headers_inv on_continuation_inv on_data_inv
        on_settings_inv on_window_update_inv on_rst_stream_inv on_ping_def)
next
  case (Some sid)
  then show ?thesis
    using inv by (cases f) (simp_all add: dispatch_frame_def on_continuation_inv)
qed

lemma send_chunk_inv: "conn_inv c \<Longrightarrow> conn_inv (send_chunk sid body n c)"
  using conn_inv_set_stream [of "c\<lparr>c_conn_send_window := c_conn_send_window c - int n\<rparr>" sid
      "\<lambda>s. s\<lparr>s_send_window := s_send_window s - int n\<rparr>"]
  by (simp add: send_chunk_def Let_def stream_inv_def)

lemma encode_inv:
  assumes "dt_inv (enc_dynamic e)" "encode hs e = Some (e', b)"
  shows "dt_inv (enc_dynamic e')"
proof -
  obtain fs out where "encode_fields fs (enc_dynamic e) = (enc_dynamic e', out)"
    using encode_with_hints_Some [OF assms(2) [unfolded encode_def]] by metis
  from encode_fields_table [OF assms(1) this] show ?thesis by simp
qed

lemma handle_protocol_error_inv: "conn_inv c \<Longrightarrow> conn_inv (handle_protocol_error e c)"
  using conn_inv_set_stream [of "send_frame f c" sid "\<lambda>s. s\<lparr>s_state := Closed\<rparr>" for f sid]
  by (auto simp: handle_protocol_error_def stream_inv_def split: option.split)

lemma conn_start_inv: "conn_inv (conn_start a buf)"
proof -
  have "decoder_inv (decoder_new 4096)" "dt_inv (enc_dynamic (encoder_new 4096))"
    by (simp_all add: decoder_inv_def decoder_new_def encoder_new_def usize_max_def) (simp add: dt_new_def)
  then show ?thesis
    by (simp add: conn_start_def conn_new_def Let_def conn_inv_def streams_inv_def one_awaiting_def
        settings_default_def settings_ok_def MAX_WINDOW_def send_frame_def)
qed

interpretation conn: driver_invariant conn_inv
proof
  fix c sid
  assume c: "conn_inv c"
  show "conn_inv (retire_closed_streams (set_stream sid (\<lambda>s. s\<lparr>s_state := on_send_end_stream (s_state s)\<rparr>) c))"
    using c by (intro conn_inv_retire conn_inv_set_stream) (auto simp: stream_inv_def)
  fix hs enc block f
  assume "encode hs (c_hpack_encoder c) = Some (enc, block)"
  then have "dt_inv (enc_dynamic enc)" using c encode_inv by (auto simp: conn_inv_def)
  then show "conn_inv (send_frame f (c\<lparr>c_hpack_encoder := enc\<rparr>))"
    using c by (simp add: conn_inv_def send_frame_def)
qed (simp_all add: dispatch_frame_inv handle_protocol_error_inv send_chunk_inv conn_start_inv)

section \<open>Requests that reach the adapter\<close>

text \<open>What the adapter may rely on in a request.\<close>

definition request_ok :: "Request \<Rightarrow> bool" where
  "request_ok r \<longleftrightarrow> (rq_path r = ''*'' \<or> safe_path (rq_path r)) \<and>
    (\<forall>(k, v) \<in> set (rq_headers r). (\<forall>ch \<in> set k. \<not> is_ascii_uppercase ch) \<and> \<not> connection_specific k
      \<and> (k = [] \<or> hd k \<noteq> CHR '':''))"

lemma build_loop_headers:
  "build_loop decoded a = Ok a' \<Longrightarrow>
   (\<forall>(k, v) \<in> set (pa_headers a). (\<forall>ch \<in> set k. \<not> is_ascii_uppercase ch) \<and> \<not> connection_specific k
      \<and> (k = [] \<or> hd k \<noteq> CHR '':'')) \<Longrightarrow>
   (\<forall>(k, v) \<in> set (pa_headers a'). (\<forall>ch \<in> set k. \<not> is_ascii_uppercase ch) \<and> \<not> connection_specific k
      \<and> (k = [] \<or> hd k \<noteq> CHR '':''))"
proof (induction decoded a rule: build_loop.induct)
  case (2 name val decoded a)
  show ?case
  proof (cases "name \<noteq> [] \<and> hd name = CHR '':''")
    case True
    then show ?thesis
      using 2 by (simp add: Let_def split: if_splits)
  next
    case False
    then show ?thesis
      using 2(5) [OF False refl] 2(6,7) by (auto simp: Let_def split: if_splits)
  qed
qed simp

lemma build_request_ok:
  assumes "build_request decoded body addr = Ok r"
  shows "request_ok r"
proof -
  obtain a raw u where a: "build_loop decoded \<lparr>pa_method = None, pa_path = None, pa_scheme = None, pa_authority = None,
      pa_headers = [], pa_seen_regular = False\<rparr> = Ok a"
    and u: "normalize_target raw = Ok u" "rq_path r = uri_path u"
    and h: "set (rq_headers r) \<subseteq> set (pa_headers a) \<union> {(''host'', v) | v. True}"
    using assms by (auto simp: build_request_def res_simps Let_def map_err_def split: if_splits sum.splits option.splits)
  have "rq_path r = ''*'' \<or> safe_path (rq_path r)"
    using normalize_safe_path [OF u(1)] u(2) by auto
  moreover have "\<not> connection_specific ''host'' \<and> (\<forall>ch \<in> set ''host''. \<not> is_ascii_uppercase ch)"
    by (simp add: connection_specific_def is_ascii_uppercase_def)
  ultimately show ?thesis
    using build_loop_headers [OF a] h by (fastforce simp: request_ok_def)
qed

definition tasks_ok :: "Http2Connection \<Rightarrow> bool" where
  "tasks_ok c \<longleftrightarrow> (\<forall>(sid, r) \<in> set (c_tasks c). request_ok r)"

lemma tasks_ok_updates [simp]:
  "tasks_ok (send_frame f c) = tasks_ok c"
  "tasks_ok (set_stream sid g c) = tasks_ok c"
  "tasks_ok (c\<lparr>c_hpack_decoder := dec\<rparr>) = tasks_ok c"
  "tasks_ok (c\<lparr>c_hpack_encoder := en\<rparr>) = tasks_ok c"
  "tasks_ok (c\<lparr>c_peer_settings := ps\<rparr>) = tasks_ok c"
  "tasks_ok (c\<lparr>c_peer_acked_settings := pa\<rparr>) = tasks_ok c"
  "tasks_ok (c\<lparr>c_streams := ss\<rparr>) = tasks_ok c"
  "tasks_ok (c\<lparr>c_conn_send_window := w\<rparr>) = tasks_ok c"
  "tasks_ok (c\<lparr>c_conn_recv_window := w\<rparr>) = tasks_ok c"
  "tasks_ok (c\<lparr>c_last_stream_id := k\<rparr>) = tasks_ok c"
  "tasks_ok (c\<lparr>c_open_stream_count := n\<rparr>) = tasks_ok c"
  "tasks_ok (c\<lparr>c_going_away := b\<rparr>) = tasks_ok c"
  "tasks_ok (c\<lparr>c_inbuf := buf\<rparr>) = tasks_ok c"
  "tasks_ok (retire_closed_streams c) = tasks_ok c"
  by (simp_all add: tasks_ok_def send_frame_def)

lemma try_dispatch_tasks: "tasks_ok c \<Longrightarrow> tasks_ok (fst (try_dispatch sid c))"
  by (auto simp: try_dispatch_def Let_def tasks_ok_def map_err_def build_request_ok
      split: option.split sum.split sum.splits)

lemma finish_header_block_tasks: "tasks_ok c \<Longrightarrow> tasks_ok (fst (finish_header_block sid c))"
  by (simp add: finish_header_block_def Let_def try_dispatch_tasks split: option.split sum.split prod.split)

lemma headers_on_stream_tasks: "tasks_ok c \<Longrightarrow> tasks_ok (fst (headers_on_stream sid block es eh c))"
  by (simp add: headers_on_stream_def Let_def finish_header_block_tasks split: option.split sum.split)

lemma dispatch_frame_tasks: "tasks_ok c \<Longrightarrow> tasks_ok (fst (dispatch_frame f c))"
proof (cases f)
  case (Headers sid block es eh pr)
  assume "tasks_ok c"
  then show ?thesis
    by (simp add: Headers dispatch_frame_def on_headers_def Let_def headers_on_stream_tasks)
next
  case (Continuation sid block eh)
  assume "tasks_ok c"
  then show ?thesis
    by (simp add: Continuation dispatch_frame_def on_continuation_def Let_def finish_header_block_tasks split: option.split)
next
  case (Data sid content es)
  assume "tasks_ok c"
  then show ?thesis
    by (simp add: Data dispatch_frame_def on_data_def Let_def try_dispatch_tasks split: option.split sum.split)
next
  case (Settings ack params)
  assume "tasks_ok c"
  then show ?thesis
    by (simp add: Settings dispatch_frame_def on_settings_def Let_def split: sum.split prod.split)
next
  case (WindowUpdate sid inc)
  assume "tasks_ok c"
  then show ?thesis
    by (simp add: WindowUpdate dispatch_frame_def on_window_update_def Let_def split: option.split)
qed (simp_all add: dispatch_frame_def on_ping_def on_rst_stream_def)

interpretation tasks: driver_invariant tasks_ok
proof
  show "tasks_ok (handle_protocol_error e c)" if "tasks_ok c" for e c
    using that by (simp add: handle_protocol_error_def split: option.split)
  show "tasks_ok (send_chunk sid body n c)" if "tasks_ok c" for sid body n c
    using that by (simp add: send_chunk_def Let_def)
  show "tasks_ok (conn_start a buf)" for a buf
    by (simp add: conn_start_def conn_new_def Let_def tasks_ok_def send_frame_def)
  show "tasks_ok (c\<lparr>c_tasks := ts @ ts'\<rparr>)" if "tasks_ok c" "c_tasks c = ts @ t # ts'" for c ts t ts'
    using that by (auto simp: tasks_ok_def)
qed (simp_all add: dispatch_frame_tasks)

end
