(* ===== verification/Http2ConnProps.thy ===== *)
theory Http2ConnProps
  imports Http2ConnInv
begin

text \<open>
  Properties of the HTTP/2 driver: the invariant of every reachable connection, the requests that
  reach the adapter, flow control on the sending side, and five behaviours that go against the
  protocol.
\<close>

section \<open>Sending a body\<close>

lemma send_chunk_effects:
  assumes "0 < send_credit sid c"
  shows "send_credit sid (send_chunk sid body n c) = send_credit sid c - int n"
    "c_conn_send_window (send_chunk sid body n c) = c_conn_send_window c - int n"
    "c_out (send_chunk sid body n c) = c_out c @ [Data sid (take n body) (length body \<le> n)]"
proof -
  obtain s where s: "stream_of sid c = Some s"
    using assms by (auto simp: send_credit_def split: option.splits)
  then show "send_credit sid (send_chunk sid body n c) = send_credit sid c - int n"
    by (simp add: send_credit_def send_chunk_def Let_def send_frame_def stream_of_def map_of_upd_stream)
  show "c_conn_send_window (send_chunk sid body n c) = c_conn_send_window c - int n"
    "c_out (send_chunk sid body n c) = c_out c @ [Data sid (take n body) (length body \<le> n)]"
    by (simp_all add: send_chunk_def Let_def send_frame_def)
qed

text \<open>The bytes that go out before the credit, or the body, is used up.\<close>

definition sendable :: "u32 \<Rightarrow> bytes \<Rightarrow> Http2Connection \<Rightarrow> nat" where
  "sendable sid body c = min (length body) (nat (min (send_credit sid c) (c_conn_send_window c)))"

text \<open>The flags of the frames: only the last one may end the stream.\<close>

definition last_flag :: "'a list \<Rightarrow> bool \<Rightarrow> bool list" where
  "last_flag xs b = (if xs = [] then [] else replicate (length xs - 1) False @ [b])"

lemma write_body_exact:
  assumes "0 < m"
  shows "\<exists>c' xs. write_body m sid body [] c = Some (c', [])
    \<and> c_out c' = c_out c @ map (\<lambda>(x, e). Data sid x e) xs
    \<and> concat (map fst xs) = take (sendable sid body c) body
    \<and> (\<forall>x \<in> set (map fst xs). x \<noteq> [] \<and> length x \<le> m)
    \<and> map snd xs = last_flag xs (sendable sid body c = length body)
    \<and> c_conn_send_window c' = c_conn_send_window c - int (sendable sid body c)"
proof (induction body arbitrary: c rule: length_induct)
  case (1 body)
  let ?blocked = "send_credit sid c \<le> 0 \<or> c_conn_send_window c \<le> 0"
  show ?case
  proof (cases "body = [] \<or> ?blocked")
    case True
    then have "sendable sid body c = 0" by (auto simp: sendable_def)
    moreover have "write_body m sid body [] c = Some (c, [])"
      using True by (subst write_body.simps) auto
    ultimately show ?thesis
      by (intro exI [of _ c] exI [of _ "[]"]) (simp add: last_flag_def)
  next
    case False
    define n where "n = data_budget m sid body c"
    have n: "0 < n" "n \<le> length body" "n \<le> m" "int n \<le> send_credit sid c" "int n \<le> c_conn_send_window c"
      using False assms by (auto simp: n_def data_budget_def min_def max_def)
    let ?c1 = "send_chunk sid body n c"
    have eff: "send_credit sid ?c1 = send_credit sid c - int n" "c_conn_send_window ?c1 = c_conn_send_window c - int n"
      "c_out ?c1 = c_out c @ [Data sid (take n body) (length body \<le> n)]"
      using send_chunk_effects [of sid c] False by auto
    have rest: "sendable sid (drop n body) ?c1 = sendable sid body c - n" and le: "n \<le> sendable sid body c"
      using n by (auto simp: sendable_def eff min_def nat_diff_distrib)
    have "length (drop n body) < length body" using n False by simp
    from 1 [rule_format, OF this, of ?c1] obtain c' xs where IH:
      "write_body m sid (drop n body) [] ?c1 = Some (c', [])"
      "c_out c' = c_out ?c1 @ map (\<lambda>(x, e). Data sid x e) xs"
      "concat (map fst xs) = take (sendable sid (drop n body) ?c1) (drop n body)"
      "\<forall>x \<in> set (map fst xs). x \<noteq> [] \<and> length x \<le> m"
      "map snd xs = last_flag xs (sendable sid (drop n body) ?c1 = length (drop n body))"
      "c_conn_send_window c' = c_conn_send_window ?c1 - int (sendable sid (drop n body) ?c1)" by blast
    have w: "write_body m sid body [] c = Some (c', [])"
      using False n(1) IH(1) by (subst write_body.simps) (simp add: n_def)
    let ?xs = "(take n body, length body \<le> n) # xs"
    have cat: "concat (map fst ?xs) = take (sendable sid body c) body"
      using IH(3) rest le by (simp add: take_add [symmetric])
    have "length body \<le> n \<Longrightarrow> xs = []"
      using IH(3,4) by (cases xs) auto
    moreover have "sendable sid body c \<le> length body" by (simp add: sendable_def)
    moreover from this have "xs = [] \<Longrightarrow> sendable sid body c = n"
      using IH(3) rest le n by auto
    ultimately have flags: "map snd ?xs = last_flag ?xs (sendable sid body c = length body)"
      using IH(5) rest le n
      by (cases xs) (auto simp: last_flag_def)
    show ?thesis
      using w cat flags IH(2,4,6) eff rest le n
      by (intro exI [of _ c'] exI [of _ ?xs]) auto
  qed
qed

lemma decode_get_root:
  "decode [0x82, 0x84] (decoder_new 4096) = (decoder_new 4096, Ok [('':method'', ''GET''), ('':path'', ''/'')])"
  by (simp add: decode_def decode_loop.simps decode_integer_def resolve_index_def STATIC_TABLE_def
      check_size_def decoder_new_def ENTRY_OVERHEAD_def bit_simps)

lemma normalize_root: "normalize_target ''/'' = Ok \<lparr>uri_path = ''/'', uri_query = None\<rparr>"
proof -
  have "char_of_byte 0x2F = CHR ''/''" by (metis byte_of_ascii(1) char_of_byte_of)
  then show ?thesis
    by (simp add: normalize_target_def as_bytes_def from_utf8_def of_bytes_def collapse_dot_segments_def)
qed

lemma try_dispatch_out: "c_out (fst (try_dispatch sid c)) = c_out c"
  by (simp add: try_dispatch_def Let_def split: option.split sum.split)

section \<open>Properties\<close>

text \<open>
  C6. The driver's invariant: whatever bytes the peer sends, in whatever chunks, and whenever the
  adapter's tasks finish, every reachable connection has at most 128 streams, counts them exactly,
  has them under distinct odd identifiers not above the highest one seen, has at most one header
  block unfinished, keeps both receive windows between 0 and 65535, has valid peer settings, and
  has HPACK tables within their bounds.
\<close>

theorem connection_invariant:
  assumes "reachable c"
  shows "conn_inv c"
  using assms by (rule conn.reachable)

theorem connection_invariant_witness:
  "conn_inv (driver_round (conn_start ''10.0.0.1:4000'' [0, 0, 0, 4, 0, 0, 0, 0, 0]))"
  by (intro connection_invariant reachable.step [OF reachable.start conn_step.round])

text \<open>
  C7. Every request handed to the adapter over HTTP/2 has a normalised path that cannot leave the
  document root, lower-case header names, none of the connection-specific headers that would let
  one hop smuggle framing to the next, and no pseudo-header among its headers.
\<close>

theorem adapter_requests_ok:
  assumes "reachable c" "(sid, r) \<in> set (c_tasks c)"
  shows "request_ok r"
  using tasks.reachable [OF assms(1)] assms(2) by (auto simp: tasks_ok_def)

theorem adapter_requests_ok_witness:
  "request_ok \<lparr>rq_method = ''GET'', rq_uri = ''/'', rq_path = ''/'', rq_query = None, rq_version = ''HTTP/2.0'',
    rq_headers = [], rq_body = [], rq_peer_addr = ''p''\<rparr>"
proof (rule adapter_requests_ok)
  let ?f = "Headers 1 [0x82, 0x84] True True None" and ?r = "\<lparr>rq_method = ''GET'', rq_uri = ''/'', rq_path = ''/'',
    rq_query = None, rq_version = ''HTTP/2.0'', rq_headers = [], rq_body = [], rq_peer_addr = ''p''\<rparr>"
  let ?c = "conn_start ''p'' (frame_encode ?f)"
  show "reachable (driver_round ?c)" by (intro reachable.step [OF reachable.start conn_step.round])
  have "frame_parse (frame_encode ?f) 16384 = Ok (Some (?f, length (frame_encode ?f)))"
    using frame_parse_encode [of 16384 ?f "[]"] by (simp add: frame_ok_def Let_def)
  then have "process_buffered_frames ?c = 
     (case dispatch_frame ?f (conn_start ''p'' []) of
            (c', Inl e) \<Rightarrow> (c', Err e)
          | (c', Inr _) \<Rightarrow> process_buffered_frames c')"
    by (subst process_buffered_frames.simps)
      (simp add: conn_start_def conn_new_def Let_def send_frame_def settings_default_def)
  moreover obtain c' where c': "dispatch_frame ?f (conn_start ''p'' []) = (c', Ok ())" "c_tasks c' = [(1, ?r)]"
    by (simp add: dispatch_frame_def continuation_expected_on_def conn_start_def conn_new_def Let_def send_frame_def
        settings_default_def on_headers_def headers_on_stream_def stream_of_def stream_new_def set_stream_def
        upd_stream_def on_recv_headers_def map_err_def finish_header_block_def HEADER_BLOCK_HARD_CAP_def
        decode_get_root try_dispatch_def build_request_def normalize_root)
  moreover have "c_inbuf c' = []"
    using dispatch_frame_inbuf [OF c'(1)] by (simp add: conn_start_def Let_def send_frame_def)
  then have "process_buffered_frames c' = (c', Ok ())"
    by (subst process_buffered_frames.simps) (simp add: frame_parse_def frame_parse_from.simps)
  ultimately show "(1, ?r) \<in> set (c_tasks (driver_round ?c))"
    by (simp add: driver_round_def)
qed

text \<open>
  C8. A body is sent exactly as far as the credit goes: with no input in between, \<open>write_body\<close> returns,
  having written as one run of \<open>DATA\<close> frames the longest prefix of the body that both flow-control
  windows allow, in non-empty frames within the peer's maximum frame size, with \<open>END_STREAM\<close> on the
  last frame if it completes the body and on no other; and it charges the connection for it.
\<close>

theorem write_body_within_credit:
  assumes "0 < m"
  shows "\<exists>c' xs. write_body m sid body [] c = Some (c', [])
    \<and> c_out c' = c_out c @ map (\<lambda>(x, e). Data sid x e) xs
    \<and> concat (map fst xs) = take (sendable sid body c) body
    \<and> (\<forall>x \<in> set (map fst xs). x \<noteq> [] \<and> length x \<le> m)
    \<and> map snd xs = last_flag xs (sendable sid body c = length body)
    \<and> c_conn_send_window c' = c_conn_send_window c - int (sendable sid body c)"
  using assms by (rule write_body_exact)

theorem write_body_within_credit_witness:
  "\<exists>c'. write_body 16384 1 [7, 8, 9] [] (conn_start ''peer'' []) = Some (c', [])"
  using write_body_within_credit [of 16384 1 "[7, 8, 9]" "conn_start ''peer'' []"] by auto

text \<open>
  A refused stream desynchronises header compression. When the stream limit is reached, a
  \<open>HEADERS\<close> frame for a new stream is answered with \<open>REFUSED_STREAM\<close> and its header block is
  dropped without being decoded, so the dynamic table misses what the block would have inserted:
  the decoder is unchanged whatever the block holds.
\<close>

lemma refused_block_not_decoded:
  assumes "st_max_concurrent_streams (c_local_settings c) \<le> c_open_stream_count c"
    "continuation_expected_on c = None" "stream_of sid c = None" "c_last_stream_id c < sid" "sid mod 2 = 1"
  shows "dispatch_frame (Headers sid block es eh pr) c
    = (send_frame (RstStream sid REFUSED_STREAM) (c\<lparr>c_last_stream_id := sid\<rparr>), Ok ())
    \<and> c_hpack_decoder (fst (dispatch_frame (Headers sid block es eh pr) c)) = c_hpack_decoder c"
proof -
  have "sid \<noteq> 0" "\<not> sid \<le> c_last_stream_id c" using assms(4,5) by auto
  then show ?thesis
    using assms by (simp add: dispatch_frame_def on_headers_def Let_def send_frame_def)
qed

lemma refused_block_not_decoded_witness:
  "c_hpack_decoder (fst (dispatch_frame (Headers 1 [0x40, 0x01, 0x61, 0x01, 0x62] True True None)
     ((conn_start ''p'' [])\<lparr>c_open_stream_count := 128\<rparr>))) = decoder_new 4096"
proof -
  let ?c = "(conn_start ''p'' [])\<lparr>c_open_stream_count := 128\<rparr>"
  have "c_hpack_decoder ?c = decoder_new 4096"
    by (simp add: conn_start_def conn_new_def Let_def send_frame_def settings_default_def)
  moreover have "c_hpack_decoder (fst (dispatch_frame (Headers 1 [0x40, 0x01, 0x61, 0x01, 0x62] True True None) ?c))
      = c_hpack_decoder ?c"
    by (rule conjunct2 [OF refused_block_not_decoded])
      (simp_all add: conn_start_def conn_new_def Let_def send_frame_def settings_default_def
        continuation_expected_on_def stream_of_def)
  ultimately show ?thesis by (rule trans [rotated])
qed

text \<open>
  A frame that does not parse makes the driver spin. It stays in the buffer, so every pass of the
  loop reports it again: after \<open>n\<close> passes the driver has written \<open>n\<close> identical \<open>GOAWAY\<close> frames and has
  neither consumed input nor closed a stream, and while a stream is open the loop does not end.
\<close>

lemma parse_error_repeats_goaway:
  assumes "frame_parse (c_inbuf c) (st_max_frame_size (c_local_settings c)) = Err e"
  shows "c_out ((driver_round ^^ n) c) = c_out c @ replicate n
      (GoAway (c_last_stream_id c) PROTOCOL_ERROR (as_bytes (''frame parse: '' @ error_str e)))
    \<and> c_inbuf ((driver_round ^^ n) c) = c_inbuf c \<and> c_streams ((driver_round ^^ n) c) = c_streams c
    \<and> (c_streams c \<noteq> [] \<longrightarrow> \<not> loop_done ((driver_round ^^ n) c))"
proof -
  define msg where "msg = ''frame parse: '' @ error_str e"
  define g where "g = GoAway (c_last_stream_id c) PROTOCOL_ERROR (as_bytes msg)"
  let ?after = "\<lambda>n. c\<lparr>c_out := c_out c @ replicate n g, c_going_away := 0 < n \<or> c_going_away c\<rparr>"
  have "driver_round (?after n) = ?after (Suc n)" for n
  proof -
    have "process_buffered_frames (?after n) = (?after n, Err (connection_error PROTOCOL_ERROR msg))"
      using assms by (subst process_buffered_frames.simps) (simp add: msg_def)
    then have "driver_round (?after n) = handle_protocol_error (connection_error PROTOCOL_ERROR msg) (?after n)"
      by (simp add: driver_round_def)
    also have "\<dots> = ?after (Suc n)"
      by (simp add: handle_protocol_error_def connection_error_def send_frame_def g_def replicate_append_same)
    finally show ?thesis .
  qed
  then have "(driver_round ^^ n) c = ?after n"
    by (induction n) simp_all
  then show ?thesis unfolding msg_def [symmetric] g_def [symmetric] by (simp add: loop_done_def)
qed

lemma parse_error_repeats_goaway_witness:
  "length (c_out ((driver_round ^^ 1000) (conn_start ''p'' [0xFF, 0xFF, 0xFF, 0, 0, 0, 0, 0, 0]))) = 1001"
proof -
  let ?c = "conn_start ''p'' [0xFF, 0xFF, 0xFF, 0, 0, 0, 0, 0, 0]"
  obtain e where "frame_parse (c_inbuf ?c) (st_max_frame_size (c_local_settings ?c)) = Err e"
    by (simp add: conn_start_def conn_new_def Let_def send_frame_def settings_default_def frame_parse_def
        frame_parse_from.simps from_be32_def)
  from parse_error_repeats_goaway [OF this, of 1000] show ?thesis
    by (simp add: conn_start_def conn_new_def Let_def send_frame_def)
qed

text \<open>
  Data for a stream that is gone drains the connection for good: the bytes are taken from the
  connection's receive window, the frame is refused with \<open>STREAM_CLOSED\<close>, and nothing is given back,
  neither to the window nor to the peer.
\<close>

lemma data_on_unknown_stream_leaks_window:
  assumes "sid \<noteq> 0" "stream_of sid c = None" "int (length content) \<le> c_conn_recv_window c"
  shows "on_data sid content es c = (c\<lparr>c_conn_recv_window := c_conn_recv_window c - int (length content)\<rparr>,
      Err (stream_error STREAM_CLOSED ''DATA for unknown stream''))
    \<and> c_out (fst (on_data sid content es c)) = c_out c"
proof -
  have "stream_of sid (c\<lparr>c_conn_recv_window := w\<rparr>) = None" for w using assms(2) by (simp add: stream_of_def)
  then show ?thesis using assms by (simp add: on_data_def Let_def)
qed

lemma data_on_unknown_stream_leaks_window_witness:
  "c_conn_recv_window (fst (on_data 7 [1, 2, 3] False (conn_start ''p'' []))) = 65532"
  using data_on_unknown_stream_leaks_window [of 7 "conn_start ''p'' []" "[1, 2, 3]" False]
  by (simp add: conn_start_def conn_new_def Let_def send_frame_def stream_of_def)

text \<open>
  A body that waits for credit waits behind any other frame. If the next buffered frame is not one
  of the four kinds the wait handles (a request on another stream, say), then whatever the peer sends
  from then on, window updates included, the wait consumes none of it: no data goes out, the windows
  stay as they are, and \<open>write_body\<close> returns only when the input ends.
\<close>

lemma blocked_body_ignores_credit:
  assumes "frame_parse (c_inbuf c) (st_max_frame_size (c_local_settings c)) = Ok (Some (f, n))"
    "\<not> flow_frame f" "send_credit sid c \<le> 0 \<or> c_conn_send_window c \<le> 0" "body \<noteq> []" "[] \<notin> set reads"
  shows "write_body m sid body reads c = Some (c\<lparr>c_inbuf := c_inbuf c @ concat reads\<rparr>, [])"
  using assms
proof (induction reads arbitrary: c)
  case Nil
  then show ?case by (subst write_body.simps) simp
next
  case (Cons chunk reads)
  let ?c = "c\<lparr>c_inbuf := c_inbuf c @ chunk\<rparr>"
  have p: "frame_parse (c_inbuf ?c) (st_max_frame_size (c_local_settings ?c)) = Ok (Some (f, n))"
    using frames_inc.more_value [OF Cons.prems(1), of chunk] by simp
  have pump: "read_more_for_flow_control chunk c = ?c"
    unfolding read_more_for_flow_control_def using p Cons.prems(2) by (subst pump_loop.simps) simp
  have cr: "send_credit sid ?c \<le> 0 \<or> c_conn_send_window ?c \<le> 0"
    using Cons.prems(3) by (simp add: send_credit_def stream_of_def)
  have "write_body m sid body (chunk # reads) c = write_body m sid body reads ?c"
    using Cons.prems pump by (subst write_body.simps) auto
  also have "\<dots> = Some (?c\<lparr>c_inbuf := c_inbuf ?c @ concat reads\<rparr>, [])"
    using Cons.prems cr by (intro Cons.IH [OF p]) auto
  finally show ?case by simp
qed

lemma blocked_body_ignores_credit_witness:
  "write_body 16384 1 [1] [frame_encode (WindowUpdate 0 100)]
     ((conn_start ''p'' (frame_encode (Headers 3 [0x82] True True None)))\<lparr>c_conn_send_window := 0\<rparr>)
   = Some ((conn_start ''p'' (frame_encode (Headers 3 [0x82] True True None) @ frame_encode (WindowUpdate 0 100)))
       \<lparr>c_conn_send_window := 0\<rparr>, [])"
proof -
  let ?f = "Headers 3 [0x82] True True None"
  let ?c = "(conn_start ''p'' (frame_encode ?f))\<lparr>c_conn_send_window := 0\<rparr>"
  have "frame_parse (c_inbuf ?c) (st_max_frame_size (c_local_settings ?c)) = Ok (Some (?f, length (frame_encode ?f)))"
    using frame_parse_encode [of 16384 ?f "[]"]
    by (simp add: frame_ok_def Let_def conn_start_def conn_new_def send_frame_def settings_default_def)
  then have "write_body 16384 1 [1] [frame_encode (WindowUpdate 0 100)] ?c
      = Some (?c\<lparr>c_inbuf := c_inbuf ?c @ concat [frame_encode (WindowUpdate 0 100)]\<rparr>, [])"
    by (rule blocked_body_ignores_credit)
      (simp_all add: flow_frame_def frame_encode_def frame_header_encode_def)
  also have "?c\<lparr>c_inbuf := c_inbuf ?c @ concat [frame_encode (WindowUpdate 0 100)]\<rparr>
      = (conn_start ''p'' (frame_encode ?f @ frame_encode (WindowUpdate 0 100)))\<lparr>c_conn_send_window := 0\<rparr>"
    by (simp add: conn_start_def conn_new_def Let_def send_frame_def)
  finally show ?thesis .
qed

text \<open>
  Padding is charged but never credited. The payload of a padded \<open>DATA\<close> frame, padding included,
  counts against the peer's windows, but the \<open>WINDOW_UPDATE\<close> frames that accepting it sends return only
  the length of its content, which is strictly less.
\<close>

lemma padded_data_not_credited:
  assumes "fh_flags h AND FLAG_PADDED \<noteq> 0" "decode_payload FT_Data h payload = Ok (Data sid content es)"
    "continuation_expected_on c = None" "sid \<noteq> 0" "stream_of sid c = Some s" "content \<noteq> []"
    "int (length content) \<le> c_conn_recv_window c" "int (length content) \<le> s_recv_window s"
    "on_recv_data es (s_state s) = Ok st"
  shows "c_out (fst (dispatch_frame (Data sid content es) c)) = c_out c @
      [WindowUpdate 0 (of_nat (length content)), WindowUpdate sid (of_nat (length content))]
    \<and> length content < length payload"
proof -
  have "length content < length payload"
    using assms(1,2)
    by (auto simp: decode_payload_def strip_padding_def Let_def res_simps split: list.splits if_splits)
  moreover have "c_out (fst (dispatch_frame (Data sid content es) c)) = c_out (fst (on_data sid content es c))"
    using assms(3) by (simp add: dispatch_frame_def)
  moreover have "c_out (fst (on_data sid content es c)) = c_out c @
      [WindowUpdate 0 (of_nat (length content)), WindowUpdate sid (of_nat (length content))]"
    using on_data_accept [OF assms(4,5,7,8,9)] assms(6) by (simp add: try_dispatch_out)
  ultimately show ?thesis by simp
qed

lemma padded_data_not_credited_witness:
  "length [9 :: u8] < length [2 :: u8, 9, 0, 0]"
proof -
  let ?s = "(stream_new 1 65535 65535)\<lparr>s_state := Open\<rparr>"
  let ?c = "(conn_start ''p'' [])\<lparr>c_streams := [(1, ?s)]\<rparr>"
  let ?h = "\<lparr>fh_length = 4, fh_frame_type = 0, fh_flags = 8, fh_stream_id = 1\<rparr>"
  have "decode_payload FT_Data ?h [2, 9, 0, 0] = Ok (Data 1 [9] False)"
    by (simp add: decode_payload_def strip_padding_def flag_defs Let_def)
  moreover have "fh_flags ?h AND FLAG_PADDED \<noteq> 0" by (simp add: flag_defs)
  moreover have "continuation_expected_on ?c = None" "stream_of 1 ?c = Some ?s" "c_conn_recv_window ?c = 65535"
    "s_recv_window ?s = 65535" "on_recv_data False (s_state ?s) = Ok Open"
    by (simp_all add: continuation_expected_on_def stream_new_def stream_of_def conn_start_def conn_new_def Let_def
        send_frame_def on_recv_data_def)
  ultimately show ?thesis
    using padded_data_not_credited [of ?h "[2, 9, 0, 0]" 1 "[9]" False ?c ?s Open] by simp
qed

end
