(* ===== verification/Chunked.thy ===== *)
theory Chunked
  imports Text
begin

text \<open>
  Chunked transfer coding: \<open>crates/tomcatrs-coyote/src/chunked.rs\<close>.

  An error message is its text, or its text around an argument that the code prints quoted
  (\<open>{:?}\<close>), which is kept as it is. The decoder is returned with every result, on the error paths too.
\<close>

section \<open>Model\<close>

definition MAX_CHUNK_LINE_LEN :: nat where
  "MAX_CHUNK_LINE_LEN = 4096"

definition MAX_TRAILER_LINE_LEN :: nat where
  "MAX_TRAILER_LINE_LEN = 8192"

definition MAX_TRAILER_COUNT :: nat where
  "MAX_TRAILER_COUNT = 32"

datatype message = Plain string | Quoted string string string

datatype ChunkedError = TooLarge message | Malformed message

datatype chunk_state =
    SizeLine
  | ChunkData nat
  | DataCrlf bool
  | Trailer
  | Done

record ChunkedDecoder =
  cd_max_body :: nat
  cd_state :: chunk_state
  cd_line :: bytes
  cd_line_terminated :: bool
  cd_body :: bytes
  cd_trailers :: "(string \<times> string) list"

definition chunked_new :: "nat \<Rightarrow> ChunkedDecoder" where
  "chunked_new max_body =
    \<lparr>cd_max_body = max_body, cd_state = SizeLine, cd_line = [], cd_line_terminated = False, cd_body = [],
     cd_trailers = []\<rparr>"

definition is_complete :: "ChunkedDecoder \<Rightarrow> bool" where
  "is_complete d \<longleftrightarrow> cd_state d = Done"

text \<open>The loop of \<open>feed_line\<close> over the input: the line, whether it is terminated, and the bytes consumed.\<close>

fun feed_loop :: "bytes \<Rightarrow> nat \<Rightarrow> string \<Rightarrow> bytes \<Rightarrow> nat \<Rightarrow> bytes \<times> bool \<times> (ChunkedError + nat)" where
  "feed_loop [] max_len what line idx = (line, False, Ok idx)"
| "feed_loop (b # input) max_len what line idx =
    (if b = 0x0A then
       (if line \<noteq> [] \<and> last line = 0x0D then (butlast line, True, Ok (idx + 1))
        else (line, False, Err (Malformed (Plain (what @ '': bare LF without CR'')))))
     else
       let line' = line @ [b] in
       if max_len < length line' then
         (line', False, Err (TooLarge (Plain (what @ '' exceeds '' @ dec_str max_len @ '' bytes''))))
       else feed_loop input max_len what line' (idx + 1))"

definition feed_line :: "bytes \<Rightarrow> nat \<Rightarrow> string \<Rightarrow> ChunkedDecoder \<Rightarrow> ChunkedDecoder \<times> (ChunkedError + nat)" where
  "feed_line input max_len what d =
    (case feed_loop input max_len what (cd_line d) 0 of
       (line, term, r) \<Rightarrow> (d\<lparr>cd_line := line, cd_line_terminated := term\<rparr>, r))"

definition parse_size_line :: "ChunkedDecoder \<Rightarrow> ChunkedDecoder \<times> (ChunkedError + unit)" where
  "parse_size_line d =
    (let line = cd_line d; d1 = d\<lparr>cd_line := []\<rparr>;
         size_part = takeWhile (\<lambda>b. b \<noteq> 0x3B) line in
     case from_utf8 size_part of
       None \<Rightarrow> (d1, Err (Malformed (Plain ''chunk-size is not ASCII'')))
     | Some text \<Rightarrow>
         let size_str = trim text in
         if size_str = [] then (d1, Err (Malformed (Plain ''empty chunk-size'')))
         else if \<not> list_all (\<lambda>c. hex_digit_value c \<noteq> None) size_str then
           (d1, Err (Malformed (Quoted ''chunk-size '' size_str '' is not hexadecimal'')))
         else
           (case parse_hex size_str of
              None \<Rightarrow> (d1, Err (Malformed (Quoted ''chunk-size '' size_str '' overflows'')))
            | Some n \<Rightarrow>
                if n = 0 then (d1\<lparr>cd_state := Trailer\<rparr>, Ok ())
                else if cd_max_body d1 < min usize_max (length (cd_body d1) + n) then
                  (d1, Err (TooLarge (Plain (''decoded body would exceed '' @ dec_str (cd_max_body d1) @ '' bytes''))))
                else (d1\<lparr>cd_state := ChunkData n\<rparr>, Ok ())))"

definition parse_trailer_line :: "ChunkedDecoder \<Rightarrow> ChunkedDecoder \<times> (ChunkedError + unit)" where
  "parse_trailer_line d =
    (let line = cd_line d; d1 = d\<lparr>cd_line := []\<rparr> in
     if MAX_TRAILER_COUNT \<le> length (cd_trailers d1) then
       (d1, Err (TooLarge (Plain (''more than '' @ dec_str MAX_TRAILER_COUNT @ '' trailer fields''))))
     else
       (case from_utf8 line of
          None \<Rightarrow> (d1, Err (Malformed (Plain ''trailer field is not ASCII'')))
        | Some text \<Rightarrow>
            (case str_find CHR '':'' text of
               None \<Rightarrow> (d1, Err (Malformed (Plain (''trailer field missing '' @ [CHR 0x27, CHR '':'', CHR 0x27]))))
             | Some colon \<Rightarrow>
                 let name = trim (take colon text); val = trim (drop (colon + 1) text) in
                 if name = [] then (d1, Err (Malformed (Plain ''trailer field has empty name'')))
                 else (d1\<lparr>cd_trailers := cd_trailers d1 @ [(name, val)]\<rparr>, Ok ()))))"

lemma feed_loop_used:
  "feed_loop input m w line idx = (l, t, Ok n) \<Longrightarrow> n \<le> idx + length input \<and> (input \<noteq> [] \<longrightarrow> idx < n)"
proof (induction input m w line idx rule: feed_loop.induct)
  case (2 b input m w line idx)
  then show ?case by (cases "input = []") (auto simp: Let_def split: if_splits)
qed auto

lemma feed_line_used: "feed_line input m w d = (d', Ok n) \<Longrightarrow> input \<noteq> [] \<Longrightarrow> 0 < n \<and> n \<le> length input"
  by (auto simp: feed_line_def split: prod.splits dest: feed_loop_used)

text \<open>\<open>input\<close> is what is left of the code's \<open>input\<close> at \<open>idx\<close>.\<close>

function push_loop :: "bytes \<Rightarrow> nat \<Rightarrow> ChunkedDecoder \<Rightarrow> ChunkedDecoder \<times> (ChunkedError + nat)" where
  "push_loop input idx d =
    (if input = [] then (d, Ok idx)
     else
       (case cd_state d of
          Done \<Rightarrow> (d, Ok idx)
        | SizeLine \<Rightarrow>
            (case feed_line input MAX_CHUNK_LINE_LEN ''chunk-size line'' d of
               (d1, Inl e) \<Rightarrow> (d1, Err e)
             | (d1, Inr n) \<Rightarrow>
                 if cd_line_terminated d1 then
                   (case parse_size_line d1 of
                      (d2, Inl e) \<Rightarrow> (d2, Err e)
                    | (d2, Inr _) \<Rightarrow> push_loop (drop n input) (idx + n) d2)
                 else push_loop (drop n input) (idx + n) d1)
        | ChunkData remaining \<Rightarrow>
            let k = min remaining (length input); left = remaining - k in
            push_loop (drop k input) (idx + k)
              (d\<lparr>cd_body := cd_body d @ take k input,
                 cd_state := (if left = 0 then DataCrlf False else ChunkData left)\<rparr>)
        | DataCrlf seen_cr \<Rightarrow>
            let b = hd input in
            if \<not> seen_cr then
              (if b \<noteq> 0x0D then (d, Err (Malformed (Plain ''chunk-data not followed by CRLF'')))
               else push_loop (tl input) (idx + 1) (d\<lparr>cd_state := DataCrlf True\<rparr>))
            else
              (if b \<noteq> 0x0A then (d, Err (Malformed (Plain ''chunk-data CR not followed by LF'')))
               else push_loop (tl input) (idx + 1) (d\<lparr>cd_state := SizeLine\<rparr>))
        | Trailer \<Rightarrow>
            (case feed_line input MAX_TRAILER_LINE_LEN ''trailer line'' d of
               (d1, Inl e) \<Rightarrow> (d1, Err e)
             | (d1, Inr n) \<Rightarrow>
                 if cd_line_terminated d1 then
                   (if cd_line d1 = [] then push_loop (drop n input) (idx + n) (d1\<lparr>cd_state := Done\<rparr>)
                    else
                      (case parse_trailer_line d1 of
                         (d2, Inl e) \<Rightarrow> (d2, Err e)
                       | (d2, Inr _) \<Rightarrow> push_loop (drop n input) (idx + n) d2))
                 else push_loop (drop n input) (idx + n) d1)))"
  by pat_completeness auto
termination
  by (relation "measure (\<lambda>(input, idx, d). 2 * length input + (if cd_state d = ChunkData 0 then 1 else 0))")
    (auto simp: min_def dest!: feed_line_used [OF sym])

declare push_loop.simps [simp del]

definition push :: "bytes \<Rightarrow> ChunkedDecoder \<Rightarrow> ChunkedDecoder \<times> (ChunkedError + nat)" where
  "push input d = push_loop input 0 d"

definition encode_chunked :: "bytes \<Rightarrow> bytes" where
  "encode_chunked body =
    (if body \<noteq> [] then as_bytes (hex_str (length body)) @ [0x0D, 0x0A] @ body @ [0x0D, 0x0A] else [])
    @ [0x30, 0x0D, 0x0A, 0x0D, 0x0A]"

section \<open>Chunking of the input does not matter\<close>

lemma feed_loop_shift:
  "feed_loop input m w line (i + k) =
    (case feed_loop input m w line i of (l, t, Inl e) \<Rightarrow> (l, t, Inl e) | (l, t, Inr n) \<Rightarrow> (l, t, Inr (n + k)))"
proof (induction input m w line i rule: feed_loop.induct)
  case (2 b input m w line i)
  then show ?case by (auto simp: Let_def)
qed simp

lemma push_loop_Nil [simp]: "push_loop [] idx d = (d, Ok idx)"
  by (simp add: push_loop.simps)

lemma push_loop_Done [simp]: "cd_state d = Done \<Longrightarrow> push_loop input idx d = (d, Ok idx)"
  by (simp add: push_loop.simps)

text \<open>The loop takes the first byte, then the others.\<close>

definition push_after :: "ChunkedDecoder \<times> (ChunkedError + nat) \<Rightarrow> bytes \<Rightarrow> ChunkedDecoder \<times> (ChunkedError + nat)" where
  "push_after r input = (case r of (d, Inl e) \<Rightarrow> (d, Inl e) | (d, Inr n) \<Rightarrow> push_loop input n d)"

lemma push_loop_size:
  assumes "cd_state d = SizeLine" "input \<noteq> []"
  shows "push_loop input idx d =
    (case feed_line input MAX_CHUNK_LINE_LEN ''chunk-size line'' d of
       (d1, Inl e) \<Rightarrow> (d1, Err e)
     | (d1, Inr n) \<Rightarrow>
         if cd_line_terminated d1 then
           (case parse_size_line d1 of (d2, Inl e) \<Rightarrow> (d2, Err e) | (d2, Inr _) \<Rightarrow> push_loop (drop n input) (idx + n) d2)
         else push_loop (drop n input) (idx + n) d1)"
  using assms by (subst push_loop.simps) simp

lemma push_loop_trailer:
  assumes "cd_state d = Trailer" "input \<noteq> []"
  shows "push_loop input idx d =
    (case feed_line input MAX_TRAILER_LINE_LEN ''trailer line'' d of
       (d1, Inl e) \<Rightarrow> (d1, Err e)
     | (d1, Inr n) \<Rightarrow>
         if cd_line_terminated d1 then
           (if cd_line d1 = [] then push_loop (drop n input) (idx + n) (d1\<lparr>cd_state := Done\<rparr>)
            else (case parse_trailer_line d1 of (d2, Inl e) \<Rightarrow> (d2, Err e)
              | (d2, Inr _) \<Rightarrow> push_loop (drop n input) (idx + n) d2))
         else push_loop (drop n input) (idx + n) d1)"
  using assms by (subst push_loop.simps) simp

lemma push_loop_data:
  assumes "cd_state d = ChunkData r" "input \<noteq> []"
  shows "push_loop input idx d = push_loop (drop (min r (length input)) input) (idx + min r (length input))
    (d\<lparr>cd_body := cd_body d @ take (min r (length input)) input,
       cd_state := (if r - min r (length input) = 0 then DataCrlf False else ChunkData (r - min r (length input)))\<rparr>)"
  using assms by (subst push_loop.simps) (simp add: Let_def)

lemma push_loop_crlf:
  assumes "cd_state d = DataCrlf seen" "input \<noteq> []"
  shows "push_loop input idx d =
    (if \<not> seen then
       (if hd input \<noteq> 0x0D then (d, Err (Malformed (Plain ''chunk-data not followed by CRLF'')))
        else push_loop (tl input) (idx + 1) (d\<lparr>cd_state := DataCrlf True\<rparr>))
     else
       (if hd input \<noteq> 0x0A then (d, Err (Malformed (Plain ''chunk-data CR not followed by LF'')))
        else push_loop (tl input) (idx + 1) (d\<lparr>cd_state := SizeLine\<rparr>)))"
  using assms by (subst push_loop.simps) (simp add: Let_def)

lemmas push_loop_crlf_new = push_loop_crlf [of "d\<lparr>cd_state := DataCrlf False\<rparr>" False for d, simplified]

lemma feed_line_Cons:
  "feed_line (b # input) m w d =
    (case feed_line [b] m w d of
       (d1, Inl e) \<Rightarrow> (d1, Inl e)
     | (d1, Inr n) \<Rightarrow>
         if cd_line_terminated d1 \<or> input = [] then (d1, Inr n)
         else (case feed_line input m w d1 of (d2, Inl e) \<Rightarrow> (d2, Inl e) | (d2, Inr k) \<Rightarrow> (d2, Inr (k + 1))))"
  using feed_loop_shift [of input m w "cd_line d @ [b]" 0 1]
  by (auto simp: feed_line_def Let_def split: prod.split sum.split)

lemma push_loop_Cons_crlf:
  "cd_state d = DataCrlf seen \<Longrightarrow> push_loop (b # input) idx d = push_after (push_loop [b] idx d) input"
  by (simp add: push_loop_crlf push_after_def)

lemma push_loop_Cons_size:
  assumes "cd_state d = SizeLine"
  shows "push_loop (b # input) idx d = push_after (push_loop [b] idx d) input"
proof -
  obtain d1 r where f: "feed_line [b] MAX_CHUNK_LINE_LEN ''chunk-size line'' d = (d1, r)" by fastforce
  have st: "cd_state d1 = SizeLine" using f assms by (auto simp: feed_line_def split: prod.splits)
  have n: "r = Inr n \<Longrightarrow> n = 1" for n using f feed_line_used [of "[b]" MAX_CHUNK_LINE_LEN "''chunk-size line''" d d1 n] by auto
  show ?thesis
  proof (cases r)
    case (Inl e)
    then show ?thesis using f assms by (simp add: push_loop_size push_after_def feed_line_Cons [of b input])
  next
    case (Inr k)
    then have k: "r = Inr 1" using n by simp
    show ?thesis
    proof (cases "cd_line_terminated d1 \<or> input = []")
      case True
      then show ?thesis
        using f assms k by (auto simp: push_loop_size push_after_def feed_line_Cons [of b input] split: prod.split sum.split)
    next
      case False
      then show ?thesis
        using f assms k st
        by (auto simp: push_loop_size push_after_def feed_line_Cons [of b input] split: prod.split sum.split)
    qed
  qed
qed

lemma push_loop_Cons_trailer:
  assumes "cd_state d = Trailer"
  shows "push_loop (b # input) idx d = push_after (push_loop [b] idx d) input"
proof -
  obtain d1 r where f: "feed_line [b] MAX_TRAILER_LINE_LEN ''trailer line'' d = (d1, r)" by fastforce
  have st: "cd_state d1 = Trailer" using f assms by (auto simp: feed_line_def split: prod.splits)
  have n: "r = Inr n \<Longrightarrow> n = 1" for n using f feed_line_used [of "[b]" MAX_TRAILER_LINE_LEN "''trailer line''" d d1 n] by auto
  show ?thesis
  proof (cases r)
    case (Inl e)
    then show ?thesis using f assms by (simp add: push_loop_trailer push_after_def feed_line_Cons [of b input])
  next
    case (Inr k)
    then have k: "r = Inr 1" using n by simp
    show ?thesis
    proof (cases "cd_line_terminated d1 \<or> input = []")
      case True
      then show ?thesis
        using f assms k by (auto simp: push_loop_trailer push_after_def feed_line_Cons [of b input] split: prod.split sum.split)
    next
      case False
      then show ?thesis
        using f assms k st
        by (auto simp: push_loop_trailer push_after_def feed_line_Cons [of b input] split: prod.split sum.split)
    qed
  qed
qed

lemma push_loop_data_0:
  assumes "cd_state d = ChunkData 0" "input \<noteq> []"
  shows "push_loop input idx d = push_loop input idx (d\<lparr>cd_state := DataCrlf False\<rparr>)"
  by (subst push_loop_data [OF assms]) simp

text \<open>One byte of chunk data.\<close>

definition data_byte :: "nat \<Rightarrow> u8 \<Rightarrow> ChunkedDecoder \<Rightarrow> ChunkedDecoder" where
  "data_byte r b d = d\<lparr>cd_body := cd_body d @ [b], cd_state := (if r = 0 then DataCrlf False else ChunkData r)\<rparr>"

lemma push_loop_data_Suc:
  assumes "cd_state d = ChunkData (Suc r)"
  shows "push_loop (b # input) idx d = push_loop input (Suc idx) (data_byte r b d)"
proof (cases "r = 0 \<or> input = []")
  case True
  then show ?thesis
    by (subst push_loop_data [OF assms]) (auto simp: data_byte_def)
next
  case False
  then have "cd_state (data_byte r b d) = ChunkData r" by (simp add: data_byte_def)
  note u = push_loop_data [OF this, of input "Suc idx"]
  show ?thesis
    by (subst push_loop_data [OF assms], simp, subst u)
      (use False in \<open>simp_all add: data_byte_def min_Suc_Suc\<close>)
qed

lemma push_loop_Cons_data:
  assumes "cd_state d = ChunkData r"
  shows "push_loop (b # input) idx d = push_after (push_loop [b] idx d) input"
proof (cases r)
  case 0
  have "push_loop (b # input) idx (d\<lparr>cd_state := DataCrlf False\<rparr>) =
      push_after (push_loop [b] idx (d\<lparr>cd_state := DataCrlf False\<rparr>)) input"
    by (rule push_loop_Cons_crlf [of _ False]) simp
  then show ?thesis using assms 0 by (simp add: push_loop_data_0)
next
  case (Suc r')
  then show ?thesis using assms by (simp add: push_loop_data_Suc push_after_def)
qed

lemma push_loop_Cons: "push_loop (b # input) idx d = push_after (push_loop [b] idx d) input"
proof (cases "cd_state d")
  case Done
  then show ?thesis by (simp add: push_after_def)
qed (rule push_loop_Cons_size push_loop_Cons_trailer push_loop_Cons_data push_loop_Cons_crlf, assumption)+


lemma push_after_Inr: "push_after (d, Inr n) input = push_loop input n d"
  by (simp add: push_after_def)

lemma push_after_Inl: "push_after (d, Inl e) input = (d, Inl e)"
  by (simp add: push_after_def)

lemmas push_after_simps = push_after_Inr push_after_Inl

lemma push_loop_append: "push_loop (a @ b) idx d = push_after (push_loop a idx d) b"
proof (induction a arbitrary: idx d)
  case Nil
  then show ?case by (simp add: push_after_simps)
next
  case (Cons x a)
  obtain d1 r where r: "push_loop [x] idx d = (d1, r)" by fastforce
  show ?case
    using push_loop_Cons [of x "a @ b" idx d] push_loop_Cons [of x a idx d] r Cons
    by (cases r) (simp_all add: push_after_simps)
qed

text \<open>The count of consumed bytes is relative to \<open>idx\<close>.\<close>

definition shift_count :: "nat \<Rightarrow> ChunkedDecoder \<times> (ChunkedError + nat) \<Rightarrow> ChunkedDecoder \<times> (ChunkedError + nat)" where
  "shift_count k r = (case r of (d, Inl e) \<Rightarrow> (d, Inl e) | (d, Inr n) \<Rightarrow> (d, Inr (n + k)))"

lemma shift_count_simps [simp]:
  "shift_count k (d, Inl e) = (d, Inl e)" "shift_count k (d, Inr n) = (d, Inr (n + k))"
  by (simp_all add: shift_count_def)

lemma push_loop_byte_shift: "push_loop [b] (idx + k) d = shift_count k (push_loop [b] idx d)"
proof (cases "cd_state d")
  case SizeLine
  obtain d1 r where f: "feed_line [b] MAX_CHUNK_LINE_LEN ''chunk-size line'' d = (d1, r)" by fastforce
  have "r = Inr n \<Longrightarrow> n = 1" for n
    using f feed_line_used [of "[b]" MAX_CHUNK_LINE_LEN "''chunk-size line''" d d1 n] by auto
  then show ?thesis
    using SizeLine f by (auto simp: push_loop_size split: sum.split prod.split)
next
  case Trailer
  obtain d1 r where f: "feed_line [b] MAX_TRAILER_LINE_LEN ''trailer line'' d = (d1, r)" by fastforce
  have "r = Inr n \<Longrightarrow> n = 1" for n
    using f feed_line_used [of "[b]" MAX_TRAILER_LINE_LEN "''trailer line''" d d1 n] by auto
  then show ?thesis
    using Trailer f by (auto simp: push_loop_trailer split: sum.split prod.split)
next
  case (ChunkData r)
  then show ?thesis
    by (cases r) (simp_all add: push_loop_data_0 push_loop_data_Suc push_loop_crlf_new)
qed (simp_all add: push_loop_crlf)

lemma push_loop_shift: "push_loop a (idx + k) d = shift_count k (push_loop a idx d)"
proof (induction a arbitrary: idx d)
  case (Cons x a)
  obtain d1 r where r: "push_loop [x] idx d = (d1, r)" by fastforce
  then show ?case
    using Cons push_loop_Cons [of x a "idx + k" d] push_loop_Cons [of x a idx d] push_loop_byte_shift [of x idx k d]
    by (cases r) (simp_all add: push_after_simps)
qed simp

text \<open>A byte is consumed, or the body is complete and nothing is.\<close>

lemma push_loop_byte_used:
  "push_loop [b] idx d = (d', Inr n) \<Longrightarrow> n = (if cd_state d = Done then idx else idx + 1)"
proof (cases "cd_state d")
  case SizeLine
  assume p: "push_loop [b] idx d = (d', Inr n)"
  obtain d1 r where f: "feed_line [b] MAX_CHUNK_LINE_LEN ''chunk-size line'' d = (d1, r)" by fastforce
  have "r = Inr n \<Longrightarrow> n = 1" for n
    using f feed_line_used [of "[b]" MAX_CHUNK_LINE_LEN "''chunk-size line''" d d1 n] by auto
  then show ?thesis
    using SizeLine f p by (cases r) (auto simp: push_loop_size split: if_splits sum.splits prod.splits)
next
  case Trailer
  assume p: "push_loop [b] idx d = (d', Inr n)"
  obtain d1 r where f: "feed_line [b] MAX_TRAILER_LINE_LEN ''trailer line'' d = (d1, r)" by fastforce
  have "r = Inr n \<Longrightarrow> n = 1" for n
    using f feed_line_used [of "[b]" MAX_TRAILER_LINE_LEN "''trailer line''" d d1 n] by auto
  then show ?thesis
    using Trailer f p by (cases r) (auto simp: push_loop_trailer split: if_splits sum.splits prod.splits)
next
  case (ChunkData r)
  assume "push_loop [b] idx d = (d', Inr n)"
  with ChunkData show ?thesis
    by (cases r) (auto simp: push_loop_data_0 push_loop_data_Suc push_loop_crlf_new split: if_splits)
qed (auto simp: push_loop_crlf split: if_splits)

lemma push_loop_count:
  "push_loop a idx d = (d', Inr n) \<Longrightarrow>
    idx \<le> n \<and> n \<le> idx + length a \<and> (\<not> is_complete d' \<longrightarrow> n = idx + length a)"
proof (induction a arbitrary: idx d)
  case (Cons x a)
  show ?case
  proof (cases "cd_state d = Done")
    case True
    then show ?thesis using Cons.prems by (simp add: is_complete_def)
  next
    case False
    obtain d1 r where r: "push_loop [x] idx d = (d1, r)" by fastforce
    have p: "push_after (d1, r) a = (d', Inr n)" using Cons.prems push_loop_Cons [of x a idx d] r by simp
    then obtain m where m: "r = Inr m" "push_loop a m d1 = (d', Inr n)" by (cases r) (auto simp: push_after_simps)
    then show ?thesis
      using Cons.IH [OF m(2)] push_loop_byte_used [of x idx d d1 m] r False by auto
  qed
qed simp

text \<open>Two pushes against one: the second push starts from the first one's decoder and count.\<close>

lemma push_append:
  "push (a @ b) d =
    (case push a d of
       (d1, Inl e) \<Rightarrow> (d1, Inl e)
     | (d1, Inr n) \<Rightarrow> (case push b d1 of (d2, Inl e) \<Rightarrow> (d2, Inl e) | (d2, Inr k) \<Rightarrow> (d2, Inr (n + k))))"
proof -
  obtain d1 r where r: "push_loop a 0 d = (d1, r)" by fastforce
  show ?thesis
  proof (cases r)
    case (Inl e)
    then show ?thesis using r by (simp add: push_def push_loop_append push_after_simps)
  next
    case (Inr n)
    then show ?thesis
      using r push_loop_shift [of b 0 n d1]
      by (simp add: push_def push_loop_append push_after_simps shift_count_def add.commute
          split: prod.split sum.split)
  qed
qed


section \<open>Bounds\<close>

definition state_remaining :: "chunk_state \<Rightarrow> nat" where
  "state_remaining st = (case st of ChunkData n \<Rightarrow> n | _ \<Rightarrow> 0)"

definition line_bound :: "chunk_state \<Rightarrow> nat" where
  "line_bound st = (case st of SizeLine \<Rightarrow> MAX_CHUNK_LINE_LEN | Trailer \<Rightarrow> MAX_TRAILER_LINE_LEN | _ \<Rightarrow> 0)"

definition decoder_ok :: "nat \<Rightarrow> ChunkedDecoder \<Rightarrow> bool" where
  "decoder_ok m d \<longleftrightarrow> cd_max_body d = m \<and> length (cd_body d) + state_remaining (cd_state d) \<le> m \<and>
    length (cd_line d) \<le> line_bound (cd_state d) \<and> length (cd_trailers d) \<le> MAX_TRAILER_COUNT \<and>
    (\<forall>(n, v)\<in>set (cd_trailers d). n \<noteq> [])"

text \<open>What is held when an error is reported: one byte more in a line that is too long.\<close>

definition decoder_bounded :: "nat \<Rightarrow> ChunkedDecoder \<Rightarrow> bool" where
  "decoder_bounded m d \<longleftrightarrow> length (cd_body d) \<le> m \<and> length (cd_line d) \<le> MAX_TRAILER_LINE_LEN + 1 \<and>
    length (cd_trailers d) \<le> MAX_TRAILER_COUNT"

definition push_ok :: "nat \<Rightarrow> ChunkedDecoder \<times> (ChunkedError + nat) \<Rightarrow> bool" where
  "push_ok m r \<longleftrightarrow> (case r of (d, Inl e) \<Rightarrow> decoder_bounded m d | (d, Inr n) \<Rightarrow> decoder_ok m d)"

lemmas chunked_limits = MAX_CHUNK_LINE_LEN_def MAX_TRAILER_LINE_LEN_def MAX_TRAILER_COUNT_def

lemma decoder_ok_bounded: "decoder_ok m d \<Longrightarrow> decoder_bounded m d"
  by (auto simp: decoder_ok_def decoder_bounded_def line_bound_def chunked_limits split: chunk_state.splits)

lemma decoder_ok_new: "decoder_ok m (chunked_new m)"
  by (simp add: decoder_ok_def chunked_new_def state_remaining_def line_bound_def chunked_limits)

lemma feed_line_byte:
  "feed_line [b] m w d =
    (if b = 0x0A then
       (if cd_line d \<noteq> [] \<and> last (cd_line d) = 0x0D
        then (d\<lparr>cd_line := butlast (cd_line d), cd_line_terminated := True\<rparr>, Ok 1)
        else (d\<lparr>cd_line_terminated := False\<rparr>, Err (Malformed (Plain (w @ '': bare LF without CR'')))))
     else if m \<le> length (cd_line d) then
       (d\<lparr>cd_line := cd_line d @ [b], cd_line_terminated := False\<rparr>,
        Err (TooLarge (Plain (w @ '' exceeds '' @ dec_str m @ '' bytes''))))
     else (d\<lparr>cd_line := cd_line d @ [b], cd_line_terminated := False\<rparr>, Ok 1))"
  by (auto simp: feed_line_def Let_def)

lemma parse_size_line_ok:
  assumes "decoder_ok m d" "cd_state d = SizeLine" "m < usize_max"
  shows "case parse_size_line d of (d', Inl e) \<Rightarrow> decoder_bounded m d' | (d', Inr _) \<Rightarrow> decoder_ok m d'"
  using assms
  by (auto simp: parse_size_line_def decoder_ok_def decoder_bounded_def state_remaining_def line_bound_def
      chunked_limits Let_def split: option.split if_splits)

lemma parse_trailer_line_ok:
  assumes "decoder_ok m d" "cd_state d = Trailer"
  shows "case parse_trailer_line d of (d', Inl e) \<Rightarrow> decoder_bounded m d' | (d', Inr _) \<Rightarrow> decoder_ok m d'"
  using assms
  by (auto simp: parse_trailer_line_def decoder_ok_def decoder_bounded_def state_remaining_def line_bound_def
      chunked_limits Let_def split: option.split if_splits)

lemma push_byte_ok:
  assumes "decoder_ok m d" "m < usize_max"
  shows "push_ok m (push_loop [b] idx d)"
proof (cases "cd_state d")
  case SizeLine
  let ?t = "d\<lparr>cd_line := butlast (cd_line d), cd_line_terminated := True\<rparr>"
  have "decoder_ok m ?t" "cd_state ?t = SizeLine" using assms SizeLine by (auto simp: decoder_ok_def)
  from parse_size_line_ok [OF this assms(2)] show ?thesis
    using assms SizeLine
    by (auto simp: push_loop_size feed_line_byte push_ok_def decoder_ok_def [of m d] decoder_bounded_def
        decoder_ok_def [of m "d\<lparr>cd_line := l, cd_line_terminated := t\<rparr>" for l t]
        line_bound_def chunked_limits split: prod.splits sum.splits)
next
  case Trailer
  let ?t = "d\<lparr>cd_line := butlast (cd_line d), cd_line_terminated := True\<rparr>"
  have ok: "decoder_ok m ?t" "cd_state ?t = Trailer" using assms Trailer by (auto simp: decoder_ok_def)
  have "decoder_ok m (?t\<lparr>cd_state := Done\<rparr>)" if "butlast (cd_line d) = []"
    using ok that by (auto simp: decoder_ok_def state_remaining_def line_bound_def)
  with parse_trailer_line_ok [OF ok] show ?thesis
    using assms Trailer
    by (auto simp: push_loop_trailer feed_line_byte push_ok_def decoder_ok_def [of m d] decoder_bounded_def
        decoder_ok_def [of m "d\<lparr>cd_line := l, cd_line_terminated := t\<rparr>" for l t]
        line_bound_def chunked_limits split: prod.splits sum.splits)
next
  case (ChunkData r)
  then show ?thesis
    using assms decoder_ok_bounded [OF assms(1)]
    by (cases r) (auto simp: push_loop_data_0 push_loop_data_Suc push_loop_crlf_new push_ok_def data_byte_def
      decoder_ok_def decoder_bounded_def state_remaining_def line_bound_def chunked_limits)
next
  case (DataCrlf s)
  then show ?thesis
    using assms decoder_ok_bounded [OF assms(1)]
    by (auto simp: push_loop_crlf push_ok_def decoder_ok_def decoder_bounded_def state_remaining_def line_bound_def
      chunked_limits)
next
  case Done
  then show ?thesis using assms by (simp add: push_ok_def)
qed

lemma push_loop_ok:
  assumes "m < usize_max"
  shows "decoder_ok m d \<Longrightarrow> push_ok m (push_loop input idx d)"
proof (induction input arbitrary: idx d)
  case (Cons b input)
  obtain d1 r where r: "push_loop [b] idx d = (d1, r)" by fastforce
  with push_byte_ok [OF Cons.prems assms, of b idx] show ?case
    using push_loop_Cons [of b input idx d] Cons.IH by (cases r) (auto simp: push_after_simps push_ok_def)
qed (simp add: push_ok_def)

section \<open>Decoding what is encoded\<close>

definition chunk_bytes :: "bytes \<Rightarrow> bytes" where
  "chunk_bytes c = as_bytes (hex_str (length c)) @ [0x0D, 0x0A] @ c @ [0x0D, 0x0A]"

definition last_chunk :: bytes where
  "last_chunk = [0x30, 0x0D, 0x0A, 0x0D, 0x0A]"

lemma feed_loop_line:
  "length line + length s < m \<Longrightarrow> 0x0A \<notin> set s \<Longrightarrow>
    feed_loop (s @ 0x0D # 0x0A # rest) m w line idx = (line @ s, True, Ok (idx + length s + 2))"
proof (induction s arbitrary: line idx)
  case (Cons b s)
  then show ?case using Cons.IH [of "line @ [b]" "idx + 1"] by (auto simp: Let_def)
qed (simp add: Let_def)

lemma hex_byte:
  assumes "c \<in> set (hex_str n)"
  shows "visible (byte_of c)" "byte_of c \<noteq> 0x0A" "byte_of c \<noteq> 0x3B" "byte_of c \<le> 0x7F"
proof -
  have b: "48 \<le> unat (byte_of c) \<and> unat (byte_of c) \<le> 57 \<or> 65 \<le> unat (byte_of c) \<and> unat (byte_of c) \<le> 102"
    using set_hex_str [OF assms] by (auto simp: hex_digit_value_def Let_def unat_byte_of split: if_splits)
  then show "visible (byte_of c)" "byte_of c \<le> 0x7F"
    by (auto simp: visible_def word_less_nat_alt word_le_nat_alt)
  show "byte_of c \<noteq> 0x0A" "byte_of c \<noteq> 0x3B" using b by auto
qed

lemma hex_str_line:
  "0x0A \<notin> set (as_bytes (hex_str n))" "takeWhile (\<lambda>b. b \<noteq> 0x3B) (as_bytes (hex_str n)) = as_bytes (hex_str n)"
  "from_utf8 (as_bytes (hex_str n)) = Some (hex_str n)" "trim (hex_str n) = hex_str n"
proof -
  show "0x0A \<notin> set (as_bytes (hex_str n))" using hex_byte(2) by (fastforce simp: as_bytes_def)
  show "takeWhile (\<lambda>b. b \<noteq> 0x3B) (as_bytes (hex_str n)) = as_bytes (hex_str n)"
    using hex_byte(3) by (fastforce simp: as_bytes_def takeWhile_eq_all_conv)
  show "from_utf8 (as_bytes (hex_str n)) = Some (hex_str n)"
    proof (rule from_utf8_as_bytes)
    show "valid_str (hex_str n)"
      unfolding valid_str_def by (rule utf8_valid_ascii) (auto simp: as_bytes_def hex_byte(4))
  qed
  show "trim (hex_str n) = hex_str n" using hex_byte(1) by (intro trim_visible) auto
qed

lemma length_hex_str_usize: "n \<le> usize_max \<Longrightarrow> length (hex_str n) \<le> 16"
  by (rule length_hex_str) (auto simp: usize_max_def)

lemma feed_size_line:
  assumes "cd_line d = []" "n \<le> usize_max"
  shows "feed_line (as_bytes (hex_str n) @ 0x0D # 0x0A # rest) MAX_CHUNK_LINE_LEN w d =
    (d\<lparr>cd_line := as_bytes (hex_str n), cd_line_terminated := True\<rparr>, Ok (length (hex_str n) + 2))"
  using assms length_hex_str_usize [of n] hex_str_line(1) [of n]
  by (simp add: feed_line_def feed_loop_line MAX_CHUNK_LINE_LEN_def)

lemma parse_size_line_hex:
  assumes "cd_line d = as_bytes (hex_str n)" "n \<le> usize_max" "length (cd_body d) + n \<le> cd_max_body d"
  shows "parse_size_line d = (d\<lparr>cd_line := [], cd_state := (if n = 0 then Trailer else ChunkData n)\<rparr>, Ok ())"
proof -
  have "parse_hex (hex_str n) = Some n" using assms by (simp add: parse_hex_def parse_hex_from_hex_str)
  moreover have "list_all (\<lambda>c. hex_digit_value c \<noteq> None) (hex_str n)"
    using set_hex_str [of _ n] by (auto simp: list_all_iff)
  ultimately show ?thesis using assms by (simp add: parse_size_line_def hex_str_line Let_def)
qed

text \<open>The decoder between two chunks.\<close>

definition at_chunk :: "ChunkedDecoder \<Rightarrow> bool" where
  "at_chunk d \<longleftrightarrow> cd_state d = SizeLine \<and> cd_line d = []"

lemma push_size_line:
  assumes "at_chunk d" "n \<le> usize_max" "length (cd_body d) + n \<le> cd_max_body d"
  shows "push_loop (as_bytes (hex_str n) @ 0x0D # 0x0A # rest) idx d =
    push_loop rest (idx + length (hex_str n) + 2)
      (d\<lparr>cd_line_terminated := True, cd_line := [], cd_state := (if n = 0 then Trailer else ChunkData n)\<rparr>)"
  using assms
  by (subst push_loop_size) (simp_all add: at_chunk_def feed_size_line parse_size_line_hex add.assoc)

lemma push_data:
  assumes "cd_state d = ChunkData (length c)" "c \<noteq> []"
  shows "push_loop (c @ rest) idx d =
    push_loop rest (idx + length c) (d\<lparr>cd_body := cd_body d @ c, cd_state := DataCrlf False\<rparr>)"
  using assms by (subst push_loop_data [OF assms(1)]) simp_all

lemma push_chunk:
  assumes "at_chunk d" "c \<noteq> []" "length (cd_body d) + length c \<le> cd_max_body d" "length c \<le> usize_max"
  shows "push_loop (chunk_bytes c @ rest) idx d =
    push_loop rest (idx + length (chunk_bytes c)) (d\<lparr>cd_line_terminated := True, cd_body := cd_body d @ c\<rparr>)"
proof -
  let ?d1 = "d\<lparr>cd_line_terminated := True, cd_line := [], cd_state := ChunkData (length c)\<rparr>"
  let ?i = "idx + length (hex_str (length c)) + 2"
  have "push_loop (chunk_bytes c @ rest) idx d = push_loop (c @ 0x0D # 0x0A # rest) ?i ?d1"
    using push_size_line [OF assms(1,4,3), of "c @ 0x0D # 0x0A # rest" idx] assms(2) by (simp add: chunk_bytes_def)
  also have "\<dots> = push_loop (0x0D # 0x0A # rest) (?i + length c)
      (?d1\<lparr>cd_body := cd_body d @ c, cd_state := DataCrlf False\<rparr>)"
    using push_data [of ?d1 c] assms(2) by simp
  also have "\<dots> = push_loop rest (?i + length c + 2) (?d1\<lparr>cd_body := cd_body d @ c, cd_state := SizeLine\<rparr>)"
    by (subst push_loop_crlf [of _ False]; simp; subst push_loop_crlf [of _ True]; simp)
  also have "?d1\<lparr>cd_body := cd_body d @ c, cd_state := SizeLine\<rparr> = d\<lparr>cd_line_terminated := True, cd_body := cd_body d @ c\<rparr>"
    using assms(1) by (cases d) (simp add: at_chunk_def)
  finally show ?thesis by (simp add: chunk_bytes_def add.assoc)
qed

lemma push_last_chunk:
  assumes "at_chunk d" "length (cd_body d) \<le> cd_max_body d"
  shows "push_loop (last_chunk @ rest) idx d = (d\<lparr>cd_state := Done, cd_line_terminated := True\<rparr>, Ok (idx + 5))"
proof -
  have hex: "as_bytes (hex_str 0) = [0x30]" "length (hex_str 0) = 1"
    by (simp_all add: hex_str.simps hex_char_def as_bytes_def word_unat_eq_iff unat_byte_of)
  have "push_loop (last_chunk @ rest) idx d = push_loop (0x0D # 0x0A # rest) (idx + 3)
      (d\<lparr>cd_line_terminated := True, cd_line := [], cd_state := Trailer\<rparr>)"
    using push_size_line [of d 0 "0x0D # 0x0A # rest" idx] assms by (simp add: last_chunk_def hex numeral_3_eq_3)
  also have "\<dots> = (d\<lparr>cd_line_terminated := True, cd_line := [], cd_state := Done\<rparr>, Ok (idx + 5))"
    using feed_loop_line [of "[]" "[]" MAX_TRAILER_LINE_LEN rest]
    by (subst push_loop_trailer) (simp_all add: feed_line_def MAX_TRAILER_LINE_LEN_def)
  also have "d\<lparr>cd_line_terminated := True, cd_line := [], cd_state := Done\<rparr> = d\<lparr>cd_state := Done, cd_line_terminated := True\<rparr>"
    using assms(1) by (cases d) (simp add: at_chunk_def)
  finally show ?thesis .
qed

text \<open>A body in any number of chunks.\<close>

definition chunk_stream :: "bytes list \<Rightarrow> bytes" where
  "chunk_stream cs = concat (map chunk_bytes cs) @ last_chunk"

lemma push_chunk_stream:
  assumes "at_chunk d" "[] \<notin> set cs" "length (cd_body d) + length (concat cs) \<le> cd_max_body d"
    "cd_max_body d \<le> usize_max"
  shows "\<exists>d'. push_loop (chunk_stream cs @ rest) idx d = (d', Ok (idx + length (chunk_stream cs))) \<and>
    is_complete d' \<and> cd_body d' = cd_body d @ concat cs \<and> cd_trailers d' = cd_trailers d"
  using assms
proof (induction cs arbitrary: idx d)
  case Nil
  then show ?case
    by (simp add: chunk_stream_def push_last_chunk is_complete_def last_chunk_def [THEN arg_cong [where f = length]])
next
  case (Cons c cs)
  let ?d = "d\<lparr>cd_line_terminated := True, cd_body := cd_body d @ c\<rparr>"
  have "push_loop (chunk_stream (c # cs) @ rest) idx d = push_loop (chunk_stream cs @ rest) (idx + length (chunk_bytes c)) ?d"
    using Cons.prems push_chunk [of d c "chunk_stream cs @ rest" idx] by (auto simp: chunk_stream_def)
  moreover have "at_chunk ?d" using Cons.prems(1) by (simp add: at_chunk_def)
  ultimately show ?case
    using Cons.IH [of ?d "idx + length (chunk_bytes c)"] Cons.prems by (auto simp: chunk_stream_def add.assoc)
qed

lemma encode_chunked_stream: "encode_chunked body = chunk_stream (if body = [] then [] else [body])"
  by (simp add: encode_chunked_def chunk_stream_def chunk_bytes_def last_chunk_def)


section \<open>Properties\<close>

text \<open>
  The decoder does not depend on how the bytes arrive: pushing \<open>a @ b\<close> at once is pushing
  \<open>a\<close> and then \<open>b\<close>, with the same decoder state, the same error and the consumed bytes
  added up. As long as the body is incomplete every byte pushed is consumed.
\<close>

lemma chunked_push_append:
  "push (a @ b) d =
    (case push a d of
       (d1, Inl e) \<Rightarrow> (d1, Inl e)
     | (d1, Inr n) \<Rightarrow> (case push b d1 of (d2, Inl e) \<Rightarrow> (d2, Inl e) | (d2, Inr k) \<Rightarrow> (d2, Inr (n + k)))) \<and>
   (case push a d of
      (d1, Inl e) \<Rightarrow> True
    | (d1, Inr n) \<Rightarrow> n \<le> length a \<and> (is_complete d1 \<or> n = length a))"
  using push_append [of a b d] push_loop_count [of a 0 d] by (auto simp: push_def split: prod.split sum.split)

text \<open>
  C12. Whatever a peer sends, a decoder created with the cap \<open>m\<close> (below the largest \<open>usize\<close>) never
  holds more than \<open>m\<close> body bytes, \<open>MAX_TRAILER_COUNT\<close> trailer fields and a line of
  \<open>MAX_TRAILER_LINE_LEN + 1\<close> bytes, after an error too; and while it reports no error, the
  bytes of the chunk it is in fit under the cap and no trailer field has an empty name.
\<close>

theorem chunked_bounds:
  assumes "m < usize_max"
  shows "case push input (chunked_new m) of
      (d, Inl e) \<Rightarrow> length (cd_body d) \<le> m \<and> length (cd_line d) \<le> MAX_TRAILER_LINE_LEN + 1 \<and>
        length (cd_trailers d) \<le> MAX_TRAILER_COUNT
    | (d, Inr n) \<Rightarrow> length (cd_body d) + state_remaining (cd_state d) \<le> m \<and>
        length (cd_line d) \<le> line_bound (cd_state d) \<and> length (cd_trailers d) \<le> MAX_TRAILER_COUNT \<and>
        [] \<notin> fst ` set (cd_trailers d)"
  using push_loop_ok [OF assms decoder_ok_new, of input 0]
  by (fastforce simp: push_def push_ok_def decoder_ok_def decoder_bounded_def split: prod.splits sum.splits)

theorem chunked_bounds_witness:
  "(2::nat) < usize_max \<and>
   (case push [0x33, 0x0D, 0x0A] (chunked_new 2) of
      (d, Inl e) \<Rightarrow> length (cd_body d) \<le> 2
    | (d, Inr n) \<Rightarrow> length (cd_body d) + state_remaining (cd_state d) \<le> 2)"
  using chunked_bounds [of 2 "[0x33, 0x0D, 0x0A]"] by (auto simp: usize_max_def split: prod.splits sum.splits)

text \<open>
  C11. Decoding inverts chunking: for a body cut into any non-empty chunks, within the cap, one push
  of the stream completes the decoder with exactly the body and no trailers, and consumes exactly the
  stream, leaving what follows it (a pipelined request) alone. \<open>encode_chunked\<close> produces such a
  stream, with the body in one chunk.
\<close>

theorem chunked_roundtrip:
  assumes "[] \<notin> set cs" "length (concat cs) \<le> m" "m \<le> usize_max"
  shows "(\<exists>d. push (chunk_stream cs @ rest) (chunked_new m) = (d, Ok (length (chunk_stream cs))) \<and>
      is_complete d \<and> cd_body d = concat cs \<and> cd_trailers d = []) \<and>
    encode_chunked body = chunk_stream (if body = [] then [] else [body])"
  using push_chunk_stream [of "chunked_new m" cs rest 0] assms
  by (simp add: push_def chunked_new_def at_chunk_def encode_chunked_stream)

theorem chunked_roundtrip_witness:
  "\<exists>d. push (chunk_stream [[0x61, 0x62], [0x63]] @ [0x47]) (chunked_new 3) =
      (d, Ok (length (chunk_stream [[0x61, 0x62], [0x63]]))) \<and>
    is_complete d \<and> cd_body d = [0x61, 0x62, 0x63] \<and> cd_trailers d = []"
  using chunked_roundtrip [of "[[0x61, 0x62], [0x63]]" 3 "[0x47]" "[]"] by (simp add: usize_max_def)

text \<open>
  The cap on a chunk-size line counts the carriage return: a line of exactly
  \<open>MAX_CHUNK_LINE_LEN\<close> bytes without the line end is refused when its carriage return arrives.
\<close>

lemma chunk_line_cap_counts_cr:
  assumes "length line = MAX_CHUNK_LINE_LEN" "0x0A \<notin> set line"
  shows "snd (push (line @ [0x0D]) (chunked_new m)) =
    Err (TooLarge (Plain (''chunk-size line exceeds '' @ dec_str MAX_CHUNK_LINE_LEN @ '' bytes'')))"
proof -
  have feed: "\<exists>l. feed_loop (s @ [0x0D]) M w l0 i = (l, False, Err (TooLarge (Plain (w @ '' exceeds '' @ dec_str M @ '' bytes''))))"
    if "length l0 + length s = M" "0x0A \<notin> set s" for s l0 i M w
    using that by (induction s arbitrary: l0 i) (auto simp: Let_def)
  then obtain l where "feed_loop (line @ [0x0D]) MAX_CHUNK_LINE_LEN ''chunk-size line'' [] 0 =
      (l, False, Err (TooLarge (Plain (''chunk-size line'' @ '' exceeds '' @ dec_str MAX_CHUNK_LINE_LEN @ '' bytes''))))"
    using assms by (metis add_0 list.size(3))
  then show ?thesis
    unfolding push_def by (subst push_loop_size) (simp_all add: chunked_new_def feed_line_def)
qed

end
