(* ===== verification/UrlPattern.thy ===== *)
theory UrlPattern
  imports Text "HOL-Library.Product_Lexorder"
begin

text \<open>
  Servlet URL patterns: \<open>UrlPattern\<close> of \<open>crates/tomcatrs-catalina/src/mapper.rs\<close> (lines 28-147).
  Scores are compared as pairs in the standard library are, lexicographically.
\<close>

section \<open>Model\<close>

datatype UrlPattern =
    Exact string
  | Prefix string
  | Extension string
  | Default

definition pattern_parse :: "string \<Rightarrow> UrlPattern" where
  "pattern_parse raw =
    (if raw = ''/'' \<or> raw = [] then Default
     else if raw = ''/*'' then Prefix []
     else
       (case strip_suffix ''/*'' raw of
          Some pre \<Rightarrow> Prefix pre
        | None \<Rightarrow>
            (case strip_prefix ''*.'' raw of
               Some ext \<Rightarrow> Extension ext
             | None \<Rightarrow> Exact raw)))"

text \<open>The test shared by prefix patterns and context paths: the path itself, or something below it.\<close>

definition under :: "string \<Rightarrow> string \<Rightarrow> bool" where
  "under p path \<longleftrightarrow> path = p \<or> (starts_with p path \<and> length p < length path \<and> path ! length p = CHR ''/'')"

fun pattern_matches :: "UrlPattern \<Rightarrow> string \<Rightarrow> bool" where
  "pattern_matches (Exact p) path \<longleftrightarrow> p = path"
| "pattern_matches (Prefix pre) path \<longleftrightarrow> pre = [] \<or> under pre path"
| "pattern_matches (Extension ext) path \<longleftrightarrow>
    (case rsplit_once CHR ''.'' (last (split_on CHR ''/'' path)) of
       Some (_, suffix) \<Rightarrow> suffix = ext
     | None \<Rightarrow> False)"
| "pattern_matches Default path \<longleftrightarrow> True"

fun specificity :: "UrlPattern \<Rightarrow> u8" where
  "specificity (Exact _) = 3"
| "specificity (Prefix _) = 2"
| "specificity (Extension _) = 1"
| "specificity Default = 0"

fun pattern_length :: "UrlPattern \<Rightarrow> nat" where
  "pattern_length (Exact p) = length p"
| "pattern_length (Prefix pre) = length pre"
| "pattern_length (Extension ext) = length ext"
| "pattern_length Default = 0"

definition match_score :: "UrlPattern \<Rightarrow> string \<Rightarrow> (u8 \<times> nat) option" where
  "match_score p path = (if \<not> pattern_matches p path then None else Some (specificity p, pattern_length p))"

fun as_pattern_string :: "UrlPattern \<Rightarrow> string" where
  "as_pattern_string (Exact p) = p"
| "as_pattern_string (Prefix pre) = (if pre = [] then ''/*'' else pre @ ''/*'')"
| "as_pattern_string (Extension ext) = ''*.'' @ ext"
| "as_pattern_string Default = ''/''"

section \<open>Lemmas\<close>

lemma under_iff: "under p path \<longleftrightarrow> path = p \<or> (\<exists>r. path = p @ CHR ''/'' # r)"
proof
  assume "under p path"
  then consider "path = p" | t where "path = p @ t" "t \<noteq> []" "t ! 0 = CHR ''/''"
    by (auto simp: under_def nth_append elim!: starts_withE)
  then show "path = p \<or> (\<exists>r. path = p @ CHR ''/'' # r)" by (metis hd_Cons_tl hd_conv_nth)
qed (auto simp: under_def)

lemma as_pattern_string_parse: "as_pattern_string (pattern_parse raw) = (if raw = [] then ''/'' else raw)"
  by (auto simp: pattern_parse_def strip_suffix_Some strip_prefix_Some split: option.split)

text \<open>Every raw string but the empty one prints back; the empty one is an alias of the default pattern.\<close>

lemma pattern_parse_as_string: "pattern_parse (as_pattern_string (pattern_parse raw)) = pattern_parse raw"
  unfolding as_pattern_string_parse by (simp add: pattern_parse_def)

text \<open>Two extension patterns that match one path are the same pattern.\<close>

lemma extension_unique:
  "pattern_matches (Extension a) path \<Longrightarrow> pattern_matches (Extension b) path \<Longrightarrow> a = b"
  by (auto split: option.splits)

lemma specificity_less_iff:
  "specificity p < specificity q \<longleftrightarrow>
    (case q of Default \<Rightarrow> False
     | Extension _ \<Rightarrow> p = Default
     | Prefix _ \<Rightarrow> (case p of Default \<Rightarrow> True | Extension _ \<Rightarrow> True | _ \<Rightarrow> False)
     | Exact _ \<Rightarrow> (case p of Exact _ \<Rightarrow> False | _ \<Rightarrow> True))"
  by (cases p; cases q) auto

end
