(* ===== verification/Filters.thy ===== *)
theory Filters
  imports UrlPattern "HOL-Library.AList"
begin

text \<open>
  Filters: \<open>crates/tomcatrs-catalina/src/filter.rs\<close>, and the parsed descriptor they come from
  (\<open>crates/tomcatrs-config/src/web_xml.rs\<close>, lines 16-71). A \<open>HashMap\<close> of which only lookups
  are made is a map; the registry's, whose length is read, is an association list without
  repeated keys. A borrowed set of names (\<open>HashSet\<close>) is a list.
\<close>

section \<open>The deployment descriptor\<close>

record ServletDef =
  sd_name :: string
  sd_class :: string
  sd_load_on_startup :: "32 word option"
  sd_init_params :: "string \<rightharpoonup> string"

record ServletMapping =
  sm_servlet_name :: string
  sm_url_pattern :: string

record XmlFilterDef =
  xf_name :: string
  xf_class :: string
  xf_init_params :: "string \<rightharpoonup> string"

record XmlFilterMapping =
  xm_filter_name :: string
  xm_url_pattern :: string

record WebXml =
  wx_servlets :: "ServletDef list"
  wx_servlet_mappings :: "ServletMapping list"
  wx_filters :: "XmlFilterDef list"
  wx_filter_mappings :: "XmlFilterMapping list"
  wx_listeners :: "string list"
  wx_welcome_files :: "string list"

section \<open>Filter declarations\<close>

datatype DispatcherType = DRequest | DForward | DInclude | DAsync | DError

definition dispatcher_parse :: "string \<Rightarrow> DispatcherType option" where
  "dispatcher_parse raw =
    (let t = to_ascii_uppercase (trim raw) in
     if t = ''REQUEST'' then Some DRequest
     else if t = ''FORWARD'' then Some DForward
     else if t = ''INCLUDE'' then Some DInclude
     else if t = ''ASYNC'' then Some DAsync
     else if t = ''ERROR'' then Some DError
     else None)"

record FilterDef =
  fd_name :: string
  fd_class :: string
  fd_init_params :: "string \<rightharpoonup> string"
  fd_async_supported :: bool

definition filter_def_new :: "string \<Rightarrow> string \<Rightarrow> FilterDef" where
  "filter_def_new name cls =
    \<lparr>fd_name = name, fd_class = cls, fd_init_params = Map.empty, fd_async_supported = False\<rparr>"

definition with_async_supported :: "bool \<Rightarrow> FilterDef \<Rightarrow> FilterDef" where
  "with_async_supported b f = f\<lparr>fd_async_supported := b\<rparr>"

definition with_init_param :: "string \<Rightarrow> string \<Rightarrow> FilterDef \<Rightarrow> FilterDef" where
  "with_init_param name val f = f\<lparr>fd_init_params := (fd_init_params f)(name \<mapsto> val)\<rparr>"

record FilterMapping =
  fm_filter_name :: string
  fm_url_patterns :: "UrlPattern list"
  fm_servlet_names :: "string list"
  fm_dispatcher_types :: "DispatcherType list"

definition default_dispatchers :: "DispatcherType list" where
  "default_dispatchers = [DRequest]"

definition for_url :: "string \<Rightarrow> UrlPattern \<Rightarrow> FilterMapping" where
  "for_url name p =
    \<lparr>fm_filter_name = name, fm_url_patterns = [p], fm_servlet_names = [], fm_dispatcher_types = default_dispatchers\<rparr>"

definition for_servlet :: "string \<Rightarrow> string \<Rightarrow> FilterMapping" where
  "for_servlet name servlet =
    \<lparr>fm_filter_name = name, fm_url_patterns = [], fm_servlet_names = [servlet], fm_dispatcher_types = default_dispatchers\<rparr>"

definition with_dispatchers :: "DispatcherType list \<Rightarrow> FilterMapping \<Rightarrow> FilterMapping" where
  "with_dispatchers types m = m\<lparr>fm_dispatcher_types := (if types = [] then default_dispatchers else types)\<rparr>"

definition covers_dispatcher :: "DispatcherType \<Rightarrow> FilterMapping \<Rightarrow> bool" where
  "covers_dispatcher dt m \<longleftrightarrow> dt \<in> set (fm_dispatcher_types m)"

definition matches_path :: "string \<Rightarrow> FilterMapping \<Rightarrow> bool" where
  "matches_path path m \<longleftrightarrow> list_ex (\<lambda>p. pattern_matches p path) (fm_url_patterns m)"

definition matches_servlet :: "string \<Rightarrow> FilterMapping \<Rightarrow> bool" where
  "matches_servlet name m \<longleftrightarrow> list_ex (\<lambda>s. s = name) (fm_servlet_names m)"

section \<open>The registry\<close>

record FilterRegistry =
  fr_defs :: "(string \<times> FilterDef) list"
  fr_mappings :: "FilterMapping list"

definition registry_new :: "FilterDef list \<Rightarrow> FilterMapping list \<Rightarrow> FilterRegistry" where
  "registry_new defs ms =
    \<lparr>fr_defs = fold (\<lambda>d acc. AList.update (fd_name d) d acc) defs [], fr_mappings = ms\<rparr>"

definition from_web_descriptor :: "WebXml \<Rightarrow> FilterRegistry" where
  "from_web_descriptor w =
    registry_new
      (map (\<lambda>f. \<lparr>fd_name = xf_name f, fd_class = xf_class f, fd_init_params = xf_init_params f,
          fd_async_supported = False\<rparr>) (wx_filters w))
      (map (\<lambda>m. for_url (xm_filter_name m) (pattern_parse (xm_url_pattern m))) (wx_filter_mappings w))"

definition registry_def :: "string \<Rightarrow> FilterRegistry \<Rightarrow> FilterDef option" where
  "registry_def name r = map_of (fr_defs r) name"

definition def_count :: "FilterRegistry \<Rightarrow> nat" where
  "def_count r = length (fr_defs r)"

section \<open>Chains\<close>

record FilterChainEntry =
  fe_def :: FilterDef
  fe_dispatcher_type :: DispatcherType

type_synonym FilterChain = "FilterChainEntry list"

definition filter_names :: "FilterChain \<Rightarrow> string list" where
  "filter_names ch = map (fd_name \<circ> fe_def) ch"

definition push_filter ::
    "FilterRegistry \<Rightarrow> DispatcherType \<Rightarrow> FilterMapping \<Rightarrow> FilterChain \<times> string list \<Rightarrow> FilterChain \<times> string list" where
  "push_filter r dt m acc =
    (let entries = fst acc; seen = snd acc in
     if fm_filter_name m \<in> set seen then (entries, seen)
     else
       (case registry_def (fm_filter_name m) r of
          Some d \<Rightarrow> (entries @ [\<lparr>fe_def = d, fe_dispatcher_type = dt\<rparr>], fm_filter_name m # seen)
        | None \<Rightarrow> (entries, seen)))"

text \<open>The first pass is over the mappings by URL, the second over those by servlet name.\<close>

definition url_pass ::
    "FilterRegistry \<Rightarrow> string \<Rightarrow> DispatcherType \<Rightarrow> FilterChain \<times> string list \<Rightarrow> FilterChain \<times> string list" where
  "url_pass r path dt acc =
    fold (\<lambda>m acc.
       if \<not> covers_dispatcher dt m then acc
       else if fm_url_patterns m = [] \<or> \<not> matches_path path m then acc
       else push_filter r dt m acc) (fr_mappings r) acc"

definition servlet_pass ::
    "FilterRegistry \<Rightarrow> string \<Rightarrow> DispatcherType \<Rightarrow> FilterChain \<times> string list \<Rightarrow> FilterChain \<times> string list" where
  "servlet_pass r servlet dt acc =
    fold (\<lambda>m acc.
       if \<not> covers_dispatcher dt m then acc
       else if fm_servlet_names m = [] \<or> \<not> matches_servlet servlet m then acc
       else push_filter r dt m acc) (fr_mappings r) acc"

definition build_for_path :: "FilterRegistry \<Rightarrow> string \<Rightarrow> string option \<Rightarrow> DispatcherType \<Rightarrow> FilterChain" where
  "build_for_path r path servlet dt =
    (let acc = url_pass r path dt ([], []) in
     fst (case servlet of Some s \<Rightarrow> servlet_pass r s dt acc | None \<Rightarrow> acc))"

text \<open>
  The walk over a chain. An invoker is what \<open>invoke\<close> does with an entry and the rest of the walk, over
  a state of its own, and what it does at the end of the chain.
\<close>

record 's FilterInvoker =
  fi_invoke :: "FilterChainEntry \<Rightarrow> ('s \<Rightarrow> 's \<times> (Error + unit)) \<Rightarrow> 's \<Rightarrow> 's \<times> (Error + unit)"
  fi_reached_end :: "'s \<Rightarrow> 's \<times> (Error + unit)"

function proceed :: "FilterChain \<Rightarrow> nat \<Rightarrow> 's FilterInvoker \<Rightarrow> 's \<Rightarrow> 's \<times> (Error + unit)" where
  "proceed ch i iv =
    (if i < length ch then fi_invoke iv (ch ! i) (proceed ch (i + 1) iv) else fi_reached_end iv)"
  by pat_completeness auto
termination by (relation "measure (\<lambda>(ch, i, iv). length ch - i)") auto

declare proceed.simps [simp del]

definition run_chain :: "FilterChain \<Rightarrow> 's FilterInvoker \<Rightarrow> 's \<Rightarrow> 's \<times> (Error + unit)" where
  "run_chain ch iv = proceed ch 0 iv"

definition noop_invoker :: "'s FilterInvoker" where
  "noop_invoker = \<lparr>fi_invoke = (\<lambda>entry next. next), fi_reached_end = (\<lambda>s. (s, Ok ()))\<rparr>"

section \<open>The order of the chain\<close>

text \<open>The names in the order of their first occurrence.\<close>

definition first_occurrences :: "'a list \<Rightarrow> 'a list" where
  "first_occurrences xs = rev (remdups (rev xs))"

text \<open>
  The chain of the Servlet specification: the declared filters of the mappings that apply, by URL and
  then by servlet name, each once.
\<close>

definition applicable :: "(FilterMapping \<Rightarrow> bool) \<Rightarrow> FilterRegistry \<Rightarrow> DispatcherType \<Rightarrow> string list" where
  "applicable sel r dt =
    map fm_filter_name (filter (\<lambda>m. covers_dispatcher dt m \<and> sel m \<and> registry_def (fm_filter_name m) r \<noteq> None)
      (fr_mappings r))"

definition spec_chain :: "FilterRegistry \<Rightarrow> string \<Rightarrow> string option \<Rightarrow> DispatcherType \<Rightarrow> string list" where
  "spec_chain r path servlet dt =
    first_occurrences (applicable (matches_path path) r dt @
      (case servlet of None \<Rightarrow> [] | Some s \<Rightarrow> applicable (matches_servlet s) r dt))"

lemma first_occurrences_Nil [simp]: "first_occurrences [] = []"
  by (simp add: first_occurrences_def)

lemma first_occurrences_snoc:
  "first_occurrences (xs @ [x]) = (if x \<in> set xs then first_occurrences xs else first_occurrences xs @ [x])"
  by (simp add: first_occurrences_def)

lemma set_first_occurrences [simp]: "set (first_occurrences xs) = set xs"
  by (simp add: first_occurrences_def)

lemma distinct_first_occurrences [simp]: "distinct (first_occurrences xs)"
  by (simp add: first_occurrences_def)

lemma matches_path_ne: "(fm_url_patterns m = [] \<or> \<not> matches_path path m) = (\<not> matches_path path m)"
  by (auto simp: matches_path_def)

lemma matches_servlet_ne: "(fm_servlet_names m = [] \<or> \<not> matches_servlet s m) = (\<not> matches_servlet s m)"
  by (auto simp: matches_servlet_def)

definition entry_of :: "FilterRegistry \<Rightarrow> DispatcherType \<Rightarrow> string \<Rightarrow> FilterChainEntry" where
  "entry_of r dt n = \<lparr>fe_def = the (registry_def n r), fe_dispatcher_type = dt\<rparr>"

lemma push_pass:
  assumes "acc = (map (entry_of r dt) (first_occurrences xs), rev (first_occurrences xs))"
  shows "fold (\<lambda>m acc. if \<not> covers_dispatcher dt m then acc else if \<not> sel m then acc else push_filter r dt m acc) ms acc
    = (let ys = first_occurrences (xs @ map fm_filter_name
          (filter (\<lambda>m. covers_dispatcher dt m \<and> sel m \<and> registry_def (fm_filter_name m) r \<noteq> None) ms))
       in (map (entry_of r dt) ys, rev ys))"
  using assms
proof (induction ms arbitrary: xs acc)
  case Nil
  then show ?case by (simp add: Let_def)
next
  case (Cons m ms)
  show ?case
  proof (cases "covers_dispatcher dt m \<and> sel m \<and> registry_def (fm_filter_name m) r \<noteq> None")
    case True
    have "push_filter r dt m acc = (map (entry_of r dt) (first_occurrences (xs @ [fm_filter_name m])),
        rev (first_occurrences (xs @ [fm_filter_name m])))"
      using Cons.prems True by (auto simp: push_filter_def Let_def first_occurrences_snoc entry_of_def)
    from Cons.IH [OF this] True show ?thesis by simp
  next
    case False
    then have "covers_dispatcher dt m \<Longrightarrow> sel m \<Longrightarrow> push_filter r dt m acc = acc"
      by (cases acc) (auto simp: push_filter_def Let_def)
    then show ?thesis using Cons False by auto
  qed
qed

lemma build_for_path_spec: "build_for_path r path servlet dt = map (entry_of r dt) (spec_chain r path servlet dt)"
proof -
  let ?u = "applicable (matches_path path) r dt"
  have u: "url_pass r path dt ([], []) =
      (map (entry_of r dt) (first_occurrences ?u), rev (first_occurrences ?u))"
    using push_pass [of "([], [])" r dt "[]" "matches_path path" "fr_mappings r"]
    by (simp add: url_pass_def matches_path_ne applicable_def Let_def cong: if_cong)
  have "servlet_pass r s dt (url_pass r path dt ([], [])) =
      (map (entry_of r dt) (first_occurrences (?u @ applicable (matches_servlet s) r dt)),
       rev (first_occurrences (?u @ applicable (matches_servlet s) r dt)))" for s
    using push_pass [OF u, of "matches_servlet s" "fr_mappings r"]
    by (simp add: servlet_pass_def matches_servlet_ne applicable_def Let_def cong: if_cong)
  then show ?thesis using u by (simp add: build_for_path_def spec_chain_def Let_def split: option.split)
qed

text \<open>A registry built from declarations knows each filter under its own name.\<close>

definition registry_inv :: "FilterRegistry \<Rightarrow> bool" where
  "registry_inv r \<longleftrightarrow> distinct (map fst (fr_defs r)) \<and> (\<forall>(n, d) \<in> set (fr_defs r). fd_name d = n)"

lemma registry_new_fold:
  "distinct (map fst acc) \<Longrightarrow> (\<forall>(n, d) \<in> set acc. fd_name d = n) \<Longrightarrow>
    (let r = fold (\<lambda>d acc. AList.update (fd_name d) d acc) defs acc
     in distinct (map fst r) \<and> (\<forall>(n, d) \<in> set r. fd_name d = n))"
proof (induction defs arbitrary: acc)
  case (Cons d defs)
  have "set (AList.update (fd_name d) d acc) \<subseteq> insert (fd_name d, d) (set acc)"
    by (induction acc) auto
  then have "\<forall>(n, e) \<in> set (AList.update (fd_name d) d acc). fd_name e = n" using Cons.prems(2) by auto
  moreover have "distinct (map fst (AList.update (fd_name d) d acc))"
    using Cons.prems(1) by (rule AList.distinct_update)
  ultimately show ?case using Cons.IH by simp
qed simp

lemma registry_new_inv: "registry_inv (registry_new defs ms)"
  using registry_new_fold [of "[]" defs] by (simp add: registry_inv_def registry_new_def Let_def)

lemma registry_def_name: "registry_inv r \<Longrightarrow> registry_def n r = Some d \<Longrightarrow> fd_name d = n"
  by (auto simp: registry_inv_def registry_def_def dest!: map_of_SomeD)

lemma spec_chain_declared: "n \<in> set (spec_chain r path s dt) \<Longrightarrow> registry_def n r \<noteq> None"
  by (auto simp: spec_chain_def applicable_def split: option.splits)

text \<open>An invoker that passes on runs every filter once and in order.\<close>

lemma proceed_trace:
  assumes "\<And>e k s. fi_invoke iv e k s = k (f e s)"
  shows "proceed ch i iv s = fi_reached_end iv (fold f (drop i ch) s)"
proof (induction "length ch - i" arbitrary: i s)
  case 0
  then show ?case by (simp add: proceed.simps)
next
  case (Suc n)
  then have "i < length ch" "n = length ch - (i + 1)" by auto
  then show ?case using Suc(1) [of "i + 1"] assms
    by (simp add: proceed.simps [of ch i] Cons_nth_drop_Suc [symmetric])
qed

section \<open>Properties\<close>

text \<open>
  C14. The chain of a request is the one the Servlet specification asks for: the filters are those of
  the URL mappings that match, in the order of the descriptor, followed by those of the mappings of
  the servlet's name; each filter runs once, where it is first named, mappings of undeclared filters
  and of other dispatcher types are passed over, and every entry carries the declaration that the
  registry has for its name.
\<close>

theorem filter_chain_order:
  "filter_names (build_for_path (registry_new defs ms) path servlet dt) = spec_chain (registry_new defs ms) path servlet dt \<and>
   distinct (spec_chain (registry_new defs ms) path servlet dt) \<and>
   list_all (\<lambda>e. registry_def (fd_name (fe_def e)) (registry_new defs ms) = Some (fe_def e) \<and> fe_dispatcher_type e = dt)
     (build_for_path (registry_new defs ms) path servlet dt)"
proof -
  let ?r = "registry_new defs ms"
  have "registry_def n ?r = Some (the (registry_def n ?r)) \<and> fd_name (the (registry_def n ?r)) = n"
    if "n \<in> set (spec_chain ?r path servlet dt)" for n
    using spec_chain_declared [OF that] registry_def_name [OF registry_new_inv] by auto
  then show ?thesis
    by (simp add: build_for_path_spec filter_names_def entry_of_def comp_def list_all_iff map_idI)
      (simp add: spec_chain_def)
qed

end
