(* ===== verification/Container.thy ===== *)
theory Container
  imports Filters
begin

text \<open>
  The container tree and its lifecycle: \<open>crates/tomcatrs-core/src/lifecycle.rs\<close> and, in
  \<open>crates/tomcatrs-catalina/src\<close>, \<open>state.rs\<close>, \<open>wrapper.rs\<close>, \<open>context.rs\<close>, \<open>host.rs\<close>,
  \<open>engine.rs\<close>, \<open>service.rs\<close> and \<open>server.rs\<close>.

  A component is a record that holds its children; the operations return the updated component with
  their result. A \<open>DashMap\<close> is an association list in the order in which it is iterated, without
  repeated keys; a \<open>OnceLock\<close> is an option; a \<open>PathBuf\<close> is its string. The connector
  configurations a service keeps for reference are left out.
\<close>

section \<open>Lifecycle states\<close>

datatype LifecycleState = New | Initialized | Starting | Started | Stopping | Stopped | Destroyed | Failed

definition is_available :: "LifecycleState \<Rightarrow> bool" where
  "is_available s \<longleftrightarrow> s = Started"

definition is_terminal :: "LifecycleState \<Rightarrow> bool" where
  "is_terminal s \<longleftrightarrow> s = Destroyed \<or> s = Failed"

text \<open>A lifecycle call on each child in turn, stopped by the first error (the \<open>?\<close> in a loop).\<close>

fun cascade :: "('a \<Rightarrow> 'a \<times> (Error + unit)) \<Rightarrow> 'a list \<Rightarrow> 'a list \<times> (Error + unit)" where
  "cascade f [] = ([], Ok ())"
| "cascade f (x # xs) =
    (case f x of
       (y, Inl e) \<Rightarrow> (y # xs, Err e)
     | (y, Inr _) \<Rightarrow> (case cascade f xs of (ys, r) \<Rightarrow> (y # ys, r)))"

definition on_value :: "('a \<Rightarrow> 'a \<times> (Error + unit)) \<Rightarrow> 'k \<times> 'a \<Rightarrow> ('k \<times> 'a) \<times> (Error + unit)" where
  "on_value f e = (case f (snd e) of (y, r) \<Rightarrow> ((fst e, y), r))"

section \<open>Wrappers\<close>

record Wrapper =
  wr_servlet_name :: string
  wr_servlet_class :: string
  wr_mappings :: "UrlPattern list"
  wr_init_params :: "string \<rightharpoonup> string"
  wr_load_on_startup :: "32 word option"
  wr_state :: LifecycleState

definition wrapper_new :: "string \<Rightarrow> string \<Rightarrow> UrlPattern list \<Rightarrow> Wrapper" where
  "wrapper_new name cls ms =
    \<lparr>wr_servlet_name = name, wr_servlet_class = cls, wr_mappings = ms, wr_init_params = Map.empty,
     wr_load_on_startup = None, wr_state = New\<rparr>"

definition with_init_params :: "(string \<rightharpoonup> string) \<Rightarrow> Wrapper \<Rightarrow> Wrapper" where
  "with_init_params ps w = w\<lparr>wr_init_params := ps\<rparr>"

definition with_load_on_startup :: "32 word option \<Rightarrow> Wrapper \<Rightarrow> Wrapper" where
  "with_load_on_startup n w = w\<lparr>wr_load_on_startup := n\<rparr>"

definition add_mapping :: "UrlPattern \<Rightarrow> Wrapper \<Rightarrow> Wrapper" where
  "add_mapping p w = w\<lparr>wr_mappings := wr_mappings w @ [p]\<rparr>"

definition set_init_param :: "string \<Rightarrow> string \<Rightarrow> Wrapper \<Rightarrow> Wrapper" where
  "set_init_param name val w = w\<lparr>wr_init_params := (wr_init_params w)(name \<mapsto> val)\<rparr>"

definition wrapper_init :: "Wrapper \<Rightarrow> Wrapper \<times> (Error + unit)" where
  "wrapper_init w = (w\<lparr>wr_state := Initialized\<rparr>, Ok ())"

definition wrapper_start :: "Wrapper \<Rightarrow> Wrapper \<times> (Error + unit)" where
  "wrapper_start w = (w\<lparr>wr_state := Started\<rparr>, Ok ())"

definition wrapper_stop :: "Wrapper \<Rightarrow> Wrapper \<times> (Error + unit)" where
  "wrapper_stop w = (w\<lparr>wr_state := Stopped\<rparr>, Ok ())"

definition wrapper_destroy :: "Wrapper \<Rightarrow> Wrapper \<times> (Error + unit)" where
  "wrapper_destroy w = (w\<lparr>wr_state := Destroyed\<rparr>, Ok ())"

section \<open>Contexts\<close>

record Context =
  cx_path :: string
  cx_doc_base :: string
  cx_reloadable :: bool
  cx_wrappers :: "Wrapper list option"
  cx_filter_registry :: "FilterRegistry option"
  cx_welcome_files :: "string list option"
  cx_listeners :: "string list option"
  cx_state :: LifecycleState

definition context_new :: "string \<Rightarrow> string \<Rightarrow> bool \<Rightarrow> Wrapper list \<Rightarrow> Context" where
  "context_new path doc_base reloadable ws =
    \<lparr>cx_path = path, cx_doc_base = doc_base, cx_reloadable = reloadable,
     cx_wrappers = (if ws \<noteq> [] then Some ws else None), cx_filter_registry = None, cx_welcome_files = None,
     cx_listeners = None, cx_state = New\<rparr>"

definition context_wrappers :: "Context \<Rightarrow> Wrapper list" where
  "context_wrappers c = (case cx_wrappers c of Some ws \<Rightarrow> ws | None \<Rightarrow> [])"

definition context_wrapper :: "string \<Rightarrow> Context \<Rightarrow> Wrapper option" where
  "context_wrapper name c = List.find (\<lambda>w. wr_servlet_name w = name) (context_wrappers c)"

definition welcome_files :: "Context \<Rightarrow> string list" where
  "welcome_files c = (case cx_welcome_files c of Some fs \<Rightarrow> fs | None \<Rightarrow> [])"

definition listeners :: "Context \<Rightarrow> string list" where
  "listeners c = (case cx_listeners c of Some ls \<Rightarrow> ls | None \<Rightarrow> [])"

text \<open>\<open>iter_mut().find\<close>: the first wrapper of that name gets the pattern.\<close>

fun apply_mapping :: "string \<Rightarrow> UrlPattern \<Rightarrow> Wrapper list \<Rightarrow> Wrapper list" where
  "apply_mapping name p [] = []"
| "apply_mapping name p (w # ws) =
    (if wr_servlet_name w = name then add_mapping p w # ws else w # apply_mapping name p ws)"

definition descriptor_wrappers :: "WebXml \<Rightarrow> Wrapper list" where
  "descriptor_wrappers x =
    fold (\<lambda>m ws. apply_mapping (sm_servlet_name m) (pattern_parse (sm_url_pattern m)) ws)
      (wx_servlet_mappings x)
      (map (\<lambda>s. with_load_on_startup (sd_load_on_startup s)
         (with_init_params (sd_init_params s) (wrapper_new (sd_name s) (sd_class s) []))) (wx_servlets x))"

definition descriptor_filters :: "WebXml \<Rightarrow> FilterRegistry" where
  "descriptor_filters x =
    registry_new
      (map (\<lambda>f. (filter_def_new (xf_name f) (xf_class f))\<lparr>fd_init_params := xf_init_params f\<rparr>) (wx_filters x))
      (map (\<lambda>m. for_url (xm_filter_name m) (pattern_parse (xm_url_pattern m))) (wx_filter_mappings x))"

text \<open>A second \<open>set\<close> of a \<open>OnceLock\<close> is ignored where the code drops its result.\<close>

definition set_once :: "'a \<Rightarrow> 'a option \<Rightarrow> 'a option" where
  "set_once x cell = (case cell of None \<Rightarrow> Some x | Some y \<Rightarrow> Some y)"

definition deploy_descriptor :: "WebXml \<Rightarrow> Context \<Rightarrow> Context \<times> (Error + unit)" where
  "deploy_descriptor x c =
    (case cx_wrappers c of
       Some _ \<Rightarrow>
         (c, Err (Deployment (''context ['' @ cx_path c @
            ''] already has servlets wired in; deploy_descriptor is single-shot'')))
     | None \<Rightarrow>
         (c\<lparr>cx_wrappers := Some (descriptor_wrappers x),
            cx_filter_registry := set_once (descriptor_filters x) (cx_filter_registry c),
            cx_welcome_files := set_once (wx_welcome_files x) (cx_welcome_files c),
            cx_listeners := set_once (wx_listeners x) (cx_listeners c)\<rparr>, Ok ()))"

record DeploymentReport =
  dr_had_web_xml :: bool
  dr_servlet_count :: nat
  dr_mapping_count :: nat
  dr_filter_count :: nat
  dr_welcome_file_count :: nat
  dr_listener_count :: nat

definition report_default :: DeploymentReport where
  "report_default =
    \<lparr>dr_had_web_xml = False, dr_servlet_count = 0, dr_mapping_count = 0, dr_filter_count = 0,
     dr_welcome_file_count = 0, dr_listener_count = 0\<rparr>"

text \<open>
  \<open>descriptor\<close> is what the file system has: the error of opening the application or of reading its
  descriptor, or the parsed descriptor if there is one.
\<close>

definition deploy :: "Error + WebXml option \<Rightarrow> Context \<Rightarrow> Context \<times> (Error + DeploymentReport)" where
  "deploy descriptor c =
    (case descriptor of
       Inl e \<Rightarrow> (c, Err e)
     | Inr None \<Rightarrow> (c, Ok report_default)
     | Inr (Some x) \<Rightarrow>
         (case deploy_descriptor x c of
            (c', Inl e) \<Rightarrow> (c', Err e)
          | (c', Inr _) \<Rightarrow>
              (c', Ok \<lparr>dr_had_web_xml = True, dr_servlet_count = length (context_wrappers c'),
                dr_mapping_count = sum_list (map (length \<circ> wr_mappings) (context_wrappers c')),
                dr_filter_count = (case cx_filter_registry c' of Some r \<Rightarrow> def_count r | None \<Rightarrow> 0),
                dr_welcome_file_count = length (welcome_files c'), dr_listener_count = length (listeners c')\<rparr>)))"

text \<open>The children, written back after a cascade.\<close>

definition with_wrappers :: "Wrapper list \<Rightarrow> Context \<Rightarrow> Context" where
  "with_wrappers ws c = c\<lparr>cx_wrappers := map_option (\<lambda>_. ws) (cx_wrappers c)\<rparr>"

definition context_cascade ::
    "(Wrapper \<Rightarrow> Wrapper \<times> (Error + unit)) \<Rightarrow> LifecycleState \<Rightarrow> Context \<Rightarrow> Context \<times> (Error + unit)" where
  "context_cascade f done c =
    (case cascade f (context_wrappers c) of
       (ws, Inl e) \<Rightarrow> (with_wrappers ws c, Err e)
     | (ws, Inr _) \<Rightarrow> ((with_wrappers ws c)\<lparr>cx_state := done\<rparr>, Ok ()))"

definition context_init :: "Context \<Rightarrow> Context \<times> (Error + unit)" where
  "context_init c = context_cascade wrapper_init Initialized c"

definition context_start :: "Context \<Rightarrow> Context \<times> (Error + unit)" where
  "context_start c = context_cascade wrapper_start Started (c\<lparr>cx_state := Starting\<rparr>)"

definition context_stop :: "Context \<Rightarrow> Context \<times> (Error + unit)" where
  "context_stop c = context_cascade wrapper_stop Stopped (c\<lparr>cx_state := Stopping\<rparr>)"

definition context_destroy :: "Context \<Rightarrow> Context \<times> (Error + unit)" where
  "context_destroy c = context_cascade wrapper_destroy Destroyed c"

section \<open>Hosts\<close>

record Host =
  ho_name :: string
  ho_aliases :: "string list"
  ho_app_base :: string
  ho_auto_deploy :: bool
  ho_contexts :: "(string \<times> Context) list"
  ho_state :: LifecycleState

definition host_new :: "string \<Rightarrow> string \<Rightarrow> string list \<Rightarrow> Context list \<Rightarrow> Host" where
  "host_new name app_base aliases ctxs =
    \<lparr>ho_name = name, ho_aliases = aliases, ho_app_base = app_base, ho_auto_deploy = True,
     ho_contexts = fold (\<lambda>c m. AList.update (cx_path c) c m) ctxs [], ho_state = New\<rparr>"

definition with_auto_deploy :: "bool \<Rightarrow> Host \<Rightarrow> Host" where
  "with_auto_deploy b h = h\<lparr>ho_auto_deploy := b\<rparr>"

definition host_context :: "string \<Rightarrow> Host \<Rightarrow> Context option" where
  "host_context path h = map_of (ho_contexts h) path"

definition add_context :: "Context \<Rightarrow> Host \<Rightarrow> Host" where
  "add_context c h = h\<lparr>ho_contexts := AList.update (cx_path c) c (ho_contexts h)\<rparr>"

definition remove_context :: "string \<Rightarrow> Host \<Rightarrow> Host \<times> Context option" where
  "remove_context path h = (h\<lparr>ho_contexts := AList.delete path (ho_contexts h)\<rparr>, host_context path h)"

definition host_cascade ::
    "(Context \<Rightarrow> Context \<times> (Error + unit)) \<Rightarrow> LifecycleState \<Rightarrow> Host \<Rightarrow> Host \<times> (Error + unit)" where
  "host_cascade f done h =
    (case cascade (on_value f) (ho_contexts h) of
       (cs, Inl e) \<Rightarrow> (h\<lparr>ho_contexts := cs\<rparr>, Err e)
     | (cs, Inr _) \<Rightarrow> (h\<lparr>ho_contexts := cs, ho_state := done\<rparr>, Ok ()))"

definition host_init :: "Host \<Rightarrow> Host \<times> (Error + unit)" where
  "host_init h = host_cascade context_init Initialized h"

definition host_start :: "Host \<Rightarrow> Host \<times> (Error + unit)" where
  "host_start h = host_cascade context_start Started (h\<lparr>ho_state := Starting\<rparr>)"

definition host_stop :: "Host \<Rightarrow> Host \<times> (Error + unit)" where
  "host_stop h = host_cascade context_stop Stopped (h\<lparr>ho_state := Stopping\<rparr>)"

definition host_destroy :: "Host \<Rightarrow> Host \<times> (Error + unit)" where
  "host_destroy h = host_cascade context_destroy Destroyed h"

section \<open>Engines\<close>

record Engine =
  en_name :: string
  en_default_host :: string
  en_hosts :: "(string \<times> Host) list"
  en_state :: LifecycleState

definition engine_new :: "string \<Rightarrow> string \<Rightarrow> Engine" where
  "engine_new name default_host =
    \<lparr>en_name = name, en_default_host = default_host, en_hosts = [], en_state = New\<rparr>"

definition engine_host :: "string \<Rightarrow> Engine \<Rightarrow> Host option" where
  "engine_host name e = map_of (en_hosts e) (to_ascii_lowercase name)"

definition add_host :: "Host \<Rightarrow> Engine \<Rightarrow> Engine" where
  "add_host h e = e\<lparr>en_hosts := AList.update (to_ascii_lowercase (ho_name h)) h (en_hosts e)\<rparr>"

definition engine_cascade ::
    "(Host \<Rightarrow> Host \<times> (Error + unit)) \<Rightarrow> LifecycleState \<Rightarrow> Engine \<Rightarrow> Engine \<times> (Error + unit)" where
  "engine_cascade f done en =
    (case cascade (on_value f) (en_hosts en) of
       (hs, Inl e) \<Rightarrow> (en\<lparr>en_hosts := hs\<rparr>, Err e)
     | (hs, Inr _) \<Rightarrow> (en\<lparr>en_hosts := hs, en_state := done\<rparr>, Ok ()))"

definition engine_init :: "Engine \<Rightarrow> Engine \<times> (Error + unit)" where
  "engine_init en =
    (if en_hosts en \<noteq> [] \<and> engine_host (en_default_host en) en = None then
       (en\<lparr>en_state := Failed\<rparr>,
        Err (Lifecycle (''engine '' @ [CHR 0x27] @ en_name en @ [CHR 0x27] @ '' default host '' @ [CHR 0x27] @
          en_default_host en @ [CHR 0x27] @ '' is not defined'')))
     else engine_cascade host_init Initialized en)"

definition engine_start :: "Engine \<Rightarrow> Engine \<times> (Error + unit)" where
  "engine_start en = engine_cascade host_start Started (en\<lparr>en_state := Starting\<rparr>)"

definition engine_stop :: "Engine \<Rightarrow> Engine \<times> (Error + unit)" where
  "engine_stop en = engine_cascade host_stop Stopped (en\<lparr>en_state := Stopping\<rparr>)"

definition engine_destroy :: "Engine \<Rightarrow> Engine \<times> (Error + unit)" where
  "engine_destroy en = engine_cascade host_destroy Destroyed en"

section \<open>Services and the server\<close>

record Service =
  se_name :: string
  se_engine :: Engine
  se_state :: LifecycleState

definition service_cascade ::
    "(Engine \<Rightarrow> Engine \<times> (Error + unit)) \<Rightarrow> LifecycleState \<Rightarrow> Service \<Rightarrow> Service \<times> (Error + unit)" where
  "service_cascade f done s =
    (case f (se_engine s) of
       (en, Inl e) \<Rightarrow> (s\<lparr>se_engine := en\<rparr>, Err e)
     | (en, Inr _) \<Rightarrow> (s\<lparr>se_engine := en, se_state := done\<rparr>, Ok ()))"

definition service_init :: "Service \<Rightarrow> Service \<times> (Error + unit)" where
  "service_init s = service_cascade engine_init Initialized s"

definition service_start :: "Service \<Rightarrow> Service \<times> (Error + unit)" where
  "service_start s = service_cascade engine_start Started (s\<lparr>se_state := Starting\<rparr>)"

definition service_stop :: "Service \<Rightarrow> Service \<times> (Error + unit)" where
  "service_stop s = service_cascade engine_stop Stopped (s\<lparr>se_state := Stopping\<rparr>)"

definition service_destroy :: "Service \<Rightarrow> Service \<times> (Error + unit)" where
  "service_destroy s = service_cascade engine_destroy Destroyed s"

record Server =
  sr_shutdown_port :: u16
  sr_shutdown_command :: string
  sr_services :: "Service list"
  sr_state :: LifecycleState

definition server_cascade ::
    "(Service \<Rightarrow> Service \<times> (Error + unit)) \<Rightarrow> LifecycleState \<Rightarrow> Server \<Rightarrow> Server \<times> (Error + unit)" where
  "server_cascade f done s =
    (case cascade f (sr_services s) of
       (ss, Inl e) \<Rightarrow> (s\<lparr>sr_services := ss\<rparr>, Err e)
     | (ss, Inr _) \<Rightarrow> (s\<lparr>sr_services := ss, sr_state := done\<rparr>, Ok ()))"

definition server_init :: "Server \<Rightarrow> Server \<times> (Error + unit)" where
  "server_init s = server_cascade service_init Initialized s"

definition server_start :: "Server \<Rightarrow> Server \<times> (Error + unit)" where
  "server_start s = server_cascade service_start Started (s\<lparr>sr_state := Starting\<rparr>)"

definition server_stop :: "Server \<Rightarrow> Server \<times> (Error + unit)" where
  "server_stop s = server_cascade service_stop Stopped (s\<lparr>sr_state := Stopping\<rparr>)"

definition server_destroy :: "Server \<Rightarrow> Server \<times> (Error + unit)" where
  "server_destroy s = server_cascade service_destroy Destroyed s"

section \<open>Building the tree from its configuration\<close>

record ContextConfig =
  cc_path :: string
  cc_doc_base :: string
  cc_reloadable :: bool

record HostConfig =
  hc_name :: string
  hc_app_base :: string
  hc_aliases :: "string list"
  hc_auto_deploy :: bool
  hc_contexts :: "ContextConfig list"

record EngineConfig =
  ec_name :: string
  ec_default_host :: string
  ec_hosts :: "HostConfig list"

record ServiceConfig =
  vc_name :: string
  vc_engine :: EngineConfig

record ServerConfig =
  rc_port :: u16
  rc_shutdown :: string
  rc_services :: "ServiceConfig list"

definition context_from_config :: "ContextConfig \<Rightarrow> Context" where
  "context_from_config k = context_new (cc_path k) (cc_doc_base k) (cc_reloadable k) []"

definition host_from_config :: "HostConfig \<Rightarrow> Host" where
  "host_from_config k =
    with_auto_deploy (hc_auto_deploy k)
      (host_new (hc_name k) (hc_app_base k) (hc_aliases k) (map context_from_config (hc_contexts k)))"

definition engine_from_config :: "EngineConfig \<Rightarrow> Engine" where
  "engine_from_config k =
    fold (\<lambda>h e. add_host (host_from_config h) e) (ec_hosts k) (engine_new (ec_name k) (ec_default_host k))"

definition service_from_config :: "ServiceConfig \<Rightarrow> Service" where
  "service_from_config k =
    \<lparr>se_name = vc_name k, se_engine = engine_from_config (vc_engine k), se_state = New\<rparr>"

definition server_from_config :: "ServerConfig \<Rightarrow> Error + Server" where
  "server_from_config k =
    (if rc_services k = [] then Err (Config ''server configuration defines no <Service> elements'')
     else Ok \<lparr>sr_shutdown_port = rc_port k, sr_shutdown_command = rc_shutdown k,
       sr_services = map service_from_config (rc_services k), sr_state = New\<rparr>)"

section \<open>Every component of the tree is in a state\<close>

definition context_in :: "LifecycleState \<Rightarrow> Context \<Rightarrow> bool" where
  "context_in st c \<longleftrightarrow> cx_state c = st \<and> list_all (\<lambda>w. wr_state w = st) (context_wrappers c)"

definition host_in :: "LifecycleState \<Rightarrow> Host \<Rightarrow> bool" where
  "host_in st h \<longleftrightarrow> ho_state h = st \<and> list_all (context_in st \<circ> snd) (ho_contexts h)"

definition engine_in :: "LifecycleState \<Rightarrow> Engine \<Rightarrow> bool" where
  "engine_in st e \<longleftrightarrow> en_state e = st \<and> list_all (host_in st \<circ> snd) (en_hosts e)"

definition service_in :: "LifecycleState \<Rightarrow> Service \<Rightarrow> bool" where
  "service_in st s \<longleftrightarrow> se_state s = st \<and> engine_in st (se_engine s)"

definition server_in :: "LifecycleState \<Rightarrow> Server \<Rightarrow> bool" where
  "server_in st s \<longleftrightarrow> sr_state s = st \<and> list_all (service_in st) (sr_services s)"

section \<open>The contract of a level of the tree\<close>

datatype lifecycle_op = Init | Start | Stop | Destroy

definition target :: "lifecycle_op \<Rightarrow> LifecycleState" where
  "target p = (case p of Init \<Rightarrow> Initialized | Start \<Rightarrow> Started | Stop \<Rightarrow> Stopped | Destroy \<Rightarrow> Destroyed)"

text \<open>
  What a parent relies on of its children: a call that reports success leaves the child and all below
  it in the state of the call, and it succeeds when the child is fit for it.
\<close>

locale lifecycle_level =
  fixes run :: "lifecycle_op \<Rightarrow> 'a \<Rightarrow> 'a \<times> (Error + unit)"
    and all_in :: "LifecycleState \<Rightarrow> 'a \<Rightarrow> bool"
    and fit :: "lifecycle_op \<Rightarrow> 'a \<Rightarrow> bool"
  assumes reaches: "run p x = (y, Ok ()) \<Longrightarrow> all_in (target p) y"
    and succeeds: "snd (run p x) = Ok () \<longleftrightarrow> fit p x"
begin

lemma cascade_reaches: "cascade (run p) xs = (ys, Ok ()) \<Longrightarrow> list_all (all_in (target p)) ys"
  by (induction xs arbitrary: ys) (auto split: prod.splits sum.splits dest: reaches)

lemma cascade_succeeds: "snd (cascade (run p) xs) = Ok () \<longleftrightarrow> list_all (fit p) xs"
proof (induction xs)
  case (Cons x xs)
  then show ?case using succeeds [of p x] by (auto split: prod.splits sum.splits)
qed simp

lemma cascade_values_reaches:
  "cascade (on_value (run p)) xs = (ys, Ok ()) \<Longrightarrow> list_all (all_in (target p) \<circ> snd) ys"
  by (induction xs arbitrary: ys) (auto simp: on_value_def split: prod.splits sum.splits dest: reaches)

lemma cascade_values_succeeds: "snd (cascade (on_value (run p)) xs) = Ok () \<longleftrightarrow> list_all (fit p \<circ> snd) xs"
proof (induction xs)
  case (Cons x xs)
  then show ?case using succeeds [of p "snd x"] by (auto simp: on_value_def split: prod.splits sum.splits)
qed simp

end

definition wrapper_run :: "lifecycle_op \<Rightarrow> Wrapper \<Rightarrow> Wrapper \<times> (Error + unit)" where
  "wrapper_run p = (case p of Init \<Rightarrow> wrapper_init | Start \<Rightarrow> wrapper_start | Stop \<Rightarrow> wrapper_stop
    | Destroy \<Rightarrow> wrapper_destroy)"

definition context_run :: "lifecycle_op \<Rightarrow> Context \<Rightarrow> Context \<times> (Error + unit)" where
  "context_run p = (case p of Init \<Rightarrow> context_init | Start \<Rightarrow> context_start | Stop \<Rightarrow> context_stop
    | Destroy \<Rightarrow> context_destroy)"

definition host_run :: "lifecycle_op \<Rightarrow> Host \<Rightarrow> Host \<times> (Error + unit)" where
  "host_run p = (case p of Init \<Rightarrow> host_init | Start \<Rightarrow> host_start | Stop \<Rightarrow> host_stop | Destroy \<Rightarrow> host_destroy)"

definition engine_run :: "lifecycle_op \<Rightarrow> Engine \<Rightarrow> Engine \<times> (Error + unit)" where
  "engine_run p = (case p of Init \<Rightarrow> engine_init | Start \<Rightarrow> engine_start | Stop \<Rightarrow> engine_stop
    | Destroy \<Rightarrow> engine_destroy)"

definition service_run :: "lifecycle_op \<Rightarrow> Service \<Rightarrow> Service \<times> (Error + unit)" where
  "service_run p = (case p of Init \<Rightarrow> service_init | Start \<Rightarrow> service_start | Stop \<Rightarrow> service_stop
    | Destroy \<Rightarrow> service_destroy)"

definition server_run :: "lifecycle_op \<Rightarrow> Server \<Rightarrow> Server \<times> (Error + unit)" where
  "server_run p = (case p of Init \<Rightarrow> server_init | Start \<Rightarrow> server_start | Stop \<Rightarrow> server_stop
    | Destroy \<Rightarrow> server_destroy)"

text \<open>Only an engine can refuse to start up: its default host has to exist.\<close>

definition engine_fit :: "lifecycle_op \<Rightarrow> Engine \<Rightarrow> bool" where
  "engine_fit p e \<longleftrightarrow> p \<noteq> Init \<or> en_hosts e = [] \<or> engine_host (en_default_host e) e \<noteq> None"

definition server_fit :: "lifecycle_op \<Rightarrow> Server \<Rightarrow> bool" where
  "server_fit p s \<longleftrightarrow> list_all (engine_fit p \<circ> se_engine) (sr_services s)"

interpretation wrappers: lifecycle_level wrapper_run "\<lambda>st w. wr_state w = st" "\<lambda>p w. True"
  by unfold_locales
    (auto simp: wrapper_run_def target_def wrapper_init_def wrapper_start_def wrapper_stop_def wrapper_destroy_def
      split: lifecycle_op.splits)

lemma context_run_cascade:
  "context_run p c = context_cascade (wrapper_run p) (target p)
    (case p of Start \<Rightarrow> c\<lparr>cx_state := Starting\<rparr> | Stop \<Rightarrow> c\<lparr>cx_state := Stopping\<rparr> | _ \<Rightarrow> c)"
  by (cases p) (simp_all add: context_run_def wrapper_run_def target_def context_init_def context_start_def
      context_stop_def context_destroy_def)

lemma wrappers_total: "snd (cascade (wrapper_run p) ws) = Ok ()"
  by (simp add: wrappers.cascade_succeeds list_all_iff)

lemma context_wrappers_with: "cascade f (context_wrappers c) = (ws, r) \<Longrightarrow> context_wrappers (with_wrappers ws c) = ws"
  by (auto simp: context_wrappers_def with_wrappers_def split: option.splits)

interpretation contexts: lifecycle_level context_run context_in "\<lambda>p c. True"
proof
  have run: "\<exists>ws. cascade (wrapper_run p) (context_wrappers c) = (ws, Ok ()) \<and>
      list_all (\<lambda>w. wr_state w = target p) ws" for p c
    using wrappers_total [of p "context_wrappers c"] wrappers.cascade_reaches [of p "context_wrappers c"]
    by (cases "cascade (wrapper_run p) (context_wrappers c)") auto
  fix p and c d :: Context
  define c0 where "c0 = (case p of Start \<Rightarrow> c\<lparr>cx_state := Starting\<rparr> | Stop \<Rightarrow> c\<lparr>cx_state := Stopping\<rparr> | _ \<Rightarrow> c)"
  obtain ws where ws: "cascade (wrapper_run p) (context_wrappers c0) = (ws, Ok ())"
    "list_all (\<lambda>w. wr_state w = target p) ws" using run by blast
  have eq: "context_run p c = ((with_wrappers ws c0)\<lparr>cx_state := target p\<rparr>, Ok ())"
    using ws(1) by (simp add: context_run_cascade context_cascade_def c0_def)
  show "context_in (target p) d" if "context_run p c = (d, Ok ())"
    using that eq ws context_wrappers_with [OF ws(1)]
    by (auto simp: context_in_def context_wrappers_def)
  show "(snd (context_run p c) = Ok ()) = True" using eq by simp
qed

lemma host_run_cascade:
  "host_run p h = host_cascade (context_run p) (target p)
    (case p of Start \<Rightarrow> h\<lparr>ho_state := Starting\<rparr> | Stop \<Rightarrow> h\<lparr>ho_state := Stopping\<rparr> | _ \<Rightarrow> h)"
  by (cases p) (simp_all add: host_run_def context_run_def target_def host_init_def host_start_def host_stop_def
      host_destroy_def)

interpretation hosts: lifecycle_level host_run host_in "\<lambda>p h. True"
proof
  fix p and h d :: Host
  show "host_in (target p) d" if "host_run p h = (d, Ok ())"
    using that unfolding host_run_cascade
    by (auto simp: host_cascade_def host_in_def split: prod.splits sum.splits dest: contexts.cascade_values_reaches)
  have "snd (host_cascade (context_run p) (target p) h0) = Ok ()" for h0
    using contexts.cascade_values_succeeds [of p "ho_contexts h0"]
    by (auto simp: host_cascade_def list_all_iff split: prod.splits sum.splits)
  then show "(snd (host_run p h) = Ok ()) = True" by (simp add: host_run_cascade)
qed

lemma engine_run_cascade:
  "engine_fit p e \<Longrightarrow> engine_run p e = engine_cascade (host_run p) (target p)
    (case p of Start \<Rightarrow> e\<lparr>en_state := Starting\<rparr> | Stop \<Rightarrow> e\<lparr>en_state := Stopping\<rparr> | _ \<Rightarrow> e)"
  by (cases p) (auto simp: engine_run_def host_run_def target_def engine_init_def engine_start_def engine_stop_def
      engine_destroy_def engine_fit_def)

lemma engine_unfit: "\<not> engine_fit p e \<Longrightarrow> \<exists>m. engine_run p e = (e\<lparr>en_state := Failed\<rparr>, Err (Lifecycle m))"
  by (auto simp: engine_fit_def engine_run_def engine_init_def)

interpretation engines: lifecycle_level engine_run engine_in engine_fit
proof
  fix p and e d :: Engine
  have total: "snd (engine_cascade (host_run p) (target p) e0) = Ok ()" for e0
    using hosts.cascade_values_succeeds [of p "en_hosts e0"]
    by (auto simp: engine_cascade_def list_all_iff split: prod.splits sum.splits)
  show fit: "(snd (engine_run p e) = Ok ()) = engine_fit p e"
    using total engine_unfit [of p e] by (cases "engine_fit p e") (auto simp: engine_run_cascade)
  show "engine_in (target p) d" if r: "engine_run p e = (d, Ok ())"
  proof -
    have "engine_fit p e" using fit r by simp
    then show ?thesis
      using r by (auto simp: engine_run_cascade engine_cascade_def engine_in_def split: prod.splits sum.splits
          dest: hosts.cascade_values_reaches)
  qed
qed

lemma service_run_cascade:
  "service_run p s = service_cascade (engine_run p) (target p)
    (case p of Start \<Rightarrow> s\<lparr>se_state := Starting\<rparr> | Stop \<Rightarrow> s\<lparr>se_state := Stopping\<rparr> | _ \<Rightarrow> s)"
  by (cases p) (simp_all add: service_run_def engine_run_def target_def service_init_def service_start_def
      service_stop_def service_destroy_def)

interpretation services: lifecycle_level service_run service_in "\<lambda>p s. engine_fit p (se_engine s)"
proof
  fix p and s d :: Service
  define s0 where "s0 = (case p of Start \<Rightarrow> s\<lparr>se_state := Starting\<rparr> | Stop \<Rightarrow> s\<lparr>se_state := Stopping\<rparr> | _ \<Rightarrow> s)"
  have e: "se_engine s0 = se_engine s" by (simp add: s0_def split: lifecycle_op.split)
  have run: "service_run p s = service_cascade (engine_run p) (target p) s0"
    by (simp add: service_run_cascade s0_def)
  show "service_in (target p) d" if "service_run p s = (d, Ok ())"
    using that engines.reaches [of p "se_engine s0"]
    by (auto simp: run service_cascade_def service_in_def split: prod.splits sum.splits)
  show "(snd (service_run p s) = Ok ()) = engine_fit p (se_engine s)"
    using engines.succeeds [of p "se_engine s0"] e by (auto simp: run service_cascade_def split: prod.splits sum.splits)
qed

lemma server_run_cascade:
  "server_run p s = server_cascade (service_run p) (target p)
    (case p of Start \<Rightarrow> s\<lparr>sr_state := Starting\<rparr> | Stop \<Rightarrow> s\<lparr>sr_state := Stopping\<rparr> | _ \<Rightarrow> s)"
  by (cases p) (simp_all add: server_run_def service_run_def target_def server_init_def server_start_def
      server_stop_def server_destroy_def)

interpretation servers: lifecycle_level server_run server_in server_fit
proof
  fix p and s d :: Server
  define s0 where "s0 = (case p of Start \<Rightarrow> s\<lparr>sr_state := Starting\<rparr> | Stop \<Rightarrow> s\<lparr>sr_state := Stopping\<rparr> | _ \<Rightarrow> s)"
  have e: "sr_services s0 = sr_services s" by (simp add: s0_def split: lifecycle_op.split)
  have run: "server_run p s = server_cascade (service_run p) (target p) s0"
    by (simp add: server_run_cascade s0_def)
  show "server_in (target p) d" if "server_run p s = (d, Ok ())"
    using that by (auto simp: run server_cascade_def server_in_def split: prod.splits sum.splits
        dest: services.cascade_reaches)
  show "(snd (server_run p s) = Ok ()) = server_fit p s"
    using services.cascade_succeeds [of p "sr_services s0"] e
    by (auto simp: run server_cascade_def server_fit_def comp_def split: prod.splits sum.splits)
qed

lemma cascade_error: "cascade f xs = (ys, Err e) \<Longrightarrow> \<exists>x y. x \<in> set xs \<and> y \<in> set ys \<and> f x = (y, Err e)"
proof (induction xs arbitrary: ys)
  case (Cons x xs)
  show ?case
  proof (cases "snd (f x)")
    case (Inl e')
    then have "f x = (fst (f x), Err e')" by (metis prod.collapse)
    then show ?thesis using Cons.prems by (cases "f x") auto
  next
    case (Inr u)
    then obtain y where y: "f x = (y, Ok u)" by (metis prod.collapse)
    then obtain ys' where ys: "cascade f xs = (ys', Err e)" "ys = y # ys'"
      using Cons.prems by (auto split: prod.splits)
    from Cons.IH [OF ys(1)] ys(2) show ?thesis by auto
  qed
qed simp

lemma service_init_error:
  "service_init v = (w, Err e) \<Longrightarrow> se_state w = se_state v \<and> en_state (se_engine w) = Failed"
proof -
  assume a: "service_init v = (w, Err e)"
  then have "\<not> engine_fit Init (se_engine v)"
    using services.succeeds [of Init v] by (simp add: service_run_def)
  then obtain m where "engine_init (se_engine v) = ((se_engine v)\<lparr>en_state := Failed\<rparr>, Err (Lifecycle m))"
    using engine_unfit [of Init "se_engine v"] by (auto simp: engine_run_def)
  then show ?thesis using a by (auto simp: service_init_def service_cascade_def)
qed

lemma server_init_error:
  assumes "server_init s = (s', Err e)"
  shows "sr_state s' = sr_state s \<and> list_ex (\<lambda>v. en_state (se_engine v) = Failed) (sr_services s')"
proof -
  obtain ss where "cascade service_init (sr_services s) = (ss, Err e)" "s' = s\<lparr>sr_services := ss\<rparr>"
    using assms by (auto simp: server_init_def server_cascade_def split: prod.splits sum.splits)
  then show ?thesis
    using cascade_error [of service_init "sr_services s" ss e] service_init_error by (auto simp: list_ex_iff)
qed

section \<open>Deployment\<close>

lemma apply_mapping_distinct:
  "distinct (map wr_servlet_name ws) \<Longrightarrow>
    apply_mapping n p ws = map (\<lambda>w. if wr_servlet_name w = n then add_mapping p w else w) ws"
  by (induction ws) (auto simp: image_iff intro!: map_idI [symmetric])

lemma apply_mappings:
  assumes "distinct (map wr_servlet_name ws)"
  shows "fold (\<lambda>m ws. apply_mapping (sm_servlet_name m) (pattern_parse (sm_url_pattern m)) ws) ms ws =
    map (\<lambda>w. w\<lparr>wr_mappings := wr_mappings w @
      map (pattern_parse \<circ> sm_url_pattern) (filter (\<lambda>m. sm_servlet_name m = wr_servlet_name w) ms)\<rparr>) ws"
  using assms
proof (induction ms arbitrary: ws)
  case (Cons m ms)
  let ?ws = "map (\<lambda>w. if wr_servlet_name w = sm_servlet_name m then add_mapping (pattern_parse (sm_url_pattern m)) w else w) ws"
  have names: "map wr_servlet_name ?ws = map wr_servlet_name ws" by (auto simp: add_mapping_def)
  have "distinct (map wr_servlet_name ?ws)" unfolding names by (rule Cons.prems)
  from Cons.IH [OF this] show ?case
    using Cons.prems by (auto simp: apply_mapping_distinct add_mapping_def)
qed simp

definition wired :: "WebXml \<Rightarrow> ServletDef \<Rightarrow> Wrapper" where
  "wired x s =
    \<lparr>wr_servlet_name = sd_name s, wr_servlet_class = sd_class s,
     wr_mappings = map (pattern_parse \<circ> sm_url_pattern) (filter (\<lambda>m. sm_servlet_name m = sd_name s) (wx_servlet_mappings x)),
     wr_init_params = sd_init_params s, wr_load_on_startup = sd_load_on_startup s, wr_state = New\<rparr>"

definition sample_descriptor :: WebXml where
  "sample_descriptor =
    \<lparr>wx_servlets = [\<lparr>sd_name = ''s'', sd_class = ''S'', sd_load_on_startup = None, sd_init_params = Map.empty\<rparr>],
     wx_servlet_mappings = [\<lparr>sm_servlet_name = ''s'', sm_url_pattern = ''/a/*''\<rparr>,
       \<lparr>sm_servlet_name = ''t'', sm_url_pattern = ''/b''\<rparr>],
     wx_filters = [], wx_filter_mappings = [], wx_listeners = [], wx_welcome_files = []\<rparr>"

lemma descriptor_wrappers_wired:
  "distinct (map sd_name (wx_servlets x)) \<Longrightarrow> descriptor_wrappers x = map (wired x) (wx_servlets x)"
  unfolding descriptor_wrappers_def
  by (subst apply_mappings)
    (simp_all add: with_load_on_startup_def with_init_params_def wrapper_new_def wired_def comp_def)

section \<open>Properties\<close>

text \<open>
  C15. The lifecycle of the tree. Initialisation succeeds exactly when every engine that has hosts has
  its default host, and then every component of the tree is initialised; when it fails an engine is
  \<open>Failed\<close>, and the server keeps the state it had. Starting, stopping and destroying always
  succeed and take every component of the tree to the state of the call, whatever state it was in.
\<close>

theorem server_lifecycle:
  "(snd (server_init s) = Ok () \<longleftrightarrow> server_fit Init s) \<and>
   (case server_init s of
      (s', Inl e) \<Rightarrow> sr_state s' = sr_state s \<and> list_ex (\<lambda>v. en_state (se_engine v) = Failed) (sr_services s')
    | (s', Inr u) \<Rightarrow> server_in Initialized s') \<and>
   (\<exists>s'. server_start s = (s', Ok ()) \<and> server_in Started s') \<and>
   (\<exists>s'. server_stop s = (s', Ok ()) \<and> server_in Stopped s') \<and>
   (\<exists>s'. server_destroy s = (s', Ok ()) \<and> server_in Destroyed s')"
proof -
  have op: "\<exists>s'. server_run p s = (s', Ok ()) \<and> server_in (target p) s'" if "p \<noteq> Init" for p
  proof -
    have "snd (server_run p s) = Ok ()"
      using that by (simp add: servers.succeeds server_fit_def engine_fit_def list_all_iff)
    then show ?thesis using servers.reaches [of p s] by (metis prod.collapse)
  qed
  have "case server_init s of
      (s', Inl e) \<Rightarrow> sr_state s' = sr_state s \<and> list_ex (\<lambda>v. en_state (se_engine v) = Failed) (sr_services s')
    | (s', Inr u) \<Rightarrow> server_in Initialized s'"
    using server_init_error [of s] servers.reaches [of Init s]
    by (auto simp: server_run_def target_def split: prod.splits sum.splits)
  moreover have "snd (server_init s) = Ok () \<longleftrightarrow> server_fit Init s"
    using servers.succeeds [of Init s] by (simp add: server_run_def)
  ultimately show ?thesis
    using op [of Start] op [of Stop] op [of Destroy]
    by (simp add: server_run_def target_def)
qed

text \<open>
  Deploying a descriptor with distinct servlet names into a context without servlets gives one
  wrapper per servlet, in the order of the descriptor, with the patterns of exactly its own mappings in
  their order; the mappings of undeclared servlets are dropped. The context cannot be deployed a second
  time, and the attempt leaves it as it is.
\<close>

lemma deploy_wires_servlets:
  assumes "distinct (map sd_name (wx_servlets x))" "cx_wrappers c = None"
  shows "\<exists>c'. deploy_descriptor x c = (c', Ok ()) \<and> cx_path c' = cx_path c \<and>
    context_wrappers c' = map (wired x) (wx_servlets x) \<and>
    (\<exists>m. deploy_descriptor y c' = (c', Err (Deployment m)))"
  using assms by (auto simp: deploy_descriptor_def descriptor_wrappers_wired context_wrappers_def)

lemma deploy_wires_servlets_witness:
  "\<exists>c'. deploy_descriptor sample_descriptor (context_new ''/app'' ''d'' False []) = (c', Ok ()) \<and>
    map wr_mappings (context_wrappers c') = [[Prefix ''/a'']]"
  using deploy_wires_servlets [of sample_descriptor "context_new ''/app'' ''d'' False []" sample_descriptor]
  by (auto simp: sample_descriptor_def context_new_def wired_def pattern_parse_def strip_suffix_def ends_with_def)

end
