(* ===== verification/Mapper.thy ===== *)
theory Mapper
  imports Container
begin

text \<open>
  Routing of requests: \<open>Mapper\<close> of \<open>crates/tomcatrs-catalina/src/mapper.rs\<close> (lines 149-359).
\<close>

section \<open>Model\<close>

record MappingResult =
  mr_host :: Host
  mr_context :: Context
  mr_wrapper :: Wrapper
  mr_servlet_path :: string
  mr_path_info :: "string option"
  mr_matched_pattern :: UrlPattern

definition normalize_host :: "string \<Rightarrow> string" where
  "normalize_host header = to_ascii_lowercase (trim (hd (split_on CHR '':'' header)))"

definition uri_under_context :: "string \<Rightarrow> string \<Rightarrow> bool" where
  "uri_under_context path uri \<longleftrightarrow> path = [] \<or> path = ''/'' \<or> under path uri"

definition strip_context_path :: "string \<Rightarrow> string \<Rightarrow> string" where
  "strip_context_path path uri =
    (let rel = (if path = [] \<or> path = ''/'' then uri
                else (case strip_prefix path uri of Some r \<Rightarrow> r | None \<Rightarrow> uri)) in
     if rel = [] then ''/'' else rel)"

fun split_servlet_path :: "UrlPattern \<Rightarrow> string \<Rightarrow> string \<times> string option" where
  "split_servlet_path (Exact _) relative = (relative, None)"
| "split_servlet_path (Extension _) relative = (relative, None)"
| "split_servlet_path (Prefix pre) relative =
    (if pre = [] then ([], if relative = [] then None else Some relative)
     else let rest = drop (length pre) relative in (pre, if rest = [] then None else Some rest))"
| "split_servlet_path Default relative = ([], Some relative)"

definition resolve_host :: "Engine \<Rightarrow> string \<Rightarrow> Host option" where
  "resolve_host en header =
    (let name = normalize_host header in
     case engine_host name en of
       Some h \<Rightarrow> Some h
     | None \<Rightarrow>
         (case List.find (\<lambda>e. list_ex (\<lambda>a. eq_ignore_ascii_case a name) (ho_aliases (snd e))) (en_hosts en) of
            Some e \<Rightarrow> Some (snd e)
          | None \<Rightarrow> engine_host (en_default_host en) en))"

text \<open>The state of the loop is the best context so far and the length of its path.\<close>

definition context_step :: "string \<Rightarrow> string \<times> Context \<Rightarrow> Context option \<times> nat \<Rightarrow> Context option \<times> nat" where
  "context_step uri e acc =
    (let best = fst acc; best_len = snd acc; path = cx_path (snd e) in
     if \<not> uri_under_context path uri then (best, best_len)
     else if best = None \<or> best_len < length path then (Some (snd e), length path)
     else (best, best_len))"

definition resolve_context :: "Host \<Rightarrow> string \<Rightarrow> Context option" where
  "resolve_context h uri = fst (fold (context_step uri) (ho_contexts h) (None, 0))"

definition resolve_wrapper :: "Context \<Rightarrow> string \<Rightarrow> (Wrapper \<times> UrlPattern) option" where
  "resolve_wrapper c relative =
    map_option (\<lambda>(w, p, _). (w, p))
      (fold (\<lambda>w best. fold (\<lambda>p best.
          case match_score p relative of
            None \<Rightarrow> best
          | Some score \<Rightarrow>
              if (case best of None \<Rightarrow> True | Some (_, _, best_score) \<Rightarrow> best_score < score)
              then Some (w, p, score) else best) (wr_mappings w) best)
        (context_wrappers c) None)"

definition map_request :: "Engine \<Rightarrow> string \<Rightarrow> string \<Rightarrow> MappingResult option" where
  "map_request en header uri =
    (case resolve_host en header of None \<Rightarrow> None
     | Some h \<Rightarrow>
         (case resolve_context h uri of None \<Rightarrow> None
          | Some c \<Rightarrow>
              let relative = strip_context_path (cx_path c) uri in
              (case resolve_wrapper c relative of None \<Rightarrow> None
               | Some (w, p) \<Rightarrow>
                   (case split_servlet_path p relative of (servlet_path, path_info) \<Rightarrow>
                      Some \<lparr>mr_host = h, mr_context = c, mr_wrapper = w, mr_servlet_path = servlet_path,
                        mr_path_info = path_info, mr_matched_pattern = p\<rparr>))))"

section \<open>The first maximum of a list\<close>

text \<open>A loop that keeps its pick unless a later element is strictly better finds the first maximum.\<close>

definition pick :: "('a \<Rightarrow> 'k::linorder) \<Rightarrow> 'a \<Rightarrow> 'a option \<Rightarrow> 'a option" where
  "pick f c best = (case best of None \<Rightarrow> Some c | Some d \<Rightarrow> if f d < f c then Some c else best)"

definition first_max :: "('a \<Rightarrow> 'k::linorder) \<Rightarrow> 'a list \<Rightarrow> 'a option" where
  "first_max f cs = (if cs = [] then None else Some (hd (filter (\<lambda>c. \<forall>d\<in>set cs. f d \<le> f c) cs)))"

lemma first_maxI:
  assumes "cs = pre @ c # post" "\<forall>d\<in>set pre. f d < f c" "\<forall>d\<in>set post. f d \<le> f c"
  shows "first_max f cs = Some c"
proof -
  have "filter (\<lambda>c. \<forall>d\<in>set cs. f d \<le> f c) pre = []"
    using assms by (auto simp: filter_empty_conv dest: leD)
  moreover have "\<forall>d\<in>set cs. f d \<le> f c" using assms by auto
  ultimately show ?thesis using assms(1) by (simp add: first_max_def)
qed

lemma first_maxE:
  assumes "first_max f cs = Some c"
  obtains pre post where "cs = pre @ c # post" "\<forall>d\<in>set pre. f d < f c" "\<forall>d\<in>set post. f d \<le> f c"
proof -
  have ne: "cs \<noteq> []" using assms by (auto simp: first_max_def)
  let ?P = "\<lambda>c. \<forall>d\<in>set cs. f d \<le> f c"
  obtain m where m: "m \<in> set cs" "f m = Max (f ` set cs)"
    using ne Max_in [of "f ` set cs"] by fastforce
  then have "?P m" by simp
  with m(1) have fne: "filter ?P cs \<noteq> []" by (auto simp: filter_empty_conv)
  then obtain rest where r: "filter ?P cs = c # rest"
    using assms ne by (cases "filter ?P cs") (auto simp: first_max_def)
  then obtain pre post where s: "cs = pre @ c # post" "\<forall>d\<in>set pre. \<not> ?P d" "?P c"
    by (auto simp: filter_eq_Cons_iff)
  have "\<forall>d\<in>set pre. f d < f c"
    using s(2,3) by (metis leD le_less_linear order_trans)
  moreover have "\<forall>d\<in>set post. f d \<le> f c" using s by simp
  ultimately show ?thesis using that s(1) by blast
qed

lemma fold_pick: "fold (pick f) cs None = first_max f cs"
proof (induction cs rule: rev_induct)
  case (snoc x cs)
  show ?case
  proof (cases "first_max f cs")
    case None
    then have "cs = []" by (auto simp: first_max_def split: if_splits)
    then show ?thesis by (simp add: pick_def first_max_def)
  next
    case (Some c)
    then obtain pre post where s: "cs = pre @ c # post" "\<forall>d\<in>set pre. f d < f c" "\<forall>d\<in>set post. f d \<le> f c"
      by (rule first_maxE)
    have "first_max f (cs @ [x]) = (if f c < f x then Some x else Some c)"
    proof (cases "f c < f x")
      case True
      then have "\<forall>d\<in>set cs. f d < f x" using s by auto
      then have "first_max f (cs @ [x]) = Some x" by (intro first_maxI [of _ cs x "[]"]) auto
      with True show ?thesis by simp
    next
      case False
      then have "first_max f (cs @ [x]) = Some c"
        using s by (intro first_maxI [of _ pre c "post @ [x]"]) auto
      with False show ?thesis by simp
    qed
    then show ?thesis using snoc Some by (simp add: pick_def)
  qed
qed (simp add: first_max_def)

lemma first_max_None [simp]: "first_max f cs = None \<longleftrightarrow> cs = []"
  by (simp add: first_max_def)

lemma first_max_mem: "first_max f cs = Some c \<Longrightarrow> c \<in> set cs \<and> (\<forall>d\<in>set cs. f d \<le> f c)"
  by (erule first_maxE) (auto intro: less_imp_le)

section \<open>Wrappers\<close>

text \<open>The candidates in the order of the loops.\<close>

definition candidates :: "Context \<Rightarrow> string \<Rightarrow> (Wrapper \<times> UrlPattern) list" where
  "candidates c rel =
    filter (\<lambda>(w, p). pattern_matches p rel)
      (concat (map (\<lambda>w. map (Pair w) (wr_mappings w)) (context_wrappers c)))"

definition score :: "Wrapper \<times> UrlPattern \<Rightarrow> u8 \<times> nat" where
  "score c = (specificity (snd c), pattern_length (snd c))"

definition scored :: "Wrapper \<times> UrlPattern \<Rightarrow> Wrapper \<times> UrlPattern \<times> u8 \<times> nat" where
  "scored c = (fst c, snd c, score c)"

lemma inner_loop:
  "fold (\<lambda>p best. case match_score p rel of None \<Rightarrow> best
      | Some s \<Rightarrow> if (case best of None \<Rightarrow> True | Some (_, _, bs) \<Rightarrow> bs < s) then Some (w, p, s) else best)
      ps (map_option scored b) =
    map_option scored (fold (pick score) (filter (\<lambda>(w, p). pattern_matches p rel) (map (Pair w) ps)) b)"
proof (induction ps arbitrary: b)
  case (Cons p ps)
  have "(case match_score p rel of None \<Rightarrow> map_option scored b
      | Some s \<Rightarrow> if (case map_option scored b of None \<Rightarrow> True | Some (_, _, bs) \<Rightarrow> bs < s) then Some (w, p, s)
          else map_option scored b) =
    map_option scored (if pattern_matches p rel then pick score (w, p) b else b)"
    by (cases b) (auto simp: match_score_def pick_def scored_def score_def)
  then show ?case using Cons.IH by simp
qed simp

lemma resolve_wrapper_first_max: "resolve_wrapper c rel = first_max score (candidates c rel)"
proof -
  have "fold (\<lambda>w. fold (\<lambda>p best. case match_score p rel of None \<Rightarrow> best
      | Some s \<Rightarrow> if (case best of None \<Rightarrow> True | Some (_, _, bs) \<Rightarrow> bs < s) then Some (w, p, s) else best)
      (wr_mappings w)) ws (map_option scored b) =
    map_option scored (fold (pick score) (filter (\<lambda>(w, p). pattern_matches p rel)
      (concat (map (\<lambda>w. map (Pair w) (wr_mappings w)) ws))) b)" for ws b
    by (induction ws arbitrary: b) (simp_all add: inner_loop)
  from this [of "context_wrappers c" None] show ?thesis
    unfolding resolve_wrapper_def candidates_def
    by (simp add: fold_pick option.map_comp comp_def scored_def case_prod_beta option.map_ident)
qed

text \<open>The rule of the Servlet specification, by kinds of pattern.\<close>

definition is_exact :: "UrlPattern \<Rightarrow> bool" where
  "is_exact p \<longleftrightarrow> (case p of Exact _ \<Rightarrow> True | _ \<Rightarrow> False)"

definition is_prefix :: "UrlPattern \<Rightarrow> bool" where
  "is_prefix p \<longleftrightarrow> (case p of Prefix _ \<Rightarrow> True | _ \<Rightarrow> False)"

definition is_extension :: "UrlPattern \<Rightarrow> bool" where
  "is_extension p \<longleftrightarrow> (case p of Extension _ \<Rightarrow> True | _ \<Rightarrow> False)"

definition spec_wrapper :: "Context \<Rightarrow> string \<Rightarrow> (Wrapper \<times> UrlPattern) option" where
  "spec_wrapper c rel =
    (let cs = candidates c rel; of_kind = (\<lambda>k. filter (k \<circ> snd) cs) in
     if of_kind is_exact \<noteq> [] then Some (hd (of_kind is_exact))
     else if of_kind is_prefix \<noteq> [] then first_max (pattern_length \<circ> snd) (of_kind is_prefix)
     else if of_kind is_extension \<noteq> [] then Some (hd (of_kind is_extension))
     else if cs \<noteq> [] then Some (hd cs)
     else None)"

text \<open>Only the elements of the best kind count.\<close>

lemma first_max_filter:
  assumes "filter K cs \<noteq> []" "\<And>x y. x \<in> set cs \<Longrightarrow> y \<in> set cs \<Longrightarrow> K y \<Longrightarrow> \<not> K x \<Longrightarrow> f x < f y"
  shows "first_max f cs = first_max f (filter K cs)"
proof -
  obtain k where k: "k \<in> set cs" "K k" using assms(1) by (auto simp: filter_empty_conv)
  have "(\<forall>d\<in>set cs. f d \<le> f c) \<longleftrightarrow> K c \<and> (\<forall>d\<in>set (filter K cs). f d \<le> f c)" if c: "c \<in> set cs" for c
  proof
    assume "\<forall>d\<in>set cs. f d \<le> f c"
    then show "K c \<and> (\<forall>d\<in>set (filter K cs). f d \<le> f c)" using assms(2) [OF c k] k by (auto dest: leD)
  next
    assume a: "K c \<and> (\<forall>d\<in>set (filter K cs). f d \<le> f c)"
    show "\<forall>d\<in>set cs. f d \<le> f c"
    proof
      fix d assume "d \<in> set cs"
      then show "f d \<le> f c" using a assms(2) [of d c] c by (cases "K d") auto
    qed
  qed
  then have "filter (\<lambda>c. \<forall>d\<in>set cs. f d \<le> f c) cs =
      filter (\<lambda>c. \<forall>d\<in>set (filter K cs). f d \<le> f c) (filter K cs)"
    unfolding filter_filter by (intro filter_cong) auto
  moreover have "cs \<noteq> []" using assms(1) by auto
  ultimately show ?thesis using assms(1) by (simp add: first_max_def)
qed

lemma first_max_const:
  assumes "cs \<noteq> []" "\<And>x y. x \<in> set cs \<Longrightarrow> y \<in> set cs \<Longrightarrow> f x = f y"
  shows "first_max f cs = Some (hd cs)"
proof -
  obtain x xs where "cs = x # xs" using assms(1) by (cases cs) auto
  then show ?thesis using assms(2) by (intro first_maxI [of _ "[]" _ xs]) (auto intro: eq_refl)
qed

lemma first_max_cong:
  assumes "\<And>x y. x \<in> set cs \<Longrightarrow> y \<in> set cs \<Longrightarrow> f x \<le> f y \<longleftrightarrow> g x \<le> g y"
  shows "first_max f cs = first_max g cs"
proof -
  have "filter (\<lambda>c. \<forall>d\<in>set cs. f d \<le> f c) cs = filter (\<lambda>c. \<forall>d\<in>set cs. g d \<le> g c) cs"
    using assms by (intro filter_cong) auto
  then show ?thesis by (simp add: first_max_def)
qed

lemma candidate_matches: "c \<in> set (candidates cx rel) \<Longrightarrow> pattern_matches (snd c) rel"
  by (auto simp: candidates_def)

lemmas kind_defs = is_exact_def is_prefix_def is_extension_def

lemma score_kinds:
  assumes "pattern_matches p rel" "pattern_matches q rel"
  shows "is_exact p \<Longrightarrow> is_exact q \<Longrightarrow> p = q" "is_extension p \<Longrightarrow> is_extension q \<Longrightarrow> p = q"
    "is_exact q \<Longrightarrow> \<not> is_exact p \<Longrightarrow> specificity p < specificity q"
    "is_prefix q \<Longrightarrow> \<not> is_exact p \<Longrightarrow> \<not> is_prefix p \<Longrightarrow> specificity p < specificity q"
    "is_extension q \<Longrightarrow> \<not> is_exact p \<Longrightarrow> \<not> is_prefix p \<Longrightarrow> \<not> is_extension p \<Longrightarrow> specificity p < specificity q"
    "is_prefix p \<Longrightarrow> is_prefix q \<Longrightarrow> specificity p = specificity q"
    "\<not> is_exact p \<Longrightarrow> \<not> is_prefix p \<Longrightarrow> \<not> is_extension p \<Longrightarrow> p = Default"
  using assms by (cases p; cases q; auto simp: kind_defs split: option.splits)+

lemma first_max_kind:
  assumes "filter (K \<circ> snd) cs \<noteq> []"
    "\<And>x y. x \<in> set cs \<Longrightarrow> y \<in> set cs \<Longrightarrow> K (snd y) \<Longrightarrow> \<not> K (snd x) \<Longrightarrow> specificity (snd x) < specificity (snd y)"
  shows "first_max score cs = first_max score (filter (K \<circ> snd) cs)"
  using assms by (intro first_max_filter) (auto simp: score_def)

lemma resolve_wrapper_spec: "resolve_wrapper c rel = spec_wrapper c rel"
proof -
  define cs where "cs = candidates c rel"
  note m = candidate_matches [of _ c rel, folded cs_def]
  let ?k = "\<lambda>K. filter (K \<circ> snd) cs"
  consider (ex) "?k is_exact \<noteq> []" | (pre) "?k is_exact = []" "?k is_prefix \<noteq> []"
    | (ext) "?k is_exact = []" "?k is_prefix = []" "?k is_extension \<noteq> []"
    | (def_only) "?k is_exact = []" "?k is_prefix = []" "?k is_extension = []" by blast
  then have "first_max score cs = spec_wrapper c rel"
  proof cases
    case ex
    then have "first_max score cs = first_max score (?k is_exact)" by (rule first_max_kind) (auto intro: score_kinds(3) m)
    also have "\<dots> = Some (hd (?k is_exact))"
      using ex by (intro first_max_const) (auto simp: score_def dest: score_kinds(1) [OF m m])
    finally show ?thesis using ex by (simp add: spec_wrapper_def cs_def)
  next
    case pre
    then have no: "x \<in> set cs \<Longrightarrow> \<not> is_exact (snd x)" for x by (auto simp: filter_empty_conv)
    have "first_max score cs = first_max score (?k is_prefix)"
      using pre(2) by (rule first_max_kind) (auto intro: score_kinds(4) m dest: no)
    also have "\<dots> = first_max (pattern_length \<circ> snd) (?k is_prefix)"
      by (rule first_max_cong) (auto simp: score_def dest: score_kinds(6) [OF m m])
    finally show ?thesis using pre by (simp add: spec_wrapper_def cs_def)
  next
    case ext
    then have no: "x \<in> set cs \<Longrightarrow> \<not> is_exact (snd x) \<and> \<not> is_prefix (snd x)" for x by (auto simp: filter_empty_conv)
    have "first_max score cs = first_max score (?k is_extension)"
      using ext(3) by (rule first_max_kind) (auto intro: score_kinds(5) m dest: no)
    also have "\<dots> = Some (hd (?k is_extension))"
      using ext(3) by (intro first_max_const) (auto simp: score_def dest: score_kinds(2) [OF m m])
    finally show ?thesis using ext by (simp add: spec_wrapper_def cs_def)
  next
    case def_only
    then have "x \<in> set cs \<Longrightarrow> snd x = Default" for x
      using score_kinds(7) [OF m m] by (auto simp: filter_empty_conv)
    then have "cs \<noteq> [] \<Longrightarrow> first_max score cs = Some (hd cs)"
      by (intro first_max_const) (auto simp: score_def)
    then show ?thesis using def_only by (cases "cs = []") (simp_all add: spec_wrapper_def cs_def [symmetric])
  qed
  then show ?thesis by (simp add: resolve_wrapper_first_max cs_def)
qed

section \<open>Contexts\<close>

definition host_inv :: "Host \<Rightarrow> bool" where
  "host_inv h \<longleftrightarrow> distinct (map fst (ho_contexts h)) \<and> list_all (\<lambda>(k, c). k = cx_path c) (ho_contexts h)"

lemma host_inv_add: "host_inv h \<Longrightarrow> host_inv (add_context c h)"
proof -
  assume a: "host_inv h"
  have "set (AList.update (cx_path c) c m) \<subseteq> insert (cx_path c, c) (set m)" for m by (induction m) auto
  then show ?thesis
    using a by (fastforce simp: host_inv_def add_context_def list_all_iff AList.distinct_update)
qed

lemma host_inv_remove: "host_inv h \<Longrightarrow> host_inv (fst (remove_context path h))"
  by (auto simp: host_inv_def remove_context_def list_all_iff distinct_map_filter AList.delete_eq)

lemma host_inv_new: "host_inv (host_new name base aliases ctxs)"
proof -
  have "host_inv (fold add_context cs h)" if "host_inv h" for cs h
    using that by (induction cs arbitrary: h) (auto intro: host_inv_add)
  moreover have "ho_contexts (fold add_context cs h) = fold (\<lambda>c m. AList.update (cx_path c) c m) cs (ho_contexts h)" for cs h
    by (induction cs arbitrary: h) (simp_all add: add_context_def)
  moreover have "host_inv \<lparr>ho_name = name, ho_aliases = aliases, ho_app_base = base, ho_auto_deploy = True,
     ho_contexts = [], ho_state = New\<rparr>" by (simp add: host_inv_def)
  ultimately show ?thesis
    unfolding host_new_def host_inv_def by (metis (no_types, lifting) Host.select_convs(5))
qed

definition matching_contexts :: "Host \<Rightarrow> string \<Rightarrow> Context list" where
  "matching_contexts h uri = filter (\<lambda>c. uri_under_context (cx_path c) uri) (map snd (ho_contexts h))"

definition with_len :: "Context option \<Rightarrow> Context option \<times> nat" where
  "with_len b = (b, case b of None \<Rightarrow> 0 | Some c \<Rightarrow> length (cx_path c))"

lemma context_step_pick:
  "context_step uri e (with_len b) =
    with_len (if uri_under_context (cx_path (snd e)) uri then pick (length \<circ> cx_path) (snd e) b else b)"
  by (cases b) (auto simp: context_step_def with_len_def pick_def Let_def)

lemma resolve_context_first_max:
  "resolve_context h uri = first_max (length \<circ> cx_path) (matching_contexts h uri)"
proof -
  have "fold (context_step uri) es (with_len b) =
    with_len (fold (pick (length \<circ> cx_path)) (filter (\<lambda>c. uri_under_context (cx_path c) uri) (map snd es)) b)" for es b
    by (induction es arbitrary: b) (simp_all add: context_step_pick)
  from this [of "ho_contexts h" None] show ?thesis
    by (simp add: resolve_context_def matching_contexts_def fold_pick with_len_def)
qed

lemma matching_contexts_iff:
  "host_inv h \<Longrightarrow> c \<in> set (matching_contexts h uri) \<longleftrightarrow>
    (cx_path c, c) \<in> set (ho_contexts h) \<and> uri_under_context (cx_path c) uri"
  by (force simp: matching_contexts_def host_inv_def list_all_iff)

text \<open>Two context paths of the same length that serve one URI are the same.\<close>

lemma under_context_same:
  assumes "uri_under_context a uri" "uri_under_context b uri" "length a = length b" "starts_with ''/'' uri"
  shows "a = b"
proof -
  have "take (length p) uri = p" if "uri_under_context p uri" for p
    using that assms(4) by (auto simp: uri_under_context_def under_iff starts_with_def)
  then show ?thesis using assms by metis
qed

lemma resolve_context_longest:
  assumes "host_inv h" "starts_with ''/'' uri"
  shows "resolve_context h uri = Some c \<longleftrightarrow>
    (cx_path c, c) \<in> set (ho_contexts h) \<and> uri_under_context (cx_path c) uri \<and>
    (\<forall>d. (cx_path d, d) \<in> set (ho_contexts h) \<longrightarrow> uri_under_context (cx_path d) uri \<longrightarrow>
      length (cx_path d) \<le> length (cx_path c))" (is "_ \<longleftrightarrow> ?longest")
proof
  assume "resolve_context h uri = Some c"
  then show ?longest
    unfolding resolve_context_first_max
    by (auto dest!: first_max_mem simp: matching_contexts_iff [OF assms(1)])
next
  assume r: ?longest
  then have cm: "c \<in> set (matching_contexts h uri)" by (simp add: matching_contexts_iff [OF assms(1)])
  then have "matching_contexts h uri \<noteq> []" by auto
  then obtain d where d: "first_max (length \<circ> cx_path) (matching_contexts h uri) = Some d" by fastforce
  from first_max_mem [OF d] have dm: "(cx_path d, d) \<in> set (ho_contexts h)" "uri_under_context (cx_path d) uri"
    "length (cx_path c) \<le> length (cx_path d)" using cm by (auto simp: matching_contexts_iff [OF assms(1)])
  then have "length (cx_path c) = length (cx_path d)" using r by (auto intro: le_antisym)
  then have "cx_path c = cx_path d" using under_context_same [of "cx_path c" uri "cx_path d"] r dm assms(2) by simp
  then have "c = d" using r dm(1) assms(1) by (metis eq_key_imp_eq_value host_inv_def)
  then show "resolve_context h uri = Some c" using d by (simp add: resolve_context_first_max)
qed

section \<open>Paths\<close>

definition context_prefix :: "Context \<Rightarrow> string" where
  "context_prefix c = (if cx_path c = ''/'' then [] else cx_path c)"

definition info_text :: "string option \<Rightarrow> string" where
  "info_text i = (case i of None \<Rightarrow> [] | Some s \<Rightarrow> s)"

lemma strip_context_path_eq:
  assumes "uri_under_context (cx_path c) uri"
  shows "context_prefix c @ strip_context_path (cx_path c) uri = (if uri = context_prefix c then uri @ ''/'' else uri)"
proof -
  have "uri = context_prefix c @ drop (length (context_prefix c)) uri"
    using assms by (auto simp: uri_under_context_def context_prefix_def under_iff)
  moreover have "strip_context_path (cx_path c) uri =
      (if drop (length (context_prefix c)) uri = [] then ''/'' else drop (length (context_prefix c)) uri)"
    using assms
    by (auto simp: strip_context_path_def context_prefix_def uri_under_context_def strip_prefix_def under_def Let_def
        starts_with_def)
  ultimately show ?thesis by (metis append.right_neutral append_eq_conv_conj)
qed

lemma split_servlet_path_eq:
  assumes "pattern_matches p rel" "split_servlet_path p rel = (sp, info)"
  shows "sp @ info_text info = rel"
  using assms by (cases p) (auto simp: info_text_def under_iff Let_def split: if_splits)

lemma candidates_mem:
  "(w, p) \<in> set (candidates c rel) \<longleftrightarrow> w \<in> set (context_wrappers c) \<and> p \<in> set (wr_mappings w) \<and> pattern_matches p rel"
  by (auto simp: candidates_def)

lemma map_request_parts:
  assumes "map_request en header uri = Some r"
  shows "resolve_host en header = Some (mr_host r)" "resolve_context (mr_host r) uri = Some (mr_context r)"
    "(mr_wrapper r, mr_matched_pattern r) \<in> set (candidates (mr_context r) (strip_context_path (cx_path (mr_context r)) uri))"
    "split_servlet_path (mr_matched_pattern r) (strip_context_path (cx_path (mr_context r)) uri) =
      (mr_servlet_path r, mr_path_info r)"
  using assms
  by (auto simp: map_request_def resolve_wrapper_first_max Let_def split: option.splits prod.splits dest: first_max_mem)

lemma map_request_path:
  assumes "map_request en header uri = Some r"
  shows "context_prefix (mr_context r) @ mr_servlet_path r @ info_text (mr_path_info r) =
    (if uri = context_prefix (mr_context r) then uri @ ''/'' else uri)"
proof -
  note m = map_request_parts [OF assms]
  have "uri_under_context (cx_path (mr_context r)) uri"
    using first_max_mem [OF m(2) [unfolded resolve_context_first_max]] by (simp add: matching_contexts_def)
  from strip_context_path_eq [OF this] show ?thesis
    using split_servlet_path_eq [OF _ m(4)] m(3) by (simp add: candidates_mem)
qed

section \<open>Two consequences\<close>

text \<open>A pattern \<open>/*\<close> wins over an extension pattern; the comment on its parsing says it loses.\<close>

lemma slash_star_beats_extension:
  "match_score (Extension e) path = Some s \<Longrightarrow>
    \<exists>t. match_score (pattern_parse ''/*'') path = Some t \<and> s < t"
  by (auto simp: match_score_def pattern_parse_def split: if_splits)

text \<open>The port is cut off at the first colon, which an IPv6 literal has inside its brackets.\<close>

lemma ipv6_hosts_not_told_apart: "resolve_host en (''[::1]:8080'') = resolve_host en (''[::2]:8080'')"
  by (simp add: resolve_host_def normalize_host_def)

section \<open>Properties\<close>

text \<open>
  C13. The servlet is chosen as the Servlet specification says: an exact match, else the longest matching
  path prefix, else an extension match, else the default pattern; among equals the first in the order
  of the descriptor. When no pattern matches there is none.
\<close>

theorem servlet_precedence: "resolve_wrapper c rel = spec_wrapper c rel"
  by (rule resolve_wrapper_spec)

text \<open>
  The context is the one with the longest path that is the URI or a directory above it, whatever
  order the host's contexts are iterated in: that condition determines it.
\<close>

lemma context_longest_prefix:
  assumes "host_inv h" "starts_with ''/'' uri"
  shows "resolve_context h uri = Some c \<longleftrightarrow>
    (cx_path c, c) \<in> set (ho_contexts h) \<and> uri_under_context (cx_path c) uri \<and>
    (\<forall>d. (cx_path d, d) \<in> set (ho_contexts h) \<longrightarrow> uri_under_context (cx_path d) uri \<longrightarrow>
      length (cx_path d) \<le> length (cx_path c))"
  using assms by (rule resolve_context_longest)

definition sample_host :: Host where
  "sample_host = host_new ''localhost'' ''webapps'' [''www'']
    [context_new [] ''ROOT'' False [], context_new ''/app'' ''app'' False
      [wrapper_new ''api'' ''Api'' [Prefix ''/api'']]]"

lemma context_longest_prefix_witness:
  "resolve_context sample_host ''/app/api/x'' =
    Some (context_new ''/app'' ''app'' False [wrapper_new ''api'' ''Api'' [Prefix ''/api'']])"
proof -
  have h: "host_inv sample_host" by (simp add: sample_host_def host_inv_new)
  have u: "starts_with ''/'' ''/app/api/x''" by (simp add: starts_with_def)
  show ?thesis
    unfolding context_longest_prefix [OF h u]
    by (auto simp: sample_host_def host_new_def context_new_def uri_under_context_def under_def starts_with_def)
qed

text \<open>
  A mapped request is taken apart without loss: the path of the context (the root's is empty), the
  servlet path and the path info put together are the URI again, with a slash added when the URI is
  the context's path itself. The wrapper is one of the context's and the pattern one of its own.
\<close>

lemma mapping_decomposes_uri:
  assumes "map_request en header uri = Some r"
  shows "context_prefix (mr_context r) @ mr_servlet_path r @ info_text (mr_path_info r) =
      (if uri = context_prefix (mr_context r) then uri @ ''/'' else uri) \<and>
    mr_wrapper r \<in> set (context_wrappers (mr_context r)) \<and> mr_matched_pattern r \<in> set (wr_mappings (mr_wrapper r)) \<and>
    resolve_host en header = Some (mr_host r) \<and> resolve_context (mr_host r) uri = Some (mr_context r)"
  using map_request_path [OF assms] map_request_parts [OF assms] by (simp add: candidates_mem)

lemma mapping_decomposes_uri_witness:
  "\<exists>r. map_request (add_host sample_host (engine_new ''Catalina'' ''localhost'')) ''other:80'' ''/app/api/x'' = Some r \<and>
    context_prefix (mr_context r) @ mr_servlet_path r @ info_text (mr_path_info r) = ''/app/api/x''"
proof -
  let ?en = "add_host sample_host (engine_new ''Catalina'' ''localhost'')"
  have t: "trim ''other'' = ''other''" by (rule trim_visible) (auto simp: visible_def byte_of_def)
  obtain r where r: "map_request ?en ''other:80'' ''/app/api/x'' = Some r" "cx_path (mr_context r) = ''/app''"
    by (simp add: map_request_def resolve_host_def normalize_host_def t engine_host_def add_host_def engine_new_def
        to_ascii_lowercase_def to_ascii_lower_def sample_host_def host_new_def context_new_def eq_ignore_ascii_case_def
        resolve_context_def context_step_def uri_under_context_def under_def starts_with_def strip_context_path_def
        strip_prefix_def resolve_wrapper_def context_wrappers_def wrapper_new_def match_score_def Let_def)
  from mapping_decomposes_uri [OF r(1)] r show ?thesis
    by (auto simp: context_prefix_def)
qed

end
