(* ===== verification/Socket.thy ===== *)
theory Socket
  imports Wire
begin

text \<open>
  What the connectors see of a socket: the list of what its reads will meet, bytes that arrive, a
  wait that outlasts the timeout in force, or a fault; at the end of the list the peer has closed. A
  read takes at most as many bytes as its buffer holds and leaves the rest of an arrival for the next
  one; a read without a timeout waits on.
\<close>

section \<open>Reads\<close>

datatype ReadEvent = Arrive bytes | Idle | Fault

datatype ReadResult = Got bytes | Eof | ReadFailed | Elapsed

fun stream_read :: "nat \<Rightarrow> bool \<Rightarrow> ReadEvent list \<Rightarrow> ReadResult \<times> ReadEvent list" where
  "stream_read n timed [] = (Eof, [])"
| "stream_read n timed (Arrive bs # es) =
    (if bs = [] then stream_read n timed es
     else (Got (take n bs), if length bs \<le> n then es else Arrive (drop n bs) # es))"
| "stream_read n timed (Idle # es) = (if timed then (Elapsed, es) else stream_read n timed es)"
| "stream_read n timed (Fault # es) = (ReadFailed, es)"

definition arriving :: "ReadEvent list \<Rightarrow> bytes" where
  "arriving es = concat (map (\<lambda>e. case e of Arrive bs \<Rightarrow> bs | _ \<Rightarrow> []) es)"

definition events_size :: "ReadEvent list \<Rightarrow> nat" where
  "events_size es = sum_list (map (\<lambda>e. case e of Arrive bs \<Rightarrow> Suc (length bs) | _ \<Rightarrow> 1) es)"

lemma arriving_simps [simp]:
  "arriving [] = []" "arriving (Arrive bs # es) = bs @ arriving es" "arriving (Idle # es) = arriving es"
  "arriving (Fault # es) = arriving es"
  by (simp_all add: arriving_def)

lemma events_size_simps [simp]:
  "events_size [] = 0" "events_size (Arrive bs # es) = Suc (length bs + events_size es)"
  "events_size (Idle # es) = Suc (events_size es)" "events_size (Fault # es) = Suc (events_size es)"
  by (simp_all add: events_size_def)

lemma stream_read_Got:
  "stream_read n timed es = (Got bs, es') \<Longrightarrow> 0 < n \<Longrightarrow>
    arriving es = bs @ arriving es' \<and> bs \<noteq> [] \<and> length bs \<le> n \<and> events_size es' < events_size es"
  by (induction n timed es rule: stream_read.induct) (auto split: if_splits)

lemma stream_read_size:
  "stream_read n timed es = (Got bs, es') \<Longrightarrow> 0 < n \<Longrightarrow> length bs + events_size es' \<le> events_size es"
  by (induction n timed es rule: stream_read.induct) (auto split: if_splits)

end
