(* ===== verification/Http1.thy ===== *)
theory Http1
  imports Message Chunked Socket
begin

text \<open>
  HTTP/1.1: \<open>crates/tomcatrs-coyote/src/http1.rs\<close>.

  The socket is the list of events of \<open>Socket\<close>; writes succeed. The argument of an error text that the code prints quoted is
  printed as it is, between quotes.
\<close>

section \<open>Heads\<close>

definition H1_HEADER_BLOCK_HARD_CAP :: nat where
  "H1_HEADER_BLOCK_HARD_CAP = 1024 * 1024"

record RequestLimits =
  max_header_count :: nat
  max_header_size :: nat
  max_post_size :: nat
  max_uri_len :: nat

datatype ReadOutcome =
    Parsed Request
  | ConnectionClosed
  | Reject Response

record ParsedHead =
  ph_method :: string
  ph_target :: string
  ph_version :: string
  ph_headers :: "(string \<times> string) list"

definition text_response :: "u16 \<Rightarrow> string \<Rightarrow> Response" where
  "text_response status s = response_with_body status (as_bytes s)"

definition bad_request :: "string \<Rightarrow> Response" where
  "bad_request reason = text_response 400 (''400 Bad Request: '' @ reason)"

definition is_token_char :: "u8 \<Rightarrow> bool" where
  "is_token_char b \<longleftrightarrow>
    b \<in> {0x21, 0x23, 0x24, 0x25, 0x26, 0x27, 0x2A, 0x2B, 0x2D, 0x2E, 0x5E, 0x5F, 0x60, 0x7C, 0x7E} \<or>
    0x30 \<le> b \<and> b \<le> 0x39 \<or> 0x41 \<le> b \<and> b \<le> 0x5A \<or> 0x61 \<le> b \<and> b \<le> 0x7A"

definition is_ascii_graphic :: "u8 \<Rightarrow> bool" where
  "is_ascii_graphic b \<longleftrightarrow> 0x21 \<le> b \<and> b \<le> 0x7E"

fun header_lines :: "RequestLimits \<Rightarrow> string list \<Rightarrow> (string \<times> string) list \<Rightarrow> Response + (string \<times> string) list" where
  "header_lines lim [] headers = Ok headers"
| "header_lines lim (line # rest) headers =
    (if line = [] then Ok headers
     else if max_header_count lim \<le> length headers then
       Err (text_response 431 ''Too Many Request Header Fields'')
     else if max_header_size lim < length line then
       Err (text_response 431 ''Request Header Field Too Large'')
     else
       (case str_find CHR '':'' line of
          None \<Rightarrow> Err (bad_request (''header missing '' @ [CHR 0x27, CHR '':'', CHR 0x27] @ '' separator''))
        | Some colon \<Rightarrow>
            let name = trim (take colon line); val = trim (drop (colon + 1) line) in
            if name = [] \<or> \<not> list_all is_token_char (as_bytes name) then
              Err (bad_request ''invalid header field name'')
            else header_lines lim rest (headers @ [(name, val)])))"

definition parse_head :: "bytes \<Rightarrow> RequestLimits \<Rightarrow> Response + ParsedHead" where
  "parse_head buf lim =
    (case from_utf8 buf of
       None \<Rightarrow> Err (bad_request ''request head is not valid UTF-8/ASCII'')
     | Some text \<Rightarrow>
         let pieces = split_crlf text; request_line = hd pieces in
         if request_line = [] then Err (bad_request ''empty request line'')
         else
           (case split_once CHR '' '' request_line of
              None \<Rightarrow> Err (bad_request ''missing request target'')
            | Some (meth, rest) \<Rightarrow>
                (case split_once CHR '' '' rest of
                   None \<Rightarrow> Err (bad_request ''missing HTTP version'')
                 | Some (tgt, version) \<Rightarrow>
                     if meth = [] \<or> \<not> list_all is_ascii_graphic (as_bytes meth) then
                       Err (bad_request ''invalid method token'')
                     else if version \<noteq> ''HTTP/1.1'' \<and> version \<noteq> ''HTTP/1.0'' then
                       Err (text_response 505 ''HTTP Version Not Supported'')
                     else if max_uri_len lim < length tgt then Err (text_response 414 ''URI Too Long'')
                     else
                       and_then (header_lines lim (tl pieces) []) (\<lambda>headers.
                         Ok \<lparr>ph_method = meth, ph_target = tgt, ph_version = version, ph_headers = headers\<rparr>))))"

fun find_header_end :: "bytes \<Rightarrow> nat option" where
  "find_header_end (a # b # c # d # bs) =
    (if a = 0x0D \<and> b = 0x0A \<and> c = 0x0D \<and> d = 0x0A then Some 4
     else map_option Suc (find_header_end (b # c # d # bs)))"
| "find_header_end bs = None"

function read_head_loop ::
    "bool \<Rightarrow> bytes \<Rightarrow> ReadEvent list \<Rightarrow> (Response + (bytes \<times> bytes) option) \<times> ReadEvent list" where
  "read_head_loop first buf es =
    (case stream_read 4096 first es of
       (Elapsed, es') \<Rightarrow> (Ok None, es')
     | (Eof, es') \<Rightarrow> (if buf = [] then Ok None else Err (bad_request ''connection closed mid-headers''), es')
     | (ReadFailed, es') \<Rightarrow> (Err (bad_request ''socket read error''), es')
     | (Got bs, es') \<Rightarrow>
         let buf' = buf @ bs in
         if H1_HEADER_BLOCK_HARD_CAP < length buf' then
           (Err (text_response 431 ''Request Header Block Too Large''), es')
         else
           (case find_header_end buf' of
              Some pos \<Rightarrow> (Ok (Some (take pos buf', drop pos buf')), es')
            | None \<Rightarrow> read_head_loop False buf' es'))"
  by pat_completeness auto
termination
  by (relation "measure (\<lambda>(first, buf, es). events_size es)") (auto dest!: stream_read_Got [OF sym])

declare read_head_loop.simps [simp del]

text \<open>The carried-over bytes are always taken.\<close>

definition read_head :: "bytes \<Rightarrow> ReadEvent list \<Rightarrow> (Response + (bytes \<times> bytes) option) \<times> ReadEvent list" where
  "read_head carryover es =
    (if carryover \<noteq> [] then
       (case find_header_end carryover of
          Some pos \<Rightarrow> (Ok (Some (take pos carryover, drop pos carryover)), es)
        | None \<Rightarrow> read_head_loop False carryover es)
     else read_head_loop True [] es)"

section \<open>Framing of the body\<close>

datatype BodyFraming = NoBody | Fixed nat | ChunkedBody

fun te_codings :: "string list \<Rightarrow> bool \<Rightarrow> Response + bool" where
  "te_codings [] is_chunked = Ok is_chunked"
| "te_codings (c # cs) is_chunked =
    (let coding = trim c in
     if coding = ''chunked'' then te_codings cs True
     else if coding \<noteq> [] then Err (text_response 501 (''unsupported transfer-coding: '' @ coding))
     else te_codings cs is_chunked)"

fun te_headers :: "(string \<times> string) list \<Rightarrow> bool \<times> bool \<Rightarrow> Response + bool \<times> bool" where
  "te_headers [] acc = Ok acc"
| "te_headers ((k, v) # hs) (has_te, is_chunked) =
    (if eq_ignore_ascii_case k ''transfer-encoding'' then
       and_then (te_codings (split_on CHR '','' (to_ascii_lowercase v)) is_chunked) (\<lambda>ch. te_headers hs (True, ch))
     else te_headers hs (has_te, is_chunked))"

fun cl_headers :: "(string \<times> string) list \<Rightarrow> nat option \<Rightarrow> Response + nat option" where
  "cl_headers [] content_length = Ok content_length"
| "cl_headers ((k, v) # hs) content_length =
    (if eq_ignore_ascii_case k ''content-length'' then
       (case parse_usize (trim v) of
          None \<Rightarrow> Err (bad_request ''invalid Content-Length'')
        | Some parsed \<Rightarrow>
            if (case content_length of Some prev \<Rightarrow> prev \<noteq> parsed | None \<Rightarrow> False) then
              Err (bad_request ''conflicting Content-Length headers'')
            else cl_headers hs (Some parsed))
     else cl_headers hs content_length)"

definition body_framing :: "(string \<times> string) list \<Rightarrow> Response + BodyFraming" where
  "body_framing headers =
    and_then (te_headers headers (False, False)) (\<lambda>(has_te, is_chunked).
      if has_te \<and> \<not> is_chunked then
        Err (bad_request (''Transfer-Encoding present without final '' @ [CHR 0x27] @ ''chunked'' @ [CHR 0x27] @ '' coding''))
      else
        and_then (cl_headers headers None) (\<lambda>content_length.
          if is_chunked \<and> content_length \<noteq> None then
            Err (bad_request ''Content-Length and Transfer-Encoding must not both be present'')
          else if is_chunked then Ok ChunkedBody
          else
            (case content_length of
               None \<Rightarrow> Ok NoBody
             | Some n \<Rightarrow> if n = 0 then Ok NoBody else Ok (Fixed n))))"

definition wants_keep_alive :: "string \<Rightarrow> (string \<times> string) list \<Rightarrow> bool" where
  "wants_keep_alive version headers =
    (let connection = map_option to_ascii_lowercase (header_of ''connection'' headers) in
     if version = ''HTTP/1.1'' then connection \<noteq> Some ''close'' else connection = Some ''keep-alive'')"

section \<open>Bodies\<close>

function fixed_loop :: "nat \<Rightarrow> bytes \<Rightarrow> ReadEvent list \<Rightarrow> (Response + bytes) \<times> ReadEvent list" where
  "fixed_loop body_len body es =
    (if length body < body_len then
       (case stream_read (min (body_len - length body) 8192) True es of
          (Eof, es') \<Rightarrow> (Err (bad_request ''connection closed mid-body''), es')
        | (Got bs, es') \<Rightarrow> fixed_loop body_len (body @ bs) es'
        | (ReadFailed, es') \<Rightarrow> (Err (bad_request ''socket read error reading body''), es')
        | (Elapsed, es') \<Rightarrow> (Err (text_response 408 ''Request Timeout''), es'))
     else (Ok body, es))"
  by pat_completeness auto
termination
  by (relation "measure (\<lambda>(n, body, es). events_size es)") (auto dest!: stream_read_Got [OF sym])

declare fixed_loop.simps [simp del]

definition read_fixed_body ::
    "bytes \<Rightarrow> bytes \<Rightarrow> nat \<Rightarrow> ReadEvent list \<Rightarrow> (Response + bytes) \<times> bytes \<times> ReadEvent list" where
  "read_fixed_body leftover carryover body_len es =
    (case fixed_loop body_len (take body_len leftover) es of
       (r, es') \<Rightarrow> (r, carryover @ drop body_len leftover, es'))"

fun message_text :: "message \<Rightarrow> string" where
  "message_text (Plain s) = s"
| "message_text (Quoted a q b) = a @ [CHR 0x22] @ q @ [CHR 0x22] @ b"

fun reject_chunked :: "ChunkedError \<Rightarrow> Response" where
  "reject_chunked (TooLarge _) = text_response 413 ''Payload Too Large''"
| "reject_chunked (Malformed m) = bad_request (''chunked body: '' @ message_text m)"

function chunked_loop ::
    "ChunkedDecoder \<Rightarrow> bytes \<Rightarrow> ReadEvent list \<Rightarrow> (Response + bytes) \<times> bytes \<times> ReadEvent list" where
  "chunked_loop d carryover es =
    (if \<not> is_complete d then
       (case stream_read 8192 True es of
          (Eof, es') \<Rightarrow> (Err (bad_request ''connection closed mid-chunked-body''), carryover, es')
        | (Got bs, es') \<Rightarrow>
            (case push bs d of
               (d', Inl e) \<Rightarrow> (Err (reject_chunked e), carryover, es')
             | (d', Inr consumed) \<Rightarrow>
                 chunked_loop d' (if is_complete d' then carryover @ drop consumed bs else carryover) es')
        | (ReadFailed, es') \<Rightarrow> (Err (bad_request ''socket read error reading chunked body''), carryover, es')
        | (Elapsed, es') \<Rightarrow> (Err (text_response 408 ''Request Timeout''), carryover, es'))
     else (Ok (cd_body d), carryover, es))"
  by pat_completeness auto
termination
  by (relation "measure (\<lambda>(d, c, es). events_size es)") (auto dest!: stream_read_Got [OF sym])

declare chunked_loop.simps [simp del]

definition read_chunked_body ::
    "bytes \<Rightarrow> bytes \<Rightarrow> RequestLimits \<Rightarrow> ReadEvent list \<Rightarrow> (Response + bytes) \<times> bytes \<times> ReadEvent list" where
  "read_chunked_body leftover carryover lim es =
    (let d = chunked_new (max_post_size lim) in
     if leftover \<noteq> [] then
       (case push leftover d of
          (d', Inl e) \<Rightarrow> (Err (reject_chunked e), carryover, es)
        | (d', Inr consumed) \<Rightarrow>
            if is_complete d' then (Ok (cd_body d'), carryover @ drop consumed leftover, es)
            else chunked_loop d' carryover es)
     else chunked_loop d carryover es)"

section \<open>Requests and responses\<close>

definition finish_request :: "ParsedHead \<Rightarrow> bytes \<Rightarrow> string \<Rightarrow> ReadOutcome" where
  "finish_request head body peer_addr =
    (case normalize_target (ph_target head) of
       Inl e \<Rightarrow> Reject (bad_request (normalize_error_str e))
     | Inr n \<Rightarrow>
         Parsed \<lparr>rq_method = ph_method head, rq_uri = ph_target head, rq_path = uri_path n, rq_query = uri_query n,
           rq_version = ph_version head, rq_headers = ph_headers head, rq_body = body, rq_peer_addr = peer_addr\<rparr>)"

definition read_body ::
    "BodyFraming \<Rightarrow> bytes \<Rightarrow> RequestLimits \<Rightarrow> ReadEvent list \<Rightarrow> (Response + bytes) \<times> bytes \<times> ReadEvent list" where
  "read_body framing leftover lim es =
    (case framing of
       NoBody \<Rightarrow> (Ok [], [], es)
     | Fixed n \<Rightarrow>
         if max_post_size lim < n then (Err (text_response 413 ''Payload Too Large''), [], es)
         else read_fixed_body leftover [] n es
     | ChunkedBody \<Rightarrow> read_chunked_body leftover [] lim es)"

definition read_request ::
    "bytes \<Rightarrow> string \<Rightarrow> RequestLimits \<Rightarrow> ReadEvent list \<Rightarrow> ReadOutcome \<times> bytes \<times> ReadEvent list" where
  "read_request carryover peer_addr lim es =
    (case read_head carryover es of
       (Inl resp, es1) \<Rightarrow> (Reject resp, [], es1)
     | (Inr None, es1) \<Rightarrow> (ConnectionClosed, [], es1)
     | (Inr (Some (head_bytes, leftover)), es1) \<Rightarrow>
         (case parse_head head_bytes lim of
            Inl resp \<Rightarrow> (Reject resp, [], es1)
          | Inr head \<Rightarrow>
              (case body_framing (ph_headers head) of
                 Inl resp \<Rightarrow> (Reject resp, [], es1)
               | Inr framing \<Rightarrow>
                   (case read_body framing leftover lim es1 of
                      (Inl resp, carry, es2) \<Rightarrow> (Reject resp, carry, es2)
                    | (Inr body, carry, es2) \<Rightarrow> (finish_request head body peer_addr, carry, es2)))))"

definition reason_phrase :: "u16 \<Rightarrow> string" where
  "reason_phrase status =
    (if status = 200 then ''OK'' else if status = 201 then ''Created'' else if status = 204 then ''No Content''
     else if status = 301 then ''Moved Permanently'' else if status = 302 then ''Found''
     else if status = 304 then ''Not Modified'' else if status = 400 then ''Bad Request''
     else if status = 401 then ''Unauthorized'' else if status = 403 then ''Forbidden''
     else if status = 404 then ''Not Found'' else if status = 405 then ''Method Not Allowed''
     else if status = 408 then ''Request Timeout'' else if status = 411 then ''Length Required''
     else if status = 413 then ''Payload Too Large'' else if status = 414 then ''URI Too Long''
     else if status = 431 then ''Request Header Fields Too Large''
     else if status = 500 then ''Internal Server Error'' else if status = 501 then ''Not Implemented''
     else if status = 505 then ''HTTP Version Not Supported'' else ''Status'')"

definition SERVER_INFO :: string where
  "SERVER_INFO = ''Tomcat-RS Compatibility Runtime''"

definition crlf :: string where
  "crlf = [CHR 0x0D, CHR 0x0A]"

definition response_bytes :: "Response \<Rightarrow> bool \<Rightarrow> bytes" where
  "response_bytes resp keep_alive =
    (let wrote = (\<lambda>name. list_ex (\<lambda>(k, v). eq_ignore_ascii_case k name) (rs_headers resp)) in
     as_bytes (''HTTP/1.1 '' @ dec_str (unat (rs_status resp)) @ '' '' @ reason_phrase (rs_status resp) @ crlf @
       concat (map (\<lambda>(k, v). k @ '': '' @ v @ crlf) (rs_headers resp)) @
       (if \<not> wrote ''content-length'' then ''Content-Length: '' @ dec_str (length (rs_body resp)) @ crlf else []) @
       (if \<not> wrote ''server'' then ''Server: '' @ SERVER_INFO @ crlf else []) @
       (if \<not> wrote ''connection'' then ''Connection: '' @ (if keep_alive then ''keep-alive'' else ''close'') @ crlf
        else []) @
       crlf) @ rs_body resp)"

section \<open>No byte is lost while a request is read\<close>

lemma find_header_end_bound: "find_header_end bs = Some n \<Longrightarrow> 4 \<le> n \<and> n \<le> length bs"
proof (induction bs arbitrary: n rule: find_header_end.induct)
  case (1 a b c d bs)
  then show ?case by (auto split: if_splits)
qed auto

lemma find_header_end_take: "find_header_end bs = Some n \<Longrightarrow> find_header_end (take n bs) = Some n"
proof (induction bs arbitrary: n rule: find_header_end.induct)
  case (1 a b c d bs)
  show ?case
  proof (cases "a = 0x0D \<and> b = 0x0A \<and> c = 0x0D \<and> d = 0x0A")
    case True
    then show ?thesis using 1(2) by auto
  next
    case False
    then obtain m where m: "n = Suc m" "find_header_end (b # c # d # bs) = Some m" using 1(2) by auto
    have "4 \<le> m" using find_header_end_bound [OF m(2)] by simp
    then obtain k where "m = 4 + k" using le_Suc_ex by blast
    then have k: "m = Suc (Suc (Suc (Suc k)))" by simp
    have "find_header_end (b # c # d # take (Suc k) bs) = Some m" using 1(1) [OF False m(2)] by (simp add: k)
    then show ?thesis using False by (simp add: m(1) k)
  qed
qed auto

text \<open>What is found is the first blank line.\<close>

definition blank_line :: bytes where
  "blank_line = [0x0D, 0x0A, 0x0D, 0x0A]"

definition first_blank_line :: "bytes \<Rightarrow> bytes \<Rightarrow> bool" where
  "first_blank_line h bs \<longleftrightarrow> (\<exists>pre rest. h = pre @ blank_line \<and> bs = h @ rest) \<and>
    (\<forall>pre rest. bs = pre @ blank_line @ rest \<longrightarrow> length h \<le> length (pre @ blank_line))"

lemma find_header_end_first: "find_header_end bs = Some n \<Longrightarrow> first_blank_line (take n bs) bs"
proof (induction bs arbitrary: n rule: find_header_end.induct)
  case (1 a b c d bs)
  show ?case
  proof (cases "a = 0x0D \<and> b = 0x0A \<and> c = 0x0D \<and> d = 0x0A")
    case True
    then show ?thesis using 1(2) by (auto simp: first_blank_line_def blank_line_def intro: exI [of _ "[]"])
  next
    case False
    then obtain m where m: "n = Suc m" "find_header_end (b # c # d # bs) = Some m" using 1(2) by auto
    have IH: "first_blank_line (take m (b # c # d # bs)) (b # c # d # bs)" using 1(1) [OF False m(2)] .
    have len: "length (take m (b # c # d # bs)) = m" using find_header_end_bound [OF m(2)] by simp
    obtain pre rest where pr: "take m (b # c # d # bs) = pre @ blank_line" "b # c # d # bs = (pre @ blank_line) @ rest"
      using IH unfolding first_blank_line_def by metis
    have "take n (a # b # c # d # bs) = (a # pre) @ blank_line" "a # b # c # d # bs = ((a # pre) @ blank_line) @ rest"
      using pr by (simp_all add: m(1))
    moreover have "n \<le> length (qre @ blank_line)" if q: "a # b # c # d # bs = qre @ blank_line @ rest" for qre rest
    proof (cases qre)
      case Nil
      then show ?thesis using q False by (simp add: blank_line_def)
    next
      case (Cons x qre')
      then have "b # c # d # bs = qre' @ blank_line @ rest" using q by simp
      then have "m \<le> length (qre' @ blank_line)" using IH len unfolding first_blank_line_def by metis
      then show ?thesis using Cons m(1) by simp
    qed
    moreover have "length (take n (a # b # c # d # bs)) = n" using len m(1) by simp
    ultimately show ?thesis unfolding first_blank_line_def by metis
  qed
qed auto

lemma find_header_end_append: "find_header_end bs = Some n \<Longrightarrow> find_header_end (bs @ behind) = Some n"
  by (induction bs arbitrary: n rule: find_header_end.induct) auto

lemma find_header_end_new:
  assumes "find_header_end buf = None" "find_header_end (buf @ bs) = Some n"
  shows "length buf < n"
proof (rule ccontr)
  assume "\<not> length buf < n"
  then have "find_header_end (take n buf) = Some n" using find_header_end_take [OF assms(2)] by simp
  then have "find_header_end (take n buf @ drop n buf) = Some n" by (rule find_header_end_append)
  then show False using assms(1) by simp
qed

text \<open>A head is cut off behind its blank line, and what follows it of the last read has less than the bytes of one read.\<close>

lemma read_head_loop_end:
  "read_head_loop first buf es = (Ok (Some (h, left)), es') \<Longrightarrow> find_header_end buf = None \<Longrightarrow>
    find_header_end (h @ left) = Some (length h) \<and> length left < 4096"
proof (induction first buf es rule: read_head_loop.induct)
  case (1 first buf es)
  obtain r es1 where r: "stream_read 4096 first es = (r, es1)" by fastforce
  show ?case
  proof (cases r)
    case (Got bs)
    note g = stream_read_Got [OF r [unfolded Got]]
    show ?thesis
    proof (cases "find_header_end (buf @ bs)")
      case None
      then have rec: "read_head_loop False (buf @ bs) es1 = (Ok (Some (h, left)), es')"
        "\<not> H1_HEADER_BLOCK_HARD_CAP < length (buf @ bs)"
        using 1(2) r Got by (auto simp: read_head_loop.simps [of first] Let_def split: if_splits)
      from 1(1) [OF r [symmetric] Got refl rec(2) None rec(1) None] show ?thesis .
    next
      case (Some pos)
      then have e: "h = take pos (buf @ bs)" "left = drop pos (buf @ bs)"
        using 1(2) r Got by (auto simp: read_head_loop.simps [of first] Let_def split: if_splits)
      have "length buf < pos" using find_header_end_new [OF 1(3) Some] .
      then show ?thesis unfolding e using Some g find_header_end_bound [OF Some] by (auto simp: min_def)
    qed
  qed (use 1(2) r in \<open>auto simp: read_head_loop.simps [of first] split: if_splits\<close>)
qed

lemma read_head_end:
  assumes "read_head carry es = (Ok (Some (h, left)), es')"
  shows "find_header_end (h @ left) = Some (length h) \<and> (es' = es \<or> length left < 4096)"
proof (cases "find_header_end carry")
  case (Some pos)
  then have e: "carry \<noteq> []" "pos \<le> length carry" using find_header_end_bound [OF Some] by auto
  then have "h = take pos carry" "left = drop pos carry" "es' = es" using assms Some by (auto simp: read_head_def)
  then show ?thesis using Some e by (simp add: min_def)
next
  case None
  then have "\<exists>b. read_head_loop b carry es = (Ok (Some (h, left)), es')"
    using assms by (auto simp: read_head_def split: if_splits)
  then show ?thesis using read_head_loop_end [OF _ None] by blast
qed

lemma read_head_loop_conserves:
  "read_head_loop first buf es = (Ok (Some (h, left)), es') \<Longrightarrow>
    buf @ arriving es = h @ left @ arriving es' \<and> 4 \<le> length h \<and> length h + length left + events_size es' \<le> length buf + events_size es"
proof (induction first buf es rule: read_head_loop.induct)
  case (1 first buf es)
  obtain r es1 where r: "stream_read 4096 first es = (r, es1)" by fastforce
  show ?case
  proof (cases r)
    case (Got bs)
    note g = stream_read_Got [OF r [unfolded Got]] stream_read_size [OF r [unfolded Got]]
    show ?thesis
    proof (cases "find_header_end (buf @ bs)")
      case None
      then have rec: "read_head_loop False (buf @ bs) es1 = (Ok (Some (h, left)), es')"
        "\<not> H1_HEADER_BLOCK_HARD_CAP < length (buf @ bs)"
        using 1(2) r Got by (auto simp: read_head_loop.simps [of first] Let_def split: if_splits)
      from 1(1) [OF r [symmetric] Got refl rec(2) None rec(1)] show ?thesis using g by simp
    next
      case (Some pos)
      then have "h = take pos (buf @ bs)" "left = drop pos (buf @ bs)" "es' = es1"
        using 1(2) r Got by (auto simp: read_head_loop.simps [of first] Let_def split: if_splits)
      then show ?thesis using g find_header_end_bound [OF Some] by (auto simp: min_def)
    qed
  qed (use 1(2) r in \<open>auto simp: read_head_loop.simps [of first] split: if_splits\<close>)
qed

lemma read_head_conserves:
  assumes "read_head carry es = (Ok (Some (h, left)), es')"
  shows "carry @ arriving es = h @ left @ arriving es' \<and> 4 \<le> length h \<and> length h + length left + events_size es' \<le> length carry + events_size es"
proof (cases "carry \<noteq> [] \<and> find_header_end carry \<noteq> None")
  case True
  then obtain pos where "find_header_end carry = Some pos" by auto
  then show ?thesis using assms True find_header_end_bound [of carry pos] by (auto simp: read_head_def min_def)
next
  case False
  then have "\<exists>b. read_head_loop b carry es = (Ok (Some (h, left)), es')"
    using assms by (auto simp: read_head_def split: if_splits option.splits)
  then show ?thesis using read_head_loop_conserves by blast
qed

lemma fixed_loop_conserves:
  "fixed_loop n body es = (Ok b, es') \<Longrightarrow> length body \<le> n \<Longrightarrow>
    body @ arriving es = b @ arriving es' \<and> length b = n \<and> length b + events_size es' \<le> length body + events_size es"
proof (induction n body es rule: fixed_loop.induct)
  case (1 n body es)
  show ?case
  proof (cases "length body < n")
    case True
    obtain r es1 where r: "stream_read (min (n - length body) 8192) True es = (r, es1)" by fastforce
    show ?thesis
    proof (cases r)
      case (Got bs)
      have g: "arriving es = bs @ arriving es1" "length (body @ bs) \<le> n" "length bs + events_size es1 \<le> events_size es"
        using stream_read_Got [OF r [unfolded Got]] stream_read_size [OF r [unfolded Got]] True by auto
      have "fixed_loop n (body @ bs) es1 = (Ok b, es')"
        using 1(2) True r Got by (simp add: fixed_loop.simps [of n body])
      from 1(1) [OF True r [symmetric] Got this g(2)] g show ?thesis by auto
    qed (use 1(2) r True in \<open>auto simp: fixed_loop.simps [of n body]\<close>)
  next
    case False
    then show ?thesis using 1(2,3) by (simp add: fixed_loop.simps [of n body])
  qed
qed

lemma read_fixed_body_conserves:
  assumes "read_fixed_body left carry n es = (Ok b, carry', es')"
  shows "left @ arriving es = b @ drop (length carry) carry' @ arriving es'" "length b = n"
    "length carry' + events_size es' \<le> length carry + length left + events_size es" "carry' = carry @ drop n left"
proof -
  have f: "fixed_loop n (take n left) es = (Ok b, es')" "carry' = carry @ drop n left"
    using assms by (auto simp: read_fixed_body_def split: prod.splits)
  have c: "take n left @ arriving es = b @ arriving es' \<and> length b = n \<and> length b + events_size es' \<le> length (take n left) + events_size es"
    using fixed_loop_conserves [OF f(1)] by simp
  then show "length b = n" "carry' = carry @ drop n left"
    "length carry' + events_size es' \<le> length carry + length left + events_size es" using f by (auto simp: min_def split: if_splits)
  show "left @ arriving es = b @ drop (length carry) carry' @ arriving es'"
  proof (cases "n \<le> length left")
    case True
    then have "length (take n left) = length b" using c by simp
    then have "b = take n left" "arriving es = arriving es'" using c by (auto simp: append_eq_append_conv)
    then show ?thesis using f(2) by simp
  next
    case False
    then show ?thesis using c f(2) by simp
  qed
qed


text \<open>Only the bytes that a push consumes matter.\<close>

lemma push_consumes:
  assumes "push (b # bs) d = (d', Ok n)" "\<not> is_complete d"
  shows "0 < n"
proof -
  obtain d1 r where r: "push_loop [b] 0 d = (d1, r)" by fastforce
  have p: "push_after (d1, r) bs = (d', Ok n)"
    using assms(1) push_loop_Cons [of b bs 0 d] r by (simp add: push_def)
  then obtain m where m: "r = Inr m" "push_loop bs m d1 = (d', Ok n)"
    by (cases r) (auto simp: push_after_simps)
  have "m = 1" using push_loop_byte_used [of b 0 d d1 m] r m(1) assms(2) by (simp add: is_complete_def)
  then show ?thesis using push_loop_count [OF m(2)] by simp
qed

lemma push_complete: "is_complete d \<Longrightarrow> push bs d = (d, Ok 0)"
  by (simp add: push_def is_complete_def)

lemma push_bound: "push bs d = (d', Ok n) \<Longrightarrow> n \<le> length bs \<and> (\<not> is_complete d' \<longrightarrow> n = length bs)"
  using push_loop_count [of bs 0 d d' n] by (simp add: push_def)

lemma push_take:
  assumes "push bs d = (d', Ok n)"
  shows "push (take n bs) d = (d', Ok n)"
proof -
  have n: "n \<le> length bs" using push_bound [OF assms] by simp
  obtain d1 r where r: "push (take n bs) d = (d1, r)" by fastforce
  have e: "push (take n bs @ drop n bs) d = (d', Ok n)" using assms by simp
  note e' = e [unfolded push_append [of "take n bs" "drop n bs"] r]
  then obtain k where k: "r = Ok k" by (cases r) auto
  obtain d2 j where j: "push (drop n bs) d1 = (d2, Ok j)" "d2 = d'" "k + j = n"
    using e' k by (auto split: prod.splits sum.splits)
  show ?thesis
  proof (cases "is_complete d1")
    case True
    then show ?thesis using j r k by (simp add: push_complete)
  next
    case False
    then have "k = n" using push_bound [of "take n bs" d d1 k] r k n by simp
    then have "j = 0" using j(3) by simp
    then have "drop n bs = []" using push_consumes [OF _ False] j(1) by (cases "drop n bs") auto
    then show ?thesis using r k j by (simp add: push_def)
  qed
qed

lemma chunked_loop_conserves:
  "chunked_loop d carry es = (Ok b, carry', es') \<Longrightarrow> \<not> is_complete d \<Longrightarrow>
    \<exists>enc d'. arriving es = enc @ drop (length carry) carry' @ arriving es' \<and>
      push enc d = (d', Ok (length enc)) \<and> is_complete d' \<and> cd_body d' = b \<and> length carry' + events_size es' \<le> length carry + events_size es \<and>
      (\<exists>x. carry' = carry @ x)"
proof (induction d carry es rule: chunked_loop.induct)
  case (1 d carry es)
  obtain r es1 where r: "stream_read 8192 True es = (r, es1)" by fastforce
  show ?case
  proof (cases r)
    case (Got bs)
    have g: "arriving es = bs @ arriving es1" "length bs + events_size es1 \<le> events_size es"
      using stream_read_Got [OF r [unfolded Got]] stream_read_size [OF r [unfolded Got]] by auto
    obtain d1 q where q: "push bs d = (d1, q)" by fastforce
    then obtain n where n: "q = Ok n" using 1(2,3) r Got by (cases q) (auto simp: chunked_loop.simps [of d])
    have push1: "push bs d = (d1, Ok n)" using q n by simp
    have rec: "chunked_loop d1 (if is_complete d1 then carry @ drop n bs else carry) es1 = (Ok b, carry', es')"
      using 1(2,3) r Got push1 by (simp add: chunked_loop.simps [of d])
    show ?thesis
    proof (cases "is_complete d1")
      case True
      then have "cd_body d1 = b" "carry' = carry @ drop n bs" "es' = es1"
        using rec by (simp_all add: chunked_loop.simps [of d1])
      then show ?thesis
        using g push_take [OF push1] push_bound [OF push1] True
        by (intro exI [of _ "take n bs"] exI [of _ d1]) (auto simp: min_def)
    next
      case False
      then have len: "n = length bs" using push_bound [OF push1] by simp
      from False rec 1(1) [OF 1(3) r [symmetric] Got push1 [symmetric] refl] obtain enc d' where
        i: "arriving es1 = enc @ drop (length carry) carry' @ arriving es'" "push enc d1 = (d', Ok (length enc))"
          "is_complete d'" "cd_body d' = b" "length carry' + events_size es' \<le> length carry + events_size es1" "\<exists>x. carry' = carry @ x" by auto
      have "push (bs @ enc) d = (d', Ok (length (bs @ enc)))"
        using push1 i(2) len by (simp add: push_append)
      then show ?thesis using i g by (intro exI [of _ "bs @ enc"] exI [of _ d']) auto
    qed
  qed (use 1(2,3) r in \<open>auto simp: chunked_loop.simps [of d]\<close>)
qed

lemma not_complete_new: "\<not> is_complete (chunked_new m)"
  by (simp add: is_complete_def chunked_new_def)

lemma read_chunked_body_conserves:
  assumes "read_chunked_body left [] lim es = (Ok b, carry', es')"
  shows "\<exists>enc d. left @ arriving es = enc @ carry' @ arriving es' \<and> push enc (chunked_new (max_post_size lim)) = (d, Ok (length enc)) \<and>
    is_complete d \<and> cd_body d = b \<and> length carry' + events_size es' \<le> length left + events_size es"
proof (cases "left = []")
  case True
  then show ?thesis
    using assms chunked_loop_conserves [of "chunked_new (max_post_size lim)" "[]" es b carry' es'] not_complete_new
    by (fastforce simp: read_chunked_body_def)
next
  case False
  let ?d = "chunked_new (max_post_size lim)"
  obtain d1 q where q: "push left ?d = (d1, q)" by fastforce
  then obtain n where n: "push left ?d = (d1, Ok n)"
    using assms False by (cases q) (auto simp: read_chunked_body_def Let_def)
  show ?thesis
  proof (cases "is_complete d1")
    case True
    then have "cd_body d1 = b" "carry' = drop n left" "es' = es"
      using assms False n by (simp_all add: read_chunked_body_def Let_def)
    then show ?thesis
      using push_take [OF n] push_bound [OF n] True
      by (intro exI [of _ "take n left"] exI [of _ d1]) (auto simp: min_def)
  next
    case False
    then have len: "n = length left" using push_bound [OF n] by simp
    have "chunked_loop d1 [] es = (Ok b, carry', es')"
      using assms False n \<open>left \<noteq> []\<close> by (simp add: read_chunked_body_def Let_def)
    from chunked_loop_conserves [OF this False] obtain enc d' where
      i: "arriving es = enc @ carry' @ arriving es'" "push enc d1 = (d', Ok (length enc))"
        "is_complete d'" "cd_body d' = b" "length carry' + events_size es' \<le> events_size es" by auto
    have "push (left @ enc) ?d = (d', Ok (length (left @ enc)))" using n i(2) len by (simp add: push_append)
    then show ?thesis using i by (intro exI [of _ "left @ enc"] exI [of _ d']) auto
  qed
qed


text \<open>What the bytes between the head and the next request are, for each framing.\<close>

fun framed :: "BodyFraming \<Rightarrow> RequestLimits \<Rightarrow> bytes \<Rightarrow> bytes \<Rightarrow> bool" where
  "framed NoBody lim enc body \<longleftrightarrow> enc = [] \<and> body = []"
| "framed (Fixed n) lim enc body \<longleftrightarrow> enc = body \<and> length body = n \<and> n \<le> max_post_size lim"
| "framed ChunkedBody lim enc body \<longleftrightarrow>
    (\<exists>d. push enc (chunked_new (max_post_size lim)) = (d, Ok (length enc)) \<and> is_complete d \<and> cd_body d = body)"

text \<open>A body that is read leaves everything behind it; a request without one loses what came with its head.\<close>

lemma read_body_conserves:
  assumes "read_body fr left lim es = (Ok b, carry', es')"
  shows "\<exists>enc lost. left @ arriving es = enc @ lost @ carry' @ arriving es' \<and> framed fr lim enc b \<and>
      (if fr = NoBody then carry' = [] \<and> lost = left \<and> es' = es else lost = [])"
    "length carry' + events_size es' \<le> length left + events_size es"
proof -
  consider "fr = NoBody" | n where "fr = Fixed n" | "fr = ChunkedBody" by (cases fr) auto
  then show "\<exists>enc lost. left @ arriving es = enc @ lost @ carry' @ arriving es' \<and> framed fr lim enc b \<and>
      (if fr = NoBody then carry' = [] \<and> lost = left \<and> es' = es else lost = [])"
  proof cases
    case 1
    then show ?thesis using assms by (auto simp: read_body_def)
  next
    case 2
    then have n: "n \<le> max_post_size lim" "read_fixed_body left [] n es = (Ok b, carry', es')"
      using assms by (auto simp: read_body_def split: if_splits)
    then show ?thesis using 2 read_fixed_body_conserves [OF n(2)] by (intro exI [of _ b] exI [of _ "[]"]) simp
  next
    case 3
    then show ?thesis
      using assms read_chunked_body_conserves [of left lim es b carry' es'] by (auto simp: read_body_def)
  qed
  show "length carry' + events_size es' \<le> length left + events_size es"
    using assms read_chunked_body_conserves [of left lim es b carry' es']
    by (cases fr) (auto simp: read_body_def split: if_splits dest!: read_fixed_body_conserves(3))
qed

lemma read_requestE:
  assumes "read_request carry peer lim es = (Parsed r, carry', es')"
  obtains h left es1 ph fr body n where
    "read_head carry es = (Ok (Some (h, left)), es1)" "parse_head h lim = Ok ph"
    "body_framing (ph_headers ph) = Ok fr" "read_body fr left lim es1 = (Ok body, carry', es')"
    "normalize_target (ph_target ph) = Ok n"
    "r = \<lparr>rq_method = ph_method ph, rq_uri = ph_target ph, rq_path = uri_path n, rq_query = uri_query n,
       rq_version = ph_version ph, rq_headers = ph_headers ph, rq_body = body, rq_peer_addr = peer\<rparr>"
proof -
  obtain h left es1 where 1: "read_head carry es = (Ok (Some (h, left)), es1)"
    using assms by (auto simp: read_request_def split: prod.splits sum.splits option.splits)
  moreover obtain ph where 2: "parse_head h lim = Ok ph"
    using assms 1 by (auto simp: read_request_def split: sum.splits)
  moreover obtain fr where 3: "body_framing (ph_headers ph) = Ok fr"
    using assms 1 2 by (auto simp: read_request_def split: sum.splits)
  moreover obtain body c2 es2 where 4: "read_body fr left lim es1 = (Ok body, c2, es2)"
    using assms 1 2 3 by (auto simp: read_request_def split: sum.splits prod.splits)
  moreover have 5: "finish_request ph body peer = Parsed r" "c2 = carry'" "es2 = es'"
    using assms 1 2 3 4 by (simp_all add: read_request_def)
  ultimately show ?thesis
    using that by (auto simp: finish_request_def split: sum.splits)
qed

lemma read_request_progress:
  assumes "read_request carry peer lim es = (Parsed r, carry', es')"
  shows "length carry' + events_size es' < length carry + events_size es"
  using assms
proof (cases rule: read_requestE)
  case (1 h left es1 ph fr body n)
  then show ?thesis using read_head_conserves [OF 1(1)] read_body_conserves(2) [OF 1(4)] by linarith
qed

lemma read_request_conserves:
  assumes "read_request carry peer lim es = (Parsed r, carry', es')"
  shows "\<exists>h enc lost ph fr. carry @ arriving es = h @ enc @ lost @ carry' @ arriving es' \<and>
    first_blank_line h (carry @ arriving es) \<and> parse_head h lim = Ok ph \<and>
    finish_request ph (rq_body r) peer = Parsed r \<and> body_framing (ph_headers ph) = Ok fr \<and>
    framed fr lim enc (rq_body r) \<and>
    (if fr = NoBody then carry' = [] \<and> (es' = es \<or> length lost < 4096) else lost = [])"
  using assms
proof (cases rule: read_requestE)
  case (1 h left es1 ph fr body n)
  obtain enc lost where b: "left @ arriving es1 = enc @ lost @ carry' @ arriving es'" "framed fr lim enc body"
    "if fr = NoBody then carry' = [] \<and> lost = left \<and> es' = es1 else lost = []"
    using read_body_conserves(1) [OF 1(4)] by blast
  have c: "carry @ arriving es = h @ left @ arriving es1" using read_head_conserves [OF 1(1)] by simp
  have "find_header_end (carry @ arriving es) = Some (length h)"
    using find_header_end_append [of "h @ left" "length h" "arriving es1"] read_head_end [OF 1(1)] c by simp
  then have "first_blank_line h (carry @ arriving es)"
    using find_header_end_first [of "carry @ arriving es" "length h"] c by simp
  moreover have "finish_request ph (rq_body r) peer = Parsed r" using 1(5,6) by (simp add: finish_request_def)
  moreover have "carry @ arriving es = h @ enc @ lost @ carry' @ arriving es'" using b(1) c by simp
  moreover have "if fr = NoBody then carry' = [] \<and> (es' = es \<or> length lost < 4096) else lost = []"
    using b(3) read_head_end [OF 1(1)] by (auto split: if_splits)
  moreover have "rq_body r = body" by (simp add: 1(6))
  ultimately show ?thesis using 1(2,3) b(2) by blast
qed

section \<open>The loop of a connection\<close>

function serve_connection ::
    "('s \<Rightarrow> Request \<Rightarrow> 's \<times> Response) \<Rightarrow> string \<Rightarrow> RequestLimits \<Rightarrow> bytes \<Rightarrow> ReadEvent list \<Rightarrow> 's \<Rightarrow> 's \<times> bytes list" where
  "serve_connection service peer lim carry es s =
    (case read_request carry peer lim es of
       (ConnectionClosed, _) \<Rightarrow> (s, [])
     | (Reject resp, _) \<Rightarrow> (s, [response_bytes resp False])
     | (Parsed r, carry', es') \<Rightarrow>
         let keep_alive = wants_keep_alive (rq_version r) (rq_headers r) in
         (case service s r of
            (s', resp) \<Rightarrow>
              if \<not> keep_alive then (s', [response_bytes resp keep_alive])
              else
                (case serve_connection service peer lim carry' es' s' of
                   (s'', outs) \<Rightarrow> (s'', response_bytes resp keep_alive # outs))))"
  by pat_completeness auto
termination
  by (relation "measure (\<lambda>(service, peer, lim, carry, es, s). length carry + events_size es)")
    (auto dest!: read_request_progress [OF sym])

declare serve_connection.simps [simp del]

section \<open>What a parsed request satisfies\<close>

definition has_header :: "string \<Rightarrow> (string \<times> string) list \<Rightarrow> bool" where
  "has_header name hs \<longleftrightarrow> list_ex (\<lambda>(k, v). eq_ignore_ascii_case k name) hs"

lemma has_header_simps [simp]:
  "\<not> has_header name []" "has_header name ((k, v) # hs) \<longleftrightarrow> eq_ignore_ascii_case k name \<or> has_header name hs"
  by (simp_all add: has_header_def)

text \<open>The values of the fields of a name, in order, and the codings that the \<open>Transfer-Encoding\<close> fields list.\<close>

definition values_of :: "string \<Rightarrow> (string \<times> string) list \<Rightarrow> string list" where
  "values_of name hs = map snd (filter (\<lambda>(k, v). eq_ignore_ascii_case k name) hs)"

lemma values_of_simps [simp]:
  "values_of name [] = []"
  "values_of name ((k, v) # hs) = (if eq_ignore_ascii_case k name then v # values_of name hs else values_of name hs)"
  by (simp_all add: values_of_def)

definition transfer_codings :: "(string \<times> string) list \<Rightarrow> string list" where
  "transfer_codings hs = filter (\<lambda>c. c \<noteq> [])
    (concat (map (\<lambda>v. map trim (split_on CHR '','' (to_ascii_lowercase v))) (values_of ''transfer-encoding'' hs)))"

lemma transfer_codings_simps [simp]:
  "transfer_codings [] = []"
  "transfer_codings ((k, v) # hs) =
    (if eq_ignore_ascii_case k ''transfer-encoding''
     then filter (\<lambda>c. c \<noteq> []) (map trim (split_on CHR '','' (to_ascii_lowercase v))) @ transfer_codings hs
     else transfer_codings hs)"
  by (simp_all add: transfer_codings_def)

lemma te_codings_iff:
  "te_codings cs ch = Ok r \<longleftrightarrow>
    list_all (\<lambda>c. c = ''chunked'') (filter (\<lambda>c. c \<noteq> []) (map trim cs)) \<and>
    (r \<longleftrightarrow> ch \<or> filter (\<lambda>c. c \<noteq> []) (map trim cs) \<noteq> [])"
  by (induction cs ch rule: te_codings.induct) (auto simp: Let_def)

lemma te_headers_iff:
  "te_headers hs (t, ch) = Ok (t', ch') \<longleftrightarrow>
    list_all (\<lambda>c. c = ''chunked'') (transfer_codings hs) \<and>
    (t' \<longleftrightarrow> t \<or> values_of ''transfer-encoding'' hs \<noteq> []) \<and> (ch' \<longleftrightarrow> ch \<or> transfer_codings hs \<noteq> [])"
proof (induction hs "(t, ch)" arbitrary: t ch rule: te_headers.induct)
  case (2 k v hs t ch)
  show ?case
  proof (cases "eq_ignore_ascii_case k ''transfer-encoding''")
    case True
    let ?cs = "split_on CHR '','' (to_ascii_lowercase v)"
    show ?thesis
    proof (cases "te_codings ?cs ch")
      case (Inl e)
      then have "\<not> list_all (\<lambda>c. c = ''chunked'') (filter (\<lambda>c. c \<noteq> []) (map trim ?cs))"
        using te_codings_iff [of ?cs ch] by auto
      then show ?thesis using Inl True by (simp del: split_on.simps)
    next
      case (Inr c)
      then show ?thesis using 2(1) [OF True Inr] True te_codings_iff [of ?cs ch c] by (auto simp del: split_on.simps)
    qed
  next
    case False
    then show ?thesis using 2(2) by simp
  qed
qed auto

lemma cl_headers_iff:
  "cl_headers hs acc = Ok r \<longleftrightarrow>
    (case values_of ''content-length'' hs of
       [] \<Rightarrow> r = acc
     | vs \<Rightarrow> r \<noteq> None \<and> list_all (\<lambda>v. parse_usize (trim v) = r) vs \<and> (case acc of None \<Rightarrow> True | Some n \<Rightarrow> r = acc))"
proof (induction hs acc rule: cl_headers.induct)
  case (2 k v hs acc)
  show ?case
  proof (cases "eq_ignore_ascii_case k ''content-length''")
    case True
    show ?thesis
    proof (cases "parse_usize (trim v)")
      case None
      then show ?thesis using True by auto
    next
      case (Some p)
      then show ?thesis using 2(1) [OF True Some] True
        by (cases acc; cases "values_of ''content-length'' hs") auto
    qed
  next
    case False
    then show ?thesis using 2(2) by simp
  qed
qed auto

lemma body_framing_iff:
  "body_framing hs = Ok fr \<longleftrightarrow>
    (if values_of ''transfer-encoding'' hs \<noteq> []
     then fr = ChunkedBody \<and> values_of ''content-length'' hs = [] \<and> transfer_codings hs \<noteq> [] \<and>
       list_all (\<lambda>c. c = ''chunked'') (transfer_codings hs)
     else if values_of ''content-length'' hs = [] then fr = NoBody
     else \<exists>n. list_all (\<lambda>v. parse_usize (trim v) = Some n) (values_of ''content-length'' hs) \<and>
       fr = (if n = 0 then NoBody else Fixed n))"
proof (cases "te_headers hs (False, False)")
  case (Inl e)
  then have no: "\<not> list_all (\<lambda>c. c = ''chunked'') (transfer_codings hs)"
    using te_headers_iff [of hs False False] by auto
  moreover from this have "values_of ''transfer-encoding'' hs \<noteq> []" by (auto simp: transfer_codings_def)
  ultimately show ?thesis using Inl by (simp add: body_framing_def)
next
  case (Inr p)
  obtain t c where p: "p = (t, c)" by (rule prod.exhaust)
  have te: "list_all (\<lambda>c. c = ''chunked'') (transfer_codings hs)" "t \<longleftrightarrow> values_of ''transfer-encoding'' hs \<noteq> []"
    "c \<longleftrightarrow> transfer_codings hs \<noteq> []" using Inr [unfolded p te_headers_iff] by auto
  have empty: "values_of ''transfer-encoding'' hs = [] \<Longrightarrow> transfer_codings hs = []" by (simp add: transfer_codings_def)
  have eq: "body_framing hs = (if t \<and> \<not> c then Err (bad_request (''Transfer-Encoding present without final '' @
        [CHR 0x27] @ ''chunked'' @ [CHR 0x27] @ '' coding''))
      else and_then (cl_headers hs None) (\<lambda>content_length.
        if c \<and> content_length \<noteq> None then
          Err (bad_request ''Content-Length and Transfer-Encoding must not both be present'')
        else if c then Ok ChunkedBody
        else (case content_length of None \<Rightarrow> Ok NoBody | Some n \<Rightarrow> if n = 0 then Ok NoBody else Ok (Fixed n))))"
    by (simp only: body_framing_def Inr p and_then_def [of "Ok _"] sum.case prod.case)
  have cl: "cl_headers hs None = Ok r \<longleftrightarrow> (case values_of ''content-length'' hs of
       [] \<Rightarrow> r = None | vs \<Rightarrow> r \<noteq> None \<and> list_all (\<lambda>v. parse_usize (trim v) = r) vs)" for r
    by (simp add: cl_headers_iff split: list.split)
  show ?thesis
  proof (cases "cl_headers hs None")
    case Inl: (Inl e)
    then have none: "values_of ''content-length'' hs \<noteq> []"
      "\<not> list_all (\<lambda>v. parse_usize (trim v) = Some n) (values_of ''content-length'' hs)" for n
      using cl [of None] cl [of "Some n"] by (auto split: list.splits)
    have "\<exists>e. body_framing hs = Err e" unfolding eq Inl by simp
    then show ?thesis using none by auto
  next
    case r: (Inr r)
    show ?thesis
    proof (cases "values_of ''content-length'' hs")
      case Nil
      then have "r = None" using cl [of r] r by simp
      then show ?thesis unfolding eq r using te empty Nil by auto
    next
      case (Cons v vs)
      then obtain n where n: "r = Some n" "list_all (\<lambda>v. parse_usize (trim v) = Some n) (v # vs)"
        using cl [of r] r by auto
      then have "list_all (\<lambda>v. parse_usize (trim v) = Some k) (v # vs) \<longleftrightarrow> k = n" for k by auto
      then show ?thesis unfolding eq r n(1) Cons using te empty n(2) by auto
    qed
  qed
qed

lemma trim_start_short: "length (trim_start_bytes bs) \<le> length bs"
proof (induction bs rule: trim_start_bytes.induct)
  case (1 bs)
  then show ?case by (subst trim_start_bytes.simps) fastforce
qed

lemma trim_end_short: "length (trim_end_bytes bs) \<le> length bs"
proof (induction bs rule: trim_end_bytes.induct)
  case (1 bs)
  then show ?case by (subst trim_end_bytes.simps) fastforce
qed

lemma trim_short: "length (trim s) \<le> length s"
  using trim_end_short [of "trim_start_bytes (as_bytes s)"] trim_start_short [of "as_bytes s"]
  by (simp add: trim_def of_bytes_def as_bytes_def)

definition field_ok :: "RequestLimits \<Rightarrow> string \<times> string \<Rightarrow> bool" where
  "field_ok lim field \<longleftrightarrow>
    fst field \<noteq> [] \<and> list_all is_token_char (as_bytes (fst field)) \<and>
    length (fst field) + 1 + length (snd field) \<le> max_header_size lim"

lemma header_lines_Ok:
  "header_lines lim ls acc = Ok hs \<Longrightarrow> length acc \<le> max_header_count lim \<Longrightarrow>
    list_all (field_ok lim) acc \<Longrightarrow>
    length hs \<le> max_header_count lim \<and> list_all (field_ok lim) hs"
proof (induction lim ls acc rule: header_lines.induct)
  case (2 lim line rest acc)
  show ?case
  proof (cases "line = []")
    case True
    then show ?thesis using 2 by simp
  next
    case False
    then obtain colon where c: "str_find CHR '':'' line = Some colon" "\<not> max_header_count lim \<le> length acc"
      "\<not> max_header_size lim < length line"
      using 2(2) by (auto split: if_splits option.splits)
    have n: "trim (take colon line) \<noteq> []" "list_all is_token_char (as_bytes (trim (take colon line)))"
      "header_lines lim rest (acc @ [(trim (take colon line), trim (drop (colon + 1) line))]) = Ok hs"
      using 2(2) False c by (auto simp: Let_def split: if_splits)
    have len: "length (trim (take colon line)) + 1 + length (trim (drop (colon + 1) line)) \<le> length line"
      using str_find_Some [OF c(1), THEN conjunct2, THEN conjunct2] trim_short [of "take colon line"]
        trim_short [of "drop (colon + 1) line"] by simp
    show ?thesis
      using 2(1) [OF False c(2,3,1) refl refl _ n(3)] n(1,2) 2(3,4) c(2,3) len by (simp add: field_ok_def)
  qed
qed simp

lemma parse_head_Ok:
  assumes "parse_head buf lim = Ok ph"
  shows "length (ph_headers ph) \<le> max_header_count lim"
    "list_all (field_ok lim) (ph_headers ph)"
    "length (ph_target ph) \<le> max_uri_len lim" "ph_version ph = ''HTTP/1.1'' \<or> ph_version ph = ''HTTP/1.0''"
    "ph_method ph \<noteq> []" "list_all is_ascii_graphic (as_bytes (ph_method ph))"
  using assms header_lines_Ok [of lim _ "[]"]
  by (auto simp: parse_head_def Let_def res_simps split: option.splits if_splits prod.splits)

definition h1_request_ok :: "RequestLimits \<Rightarrow> Request \<Rightarrow> bool" where
  "h1_request_ok lim r \<longleftrightarrow>
    (if takeWhile (\<lambda>c. c \<noteq> CHR ''?'') (rq_uri r) = ''*'' then rq_path r = ''*'' else safe_path (rq_path r)) \<and>
    length (rq_uri r) \<le> max_uri_len lim \<and> length (rq_headers r) \<le> max_header_count lim \<and>
    list_all (field_ok lim) (rq_headers r) \<and> length (rq_body r) \<le> max_post_size lim \<and>
    \<not> (has_header ''transfer-encoding'' (rq_headers r) \<and> has_header ''content-length'' (rq_headers r))"

lemma normalize_path:
  assumes "normalize_target t = Ok u"
  shows "if takeWhile (\<lambda>c. c \<noteq> CHR ''?'') t = ''*'' then uri_path u = ''*'' else safe_path (uri_path u)"
proof -
  define raw where "raw = (case str_find CHR ''?'' t of Some i \<Rightarrow> take i t | None \<Rightarrow> t)"
  have raw: "takeWhile (\<lambda>c. c \<noteq> CHR ''?'') t = raw"
  proof (cases "str_find CHR ''?'' t")
    case None
    then have "\<forall>c \<in> set t. c \<noteq> CHR ''?''" by (auto simp: str_find_None)
    then show ?thesis using None by (simp add: raw_def takeWhile_eq_all_conv)
  next
    case (Some i)
    note f = str_find_Some [OF Some]
    have "takeWhile (\<lambda>c. c \<noteq> CHR ''?'') (take i t @ CHR ''?'' # drop (Suc i) t) = take i t"
      by (subst takeWhile_append2) (use f in auto)
    then show ?thesis using Some f by (simp add: raw_def)
  qed
  have star: "uri_path u = ''*''" if "raw = ''*''"
    using assms that by (cases "str_find CHR ''?'' t") (auto simp: normalize_target_def raw_def)
  have "\<exists>ds. collapse_dot_segments ds = Ok (uri_path u)" if "raw \<noteq> ''*''"
    using assms that
    by (cases "str_find CHR ''?'' t")
      (auto simp: normalize_target_def raw_def res_simps simp del: take_eq_Nil hd_take split: if_splits; blast)+
  then have "uri_path u \<noteq> ''*''" if "raw \<noteq> ''*''" using that collapse_dot_segments_shape by fastforce
  then show ?thesis unfolding raw using star normalize_safe_path [OF assms] by simp
qed

lemma framed_body_bound:
  assumes "framed fr lim enc body" "max_post_size lim < usize_max"
  shows "length body \<le> max_post_size lim"
  using assms push_loop_ok [OF assms(2) decoder_ok_new, of enc 0]
  by (cases fr) (auto simp: push_def push_ok_def decoder_ok_def)

lemma has_header_values: "has_header name hs \<longleftrightarrow> values_of name hs \<noteq> []"
  by (induction hs) (auto split: if_splits)

lemma framing_not_both:
  "body_framing hs = Ok fr \<Longrightarrow> \<not> (has_header ''transfer-encoding'' hs \<and> has_header ''content-length'' hs)"
  by (auto simp: body_framing_iff has_header_values split: if_splits)

lemma read_request_ok:
  assumes "read_request carry peer lim es = (Parsed r, carry', es')" "max_post_size lim < usize_max"
  shows "h1_request_ok lim r"
  using assms(1)
proof (cases rule: read_requestE)
  case (1 h left es1 ph fr body n)
  obtain enc where "framed fr lim enc body" using read_body_conserves(1) [OF 1(4)] by blast
  then show ?thesis
    using 1 parse_head_Ok [OF 1(2)] normalize_path [OF 1(5)] framing_not_both [OF 1(3)]
      framed_body_bound [OF _ assms(2)] by (auto simp: h1_request_ok_def)
qed


section \<open>Properties\<close>

text \<open>
  C17. Every request that HTTP/1.1 hands to the adapter, however its bytes arrive, has a path that
  cannot leave the document root (the path \<open>*\<close> exactly for the target \<open>*\<close>, with or without a query), a
  target, a number of header fields, a body and in every field a name, its separator and a value within the
  configured limits, header names that are tokens, and not both a \<open>Transfer-Encoding\<close> and a \<open>Content-Length\<close>.
\<close>

theorem http1_request_safe:
  assumes "read_request carry peer lim es = (Parsed r, carry', es')" "max_post_size lim < usize_max"
  shows "h1_request_ok lim r"
  using assms by (rule read_request_ok)

text \<open>
  C18. Requests are cut exactly out of the byte stream, whatever its segmentation. What was pending is a head
  that ends with the first blank line of the stream, the bytes of the body, and what is pending afterwards;
  the request is the one that head describes, and the body is framed as its header fields say: a body of a
  declared length is exactly those bytes, a chunked one what they decode to. Behind a body nothing is lost.
  Behind a head without a body the carried-over bytes are dropped, and of bytes newly read less than the 4096
  of one read: that is the pipelined request that came with the head.
\<close>

theorem http1_framing_exact:
  assumes "read_request carry peer lim es = (Parsed r, carry', es')"
  shows "\<exists>h enc lost ph fr. carry @ arriving es = h @ enc @ lost @ carry' @ arriving es' \<and>
    first_blank_line h (carry @ arriving es) \<and> parse_head h lim = Ok ph \<and>
    finish_request ph (rq_body r) peer = Parsed r \<and> body_framing (ph_headers ph) = Ok fr \<and>
    framed fr lim enc (rq_body r) \<and>
    (if fr = NoBody then carry' = [] \<and> (es' = es \<or> length lost < 4096) else lost = [])"
  using assms by (rule read_request_conserves)

text \<open>
  C16. A framing is granted to a message in exactly these cases. With a \<open>Transfer-Encoding\<close>, the body is
  chunked, there is no \<open>Content-Length\<close>, and the codings listed, in all the fields together and empty list
  entries aside, are one or more times \<open>chunked\<close> and nothing else. Without one, every \<open>Content-Length\<close> that
  is there says the same number, which is the length of the body, and there is no body if it is zero or if no
  length is given. Any other message, with both fields, with an unknown coding, with lengths that differ, the
  length zero among them, or with one that is no number, is refused.
\<close>

theorem http1_no_smuggling:
  "body_framing hs = Ok fr \<longleftrightarrow>
    (if values_of ''transfer-encoding'' hs \<noteq> []
     then fr = ChunkedBody \<and> values_of ''content-length'' hs = [] \<and> transfer_codings hs \<noteq> [] \<and>
       list_all (\<lambda>c. c = ''chunked'') (transfer_codings hs)
     else if values_of ''content-length'' hs = [] then fr = NoBody
     else \<exists>n. list_all (\<lambda>v. parse_usize (trim v) = Some n) (values_of ''content-length'' hs) \<and>
       fr = (if n = 0 then NoBody else Fixed n))"
  by (rule body_framing_iff)

text \<open>
  Bytes that arrive with the head of a request without a body are dropped: the request that a
  client has pipelined behind it is neither kept for the next round nor answered.
\<close>

lemma http1_bodyless_drops_pipelined:
  assumes "find_header_end (h @ behind) = Some (length h)" "length (h @ behind) \<le> 4096"
    "parse_head h lim = Ok ph" "body_framing (ph_headers ph) = Ok NoBody"
  shows "read_request [] peer lim [Arrive (h @ behind)] = (finish_request ph [] peer, [], [])"
proof -
  have "h \<noteq> []" using find_header_end_bound [OF assms(1)] by auto
  then have "read_head [] [Arrive (h @ behind)] = (Ok (Some (h, behind)), [])"
    using assms(1,2) by (simp add: read_head_def read_head_loop.simps Let_def H1_HEADER_BLOCK_HARD_CAP_def)
  then show ?thesis using assms(3,4) by (simp add: read_request_def read_body_def)
qed

definition sample_limits :: RequestLimits where
  "sample_limits = \<lparr>max_header_count = 100, max_header_size = 8192, max_post_size = 2097152, max_uri_len = 8192\<rparr>"

definition sample_get :: "string \<Rightarrow> bytes" where
  "sample_get p = as_bytes (''GET '' @ p @ '' HTTP/1.1'' @ crlf @ crlf)"

lemma sample_get_parse:
  "parse_head (sample_get ''/a'') sample_limits =
    Ok \<lparr>ph_method = ''GET'', ph_target = ''/a'', ph_version = ''HTTP/1.1'', ph_headers = []\<rparr>"
proof -
  have "from_utf8 (sample_get ''/a'') = Some (''GET /a HTTP/1.1'' @ crlf @ crlf)" by code_simp
  moreover have "list_all is_ascii_graphic (as_bytes ''GET'')" by code_simp
  ultimately show ?thesis
    by (simp add: parse_head_def crlf_def split_once_def sample_limits_def)
qed

lemma sample_get_normalize: "normalize_target ''/a'' = Ok \<lparr>uri_path = ''/a'', uri_query = None\<rparr>"
  by code_simp

lemma http1_bodyless_drops_pipelined_witness:
  "read_request [] ''peer'' sample_limits [Arrive (sample_get ''/a'' @ sample_get ''/b'')] =
    (Parsed \<lparr>rq_method = ''GET'', rq_uri = ''/a'', rq_path = ''/a'', rq_query = None, rq_version = ''HTTP/1.1'',
       rq_headers = [], rq_body = [], rq_peer_addr = ''peer''\<rparr>, [], [])"
proof -
  have e: "find_header_end (sample_get ''/a'' @ sample_get ''/b'') = Some (length (sample_get ''/a''))" by code_simp
  have l: "length (sample_get ''/a'' @ sample_get ''/b'') \<le> 4096" by (simp add: sample_get_def crlf_def)
  have "body_framing [] = Ok NoBody" by (simp add: body_framing_def)
  then show ?thesis
    using http1_bodyless_drops_pipelined [OF e l sample_get_parse, of "''peer''"]
    by (simp add: finish_request_def sample_get_normalize)
qed

lemma sample_request:
  "read_request (sample_get ''/a'') ''peer'' sample_limits [] =
    (Parsed \<lparr>rq_method = ''GET'', rq_uri = ''/a'', rq_path = ''/a'', rq_query = None, rq_version = ''HTTP/1.1'',
       rq_headers = [], rq_body = [], rq_peer_addr = ''peer''\<rparr>, [], [])"
proof -
  have "find_header_end (sample_get ''/a'') = Some (length (sample_get ''/a''))" "sample_get ''/a'' \<noteq> []" by code_simp+
  then show ?thesis
    by (simp add: read_request_def read_head_def sample_get_parse body_framing_def read_body_def finish_request_def
        sample_get_normalize)
qed

definition sample_post :: bytes where
  "sample_post = as_bytes (''POST /a?q HTTP/1.1'' @ crlf @ ''content-length: 3'' @ crlf @ crlf)"

definition sample_posted :: Request where
  "sample_posted =
    \<lparr>rq_method = ''POST'', rq_uri = ''/a?q'', rq_path = ''/a'', rq_query = Some ''q'', rq_version = ''HTTP/1.1'',
     rq_headers = [(''content-length'', ''3'')], rq_body = as_bytes ''abc'', rq_peer_addr = ''peer''\<rparr>"

lemma sample_post_head:
  "parse_head sample_post sample_limits =
    Ok \<lparr>ph_method = ''POST'', ph_target = ''/a?q'', ph_version = ''HTTP/1.1'', ph_headers = [(''content-length'', ''3'')]\<rparr>"
proof -
  let ?line = "''content-length: 3''"
  have u: "from_utf8 sample_post = Some (''POST /a?q HTTP/1.1'' @ crlf @ ?line @ crlf @ crlf)" by code_simp
  have p: "split_crlf (''POST /a?q HTTP/1.1'' @ crlf @ ?line @ crlf @ crlf) = [''POST /a?q HTTP/1.1'', ?line, [], []]" by code_simp
  have r: "split_once CHR '' '' ''POST /a?q HTTP/1.1'' = Some (''POST'', ''/a?q HTTP/1.1'')"
    "split_once CHR '' '' ''/a?q HTTP/1.1'' = Some (''/a?q'', ''HTTP/1.1'')" by code_simp+
  have t: "list_all is_ascii_graphic (as_bytes ''POST'')" "list_all is_token_char (as_bytes ''content-length'')"
    "trim (take 14 ?line) = ''content-length''" "trim (drop (14 + 1) ?line) = ''3''" "str_find CHR '':'' ?line = Some 14"
    by code_simp+
  have l: "length ?line \<le> max_header_size sample_limits" "0 < max_header_count sample_limits" "length ''/a?q'' \<le> max_uri_len sample_limits"
    by (simp_all add: sample_limits_def)
  have h: "header_lines sample_limits [?line, [], []] [] = Ok [(''content-length'', ''3'')]"
    using l t by (simp only: header_lines.simps option.case Let_def) simp
  show ?thesis
    unfolding parse_head_def u option.case p Let_def list.sel r prod.case
    using h t(1) l(3) by simp
qed

lemma sample_post_framing: "body_framing [(''content-length'', ''3'')] = Ok (Fixed 3)"
proof -
  have e: "eq_ignore_ascii_case ''content-length'' ''content-length''"
    "\<not> eq_ignore_ascii_case ''content-length'' ''transfer-encoding''" "trim ''3'' = ''3''" by code_simp+
  have "parse_usize (trim ''3'') = Some 3"
    unfolding e(3) by (simp add: parse_usize_def digit_value_def usize_max_def)
  then show ?thesis using e by (intro body_framing_iff [THEN iffD2]) simp
qed

text \<open>A request with a body, and a second one behind it in the same bytes.\<close>

lemma sample_post_request:
  "read_request (sample_post @ as_bytes ''abc'' @ sample_get ''/b'') ''peer'' sample_limits [] =
    (Parsed sample_posted, sample_get ''/b'', [])"
proof -
  let ?behind = "as_bytes ''abc'' @ sample_get ''/b''"
  have e: "find_header_end (sample_post @ ?behind) = Some (length sample_post)"
    by (rule find_header_end_append) code_simp
  then have "read_head (sample_post @ ?behind) [] = (Ok (Some (sample_post, ?behind)), [])"
    by (auto simp: read_head_def)
  moreover have "read_fixed_body ?behind [] 3 [] = (Ok (as_bytes ''abc''), sample_get ''/b'', [])"
    by (simp add: read_fixed_body_def fixed_loop.simps as_bytes_def)
  moreover have "normalize_target ''/a?q'' = Ok \<lparr>uri_path = ''/a'', uri_query = Some ''q''\<rparr>" by code_simp
  moreover have "\<not> max_post_size sample_limits < 3" by (simp add: sample_limits_def)
  ultimately show ?thesis
    by (simp add: read_request_def sample_post_head sample_post_framing read_body_def finish_request_def sample_posted_def)
qed

theorem http1_request_safe_witness:
  "\<exists>behind. read_request (sample_post @ as_bytes ''abc'' @ behind) ''peer'' sample_limits [] = (Parsed sample_posted, behind, []) \<and>
     h1_request_ok sample_limits sample_posted"
  using sample_post_request http1_request_safe [OF sample_post_request]
  by (auto simp: sample_limits_def usize_max_def)

theorem http1_framing_exact_witness:
  "\<exists>h enc. sample_post @ as_bytes ''abc'' @ sample_get ''/b'' = h @ enc @ sample_get ''/b'' \<and>
     framed (Fixed 3) sample_limits enc (as_bytes ''abc'')"
proof -
  have "body_framing (rq_headers sample_posted) = Ok (Fixed 3)" by (simp add: sample_posted_def sample_post_framing)
  moreover have "ph_headers ph = rq_headers sample_posted" if "finish_request ph body peer = Parsed sample_posted" for ph body peer
    using that by (auto simp: finish_request_def dest: arg_cong [of _ _ rq_headers] split: sum.splits)
  ultimately show ?thesis using http1_framing_exact [OF sample_post_request]
    by (auto simp: sample_posted_def)
qed

end
