(* ===== verification/WsFrame.thy ===== *)
theory WsFrame
  imports Text
begin

text \<open>
  WebSocket frames: \<open>crates/tomcatrs-websocket/src/frame.rs\<close>. The parser reads client frames,
  which are masked; the encoder writes server frames, which are not.
\<close>

section \<open>Model\<close>

definition MAX_PAYLOAD_LEN :: nat where
  "MAX_PAYLOAD_LEN = 64 * 1024 * 1024"

datatype Opcode = OpContinuation | OpText | OpBinary | OpClose | OpPing | OpPong

fun opcode_u8 :: "Opcode \<Rightarrow> u8" where
  "opcode_u8 OpContinuation = 0x0"
| "opcode_u8 OpText = 0x1"
| "opcode_u8 OpBinary = 0x2"
| "opcode_u8 OpClose = 0x8"
| "opcode_u8 OpPing = 0x9"
| "opcode_u8 OpPong = 0xA"

definition opcode_from_u8 :: "u8 \<Rightarrow> Error + Opcode" where
  "opcode_from_u8 v =
    (if v = 0x0 then Ok OpContinuation
     else if v = 0x1 then Ok OpText
     else if v = 0x2 then Ok OpBinary
     else if v = 0x8 then Ok OpClose
     else if v = 0x9 then Ok OpPing
     else if v = 0xA then Ok OpPong
     else Err (Protocol (''websocket frame: reserved or invalid opcode 0x'' @ to_ascii_uppercase (hex_str (unat v)))))"

definition is_control :: "Opcode \<Rightarrow> bool" where
  "is_control p \<longleftrightarrow> p = OpClose \<or> p = OpPing \<or> p = OpPong"

record ws_frame =
  wf_fin :: bool
  wf_opcode :: Opcode
  wf_payload :: bytes

definition ws_text :: "bytes \<Rightarrow> ws_frame" where
  "ws_text p = \<lparr>wf_fin = True, wf_opcode = OpText, wf_payload = p\<rparr>"

definition ws_binary :: "bytes \<Rightarrow> ws_frame" where
  "ws_binary p = \<lparr>wf_fin = True, wf_opcode = OpBinary, wf_payload = p\<rparr>"

text \<open>The extended payload length: its value and the bytes it takes; \<open>None\<close> when bytes are missing.\<close>

definition ws_length :: "nat \<Rightarrow> bytes \<Rightarrow> (nat \<times> nat) option" where
  "ws_length len7 rest =
    (if len7 = 126 then (case rest of a # b # _ \<Rightarrow> Some (unat (from_be16 a b), 2) | _ \<Rightarrow> None)
     else if len7 = 127 then
       (case rest of
          a # b # c # d # e # f # g # h # _ \<Rightarrow> Some (unat (from_be64 a b c d e f g h), 8)
        | _ \<Rightarrow> None)
     else Some (len7, 0))"

definition unmask :: "bytes \<Rightarrow> bytes \<Rightarrow> bytes" where
  "unmask key payload = map (\<lambda>i. payload ! i XOR key ! (i mod 4)) [0..<length payload]"

definition section_sign :: string where
  "section_sign = [CHR 0xC2, CHR 0xA7]"

text \<open>The checks on the length, the control frames and the mask, then the key and the payload.\<close>

definition ws_check :: "bool \<Rightarrow> Opcode \<Rightarrow> nat \<Rightarrow> bool \<Rightarrow> Error + unit" where
  "ws_check fin opcode payload_len masked =
    (if usize_max < payload_len then
       Err (Protocol ''websocket frame: payload length exceeds addressable memory'')
     else if MAX_PAYLOAD_LEN < payload_len then
       Err (Protocol (''websocket frame: payload length '' @ dec_str payload_len @ '' exceeds limit '' @
         dec_str MAX_PAYLOAD_LEN))
     else if is_control opcode \<and> \<not> fin then
       Err (Protocol ''websocket frame: control frames must not be fragmented'')
     else if is_control opcode \<and> 125 < payload_len then
       Err (Protocol ''websocket frame: control frame payload must not exceed 125 bytes'')
     else if \<not> masked then
       Err (Protocol (''websocket frame: client frames must be masked (RFC 6455 '' @ section_sign @ ''5.1)''))
     else Ok ())"

definition ws_take :: "bool \<Rightarrow> Opcode \<Rightarrow> nat \<Rightarrow> nat \<Rightarrow> bytes \<Rightarrow> (ws_frame \<times> nat) option" where
  "ws_take fin opcode payload_len ext rest =
    (if length rest < ext + 4 then None
     else
       let mask_key = take 4 (drop ext rest); body = drop (ext + 4) rest in
       if length body < payload_len then None
       else Some (\<lparr>wf_fin = fin, wf_opcode = opcode, wf_payload = unmask mask_key (take payload_len body)\<rparr>,
         2 + ext + 4 + payload_len))"

definition ws_parse :: "bytes \<Rightarrow> Error + (ws_frame \<times> nat) option" where
  "ws_parse buf =
    (case buf of
       b0 # b1 # rest \<Rightarrow>
         let fin = (b0 AND 0x80 \<noteq> 0) in
         if b0 AND 0x70 \<noteq> 0 then
           Err (Protocol ''websocket frame: reserved RSV bits must be zero (no extensions negotiated)'')
         else and_then (opcode_from_u8 (b0 AND 0x0F)) (\<lambda>opcode.
           (case ws_length (unat (b1 AND 0x7F)) rest of
              None \<Rightarrow> Ok None
            | Some (payload_len, ext) \<Rightarrow>
                and_then (ws_check fin opcode payload_len (b1 AND 0x80 \<noteq> 0)) (\<lambda>_.
                  Ok (ws_take fin opcode payload_len ext rest))))
     | _ \<Rightarrow> Ok None)"

definition ws_encode :: "ws_frame \<Rightarrow> bytes" where
  "ws_encode f =
    (let len = length (wf_payload f); b0 = (if wf_fin f then 0x80 else 0x00) OR opcode_u8 (wf_opcode f) in
     [b0] @
     (if len < 126 then [of_nat len]
      else if len \<le> 65535 then 126 # be16 (of_nat len)
      else 127 # be64 (of_nat len)) @
     wf_payload f)"

section \<open>Incremental parsing\<close>

lemma ws_length_more: "ws_length n rest = Some r \<Longrightarrow> ws_length n (rest @ extra) = Some r"
  by (auto simp: ws_length_def split: if_splits list.splits)

lemma ws_length_used: "ws_length n rest = Some (len, ext) \<Longrightarrow> ext \<le> length rest"
  by (auto simp: ws_length_def split: if_splits list.splits)

lemma ws_take_more: "ws_take fin p len ext rest = Some r \<Longrightarrow> ws_take fin p len ext (rest @ extra) = Some r"
  by (auto simp: ws_take_def Let_def split: if_splits)

lemma ws_parse_Some:
  "ws_parse buf = Ok (Some (f, n)) \<longleftrightarrow>
    (\<exists>b0 b1 rest p len ext. buf = b0 # b1 # rest \<and> b0 AND 0x70 = 0 \<and> opcode_from_u8 (b0 AND 0x0F) = Ok p \<and>
      ws_length (unat (b1 AND 0x7F)) rest = Some (len, ext) \<and>
      ws_check (b0 AND 0x80 \<noteq> 0) p len (b1 AND 0x80 \<noteq> 0) = Ok () \<and>
      ws_take (b0 AND 0x80 \<noteq> 0) p len ext rest = Some (f, n))"
  by (auto simp: ws_parse_def Let_def res_simps split: list.split option.split)

lemma ws_parse_used: "ws_parse buf = Ok (Some (f, n)) \<Longrightarrow> 0 < n \<and> n \<le> length buf"
  by (auto simp: ws_parse_Some ws_take_def Let_def split: if_splits)

lemma ws_parse_more_value:
  assumes "ws_parse buf = Ok (Some (f, n))"
  shows "ws_parse (buf @ extra) = Ok (Some (f, n))"
proof -
  from assms [unfolded ws_parse_Some] obtain b0 b1 rest p len ext where
    w: "buf = b0 # b1 # rest" "b0 AND 0x70 = 0" "opcode_from_u8 (b0 AND 0x0F) = Ok p"
      "ws_length (unat (b1 AND 0x7F)) rest = Some (len, ext)"
      "ws_check (b0 AND 0x80 \<noteq> 0) p len (b1 AND 0x80 \<noteq> 0) = Ok ()"
      "ws_take (b0 AND 0x80 \<noteq> 0) p len ext rest = Some (f, n)" by blast
  then show ?thesis
    using ws_length_more [OF w(4), of extra] ws_take_more [OF w(6), of extra] by (simp add: ws_parse_def)
qed

lemma ws_parse_more_error:
  assumes "ws_parse buf = Err e"
  shows "ws_parse (buf @ extra) = Err e"
proof -
  obtain b0 b1 rest where buf: "buf = b0 # b1 # rest"
    using assms by (auto simp: ws_parse_def split: list.splits)
  show ?thesis
  proof (cases "b0 AND 0x70 \<noteq> 0 \<or> (\<exists>e. opcode_from_u8 (b0 AND 0x0F) = Err e)")
    case True
    then show ?thesis using assms by (auto simp: buf ws_parse_def Let_def split: if_splits)
  next
    case False
    then obtain p where p: "opcode_from_u8 (b0 AND 0x0F) = Ok p" "b0 AND 0x70 = 0"
      by (cases "opcode_from_u8 (b0 AND 0x0F)") auto
    then obtain len ext where l: "ws_length (unat (b1 AND 0x7F)) rest = Some (len, ext)"
      using assms by (cases "ws_length (unat (b1 AND 0x7F)) rest") (auto simp: buf ws_parse_def)
    show ?thesis
      using assms p l ws_length_more [OF l, of extra] by (simp add: buf ws_parse_def Let_def res_simps)
  qed
qed

interpretation ws_inc: incremental_parser ws_parse
  by unfold_locales (auto dest: ws_parse_used ws_parse_more_value ws_parse_more_error)

section \<open>Round trip\<close>

text \<open>What a client sends for a frame: the server's encoding with the mask bit, a key and a masked payload.\<close>

definition ws_ok :: "ws_frame \<Rightarrow> bool" where
  "ws_ok f \<longleftrightarrow> length (wf_payload f) \<le> MAX_PAYLOAD_LEN \<and>
    (is_control (wf_opcode f) \<longrightarrow> wf_fin f \<and> length (wf_payload f) \<le> 125)"

definition ws_mask :: "bytes \<Rightarrow> bytes \<Rightarrow> bytes" where
  "ws_mask key enc =
    (case enc of
       b0 # b1 # rest \<Rightarrow>
         let ext = (if b1 = 126 then 2 else if b1 = 127 then 8 else 0) in
         [b0, 0x80 OR b1] @ take ext rest @ key @ unmask key (drop ext rest)
     | _ \<Rightarrow> enc)"

lemma length_unmask [simp]: "length (unmask key p) = length p"
  by (simp add: unmask_def)

lemma unmask_unmask [simp]: "unmask key (unmask key p) = p"
  by (rule nth_equalityI) (simp_all add: unmask_def xor.assoc)

lemma masked_length:
  fixes b :: u8
  assumes "b < 0x80"
  shows "(0x80 OR b) AND 0x80 \<noteq> 0" "(0x80 OR b) AND 0x7F = b"
proof -
  have b7: "\<not> bit b k" if "7 \<le> k" for k
  proof -
    have "unat (take_bit 7 b) = unat b" using assms 
      by (simp add: take_bit_eq_mod unat_mod_distrib word_less_nat_alt)
    then have "b = take_bit 7 b" by (simp add: word_unat_eq_iff)
    then show ?thesis using that by (metis bit_take_bit_iff not_le)
  qed
  have "bit ((0x80 OR b) AND 0x80) 7" by (simp add: bit_simps bit_numeral_rec)
  then show "(0x80 OR b) AND 0x80 \<noteq> 0" by (metis bit_0_eq bot_apply bot_bool_def)
  show "(0x80 OR b) AND 0x7F = b"
  proof (rule bit_word_eqI)
    fix k :: nat assume "k < LENGTH(8)"
    then have "k = 0 \<or> k = 1 \<or> k = 2 \<or> k = 3 \<or> k = 4 \<or> k = 5 \<or> k = 6 \<or> k = 7" by auto
    then show "bit ((0x80 OR b) AND 0x7F) k = bit b k" using b7 [of 7] by (auto simp: bit_simps bit_numeral_rec)
  qed
qed

lemma ws_first_byte:
  "(let b0 = (if fin then 0x80 else 0x00) OR opcode_u8 p
    in b0 AND 0x70 = 0 \<and> b0 AND 0x0F = opcode_u8 p \<and> (b0 AND 0x80 \<noteq> 0) = fin)"
  by (cases p; cases fin) (simp_all add: Let_def)

lemma opcode_from_u8_u8 [simp]: "opcode_from_u8 (opcode_u8 p) = Ok p"
  by (cases p) (simp_all add: opcode_from_u8_def)

text \<open>The length octet and its extension, and what the parser reads from them.\<close>

definition length_octets :: "nat \<Rightarrow> u8 \<times> bytes" where
  "length_octets len =
    (if len < 126 then (of_nat len, []) else if len \<le> 65535 then (126, be16 (of_nat len)) else (127, be64 (of_nat len)))"

lemma ws_encode_octets:
  "ws_encode f = ((if wf_fin f then 0x80 else 0x00) OR opcode_u8 (wf_opcode f)) #
    fst (length_octets (length (wf_payload f))) # snd (length_octets (length (wf_payload f))) @ wf_payload f"
  by (simp add: ws_encode_def length_octets_def Let_def)

lemma length_octets_read:
  assumes "len \<le> MAX_PAYLOAD_LEN" "length_octets len = (b1, ext)"
  shows "b1 < 0x80" "ws_length (unat b1) (ext @ rest) = Some (len, length ext)"
    "length ext = (if b1 = 126 then 2 else if b1 = 127 then 8 else 0)"
proof -
  consider "len < 126" | "126 \<le> len" "len \<le> 65535" | "65535 < len" "len \<le> 67108864"
    using assms(1) by (fastforce simp: MAX_PAYLOAD_LEN_def)
  note c = this
  have small: "unat (of_nat len :: u8) = len" if "len < 126" using that by (simp add: unat_of_nat)
  have ne: "(of_nat len :: u8) \<noteq> 126" "(of_nat len :: u8) \<noteq> 127" if "len < 126"
    using small [OF that] that by auto
  from c show "b1 < 0x80" using assms(2) small by cases (auto simp: length_octets_def word_less_nat_alt)
  from c show "ws_length (unat b1) (ext @ rest) = Some (len, length ext)"
  proof cases
    case 1
    then show ?thesis using assms(2) small by (auto simp: length_octets_def ws_length_def)
  next
    case 2
    then show ?thesis using assms(2) by (auto simp: length_octets_def ws_length_def be16_def unat_of_nat)
  next
    case 3
    then show ?thesis using assms(2) by (auto simp: length_octets_def ws_length_def be64_def unat_of_nat)
  qed
  from c show "length ext = (if b1 = 126 then 2 else if b1 = 127 then 8 else 0)"
    using assms(2) ne by cases (auto simp: length_octets_def)
qed

lemma ws_parse_masked:
  assumes "ws_ok f" "length key = 4"
  shows "ws_parse (ws_mask key (ws_encode f) @ rest) = Ok (Some (f, length (ws_mask key (ws_encode f))))"
proof -
  let ?p = "wf_payload f"
  define b0 where "b0 = (if wf_fin f then 0x80 else 0x00) OR opcode_u8 (wf_opcode f)"
  obtain b1 ext where o: "length_octets (length ?p) = (b1, ext)" by fastforce
  have len: "length ?p \<le> MAX_PAYLOAD_LEN" using assms(1) by (simp add: ws_ok_def)
  note r = length_octets_read [OF len o]
  have m: "ws_mask key (ws_encode f) = b0 # (0x80 OR b1) # ext @ key @ unmask key ?p"
    using o r(3) by (simp add: ws_encode_octets ws_mask_def b0_def [symmetric] Let_def)
  have f0: "b0 AND 0x70 = 0" "b0 AND 0x0F = opcode_u8 (wf_opcode f)" "(b0 AND 0x80 \<noteq> 0) = wf_fin f"
    using ws_first_byte [of "wf_fin f" "wf_opcode f"] by (simp_all add: b0_def Let_def)
  have chk: "ws_check (wf_fin f) (wf_opcode f) (length ?p) True = Ok ()"
    using assms(1) by (auto simp: ws_check_def ws_ok_def MAX_PAYLOAD_LEN_def usize_max_def)
  have tk: "ws_take (wf_fin f) (wf_opcode f) (length ?p) (length ext) (ext @ key @ unmask key ?p @ rest) =
      Some (f, length (ws_mask key (ws_encode f)))"
    using assms(2) by (simp add: ws_take_def m Let_def)
  show ?thesis
    using f0 chk tk r(2) [of "key @ unmask key ?p @ rest"] masked_length [OF r(1)]
    by (simp add: m ws_parse_def Let_def)
qed

lemma ws_parse_ok: "ws_parse buf = Ok (Some (f, n)) \<Longrightarrow> ws_ok f"
  by (auto simp: ws_parse_Some ws_take_def ws_check_def ws_ok_def Let_def split: if_splits)

section \<open>Properties\<close>

text \<open>
  A client's frame parses to what was sent: for every frame within the limits and every masking
  key, the encoding with the mask applied is read back as the frame, using up exactly its bytes; and
  every frame the parser delivers is within the limits: at most 64 MiB, control frames unfragmented
  and of at most 125 bytes.
\<close>

lemma ws_frame_roundtrip:
  assumes "ws_ok f" "length key = 4"
  shows "ws_parse (ws_mask key (ws_encode f) @ rest) = Ok (Some (f, length (ws_mask key (ws_encode f)))) \<and>
    (\<forall>buf g n. ws_parse buf = Ok (Some (g, n)) \<longrightarrow> ws_ok g \<and> 0 < n \<and> n \<le> length buf)"
  using ws_parse_masked [OF assms] ws_parse_ok ws_parse_used by blast

lemma ws_frame_roundtrip_witness:
  "ws_parse (ws_mask [1, 2, 3, 4] (ws_encode (ws_text [0x68, 0x69])) @ [0]) =
    Ok (Some (ws_text [0x68, 0x69], length (ws_mask [1, 2, 3, 4] (ws_encode (ws_text [0x68, 0x69])))))"
  by (rule ws_frame_roundtrip [THEN conjunct1]) (simp_all add: ws_ok_def ws_text_def MAX_PAYLOAD_LEN_def is_control_def)

end
