(* ===== verification/WsTransport.thy ===== *)
theory WsTransport
  imports WsFrame Socket
begin

text \<open>
  WebSocket connections: \<open>crates/tomcatrs-websocket/src/transport.rs\<close>, lines 78-803. The socket
  is the list of events of \<open>Socket\<close>; what is written is kept as the list of frames in order.
  Writes succeed. The masking of outgoing frames and the extension negotiation are not in this theory.

  A panic ends the task that owns the connection: it is an outcome of its own, and the connection stays as
  it was when it happened.
\<close>

section \<open>Messages\<close>

record WebSocketConfig =
  max_message_size :: nat
  max_frame_size :: nat
  accept_unmasked_frames :: bool

datatype WebSocketState = Connecting | Open | Closing | Closed

record CloseFrame =
  cf_code :: u16
  cf_reason :: string

definition close_payload :: "CloseFrame \<Rightarrow> bytes" where
  "close_payload c = be16 (cf_code c) @ as_bytes (cf_reason c)"

definition close_from_payload :: "bytes \<Rightarrow> Error + CloseFrame option" where
  "close_from_payload payload =
    (case payload of
       [] \<Rightarrow> Ok None
     | [_] \<Rightarrow> Err (Protocol ''websocket close frame: 1-byte payload is malformed (need 0 or >=2)'')
     | a # b # rest \<Rightarrow>
         (case from_utf8 rest of
            None \<Rightarrow> Err (Protocol ''websocket close frame: reason is not valid UTF-8'')
          | Some reason \<Rightarrow> Ok (Some \<lparr>cf_code = from_be16 a b, cf_reason = reason\<rparr>)))"

datatype WsMessage =
    MText string
  | MBinary bytes
  | MPing bytes
  | MPong bytes
  | MClose "CloseFrame option"

record FragmentBuffer =
  fb_is_text :: bool
  fb_data :: bytes

record WebSocketConnection =
  ws_config :: WebSocketConfig
  ws_state :: WebSocketState
  ws_read_buf :: bytes
  ws_fragment :: "FragmentBuffer option"
  ws_last_pong :: "bytes option"
  ws_close_sent :: bool
  ws_close_received :: bool
  ws_events :: "ReadEvent list"
  ws_written :: "ws_frame list"

definition ws_new :: "ReadEvent list \<Rightarrow> WebSocketConfig \<Rightarrow> WebSocketConnection" where
  "ws_new stream cfg =
    \<lparr>ws_config = cfg, ws_state = Open, ws_read_buf = [], ws_fragment = None, ws_last_pong = None,
     ws_close_sent = False, ws_close_received = False, ws_events = stream, ws_written = []\<rparr>"

section \<open>Writing\<close>

definition write_frame :: "ws_frame \<Rightarrow> WebSocketConnection \<Rightarrow> WebSocketConnection" where
  "write_frame f c = c\<lparr>ws_written := ws_written c @ [f]\<rparr>"

text \<open>The loop of \<open>write_data_frames\<close>: the frames for what is left of the payload.\<close>

function fragment_frames :: "nat \<Rightarrow> Opcode \<Rightarrow> bool \<Rightarrow> bytes \<Rightarrow> ws_frame list" where
  "fragment_frames m opcode first payload =
    (if payload = [] \<or> m = 0 then []
     else
       \<lparr>wf_fin = (length payload \<le> m), wf_opcode = (if first then opcode else OpContinuation),
        wf_payload = take m payload\<rparr> # fragment_frames m opcode False (drop m payload))"
  by pat_completeness auto
termination by (relation "measure (\<lambda>(m, p, first, payload). length payload)") auto

declare fragment_frames.simps [simp del]

definition write_data_frames :: "Opcode \<Rightarrow> bytes \<Rightarrow> WebSocketConnection \<Rightarrow> WebSocketConnection \<times> (Error + unit)" where
  "write_data_frames opcode payload c =
    (let m = max (max_frame_size (ws_config c)) 1 in
     if length payload \<le> m then
       (write_frame \<lparr>wf_fin = True, wf_opcode = opcode, wf_payload = payload\<rparr> c, Ok ())
     else (fold write_frame (fragment_frames m opcode True payload) c, Ok ()))"

definition write_control_frame :: "Opcode \<Rightarrow> bytes \<Rightarrow> WebSocketConnection \<Rightarrow> WebSocketConnection \<times> (Error + unit)" where
  "write_control_frame opcode payload c =
    (if 125 < length payload then
       (c, Err (Protocol (''websocket: control frame payload '' @ dec_str (length payload) @ '' exceeds 125 bytes'')))
     else (write_frame \<lparr>wf_fin = True, wf_opcode = opcode, wf_payload = payload\<rparr> c, Ok ()))"

definition send_close_frame :: "CloseFrame option \<Rightarrow> WebSocketConnection \<Rightarrow> WebSocketConnection \<times> (Error + unit)" where
  "send_close_frame close c =
    (if ws_close_sent c then (c, Ok ())
     else
       let payload = (case close of Some f \<Rightarrow> close_payload f | None \<Rightarrow> []) in
       if 125 < length payload then (c, Err (Protocol ''websocket: close frame payload exceeds 125 bytes''))
       else
         let c1 = write_frame \<lparr>wf_fin = True, wf_opcode = OpClose, wf_payload = payload\<rparr> c in
         (c1\<lparr>ws_close_sent := True, ws_state := (if ws_state c1 = Open then Closing else ws_state c1)\<rparr>, Ok ()))"

definition write_message :: "WsMessage \<Rightarrow> WebSocketConnection \<Rightarrow> WebSocketConnection \<times> (Error + unit)" where
  "write_message msg c =
    (case ws_state c of
       Open \<Rightarrow>
         (case msg of
            MText text \<Rightarrow> write_data_frames OpText (as_bytes text) c
          | MBinary data \<Rightarrow> write_data_frames OpBinary data c
          | MPing payload \<Rightarrow> write_control_frame OpPing payload c
          | MPong payload \<Rightarrow> write_control_frame OpPong payload c
          | MClose close \<Rightarrow> send_close_frame close c)
     | Connecting \<Rightarrow> (c, Err (Protocol ''websocket: cannot write before the connection is open''))
     | _ \<Rightarrow>
         (c, Err (Protocol ''websocket: cannot write a message after the connection has started closing'')))"

section \<open>Reading\<close>

definition check_message_size :: "nat \<Rightarrow> WebSocketConnection \<Rightarrow> Error + unit" where
  "check_message_size len c =
    (if max_message_size (ws_config c) < len then
       Err (Protocol (''websocket: message size '' @ dec_str len @ '' exceeds max_message_size '' @
         dec_str (max_message_size (ws_config c)) @ '' (close code 1009)''))
     else Ok ())"

definition finish_data_message :: "bool \<Rightarrow> bytes \<Rightarrow> WebSocketConnection \<Rightarrow> Error + WsMessage option" where
  "finish_data_message is_text payload c =
    and_then (check_message_size (length payload) c) (\<lambda>_.
      if is_text then
        (case from_utf8 payload of
           Some text \<Rightarrow> Ok (Some (MText text))
         | None \<Rightarrow> Err (Protocol ''websocket: text message payload is not valid UTF-8 (close code 1007)''))
      else Ok (Some (MBinary payload)))"

definition handle_control_frame ::
    "ws_frame \<Rightarrow> WebSocketConnection \<Rightarrow> WebSocketConnection \<times> (Error + WsMessage option)" where
  "handle_control_frame f c =
    (case wf_opcode f of
       OpPing \<Rightarrow>
         (if ws_state c = Open then
            (case write_control_frame OpPong (wf_payload f) c of
               (c1, Inl e) \<Rightarrow> (c1, Err e)
             | (c1, Inr _) \<Rightarrow> (c1, Ok (Some (MPing (wf_payload f)))))
          else (c, Ok (Some (MPing (wf_payload f)))))
     | OpPong \<Rightarrow> (c\<lparr>ws_last_pong := Some (wf_payload f)\<rparr>, Ok (Some (MPong (wf_payload f))))
     | _ \<Rightarrow>
         let c1 = c\<lparr>ws_close_received := True\<rparr> in
         (case close_from_payload (wf_payload f) of
            Inl e \<Rightarrow> (c1, Err e)
          | Inr close \<Rightarrow>
              (c1\<lparr>ws_state := (if ws_state c1 = Open then Closing else ws_state c1)\<rparr>, Ok (Some (MClose close)))))"

definition handle_frame :: "ws_frame \<Rightarrow> WebSocketConnection \<Rightarrow> WebSocketConnection \<times> (Error + WsMessage option)" where
  "handle_frame f c =
    (if is_control (wf_opcode f) then handle_control_frame f c
     else
       (case wf_opcode f of
          OpContinuation \<Rightarrow>
            (case ws_fragment c of
               None \<Rightarrow>
                 (c, Err (Protocol ''websocket: received a continuation frame with no message in progress''))
             | Some frag \<Rightarrow>
                 let new_len = length (fb_data frag) + length (wf_payload f) in
                 if max_message_size (ws_config c) < new_len then
                   (c, Err (Protocol (''websocket: reassembled message size '' @ dec_str new_len @
                      '' exceeds max_message_size '' @ dec_str (max_message_size (ws_config c)))))
                 else
                   let data = fb_data frag @ wf_payload f in
                   if wf_fin f then
                     (let c1 = c\<lparr>ws_fragment := None\<rparr> in (c1, finish_data_message (fb_is_text frag) data c1))
                   else (c\<lparr>ws_fragment := Some (frag\<lparr>fb_data := data\<rparr>)\<rparr>, Ok None))
        | _ \<Rightarrow>
            if ws_fragment c \<noteq> None then
              (c, Err (Protocol (''websocket: received a new data frame while a fragmented '' @
                ''message was still in progress'')))
            else
              let is_text = (wf_opcode f = OpText) in
              if wf_fin f then (c, finish_data_message is_text (wf_payload f) c)
              else
                (case check_message_size (length (wf_payload f)) c of
                   Inl e \<Rightarrow> (c, Err e)
                 | Inr _ \<Rightarrow>
                     (c\<lparr>ws_fragment := Some \<lparr>fb_is_text = is_text, fb_data = wf_payload f\<rparr>\<rparr>, Ok None))))"

definition lenient_check :: "bool \<Rightarrow> Opcode \<Rightarrow> nat \<Rightarrow> Error + unit" where
  "lenient_check fin opcode payload_len =
    (if is_control opcode \<and> (\<not> fin \<or> 125 < payload_len) then
       Err (Protocol ''websocket frame: control frames must be unfragmented and <=125 bytes'')
     else Ok ())"

datatype WsFault = Failed Error | Panicked

text \<open>
  The length that a client declares is not limited here, and the end of the payload is a sum of \<open>usize\<close>. Where
  it does not fit, a build with overflow checks panics in the addition; without them the sum wraps to less than
  the bytes read so far, the check on the length of the buffer passes, and to reserve the declared number of
  bytes panics, since it is above \<open>isize::MAX\<close>.
\<close>

definition lenient_take :: "bool \<Rightarrow> bool \<Rightarrow> Opcode \<Rightarrow> nat \<Rightarrow> nat \<Rightarrow> bytes \<Rightarrow> WsFault + (ws_frame \<times> nat) option" where
  "lenient_take masked fin opcode payload_len ext rest =
    (let key = (if masked then 4 else 0) in
     if length rest < ext + key then Ok None
     else if usize_max < 2 + ext + key + payload_len then Err Panicked
     else if length rest < ext + key + payload_len then Ok None
     else
       let payload = take payload_len (drop (ext + key) rest) in
       Ok (Some (\<lparr>wf_fin = fin, wf_opcode = opcode,
           wf_payload = (if masked then unmask (take 4 (drop ext rest)) payload else payload)\<rparr>,
         2 + ext + key + payload_len)))"

definition parse_lenient :: "bytes \<Rightarrow> WsFault + (ws_frame \<times> nat) option" where
  "parse_lenient buf =
    (case buf of
       b0 # b1 # rest \<Rightarrow>
         let fin = (b0 AND 0x80 \<noteq> 0) in
         if b0 AND 0x70 \<noteq> 0 then Err (Failed (Protocol ''websocket frame: reserved RSV bits must be zero''))
         else
           (case opcode_from_u8 (b0 AND 0x0F) of
              Inl e \<Rightarrow> Err (Failed e)
            | Inr opcode \<Rightarrow>
                (case ws_length (unat (b1 AND 0x7F)) rest of
                   None \<Rightarrow> Ok None
                 | Some (payload_len, ext) \<Rightarrow>
                     (case lenient_check fin opcode payload_len of
                        Inl e \<Rightarrow> Err (Failed e)
                      | Inr _ \<Rightarrow> lenient_take (b1 AND 0x80 \<noteq> 0) fin opcode payload_len ext rest)))
     | _ \<Rightarrow> Ok None)"

definition try_parse_frame :: "WebSocketConnection \<Rightarrow> WebSocketConnection \<times> (WsFault + ws_frame option)" where
  "try_parse_frame c =
    (case ws_parse (ws_read_buf c) of
       Inr (Some (f, consumed)) \<Rightarrow>
         let c1 = c\<lparr>ws_read_buf := drop consumed (ws_read_buf c)\<rparr> in
         if \<not> is_control (wf_opcode f) \<and> max_frame_size (ws_config c) < length (wf_payload f) then
           (c1, Err (Failed (Protocol (''websocket: frame payload '' @ dec_str (length (wf_payload f)) @
              '' exceeds max_frame_size '' @ dec_str (max_frame_size (ws_config c))))))
         else (c1, Ok (Some f))
     | Inr None \<Rightarrow> (c, Ok None)
     | Inl e \<Rightarrow>
         if accept_unmasked_frames (ws_config c) then
           (case parse_lenient (ws_read_buf c) of
              Inl e' \<Rightarrow> (c, Err e')
            | Inr (Some (f, consumed)) \<Rightarrow> (c\<lparr>ws_read_buf := drop consumed (ws_read_buf c)\<rparr>, Ok (Some f))
            | Inr None \<Rightarrow> (c, Ok None))
         else (c, Err (Failed e)))"

text \<open>One read into the buffer, without a timeout: whether bytes came.\<close>

fun fill_read_buf :: "ReadEvent list \<Rightarrow> bytes \<Rightarrow> ReadEvent list \<times> bytes \<times> (Error + bool)" where
  "fill_read_buf [] buf = ([], buf, Ok False)"
| "fill_read_buf (Arrive bs # es) buf = (if bs = [] then fill_read_buf es buf else (es, buf @ bs, Ok True))"
| "fill_read_buf (Idle # es) buf = fill_read_buf es buf"
| "fill_read_buf (Fault # es) buf = (es, buf, Err (Io ''read failed''))"

definition ws_fill :: "WebSocketConnection \<Rightarrow> WebSocketConnection \<times> (Error + bool)" where
  "ws_fill c =
    (case fill_read_buf (ws_events c) (ws_read_buf c) of
       (es, buf, r) \<Rightarrow> (c\<lparr>ws_events := es, ws_read_buf := buf\<rparr>, r))"


text \<open>What the loops below need: parsing and filling shrink what is left to read.\<close>

definition left_to_read :: "WebSocketConnection \<Rightarrow> nat" where
  "left_to_read c = length (ws_read_buf c) + events_size (ws_events c)"

lemma parse_lenient_Some:
  "parse_lenient buf = Ok (Some (f, n)) \<longleftrightarrow>
    (\<exists>b0 b1 rest p len ext. buf = b0 # b1 # rest \<and> b0 AND 0x70 = 0 \<and> opcode_from_u8 (b0 AND 0x0F) = Ok p \<and>
      ws_length (unat (b1 AND 0x7F)) rest = Some (len, ext) \<and>
      lenient_check (b0 AND 0x80 \<noteq> 0) p len = Ok () \<and>
      lenient_take (b1 AND 0x80 \<noteq> 0) (b0 AND 0x80 \<noteq> 0) p len ext rest = Ok (Some (f, n)))"
  by (auto simp: parse_lenient_def Let_def split: list.split option.split sum.split)

lemma parse_lenient_used: "parse_lenient buf = Ok (Some (f, n)) \<Longrightarrow> 0 < n \<and> n \<le> length buf"
  by (auto simp: parse_lenient_Some lenient_take_def Let_def split: if_splits)

lemma try_parse_frame_cases:
  assumes "try_parse_frame c = (c1, r)"
  obtains (frame) f n where "r = Ok (Some f)" "c1 = c\<lparr>ws_read_buf := drop n (ws_read_buf c)\<rparr>"
      "0 < n" "n \<le> length (ws_read_buf c)"
  | (more) "r = Ok None" "c1 = c"
  | (error) e n where "r = Err e" "c1 = c\<lparr>ws_read_buf := drop n (ws_read_buf c)\<rparr>"
proof -
  have same: "c\<lparr>ws_read_buf := drop 0 (ws_read_buf c)\<rparr> = c" by simp
  consider (got) f n where "ws_parse (ws_read_buf c) = Ok (Some (f, n))" | (none) "ws_parse (ws_read_buf c) = Ok None"
    | (err) e where "ws_parse (ws_read_buf c) = Err e"
    by (cases "ws_parse (ws_read_buf c)"; fastforce)
  then show ?thesis
  proof cases
    case (got f n)
    then show ?thesis using assms frame error [of _ n] ws_parse_used [OF got]
      by (auto simp: try_parse_frame_def Let_def split: if_splits)
  next
    case none
    then show ?thesis using assms more by (simp add: try_parse_frame_def)
  next
    case (err e)
    show ?thesis
    proof (cases "accept_unmasked_frames (ws_config c)")
      case True
      consider (v) f n where "parse_lenient (ws_read_buf c) = Ok (Some (f, n))"
        | (n) "parse_lenient (ws_read_buf c) = Ok None" | (e) e' :: WsFault where "parse_lenient (ws_read_buf c) = Err e'"
        by (cases "parse_lenient (ws_read_buf c)"; fastforce)
      then show ?thesis
      proof cases
        case (v f n)
        then show ?thesis using assms err True frame [of f n] parse_lenient_used [OF v] 
          by (auto simp: try_parse_frame_def)
      next
        case n
        then show ?thesis using assms err True more by (simp add: try_parse_frame_def)
      next
        case (e e')
        then show ?thesis using assms err True error [of e' 0] by (simp add: try_parse_frame_def)
      qed
    next
      case False
      then show ?thesis using assms err error [of "Failed e" 0] by (simp add: try_parse_frame_def)
    qed
  qed
qed

lemma fill_read_buf_more:
  "fill_read_buf es buf = (es', buf', Ok True) \<Longrightarrow>
    buf' @ arriving es' = buf @ arriving es \<and> length buf' + events_size es' < length buf + events_size es"
  by (induction es buf rule: fill_read_buf.induct) (auto split: if_splits)

lemma handle_frame_frame:
  assumes "handle_frame f c = (c1, r)"
  shows "ws_read_buf c1 = ws_read_buf c" "ws_events c1 = ws_events c" "ws_config c1 = ws_config c"
    and "ws_close_sent c1 = ws_close_sent c"
  using assms
  by (auto simp: handle_frame_def handle_control_frame_def write_control_frame_def write_frame_def Let_def
      split: if_splits Opcode.splits option.splits sum.splits)

lemma left_after_frame:
  assumes "try_parse_frame c = (c1, Ok (Some f))" "handle_frame f c1 = (c2, r)"
  shows "left_to_read c2 < left_to_read c"
  using assms(1) handle_frame_frame(1,2) [OF assms(2)]
  by (auto simp: left_to_read_def elim!: try_parse_frame_cases)

lemma left_after_fill:
  assumes "try_parse_frame c = (c1, Ok None)" "ws_fill c1 = (c2, Ok True)"
  shows "left_to_read c2 < left_to_read c"
  using assms
  by (auto simp: left_to_read_def ws_fill_def dest!: fill_read_buf_more elim!: try_parse_frame_cases split: prod.splits)

text \<open>
  \<open>read_message\<close>: a frame from the buffer is handled until one completes a message; when the buffer
  has no whole frame the socket is read, and at its end the connection is closed.
\<close>

function read_loop :: "WebSocketConnection \<Rightarrow> WebSocketConnection \<times> (WsFault + WsMessage option)" where
  "read_loop c =
    (case try_parse_frame c of
       (c1, Inl e) \<Rightarrow> (c1, Err e)
     | (c1, Inr (Some f)) \<Rightarrow>
         (case handle_frame f c1 of
            (c2, Inl e) \<Rightarrow> (c2, Err (Failed e))
          | (c2, Inr (Some msg)) \<Rightarrow> (c2, Ok (Some msg))
          | (c2, Inr None) \<Rightarrow> read_loop c2)
     | (c1, Inr None) \<Rightarrow>
         (case ws_fill c1 of
            (c2, Inl e) \<Rightarrow> (c2, Err (Failed e))
          | (c2, Inr True) \<Rightarrow> read_loop c2
          | (c2, Inr False) \<Rightarrow>
              if ws_fragment c2 \<noteq> None then
                (c2, Err (Failed (Protocol ''websocket: stream ended in the middle of a fragmented message'')))
              else (c2\<lparr>ws_state := Closed\<rparr>, Ok None)))"
  by pat_completeness auto
termination
  by (relation "measure left_to_read") (auto intro: left_after_frame left_after_fill dest: sym)

declare read_loop.simps [simp del]

definition read_message :: "WebSocketConnection \<Rightarrow> WebSocketConnection \<times> (WsFault + WsMessage option)" where
  "read_message c = (if ws_state c = Closed then (c, Ok None) else read_loop c)"

text \<open>
  The closing handshake. The wait for the peer's \<open>Close\<close> is under a timeout, so that an \<open>Idle\<close> event ends
  it; frames that arrive meanwhile are thrown away.
\<close>

function close_drain :: "WebSocketConnection \<Rightarrow> WebSocketConnection \<times> (WsFault + unit)" where
  "close_drain c =
    (if ws_close_received c then (c, Ok ())
     else
       (case try_parse_frame c of
          (c1, Inr (Some f)) \<Rightarrow>
            close_drain (if wf_opcode f = OpClose then c1\<lparr>ws_close_received := True\<rparr> else c1)
        | (c1, Inr None) \<Rightarrow>
            (case ws_events c1 of
               Arrive bs # es \<Rightarrow> close_drain (c1\<lparr>ws_read_buf := ws_read_buf c1 @ bs, ws_events := es\<rparr>)
             | _ \<Rightarrow> (c1, Ok ()))
        | (c1, Inl Panicked) \<Rightarrow> (c1, Err Panicked)
        | (c1, Inl (Failed _)) \<Rightarrow> (c1, Ok ())))"
  by pat_completeness auto
termination
  by (relation "measure left_to_read")
    (auto simp: left_to_read_def elim!: try_parse_frame_cases [OF sym])

declare close_drain.simps [simp del]

definition ws_close :: "u16 \<Rightarrow> string \<Rightarrow> WebSocketConnection \<Rightarrow> WebSocketConnection \<times> (WsFault + unit)" where
  "ws_close code reason c =
    (if ws_state c = Closed then (c, Ok ())
     else
       (case (if ws_close_sent c then (c, Ok ())
              else send_close_frame (Some \<lparr>cf_code = code, cf_reason = reason\<rparr>) c) of
          (c1, Inl e) \<Rightarrow> (c1, Err (Failed e))
        | (c1, Inr _) \<Rightarrow>
            if ws_close_received c then (c1\<lparr>ws_state := Closed\<rparr>, Ok ())
            else
              (case close_drain c1 of
                 (c2, Inl e) \<Rightarrow> (c2, Err e)
               | (c2, Inr _) \<Rightarrow> (c2\<lparr>ws_state := Closed\<rparr>, Ok ()))))"

end
