(* ===== verification/WsSession.thy ===== *)
theory WsSession
  imports WsTransport
begin

text \<open>
  What a WebSocket connection promises over its life: \<open>crates/tomcatrs-websocket/src/transport.rs\<close> as
  modelled in \<open>WsTransport\<close>. The states an owner's calls lead to are an inductive set, with an invariant
  over them; then that a message written by one end is read back whole by another.
\<close>

section \<open>The life of a connection\<close>

text \<open>What the owner of a connection calls, and the connections it can get to.\<close>

datatype ws_op = ReadMessage | WriteMessage WsMessage | CloseConnection u16 string

fun ws_apply :: "ws_op \<Rightarrow> WebSocketConnection \<Rightarrow> WebSocketConnection" where
  "ws_apply ReadMessage c = fst (read_message c)"
| "ws_apply (WriteMessage m) c = fst (write_message m c)"
| "ws_apply (CloseConnection code reason) c = fst (ws_close code reason c)"

inductive ws_reachable :: "WebSocketConfig \<Rightarrow> WebSocketConnection \<Rightarrow> bool" for cfg where
  start: "ws_reachable cfg (ws_new stream cfg)"
| step: "ws_reachable cfg c \<Longrightarrow> ws_reachable cfg (ws_apply op c)"

definition sent_ok :: "WebSocketConfig \<Rightarrow> ws_frame \<Rightarrow> bool" where
  "sent_ok cfg f \<longleftrightarrow> (if is_control (wf_opcode f) then wf_fin f \<and> length (wf_payload f) \<le> 125
     else length (wf_payload f) \<le> max (max_frame_size cfg) 1)"

text \<open>
  The invariant: what is collected of a fragmented message fits the message limit, every frame sent is
  within the frame limits, and a \<open>Close\<close> frame is sent at most once, is the last frame, and has
  taken the connection out of the state \<open>Open\<close>.
\<close>

definition close_last :: "bool \<Rightarrow> ws_frame list \<Rightarrow> bool" where
  "close_last closed fs \<longleftrightarrow>
    (\<forall>f \<in> set (if closed then butlast fs else fs). wf_opcode f \<noteq> OpClose) \<and>
    (closed \<longrightarrow> fs \<noteq> [] \<and> wf_opcode (last fs) = OpClose)"

definition ws_inv :: "WebSocketConfig \<Rightarrow> WebSocketConnection \<Rightarrow> bool" where
  "ws_inv cfg c \<longleftrightarrow> ws_config c = cfg \<and>
    (case ws_fragment c of None \<Rightarrow> True | Some fb \<Rightarrow> length (fb_data fb) \<le> max_message_size cfg) \<and>
    (\<forall>f \<in> set (ws_written c). sent_ok cfg f) \<and> close_last (ws_close_sent c) (ws_written c) \<and>
    ws_state c \<noteq> Connecting \<and> (ws_close_sent c \<longrightarrow> ws_state c \<noteq> Open)"

lemma close_last_snoc [simp]:
  "close_last closed (fs @ [f]) \<longleftrightarrow>
    (\<forall>g \<in> set fs. wf_opcode g \<noteq> OpClose) \<and> (if closed then wf_opcode f = OpClose else wf_opcode f \<noteq> OpClose)"
  by (auto simp: close_last_def)

lemma close_last_open: "close_last False fs \<longleftrightarrow> (\<forall>f \<in> set fs. wf_opcode f \<noteq> OpClose)"
  by (simp add: close_last_def)

lemma fold_write_frame: "fold write_frame fs c = c\<lparr>ws_written := ws_written c @ fs\<rparr>"
  by (induction fs arbitrary: c) (simp_all add: write_frame_def)

lemma fragment_frames_sent:
  "f \<in> set (fragment_frames m p first payload) \<Longrightarrow> length (wf_payload f) \<le> m \<and> wf_opcode f \<in> {p, OpContinuation}"
  by (induction m p first payload rule: fragment_frames.induct)
    (subst (asm) (2) fragment_frames.simps, auto split: if_splits)

lemma write_data_frames_inv:
  assumes "ws_inv cfg c" "ws_state c = Open" "\<not> is_control p"
  shows "ws_inv cfg (fst (write_data_frames p payload c))"
proof -
  have o: "\<not> ws_close_sent c" using assms by (auto simp: ws_inv_def)
  have np: "p \<noteq> OpClose" "\<not> is_control OpContinuation" using assms(3) by (auto simp: is_control_def)
  have "close_last False (ws_written c)" using assms o by (simp add: ws_inv_def)
  then show ?thesis using assms np o fragment_frames_sent [of _ _ p True payload]
    by (fastforce simp: write_data_frames_def Let_def ws_inv_def fold_write_frame write_frame_def sent_ok_def
        close_last_open)
qed

lemma write_control_frame_inv:
  assumes "ws_inv cfg c" "ws_state c = Open" "is_control p" "p \<noteq> OpClose"
  shows "ws_inv cfg (fst (write_control_frame p payload c))"
  using assms by (auto simp: write_control_frame_def ws_inv_def write_frame_def sent_ok_def close_last_open)

lemma send_close_frame_inv:
  assumes "ws_inv cfg c"
  shows "ws_inv cfg (fst (send_close_frame close c))"
  using assms
  by (cases "ws_state c")
    (auto simp: send_close_frame_def ws_inv_def write_frame_def sent_ok_def close_last_open is_control_def Let_def)

lemma write_message_inv: "ws_inv cfg c \<Longrightarrow> ws_inv cfg (fst (write_message m c))"
  by (auto simp: write_message_def is_control_def
      intro: write_data_frames_inv write_control_frame_inv send_close_frame_inv split: WebSocketState.split WsMessage.split)

lemma handle_control_frame_inv: "ws_inv cfg c \<Longrightarrow> ws_inv cfg (fst (handle_control_frame f c))"
  using write_control_frame_inv [of cfg c OpPong "wf_payload f"]
  by (cases "wf_opcode f"; cases "ws_state c")
    (auto simp: handle_control_frame_def is_control_def ws_inv_def Let_def split: sum.split prod.split)

lemma ws_inv_fragment:
  "ws_inv cfg c \<Longrightarrow> length data \<le> max_message_size cfg \<Longrightarrow>
    ws_inv cfg (c\<lparr>ws_fragment := Some \<lparr>fb_is_text = t, fb_data = data\<rparr>\<rparr>)"
  "ws_inv cfg c \<Longrightarrow> ws_inv cfg (c\<lparr>ws_fragment := None\<rparr>)"
  by (auto simp: ws_inv_def)

lemma handle_frame_inv: "ws_inv cfg c \<Longrightarrow> ws_inv cfg (fst (handle_frame f c))"
  using handle_control_frame_inv [of cfg c f] ws_inv_fragment [of cfg c]
  by (auto simp: handle_frame_def is_control_def ws_inv_def check_message_size_def Let_def
      split: Opcode.splits option.splits sum.splits if_splits)

lemma try_parse_frame_inv: "ws_inv cfg c \<Longrightarrow> try_parse_frame c = (c1, r) \<Longrightarrow> ws_inv cfg c1"
  by (erule try_parse_frame_cases) (auto simp: ws_inv_def)

lemma ws_fill_inv: "ws_inv cfg c \<Longrightarrow> ws_fill c = (c1, r) \<Longrightarrow> ws_inv cfg c1"
  by (auto simp: ws_fill_def ws_inv_def split: prod.splits)

lemma ws_inv_closed: "ws_inv cfg c \<Longrightarrow> ws_inv cfg (c\<lparr>ws_state := Closed\<rparr>)"
  by (simp add: ws_inv_def)

text \<open>What a read delivers: a message within the limit, its text well-formed.\<close>

fun message_ok :: "WebSocketConfig \<Rightarrow> WsMessage \<Rightarrow> bool" where
  "message_ok cfg (MText s) = (valid_str s \<and> length s \<le> max_message_size cfg)"
| "message_ok cfg (MBinary bs) = (length bs \<le> max_message_size cfg)"
| "message_ok cfg (MPing bs) = (length bs \<le> 125)"
| "message_ok cfg (MPong bs) = (length bs \<le> 125)"
| "message_ok cfg (MClose cf) = (case cf of None \<Rightarrow> True | Some f \<Rightarrow> valid_str (cf_reason f) \<and> length (cf_reason f) \<le> 123)"

lemma finish_data_message_ok:
  "finish_data_message t payload c = Ok (Some m) \<Longrightarrow> message_ok (ws_config c) m"
  by (auto simp: finish_data_message_def check_message_size_def res_simps from_utf8_def valid_str_def
      split: if_splits option.splits)

lemma close_from_payload_ok:
  "close_from_payload payload = Ok cf \<Longrightarrow> length payload \<le> 125 \<Longrightarrow> message_ok cfg (MClose cf)"
  by (auto simp: close_from_payload_def from_utf8_def valid_str_def split: list.splits option.splits if_splits)

lemma try_parse_frame_control:
  "try_parse_frame c = (c1, Ok (Some f)) \<Longrightarrow> is_control (wf_opcode f) \<Longrightarrow> length (wf_payload f) \<le> 125"
  by (auto simp: try_parse_frame_def Let_def parse_lenient_Some lenient_take_def lenient_check_def ws_take_def ws_ok_def
      dest!: ws_parse_ok split: sum.splits option.splits if_splits)

lemma handle_frame_message_ok:
  assumes "handle_frame f c = (c1, Ok (Some m))" "is_control (wf_opcode f) \<Longrightarrow> length (wf_payload f) \<le> 125"
  shows "message_ok (ws_config c) m"
  using assms
  by (auto simp: handle_frame_def handle_control_frame_def is_control_def Let_def
      dest: finish_data_message_ok close_from_payload_ok simp del: message_ok.simps(5)
      split: Opcode.splits option.splits sum.splits if_splits prod.splits)

lemma read_loop_safe:
  "ws_inv cfg c \<Longrightarrow> read_loop c = (c', r) \<Longrightarrow> ws_inv cfg c' \<and> (\<forall>m. r = Ok (Some m) \<longrightarrow> message_ok cfg m)"
proof (induction c arbitrary: c' r rule: read_loop.induct)
  case (1 c)
  obtain c1 v where tp: "try_parse_frame c = (c1, v)" by fastforce
  have i1: "ws_inv cfg c1" using try_parse_frame_inv [OF "1.prems"(1) tp] .
  consider (e) e where "v = Err e" | (f) f where "v = Ok (Some f)" | (n) "v = Ok None"
    by (cases v; fastforce)
  then show ?case
  proof cases
    case e
    then show ?thesis using i1 "1.prems"(2) tp by (auto simp: read_loop.simps [of c])
  next
    case (f f)
    obtain c2 v2 where hf: "handle_frame f c1 = (c2, v2)" by fastforce
    have i2: "ws_inv cfg c2" using handle_frame_inv [OF i1, of f] hf by simp
    have ok: "message_ok cfg m" if "v2 = Ok (Some m)" for m
      using handle_frame_message_ok [of f c1 c2 m] try_parse_frame_control [of c c1 f] hf that tp f i1
      by (auto simp: ws_inv_def)
    show ?thesis
      using "1.prems"(2) "1.IH"(2) [OF tp [symmetric] f _ hf [symmetric] _ _ i2] i2 ok tp f hf
      by (cases v2 rule: sum.exhaust [case_product option.exhaust]) (auto simp: read_loop.simps [of c] split: sum.splits option.splits)
  next
    case n
    obtain c2 v2 where fl: "ws_fill c1 = (c2, v2)" by fastforce
    have i2: "ws_inv cfg c2" using ws_fill_inv [OF i1 fl] .
    show ?thesis
      using "1.prems"(2) "1.IH"(1) [OF tp [symmetric] n _ fl [symmetric] _ _ i2] i2 ws_inv_closed [OF i2] tp n fl
      by (auto simp: read_loop.simps [of c] split: sum.splits bool.splits if_splits)
  qed
qed

lemma close_drain_inv: "ws_inv cfg c \<Longrightarrow> ws_inv cfg (fst (close_drain c))"
proof (induction c rule: close_drain.induct)
  case (1 c)
  obtain c1 v where tp: "try_parse_frame c = (c1, v)" by fastforce
  have i1: "ws_inv cfg c1" using try_parse_frame_inv [OF "1.prems" tp] .
  then have "ws_inv cfg (c1\<lparr>ws_close_received := True\<rparr>)" "ws_inv cfg (c1\<lparr>ws_read_buf := b, ws_events := es\<rparr>)" for b es
    by (simp_all add: ws_inv_def)
  then show ?case using 1 i1 tp
    by (auto simp: close_drain.simps [of c] split: sum.splits option.splits list.splits ReadEvent.splits WsFault.splits)
qed

lemma ws_close_inv: "ws_inv cfg c \<Longrightarrow> ws_inv cfg (fst (ws_close code reason c))"
  using send_close_frame_inv [of cfg c "Some \<lparr>cf_code = code, cf_reason = reason\<rparr>"]
  by (auto simp: ws_close_def intro!: ws_inv_closed dest: close_drain_inv split: prod.splits sum.splits if_splits)

lemma read_message_safe:
  assumes "ws_inv cfg c" "read_message c = (c', r)"
  shows "ws_inv cfg c' \<and> (\<forall>m. r = Ok (Some m) \<longrightarrow> message_ok cfg m)"
  using assms read_loop_safe by (auto simp: read_message_def split: if_splits)

lemma ws_reachable_inv: "ws_reachable cfg c \<Longrightarrow> ws_inv cfg c"
proof (induction rule: ws_reachable.induct)
  case (start stream)
  then show ?case by (simp add: ws_inv_def ws_new_def close_last_def)
next
  case (step c op)
  then show ?case
    by (cases op) (auto intro: write_message_inv ws_close_inv dest: read_message_safe [OF _ surjective_pairing])
qed

text \<open>Once closed, a connection stays as it is: nothing is read, written or changed.\<close>

lemma closed_absorbing: "ws_state c = Closed \<Longrightarrow> ws_apply op c = c"
  by (cases op) (simp_all add: read_message_def write_message_def ws_close_def)

text \<open>Only the lenient parser can panic.\<close>

lemma try_parse_frame_panic: "try_parse_frame c = (c1, Err Panicked) \<Longrightarrow> accept_unmasked_frames (ws_config c)"
  by (auto simp: try_parse_frame_def Let_def split: sum.splits option.splits if_splits)

lemma ws_fill_config: "ws_fill c = (c1, r) \<Longrightarrow> ws_config c1 = ws_config c"
  by (auto simp: ws_fill_def split: prod.splits)

lemma try_parse_frame_config: "try_parse_frame c = (c1, r) \<Longrightarrow> ws_config c1 = ws_config c"
  by (erule try_parse_frame_cases) simp_all

lemma read_loop_panic: "read_loop c = (c', Err Panicked) \<Longrightarrow> accept_unmasked_frames (ws_config c)"
proof (induction c rule: read_loop.induct)
  case (1 c)
  obtain c1 v where tp: "try_parse_frame c = (c1, v)" by fastforce
  note cfg = try_parse_frame_config [OF tp]
  consider (e) e where "v = Err e" | (f) f where "v = Ok (Some f)" | (n) "v = Ok None"
    by (cases v; fastforce)
  then show ?case
  proof cases
    case e
    then show ?thesis using "1.prems" tp try_parse_frame_panic by (auto simp: read_loop.simps [of c])
  next
    case (f f)
    obtain c2 v2 where hf: "handle_frame f c1 = (c2, v2)" by fastforce
    then have "v2 = Ok None \<and> read_loop c2 = (c', Err Panicked)"
      using "1.prems" tp f by (auto simp: read_loop.simps [of c] split: sum.splits option.splits)
    then show ?thesis using "1.IH"(2) [OF tp [symmetric] f refl hf [symmetric]] cfg handle_frame_frame(3) [OF hf] by auto
  next
    case n
    obtain c2 v2 where fl: "ws_fill c1 = (c2, v2)" by fastforce
    then have "v2 = Ok True \<and> read_loop c2 = (c', Err Panicked)"
      using "1.prems" tp n by (auto simp: read_loop.simps [of c] split: sum.splits bool.splits if_splits)
    then show ?thesis using "1.IH"(1) [OF tp [symmetric] n refl fl [symmetric]] cfg ws_fill_config [OF fl] by auto
  qed
qed

lemma close_drain_panic: "close_drain c = (c', Err Panicked) \<Longrightarrow> accept_unmasked_frames (ws_config c)"
proof (induction c rule: close_drain.induct)
  case (1 c)
  obtain c1 v where tp: "try_parse_frame c = (c1, v)" by fastforce
  show ?case using 1 tp try_parse_frame_config [OF tp] try_parse_frame_panic [of c c1]
    by (auto simp: close_drain.simps [of c] split: sum.splits option.splits list.splits ReadEvent.splits WsFault.splits if_splits)
qed

lemma send_close_frame_config: "send_close_frame close c = (c1, r) \<Longrightarrow> ws_config c1 = ws_config c"
  by (auto simp: send_close_frame_def write_frame_def Let_def split: if_splits)

lemma ws_close_panic: "ws_close code reason c = (c', Err Panicked) \<Longrightarrow> accept_unmasked_frames (ws_config c)"
  by (auto simp: ws_close_def dest!: close_drain_panic dest: send_close_frame_config split: prod.splits sum.splits if_splits)

text \<open>
  With \<open>accept_unmasked_frames\<close>, ten bytes of a client bring the task down: an unmasked frame with a declared
  length of \<open>2^64 - 1\<close>.
\<close>

lemma ws_lenient_panics:
  "parse_lenient [0x82, 0x7F, 0xFF, 0xFF, 0xFF, 0xFF, 0xFF, 0xFF, 0xFF, 0xFF] = Err Panicked"
proof -
  have "from_be64 0xFF 0xFF 0xFF 0xFF 0xFF 0xFF 0xFF 0xFF = 0xFFFFFFFFFFFFFFFF" by code_simp
  then show ?thesis
    by (simp add: parse_lenient_def opcode_from_u8_def ws_length_def lenient_check_def is_control_def lenient_take_def usize_max_def)
qed

section \<open>Reading back what was written\<close>

text \<open>The bytes of a client that masks the frames with the keys beside them.\<close>

definition client_bytes :: "(bytes \<times> ws_frame) list \<Rightarrow> bytes" where
  "client_bytes kfs = concat (map (\<lambda>(key, f). ws_mask key (ws_encode f)) kfs)"

definition pending :: "WebSocketConnection \<Rightarrow> bytes" where
  "pending c = ws_read_buf c @ arriving (ws_events c)"

text \<open>The next frame is handled once it has arrived, however the socket cuts its bytes.\<close>

lemma fill_read_buf_no_fault:
  assumes "fill_read_buf es buf = (es', buf', r)" "Fault \<notin> set es"
  shows "Fault \<notin> set es' \<and> buf' @ arriving es' = buf @ arriving es \<and>
    (r = Ok True \<or> r = Ok False \<and> arriving es = [] \<and> buf' = buf)"
  using assms by (induction es buf rule: fill_read_buf.induct) (auto split: if_splits)

lemma read_loop_next:
  assumes "ws_parse (pending c) = Ok (Some (f, n))" "Fault \<notin> set (ws_events c)"
    and "is_control (wf_opcode f) \<or> length (wf_payload f) \<le> max_frame_size (ws_config c)"
  shows "\<exists>buf es. buf @ arriving es = drop n (pending c) \<and> Fault \<notin> set es \<and>
    read_loop c = (case handle_frame f (c\<lparr>ws_read_buf := buf, ws_events := es\<rparr>) of
       (c2, Inl e) \<Rightarrow> (c2, Err (Failed e))
     | (c2, Inr (Some msg)) \<Rightarrow> (c2, Ok (Some msg))
     | (c2, Inr None) \<Rightarrow> read_loop c2)"
  using assms
proof (induction "left_to_read c" arbitrary: c rule: less_induct)
  case less
  consider (got) g k where "ws_parse (ws_read_buf c) = Ok (Some (g, k))" | (none) "ws_parse (ws_read_buf c) = Ok None"
    | (err) e where "ws_parse (ws_read_buf c) = Err e"
    by (cases "ws_parse (ws_read_buf c)"; fastforce)
  then show ?case
  proof cases
    case (got g k)
    then have eq: "g = f" "k = n"
      using less.prems(1) ws_parse_more_value [OF got, of "arriving (ws_events c)"] by (simp_all add: pending_def)
    then have "try_parse_frame c = (c\<lparr>ws_read_buf := drop n (ws_read_buf c)\<rparr>, Ok (Some f))"
      using got less.prems(3) by (auto simp: try_parse_frame_def)
    then show ?thesis using less.prems(2) got ws_parse_used [OF got] eq
      by (intro exI [of _ "drop n (ws_read_buf c)"] exI [of _ "ws_events c"])
        (simp add: read_loop.simps [of c] pending_def)
  next
    case err
    then show ?thesis
      using less.prems(1) ws_parse_more_error [OF err, of "arriving (ws_events c)"] by (simp add: pending_def)
  next
    case none
    then have tp: "try_parse_frame c = (c, Ok None)" by (simp add: try_parse_frame_def)
    obtain es buf r where fl: "fill_read_buf (ws_events c) (ws_read_buf c) = (es, buf, r)"
      by (metis prod_cases3)
    note nf = fill_read_buf_no_fault [OF fl less.prems(2)]
    have r: "r = Ok True" using nf none less.prems(1) by (auto simp: pending_def)
    let ?c = "c\<lparr>ws_events := es, ws_read_buf := buf\<rparr>"
    have wf: "ws_fill c = (?c, Ok True)" using fl r by (simp add: ws_fill_def)
    have pend: "pending ?c = pending c" using nf by (simp add: pending_def)
    have eq: "read_loop c = read_loop ?c" using tp wf by (simp add: read_loop.simps [of c])
    show ?thesis using less.hyps [OF left_after_fill [OF tp wf]] less.prems nf pend by (simp add: eq)
  qed
qed

lemma read_loop_masked:
  assumes "pending c = ws_mask key (ws_encode f) @ rest" "length key = 4" "ws_ok f" "Fault \<notin> set (ws_events c)"
    and "is_control (wf_opcode f) \<or> length (wf_payload f) \<le> max_frame_size (ws_config c)"
  obtains c1 where "pending c1 = rest" "Fault \<notin> set (ws_events c1)" "ws_config c1 = ws_config c"
    "ws_fragment c1 = ws_fragment c" "ws_state c1 = ws_state c"
    "read_loop c = (case handle_frame f c1 of
       (c2, Inl e) \<Rightarrow> (c2, Err (Failed e))
     | (c2, Inr (Some msg)) \<Rightarrow> (c2, Ok (Some msg))
     | (c2, Inr None) \<Rightarrow> read_loop c2)"
proof -
  have p: "ws_parse (pending c) = Ok (Some (f, length (ws_mask key (ws_encode f))))"
    using ws_parse_masked [OF assms(3,2), of rest] assms(1) by simp
  obtain buf es where w: "buf @ arriving es = rest" "Fault \<notin> set es"
    "read_loop c = (case handle_frame f (c\<lparr>ws_read_buf := buf, ws_events := es\<rparr>) of
       (c2, Inl e) \<Rightarrow> (c2, Err (Failed e))
     | (c2, Inr (Some msg)) \<Rightarrow> (c2, Ok (Some msg))
     | (c2, Inr None) \<Rightarrow> read_loop c2)"
    using read_loop_next [OF p assms(4,5)] assms(1) by auto
  show ?thesis by (rule that [of "c\<lparr>ws_read_buf := buf, ws_events := es\<rparr>"]) (use w in \<open>simp_all add: pending_def\<close>)
qed

definition data_message :: "bool \<Rightarrow> bytes \<Rightarrow> WsMessage" where
  "data_message t payload = (if t then MText (of_bytes payload) else MBinary payload)"

lemma finish_data_message_fits:
  assumes "length payload \<le> max_message_size (ws_config c)" "t \<Longrightarrow> utf8_valid payload"
  shows "finish_data_message t payload c = Ok (Some (data_message t payload))"
  using assms by (simp add: finish_data_message_def check_message_size_def from_utf8_def data_message_def)

text \<open>The continuation frames of a message are put together behind what has been collected.\<close>

lemma read_loop_fragments:
  assumes "pending c = client_bytes kfs @ rest" "map snd kfs = fragment_frames m p False payload"
    "\<forall>kf \<in> set kfs. length (fst kf) = 4" "Fault \<notin> set (ws_events c)" "payload \<noteq> []" "0 < m"
    "m \<le> max_frame_size (ws_config c)" "m \<le> MAX_PAYLOAD_LEN" "ws_fragment c = Some \<lparr>fb_is_text = t, fb_data = d\<rparr>"
    "length d + length payload \<le> max_message_size (ws_config c)" "t \<Longrightarrow> utf8_valid (d @ payload)"
  shows "\<exists>c'. read_loop c = (c', Ok (Some (data_message t (d @ payload)))) \<and>
    pending c' = rest \<and> ws_fragment c' = None"
  using assms
proof (induction "length payload" arbitrary: payload kfs c d rule: less_induct)
  case less
  let ?f = "\<lparr>wf_fin = (length payload \<le> m), wf_opcode = OpContinuation, wf_payload = take m payload\<rparr>"
  have "map snd kfs = ?f # fragment_frames m p False (drop m payload)"
    using less.prems(2,5,6) by (simp add: fragment_frames.simps [of m p False payload])
  then obtain key kfs' where kfs: "kfs = (key, ?f) # kfs'" "map snd kfs' = fragment_frames m p False (drop m payload)"
    by (auto simp: map_eq_Cons_conv)
  have ok: "ws_ok ?f" using less.prems(8) by (simp add: ws_ok_def is_control_def)
  have pend: "pending c = ws_mask key (ws_encode ?f) @ client_bytes kfs' @ rest" "length key = 4"
    using less.prems(1,3) by (simp_all add: kfs(1) client_bytes_def)
  have sz: "is_control (wf_opcode ?f) \<or> length (wf_payload ?f) \<le> max_frame_size (ws_config c)"
    using less.prems(7) by (simp add: min.coboundedI2)
  obtain c1 where c1: "pending c1 = client_bytes kfs' @ rest" "Fault \<notin> set (ws_events c1)" "ws_config c1 = ws_config c"
    "ws_fragment c1 = ws_fragment c" "ws_state c1 = ws_state c"
    "read_loop c = (case handle_frame ?f c1 of
       (c2, Inl e) \<Rightarrow> (c2, Err (Failed e))
     | (c2, Inr (Some msg)) \<Rightarrow> (c2, Ok (Some msg))
     | (c2, Inr None) \<Rightarrow> read_loop c2)"
    by (rule read_loop_masked [OF pend ok less.prems(4) sz])
  show ?case
  proof (cases "length payload \<le> m")
    case True
    then have "kfs' = []" using kfs(2) by (simp add: fragment_frames.simps)
    moreover have "handle_frame ?f c1 = (c1\<lparr>ws_fragment := None\<rparr>,
        Ok (Some (data_message t (d @ payload))))"
      using True less.prems(9-11) c1(3,4) finish_data_message_fits [of "d @ payload" "c1\<lparr>ws_fragment := None\<rparr>" t]
      by (simp add: handle_frame_def is_control_def)
    ultimately show ?thesis using c1(1,6) by (simp add: pending_def client_bytes_def)
  next
    case False
    let ?c2 = "c1\<lparr>ws_fragment := Some \<lparr>fb_is_text = t, fb_data = d @ take m payload\<rparr>\<rparr>"
    have "handle_frame ?f c1 = (?c2, Ok None)"
      using False less.prems(9,10) c1(3,4) by (simp add: handle_frame_def is_control_def)
    then have eq: "read_loop c = read_loop ?c2" using c1(6) by simp
    have p: "pending ?c2 = pending c1" by (simp add: pending_def)
    show ?thesis
      using less.hyps [of "drop m payload" ?c2 kfs' "d @ take m payload"] False less.prems(3,6-8,10,11) c1(1-3) kfs p
      by (simp add: eq)
  qed
qed

text \<open>The frames \<open>write_data_frames\<close> sends for a payload.\<close>

definition data_frames :: "WebSocketConfig \<Rightarrow> Opcode \<Rightarrow> bytes \<Rightarrow> ws_frame list" where
  "data_frames cfg p payload =
    (let m = max (max_frame_size cfg) 1 in
     if length payload \<le> m then [\<lparr>wf_fin = True, wf_opcode = p, wf_payload = payload\<rparr>]
     else fragment_frames m p True payload)"

lemma write_data_frames_eq:
  "write_data_frames p payload s = (s\<lparr>ws_written := ws_written s @ data_frames (ws_config s) p payload\<rparr>, Ok ())"
  by (simp add: write_data_frames_def data_frames_def Let_def fold_write_frame) (simp add: write_frame_def)

lemma read_loop_data_frames:
  assumes "pending c = client_bytes kfs @ rest" "map snd kfs = data_frames cfg p payload"
    "\<forall>kf \<in> set kfs. length (fst kf) = 4" "Fault \<notin> set (ws_events c)" "p = (if t then OpText else OpBinary)"
    "max (max_frame_size cfg) 1 \<le> max_frame_size (ws_config c)" "max (max_frame_size cfg) 1 \<le> MAX_PAYLOAD_LEN"
    "ws_fragment c = None" "length payload \<le> max_message_size (ws_config c)" "t \<Longrightarrow> utf8_valid payload"
  shows "\<exists>c'. read_loop c = (c', Ok (Some (data_message t payload))) \<and>
    pending c' = rest \<and> ws_fragment c' = None"
proof -
  let ?m = "max (max_frame_size cfg) 1"
  let ?f = "\<lparr>wf_fin = (length payload \<le> ?m), wf_opcode = p, wf_payload = take ?m payload\<rparr>"
  have np: "\<not> is_control p" using assms(5) by (simp add: is_control_def)
  have "\<exists>fs'. data_frames cfg p payload = ?f # fs' \<and>
      fs' = (if length payload \<le> ?m then [] else fragment_frames ?m p False (drop ?m payload))"
    using fragment_frames.simps [of ?m p True payload] by (auto simp: data_frames_def Let_def)
  then obtain key kfs' where kfs: "kfs = (key, ?f) # kfs'"
      "map snd kfs' = (if length payload \<le> ?m then [] else fragment_frames ?m p False (drop ?m payload))"
    using assms(2) by (auto simp: map_eq_Cons_conv)
  have ok: "ws_ok ?f" using assms(7) np by (auto simp: ws_ok_def min_def)
  have pend: "pending c = ws_mask key (ws_encode ?f) @ client_bytes kfs' @ rest" "length key = 4"
    using assms(1,3) by (simp_all add: kfs(1) client_bytes_def)
  have sz: "is_control (wf_opcode ?f) \<or> length (wf_payload ?f) \<le> max_frame_size (ws_config c)"
    using assms(6) by (simp add: min.coboundedI2)
  obtain c1 where c1: "pending c1 = client_bytes kfs' @ rest" "Fault \<notin> set (ws_events c1)" "ws_config c1 = ws_config c"
    "ws_fragment c1 = ws_fragment c" "ws_state c1 = ws_state c"
    "read_loop c = (case handle_frame ?f c1 of
       (c2, Inl e) \<Rightarrow> (c2, Err (Failed e))
     | (c2, Inr (Some msg)) \<Rightarrow> (c2, Ok (Some msg))
     | (c2, Inr None) \<Rightarrow> read_loop c2)"
    by (rule read_loop_masked [OF pend ok assms(4) sz])
  note c1f = c1(4) [unfolded assms(8)]
  show ?thesis
  proof (cases "length payload \<le> ?m")
    case True
    have "handle_frame ?f c1 = (c1, Ok (Some (data_message t payload)))"
      using True np assms(5,9,10) c1(3) c1f finish_data_message_fits [of payload c1 t]
      by (auto simp: handle_frame_def)
    then show ?thesis using True c1 c1f kfs(2) by (simp add: client_bytes_def)
  next
    case False
    let ?c2 = "c1\<lparr>ws_fragment := Some \<lparr>fb_is_text = t, fb_data = take ?m payload\<rparr>\<rparr>"
    have "handle_frame ?f c1 = (?c2, Ok None)"
      using False np assms(5,9) c1(3) c1f by (auto simp: handle_frame_def check_message_size_def)
    then have eq: "read_loop c = read_loop ?c2" using c1(6) by simp
    have p: "pending ?c2 = pending c1" by (simp add: pending_def)
    show ?thesis
      using read_loop_fragments [of ?c2 kfs' rest ?m p "drop ?m payload" t "take ?m payload"] False
        assms(3,6,7,9,10) c1(1-3) kfs p
      by (simp add: eq)
  qed
qed

text \<open>
  C19. A message gets through whole: for a text or binary message that one open end writes and the
  other, whose limits admit it, reads, however the writer cuts it into frames, whichever masking keys
  the frames travel with and however the socket cuts their bytes, \<open>read_message\<close> delivers exactly the
  message that was written and leaves exactly the bytes behind it unread.
\<close>

theorem ws_message_roundtrip:
  assumes "ws_state s = Open" "write_message msg s = (s', r)" "ws_written s' = ws_written s @ fs"
    and "msg = MText text \<and> valid_str text \<and> len = length text \<or> msg = MBinary data \<and> len = length data"
    and "map snd kfs = fs" "\<forall>kf \<in> set kfs. length (fst kf) = 4"
    and "ws_state c = Open" "ws_fragment c = None" "Fault \<notin> set (ws_events c)" "pending c = client_bytes kfs @ rest"
    and "max (max_frame_size (ws_config s)) 1 \<le> min (max_frame_size (ws_config c)) MAX_PAYLOAD_LEN"
    and "len \<le> max_message_size (ws_config c)"
  shows "r = Ok () \<and> (\<exists>c'. read_message c = (c', Ok (Some msg)) \<and> pending c' = rest \<and> ws_fragment c' = None)"
proof (cases "msg = MBinary data \<and> len = length data")
  case True
  then show ?thesis
    using assms read_loop_data_frames [of c kfs rest "ws_config s" OpBinary data False]
    by (auto simp: write_message_def write_data_frames_eq read_message_def data_message_def)
next
  case False
  then have t: "msg = MText text" "valid_str text" "len = length text" using assms(4) by auto
  have ab: "utf8_valid (as_bytes text)" "of_bytes (as_bytes text) = text" using t(2) by (simp_all add: valid_str_def)
  show ?thesis
    using assms t ab read_loop_data_frames [of c kfs rest "ws_config s" OpText "as_bytes text" True]
    by (auto simp: write_message_def write_data_frames_eq read_message_def data_message_def)
qed

definition sample_config :: WebSocketConfig where
  "sample_config = \<lparr>max_message_size = 10, max_frame_size = 2, accept_unmasked_frames = False\<rparr>"

definition sample_masked :: "(bytes \<times> ws_frame) list" where
  "sample_masked = zip [[1, 2, 3, 4], [5, 6, 7, 8]] (data_frames sample_config OpBinary [9, 8, 7])"

theorem ws_message_roundtrip_witness:
  "\<exists>c'. read_message (ws_new [Arrive (client_bytes sample_masked), Idle] sample_config) = (c', Ok (Some (MBinary [9, 8, 7])))"
proof -
  have fs: "data_frames sample_config OpBinary [9, 8, 7] =
      [\<lparr>wf_fin = False, wf_opcode = OpBinary, wf_payload = [9, 8]\<rparr>,
       \<lparr>wf_fin = True, wf_opcode = OpContinuation, wf_payload = [7]\<rparr>]"
    by (simp add: data_frames_def sample_config_def fragment_frames.simps)
  show ?thesis
    using ws_message_roundtrip [of "ws_new [] sample_config" "MBinary [9, 8, 7]" _ _
        "data_frames sample_config OpBinary [9, 8, 7]" "[]" 3 "[9, 8, 7]" sample_masked
        "ws_new [Arrive (client_bytes sample_masked), Idle] sample_config" "[]"]
    by (simp add: ws_new_def write_message_def write_data_frames_eq sample_masked_def fs pending_def)
      (auto simp: sample_config_def MAX_PAYLOAD_LEN_def)
qed

text \<open>
  C20. Every connection an owner can get to keeps its limits: what is collected of a fragmented message
  fits \<open>max_message_size\<close>; every frame sent is an unfragmented control frame of at most 125 bytes or
  a data frame within \<open>max_frame_size\<close>; a \<open>Close\<close> frame is sent at most once, and nothing after it; a
  message that a read delivers fits the limit and its text is well-formed UTF-8; a closed connection
  never changes again; and no bytes of a peer make a read or the closing handshake panic, unless
  \<open>accept_unmasked_frames\<close> is set.
\<close>

theorem ws_connection_safe:
  assumes "ws_reachable cfg c"
  shows "ws_inv cfg c \<and> (\<forall>c' m. read_message c = (c', Ok (Some m)) \<longrightarrow> message_ok cfg m) \<and>
    (ws_state c = Closed \<longrightarrow> (\<forall>op. ws_apply op c = c)) \<and>
    (\<not> accept_unmasked_frames cfg \<longrightarrow>
      snd (read_message c) \<noteq> Err Panicked \<and> (\<forall>code reason. snd (ws_close code reason c) \<noteq> Err Panicked))"
proof -
  have inv: "ws_inv cfg c" using ws_reachable_inv [OF assms] .
  then have cfg: "ws_config c = cfg" by (simp add: ws_inv_def)
  have "snd (read_message c) \<noteq> Err Panicked" if "\<not> accept_unmasked_frames cfg"
  proof
    assume "snd (read_message c) = Err Panicked"
    then have "read_loop c = (fst (read_loop c), Err Panicked)"
      by (auto simp: read_message_def prod_eq_iff split: if_splits)
    then show False using read_loop_panic that cfg by blast
  qed
  moreover have "snd (ws_close code reason c) \<noteq> Err Panicked" if "\<not> accept_unmasked_frames cfg" for code reason
    using ws_close_panic [of code reason c] that cfg by (metis prod.collapse)
  ultimately show ?thesis using inv read_message_safe [OF inv] closed_absorbing by blast
qed

text \<open>A connection on which a message was read, a reply written and the closing handshake begun.\<close>

theorem ws_connection_safe_witness:
  "ws_inv sample_config (ws_apply (CloseConnection 1000 ''bye'') (ws_apply (WriteMessage (MText ''hello''))
     (ws_apply ReadMessage (ws_new [Arrive (client_bytes sample_masked), Idle] sample_config)))) \<and>
   snd (read_message (ws_new [Arrive (client_bytes sample_masked)] sample_config)) \<noteq> Err Panicked"
proof -
  have first: "ws_reachable sample_config (ws_new [Arrive (client_bytes sample_masked)] sample_config)"
    by (intro ws_reachable.intros)
  have later: "ws_reachable sample_config (ws_apply (CloseConnection 1000 ''bye'') (ws_apply (WriteMessage (MText ''hello''))
     (ws_apply ReadMessage (ws_new [Arrive (client_bytes sample_masked), Idle] sample_config))))"
    by (intro ws_reachable.intros)
  show ?thesis using ws_connection_safe [OF first] ws_connection_safe [OF later] by (simp add: sample_config_def)
qed

end
