(* ===== verification/Constraints.thy ===== *)
theory Constraints
  imports Text
begin

text \<open>
  Declarative security: the evaluation of \<open><security-constraint>\<close> elements,
  \<open>crates/tomcatrs-security/src/constraints.rs\<close>, and the principals of \<open>realm.rs\<close> it asks for roles.
\<close>

section \<open>Model\<close>

record Principal =
  pr_name :: string
  pr_roles :: "string list"

definition has_role :: "string \<Rightarrow> Principal \<Rightarrow> bool" where
  "has_role role p \<longleftrightarrow> list_ex (\<lambda>r. r = role) (pr_roles p)"

datatype TransportGuarantee = NoGuarantee | Integral | Confidential

definition requires_secure :: "TransportGuarantee \<Rightarrow> bool" where
  "requires_secure g \<longleftrightarrow> (case g of Integral \<Rightarrow> True | Confidential \<Rightarrow> True | NoGuarantee \<Rightarrow> False)"

record WebResourceCollection =
  wrc_name :: string
  url_patterns :: "string list"
  http_methods :: "string list"
  http_method_omissions :: "string list"

definition covers_method :: "WebResourceCollection \<Rightarrow> string \<Rightarrow> bool" where
  "covers_method col meth =
    (if http_methods col \<noteq> [] then list_ex (\<lambda>m. eq_ignore_ascii_case m meth) (http_methods col)
     else if http_method_omissions col \<noteq> [] then
       \<not> list_ex (\<lambda>m. eq_ignore_ascii_case m meth) (http_method_omissions col)
     else True)"

definition pattern_match_len :: "string \<Rightarrow> string \<Rightarrow> nat option" where
  "pattern_match_len pat path =
    (if pat = ''/'' then Some 0
     else
       (case strip_prefix ''*.'' pat of
          Some ext \<Rightarrow>
            (case rsplit_once CHR ''.'' path of
               Some (_, suffix) \<Rightarrow> if eq_ignore_ascii_case suffix ext then Some (length ext) else None
             | None \<Rightarrow> None)
        | None \<Rightarrow>
            (case strip_suffix ''/*'' pat of
               Some pre \<Rightarrow>
                 if path = pre then Some (length pre + 2)
                 else if starts_with (pre @ ''/'') path then Some (length pre + 2)
                 else None
             | None \<Rightarrow> if pat = path then Some (length path + 1) else None)))"

text \<open>The longer of the best length so far and another one.\<close>

definition longer :: "nat option \<Rightarrow> nat \<Rightarrow> nat option" where
  "longer best len = Some (case best of Some prev \<Rightarrow> if len \<le> prev then prev else len | None \<Rightarrow> len)"

definition best_match_len :: "WebResourceCollection \<Rightarrow> string \<Rightarrow> nat option" where
  "best_match_len col path =
    fold (\<lambda>pat best. case pattern_match_len pat path of Some len \<Rightarrow> longer best len | None \<Rightarrow> best)
      (url_patterns col) None"

record AuthConstraint =
  role_names :: "string list"

definition is_deny_all :: "AuthConstraint \<Rightarrow> bool" where
  "is_deny_all ac \<longleftrightarrow> role_names ac = []"

definition allows_any_authenticated :: "AuthConstraint \<Rightarrow> bool" where
  "allows_any_authenticated ac \<longleftrightarrow> list_ex (\<lambda>r. r = ''*'' \<or> r = ''**'') (role_names ac)"

record SecurityConstraint =
  web_resource_collections :: "WebResourceCollection list"
  auth_constraint :: "AuthConstraint option"
  user_data_constraint :: "TransportGuarantee option"

datatype ConstraintDecision = Allow | Unauthenticated | Forbidden | RequireTransport

text \<open>The first phase of \<open>check\<close>: the best length of a constraint over its collections.\<close>

definition constraint_len :: "string \<Rightarrow> string \<Rightarrow> SecurityConstraint \<Rightarrow> nat option" where
  "constraint_len path meth c =
    fold (\<lambda>col best.
        if \<not> covers_method col meth then best
        else (case best_match_len col path of Some len \<Rightarrow> longer best len | None \<Rightarrow> best))
      (web_resource_collections c) None"

definition hits :: "string \<Rightarrow> string \<Rightarrow> SecurityConstraint list \<Rightarrow> (SecurityConstraint \<times> nat) list" where
  "hits path meth cs =
    List.map_filter (\<lambda>c. map_option (\<lambda>len. (c, len)) (constraint_len path meth c)) cs"

text \<open>The second phase: only the hits of the greatest length are kept.\<close>

definition longest_hits :: "(SecurityConstraint \<times> nat) list \<Rightarrow> SecurityConstraint list" where
  "longest_hits hs = (let max_len = fold max (map snd hs) 0 in map fst (filter (\<lambda>h. snd h = max_len) hs))"

text \<open>The third phase: what the loop over the hits collects.\<close>

record Aggregate =
  any_uncovered_auth :: bool
  all_deny_all :: bool
  any_auth_constraint :: bool
  permitted_roles :: "string list"
  wildcard_any_auth :: bool
  strongest_transport :: TransportGuarantee

definition aggregate_auth :: "AuthConstraint option \<Rightarrow> Aggregate \<Rightarrow> Aggregate" where
  "aggregate_auth auth a =
    (case auth of
       None \<Rightarrow> a\<lparr>any_uncovered_auth := True, all_deny_all := False\<rparr>
     | Some ac \<Rightarrow>
         let a1 = a\<lparr>any_auth_constraint := True\<rparr> in
         if is_deny_all ac then a1
         else
           a1\<lparr>all_deny_all := False,
              wildcard_any_auth := (wildcard_any_auth a1 \<or> allows_any_authenticated ac),
              permitted_roles := permitted_roles a1 @ filter (\<lambda>r. r \<noteq> ''*'' \<and> r \<noteq> ''**'') (role_names ac)\<rparr>)"

definition aggregate_transport :: "TransportGuarantee option \<Rightarrow> Aggregate \<Rightarrow> Aggregate" where
  "aggregate_transport ud a =
    (case ud of
       None \<Rightarrow> a
     | Some g \<Rightarrow>
         if g = Confidential then a\<lparr>strongest_transport := Confidential\<rparr>
         else if g = Integral \<and> strongest_transport a \<noteq> Confidential then a\<lparr>strongest_transport := Integral\<rparr>
         else a)"

definition aggregate :: "SecurityConstraint list \<Rightarrow> Aggregate" where
  "aggregate cs =
    fold (\<lambda>c a. aggregate_transport (user_data_constraint c) (aggregate_auth (auth_constraint c) a)) cs
      \<lparr>any_uncovered_auth = False, all_deny_all = True, any_auth_constraint = False, permitted_roles = [],
       wildcard_any_auth = False, strongest_transport = NoGuarantee\<rparr>"

definition check_constraints ::
    "SecurityConstraint list \<Rightarrow> string \<Rightarrow> string \<Rightarrow> Principal option \<Rightarrow> bool \<Rightarrow> ConstraintDecision" where
  "check_constraints cs path meth who secure =
    (let hs = hits path meth cs in
     if hs = [] then Allow
     else
       let a = aggregate (longest_hits hs) in
       if requires_secure (strongest_transport a) \<and> \<not> secure then RequireTransport
       else if any_uncovered_auth a then Allow
       else if any_auth_constraint a \<and> all_deny_all a then Forbidden
       else
         (case who of
            None \<Rightarrow> Unauthenticated
          | Some p \<Rightarrow>
              if wildcard_any_auth a then Allow
              else if list_ex (\<lambda>r. has_role r p) (permitted_roles a) then Allow
              else Forbidden))"

section \<open>Which constraints govern a request\<close>

text \<open>The specification: the lengths at which a constraint matches, and the constraints with the greatest.\<close>

definition match_lens :: "string \<Rightarrow> string \<Rightarrow> SecurityConstraint \<Rightarrow> nat set" where
  "match_lens path meth c =
    {len. \<exists>col \<in> set (web_resource_collections c). covers_method col meth \<and>
      (\<exists>pat \<in> set (url_patterns col). pattern_match_len pat path = Some len)}"

definition governing :: "string \<Rightarrow> string \<Rightarrow> SecurityConstraint list \<Rightarrow> SecurityConstraint set" where
  "governing path meth cs =
    {c \<in> set cs. \<exists>len \<in> match_lens path meth c. \<forall>d \<in> set cs. \<forall>k \<in> match_lens path meth d. k \<le> len}"

definition max_option :: "nat set \<Rightarrow> nat option" where
  "max_option A = (if A = {} then None else Some (Max A))"

lemma longer_max: "finite A \<Longrightarrow> longer (max_option A) len = max_option (insert len A)"
  by (auto simp: longer_def max_option_def)

lemma longer_max_union:
  "finite A \<Longrightarrow> finite B \<Longrightarrow> (case max_option B of Some len \<Rightarrow> longer (max_option A) len | None \<Rightarrow> max_option A) =
    max_option (A \<union> B)"
  by (cases "A = {}"; cases "B = {}")
    (simp_all add: longer_def max_option_def Max_Un max_def del: Max.bounded_iff)

lemma best_match_len_fold:
  "finite A \<Longrightarrow>
    fold (\<lambda>pat best. case pattern_match_len pat path of Some len \<Rightarrow> longer best len | None \<Rightarrow> best) pats (max_option A) =
    max_option (A \<union> {len. \<exists>pat \<in> set pats. pattern_match_len pat path = Some len})"
proof (induction pats arbitrary: A)
  case (Cons pat pats)
  show ?case
  proof (cases "pattern_match_len pat path")
    case None
    then show ?thesis using Cons by (auto intro!: arg_cong [of _ _ max_option])
  next
    case (Some len)
    have "insert len A \<union> {len. \<exists>p \<in> set pats. pattern_match_len p path = Some len} =
        A \<union> {len. \<exists>p \<in> set (pat # pats). pattern_match_len p path = Some len}" using Some by auto
    then show ?thesis using Some Cons.prems Cons.IH [of "insert len A"] by (simp add: longer_max)
  qed
qed simp

lemma finite_pattern_lens: "finite {len. \<exists>pat \<in> set pats. f pat = Some (len :: nat)}"
proof -
  have "{len. \<exists>pat \<in> set pats. f pat = Some len} \<subseteq> (\<lambda>pat. the (f pat)) ` set pats" by force
  then show ?thesis by (rule finite_subset) simp
qed

lemma best_match_len_max:
  "best_match_len col path = max_option {len. \<exists>pat \<in> set (url_patterns col). pattern_match_len pat path = Some len}"
  using best_match_len_fold [of "{}" path "url_patterns col"] by (simp add: best_match_len_def max_option_def)

lemma finite_match_lens: "finite (match_lens path meth c)"
proof -
  have "match_lens path meth c \<subseteq>
      (\<Union>col \<in> set (web_resource_collections c).
        {len. \<exists>pat \<in> set (url_patterns col). pattern_match_len pat path = Some len})"
    by (auto simp: match_lens_def)
  then show ?thesis by (rule finite_subset) (simp add: finite_pattern_lens)
qed

lemma constraint_len_fold:
  "finite A \<Longrightarrow>
    fold (\<lambda>col best. if \<not> covers_method col meth then best
        else (case best_match_len col path of Some len \<Rightarrow> longer best len | None \<Rightarrow> best)) cols (max_option A) =
    max_option (A \<union> {len. \<exists>col \<in> set cols. covers_method col meth \<and>
      (\<exists>pat \<in> set (url_patterns col). pattern_match_len pat path = Some len)})"
proof (induction cols arbitrary: A)
  case (Cons col cols)
  let ?L = "{len. \<exists>pat \<in> set (url_patterns col). pattern_match_len pat path = Some len}"
  have f: "finite ?L" by (rule finite_pattern_lens)
  show ?case
  proof (cases "covers_method col meth")
    case True
    then show ?thesis
      using Cons.prems Cons.IH [of "A \<union> ?L"] f
      by (simp add: best_match_len_max longer_max_union) (auto intro!: arg_cong [of _ _ max_option])
  next
    case False
    then show ?thesis using Cons by (auto intro!: arg_cong [of _ _ max_option])
  qed
qed simp

lemma constraint_len_max: "constraint_len path meth c = max_option (match_lens path meth c)"
  using constraint_len_fold [of "{}" meth path "web_resource_collections c"]
  by (simp add: constraint_len_def match_lens_def max_option_def)

lemma hits_iff:
  "(c, len) \<in> set (hits path meth cs) \<longleftrightarrow>
    c \<in> set cs \<and> match_lens path meth c \<noteq> {} \<and> len = Max (match_lens path meth c)"
  by (auto simp: hits_def List.map_filter_def constraint_len_max max_option_def split: if_splits)

lemma fold_max_set: "fold max xs (0 :: nat) = Max (insert 0 (set xs))"
  by (metis Max.set_eq_fold list.simps(15))

lemma longest_hits_governing: "set (longest_hits (hits path meth cs)) = governing path meth cs"
proof -
  let ?m = "Max (insert 0 (snd ` set (hits path meth cs)))"
  have m: "len \<le> ?m" if "(c, len) \<in> set (hits path meth cs)" for c len
    using that by (intro Max_ge) (auto intro!: image_eqI [of _ snd])
  have att: "?m = 0 \<or> (\<exists>c. (c, ?m) \<in> set (hits path meth cs))"
  proof -
    have "?m \<in> insert 0 (snd ` set (hits path meth cs))" by (intro Max_in) auto
    then show ?thesis by auto
  qed
  have "c \<in> governing path meth cs \<longleftrightarrow> (c, ?m) \<in> set (hits path meth cs)" for c
  proof
    assume "c \<in> governing path meth cs"
    then obtain len where c: "c \<in> set cs" "len \<in> match_lens path meth c"
      "\<And>d k. d \<in> set cs \<Longrightarrow> k \<in> match_lens path meth d \<Longrightarrow> k \<le> len" by (auto simp: governing_def)
    then have len: "len = Max (match_lens path meth c)"
      by (intro Max_eqI [symmetric] finite_match_lens) auto
    then have h: "(c, len) \<in> set (hits path meth cs)" using c by (auto simp: hits_iff)
    moreover have "?m \<le> len"
    proof (cases "?m = 0")
      case False
      then obtain d where "(d, ?m) \<in> set (hits path meth cs)" using att by metis
      then have "d \<in> set cs" "?m \<in> match_lens path meth d" using Max_in [OF finite_match_lens] by (metis hits_iff)+
      then show ?thesis by (rule c(3))
    qed simp
    ultimately show "(c, ?m) \<in> set (hits path meth cs)" using m [OF h] by (metis le_antisym)
  next
    assume h: "(c, ?m) \<in> set (hits path meth cs)"
    have "k \<le> ?m" if "d \<in> set cs" "k \<in> match_lens path meth d" for d k
    proof -
      have "(d, Max (match_lens path meth d)) \<in> set (hits path meth cs)" using that by (auto simp: hits_iff)
      from m [OF this] show ?thesis using that Max_ge [OF finite_match_lens, of k path meth d] by simp
    qed
    moreover have "?m \<in> match_lens path meth c" using h Max_in [OF finite_match_lens] by (metis hits_iff)
    moreover have "c \<in> set cs" using h by (simp add: hits_iff)
    ultimately show "c \<in> governing path meth cs" unfolding governing_def by blast
  qed
  then show ?thesis by (force simp: longest_hits_def fold_max_set Let_def)
qed

section \<open>What the governing constraints decide\<close>

definition roles_of :: "SecurityConstraint \<Rightarrow> string set" where
  "roles_of c = (case auth_constraint c of None \<Rightarrow> {} | Some ac \<Rightarrow> set (role_names ac))"

definition wants_secure :: "SecurityConstraint \<Rightarrow> bool" where
  "wants_secure c \<longleftrightarrow> user_data_constraint c \<in> {Some Integral, Some Confidential}"

definition verdict :: "SecurityConstraint set \<Rightarrow> Principal option \<Rightarrow> bool \<Rightarrow> ConstraintDecision" where
  "verdict G who secure =
    (if G = {} then Allow
     else if \<not> secure \<and> (\<exists>c \<in> G. wants_secure c) then RequireTransport
     else if \<exists>c \<in> G. auth_constraint c = None then Allow
     else if \<forall>c \<in> G. roles_of c = {} then Forbidden
     else
       (case who of
          None \<Rightarrow> Unauthenticated
        | Some p \<Rightarrow>
            if \<exists>c \<in> G. \<exists>r \<in> roles_of c. r = ''*'' \<or> r = ''**'' \<or> r \<in> set (pr_roles p) then Allow else Forbidden))"

lemmas aggregate_step_defs =
  aggregate_auth_def aggregate_transport_def is_deny_all_def allows_any_authenticated_def roles_of_def
  wants_secure_def requires_secure_def Let_def list_ex_iff

lemma aggregate_snoc:
  "aggregate (cs @ [c]) = aggregate_transport (user_data_constraint c) (aggregate_auth (auth_constraint c) (aggregate cs))"
  by (simp add: aggregate_def)

lemma aggregate_flags:
  "any_uncovered_auth (aggregate cs) \<longleftrightarrow> (\<exists>c \<in> set cs. auth_constraint c = None)"
  "any_auth_constraint (aggregate cs) \<longleftrightarrow> (\<exists>c \<in> set cs. auth_constraint c \<noteq> None)"
  "all_deny_all (aggregate cs) \<longleftrightarrow> (\<forall>c \<in> set cs. auth_constraint c \<noteq> None \<and> roles_of c = {})"
  "wildcard_any_auth (aggregate cs) \<longleftrightarrow> (\<exists>c \<in> set cs. ''*'' \<in> roles_of c \<or> ''**'' \<in> roles_of c)"
  "requires_secure (strongest_transport (aggregate cs)) \<longleftrightarrow> (\<exists>c \<in> set cs. wants_secure c)"
  "set (permitted_roles (aggregate cs)) = (\<Union>c \<in> set cs. roles_of c) - {''*'', ''**''}"
proof (induction cs rule: rev_induct)
  case (snoc c cs)
  { case 1 show ?case using snoc(1) by (auto simp: aggregate_snoc aggregate_step_defs split: option.split) }
  { case 2 show ?case using snoc(2) by (auto simp: aggregate_snoc aggregate_step_defs split: option.split) }
  { case 3 show ?case using snoc(3) by (auto simp: aggregate_snoc aggregate_step_defs split: option.split) }
  { case 4 show ?case using snoc(4) by (auto simp: aggregate_snoc aggregate_step_defs split: option.split) }
  { case 5 show ?case using snoc(5)
      by (auto simp: aggregate_snoc aggregate_step_defs split: option.split TransportGuarantee.splits) }
  { case 6 show ?case using snoc(6) by (auto simp: aggregate_snoc aggregate_step_defs split: option.split) }
qed (auto simp: aggregate_def requires_secure_def)

lemma hits_Nil_iff: "hits path meth cs = [] \<longleftrightarrow> governing path meth cs = {}"
proof -
  have "hits path meth cs = [] \<longleftrightarrow> longest_hits (hits path meth cs) = []"
  proof
    assume l: "longest_hits (hits path meth cs) = []"
    show "hits path meth cs = []"
    proof (rule ccontr)
      assume ne: "hits path meth cs \<noteq> []"
      let ?S = "snd ` set (hits path meth cs)"
      have "Max ?S \<in> ?S" using ne by (intro Max_in) auto
      moreover have "Max (insert 0 ?S) = Max ?S" using ne by (subst Max_insert) auto
      ultimately show False using l by (auto simp: longest_hits_def fold_max_set Let_def filter_empty_conv)
    qed
  qed (simp add: longest_hits_def)
  then show ?thesis by (simp flip: longest_hits_governing)
qed

lemma decision_of_governing:
  "check_constraints cs path meth who secure = verdict (governing path meth cs) who secure"
proof (cases "hits path meth cs = []")
  case False
  let ?G = "longest_hits (hits path meth cs)"
  have ne: "governing path meth cs \<noteq> {}" using False by (simp add: hits_Nil_iff)
  have roles: "(\<exists>c \<in> set ?G. \<exists>r \<in> roles_of c. r = ''*'' \<or> r = ''**'' \<or> r \<in> set (pr_roles p)) \<longleftrightarrow>
      wildcard_any_auth (aggregate ?G) \<or> list_ex (\<lambda>r. has_role r p) (permitted_roles (aggregate ?G))" for p
    by (auto simp: aggregate_flags list_ex_iff has_role_def)
  have deny: "(\<forall>c \<in> set ?G. roles_of c = {}) \<longleftrightarrow> any_auth_constraint (aggregate ?G) \<and> all_deny_all (aggregate ?G)"
    if "\<forall>c \<in> set ?G. auth_constraint c \<noteq> None"
    using that ne by (force simp: aggregate_flags longest_hits_governing)
  show ?thesis
    using False ne roles deny
    by (auto simp: check_constraints_def verdict_def Let_def aggregate_flags(1,5) simp flip: longest_hits_governing
        split: option.split)
qed (simp add: check_constraints_def verdict_def hits_Nil_iff)

section \<open>Properties\<close>

text \<open>
  C21. The decision on a request is the one its governing constraints give, those that cover its method
  and match its path with the greatest pattern length, whatever order they are declared in: it is
  allowed when there are none; then a missing transport guarantee comes first; a constraint without
  an auth-constraint allows everybody; if all roles lists are empty nobody is allowed; otherwise an
  unknown caller is asked to authenticate and a known one is allowed exactly when it has a role that is
  listed or any user is admitted.
\<close>

theorem constraint_decision:
  "check_constraints cs path meth who secure = verdict (governing path meth cs) who secure"
  by (rule decision_of_governing)

section \<open>The order of the kinds of pattern\<close>

definition constrain :: "string \<Rightarrow> AuthConstraint option \<Rightarrow> SecurityConstraint" where
  "constrain pat auth =
    \<lparr>web_resource_collections =
       [\<lparr>wrc_name = [], url_patterns = [pat], http_methods = [], http_method_omissions = []\<rparr>],
     auth_constraint = auth, user_data_constraint = None\<rparr>"

lemma match_lens_constrain:
  "match_lens path meth (constrain pat auth) =
    (case pattern_match_len pat path of None \<Rightarrow> {} | Some len \<Rightarrow> {len})"
  by (auto simp: match_lens_def constrain_def covers_method_def split: option.split)

lemma longer_pattern_governs:
  assumes "pattern_match_len p path = Some m" "pattern_match_len q path = Some n" "m < n"
  shows "governing path meth [constrain p a, constrain q b] = {constrain q b}"
  using assms by (auto simp: governing_def match_lens_constrain)

lemma prefix_match_len:
  assumes "hd pre = CHR ''/''" "pre \<noteq> []"
  shows "pattern_match_len (pre @ ''/*'') (pre @ CHR ''/'' # rest) = Some (length pre + 2)"
    and "pattern_match_len (pre @ ''/*'') pre = Some (length pre + 2)"
proof -
  have "pre @ ''/*'' \<noteq> ''/''" "strip_prefix ''*.'' (pre @ ''/*'') = None" "strip_suffix ''/*'' (pre @ ''/*'') = Some pre"
    using assms by (auto simp: neq_Nil_conv strip_prefix_def starts_with_def strip_suffix_def ends_with_def)
  then show "pattern_match_len (pre @ ''/*'') (pre @ CHR ''/'' # rest) = Some (length pre + 2)"
    "pattern_match_len (pre @ ''/*'') pre = Some (length pre + 2)"
    by (simp_all add: pattern_match_len_def starts_with_def)
qed

lemma extension_match_len:
  assumes "CHR ''.'' \<notin> set ext"
  shows "pattern_match_len (''*.'' @ ext) (stem @ CHR ''.'' # ext) = Some (length ext)"
proof -
  have "rsplit_once CHR ''.'' (stem @ CHR ''.'' # ext) = Some (stem, ext)"
    using assms str_find_append [of "CHR ''.''" "rev ext" "rev stem"] by (simp add: rsplit_once_def)
  then show ?thesis
    by (simp add: pattern_match_len_def strip_prefix_def starts_with_def eq_ignore_ascii_case_def)
qed

lemma exact_match_len:
  assumes "hd pre = CHR ''/''" "1 < length pre" "CHR ''*'' \<notin> set pre"
  shows "pattern_match_len pre pre = Some (length pre + 1)"
proof -
  have "pre \<noteq> ''/''" using assms by auto
  moreover have "strip_prefix ''*.'' pre = None"
    using assms by (cases pre) (auto simp: strip_prefix_def starts_with_def)
  moreover have "strip_suffix ''/*'' pre = None"
  proof -
    have "drop (length pre - 2) pre \<noteq> ''/*''" using assms(3) in_set_dropD [of "CHR ''*''" "length pre - 2" pre] by auto
    then show ?thesis by (simp add: strip_suffix_def ends_with_def numeral_2_eq_2)
  qed
  ultimately show ?thesis by (simp add: pattern_match_len_def)
qed

text \<open>
  The lengths do not put the kinds of pattern in the order the comments give: an extension pattern
  longer than a prefix pattern wins over it, so that a constraint without roles on \<open>*.ext\<close> opens what
  a constraint denies to everybody on a prefix; and at the bare prefix itself the prefix pattern wins over
  the exact pattern, so that what an exact constraint opens stays denied.
\<close>

lemma constraint_precedence_inverted:
  assumes "hd pre = CHR ''/''" "1 < length pre" "CHR ''*'' \<notin> set pre" "CHR ''.'' \<notin> set ext"
    and "length pre + 2 < length ext"
  shows "check_constraints [constrain (pre @ ''/*'') (Some \<lparr>role_names = []\<rparr>), constrain (''*.'' @ ext) None]
      (pre @ CHR ''/'' # name @ CHR ''.'' # ext) meth who secure = Allow \<and>
    check_constraints [constrain pre None, constrain (pre @ ''/*'') (Some \<lparr>role_names = []\<rparr>)]
      pre meth who secure = Forbidden"
proof -
  have ne: "pre \<noteq> []" using assms(2) by auto
  note l = prefix_match_len(1) [OF assms(1) ne, of "name @ CHR ''.'' # ext"] prefix_match_len(2) [OF assms(1) ne]
    extension_match_len [OF assms(4), of "pre @ CHR ''/'' # name"] exact_match_len [OF assms(1-3)]
  have "governing (pre @ CHR ''/'' # name @ CHR ''.'' # ext) meth
      [constrain (pre @ ''/*'') (Some \<lparr>role_names = []\<rparr>), constrain (''*.'' @ ext) None] = {constrain (''*.'' @ ext) None}"
    using assms(5) l by (intro longer_pattern_governs) auto
  moreover have "governing pre meth [constrain pre None, constrain (pre @ ''/*'') (Some \<lparr>role_names = []\<rparr>)] =
      {constrain (pre @ ''/*'') (Some \<lparr>role_names = []\<rparr>)}"
    using l by (intro longer_pattern_governs) auto
  ultimately show ?thesis
    by (simp add: decision_of_governing verdict_def constrain_def wants_secure_def roles_of_def)
qed

lemma constraint_precedence_inverted_witness:
  "check_constraints [constrain ''/adm/*'' (Some \<lparr>role_names = []\<rparr>), constrain ''*.properties'' None]
      ''/adm/db.properties'' ''GET'' None False = Allow"
  using constraint_precedence_inverted [where pre = "''/adm''" and ext = "''properties''" and name = "''db''" and meth = "''GET''" and who = None
      and secure = False] by simp

end
