(* ===== verification/AccessControl.thy ===== *)
theory AccessControl
  imports Http1
begin

text \<open>
  Request hardening of the security crate: \<open>crates/tomcatrs-security/src/access_control.rs\<close>. It has a
  normaliser of its own beside the connector's (\<open>Normalize\<close>), and the two are compared at the end.
\<close>

section \<open>Model\<close>

fun ac_percent_decode :: "bytes \<Rightarrow> bytes" where
  "ac_percent_decode [] = []"
| "ac_percent_decode (b # input) =
    (if b = 0x25 then
       (case input of
          h # l # rest \<Rightarrow>
            (case (hex_digit_value (char_of_byte h), hex_digit_value (char_of_byte l)) of
               (Some hi, Some lo) \<Rightarrow> of_nat (hi * 16 + lo) # ac_percent_decode rest
             | _ \<Rightarrow> b # ac_percent_decode input)
        | _ \<Rightarrow> b # ac_percent_decode input)
     else b # ac_percent_decode input)"

definition is_path_traversal :: "string \<Rightarrow> bool" where
  "is_path_traversal p \<longleftrightarrow> list_ex (\<lambda>segment. segment = ''..'') (split_on CHR ''/'' p)"

definition is_protected_path :: "string \<Rightarrow> bool" where
  "is_protected_path p \<longleftrightarrow>
    (let low = to_ascii_lowercase p in
     list_ex (\<lambda>protected. low = protected \<or> starts_with (protected @ ''/'') low) [''/web-inf'', ''/meta-inf''])"

fun ac_collapse_loop :: "string list \<Rightarrow> string list \<Rightarrow> string list option" where
  "ac_collapse_loop stack [] = Some stack"
| "ac_collapse_loop stack (segment # segments) =
    (if segment = [] \<or> segment = ''.'' then ac_collapse_loop stack segments
     else if segment = ''..'' then
       (if stack = [] then None else ac_collapse_loop (butlast stack) segments)
     else ac_collapse_loop (stack @ [segment]) segments)"

definition ac_collapse_dot_segments :: "string \<Rightarrow> string option" where
  "ac_collapse_dot_segments p =
    map_option (\<lambda>stack. CHR ''/'' # join_with CHR ''/'' stack) (ac_collapse_loop [] (split_on CHR ''/'' p))"

definition normalize_and_validate_uri :: "string \<Rightarrow> Error + string" where
  "normalize_and_validate_uri uri =
    (let raw_path = takeWhile (\<lambda>c. c \<noteq> CHR ''?'' \<and> c \<noteq> CHR ''#'') uri;
         lower_raw = to_ascii_lowercase raw_path;
         decoded_bytes = ac_percent_decode (as_bytes raw_path)
     in if contains_str ''%2f'' lower_raw \<or> contains_str ''%5c'' lower_raw then
          Err (Rejected (''URI contains an encoded path separator: '' @ uri))
        else if contains_str ''%00'' lower_raw then Err (Rejected (''URI contains an encoded NUL byte: '' @ uri))
        else if 0 \<in> set decoded_bytes then Err (Rejected (''URI contains a NUL byte: '' @ uri))
        else if 0x5C \<in> set decoded_bytes then Err (Rejected (''URI contains a backslash separator: '' @ uri))
        else
          and_then (ok_or (from_utf8 decoded_bytes) (Rejected (''URI is not valid UTF-8 after decoding: '' @ uri))) (\<lambda>decoded.
          if \<not> starts_with ''/'' decoded then Err (Rejected (''URI path is not absolute: '' @ uri))
          else
            and_then (ok_or (ac_collapse_dot_segments decoded)
              (Rejected (''URI uses path traversal that escapes the root: '' @ uri))) (\<lambda>normalized.
            if is_path_traversal normalized then
              Err (Rejected (''URI still contains traversal after normalization: '' @ uri))
            else if is_protected_path normalized then
              Err (Rejected (''URI targets a protected directory: '' @ normalized))
            else Ok normalized)))"

definition enforce_limits :: "RequestLimits \<Rightarrow> nat \<Rightarrow> nat \<Rightarrow> nat \<Rightarrow> nat option \<Rightarrow> Error + unit" where
  "enforce_limits lim header_count header_bytes uri_len content_length =
    (if max_header_count lim < header_count then
       Err (Rejected (''too many request headers: '' @ dec_str header_count @ '' exceeds limit of '' @
         dec_str (max_header_count lim)))
     else if max_header_size lim < header_bytes then
       Err (Rejected (''request header block too large: '' @ dec_str header_bytes @ '' bytes exceeds limit of '' @
         dec_str (max_header_size lim)))
     else if max_uri_len lim < uri_len then
       Err (Rejected (''request URI too long: '' @ dec_str uri_len @ '' bytes exceeds limit of '' @
         dec_str (max_uri_len lim)))
     else
       (case content_length of
          Some len \<Rightarrow>
            if max_post_size lim < len then
              Err (Rejected (''request body too large: '' @ dec_str len @ '' bytes exceeds limit of '' @
                dec_str (max_post_size lim)))
            else Ok ()
        | None \<Rightarrow> Ok ()))"

section \<open>Lemmas\<close>

lemma ac_collapse_loop_eq: "ac_collapse_loop stack segs = res_option (collapse_loop stack segs)"
  by (induction segs arbitrary: stack) auto

lemma res_option_Some: "res_option r = Some x \<longleftrightarrow> r = Ok x"
  by (cases r) auto

lemma ac_collapse_shape:
  assumes "ac_collapse_dot_segments p = Some q"
  shows "\<exists>ns. list_all is_name ns \<and> collapse_loop [] (split_on CHR ''/'' p) = Ok ns \<and>
    q = CHR ''/'' # join_with CHR ''/'' ns"
proof -
  obtain ns where ns: "collapse_loop [] (split_on CHR ''/'' p) = Ok ns" "q = CHR ''/'' # join_with CHR ''/'' ns"
    using assms by (auto simp: ac_collapse_dot_segments_def ac_collapse_loop_eq res_option_Some)
  have "list_all is_name ns"
    using ns(1) by (rule collapse_loop_names) (auto simp: list_all_iff dest: split_on_no_sep)
  with ns show ?thesis by blast
qed

lemma ac_collapse_chars:
  assumes "ac_collapse_dot_segments p = Some q"
  shows "set q \<subseteq> insert CHR ''/'' (set p)"
proof -
  obtain ns where ns: "collapse_loop [] (split_on CHR ''/'' p) = Ok ns" "q = CHR ''/'' # join_with CHR ''/'' ns"
    using ac_collapse_shape [OF assms] by blast
  have "\<Union> (set (map set ns)) \<subseteq> set p"
    using collapse_loop_chars [OF ns(1)] split_on_chars by fastforce
  then show ?thesis using ns(2) set_join_with [of "CHR ''/''" ns] by simp blast
qed

text \<open>The protected directories, as the first name of the path.\<close>

lemma lowercase_slash: "to_ascii_lowercase (CHR ''/'' # s) = CHR ''/'' # to_ascii_lowercase s"
  by (simp add: to_ascii_lowercase_def to_ascii_lower_def)

lemma lowercase_append: "to_ascii_lowercase (s @ t) = to_ascii_lowercase s @ to_ascii_lowercase t"
  by (simp add: to_ascii_lowercase_def)

lemma protected_first_name:
  "to_ascii_lowercase n \<in> {''web-inf'', ''meta-inf''} \<Longrightarrow> is_protected_path (CHR ''/'' # join_with CHR ''/'' (n # ns))"
  by (cases ns)
    (auto simp: is_protected_path_def Let_def lowercase_slash lowercase_append starts_with_def)

section \<open>Agreement with the connector\<close>

lemma hex_val_digit:
  "hex_val b = Some v \<Longrightarrow> hex_digit_value (char_of_byte b) = Some (unat v) \<and> unat v < 16"
proof -
  assume h: "hex_val b = Some v"
  have "of_char (char_of_byte b) = unat b" by (simp add: char_of_byte_def of_char_of)
  then show ?thesis using h
    by (auto simp: hex_val_def hex_digit_value_def Let_def word_le_nat_alt unat_sub unat_plus_if' split: if_splits)
qed

lemma nibbles:
  assumes "unat (lo :: u8) < 16"
  shows "push_bit 4 hi OR lo = of_nat (unat hi * 16 + unat lo)"
proof -
  have "take_bit 4 lo = lo" using assms by (simp add: take_bit_eq_mod word_unat_eq_iff unat_mod_distrib)
  then have "\<not> bit lo n" if "4 \<le> n" for n using that by (metis bit_take_bit_iff not_le)
  then have "push_bit 4 hi OR lo = push_bit 4 hi + lo"
    by (subst disjunctive_add) (auto simp: bit_simps)
  then show ?thesis by (simp add: push_bit_eq_mult)
qed

lemma percent_decode_agree: "percent_decode bs = Ok out \<Longrightarrow> ac_percent_decode bs = out"
proof (induction bs arbitrary: out rule: percent_decode.induct)
  case (2 b input)
  show ?case
  proof (cases "b = 0x25")
    case True
    then obtain h l rest where i: "input = h # l # rest"
      using "2.prems" by (auto split: list.splits)
    then obtain hi lo out' where w: "hex_val h = Some hi" "hex_val l = Some lo" "percent_decode rest = Ok out'"
      "out = (push_bit 4 hi OR lo) # out'"
      using "2.prems" True by (auto simp: res_simps Let_def split: if_splits)
    then have "ac_percent_decode rest = out'" using "2.prems" True i by (intro "2.IH"(1)) (auto simp: res_simps Let_def split: if_splits)
    then show ?thesis
      using True i w hex_val_digit [OF w(1)] hex_val_digit [OF w(2)] by (simp add: nibbles)
  next
    case False
    then show ?thesis using "2.prems" "2.IH"(2) by (auto simp: res_simps split: if_splits)
  qed
qed simp

lemma takeWhile_find:
  assumes "CHR ''#'' \<notin> set (takeWhile (\<lambda>c. c \<noteq> CHR ''?'') t)"
  shows "takeWhile (\<lambda>c. c \<noteq> CHR ''?'' \<and> c \<noteq> CHR ''#'') t =
    (case str_find CHR ''?'' t of Some k \<Rightarrow> take k t | None \<Rightarrow> t)"
  using assms by (induction t) (auto split: option.splits)

lemma normalizers_agree:
  assumes "normalize_target t = Ok u" "normalize_and_validate_uri t = Ok p"
    "CHR ''#'' \<notin> set (takeWhile (\<lambda>c. c \<noteq> CHR ''?'') t)"
  shows "uri_path u = p \<or> uri_path u = p @ ''/''"
proof -
  define raw where "raw = takeWhile (\<lambda>c. c \<noteq> CHR ''?'' \<and> c \<noteq> CHR ''#'') t"
  have raw: "raw = (case str_find CHR ''?'' t of Some k \<Rightarrow> take k t | None \<Rightarrow> t)"
    using takeWhile_find [OF assms(3)] by (simp add: raw_def)
  obtain ds where ds: "from_utf8 (ac_percent_decode (as_bytes raw)) = Some ds" "starts_with ''/'' ds"
      "ac_collapse_dot_segments ds = Some p"
    using assms(2) by (auto simp: normalize_and_validate_uri_def Let_def res_simps simp flip: raw_def split: if_splits)
  have "raw \<noteq> ''*''"
  proof
    assume "raw = ''*''"
    then have "ac_percent_decode (as_bytes raw) = [0x2A]" by (simp add: as_bytes_def byte_of_def)
    then show False using ds(1,2) by (auto simp: from_utf8_def of_bytes_def char_of_byte_def starts_with_def char_of_def)
  qed
  then obtain decoded ds' where d: "percent_decode (as_bytes raw) = Ok decoded" "from_utf8 decoded = Some ds'"
      "collapse_dot_segments ds' = Ok (uri_path u)"
    using assms(1) by (auto simp: normalize_target_def Let_def res_simps raw split: option.splits if_splits)
  have "ds' = ds" using ds(1) d(1,2) percent_decode_agree by fastforce
  then show ?thesis
    using collapse_dot_segments_shape [OF d(3)] ac_collapse_shape [OF ds(3)] by auto
qed

lemma validated_uri:
  assumes "normalize_and_validate_uri t = Ok p"
  shows "\<exists>ns. list_all is_name ns \<and> p = CHR ''/'' # join_with CHR ''/'' ns \<and> CHR 0x00 \<notin> set p \<and> CHR 0x5C \<notin> set p \<and>
    (\<forall>n rest. ns = n # rest \<longrightarrow> to_ascii_lowercase n \<notin> {''web-inf'', ''meta-inf''})"
proof -
  let ?d = "ac_percent_decode (as_bytes (takeWhile (\<lambda>c. c \<noteq> CHR ''?'' \<and> c \<noteq> CHR ''#'') t))"
  obtain ds where ds: "from_utf8 ?d = Some ds" "0 \<notin> set ?d" "0x5C \<notin> set ?d" "ac_collapse_dot_segments ds = Some p"
      "\<not> is_protected_path p"
    using assms by (auto simp: normalize_and_validate_uri_def Let_def res_simps split: if_splits)
  have "CHR 0x00 \<notin> set ds" "CHR 0x5C \<notin> set ds"
    using ds(2,3) set_as_bytes_of_utf8 [OF ds(1), of "CHR 0x00"] set_as_bytes_of_utf8 [OF ds(1), of "CHR 0x5C"]
    by simp_all
  then have "CHR 0x00 \<notin> set p" "CHR 0x5C \<notin> set p" using ac_collapse_chars [OF ds(4)] by auto
  then show ?thesis using ac_collapse_shape [OF ds(4)] ds(5) protected_first_name by blast
qed

text \<open>A fragment is the end of the path for one normaliser and a part of it for the other.\<close>

lemma fragment_divides:
  "normalize_and_validate_uri ''/public#/../WEB-INF/web.xml'' = Ok ''/public''"
  "normalize_target ''/public#/../WEB-INF/web.xml'' = Ok \<lparr>uri_path = ''/WEB-INF/web.xml'', uri_query = None\<rparr>"
  by code_simp+

section \<open>Properties\<close>

text \<open>
  C22. A URI the security layer accepts gives a path that is a slash and names joined by slashes, none of
  them empty or made of dots, without NUL and backslash, whose first name is not \<open>WEB-INF\<close> or
  \<open>META-INF\<close> in any case. If the target has no \<open>#\<close> before its query and the connector accepts it too, the
  connector has read the same path, up to a trailing slash. With a \<open>#\<close> this is not so: the security layer
  ends the path there and the connector does not, so that it accepts a target as \<open>/public\<close> that the connector
  reads as \<open>/WEB-INF/web.xml\<close>.
\<close>

theorem validated_uri_safe:
  assumes "normalize_and_validate_uri t = Ok p"
  shows "(\<exists>ns. list_all is_name ns \<and> p = CHR ''/'' # join_with CHR ''/'' ns \<and> CHR 0x00 \<notin> set p \<and>
      CHR 0x5C \<notin> set p \<and> (\<forall>n rest. ns = n # rest \<longrightarrow> to_ascii_lowercase n \<notin> {''web-inf'', ''meta-inf''})) \<and>
    (\<forall>u. normalize_target t = Ok u \<longrightarrow> CHR ''#'' \<notin> set (takeWhile (\<lambda>c. c \<noteq> CHR ''?'') t) \<longrightarrow>
      uri_path u = p \<or> uri_path u = p @ ''/'') \<and>
    normalize_and_validate_uri ''/public#/../WEB-INF/web.xml'' = Ok ''/public'' \<and>
    normalize_target ''/public#/../WEB-INF/web.xml'' = Ok \<lparr>uri_path = ''/WEB-INF/web.xml'', uri_query = None\<rparr>"
  using validated_uri [OF assms] normalizers_agree [OF _ assms] fragment_divides by blast

theorem validated_uri_safe_witness:
  "(\<exists>ns. list_all is_name ns \<and> ''/b/c'' = CHR ''/'' # join_with CHR ''/'' ns) \<and>
   uri_path \<lparr>uri_path = ''/b/c/'', uri_query = Some ''x#y''\<rparr> \<in> {''/b/c'', ''/b/c'' @ ''/''}"
proof -
  let ?t = "''/a/%2e./b//c/?x#y''"
  have "normalize_and_validate_uri ?t = Ok ''/b/c''" by code_simp
  moreover have "normalize_target ?t = Ok \<lparr>uri_path = ''/b/c/'', uri_query = Some ''x#y''\<rparr>" by code_simp
  moreover have "CHR ''#'' \<notin> set (takeWhile (\<lambda>c. c \<noteq> CHR ''?'') ?t)" by simp
  ultimately show ?thesis using validated_uri_safe [of ?t "''/b/c''"] by blast
qed

text \<open>Decoding is done once, and what an escaped escape leaves is accepted as a name.\<close>

lemma double_encoding_accepted: "normalize_and_validate_uri ''/%252e%252e/x'' = Ok ''/%2e%2e/x''"
  by code_simp

end
