(* ===== verification/Calendar.thy ===== *)
theory Calendar
  imports Text
begin

text \<open>
  Dates in header fields: \<open>format_imf_fixdate\<close> of \<open>src/crates/tomcatrs-coyote/src/cookies.rs\<close>,
  which computes the civil date from a day count by arithmetic on 400-year eras that start on the
  first of March. The specification is a clock that ticks second by second through the Gregorian
  calendar.

  The code's \<open>i64\<close> is \<open>int\<close>: the day count is at most 2^63 / 86400 in size, and no intermediate
  value is as large as the timestamp plus 719468, so nothing overflows.
\<close>

section \<open>The formatter\<close>

definition civil_year :: "int \<Rightarrow> int" where
  "civil_year doe = (doe - doe div 1460 + doe div 36524 - doe div 146096) div 365"

definition civil_of_doy :: "int \<Rightarrow> int \<Rightarrow> int \<times> int \<times> int" where
  "civil_of_doy year_shifted doy =
    (let mp = (5 * doy + 2) div 153;
         d = doy - (153 * mp + 2) div 5 + 1;
         m = (if mp < 10 then mp + 3 else mp - 9);
         y = (if m \<le> 2 then year_shifted + 1 else year_shifted)
     in (y, m, d))"

definition civil_from_days :: "int \<Rightarrow> int \<times> int \<times> int" where
  "civil_from_days days =
    (let z = days + 719468;
         era = z div 146097;
         doe = z mod 146097;
         yoe = civil_year doe;
         year_shifted = yoe + era * 400;
         doy = doe - (365 * yoe + yoe div 4 - yoe div 100)
     in civil_of_doy year_shifted doy)"

type_synonym Moment = "int \<times> (int \<times> int \<times> int) \<times> (int \<times> int \<times> int)"

definition broken_down :: "int \<Rightarrow> Moment" where
  "broken_down unix_seconds =
    (let days = unix_seconds div 86400;
         secs_of_day = unix_seconds mod 86400;
         hour = secs_of_day div 3600;
         minute = secs_of_day mod 3600 div 60;
         second = secs_of_day mod 60;
         dow = (days mod 7 + 4) mod 7
     in (dow, civil_from_days days, (hour, minute, second)))"

definition WEEKDAYS :: "string list" where
  "WEEKDAYS = [''Sun'', ''Mon'', ''Tue'', ''Wed'', ''Thu'', ''Fri'', ''Sat'']"

definition MONTHS :: "string list" where
  "MONTHS = [''Jan'', ''Feb'', ''Mar'', ''Apr'', ''May'', ''Jun'',
             ''Jul'', ''Aug'', ''Sep'', ''Oct'', ''Nov'', ''Dec'']"

text \<open>The formatting directives \<open>{:02}\<close> and \<open>{:04}\<close>: zeros between the sign and the digits.\<close>

definition zero_padded :: "nat \<Rightarrow> int \<Rightarrow> string" where
  "zero_padded width n =
    (let sign = (if n < 0 then ''-'' else []);
         digits = dec_str (nat \<bar>n\<bar>)
     in sign @ replicate (width - length sign - length digits) (CHR ''0'') @ digits)"

definition print_fixdate :: "Moment \<Rightarrow> string" where
  "print_fixdate t =
    (case t of (dow, (year, month, day), (hour, minute, second)) \<Rightarrow>
       WEEKDAYS ! nat dow @ '', '' @ zero_padded 2 day @ '' '' @ MONTHS ! nat (month - 1) @ '' '' @
       zero_padded 4 year @ '' '' @ zero_padded 2 hour @ '':'' @ zero_padded 2 minute @ '':'' @
       zero_padded 2 second @ '' GMT'')"

definition format_imf_fixdate :: "int \<Rightarrow> string" where
  "format_imf_fixdate unix_seconds = print_fixdate (broken_down unix_seconds)"

section \<open>The Gregorian calendar\<close>

definition leap_year :: "int \<Rightarrow> bool" where
  "leap_year y \<longleftrightarrow> y mod 4 = 0 \<and> (y mod 100 \<noteq> 0 \<or> y mod 400 = 0)"

definition month_length :: "bool \<Rightarrow> int \<Rightarrow> int" where
  "month_length leap m =
    (if m = 2 then if leap then 29 else 28 else if m \<in> {4, 6, 9, 11} then 30 else 31)"

definition next_day :: "int \<times> int \<times> int \<Rightarrow> int \<times> int \<times> int" where
  "next_day date =
    (case date of (y, m, d) \<Rightarrow>
       if d < month_length (leap_year y) m then (y, m, d + 1)
       else if m < 12 then (y, m + 1, 1)
       else (y + 1, 1, 1))"

text \<open>One second later.\<close>

definition tick :: "Moment \<Rightarrow> Moment" where
  "tick t =
    (case t of (dow, date, (h, m, s)) \<Rightarrow>
       if s < 59 then (dow, date, (h, m, s + 1))
       else if m < 59 then (dow, date, (h, m + 1, 0))
       else if h < 23 then (dow, date, (h + 1, 0, 0))
       else ((dow + 1) mod 7, next_day date, (0, 0, 0)))"

definition on_calendar :: "Moment \<Rightarrow> bool" where
  "on_calendar t \<longleftrightarrow>
    (case t of (dow, (y, m, d), (h, mi, s)) \<Rightarrow>
       0 \<le> dow \<and> dow < 7 \<and> 1 \<le> m \<and> m \<le> 12 \<and> 1 \<le> d \<and> d \<le> month_length (leap_year y) m \<and>
       0 \<le> h \<and> h < 24 \<and> 0 \<le> mi \<and> mi < 60 \<and> 0 \<le> s \<and> s < 60)"

section \<open>Lemmas\<close>

text \<open>The number of days before year \<open>k\<close> of an era, and the length of that year.\<close>

definition year_start :: "int \<Rightarrow> int" where
  "year_start k = 365 * k + k div 4 - k div 100"

definition year_days :: "int \<Rightarrow> int" where
  "year_days k = (if leap_year (k + 1) then 366 else 365)"

text \<open>
  The correction in \<open>civil_year\<close> takes out the leap days before the day: with \<open>k = 100 c + 4 a + b\<close>,
  the quotient by 1460 is \<open>25 c + a\<close>, or one more near the end of a year before a leap day.
\<close>

lemma era_split:
  assumes "0 \<le> k" "k \<le> 399"
  obtains c a b where "k = 100 * c + 4 * a + b" "0 \<le> c" "c \<le> 3" "0 \<le> a" "a \<le> 24" "0 \<le> b" "b \<le> 3"
    and "year_start k = 36524 * c + 1461 * a + 365 * b"
proof -
  define c r where "c = k div 100" and "r = k mod 100"
  define a b where "a = r div 4" and "b = r mod 4"
  have k: "k = 100 * c + r" "0 \<le> r" "r < 100" by (simp_all add: c_def r_def)
  have r: "r = 4 * a + b" "0 \<le> b" "b < 4" by (simp_all add: a_def b_def)
  have "k div 4 = 25 * c + a" by (rule int_div_pos_eq [where r = b]) (use k r in auto)
  then have "year_start k = 36524 * c + 1461 * a + 365 * b"
    unfolding year_start_def c_def [symmetric] using k(1) r(1) by linarith
  then show thesis using that [of c a b] k r assms by linarith
qed

lemma leap_split:
  assumes "k = 100 * c + 4 * a + b" "0 \<le> c" "c \<le> 3" "0 \<le> a" "a \<le> 24" "0 \<le> b" "b \<le> (3 :: int)"
  shows "leap_year (k + 1) \<longleftrightarrow> b = 3 \<and> (a = 24 \<longrightarrow> c = 3)"
proof -
  have "(k + 1) mod 4 = 0 \<longleftrightarrow> b = 3"
  proof -
    have "k + 1 = (b + 1) + 4 * (25 * c + a)" using assms by simp
    then have "(k + 1) mod 4 = (b + 1) mod 4" by (metis mod_mult_self2)
    moreover have "b = 0 \<or> b = 1 \<or> b = 2 \<or> b = 3" using assms by linarith
    ultimately show ?thesis by auto
  qed
  moreover have "(k + 1) mod 100 = 0 \<longleftrightarrow> a = 24 \<and> b = 3"
  proof -
    have "k + 1 = (4 * a + b + 1) + 100 * c" using assms by simp
    then have m: "(k + 1) mod 100 = (4 * a + b + 1) mod 100" by (metis mod_mult_self2)
    show ?thesis
    proof (cases "a = 24 \<and> b = 3")
      case False
      then have "4 * a + b + 1 < 100" using assms by linarith
      then have "(4 * a + b + 1) mod 100 = 4 * a + b + 1" using assms by (intro mod_pos_pos_trivial) auto
      then show ?thesis using m False assms by simp
    qed (simp add: m)
  qed
  moreover have "(k + 1) mod 400 = 0 \<longleftrightarrow> c = 3" if "a = 24 \<and> b = 3"
  proof -
    have "k + 1 = 100 * (c + 1)" using assms that by simp
    moreover have "c = 0 \<or> c = 1 \<or> c = 2 \<or> c = 3" using assms by linarith
    ultimately show ?thesis by auto
  qed
  ultimately show ?thesis unfolding leap_year_def by (cases "b = 3"; cases "a = 24") simp_all
qed

lemma civil_year_at:
  assumes "0 \<le> k" "k \<le> 399" "0 \<le> doy" "doy < year_days k"
  shows "civil_year (year_start k + doy) = k"
proof (cases "k = 399 \<and> doy = 365")
  case True
  then show ?thesis by (simp add: civil_year_def year_start_def)
next
  case False
  obtain c a b where k: "k = 100 * c + 4 * a + b" "0 \<le> c" "c \<le> 3" "0 \<le> a" "a \<le> 24" "0 \<le> b" "b \<le> 3"
    and start: "year_start k = 36524 * c + 1461 * a + 365 * b"
    using era_split assms by blast
  have doy: "doy \<le> 364 \<or> doy = 365 \<and> b = 3 \<and> (a = 24 \<longrightarrow> c = 3)"
    using assms(4) leap_split [OF k] by (auto simp: year_days_def split: if_splits)
  then have small: "1461 * a + 365 * b + doy < 36524" using k False by auto
  define e where "e = (if b = 3 \<and> 365 \<le> 24 * c + a + doy then 1 else 0 :: int)"
  let ?doe = "year_start k + doy"
  have "?doe div 1460 = 25 * c + a + e"
    by (rule int_div_pos_eq [where r = "24 * c + a + 365 * b + doy - 1460 * e"])
      (use k(2-7) doy assms(3) in \<open>auto simp: start e_def\<close>)
  moreover have "?doe div 36524 = c"
    by (rule int_div_pos_eq [where r = "1461 * a + 365 * b + doy"])
      (use k(2-7) small assms(3) in \<open>simp_all add: start\<close>)
  moreover have "?doe div 146096 = 0"
    using k(2-7) small assms(3) by (intro div_pos_pos_trivial) (simp_all add: start)
  ultimately have "civil_year ?doe = (365 * k + (doy - e)) div 365"
    using k(1) unfolding civil_year_def start by (simp add: algebra_simps)
  also have "\<dots> = k"
    by (rule int_div_pos_eq [where r = "doy - e"]) (use k doy assms(3) in \<open>auto simp: e_def\<close>)
  finally show ?thesis .
qed

lemma div_mod_Suc:
  fixes t q :: int
  assumes "0 < q"
  shows "(t + 1) div q = (if t mod q = q - 1 then t div q + 1 else t div q)"
    and "(t + 1) mod q = (if t mod q = q - 1 then 0 else t mod q + 1)"
proof -
  have t: "t = q * (t div q) + t mod q" "0 \<le> t mod q" "t mod q < q" using assms by simp_all
  show "(t + 1) div q = (if t mod q = q - 1 then t div q + 1 else t div q)"
  proof (cases "t mod q = q - 1")
    case True
    have "t + 1 = q * (t div q) + q" using t(1) True by linarith
    then have "t + 1 = q * (t div q + 1) + 0" by (simp add: distrib_left)
    then show ?thesis using True assms by (simp only: if_P) (rule int_div_pos_eq, auto)
  next
    case False
    then have "t + 1 = q * (t div q) + (t mod q + 1)" "t mod q + 1 < q" using t by auto
    then show ?thesis using False t(2) by (simp only: if_not_P) (rule int_div_pos_eq, auto)
  qed
  show "(t + 1) mod q = (if t mod q = q - 1 then 0 else t mod q + 1)"
  proof (cases "t mod q = q - 1")
    case True
    have "t + 1 = q * (t div q) + q" using t(1) True by linarith
    then have "t + 1 = q * (t div q + 1)" by (simp add: distrib_left)
    then show ?thesis using True by simp
  next
    case False
    then have "t + 1 = q * (t div q) + (t mod q + 1)" "t mod q + 1 < q" using t by auto
    then show ?thesis using False t(2) by (simp only: if_not_P) (rule int_mod_pos_eq [where q = "t div q"], auto)
  qed
qed

lemma year_start_next:
  assumes "0 \<le> k" "k \<le> 398"
  shows "year_start (k + 1) = year_start k + year_days k"
proof -
  have "(k + 1) mod 4 = 0 \<longleftrightarrow> k mod 4 = 3" "(k + 1) mod 100 = 0 \<longleftrightarrow> k mod 100 = 99"
    using div_mod_Suc(2) [of 4 k] div_mod_Suc(2) [of 100 k] by auto
  moreover have "(k + 1) mod 400 \<noteq> 0" using assms by (subst mod_pos_pos_trivial) auto
  moreover have "k mod 100 = 99 \<Longrightarrow> k mod 4 = 3"
    using mod_mod_cancel [of 4 100 k] by simp
  ultimately have days: "year_days k = (if k mod 4 = 3 \<and> k mod 100 \<noteq> 99 then 366 else 365)"
    and century: "k mod 100 = 99 \<Longrightarrow> k mod 4 = 3"
    by (auto simp: year_days_def leap_year_def)
  define a b where "a = k div 4" and "b = k div 100"
  have "(k + 1) div 4 = (if k mod 4 = 3 then a + 1 else a)"
    "(k + 1) div 100 = (if k mod 100 = 99 then b + 1 else b)"
    using div_mod_Suc(1) [of 4 k] div_mod_Suc(1) [of 100 k] by (simp_all add: a_def b_def)
  then have "year_start (k + 1) = 365 * (k + 1) + (if k mod 4 = 3 then a + 1 else a) -
      (if k mod 100 = 99 then b + 1 else b)"
    by (simp only: year_start_def)
  moreover have "year_start k = 365 * k + a - b" by (simp only: year_start_def a_def b_def)
  ultimately show ?thesis using century unfolding days by (cases "k mod 100 = 99") (auto split: if_splits)
qed

lemma year_found:
  assumes "0 \<le> doe" "doe < 146097"
  shows "\<exists>k doy. 0 \<le> k \<and> k \<le> 399 \<and> 0 \<le> doy \<and> doy < year_days k \<and> doe = year_start k + doy"
proof -
  have last_year: "year_start 399 + year_days 399 = 146097"
    by (simp add: year_start_def year_days_def leap_year_def)
  have "\<exists>k doy. 0 \<le> k \<and> k \<le> j \<and> 0 \<le> doy \<and> doy < year_days k \<and> doe = year_start k + doy"
    if "0 \<le> j" "j \<le> 399" "doe < year_start j + year_days j" for j
    using that
  proof (induction j rule: int_ge_induct)
    case base
    then show ?case using assms by (intro exI [of _ 0] exI [of _ doe]) (simp add: year_start_def)
  next
    case (step i)
    show ?case
    proof (cases "doe < year_start i + year_days i")
      case True
      have "i \<le> 399" using step.prems by simp
      from step.IH [OF this True] obtain k doy
        where "0 \<le> k" "k \<le> i" "0 \<le> doy" "doy < year_days k" "doe = year_start k + doy" by blast
      then show ?thesis by (intro exI [of _ k] exI [of _ doy]) simp
    next
      case False
      have "year_start (i + 1) = year_start i + year_days i"
        using step.hyps step.prems by (intro year_start_next) simp_all
      then show ?thesis using False step.hyps step.prems
        by (intro exI [of _ "i + 1"] exI [of _ "doe - year_start (i + 1)"]) simp
    qed
  qed
  from this [of 399] show ?thesis using assms(2) last_year by simp
qed

lemma civil_from_days_at:
  assumes "days + 719468 = 146097 * era + (year_start k + doy)"
    and "0 \<le> k" "k \<le> 399" "0 \<le> doy" "doy < year_days k"
  shows "civil_from_days days = civil_of_doy (k + era * 400) doy"
proof -
  have "0 \<le> year_start k"
    using assms by (simp add: year_start_def)
  have "year_start k + year_days k \<le> 146097"
  proof (cases "k = 399")
    case True
    then show ?thesis by (simp add: year_start_def year_days_def leap_year_def)
  next
    case False
    then have "k \<le> 398" using assms by simp
    then have "year_start k \<le> 365 * 398 + 99" unfolding year_start_def using assms(2) by linarith
    moreover have "year_days k \<le> 366" by (simp add: year_days_def)
    ultimately show ?thesis by simp
  qed
  then have doe: "0 \<le> year_start k + doy" "year_start k + doy < 146097"
    using assms \<open>0 \<le> year_start k\<close> by auto
  then have "(days + 719468) div 146097 = era" "(days + 719468) mod 146097 = year_start k + doy"
    unfolding assms(1) by simp_all
  then show ?thesis
    using civil_year_at [OF assms(2-5)] by (simp add: civil_from_days_def Let_def year_start_def)
qed

text \<open>The days of a year that starts in March; February, its last month, lies in the next civil year.\<close>

lemma civil_of_doy_shift:
  "civil_of_doy y doy = (case civil_of_doy 0 doy of (y0, m, d) \<Rightarrow> (y + y0, m, d))"
  by (simp add: civil_of_doy_def Let_def)

lemma civil_of_doy_february: "civil_of_doy 0 doy = (y0, 2, d) \<Longrightarrow> y0 = 1"
  by (auto simp: civil_of_doy_def Let_def split: if_splits)

lemma in_month:
  assumes "0 \<le> i" "i \<le> 11" "153 * i \<le> 5 * doy + 2" "5 * doy + 2 < 153 * (i + 1)"
  shows "civil_of_doy 0 doy =
    (if i < 10 then (0, i + 3, doy - (153 * i + 2) div 5 + 1) else (1, i - 9, doy - (153 * i + 2) div 5 + 1))"
proof -
  have "(5 * doy + 2) div 153 = i"
    by (rule int_div_pos_eq [where r = "5 * doy + 2 - 153 * i"]) (use assms in auto)
  then show ?thesis using assms(1,2) by (simp add: civil_of_doy_def Let_def)
qed

lemma month_of_doy:
  assumes "0 \<le> doy" "doy \<le> 365"
  shows "civil_of_doy 0 doy =
    (if doy < 31 then (0, 3, doy + 1) else if doy < 61 then (0, 4, doy - 30)
     else if doy < 92 then (0, 5, doy - 60) else if doy < 122 then (0, 6, doy - 91)
     else if doy < 153 then (0, 7, doy - 121) else if doy < 184 then (0, 8, doy - 152)
     else if doy < 214 then (0, 9, doy - 183) else if doy < 245 then (0, 10, doy - 213)
     else if doy < 275 then (0, 11, doy - 244) else if doy < 306 then (0, 12, doy - 274)
     else if doy < 337 then (1, 1, doy - 305) else (1, 2, doy - 336))"
proof -
  consider (m0) "doy < 31"
    | (m1) "31 \<le> doy" "doy < 61"
    | (m2) "61 \<le> doy" "doy < 92"
    | (m3) "92 \<le> doy" "doy < 122"
    | (m4) "122 \<le> doy" "doy < 153"
    | (m5) "153 \<le> doy" "doy < 184"
    | (m6) "184 \<le> doy" "doy < 214"
    | (m7) "214 \<le> doy" "doy < 245"
    | (m8) "245 \<le> doy" "doy < 275"
    | (m9) "275 \<le> doy" "doy < 306"
    | (m10) "306 \<le> doy" "doy < 337"
    | (m11) "337 \<le> doy"
    using assms by linarith
  then show ?thesis
  proof cases
    case m0
    then show ?thesis using assms in_month [of 0 doy] by simp
  next
    case m1
    then show ?thesis using assms in_month [of 1 doy] by simp
  next
    case m2
    then show ?thesis using assms in_month [of 2 doy] by simp
  next
    case m3
    then show ?thesis using assms in_month [of 3 doy] by simp
  next
    case m4
    then show ?thesis using assms in_month [of 4 doy] by simp
  next
    case m5
    then show ?thesis using assms in_month [of 5 doy] by simp
  next
    case m6
    then show ?thesis using assms in_month [of 6 doy] by simp
  next
    case m7
    then show ?thesis using assms in_month [of 7 doy] by simp
  next
    case m8
    then show ?thesis using assms in_month [of 8 doy] by simp
  next
    case m9
    then show ?thesis using assms in_month [of 9 doy] by simp
  next
    case m10
    then show ?thesis using assms in_month [of 10 doy] by simp
  next
    case m11
    then show ?thesis using assms in_month [of 11 doy] by simp
  qed
qed

lemma doy_steps:
  assumes "0 \<le> doy" "doy < 364 \<or> leap \<and> doy = 364"
  shows "civil_of_doy 0 (doy + 1) =
    (case civil_of_doy 0 doy of (y, m, d) \<Rightarrow>
       if d < month_length leap m then (y, m, d + 1) else if m < 12 then (y, m + 1, 1) else (y + 1, 1, 1))"
proof -
  have "doy \<le> 365" "0 \<le> doy + 1" "doy + 1 \<le> 365" using assms by auto
  then show ?thesis
    using assms by (auto simp: month_of_doy month_length_def split: if_split)
qed

lemma doy_on_calendar:
  assumes "0 \<le> doy" "doy < 365 \<or> leap \<and> doy = 365"
  shows "case civil_of_doy 0 doy of (y, m, d) \<Rightarrow> 1 \<le> m \<and> m \<le> 12 \<and> 1 \<le> d \<and> d \<le> month_length leap m"
proof -
  have "doy \<le> 365" using assms by auto
  then show ?thesis using assms by (auto simp: month_of_doy month_length_def split: if_split)
qed

lemma doy_last:
  "civil_of_doy 0 364 = (1, 2, 28)" "civil_of_doy 0 365 = (1, 2, 29)" "civil_of_doy 0 0 = (0, 3, 1)"
  by (simp_all add: month_of_doy)

lemma month_length_leap: "m \<noteq> 2 \<Longrightarrow> month_length l m = month_length l' m"
  by (simp add: month_length_def)

lemma next_day_in_year:
  assumes "0 \<le> doy" "doy + 1 < (if leap_year (y + 1) then 366 else 365)"
  shows "next_day (civil_of_doy y doy) = civil_of_doy y (doy + 1)"
proof -
  obtain y0 m d where c: "civil_of_doy 0 doy = (y0, m, d)" by (cases "civil_of_doy 0 doy") auto
  have "doy < 364 \<or> leap_year (y + 1) \<and> doy = 364" using assms by (auto split: if_splits)
  from doy_steps [OF assms(1) this] have step: "civil_of_doy 0 (doy + 1) =
      (if d < month_length (leap_year (y + 1)) m then (y0, m, d + 1)
       else if m < 12 then (y0, m + 1, 1) else (y0 + 1, 1, 1))"
    by (simp add: c)
  have "month_length (leap_year (y + y0)) m = month_length (leap_year (y + 1)) m"
    using civil_of_doy_february [of doy y0 d] c by (cases "m = 2") (auto intro: month_length_leap)
  then show ?thesis
    by (simp add: civil_of_doy_shift [of y] c step next_day_def)
qed

lemma next_day_at_end:
  assumes "doy + 1 = (if leap_year (y + 1) then 366 else 365)"
  shows "next_day (civil_of_doy y doy) = civil_of_doy (y + 1) 0"
  using assms
  by (auto simp: civil_of_doy_shift [of y] civil_of_doy_shift [of "y + 1"] doy_last next_day_def
      month_length_def split: if_splits)

lemma leap_year_era: "leap_year (y + era * 400) = leap_year y"
proof -
  have "(y + era * 400) mod 400 = y mod 400" by simp
  moreover have "(y + era * 400) mod 4 = y mod 4" "(y + era * 400) mod 100 = y mod 100"
    using mod_mod_cancel [of 4 400 "y + era * 400"] mod_mod_cancel [of 4 400 y]
      mod_mod_cancel [of 100 400 "y + era * 400"] mod_mod_cancel [of 100 400 y] by simp_all
  ultimately show ?thesis by (simp add: leap_year_def)
qed

lemma civil_from_days_Suc: "civil_from_days (days + 1) = next_day (civil_from_days days)"
proof -
  define era where "era = (days + 719468) div 146097"
  have "0 \<le> (days + 719468) mod 146097" "(days + 719468) mod 146097 < 146097" by simp_all
  from year_found [OF this] obtain k doy where k: "0 \<le> k" "k \<le> 399" "0 \<le> doy" "doy < year_days k"
    and doe: "(days + 719468) mod 146097 = year_start k + doy" by auto
  have days: "days + 719468 = 146097 * era + (year_start k + doy)"
    unfolding era_def doe [symmetric] by simp
  have len: "year_days k = (if leap_year (k + era * 400 + 1) then 366 else 365)"
    using leap_year_era [of "k + 1" era] by (simp add: year_days_def algebra_simps)
  have now: "civil_from_days days = civil_of_doy (k + era * 400) doy"
    by (rule civil_from_days_at [OF days k])
  show ?thesis
  proof (cases "doy + 1 < year_days k")
    case True
    have "civil_from_days (days + 1) = civil_of_doy (k + era * 400) (doy + 1)"
      using k True days by (intro civil_from_days_at) auto
    then show ?thesis
      using next_day_in_year [of doy "k + era * 400"] k(3) True len now by simp
  next
    case False
    then have last: "doy + 1 = year_days k" using k by simp
    have "civil_from_days (days + 1) = civil_of_doy (k + era * 400 + 1) 0"
    proof (cases "k = 399")
      case True
      have "civil_from_days (days + 1) = civil_of_doy (0 + (era + 1) * 400) 0"
        using days last
        by (intro civil_from_days_at) (simp_all add: True year_start_def year_days_def leap_year_def)
      then show ?thesis using True by (simp add: algebra_simps)
    next
      case False
      then have "civil_from_days (days + 1) = civil_of_doy (k + 1 + era * 400) 0"
        using days last k year_start_next [of k]
        by (intro civil_from_days_at) (auto simp: year_days_def)
      then show ?thesis by (simp add: algebra_simps)
    qed
    then show ?thesis
      using next_day_at_end [of doy "k + era * 400"] last len now by simp
  qed
qed

lemma civil_from_days_valid:
  "case civil_from_days days of (y, m, d) \<Rightarrow>
     1 \<le> m \<and> m \<le> 12 \<and> 1 \<le> d \<and> d \<le> month_length (leap_year y) m"
proof -
  define era where "era = (days + 719468) div 146097"
  have "0 \<le> (days + 719468) mod 146097" "(days + 719468) mod 146097 < 146097" by simp_all
  from year_found [OF this] obtain k doy where k: "0 \<le> k" "k \<le> 399" "0 \<le> doy" "doy < year_days k"
    and doe: "(days + 719468) mod 146097 = year_start k + doy" by auto
  define Y where "Y = k + era * 400"
  have "days + 719468 = 146097 * era + (year_start k + doy)"
    unfolding era_def doe [symmetric] by simp
  then have now: "civil_from_days days = civil_of_doy Y doy"
    unfolding Y_def by (rule civil_from_days_at [OF _ k])
  have len: "year_days k = (if leap_year (Y + 1) then 366 else 365)"
    using leap_year_era [of "k + 1" era] by (simp add: year_days_def Y_def algebra_simps)
  obtain y0 m d where c: "civil_of_doy 0 doy = (y0, m, d)" by (cases "civil_of_doy 0 doy") auto
  have "doy < 365 \<or> leap_year (Y + 1) \<and> doy = 365" using k len by (auto split: if_splits)
  from doy_on_calendar [OF k(3) this] have "1 \<le> m \<and> m \<le> 12 \<and> 1 \<le> d \<and> d \<le> month_length (leap_year (Y + 1)) m"
    by (simp add: c)
  moreover have "month_length (leap_year (Y + y0)) m = month_length (leap_year (Y + 1)) m"
    using civil_of_doy_february [of doy y0 d] c by (cases "m = 2") (auto intro: month_length_leap)
  ultimately show ?thesis by (simp add: now civil_of_doy_shift [of Y] c)
qed

lemma div_bounds:
  fixes x q n :: int
  assumes "0 < q" "0 \<le> x" "x < q * n"
  shows "0 \<le> x div q \<and> x div q < n"
proof -
  have "x = q * (x div q) + x mod q" "0 \<le> x mod q" using assms by simp_all
  moreover have "q * n \<le> q * (x div q)" if "n \<le> x div q" using that assms(1) by simp
  ultimately have "x div q < n" using assms(3) by linarith
  then show ?thesis using assms by (simp add: pos_imp_zdiv_nonneg_iff)
qed

lemma broken_down_on_calendar: "on_calendar (broken_down t)"
proof -
  have "0 \<le> t mod 86400 div 3600 \<and> t mod 86400 div 3600 < 24"
    "0 \<le> t mod 86400 mod 3600 div 60 \<and> t mod 86400 mod 3600 div 60 < 60"
    by (rule div_bounds; simp)+
  then show ?thesis
    using civil_from_days_valid [of "t div 86400"]
    by (simp add: on_calendar_def broken_down_def Let_def split: prod.splits)
qed

lemma weekday_Suc: "((n + 1) mod 7 + 4) mod 7 = ((n mod 7 + 4) mod 7 + 1) mod (7 :: int)"
  by (simp add: mod_simps add.commute add.left_commute)

text \<open>The second after \<open>s\<close> of the day, which is not the last one.\<close>

lemma broken_down_Suc: "broken_down (t + 1) = tick (broken_down t)"
proof (cases "t mod 86400 = 86399")
  case True
  then have "(t + 1) div 86400 = t div 86400 + 1" "(t + 1) mod 86400 = 0"
    using div_mod_Suc [of 86400 t] by simp_all
  then show ?thesis
    by (simp add: broken_down_def Let_def True tick_def civil_from_days_Suc weekday_Suc)
next
  case False
  define s r where "s = t mod 86400" and "r = s mod 3600"
  define h mi sec where "h = s div 3600" and "mi = r div 60" and "sec = r mod 60"
  have day: "(t + 1) div 86400 = t div 86400" "(t + 1) mod 86400 = s + 1"
    using False div_mod_Suc [of 86400 t] by (simp_all add: s_def)
  have secs: "s mod 60 = sec" by (simp add: r_def sec_def mod_mod_cancel)
  have s: "0 \<le> s" "s < 86399" using False by (simp_all add: s_def order_less_le)
  have h: "s = 3600 * h + r" "0 \<le> r" "r < 3600" by (simp_all add: r_def h_def)
  have m: "r = 60 * mi + sec" "0 \<le> sec" "sec < 60" by (simp_all add: mi_def sec_def)
  have last: "r = 3599 \<longleftrightarrow> sec = 59 \<and> mi = 59"
  proof
    assume "r = 3599"
    then show "sec = 59 \<and> mi = 59" by (simp add: sec_def mi_def)
  next
    assume "sec = 59 \<and> mi = 59"
    then show "r = 3599" using m by simp
  qed
  have hour: "r = 3599 \<Longrightarrow> h < 23"
    using h s by linarith
  have now: "broken_down t = ((t div 86400 mod 7 + 4) mod 7, civil_from_days (t div 86400), (h, mi, sec))"
    by (simp add: broken_down_def Let_def s_def [symmetric] h_def [symmetric] r_def [symmetric]
        mi_def [symmetric] secs)
  have next_s: "(s + 1) div 3600 = (if r = 3599 then h + 1 else h)" "(s + 1) mod 3600 = (if r = 3599 then 0 else r + 1)"
    "(s + 1) mod 60 = (if sec = 59 then 0 else sec + 1)"
    using div_mod_Suc [of 3600 s] div_mod_Suc(2) [of 60 s] secs by (simp_all add: r_def h_def)
  have next_r: "(r + 1) div 60 = (if sec = 59 then mi + 1 else mi)"
    using div_mod_Suc(1) [of 60 r] by (simp add: mi_def sec_def)
  have later: "broken_down (t + 1) = ((t div 86400 mod 7 + 4) mod 7, civil_from_days (t div 86400),
      (if r = 3599 then h + 1 else h, (if r = 3599 then 0 else r + 1) div 60, if sec = 59 then 0 else sec + 1))"
    by (simp add: broken_down_def Let_def day next_s)
  have "mi \<le> 59" using m h by linarith
  then show ?thesis
    unfolding later now using last hour next_r m by (auto simp: tick_def)
qed

section \<open>Properties\<close>

text \<open>
  C25. The date in a header field is the one on the calendar: the formatter prints the reading of a
  clock that shows Thursday 1 January 1970, 00:00:00, at the timestamp 0 and of which the reading one
  second later is the next one, through every minute, hour, day, month and leap year, and that never shows a
  reading off the calendar, before the epoch neither.
\<close>

theorem imf_fixdate_calendar:
  "\<exists>clock. clock 0 = (4, (1970, 1, 1), (0, 0, 0)) \<and>
     (\<forall>t. clock (t + 1) = tick (clock t)) \<and> (\<forall>t. on_calendar (clock t)) \<and>
     (\<forall>t. format_imf_fixdate t = print_fixdate (clock t))"
proof (intro exI [of _ broken_down] conjI allI)
  show "broken_down 0 = (4, (1970, 1, 1), (0, 0, 0))"
    using civil_from_days_at [of 0 4 369 306]
    by (simp add: broken_down_def Let_def year_start_def year_days_def leap_year_def civil_of_doy_def)
  show "broken_down (t + 1) = tick (broken_down t)" for t
    by (rule broken_down_Suc)
  show "on_calendar (broken_down t)" for t
    by (rule broken_down_on_calendar)
  show "format_imf_fixdate t = print_fixdate (broken_down t)" for t
    by (simp only: format_imf_fixdate_def)
qed

end
