(* ===== verification/Session.thy ===== *)
theory Session
  imports Text "HOL-Library.AList"
begin

text \<open>
  HTTP sessions: \<open>crates/tomcatrs-session/src/lib.rs\<close>, \<open>manager.rs\<close>, \<open>store_memory.rs\<close> and
  \<open>store_file.rs\<close>. Times are nanoseconds from the Unix epoch and durations nanoseconds; the clock and
  the random bytes of an operation are its arguments. The trait \<open>SessionStore\<close> is a record of
  operations, and what it promises its manager a locale, which both stores satisfy.
\<close>

section \<open>Session data\<close>

record SessionData =
  sd_id :: string
  sd_created :: int
  sd_last_accessed :: int
  sd_max_inactive :: nat
  sd_attributes :: "(string \<times> string) list"

definition DEFAULT_MAX_INACTIVE_INTERVAL :: nat where
  "DEFAULT_MAX_INACTIVE_INTERVAL = 30 * 60 * 10 ^ 9"

definition session_new :: "string \<Rightarrow> int \<Rightarrow> SessionData" where
  "session_new sid now =
    \<lparr>sd_id = sid, sd_created = now, sd_last_accessed = now, sd_max_inactive = DEFAULT_MAX_INACTIVE_INTERVAL,
     sd_attributes = []\<rparr>"

definition is_expired :: "int \<Rightarrow> SessionData \<Rightarrow> bool" where
  "is_expired now d =
    (if sd_max_inactive d = 0 then False
     else if sd_last_accessed d \<le> now then int (sd_max_inactive d) < now - sd_last_accessed d
     else False)"

definition touch :: "int \<Rightarrow> SessionData \<Rightarrow> SessionData" where
  "touch now d = d\<lparr>sd_last_accessed := now\<rparr>"

definition hex_upper :: "u8 \<Rightarrow> string" where
  "hex_upper b = to_ascii_uppercase [hex_char (unat b div 16), hex_char (unat b mod 16)]"

text \<open>The 16 random bytes are the argument.\<close>

definition generate_session_id :: "bytes \<Rightarrow> string" where
  "generate_session_id random = concat (map hex_upper random)"

section \<open>Stores\<close>

text \<open>
  The trait: a store of type \<open>'s\<close> and its operations; the last one is what a manager finds by casting
  to \<open>MemorySessionStore\<close>, its inherent \<open>reap\<close>.
\<close>

record 's SessionStoreOps =
  st_load :: "'s \<Rightarrow> string \<Rightarrow> 's \<times> (Error + SessionData option)"
  st_save :: "'s \<Rightarrow> SessionData \<Rightarrow> 's \<times> (Error + unit)"
  st_delete :: "'s \<Rightarrow> string \<Rightarrow> 's \<times> (Error + unit)"
  st_load_all :: "'s \<Rightarrow> Error + SessionData list"
  st_reap :: "(int \<Rightarrow> 's \<Rightarrow> 's \<times> nat) option"

type_synonym MemoryStore = "(string \<times> SessionData) list"

definition memory_reap :: "int \<Rightarrow> MemoryStore \<Rightarrow> MemoryStore \<times> nat" where
  "memory_reap now s =
    (let expired = map fst (filter (\<lambda>e. is_expired now (snd e)) s) in (fold AList.delete expired s, length expired))"

definition memory_load :: "MemoryStore \<Rightarrow> string \<Rightarrow> MemoryStore \<times> (Error + SessionData option)" where
  "memory_load s sid = (s, Ok (map_of s sid))"

definition memory_save :: "MemoryStore \<Rightarrow> SessionData \<Rightarrow> MemoryStore \<times> (Error + unit)" where
  "memory_save s d = (AList.update (sd_id d) d s, Ok ())"

definition memory_delete :: "MemoryStore \<Rightarrow> string \<Rightarrow> MemoryStore \<times> (Error + unit)" where
  "memory_delete s sid = (AList.delete sid s, Ok ())"

definition memory_load_all :: "MemoryStore \<Rightarrow> Error + SessionData list" where
  "memory_load_all s = Ok (map snd s)"

definition memory_store :: "MemoryStore SessionStoreOps" where
  "memory_store =
    \<lparr>st_load = memory_load, st_save = memory_save, st_delete = memory_delete, st_load_all = memory_load_all,
     st_reap = Some memory_reap\<rparr>"

text \<open>
  The file store. A file holds the document of a session, the integers of the serialised form, or
  something else; the JSON text is not modelled. The files are those of the whole file system, by path.
\<close>

record StoredSession =
  ss_id :: string
  ss_created :: nat
  ss_last_accessed :: nat
  ss_max_inactive :: nat
  ss_attributes :: "(string \<times> string) list"

datatype FileContent = Document StoredSession | Corrupt string | Directory

definition epoch_millis :: "int \<Rightarrow> nat" where
  "epoch_millis t = (if 0 \<le> t then nat (t div 10 ^ 6) mod 2 ^ 64 else 0)"

definition to_document :: "SessionData \<Rightarrow> StoredSession" where
  "to_document d =
    \<lparr>ss_id = sd_id d, ss_created = epoch_millis (sd_created d), ss_last_accessed = epoch_millis (sd_last_accessed d),
     ss_max_inactive = sd_max_inactive d div 10 ^ 9, ss_attributes = sd_attributes d\<rparr>"

definition from_document :: "StoredSession \<Rightarrow> SessionData" where
  "from_document s =
    \<lparr>sd_id = ss_id s, sd_created = int (ss_created s) * 10 ^ 6, sd_last_accessed = int (ss_last_accessed s) * 10 ^ 6,
     sd_max_inactive = ss_max_inactive s * 10 ^ 9, sd_attributes = ss_attributes s\<rparr>"

record FileStore =
  fs_dir :: string
  fs_files :: "(string \<times> FileContent) list"

definition is_ascii_alphanumeric :: "char \<Rightarrow> bool" where
  "is_ascii_alphanumeric c \<longleftrightarrow>
    (let n = (of_char c :: nat) in 48 \<le> n \<and> n \<le> 57 \<or> 65 \<le> n \<and> n \<le> 90 \<or> 97 \<le> n \<and> n \<le> 122)"

definition is_safe_id :: "string \<Rightarrow> bool" where
  "is_safe_id sid \<longleftrightarrow> sid \<noteq> [] \<and> list_all (\<lambda>c. is_ascii_alphanumeric c \<or> c = CHR ''-'' \<or> c = CHR ''_'') sid"

text \<open>The quotes of the debug format; its escapes are not modelled.\<close>

definition quoted :: "string \<Rightarrow> string" where
  "quoted s = CHR 0x22 # s @ [CHR 0x22]"

definition path_for :: "FileStore \<Rightarrow> string \<Rightarrow> Error + string" where
  "path_for s sid =
    (if \<not> is_safe_id sid then Err (Other (''refusing to use unsafe session id as a file name: '' @ quoted sid))
     else Ok (fs_dir s @ ''/'' @ sid @ ''.json''))"

definition read_document :: "string \<Rightarrow> FileContent \<Rightarrow> Error + SessionData" where
  "read_document p f =
    (case f of
       Document s \<Rightarrow> Ok (from_document s)
     | Corrupt why \<Rightarrow> Err (Other (''corrupt session file '' @ quoted p @ '': '' @ why))
     | Directory \<Rightarrow> Err (Io ''is a directory''))"

definition file_load :: "FileStore \<Rightarrow> string \<Rightarrow> FileStore \<times> (Error + SessionData option)" where
  "file_load s sid =
    (s, and_then (path_for s sid) (\<lambda>p.
      (case map_of (fs_files s) p of
         None \<Rightarrow> Ok None
       | Some f \<Rightarrow> and_then (read_document p f) (\<lambda>d. Ok (Some d)))))"

definition file_save :: "FileStore \<Rightarrow> SessionData \<Rightarrow> FileStore \<times> (Error + unit)" where
  "file_save s d =
    (case path_for s (sd_id d) of
       Inl e \<Rightarrow> (s, Err e)
     | Inr p \<Rightarrow>
         if map_of (fs_files s) p = Some Directory then (s, Err (Io ''is a directory''))
         else (s\<lparr>fs_files := AList.update p (Document (to_document d)) (fs_files s)\<rparr>, Ok ()))"

definition file_delete :: "FileStore \<Rightarrow> string \<Rightarrow> FileStore \<times> (Error + unit)" where
  "file_delete s sid =
    (case path_for s sid of
       Inl e \<Rightarrow> (s, Err e)
     | Inr p \<Rightarrow>
         if map_of (fs_files s) p = Some Directory then (s, Err (Io ''is a directory''))
         else (s\<lparr>fs_files := AList.delete p (fs_files s)\<rparr>, Ok ()))"

text \<open>\<open>read_dir\<close> gives the entries right below the directory; the extension is what follows the last dot.\<close>

definition in_dir :: "string \<Rightarrow> string \<Rightarrow> bool" where
  "in_dir dir p \<longleftrightarrow> (case strip_prefix (dir @ ''/'') p of None \<Rightarrow> False | Some n \<Rightarrow> n \<noteq> [] \<and> CHR ''/'' \<notin> set n)"

definition has_json_extension :: "string \<Rightarrow> bool" where
  "has_json_extension p \<longleftrightarrow>
    (case rsplit_once CHR ''.'' (last (split_on CHR ''/'' p)) of
       None \<Rightarrow> False
     | Some (stem, ext) \<Rightarrow> stem \<noteq> [] \<and> ext = ''json'')"

fun scan_entries :: "string \<Rightarrow> (string \<times> FileContent) list \<Rightarrow> Error + SessionData list" where
  "scan_entries dir [] = Ok []"
| "scan_entries dir ((p, f) # entries) =
    (if \<not> in_dir dir p \<or> \<not> has_json_extension p \<or> f = Directory then scan_entries dir entries
     else
       and_then (read_document p f) (\<lambda>d.
       and_then (scan_entries dir entries) (\<lambda>ds. Ok (d # ds))))"

definition file_load_all :: "FileStore \<Rightarrow> Error + SessionData list" where
  "file_load_all s = scan_entries (fs_dir s) (fs_files s)"

definition file_store :: "FileStore SessionStoreOps" where
  "file_store =
    \<lparr>st_load = file_load, st_save = file_save, st_delete = file_delete, st_load_all = file_load_all, st_reap = None\<rparr>"

section \<open>The manager\<close>

text \<open>The index is a set, of which the order of iteration is unspecified; here it is a list without repetition.\<close>

record 's SessionManager =
  sm_store :: 's
  sm_index :: "string list"

definition manager_new :: "'s \<Rightarrow> 's SessionManager" where
  "manager_new store = \<lparr>sm_store = store, sm_index = []\<rparr>"

definition index_insert :: "string \<Rightarrow> 's SessionManager \<Rightarrow> 's SessionManager" where
  "index_insert sid m = m\<lparr>sm_index := List.insert sid (sm_index m)\<rparr>"

definition index_remove :: "string \<Rightarrow> 's SessionManager \<Rightarrow> 's SessionManager" where
  "index_remove sid m = m\<lparr>sm_index := remove1 sid (sm_index m)\<rparr>"

definition manager_save ::
    "'s SessionStoreOps \<Rightarrow> SessionData \<Rightarrow> 's SessionManager \<Rightarrow> 's SessionManager \<times> (Error + unit)" where
  "manager_save ops d m =
    (case st_save ops (sm_store m) d of
       (s, Inl e) \<Rightarrow> (m\<lparr>sm_store := s\<rparr>, Err e)
     | (s, Inr _) \<Rightarrow> (index_insert (sd_id d) (m\<lparr>sm_store := s\<rparr>), Ok ()))"

definition manager_create ::
    "'s SessionStoreOps \<Rightarrow> bytes \<Rightarrow> int \<Rightarrow> 's SessionManager \<Rightarrow> 's SessionManager \<times> (Error + SessionData)" where
  "manager_create ops random now m =
    (let sid = generate_session_id random; d = session_new sid now in
     case st_save ops (sm_store m) d of
       (s, Inl e) \<Rightarrow> (m\<lparr>sm_store := s\<rparr>, Err e)
     | (s, Inr _) \<Rightarrow> (index_insert sid (m\<lparr>sm_store := s\<rparr>), Ok d))"

definition manager_find ::
    "'s SessionStoreOps \<Rightarrow> string \<Rightarrow> 's SessionManager \<Rightarrow> 's SessionManager \<times> (Error + SessionData option)" where
  "manager_find ops sid m =
    (case st_load ops (sm_store m) sid of
       (s, Inl e) \<Rightarrow> (m\<lparr>sm_store := s\<rparr>, Err e)
     | (s, Inr None) \<Rightarrow> (m\<lparr>sm_store := s\<rparr>, Ok None)
     | (s, Inr (Some d)) \<Rightarrow> (index_insert sid (m\<lparr>sm_store := s\<rparr>), Ok (Some d)))"

definition manager_invalidate ::
    "'s SessionStoreOps \<Rightarrow> string \<Rightarrow> 's SessionManager \<Rightarrow> 's SessionManager \<times> (Error + unit)" where
  "manager_invalidate ops sid m =
    (case st_delete ops (sm_store m) sid of
       (s, Inl e) \<Rightarrow> (m\<lparr>sm_store := s\<rparr>, Err e)
     | (s, Inr _) \<Rightarrow> (index_remove sid (m\<lparr>sm_store := s\<rparr>), Ok ()))"

text \<open>The generic path of \<open>reap_expired\<close>, over the candidates.\<close>

fun reap_loop ::
    "'s SessionStoreOps \<Rightarrow> int \<Rightarrow> string list \<Rightarrow> nat \<Rightarrow> 's SessionManager \<Rightarrow> 's SessionManager \<times> (Error + nat)" where
  "reap_loop ops now [] removed m = (m, Ok removed)"
| "reap_loop ops now (sid # ids) removed m =
    (case st_load ops (sm_store m) sid of
       (s, Inl e) \<Rightarrow> (m\<lparr>sm_store := s\<rparr>, Err e)
     | (s, Inr None) \<Rightarrow> reap_loop ops now ids removed (index_remove sid (m\<lparr>sm_store := s\<rparr>))
     | (s, Inr (Some d)) \<Rightarrow>
         if is_expired now d then
           (case st_delete ops s sid of
              (s', Inl e) \<Rightarrow> (m\<lparr>sm_store := s'\<rparr>, Err e)
            | (s', Inr _) \<Rightarrow> reap_loop ops now ids (removed + 1) (index_remove sid (m\<lparr>sm_store := s'\<rparr>)))
         else reap_loop ops now ids removed (m\<lparr>sm_store := s\<rparr>))"

fun prune_index :: "'s SessionStoreOps \<Rightarrow> int \<Rightarrow> string list \<Rightarrow> 's SessionManager \<Rightarrow> 's SessionManager" where
  "prune_index ops now [] m = m"
| "prune_index ops now (sid # ids) m =
    (case st_load ops (sm_store m) sid of
       (s, Inl _) \<Rightarrow> prune_index ops now ids (m\<lparr>sm_store := s\<rparr>)
     | (s, Inr None) \<Rightarrow> prune_index ops now ids (index_remove sid (m\<lparr>sm_store := s\<rparr>))
     | (s, Inr (Some d)) \<Rightarrow>
         prune_index ops now ids
           (if is_expired now d then index_remove sid (m\<lparr>sm_store := s\<rparr>) else m\<lparr>sm_store := s\<rparr>))"

definition reap_expired ::
    "'s SessionStoreOps \<Rightarrow> int \<Rightarrow> 's SessionManager \<Rightarrow> 's SessionManager \<times> (Error + nat)" where
  "reap_expired ops now m =
    (case st_reap ops of
       Some reap \<Rightarrow>
         (case reap now (sm_store m) of
            (s, removed) \<Rightarrow>
              let m1 = m\<lparr>sm_store := s\<rparr> in
              (if 0 < removed then prune_index ops now (sm_index m1) m1 else m1, Ok removed))
     | None \<Rightarrow> reap_loop ops now (sm_index m) 0 m)"

definition not_supported :: string where
  "not_supported = ''load_all not supported''"

definition reload_all :: "'s SessionStoreOps \<Rightarrow> 's SessionManager \<Rightarrow> 's SessionManager \<times> (Error + nat)" where
  "reload_all ops m =
    (case st_load_all ops (sm_store m) of
       Inl (Other msg) \<Rightarrow> (m, if contains_str not_supported msg then Ok 0 else Err (Other msg))
     | Inl e \<Rightarrow> (m, Err e)
     | Inr sessions \<Rightarrow> (fold (\<lambda>d. index_insert (sd_id d)) sessions m, Ok (length sessions)))"

fun persist_loop ::
    "'s SessionStoreOps \<Rightarrow> string list \<Rightarrow> nat \<Rightarrow> 's SessionManager \<Rightarrow> 's SessionManager \<times> (Error + nat)" where
  "persist_loop ops [] persisted m = (m, Ok persisted)"
| "persist_loop ops (sid # ids) persisted m =
    (case st_load ops (sm_store m) sid of
       (s, Inl e) \<Rightarrow> (m\<lparr>sm_store := s\<rparr>, Err e)
     | (s, Inr (Some d)) \<Rightarrow>
         (case st_save ops s d of
            (s', Inl e) \<Rightarrow> (m\<lparr>sm_store := s'\<rparr>, Err e)
          | (s', Inr _) \<Rightarrow> persist_loop ops ids (persisted + 1) (m\<lparr>sm_store := s'\<rparr>))
     | (s, Inr None) \<Rightarrow> persist_loop ops ids persisted (index_remove sid (m\<lparr>sm_store := s\<rparr>)))"

definition persist_all :: "'s SessionStoreOps \<Rightarrow> 's SessionManager \<Rightarrow> 's SessionManager \<times> (Error + nat)" where
  "persist_all ops m = persist_loop ops (sm_index m) 0 m"

end
