(* ===== verification/SessionManager.thy ===== *)
theory SessionManager
  imports Session
begin

text \<open>
  What a session store promises and what the manager makes of it: the contract of \<open>SessionStore\<close> as a
  locale, the manager's operations proved against an abstract map of sessions inside it, and the
  interpretations on the memory store and the file store.
\<close>

section \<open>What a store promises\<close>

definition expired_ids :: "int \<Rightarrow> (string \<rightharpoonup> SessionData) \<Rightarrow> string set" where
  "expired_ids now M = {i. \<exists>d. M i = Some d \<and> is_expired now d}"

text \<open>
  The contract of \<open>SessionStore\<close>: a well-formed store holds a finite map from identifiers to sessions,
  for the identifiers it takes, and keeps of a session what its format can express.
\<close>

locale session_store =
  fixes ops :: "'s SessionStoreOps" and ok :: "'s \<Rightarrow> bool" and content :: "'s \<Rightarrow> string \<rightharpoonup> SessionData"
    and good :: "string \<Rightarrow> bool" and kept :: "SessionData \<Rightarrow> SessionData"
  assumes load: "ok s \<Longrightarrow> good i \<Longrightarrow> st_load ops s i = (s, Ok (content s i))"
    and save: "ok s \<Longrightarrow> good (sd_id d) \<Longrightarrow>
      \<exists>s'. st_save ops s d = (s', Ok ()) \<and> ok s' \<and> content s' = (content s)(sd_id d \<mapsto> kept d)"
    and delete: "ok s \<Longrightarrow> good i \<Longrightarrow>
      \<exists>s'. st_delete ops s i = (s', Ok ()) \<and> ok s' \<and> content s' = (content s)(i := None)"
    and load_all: "ok s \<Longrightarrow>
      \<exists>ds. st_load_all ops s = Ok ds \<and> sd_id ` set ds = dom (content s) \<and> distinct (map sd_id ds)"
    and reap: "st_reap ops = Some reap \<Longrightarrow> ok s \<Longrightarrow>
      \<exists>s'. reap now s = (s', card (expired_ids now (content s))) \<and> ok s' \<and>
        content s' = content s |` (- expired_ids now (content s))"
    and stored: "ok s \<Longrightarrow> content s i = Some d \<Longrightarrow> sd_id d = i \<and> good i \<and> kept d = d"
    and finite_content: "ok s \<Longrightarrow> finite (dom (content s))"

text \<open>The calls of a manager, and what they do to the map it manages.\<close>

datatype SessionOp =
    OpCreate bytes int
  | OpFind string
  | OpSave SessionData
  | OpInvalidate string
  | OpReap int
  | OpReload
  | OpPersist

datatype SessionReply = Created SessionData | Found "SessionData option" | Done | Count nat

definition replying :: "('a \<Rightarrow> SessionReply) \<Rightarrow> 's SessionManager \<times> (Error + 'a) \<Rightarrow> 's SessionManager \<times> (Error + SessionReply)" where
  "replying f r = (fst r, and_then (snd r) (\<lambda>x. Ok (f x)))"

fun manager_step :: "'s SessionStoreOps \<Rightarrow> SessionOp \<Rightarrow> 's SessionManager \<Rightarrow> 's SessionManager \<times> (Error + SessionReply)" where
  "manager_step ops (OpCreate random now) m = replying Created (manager_create ops random now m)"
| "manager_step ops (OpFind i) m = replying Found (manager_find ops i m)"
| "manager_step ops (OpSave d) m = replying (\<lambda>_. Done) (manager_save ops d m)"
| "manager_step ops (OpInvalidate i) m = replying (\<lambda>_. Done) (manager_invalidate ops i m)"
| "manager_step ops (OpReap now) m = replying Count (reap_expired ops now m)"
| "manager_step ops OpReload m = replying Count (reload_all ops m)"
| "manager_step ops OpPersist m = replying Count (persist_all ops m)"

fun spec_step :: "(SessionData \<Rightarrow> SessionData) \<Rightarrow> SessionOp \<Rightarrow> (string \<rightharpoonup> SessionData) \<Rightarrow>
    (string \<rightharpoonup> SessionData) \<times> SessionReply" where
  "spec_step kept (OpCreate random now) M =
    (let d = session_new (generate_session_id random) now in (M(sd_id d \<mapsto> kept d), Created d))"
| "spec_step kept (OpFind i) M = (M, Found (M i))"
| "spec_step kept (OpSave d) M = (M(sd_id d \<mapsto> kept d), Done)"
| "spec_step kept (OpInvalidate i) M = (M(i := None), Done)"
| "spec_step kept (OpReap now) M = (M |` (- expired_ids now M), Count (card (expired_ids now M)))"
| "spec_step kept OpReload M = (M, Count (card (dom M)))"
| "spec_step kept OpPersist M = (M, Count (card (dom M)))"

fun op_good :: "(string \<Rightarrow> bool) \<Rightarrow> SessionOp \<Rightarrow> bool" where
  "op_good good (OpCreate random now) = good (generate_session_id random)"
| "op_good good (OpFind i) = good i"
| "op_good good (OpSave d) = good (sd_id d)"
| "op_good good (OpInvalidate i) = good i"
| "op_good good _ = True"

text \<open>A manager that tracks every session of its store.\<close>

definition mgr_ok :: "('s \<Rightarrow> bool) \<Rightarrow> ('s \<Rightarrow> string \<rightharpoonup> SessionData) \<Rightarrow> (string \<Rightarrow> bool) \<Rightarrow> 's SessionManager \<Rightarrow> bool" where
  "mgr_ok ok content good m \<longleftrightarrow> ok (sm_store m) \<and> distinct (sm_index m) \<and> (\<forall>i \<in> set (sm_index m). good i) \<and>
    dom (content (sm_store m)) \<subseteq> set (sm_index m)"

lemma index_simps [simp]:
  "sm_store (index_insert i m) = sm_store m" "sm_index (index_insert i m) = List.insert i (sm_index m)"
  "sm_store (index_remove i m) = sm_store m" "sm_index (index_remove i m) = remove1 i (sm_index m)"
  by (simp_all add: index_insert_def index_remove_def)

lemma fold_index_insert:
  "sm_store (fold (\<lambda>d. index_insert (sd_id d)) ds m) = sm_store m \<and>
    set (sm_index (fold (\<lambda>d. index_insert (sd_id d)) ds m)) = set (sm_index m) \<union> sd_id ` set ds \<and>
    (distinct (sm_index m) \<longrightarrow> distinct (sm_index (fold (\<lambda>d. index_insert (sd_id d)) ds m)))"
  by (induction ds arbitrary: m) auto

context session_store
begin

lemma finite_expired: "ok s \<Longrightarrow> finite (expired_ids now (content s))"
  by (rule finite_subset [OF _ finite_content]) (auto simp: expired_ids_def)

lemma reap_loop_spec:
  assumes "ok (sm_store m)" "distinct ids" "\<forall>i \<in> set ids. good i" "distinct (sm_index m)"
  shows "\<exists>m'. reap_loop ops now ids n m = (m', Ok (n + card (expired_ids now (content (sm_store m)) \<inter> set ids))) \<and>
    ok (sm_store m') \<and> distinct (sm_index m') \<and>
    content (sm_store m') = content (sm_store m) |` (- (expired_ids now (content (sm_store m)) \<inter> set ids)) \<and>
    set (sm_index m) \<inter> dom (content (sm_store m')) \<subseteq> set (sm_index m') \<and> set (sm_index m') \<subseteq> set (sm_index m)"
  using assms
proof (induction ids arbitrary: m n)
  case Nil
  then show ?case by auto
next
  case (Cons i ids)
  let ?M = "content (sm_store m)"
  have ld: "st_load ops (sm_store m) i = (sm_store m, Ok (?M i))" using Cons.prems by (simp add: load)
  have same: "m\<lparr>sm_store := sm_store m\<rparr> = m" by simp
  show ?case
  proof (cases "?M i")
    case None
    then have E: "expired_ids now ?M \<inter> set (i # ids) = expired_ids now ?M \<inter> set ids" by (auto simp: expired_ids_def)
    obtain m' where m': "reap_loop ops now ids n (index_remove i m) = (m', Ok (n + card (expired_ids now ?M \<inter> set ids)))"
        "ok (sm_store m')" "distinct (sm_index m')"
        "content (sm_store m') = ?M |` (- (expired_ids now ?M \<inter> set ids))"
        "set (remove1 i (sm_index m)) \<inter> dom (content (sm_store m')) \<subseteq> set (sm_index m')"
        "set (sm_index m') \<subseteq> set (remove1 i (sm_index m))"
      using Cons.IH [of "index_remove i m" n] Cons.prems by auto
    have "i \<notin> dom (content (sm_store m'))" using None m'(4) by (auto simp: restrict_map_def split: if_splits)
    then show ?thesis using ld None m' Cons.prems(4) E by (auto simp: same)
  next
    case (Some d)
    show ?thesis
    proof (cases "is_expired now d")
      case True
      obtain s' where s': "st_delete ops (sm_store m) i = (s', Ok ())" "ok s'" "content s' = ?M(i := None)"
        using delete [of "sm_store m" i] Cons.prems by auto
      have E: "expired_ids now ?M \<inter> set (i # ids) = insert i (expired_ids now (?M(i := None)) \<inter> set ids)"
        using Some True Cons.prems(2) by (auto simp: expired_ids_def split: if_splits)
      have card: "card (expired_ids now ?M \<inter> set (i # ids)) = Suc (card (expired_ids now (?M(i := None)) \<inter> set ids))"
        unfolding E by (rule card_insert_disjoint) (use Cons.prems(2) in auto)
      let ?m = "index_remove i (m\<lparr>sm_store := s'\<rparr>)"
      obtain m' where m': "reap_loop ops now ids (n + 1) ?m = (m', Ok (n + 1 + card (expired_ids now (content s') \<inter> set ids)))"
          "ok (sm_store m')" "distinct (sm_index m')"
          "content (sm_store m') = content s' |` (- (expired_ids now (content s') \<inter> set ids))"
          "set (remove1 i (sm_index m)) \<inter> dom (content (sm_store m')) \<subseteq> set (sm_index m')"
          "set (sm_index m') \<subseteq> set (remove1 i (sm_index m))"
        using Cons.IH [of ?m "n + 1"] Cons.prems s'(1,2) by auto
      have c: "content (sm_store m') = ?M |` (- (expired_ids now ?M \<inter> set (i # ids)))"
        unfolding E m'(4) s'(3) by (auto simp: restrict_map_def fun_eq_iff)
      then have "i \<notin> dom (content (sm_store m'))"
        using Some True by (auto simp: restrict_map_def expired_ids_def split: if_splits)
      then show ?thesis using ld Some True s' m' Cons.prems(4) card c by auto
    next
      case False
      have E: "expired_ids now ?M \<inter> set (i # ids) = expired_ids now ?M \<inter> set ids"
        using Some False by (auto simp: expired_ids_def)
      show ?thesis using Cons.IH [of m n] Cons.prems ld Some False E by (auto simp: same)
    qed
  qed
qed

lemma prune_index_spec:
  assumes "ok (sm_store m)" "\<forall>i \<in> set ids. good i" "distinct (sm_index m)"
    and "\<And>i d. content (sm_store m) i = Some d \<Longrightarrow> \<not> is_expired now d"
  shows "sm_store (prune_index ops now ids m) = sm_store m \<and> distinct (sm_index (prune_index ops now ids m)) \<and>
    set (sm_index m) \<inter> dom (content (sm_store m)) \<subseteq> set (sm_index (prune_index ops now ids m)) \<and>
    set (sm_index (prune_index ops now ids m)) \<subseteq> set (sm_index m)"
  using assms
proof (induction ids arbitrary: m)
  case (Cons i ids)
  have ld: "st_load ops (sm_store m) i = (sm_store m, Ok (content (sm_store m) i))" using Cons.prems by (simp add: load)
  show ?case
  proof (cases "content (sm_store m) i")
    case None
    let ?m = "index_remove i m"
    have e: "prune_index ops now (i # ids) m = prune_index ops now ids ?m" using ld None by simp
    have "set (sm_index m) \<inter> dom (content (sm_store m)) \<subseteq> set (sm_index ?m) \<inter> dom (content (sm_store ?m))"
      using None Cons.prems(3) by auto
    moreover have "set (sm_index ?m) \<subseteq> set (sm_index m)" by (simp add: set_remove1_subset)
    moreover have "sm_store (prune_index ops now ids ?m) = sm_store m \<and> distinct (sm_index (prune_index ops now ids ?m)) \<and>
      set (sm_index ?m) \<inter> dom (content (sm_store m)) \<subseteq> set (sm_index (prune_index ops now ids ?m)) \<and>
      set (sm_index (prune_index ops now ids ?m)) \<subseteq> set (sm_index ?m)"
      using Cons.IH [of ?m] Cons.prems by simp
    ultimately show ?thesis unfolding e by (simp only: index_simps) blast
  next
    case (Some d)
    then show ?thesis using Cons.IH [of m] Cons.prems ld by auto
  qed
qed auto

lemma persist_loop_spec:
  assumes "ok (sm_store m)" "distinct ids" "\<forall>i \<in> set ids. good i" "distinct (sm_index m)"
  shows "\<exists>m'. persist_loop ops ids n m = (m', Ok (n + card (dom (content (sm_store m)) \<inter> set ids))) \<and>
    ok (sm_store m') \<and> distinct (sm_index m') \<and> content (sm_store m') = content (sm_store m) \<and>
    set (sm_index m) \<inter> dom (content (sm_store m)) \<subseteq> set (sm_index m') \<and> set (sm_index m') \<subseteq> set (sm_index m)"
  using assms
proof (induction ids arbitrary: m n)
  case (Cons i ids)
  let ?M = "content (sm_store m)"
  have ld: "st_load ops (sm_store m) i = (sm_store m, Ok (?M i))" using Cons.prems by (simp add: load)
  show ?case
  proof (cases "?M i")
    case None
    then have E: "dom ?M \<inter> set (i # ids) = dom ?M \<inter> set ids" by auto
    let ?m = "index_remove i m"
    have e: "persist_loop ops (i # ids) n m = persist_loop ops ids n ?m" using ld None by simp
    have "set (sm_index m) \<inter> dom ?M \<subseteq> set (sm_index ?m) \<inter> dom (content (sm_store ?m))"
      using None Cons.prems(4) by auto
    moreover have "set (sm_index ?m) \<subseteq> set (sm_index m)" by (simp add: set_remove1_subset)
    moreover obtain m' where "persist_loop ops ids n ?m = (m', Ok (n + card (dom ?M \<inter> set ids)))"
        "ok (sm_store m')" "distinct (sm_index m')" "content (sm_store m') = ?M"
        "set (sm_index ?m) \<inter> dom ?M \<subseteq> set (sm_index m')" "set (sm_index m') \<subseteq> set (sm_index ?m)"
      using Cons.IH [of ?m n] Cons.prems by auto
    ultimately show ?thesis unfolding e E by (intro exI [of _ m']) (simp, blast)
  next
    case (Some d)
    note st = stored [OF Cons.prems(1) Some]
    obtain s' where s': "st_save ops (sm_store m) d = (s', Ok ())" "ok s'" "content s' = ?M"
      using save [of "sm_store m" d] Cons.prems st Some by (auto simp: fun_upd_idem)
    have "card (dom ?M \<inter> set (i # ids)) = Suc (card (dom ?M \<inter> set ids))"
    proof -
      have "dom ?M \<inter> set (i # ids) = insert i (dom ?M \<inter> set ids)" using Some by auto
      then show ?thesis using Cons.prems(2) by simp
    qed
    then show ?thesis using Cons.IH [of "m\<lparr>sm_store := s'\<rparr>" "n + 1"] Cons.prems ld Some s' by auto
  qed
qed auto

lemma reap_expired_spec:
  assumes "mgr_ok ok content good m"
  shows "\<exists>m'. reap_expired ops now m = (m', Ok (card (expired_ids now (content (sm_store m))))) \<and> ok (sm_store m') \<and>
    distinct (sm_index m') \<and> content (sm_store m') = content (sm_store m) |` (- expired_ids now (content (sm_store m))) \<and>
    dom (content (sm_store m) |` (- expired_ids now (content (sm_store m)))) \<subseteq> set (sm_index m') \<and>
    set (sm_index m') \<subseteq> set (sm_index m)"
proof -
  let ?M = "content (sm_store m)"
  let ?M' = "?M |` (- expired_ids now ?M)"
  have o: "ok (sm_store m)" "distinct (sm_index m)" "\<forall>i \<in> set (sm_index m). good i" "dom ?M \<subseteq> set (sm_index m)"
    using assms by (simp_all add: mgr_ok_def)
  have d: "dom ?M' \<subseteq> set (sm_index m)" using o(4) by auto
  show ?thesis
  proof (cases "st_reap ops")
    case None
    have E: "expired_ids now ?M \<inter> set (sm_index m) = expired_ids now ?M" using o(4) by (auto simp: expired_ids_def)
    obtain m' where m': "reap_loop ops now (sm_index m) 0 m = (m', Ok (card (expired_ids now ?M)))" "ok (sm_store m')"
        "distinct (sm_index m')" "content (sm_store m') = ?M'"
        "set (sm_index m) \<inter> dom (content (sm_store m')) \<subseteq> set (sm_index m')" "set (sm_index m') \<subseteq> set (sm_index m)"
      using reap_loop_spec [OF o(1,2,3,2), of now 0, unfolded E] by auto
    have "dom ?M' \<subseteq> set (sm_index m')" using m'(4,5) d by (metis inf.absorb_iff2)
    moreover have "reap_expired ops now m = (m', Ok (card (expired_ids now ?M)))"
      using None m'(1) by (simp add: reap_expired_def)
    ultimately show ?thesis using m'(2-4,6) by blast
  next
    case (Some rp)
    obtain s' where s': "rp now (sm_store m) = (s', card (expired_ids now ?M))" "ok s'" "content s' = ?M'"
      using reap [OF Some o(1)] by blast
    let ?m = "m\<lparr>sm_store := s'\<rparr>"
    have live: "\<not> is_expired now x" if "content (sm_store ?m) i = Some x" for i x
      using that by (auto simp: s'(3) restrict_map_def expired_ids_def split: if_splits)
    let ?p = "prune_index ops now (sm_index m) ?m"
    have p: "sm_store ?p = s'" "distinct (sm_index ?p)" "set (sm_index m) \<inter> dom ?M' \<subseteq> set (sm_index ?p)"
        "set (sm_index ?p) \<subseteq> set (sm_index m)"
      using prune_index_spec [of ?m "sm_index m" now] o(2,3) s'(2,3) live by simp_all
    show ?thesis
    proof (cases "0 < card (expired_ids now ?M)")
      case True
      then have "reap_expired ops now m = (?p, Ok (card (expired_ids now ?M)))"
        using Some s'(1) by (simp add: reap_expired_def Let_def)
      moreover have "dom ?M' \<subseteq> set (sm_index ?p)" using p(3) d by (metis inf.absorb_iff2)
      ultimately show ?thesis using s'(2,3) p(1,2,4) by (intro exI [of _ ?p]) simp
    next
      case False
      then have "reap_expired ops now m = (?m, Ok (card (expired_ids now ?M)))"
        using Some s'(1) by (simp add: reap_expired_def Let_def)
      then show ?thesis using s'(2,3) o(2) d by (intro exI [of _ ?m]) simp
    qed
  qed
qed

lemma manager_step_refines:
  assumes m: "mgr_ok ok content good m" and g: "op_good good opr"
  shows "\<exists>m' r. manager_step ops opr m = (m', Ok r) \<and> mgr_ok ok content good m' \<and>
    spec_step kept opr (content (sm_store m)) = (content (sm_store m'), r)"
proof -
  let ?M = "content (sm_store m)"
  have o: "ok (sm_store m)" "distinct (sm_index m)" "\<forall>i \<in> set (sm_index m). good i" "dom ?M \<subseteq> set (sm_index m)"
    using m by (simp_all add: mgr_ok_def)
  have t: "i \<in> set (sm_index m)" if "?M i = Some d" for i d using that o(4) by blast
  show ?thesis
  proof (cases opr)
    case (OpCreate random now)
    let ?d = "session_new (generate_session_id random) now"
    have "sd_id ?d = generate_session_id random" by (simp add: session_new_def)
    then show ?thesis using save [of "sm_store m" ?d] o g t OpCreate
      by (auto simp: manager_create_def replying_def Let_def mgr_ok_def split: prod.splits if_splits)
  next
    case (OpFind i)
    then show ?thesis using load [of "sm_store m" i] o g
      by (cases "?M i") (auto simp: manager_find_def replying_def mgr_ok_def)
  next
    case (OpSave d)
    then show ?thesis using save [of "sm_store m" d] o g t
      by (auto simp: manager_save_def replying_def mgr_ok_def split: prod.splits if_splits)
  next
    case (OpInvalidate i)
    then show ?thesis using delete [of "sm_store m" i] o g t
      by (auto simp: manager_invalidate_def replying_def mgr_ok_def split: prod.splits if_splits)
  next
    case OpReload
    obtain ds where ds: "st_load_all ops (sm_store m) = Ok ds" "sd_id ` set ds = dom ?M" "distinct (map sd_id ds)"
      using load_all [OF o(1)] by blast
    have "card (dom ?M) = length ds" using ds(2,3) by (metis distinct_card length_map set_map)
    moreover have "\<forall>i \<in> dom ?M. good i" using stored [OF o(1)] by blast
    ultimately show ?thesis using OpReload ds o fold_index_insert [of ds m]
      by (auto simp: reload_all_def replying_def mgr_ok_def)
  next
    case OpPersist
    have E: "dom ?M \<inter> set (sm_index m) = dom ?M" using o(4) by blast
    obtain m' where m': "persist_loop ops (sm_index m) 0 m = (m', Ok (card (dom ?M)))" "ok (sm_store m')"
        "distinct (sm_index m')" "content (sm_store m') = ?M" "set (sm_index m) \<inter> dom ?M \<subseteq> set (sm_index m')"
        "set (sm_index m') \<subseteq> set (sm_index m)"
      using persist_loop_spec [of m "sm_index m" 0] o E by auto
    have "dom (content (sm_store m')) \<subseteq> set (sm_index m')" unfolding m'(4) using m'(5) E by blast
    then have "mgr_ok ok content good m'" using m' o(3) by (auto simp: mgr_ok_def)
    then show ?thesis using OpPersist m'(1,4) by (simp add: persist_all_def replying_def)
  next
    case (OpReap now)
    let ?M' = "?M |` (- expired_ids now ?M)"
    have "\<exists>m'. reap_expired ops now m = (m', Ok (card (expired_ids now ?M))) \<and> ok (sm_store m') \<and>
      distinct (sm_index m') \<and> content (sm_store m') = ?M' \<and> dom ?M' \<subseteq> set (sm_index m') \<and>
      set (sm_index m') \<subseteq> set (sm_index m)"
      by (rule reap_expired_spec [OF m])
    then obtain m' where m': "reap_expired ops now m = (m', Ok (card (expired_ids now ?M)))" "ok (sm_store m')"
      "distinct (sm_index m')" "content (sm_store m') = ?M'" "dom ?M' \<subseteq> set (sm_index m')"
      "set (sm_index m') \<subseteq> set (sm_index m)" by blast
    have "mgr_ok ok content good m'" unfolding mgr_ok_def m'(4) using m'(2,3,5,6) o(3) by blast
    then show ?thesis using OpReap m'(1,4) by (simp add: replying_def)
  qed
qed

end

end
