(* ===== verification/SessionStores.thy ===== *)
theory SessionStores
  imports SessionManager
begin

text \<open>
  The memory store and the file store satisfy the contract of \<open>SessionManager\<close>, and what follows for
  histories of calls (\<open>crates/tomcatrs-session/src/store_memory.rs\<close>, \<open>store_file.rs\<close>, \<open>manager.rs\<close>).
\<close>

lemma last_split_on: "c \<notin> set t \<Longrightarrow> last (split_on c (s @ c # t)) = t"
  by (simp add: split_on_at)

lemma rsplit_once_append: "c \<notin> set t \<Longrightarrow> rsplit_once c (s @ c # t) = Some (s, t)"
  using str_find_append [of c "rev t" "rev s"] by (simp add: rsplit_once_def)

section \<open>Histories\<close>

fun manager_run :: "'s SessionStoreOps \<Rightarrow> SessionOp list \<Rightarrow> 's SessionManager \<Rightarrow> (Error + SessionReply) list" where
  "manager_run ops [] m = []"
| "manager_run ops (opr # oprs) m = (case manager_step ops opr m of (m', r) \<Rightarrow> r # manager_run ops oprs m')"

fun spec_run :: "(SessionData \<Rightarrow> SessionData) \<Rightarrow> SessionOp list \<Rightarrow> (string \<rightharpoonup> SessionData) \<Rightarrow> SessionReply list" where
  "spec_run kept [] M = []"
| "spec_run kept (opr # oprs) M = (case spec_step kept opr M of (M', r) \<Rightarrow> r # spec_run kept oprs M')"

context session_store
begin

lemma manager_run_refines:
  "mgr_ok ok content good m \<Longrightarrow> list_all (op_good good) oprs \<Longrightarrow>
    manager_run ops oprs m = map Ok (spec_run kept oprs (content (sm_store m)))"
proof (induction oprs arbitrary: m)
  case (Cons opr oprs)
  then obtain m' r where "manager_step ops opr m = (m', Ok r)" "mgr_ok ok content good m'"
      "spec_step kept opr (content (sm_store m)) = (content (sm_store m'), r)"
    using manager_step_refines [of m opr] by auto
  then show ?case using Cons by simp
qed simp

lemma new_manager_ok: "ok s \<Longrightarrow> content s = Map.empty \<Longrightarrow> mgr_ok ok content good (manager_new s)"
  by (simp add: mgr_ok_def manager_new_def)

end

section \<open>The memory store\<close>

definition memory_ok :: "MemoryStore \<Rightarrow> bool" where
  "memory_ok s \<longleftrightarrow> distinct (map fst s) \<and> (\<forall>(i, d) \<in> set s. sd_id d = i)"

lemma fold_delete: "fold AList.delete ks s = filter (\<lambda>e. fst e \<notin> set ks) s"
  by (induction ks arbitrary: s) (auto simp: AList.delete_eq intro: filter_cong)

lemma memory_expired:
  assumes "memory_ok s"
  shows "set (map fst (filter (\<lambda>e. is_expired now (snd e)) s)) = expired_ids now (map_of s)"
    and "distinct (map fst (filter (\<lambda>e. is_expired now (snd e)) s))"
  using assms by (force simp: memory_ok_def expired_ids_def distinct_map_filter)+

lemma map_of_filter_fst: "map_of (filter (\<lambda>e. fst e \<notin> A) s) = map_of s |` (- A)"
  by (induction s) (auto simp: restrict_map_def fun_eq_iff)

lemma set_alist_update: "set (AList.update k v s) \<subseteq> insert (k, v) (set s)"
  by (induction s) auto

lemma set_alist_delete: "set (AList.delete k s) \<subseteq> set s"
  by (auto simp: AList.delete_eq)

lemma memory_ok_ids:
  assumes "memory_ok s"
  shows "sd_id ` set (map snd s) = dom (map_of s) \<and> distinct (map sd_id (map snd s))"
proof -
  have e: "map sd_id (map snd s) = map fst s" using assms by (auto simp: memory_ok_def)
  have "sd_id ` set (map snd s) = set (map sd_id (map snd s))" by (simp only: set_map)
  also have "\<dots> = dom (map_of s)" unfolding e by (simp add: dom_map_of_conv_image_fst)
  finally show ?thesis using assms unfolding e by (simp add: memory_ok_def)
qed

interpretation mstore: session_store memory_store memory_ok map_of "\<lambda>_. True" "\<lambda>d. d"
proof
  fix s :: MemoryStore and i d reap now
  show "memory_ok s \<Longrightarrow> st_load memory_store s i = (s, Ok (map_of s i))"
    by (simp add: memory_store_def memory_load_def)
  show "memory_ok s \<Longrightarrow> \<exists>s'. st_save memory_store s d = (s', Ok ()) \<and> memory_ok s' \<and> map_of s' = (map_of s)(sd_id d \<mapsto> d)"
    by (auto simp: memory_store_def memory_save_def memory_ok_def AList.update_conv' distinct_update
        dest!: set_alist_update [THEN subsetD])
  show "memory_ok s \<Longrightarrow> \<exists>s'. st_delete memory_store s i = (s', Ok ()) \<and> memory_ok s' \<and> map_of s' = (map_of s)(i := None)"
    by (auto simp: memory_store_def memory_delete_def memory_ok_def AList.delete_conv' distinct_delete
        dest!: set_alist_delete [THEN subsetD])
  show "memory_ok s \<Longrightarrow> \<exists>ds. st_load_all memory_store s = Ok ds \<and> sd_id ` set ds = dom (map_of s) \<and> distinct (map sd_id ds)"
    using memory_ok_ids [of s] by (simp only: memory_store_def memory_load_all_def SessionStoreOps.simps) blast
  show "st_reap memory_store = Some reap \<Longrightarrow> memory_ok s \<Longrightarrow>
      \<exists>s'. reap now s = (s', card (expired_ids now (map_of s))) \<and> memory_ok s' \<and>
        map_of s' = map_of s |` (- expired_ids now (map_of s))"
    using memory_expired [of s now] distinct_card [of "map fst (filter (\<lambda>e. is_expired now (snd e)) s)"]
    by (auto simp: memory_store_def memory_reap_def Let_def fold_delete map_of_filter_fst memory_ok_def distinct_map_filter)
  show "memory_ok s \<Longrightarrow> map_of s i = Some d \<Longrightarrow> sd_id d = i \<and> True \<and> d = d"
    by (auto simp: memory_ok_def dest!: map_of_SomeD)
  show "memory_ok s \<Longrightarrow> finite (dom (map_of s))" by (simp add: finite_dom_map_of)
qed

section \<open>The file store\<close>

definition session_file :: "string \<Rightarrow> string \<Rightarrow> string" where
  "session_file dir i = dir @ ''/'' @ i @ ''.json''"

definition file_content :: "FileStore \<Rightarrow> string \<rightharpoonup> SessionData" where
  "file_content s i =
    (if is_safe_id i then
       (case map_of (fs_files s) (session_file (fs_dir s) i) of Some (Document st) \<Rightarrow> Some (from_document st) | _ \<Rightarrow> None)
     else None)"

text \<open>Below the directory the files named as sessions are the documents this store wrote.\<close>

definition entry_ok :: "string \<Rightarrow> string \<times> FileContent \<Rightarrow> bool" where
  "entry_ok dir e \<longleftrightarrow>
    (in_dir dir (fst e) \<and> has_json_extension (fst e) \<longrightarrow>
      (\<exists>st. snd e = Document st \<and> is_safe_id (ss_id st) \<and> fst e = session_file dir (ss_id st) \<and>
        to_document (from_document st) = st))"

definition file_ok :: "FileStore \<Rightarrow> bool" where
  "file_ok s \<longleftrightarrow> distinct (map fst (fs_files s)) \<and> list_all (entry_ok (fs_dir s)) (fs_files s)"

definition file_kept :: "SessionData \<Rightarrow> SessionData" where
  "file_kept d = from_document (to_document d)"

lemma safe_id_chars: "is_safe_id i \<Longrightarrow> c \<in> set i \<Longrightarrow> c \<noteq> CHR ''/'' \<and> c \<noteq> CHR ''.''"
  by (auto simp: is_safe_id_def list_all_iff is_ascii_alphanumeric_def)

lemma session_file_found: "is_safe_id i \<Longrightarrow> in_dir dir (session_file dir i) \<and> has_json_extension (session_file dir i)"
proof -
  assume i: "is_safe_id i"
  then have n: "CHR ''/'' \<notin> set (i @ ''.json'')" "i \<noteq> []" using safe_id_chars [OF i] by (auto simp: is_safe_id_def)
  have f: "session_file dir i = (dir @ ''/'') @ i @ ''.json''" "session_file dir i = dir @ CHR ''/'' # i @ ''.json''"
    by (simp_all add: session_file_def)
  have "strip_prefix (dir @ ''/'') (session_file dir i) = Some (i @ ''.json'')" by (simp only: strip_prefix_Some f(1))
  then have "in_dir dir (session_file dir i)" using n by (simp add: in_dir_def)
  moreover have "rsplit_once CHR ''.'' (i @ ''.json'') = Some (i, ''json'')"
    using rsplit_once_append [of "CHR ''.''" "''json''" i] by simp
  ultimately show ?thesis
    using n last_split_on [OF n(1), of dir] by (simp add: has_json_extension_def f(2))
qed

lemma session_file_inject: "session_file dir i = session_file dir j \<longleftrightarrow> i = j"
  by (simp add: session_file_def)

lemma epoch_millis_back: "epoch_millis (int n * 10 ^ 6) = n mod 2 ^ 64"
  by (simp add: epoch_millis_def)

lemma to_from_to_document: "to_document (from_document (to_document d)) = to_document d"
  by (simp add: to_document_def from_document_def epoch_millis_back) (simp add: epoch_millis_def)

lemma file_entry:
  assumes "file_ok s" "is_safe_id i" "map_of (fs_files s) (session_file (fs_dir s) i) = Some f"
  shows "\<exists>st. f = Document st \<and> ss_id st = i \<and> to_document (from_document st) = st"
  using assms session_file_found [OF assms(2), of "fs_dir s"]
  by (fastforce simp: file_ok_def entry_ok_def list_all_iff session_file_inject dest!: map_of_SomeD)

lemma scan_entries_spec:
  assumes "list_all (entry_ok dir) es"
  shows "\<exists>sts. scan_entries dir es = Ok (map from_document sts) \<and> (\<forall>st \<in> set sts. is_safe_id (ss_id st)) \<and>
    map (\<lambda>st. (session_file dir (ss_id st), Document st)) sts = filter (\<lambda>e. in_dir dir (fst e) \<and> has_json_extension (fst e)) es"
  using assms
proof (induction es)
  case (Cons e es)
  then obtain sts where sts: "scan_entries dir es = Ok (map from_document sts)" "\<forall>st \<in> set sts. is_safe_id (ss_id st)"
    "map (\<lambda>st. (session_file dir (ss_id st), Document st)) sts = filter (\<lambda>e. in_dir dir (fst e) \<and> has_json_extension (fst e)) es"
    by auto
  obtain p f where e: "e = (p, f)" by fastforce
  show ?case
  proof (cases "in_dir dir p \<and> has_json_extension p")
    case True
    then obtain st where "f = Document st" "is_safe_id (ss_id st)" "p = session_file dir (ss_id st)"
      using Cons.prems by (auto simp: e entry_ok_def)
    then show ?thesis using True sts by (intro exI [of _ "st # sts"]) (auto simp: e read_document_def)
  next
    case False
    then show ?thesis using sts by (intro exI [of _ sts]) (auto simp: e)
  qed
qed simp

lemma file_load_all_spec:
  assumes "file_ok s"
  shows "\<exists>ds. file_load_all s = Ok ds \<and> sd_id ` set ds = dom (file_content s) \<and> distinct (map sd_id ds)"
proof -
  let ?named = "\<lambda>e. in_dir (fs_dir s) (fst e) \<and> has_json_extension (fst e)"
  have fo: "list_all (entry_ok (fs_dir s)) (fs_files s)" "distinct (map fst (fs_files s))" 
    using assms by (simp_all add: file_ok_def)
  obtain sts where sts: "scan_entries (fs_dir s) (fs_files s) = Ok (map from_document sts)"
    "\<forall>st \<in> set sts. is_safe_id (ss_id st)"
    "map (\<lambda>st. (session_file (fs_dir s) (ss_id st), Document st)) sts = filter ?named (fs_files s)"
    using scan_entries_spec [OF fo(1)] by blast
  have ids: "map sd_id (map from_document sts) = map ss_id sts" by (simp add: from_document_def)
  have "map (session_file (fs_dir s)) (map ss_id sts) = map fst (filter ?named (fs_files s))"
    unfolding sts(3) [symmetric] by simp
  then have d: "distinct (map ss_id sts)" using fo(2) by (metis distinct_map distinct_map_filter)
  have "i \<in> set (map ss_id sts) \<longleftrightarrow> i \<in> dom (file_content s)" for i
  proof
    assume "i \<in> set (map ss_id sts)"
    then obtain st where st: "st \<in> set sts" "i = ss_id st" by auto
    then have "(session_file (fs_dir s) i, Document st) \<in> set (filter ?named (fs_files s))"
      unfolding sts(3) [symmetric] by auto
    then show "i \<in> dom (file_content s)" using st sts(2) fo(2) by (auto simp: file_content_def)
  next
    assume "i \<in> dom (file_content s)"
    then obtain f where f: "is_safe_id i" "map_of (fs_files s) (session_file (fs_dir s) i) = Some f"
      by (auto simp: file_content_def split: if_splits option.splits)
    then have "(session_file (fs_dir s) i, f) \<in> set (filter ?named (fs_files s))"
      using session_file_found [OF f(1)] by (auto dest: map_of_SomeD)
    then show "i \<in> set (map ss_id sts)" unfolding sts(3) [symmetric] by (auto simp: session_file_inject)
  qed
  then have "set (map ss_id sts) = dom (file_content s)" by blast
  then show ?thesis
    using sts(1) d ids by (intro exI [of _ "map from_document sts"]) (metis file_load_all_def set_map)
qed

lemma file_ok_update:
  assumes "file_ok s" "is_safe_id i" "ss_id st = i" "to_document (from_document st) = st"
  shows "file_ok (s\<lparr>fs_files := AList.update (session_file (fs_dir s) i) (Document st) (fs_files s)\<rparr>)"
  using assms
  by (auto simp: file_ok_def list_all_iff entry_ok_def distinct_update dest!: set_alist_update [THEN subsetD])

lemma path_for_safe: "is_safe_id i \<Longrightarrow> path_for s i = Ok (session_file (fs_dir s) i)"
  by (simp add: path_for_def session_file_def)

lemma file_load_spec:
  assumes "file_ok s" "is_safe_id i"
  shows "file_load s i = (s, Ok (file_content s i))"
proof (cases "map_of (fs_files s) (session_file (fs_dir s) i)")
  case (Some f)
  then show ?thesis using file_entry [OF assms Some] assms(2)
    by (auto simp: file_load_def path_for_safe file_content_def read_document_def)
qed (use assms(2) in \<open>simp add: file_load_def path_for_safe file_content_def\<close>)

lemma file_save_spec:
  assumes "file_ok s" "is_safe_id (sd_id d)"
  shows "\<exists>s'. file_save s d = (s', Ok ()) \<and> file_ok s' \<and> file_content s' = (file_content s)(sd_id d \<mapsto> file_kept d)"
proof -
  let ?s = "s\<lparr>fs_files := AList.update (session_file (fs_dir s) (sd_id d)) (Document (to_document d)) (fs_files s)\<rparr>"
  have "file_save s d = (?s, Ok ())"
    using file_entry [OF assms] assms(2) by (auto simp: file_save_def path_for_safe)
  moreover have "ss_id (to_document d) = sd_id d" by (simp add: to_document_def)
  then have "file_ok ?s" by (rule file_ok_update [OF assms _ to_from_to_document])
  moreover have "file_content ?s i = ((file_content s)(sd_id d \<mapsto> file_kept d)) i" for i
    using assms(2) by (simp add: file_content_def AList.update_conv' session_file_inject file_kept_def)
  ultimately show ?thesis by blast
qed

lemma file_delete_spec:
  assumes "file_ok s" "is_safe_id i"
  shows "\<exists>s'. file_delete s i = (s', Ok ()) \<and> file_ok s' \<and> file_content s' = (file_content s)(i := None)"
proof -
  let ?s = "s\<lparr>fs_files := AList.delete (session_file (fs_dir s) i) (fs_files s)\<rparr>"
  have "file_delete s i = (?s, Ok ())"
    using file_entry [OF assms] assms(2) by (auto simp: file_delete_def path_for_safe)
  moreover have "file_ok ?s"
    using assms(1) by (auto simp: file_ok_def list_all_iff distinct_delete dest!: set_alist_delete [THEN subsetD])
  moreover have "file_content ?s j = ((file_content s)(i := None)) j" for j
    by (simp add: file_content_def AList.delete_conv' session_file_inject)
  ultimately show ?thesis by blast
qed

lemma file_content_stored:
  assumes "file_ok s" "file_content s i = Some d"
  shows "sd_id d = i \<and> is_safe_id i \<and> file_kept d = d"
proof -
  obtain f where f: "is_safe_id i" "map_of (fs_files s) (session_file (fs_dir s) i) = Some f"
    using assms(2) by (auto simp: file_content_def split: if_splits option.splits)
  then obtain st where st: "f = Document st" "ss_id st = i" "to_document (from_document st) = st"
    using file_entry [OF assms(1)] by blast
  have d: "d = from_document st" using assms(2) f st(1) by (simp add: file_content_def)
  have "sd_id d = i" unfolding d using st(2) by (simp add: from_document_def)
  then show ?thesis using f(1) st(3) unfolding d file_kept_def by simp
qed

lemma file_content_finite:
  assumes "file_ok s"
  shows "finite (dom (file_content s))"
proof -
  obtain ds :: "SessionData list" where e: "sd_id ` set ds = dom (file_content s)"
    using file_load_all_spec [OF assms] by blast
  have "finite (sd_id ` set ds)" by simp
  then show ?thesis unfolding e .
qed

interpretation fstore: session_store file_store file_ok file_content is_safe_id file_kept
  by unfold_locales
    (simp_all add: file_store_def file_load_spec file_save_spec file_delete_spec file_load_all_spec file_content_stored
      file_content_finite)

text \<open>The identifiers a manager makes are accepted by every store.\<close>

lemma hex_upper_safe: "is_safe_id (hex_upper b)"
proof -
  have "unat b div 16 < 16" using unat_less_256 [of b] by (simp add: div_less_iff_less_mult)
  moreover have "unat b mod 16 < 16" by simp
  ultimately show ?thesis
    by (auto simp: is_safe_id_def hex_upper_def to_ascii_uppercase_def to_ascii_upper_def hex_char_def
        is_ascii_alphanumeric_def of_char_of Let_def)
qed

lemma generated_id_safe: "random \<noteq> [] \<Longrightarrow> is_safe_id (generate_session_id random)"
proof -
  assume "random \<noteq> []"
  moreover have "list_all (\<lambda>c. is_ascii_alphanumeric c \<or> c = CHR ''-'' \<or> c = CHR ''_'') (generate_session_id random)"
    using hex_upper_safe by (auto simp: generate_session_id_def list_all_iff is_safe_id_def)
  ultimately show ?thesis using hex_upper_safe by (cases random) (auto simp: is_safe_id_def generate_session_id_def)
qed

lemma length_generated_id: "length (generate_session_id random) = 2 * length random"
  by (induction random) (simp_all add: generate_session_id_def hex_upper_def to_ascii_uppercase_def)

section \<open>Properties\<close>

text \<open>
  C23. Whatever a manager is asked to do, its replies are those of a map from identifiers to sessions: over a
  memory store for every history of calls, and over a file store in a directory without sessions for
  every history with safe identifiers, where the map holds what the document format keeps of a session.
  In particular reaping deletes exactly the expired sessions and counts them, in the fast path of the
  memory store and in the generic path alike, and no call fails.
\<close>

theorem session_manager_refines:
  assumes "list_all (op_good is_safe_id) oprs" "file_ok s" "file_content s = Map.empty"
  shows "manager_run memory_store any (manager_new []) = map Ok (spec_run (\<lambda>d. d) any Map.empty) \<and>
    manager_run file_store oprs (manager_new s) = map Ok (spec_run file_kept oprs Map.empty)"
proof
  have "list_all (op_good (\<lambda>_. True)) any"
    by (simp add: list_all_iff) (metis op_good.simps SessionOp.exhaust)
  moreover have "memory_ok []" by (simp add: memory_ok_def)
  ultimately show "manager_run memory_store any (manager_new []) = map Ok (spec_run (\<lambda>d. d) any Map.empty)"
    using mstore.manager_run_refines [OF mstore.new_manager_ok, of "[]" any] by (simp add: manager_new_def)
  show "manager_run file_store oprs (manager_new s) = map Ok (spec_run file_kept oprs Map.empty)"
    using fstore.manager_run_refines [OF fstore.new_manager_ok, of s oprs] assms by (simp add: manager_new_def)
qed

theorem session_manager_refines_witness:
  "manager_run file_store [OpSave (session_new ''A1'' 0), OpReap (10 ^ 15), OpFind ''A1''] (manager_new \<lparr>fs_dir = ''/tmp'', fs_files = []\<rparr>)
    = [Ok Done, Ok (Count 1), Ok (Found None)]"
proof -
  have id: "is_safe_id ''A1''" by code_simp
  have x: "expired_ids (10 ^ 15) [''A1'' \<mapsto> file_kept (session_new ''A1'' 0)] = {''A1''}"
    by (auto simp: expired_ids_def is_expired_def file_kept_def session_new_def from_document_def to_document_def
        epoch_millis_def DEFAULT_MAX_INACTIVE_INTERVAL_def split: if_splits)
  show ?thesis
    using session_manager_refines [of "[OpSave (session_new ''A1'' 0), OpReap (10 ^ 15), OpFind ''A1'']"
        "\<lparr>fs_dir = ''/tmp'', fs_files = []\<rparr>" "[]", THEN conjunct2] id x
    by (simp add: file_ok_def file_content_def fun_eq_iff session_new_def)
qed

text \<open>
  What the document format loses: a session whose interval is less than a second is read back with the
  interval 0, which means that it never expires.
\<close>

lemma short_interval_becomes_immortal:
  "sd_max_inactive d < 10 ^ 9 \<Longrightarrow> \<not> is_expired now (file_kept d)"
  by (simp add: is_expired_def file_kept_def from_document_def to_document_def)

end
