(* ===== verification/Cookies.thy ===== *)
theory Cookies
  imports Calendar Message SessionStores
begin

text \<open>
  Cookies: the generic parser and the \<open>Set-Cookie\<close> builder of
  \<open>src/crates/tomcatrs-coyote/src/cookies.rs\<close>, the accessors of \<open>Request\<close> and \<open>Response\<close> that
  use them (\<open>lib.rs\<close>), and the \<open>CookieProcessor\<close> of the session manager
  (\<open>src/crates/tomcatrs-session/src/cookie.rs\<close>), which has a parser of its own. The user agent at
  the other end is specified after RFC 6265.
\<close>

section \<open>Request cookies\<close>

record Cookie =
  cookie_name :: string
  cookie_value :: string

definition strip_quotes :: "string \<Rightarrow> string" where
  "strip_quotes v =
    (case (strip_prefix ''\"'' v, strip_suffix ''\"'' v) of
       (Some _, Some _) \<Rightarrow> if 2 \<le> length v then take (length v - 2) (drop 1 v) else v
     | _ \<Rightarrow> v)"

definition parse_pair :: "string \<Rightarrow> Cookie option" where
  "parse_pair raw =
    (let pair = trim raw in
     if pair = [] then None
     else case split_once (CHR ''='') pair of
       None \<Rightarrow> None
     | Some (n, v) \<Rightarrow>
         (let n = trim n in
          if n = [] then None
          else Some \<lparr>cookie_name = n, cookie_value = strip_quotes (trim v)\<rparr>))"

definition parse_cookie_header :: "string \<Rightarrow> Cookie list" where
  "parse_cookie_header header_value = List.map_filter parse_pair (split_on (CHR '';'') header_value)"

definition request_cookies :: "Request \<Rightarrow> Cookie list" where
  "request_cookies rq =
    concat (map (\<lambda>(k, v). parse_cookie_header v)
      (filter (\<lambda>(k, v). eq_ignore_ascii_case k ''cookie'') (rq_headers rq)))"

definition request_cookie :: "string \<Rightarrow> Request \<Rightarrow> string option" where
  "request_cookie n rq = map_option cookie_value (List.find (\<lambda>c. cookie_name c = n) (request_cookies rq))"

section \<open>Response cookies\<close>

datatype SameSite = Strict | Lax | SameSite_None

fun same_site_str :: "SameSite \<Rightarrow> string" where
  "same_site_str Strict = ''Strict''"
| "same_site_str Lax = ''Lax''"
| "same_site_str SameSite_None = ''None''"

record SetCookie =
  sc_name :: string
  sc_value :: string
  sc_path :: "string option"
  sc_domain :: "string option"
  sc_max_age :: "int option"
  sc_expires :: "string option"
  sc_secure :: bool
  sc_http_only :: bool
  sc_same_site :: "SameSite option"
  sc_partitioned :: bool

definition set_cookie_new :: "string \<Rightarrow> string \<Rightarrow> SetCookie" where
  "set_cookie_new n v =
    \<lparr>sc_name = n, sc_value = v, sc_path = None, sc_domain = None, sc_max_age = None, sc_expires = None,
     sc_secure = False, sc_http_only = False, sc_same_site = None, sc_partitioned = False\<rparr>"

definition set_cookie_path :: "string \<Rightarrow> SetCookie \<Rightarrow> SetCookie" where
  "set_cookie_path p sc = sc\<lparr>sc_path := Some p\<rparr>"

definition set_cookie_domain :: "string \<Rightarrow> SetCookie \<Rightarrow> SetCookie" where
  "set_cookie_domain d sc = sc\<lparr>sc_domain := Some d\<rparr>"

definition set_cookie_max_age :: "int \<Rightarrow> SetCookie \<Rightarrow> SetCookie" where
  "set_cookie_max_age seconds sc = sc\<lparr>sc_max_age := Some seconds\<rparr>"

definition set_cookie_expires :: "string \<Rightarrow> SetCookie \<Rightarrow> SetCookie" where
  "set_cookie_expires imf_fixdate sc = sc\<lparr>sc_expires := Some imf_fixdate\<rparr>"

definition set_cookie_expires_unix :: "int \<Rightarrow> SetCookie \<Rightarrow> SetCookie" where
  "set_cookie_expires_unix unix_seconds sc = sc\<lparr>sc_expires := Some (format_imf_fixdate unix_seconds)\<rparr>"

definition set_cookie_secure :: "bool \<Rightarrow> SetCookie \<Rightarrow> SetCookie" where
  "set_cookie_secure b sc = sc\<lparr>sc_secure := b\<rparr>"

definition set_cookie_http_only :: "bool \<Rightarrow> SetCookie \<Rightarrow> SetCookie" where
  "set_cookie_http_only b sc = sc\<lparr>sc_http_only := b\<rparr>"

definition set_cookie_same_site :: "SameSite \<Rightarrow> SetCookie \<Rightarrow> SetCookie" where
  "set_cookie_same_site s sc = sc\<lparr>sc_same_site := Some s\<rparr>"

definition set_cookie_partitioned :: "bool \<Rightarrow> SetCookie \<Rightarrow> SetCookie" where
  "set_cookie_partitioned b sc = sc\<lparr>sc_partitioned := b\<rparr>"

text \<open>\<open>i64::to_string\<close>.\<close>

definition int_str :: "int \<Rightarrow> string" where
  "int_str n = (if n < 0 then CHR ''-'' # dec_str (nat (- n)) else dec_str (nat n))"

definition to_header_value :: "SetCookie \<Rightarrow> string" where
  "to_header_value sc =
    sc_name sc @ ''='' @ sc_value sc @
    (case sc_domain sc of Some d \<Rightarrow> ''; Domain='' @ d | None \<Rightarrow> []) @
    (case sc_path sc of Some p \<Rightarrow> ''; Path='' @ p | None \<Rightarrow> []) @
    (case sc_max_age sc of Some a \<Rightarrow> ''; Max-Age='' @ int_str a | None \<Rightarrow> []) @
    (case sc_expires sc of Some e \<Rightarrow> ''; Expires='' @ e | None \<Rightarrow> []) @
    (if sc_secure sc then ''; Secure'' else []) @
    (if sc_http_only sc then ''; HttpOnly'' else []) @
    (case sc_same_site sc of Some s \<Rightarrow> ''; SameSite='' @ same_site_str s | None \<Rightarrow> []) @
    (if sc_partitioned sc then ''; Partitioned'' else [])"

definition add_set_cookie :: "SetCookie \<Rightarrow> Response \<Rightarrow> Response" where
  "add_set_cookie c r = r\<lparr>rs_headers := rs_headers r @ [(''Set-Cookie'', to_header_value c)]\<rparr>"

section \<open>The session cookie\<close>

definition SESSION_COOKIE_NAME :: string where
  "SESSION_COOKIE_NAME = ''JSESSIONID''"

datatype SessionSameSite = SessionStrict | SessionLax | SessionNone

fun session_same_site_str :: "SessionSameSite \<Rightarrow> string" where
  "session_same_site_str SessionStrict = ''Strict''"
| "session_same_site_str SessionLax = ''Lax''"
| "session_same_site_str SessionNone = ''None''"

record CookieProcessor =
  cp_path :: string
  cp_secure :: bool
  cp_same_site :: "SessionSameSite option"

definition cookie_processor_new :: CookieProcessor where
  "cookie_processor_new = \<lparr>cp_path = ''/'', cp_secure = False, cp_same_site = None\<rparr>"

definition with_path :: "string \<Rightarrow> CookieProcessor \<Rightarrow> CookieProcessor" where
  "with_path p cp = cp\<lparr>cp_path := p\<rparr>"

definition with_secure :: "bool \<Rightarrow> CookieProcessor \<Rightarrow> CookieProcessor" where
  "with_secure b cp = cp\<lparr>cp_secure := b\<rparr>"

definition with_same_site :: "SessionSameSite option \<Rightarrow> CookieProcessor \<Rightarrow> CookieProcessor" where
  "with_same_site s cp = cp\<lparr>cp_same_site := s\<rparr>"

definition session_parse_pair :: "string \<Rightarrow> (string \<times> string) option" where
  "session_parse_pair raw =
    (let pair = trim raw in
     if pair = [] then None
     else case split_once (CHR ''='') pair of
       None \<Rightarrow> None
     | Some (n, v) \<Rightarrow>
         (let n = trim n in
          if n = [] then None
          else let v = trim v in
            Some (n, case Option.bind (strip_prefix ''\"'' v) (strip_suffix ''\"'') of
                       Some u \<Rightarrow> u
                     | None \<Rightarrow> v)))"

definition session_parse_cookie_header :: "string \<Rightarrow> (string \<times> string) list" where
  "session_parse_cookie_header header = List.map_filter session_parse_pair (split_on (CHR '';'') header)"

definition extract_session_id :: "string \<Rightarrow> string option" where
  "extract_session_id header =
    map_option snd (List.find (\<lambda>(n, v). n = SESSION_COOKIE_NAME) (session_parse_cookie_header header))"

definition build_set_cookie :: "CookieProcessor \<Rightarrow> string \<Rightarrow> string" where
  "build_set_cookie cp session_id =
    SESSION_COOKIE_NAME @ ''='' @ session_id @ ''; Path='' @ cp_path cp @ ''; HttpOnly'' @
    (if cp_secure cp then ''; Secure'' else []) @
    (case cp_same_site cp of Some s \<Rightarrow> ''; SameSite='' @ session_same_site_str s | None \<Rightarrow> [])"

definition build_expiry_cookie :: "CookieProcessor \<Rightarrow> string" where
  "build_expiry_cookie cp = SESSION_COOKIE_NAME @ ''=; Path='' @ cp_path cp @ ''; HttpOnly; Max-Age=0''"

section \<open>The user agent\<close>

text \<open>
  RFC 6265, section 5.2: a \<open>Set-Cookie\<close> value is the pair before the first semicolon and the attributes
  after it; section 5.4: the cookies of a request are joined by a semicolon and a space.
\<close>

definition ua_attribute :: "string \<Rightarrow> string \<times> string" where
  "ua_attribute part =
    (case split_once (CHR ''='') part of Some (k, v) \<Rightarrow> (trim k, trim v) | None \<Rightarrow> (trim part, []))"

definition ua_set_cookie :: "string \<Rightarrow> (string \<times> string) \<times> (string \<times> string) list" where
  "ua_set_cookie header =
    (case map ua_attribute (split_on (CHR '';'') header) of p # ps \<Rightarrow> (p, ps) | [] \<Rightarrow> (([], []), []))"

definition ua_pair :: "string \<times> string \<Rightarrow> string" where
  "ua_pair p = fst p @ ''='' @ snd p"

fun ua_cookie_header :: "(string \<times> string) list \<Rightarrow> string" where
  "ua_cookie_header [] = []"
| "ua_cookie_header [p] = ua_pair p"
| "ua_cookie_header (p # ps) = ua_pair p @ ''; '' @ ua_cookie_header ps"

text \<open>Visible characters other than the separators and the quote.\<close>

definition cookie_octets :: "string \<Rightarrow> bool" where
  "cookie_octets s \<longleftrightarrow> list_all (\<lambda>c. visible (byte_of c) \<and> c \<noteq> CHR '';'' \<and> c \<noteq> CHR ''='' \<and> c \<noteq> CHR ''\"'') s"

definition cookie_pair_ok :: "string \<times> string \<Rightarrow> bool" where
  "cookie_pair_ok p \<longleftrightarrow> fst p \<noteq> [] \<and> cookie_octets (fst p) \<and> cookie_octets (snd p)"

definition set_cookie_attributes :: "SetCookie \<Rightarrow> (string \<times> string) list" where
  "set_cookie_attributes sc =
    (case sc_domain sc of Some d \<Rightarrow> [(''Domain'', d)] | None \<Rightarrow> []) @
    (case sc_path sc of Some p \<Rightarrow> [(''Path'', p)] | None \<Rightarrow> []) @
    (case sc_max_age sc of Some a \<Rightarrow> [(''Max-Age'', int_str a)] | None \<Rightarrow> []) @
    (case sc_expires sc of Some e \<Rightarrow> [(''Expires'', e)] | None \<Rightarrow> []) @
    (if sc_secure sc then [(''Secure'', [])] else []) @
    (if sc_http_only sc then [(''HttpOnly'', [])] else []) @
    (case sc_same_site sc of Some s \<Rightarrow> [(''SameSite'', same_site_str s)] | None \<Rightarrow> []) @
    (if sc_partitioned sc then [(''Partitioned'', [])] else [])"

text \<open>A text that the user agent reads back: no semicolon, and no white space at its ends.\<close>

definition attribute_text :: "string \<Rightarrow> bool" where
  "attribute_text s \<longleftrightarrow> CHR '';'' \<notin> set s \<and> trim s = s"

definition set_cookie_ok :: "SetCookie \<Rightarrow> bool" where
  "set_cookie_ok sc \<longleftrightarrow>
    cookie_pair_ok (sc_name sc, sc_value sc) \<and>
    pred_option attribute_text (sc_domain sc) \<and> pred_option attribute_text (sc_path sc) \<and>
    pred_option attribute_text (sc_expires sc)"

section \<open>Lemmas\<close>

lemma trim_space [simp]: "trim (CHR '' '' # s) = trim s"
proof -
  have "ws_front (0x20 # bs) = 1" for bs by (simp add: ws_front_def whitespace_def)
  then have "trim_start_bytes (0x20 # bs) = trim_start_bytes bs" for bs
    by (subst trim_start_bytes.simps) simp
  then show ?thesis by (simp add: trim_def as_bytes_def byte_of_def)
qed

lemma trim_cookie_octets [simp]: "cookie_octets s \<Longrightarrow> trim s = s"
  by (cases "s = []") (auto simp: cookie_octets_def list_all_iff intro: trim_visible)

lemma cookie_octets_append [simp]: "cookie_octets (s @ t) \<longleftrightarrow> cookie_octets s \<and> cookie_octets t"
  by (simp add: cookie_octets_def)

lemma cookie_octets_free:
  "cookie_octets s \<Longrightarrow> CHR '';'' \<notin> set s" "cookie_octets s \<Longrightarrow> CHR ''='' \<notin> set s" "cookie_octets s \<Longrightarrow> CHR ''\"'' \<notin> set s"
  by (auto simp: cookie_octets_def list_all_iff)

lemma trim_ua_pair: "cookie_pair_ok p \<Longrightarrow> trim (ua_pair p) = ua_pair p"
proof (rule trim_visible)
  assume p: "cookie_pair_ok p"
  show "ua_pair p \<noteq> []" by (simp add: ua_pair_def)
  have "visible (byte_of CHR ''='')" by (simp add: visible_def byte_of_def)
  then show "visible (byte_of c)" if "c \<in> set (ua_pair p)" for c
    using p that unfolding cookie_pair_ok_def cookie_octets_def list_all_iff ua_pair_def by auto
qed

lemma strip_quotes_bare: "CHR ''\"'' \<notin> set v \<Longrightarrow> strip_quotes v = v"
  by (auto simp: strip_quotes_def strip_prefix_Some split: option.split)

lemma map_filter_all: "(\<And>x. x \<in> set xs \<Longrightarrow> f x = Some (g x)) \<Longrightarrow> List.map_filter f xs = map g xs"
  by (induction xs) (auto simp: List.map_filter_def)

lemma map_filter_simps [simp]:
  "List.map_filter f [] = []"
  "List.map_filter f (x # xs) = (case f x of None \<Rightarrow> List.map_filter f xs | Some y \<Rightarrow> y # List.map_filter f xs)"
  by (simp_all add: List.map_filter_def split: option.split)

text \<open>The two parsers: one keeps a lone quote because the text is too short, the other because no suffix is left.\<close>

lemma session_parse_pair_eq:
  "session_parse_pair raw = map_option (\<lambda>c. (cookie_name c, cookie_value c)) (parse_pair raw)"
proof -
  have quotes: "(case Option.bind (strip_prefix ''\"'' v) (strip_suffix ''\"'') of Some u \<Rightarrow> u | None \<Rightarrow> v) =
      strip_quotes v" for v
  proof (cases "strip_prefix ''\"'' v")
    case None
    then show ?thesis by (simp add: strip_quotes_def)
  next
    case (Some u)
    then have v: "v = CHR ''\"'' # u" by (simp add: strip_prefix_Some)
    show ?thesis
    proof (cases u rule: rev_cases)
      case Nil
      then show ?thesis by (simp add: v strip_quotes_def strip_prefix_def strip_suffix_def starts_with_def ends_with_def)
    next
      case (snoc w c)
      then show ?thesis
        by (auto simp: v strip_quotes_def strip_prefix_def strip_suffix_def starts_with_def ends_with_def)
    qed
  qed
  show ?thesis
    by (simp add: session_parse_pair_def parse_pair_def Let_def quotes split: option.split)
qed

lemma parse_pair_ua:
  assumes "cookie_pair_ok p"
  shows "parse_pair (ua_pair p) = Some \<lparr>cookie_name = fst p, cookie_value = snd p\<rparr>"
    and "parse_pair (CHR '' '' # ua_pair p) = Some \<lparr>cookie_name = fst p, cookie_value = snd p\<rparr>"
proof -
  have p: "fst p \<noteq> []" "cookie_octets (fst p)" "cookie_octets (snd p)"
    using assms by (auto simp: cookie_pair_ok_def)
  have "split_once CHR ''='' (ua_pair p) = Some (fst p, snd p)"
    using cookie_octets_free(2) [OF p(2)] unfolding split_once_Some by (simp add: ua_pair_def)
  moreover have "ua_pair p \<noteq> []" by (simp add: ua_pair_def)
  ultimately show "parse_pair (ua_pair p) = Some \<lparr>cookie_name = fst p, cookie_value = snd p\<rparr>"
    using p trim_ua_pair [OF assms] cookie_octets_free(3) [OF p(3)]
    by (simp add: parse_pair_def strip_quotes_bare case_prod_beta)
  then show "parse_pair (CHR '' '' # ua_pair p) = Some \<lparr>cookie_name = fst p, cookie_value = snd p\<rparr>"
    by (simp add: parse_pair_def)
qed

lemma ua_pair_no_semicolon: "cookie_pair_ok p \<Longrightarrow> CHR '';'' \<notin> set (ua_pair p)"
  by (auto simp: cookie_pair_ok_def ua_pair_def dest: cookie_octets_free)

lemma map_filter_ua_cookie_header:
  assumes "list_all cookie_pair_ok ps" "ps \<noteq> []"
    and "\<And>p. cookie_pair_ok p \<Longrightarrow> f (ua_pair p) = Some (g p)"
    and "\<And>p. cookie_pair_ok p \<Longrightarrow> f (CHR '' '' # ua_pair p) = Some (g p)"
  shows "List.map_filter f (split_on (CHR '';'') (ua_cookie_header ps)) = map g ps"
    and "List.map_filter f (split_on (CHR '';'') (CHR '' '' # ua_cookie_header ps)) = map g ps"
proof -
  have "List.map_filter f (split_on (CHR '';'') (ua_cookie_header ps)) = map g ps \<and>
      List.map_filter f (split_on (CHR '';'') (CHR '' '' # ua_cookie_header ps)) = map g ps"
    using assms(1,2)
  proof (induction ps rule: ua_cookie_header.induct)
    case (2 p)
    then show ?case using assms(3,4) ua_pair_no_semicolon [of p] by simp
  next
    case (3 p q ps)
    have p: "cookie_pair_ok p" "CHR '';'' \<notin> set (ua_pair p)" "CHR '';'' \<notin> set (CHR '' '' # ua_pair p)"
      using 3 ua_pair_no_semicolon [of p] by simp_all
    show ?case
      using 3 assms(3,4) [OF p(1)] split_on_append [OF p(2), of "CHR '' '' # ua_cookie_header (q # ps)"]
        split_on_append [OF p(3), of "CHR '' '' # ua_cookie_header (q # ps)"]
      by simp
  qed simp
  then show "List.map_filter f (split_on (CHR '';'') (ua_cookie_header ps)) = map g ps"
    and "List.map_filter f (split_on (CHR '';'') (CHR '' '' # ua_cookie_header ps)) = map g ps"
    by auto
qed

lemma parse_cookie_header_ua:
  assumes "list_all cookie_pair_ok ps"
  shows "parse_cookie_header (ua_cookie_header ps) = map (\<lambda>p. \<lparr>cookie_name = fst p, cookie_value = snd p\<rparr>) ps"
proof (cases "ps = []")
  case True
  then show ?thesis by (simp add: parse_cookie_header_def parse_pair_def)
next
  case False
  then show ?thesis
    unfolding parse_cookie_header_def
    by (intro map_filter_ua_cookie_header(1) assms parse_pair_ua)
qed

lemma map_filter_map_option: "List.map_filter (\<lambda>x. map_option g (f x)) xs = map g (List.map_filter f xs)"
  by (induction xs) (auto split: option.split)

text \<open>The connector and the session manager read the same cookies out of every header value.\<close>

lemma cookie_parsers_equal:
  "session_parse_cookie_header h = map (\<lambda>c. (cookie_name c, cookie_value c)) (parse_cookie_header h)"
  unfolding session_parse_cookie_header_def parse_cookie_header_def session_parse_pair_eq
  by (rule map_filter_map_option)

lemma safe_id_cookie_octets: "is_safe_id i \<Longrightarrow> cookie_octets i"
  by (auto simp: is_safe_id_def cookie_octets_def list_all_iff is_ascii_alphanumeric_def visible_def
      word_le_nat_alt word_less_nat_alt unat_byte_of Let_def)

lemma find_after: "list_all (\<lambda>x. \<not> P x) xs \<Longrightarrow> P y \<Longrightarrow> List.find P (xs @ y # ys) = Some y"
  by (induction xs) auto

lemma ua_session_pair:
  assumes "is_safe_id i"
  shows "fst (ua_set_cookie (build_set_cookie cp i)) = (SESSION_COOKIE_NAME, i)"
    and "cookie_pair_ok (SESSION_COOKIE_NAME, i)"
proof -
  have i: "cookie_octets i" by (rule safe_id_cookie_octets [OF assms])
  have name: "cookie_octets SESSION_COOKIE_NAME"
    by (simp add: SESSION_COOKIE_NAME_def cookie_octets_def visible_def byte_of_def)
  then show ok: "cookie_pair_ok (SESSION_COOKIE_NAME, i)"
    using i by (simp add: cookie_pair_ok_def SESSION_COOKIE_NAME_def)
  obtain rest where "build_set_cookie cp i = ua_pair (SESSION_COOKIE_NAME, i) @ CHR '';'' # rest"
    by (simp add: build_set_cookie_def ua_pair_def)
  then have "split_on (CHR '';'') (build_set_cookie cp i) =
      ua_pair (SESSION_COOKIE_NAME, i) # split_on (CHR '';'') rest"
    using split_on_append ua_pair_no_semicolon [OF ok] by simp
  moreover have "split_once (CHR ''='') (ua_pair (SESSION_COOKIE_NAME, i)) = Some (SESSION_COOKIE_NAME, i)"
    using cookie_octets_free(2) [OF name] by (simp add: split_once_Some ua_pair_def)
  ultimately show "fst (ua_set_cookie (build_set_cookie cp i)) = (SESSION_COOKIE_NAME, i)"
    using i name by (simp add: ua_set_cookie_def ua_attribute_def)
qed

text \<open>A serialised cookie is its pair followed by its attributes, each after a semicolon and a space.\<close>

definition set_cookie_parts :: "SetCookie \<Rightarrow> string list" where
  "set_cookie_parts sc =
    (case sc_domain sc of Some d \<Rightarrow> [''Domain='' @ d] | None \<Rightarrow> []) @
    (case sc_path sc of Some p \<Rightarrow> [''Path='' @ p] | None \<Rightarrow> []) @
    (case sc_max_age sc of Some a \<Rightarrow> [''Max-Age='' @ int_str a] | None \<Rightarrow> []) @
    (case sc_expires sc of Some e \<Rightarrow> [''Expires='' @ e] | None \<Rightarrow> []) @
    (if sc_secure sc then [''Secure''] else []) @
    (if sc_http_only sc then [''HttpOnly''] else []) @
    (case sc_same_site sc of Some s \<Rightarrow> [''SameSite='' @ same_site_str s] | None \<Rightarrow> []) @
    (if sc_partitioned sc then [''Partitioned''] else [])"

lemma to_header_value_parts:
  "to_header_value sc =
    ua_pair (sc_name sc, sc_value sc) @ concat (map (\<lambda>p. ''; '' @ p) (set_cookie_parts sc))"
  by (simp add: to_header_value_def set_cookie_parts_def ua_pair_def split: option.split)

lemma split_on_parts:
  "CHR '';'' \<notin> set a \<Longrightarrow> list_all (\<lambda>p. CHR '';'' \<notin> set p) ps \<Longrightarrow>
    split_on (CHR '';'') (a @ concat (map (\<lambda>p. ''; '' @ p) ps)) = a # map ((#) (CHR '' '')) ps"
proof (induction ps arbitrary: a)
  case (Cons p ps)
  have "split_on (CHR '';'') ((CHR '' '' # p) @ concat (map (\<lambda>p. ''; '' @ p) ps)) =
      (CHR '' '' # p) # map ((#) (CHR '' '')) ps"
    using Cons.prems by (intro Cons.IH) simp_all
  then show ?case
    using split_on_append [OF Cons.prems(1), of "(CHR '' '' # p) @ concat (map (\<lambda>p. ''; '' @ p) ps)"] by simp
qed simp

lemma ua_attribute_valued:
  "cookie_octets k \<Longrightarrow> trim v = v \<Longrightarrow> ua_attribute (CHR '' '' # k @ CHR ''='' # v) = (k, v)"
proof -
  assume k: "cookie_octets k" and v: "trim v = v"
  have "split_once (CHR ''='') ((CHR '' '' # k) @ CHR ''='' # v) = Some (CHR '' '' # k, v)"
    unfolding split_once_Some using cookie_octets_free(2) [OF k] by simp
  then show ?thesis using k v by (simp add: ua_attribute_def)
qed

lemma ua_attribute_flag: "cookie_octets k \<Longrightarrow> ua_attribute (CHR '' '' # k) = (k, [])"
proof -
  assume k: "cookie_octets k"
  have "split_once (CHR ''='') (CHR '' '' # k) = None"
    unfolding split_once_None using cookie_octets_free(2) [OF k] by simp
  then show ?thesis using k by (simp add: ua_attribute_def)
qed

lemma digit_char_octet: "n < 10 \<Longrightarrow> cookie_octets [digit_char n]"
proof -
  assume n: "n < 10"
  then have c: "of_char (digit_char n) = (48 + n :: nat)" by (simp add: digit_char_def of_char_of)
  have "digit_char n \<noteq> CHR '';''" "digit_char n \<noteq> CHR ''=''" "digit_char n \<noteq> CHR ''\"''"
    using c n by (auto dest: arg_cong [where f = "of_char :: char \<Rightarrow> nat"])
  then show ?thesis
    using n by (simp add: cookie_octets_def visible_def word_le_nat_alt word_less_nat_alt unat_byte_of c)
qed

lemma dec_str_octets: "cookie_octets (dec_str n)"
proof (induction n rule: dec_str.induct)
  case (1 n)
  then show ?case
    using digit_char_octet [of n] digit_char_octet [of "n mod 10"] by (subst dec_str.simps) simp
qed

lemma int_str_octets: "cookie_octets (int_str n)"
proof -
  have "cookie_octets ''-''" by (simp add: cookie_octets_def visible_def byte_of_def)
  then show ?thesis
    using dec_str_octets [of "nat (- n)"] dec_str_octets [of "nat n"] cookie_octets_append [of "''-''"]
    by (simp add: int_str_def)
qed

lemma attribute_names:
  "cookie_octets ''Domain''" "cookie_octets ''Path''" "cookie_octets ''Max-Age''" "cookie_octets ''Expires''"
  "cookie_octets ''Secure''" "cookie_octets ''HttpOnly''" "cookie_octets ''SameSite''" "cookie_octets ''Partitioned''"
  by (simp_all add: cookie_octets_def visible_def byte_of_def)

lemma same_site_octets: "cookie_octets (same_site_str s)"
  by (cases s) (simp_all add: cookie_octets_def visible_def byte_of_def)

text \<open>
  A user agent reads back the cookie a response sets, with every attribute and nothing added, as long as no
  part holds a semicolon or begins or ends with white space.
\<close>

lemma set_cookie_read:
  assumes "set_cookie_ok sc"
  shows "ua_set_cookie (to_header_value sc) = ((sc_name sc, sc_value sc), set_cookie_attributes sc)"
proof -
  have ok: "cookie_pair_ok (sc_name sc, sc_value sc)"
    and attrs: "pred_option attribute_text (sc_domain sc)" "pred_option attribute_text (sc_path sc)"
      "pred_option attribute_text (sc_expires sc)"
    using assms by (auto simp: set_cookie_ok_def)
  note free = cookie_octets_free(1) [OF int_str_octets] cookie_octets_free(1) [OF same_site_octets]
  have parts: "list_all (\<lambda>p. CHR '';'' \<notin> set p) (set_cookie_parts sc)"
    using attrs free by (auto simp: set_cookie_parts_def attribute_text_def split: option.split)
  let ?read = "map (\<lambda>p. ua_attribute (CHR '' '' # p))"
  have valued: "ua_attribute (CHR '' '' # k @ ''='' @ v) = (k, v)" if "cookie_octets k" "trim v = v" for k v
    using ua_attribute_valued [OF that] by simp
  have worded: "?read (case x of Some v \<Rightarrow> [k @ ''='' @ v] | None \<Rightarrow> []) = (case x of Some v \<Rightarrow> [(k, v)] | None \<Rightarrow> [])"
    if "cookie_octets k" "pred_option attribute_text x" for k x
    using that valued [of k] by (cases x) (simp_all add: attribute_text_def)
  have age: "?read (case sc_max_age sc of Some a \<Rightarrow> [''Max-Age='' @ int_str a] | None \<Rightarrow> []) =
      (case sc_max_age sc of Some a \<Rightarrow> [(''Max-Age'', int_str a)] | None \<Rightarrow> [])"
    using valued [OF attribute_names(3) trim_cookie_octets [OF int_str_octets]] by (cases "sc_max_age sc") simp_all
  have same_site: "?read (case sc_same_site sc of Some x \<Rightarrow> [''SameSite='' @ same_site_str x] | None \<Rightarrow> []) =
      (case sc_same_site sc of Some x \<Rightarrow> [(''SameSite'', same_site_str x)] | None \<Rightarrow> [])"
    using valued [OF attribute_names(7) trim_cookie_octets [OF same_site_octets]]
    by (cases "sc_same_site sc") simp_all
  have flag: "?read (if b then [k] else []) = (if b then [(k, [])] else [])" if "cookie_octets k" for b k
    using ua_attribute_flag [OF that] by simp
  note words = worded [OF attribute_names(1) attrs(1), unfolded append.simps]
    worded [OF attribute_names(2) attrs(2), unfolded append.simps]
    worded [OF attribute_names(4) attrs(3), unfolded append.simps]
  have "?read (set_cookie_parts sc) = set_cookie_attributes sc"
    unfolding set_cookie_parts_def set_cookie_attributes_def map_append append.simps words age [unfolded append.simps] same_site [unfolded append.simps] append.simps
      flag [OF attribute_names(5)] flag [OF attribute_names(6)] flag [OF attribute_names(8)] ..
  then have "map ua_attribute (map ((#) (CHR '' '')) (set_cookie_parts sc)) = set_cookie_attributes sc"
    by (simp add: o_def)
  moreover have "ua_attribute (ua_pair (sc_name sc, sc_value sc)) = (sc_name sc, sc_value sc)"
  proof -
    have "split_once (CHR ''='') (ua_pair (sc_name sc, sc_value sc)) = Some (sc_name sc, sc_value sc)"
      unfolding split_once_Some using ok cookie_octets_free(2) [of "sc_name sc"]
      by (simp add: ua_pair_def cookie_pair_ok_def)
    then show ?thesis using ok by (simp add: ua_attribute_def cookie_pair_ok_def)
  qed
  ultimately show ?thesis
    unfolding ua_set_cookie_def to_header_value_parts
      split_on_parts [OF ua_pair_no_semicolon [OF ok] parts] by simp
qed

section \<open>Properties\<close>

text \<open>
  C26. A session survives the trip through the user agent: the identifier the manager generated, sent in a
  \<open>Set-Cookie\<close> header and returned among other cookies, is the one the manager extracts, whatever path and
  attributes the processor is configured with, unless an earlier cookie has the same name.
\<close>

theorem session_cookie_roundtrip:
  assumes "random \<noteq> []"
    and "fst (ua_set_cookie (build_set_cookie cp (generate_session_id random))) = pair"
    and "list_all cookie_pair_ok before" "list_all cookie_pair_ok later"
    and "list_all (\<lambda>p. fst p \<noteq> SESSION_COOKIE_NAME) before"
  shows "extract_session_id (ua_cookie_header (before @ pair # later)) = Some (generate_session_id random)"
proof -
  let ?i = "generate_session_id random"
  have pair: "pair = (SESSION_COOKIE_NAME, ?i)" "cookie_pair_ok pair"
    using assms(2) ua_session_pair(1) [OF generated_id_safe [OF assms(1)], of cp]
      ua_session_pair(2) [OF generated_id_safe [OF assms(1)]] by auto
  have "session_parse_cookie_header (ua_cookie_header (before @ pair # later)) = before @ pair # later"
    using assms(3,4) pair(2) by (simp add: cookie_parsers_equal parse_cookie_header_ua comp_def)
  then show ?thesis
    using find_after [of "\<lambda>(n, v). n = SESSION_COOKIE_NAME" before pair later] assms(5)
    by (simp add: extract_session_id_def pair(1) case_prod_beta)
qed

theorem session_cookie_roundtrip_witness:
  "extract_session_id (ua_cookie_header ([(''theme'', ''dark'')] @
      fst (ua_set_cookie (build_set_cookie cookie_processor_new (generate_session_id [0xA5]))) # [(''lang'', ''en'')])) =
    Some (generate_session_id [0xA5])"
  by (rule session_cookie_roundtrip [OF _ refl])
    (simp_all add: cookie_pair_ok_def cookie_octets_def visible_def byte_of_def SESSION_COOKIE_NAME_def)

end
