(* ===== verification/Negotiate.thy ===== *)
theory Negotiate
  imports Cookies
begin

text \<open>
  Content negotiation: the second half of \<open>src/crates/tomcatrs-coyote/src/cookies.rs\<close> and the accessors
  of \<open>Request\<close> in \<open>lib.rs\<close>.

  A quality is an \<open>f32\<close> between 0 and 1 or not a number. Every \<open>f32\<close> of that range is a multiple of
  \<open>2^-149\<close>, so a quality is the number of such units, and \<open>None\<close> is NaN.
\<close>

section \<open>Qualities\<close>

type_synonym Quality = "int option"

definition q_one :: int where
  "q_one = 2 ^ 149"

text \<open>The number of binary digits.\<close>

function bit_len :: "int \<Rightarrow> nat" where
  "bit_len n = (if n \<le> 0 then 0 else Suc (bit_len (n div 2)))"
  by pat_completeness auto
termination by (relation "measure nat") auto

declare bit_len.simps [simp del]

text \<open>
  The \<open>f32\<close> nearest to \<open>a / b\<close>, which is less than 1, in units of \<open>2^-149\<close>: 24 significant binary digits,
  ties to even.
\<close>

definition round_f32 :: "int \<Rightarrow> int \<Rightarrow> int" where
  "round_f32 a b =
    (let x = a * 2 ^ 149;
         quantum = 2 ^ (bit_len (x div b) - 24);
         m = x div (b * quantum);
         r = x mod (b * quantum);
         up = (b * quantum < 2 * r \<or> 2 * r = b * quantum \<and> odd m)
     in (if up then m + 1 else m) * quantum)"

text \<open>
  \<open>val.parse::<f32>().unwrap_or(1.0).clamp(0.0, 1.0)\<close>: a sign, then \<open>inf\<close>, \<open>infinity\<close> or \<open>nan\<close>, or decimal
  digits with at most one point among them and an exponent.
\<close>

fun take_digits :: "int \<Rightarrow> string \<Rightarrow> int \<times> nat \<times> string" where
  "take_digits acc [] = (acc, 0, [])"
| "take_digits acc (c # s) =
    (case digit_value c of
       None \<Rightarrow> (acc, 0, c # s)
     | Some d \<Rightarrow> (case take_digits (acc * 10 + int d) s of (a, n, rest) \<Rightarrow> (a, n + 1, rest)))"

definition parse_exponent :: "string \<Rightarrow> int option" where
  "parse_exponent s =
    (case s of
       [] \<Rightarrow> Some 0
     | c # t \<Rightarrow>
         if c = CHR ''e'' \<or> c = CHR ''E'' then
           (let neg = (take 1 t = ''-'');
                u = (if take 1 t = ''-'' \<or> take 1 t = ''+'' then drop 1 t else t)
            in (case take_digits 0 u of
                  (n, k, rest) \<Rightarrow> if k = 0 \<or> rest \<noteq> [] then None else Some (if neg then - n else n)))
         else None)"

definition parse_decimal :: "string \<Rightarrow> (int \<times> int) option" where
  "parse_decimal s =
    (case take_digits 0 s of
       (whole, k, rest) \<Rightarrow>
         (case (if take 1 rest = ''.'' then take_digits whole (drop 1 rest) else (whole, 0, rest)) of
            (digits, f, rest) \<Rightarrow>
              if k + f = 0 then None
              else map_option (\<lambda>e. (digits, e - int f)) (parse_exponent rest)))"

definition quality_of_decimal :: "int \<Rightarrow> int \<Rightarrow> int" where
  "quality_of_decimal digits e =
    (let a = digits * 10 ^ nat e; b = 10 ^ nat (- e)
     in if b \<le> a then q_one else round_f32 a b)"

definition parse_quality :: "string \<Rightarrow> Quality" where
  "parse_quality val =
    (let neg = (take 1 val = ''-'');
         body = (if take 1 val = ''-'' \<or> take 1 val = ''+'' then drop 1 val else val)
     in if eq_ignore_ascii_case body ''nan'' then None
        else if eq_ignore_ascii_case body ''inf'' \<or> eq_ignore_ascii_case body ''infinity'' then
          Some (if neg then 0 else q_one)
        else (case parse_decimal body of
                None \<Rightarrow> Some q_one
              | Some (digits, e) \<Rightarrow> Some (if neg then 0 else quality_of_decimal digits e)))"

section \<open>Media ranges\<close>

record MediaRange =
  mr_type :: string
  mr_subtype :: string
  mr_quality :: Quality
  mr_params :: "(string \<times> string) list"

definition full_type :: "MediaRange \<Rightarrow> string" where
  "full_type r = mr_type r @ ''/'' @ mr_subtype r"

definition media_specificity :: "MediaRange \<Rightarrow> nat" where
  "media_specificity r =
    ((if mr_type r \<noteq> ''*'' then 2 else 0) + (if mr_subtype r \<noteq> ''*'' then 1 else 0)) * 4 +
    min (length (mr_params r)) 3"

definition range_matches :: "MediaRange \<Rightarrow> string \<Rightarrow> bool" where
  "range_matches r candidate =
    (case split_once (CHR ''/'') candidate of
       None \<Rightarrow> False
     | Some (ctype, csub) \<Rightarrow>
         (mr_type r = ''*'' \<or> eq_ignore_ascii_case (mr_type r) ctype) \<and>
         (mr_subtype r = ''*'' \<or> eq_ignore_ascii_case (mr_subtype r) csub))"

definition trim_quotes :: "string \<Rightarrow> string" where
  "trim_quotes s = rev (dropWhile (\<lambda>c. c = CHR ''\"'') (rev (dropWhile (\<lambda>c. c = CHR ''\"'') s)))"

fun media_params :: "string list \<Rightarrow> Quality \<Rightarrow> (string \<times> string) list \<Rightarrow> Quality \<times> (string \<times> string) list" where
  "media_params [] quality params = (quality, params)"
| "media_params (raw # parts) quality params =
    (let param = trim raw in
     if param = [] then media_params parts quality params
     else case split_once (CHR ''='') param of
       None \<Rightarrow> media_params parts quality params
     | Some (k, v) \<Rightarrow>
         (let key = trim k; val = trim_quotes (trim v) in
          if eq_ignore_ascii_case key ''q'' then media_params parts (parse_quality val) params
          else media_params parts quality (params @ [(key, val)])))"

definition parse_media_range :: "string \<Rightarrow> MediaRange option" where
  "parse_media_range raw =
    (let entry = trim raw in
     if entry = [] then None
     else case split_on (CHR '';'') entry of
       [] \<Rightarrow> None
     | media # parts \<Rightarrow>
         (case split_once (CHR ''/'') (trim media) of
            None \<Rightarrow> None
          | Some (t, s) \<Rightarrow>
              (let ty = trim t; subtype = trim s in
               if ty = [] \<or> subtype = [] then None
               else (case media_params parts (Some q_one) [] of
                       (quality, params) \<Rightarrow>
                         Some \<lparr>mr_type = ty, mr_subtype = subtype, mr_quality = quality, mr_params = params\<rparr>))))"

text \<open>
  \<open>sort_by\<close> is stable: it inserts each element before the first one that does not have to precede it. The
  order of the comparison is a total one on numbers; on NaN the comparison contradicts itself and the
  library promises no order (and may panic).
\<close>

fun insert_by :: "('a \<Rightarrow> 'a \<Rightarrow> bool) \<Rightarrow> 'a \<Rightarrow> 'a list \<Rightarrow> 'a list" where
  "insert_by before x [] = [x]"
| "insert_by before x (y # ys) = (if before y x then y # insert_by before x ys else x # y # ys)"

definition sort_by :: "('a \<Rightarrow> 'a \<Rightarrow> bool) \<Rightarrow> 'a list \<Rightarrow> 'a list" where
  "sort_by before xs = foldr (insert_by before) xs []"

definition quality_cmp :: "Quality \<Rightarrow> Quality \<Rightarrow> nat" where
  "quality_cmp a b =
    (case (a, b) of
       (Some x, Some y) \<Rightarrow> if x < y then 0 else if x = y then 1 else 2
     | _ \<Rightarrow> 1)"

definition range_before :: "MediaRange \<Rightarrow> MediaRange \<Rightarrow> bool" where
  "range_before a b =
    (let c = quality_cmp (mr_quality b) (mr_quality a) in
     c = 0 \<or> c = 1 \<and> media_specificity b < media_specificity a)"

definition parse_accept :: "string \<Rightarrow> MediaRange list" where
  "parse_accept header = sort_by range_before (List.map_filter parse_media_range (split_on (CHR '','') header))"

section \<open>Quality lists\<close>

record QualityValue =
  qv_value :: string
  qv_quality :: Quality

fun quality_params :: "string list \<Rightarrow> Quality \<Rightarrow> Quality" where
  "quality_params [] quality = quality"
| "quality_params (raw # parts) quality =
    (case split_once (CHR ''='') (trim raw) of
       None \<Rightarrow> quality_params parts quality
     | Some (k, v) \<Rightarrow>
         quality_params parts (if eq_ignore_ascii_case (trim k) ''q'' then parse_quality (trim v) else quality))"

definition parse_quality_item :: "string \<Rightarrow> QualityValue option" where
  "parse_quality_item raw =
    (let entry = trim raw in
     if entry = [] then None
     else case split_on (CHR '';'') entry of
       [] \<Rightarrow> None
     | t # parts \<Rightarrow>
         (let token = trim t in
          if token = [] then None
          else Some \<lparr>qv_value = to_ascii_lowercase token, qv_quality = quality_params parts (Some q_one)\<rparr>))"

definition parse_quality_list :: "string \<Rightarrow> QualityValue list" where
  "parse_quality_list header =
    sort_by (\<lambda>a b. quality_cmp (qv_quality b) (qv_quality a) = 0)
      (List.map_filter parse_quality_item (split_on (CHR '','') header))"

definition parse_accept_encoding :: "string \<Rightarrow> QualityValue list" where
  "parse_accept_encoding header = parse_quality_list header"

definition parse_accept_language :: "string \<Rightarrow> QualityValue list" where
  "parse_accept_language header = parse_quality_list header"

section \<open>Negotiation\<close>

fun negotiate_from :: "MediaRange list \<Rightarrow> string list \<Rightarrow> (string \<times> int) option \<Rightarrow> (string \<times> int) option" where
  "negotiate_from ranges [] best = best"
| "negotiate_from ranges (candidate # cs) best =
    (case Option.bind (List.find (\<lambda>r. range_matches r candidate) ranges) mr_quality of
       None \<Rightarrow> negotiate_from ranges cs best
     | Some q \<Rightarrow>
         if \<not> 0 < q then negotiate_from ranges cs best
         else negotiate_from ranges cs
           (case best of
              Some (c, best_q) \<Rightarrow> if best_q < q then Some (candidate, q) else best
            | None \<Rightarrow> Some (candidate, q)))"

definition negotiate :: "string \<Rightarrow> string list \<Rightarrow> string option" where
  "negotiate accept available =
    (let ranges = parse_accept accept in
     if ranges = [] then (case available of c # cs \<Rightarrow> Some c | [] \<Rightarrow> None)
     else map_option fst (negotiate_from ranges available None))"

definition request_accept :: "Request \<Rightarrow> MediaRange list" where
  "request_accept rq = (case request_header ''accept'' rq of Some v \<Rightarrow> parse_accept v | None \<Rightarrow> [])"

definition request_accept_encoding :: "Request \<Rightarrow> QualityValue list" where
  "request_accept_encoding rq =
    (case request_header ''accept-encoding'' rq of Some v \<Rightarrow> parse_accept_encoding v | None \<Rightarrow> [])"

definition request_accept_language :: "Request \<Rightarrow> QualityValue list" where
  "request_accept_language rq =
    (case request_header ''accept-language'' rq of Some v \<Rightarrow> parse_accept_language v | None \<Rightarrow> [])"

section \<open>Lemmas\<close>

lemma set_insert_by [simp]: "set (insert_by before x xs) = insert x (set xs)"
  by (induction xs) auto

lemma set_sort_by [simp]: "set (sort_by before xs) = set xs"
  by (induction xs) (simp_all add: sort_by_def)

text \<open>Sorting by a strict weak order puts no element after one it has to precede.\<close>

lemma sorted_insert_by:
  assumes "\<And>a b c. a \<in> insert x (set ys) \<Longrightarrow> b \<in> insert x (set ys) \<Longrightarrow> c \<in> insert x (set ys) \<Longrightarrow>
      \<not> before b a \<Longrightarrow> \<not> before c b \<Longrightarrow> \<not> before c a"
    and "\<And>a b. a \<in> insert x (set ys) \<Longrightarrow> b \<in> insert x (set ys) \<Longrightarrow> before a b \<Longrightarrow> \<not> before b a"
    and "sorted_wrt (\<lambda>a b. \<not> before b a) ys"
  shows "sorted_wrt (\<lambda>a b. \<not> before b a) (insert_by before x ys)"
  using assms
proof (induction ys)
  case Nil
  show ?case by simp
next
  case (Cons y ys)
  show ?case
  proof (cases "before y x")
    case True
    have "sorted_wrt (\<lambda>a b. \<not> before b a) (insert_by before x ys)"
    proof (rule Cons.IH)
      show "\<not> before c a" if "a \<in> insert x (set ys)" "b \<in> insert x (set ys)" "c \<in> insert x (set ys)"
        "\<not> before b a" "\<not> before c b" for a b c
        using that by (intro Cons.prems(1) [of a b c]) auto
      show "\<not> before b a" if "a \<in> insert x (set ys)" "b \<in> insert x (set ys)" "before a b" for a b
        using that by (intro Cons.prems(2) [of a b]) auto
    qed (use Cons.prems(3) in simp)
    then show ?thesis using True Cons.prems(2) [of y x] Cons.prems(3) by simp
  next
    case False
    have "\<not> before z x" if "z \<in> set ys" for z
      using Cons.prems(1) [of x y z] Cons.prems(3) that False by simp
    then show ?thesis using False Cons.prems(3) by simp
  qed
qed

lemma sorted_sort_by:
  assumes "\<And>a b c. a \<in> set xs \<Longrightarrow> b \<in> set xs \<Longrightarrow> c \<in> set xs \<Longrightarrow>
      \<not> before b a \<Longrightarrow> \<not> before c b \<Longrightarrow> \<not> before c a"
    and "\<And>a b. a \<in> set xs \<Longrightarrow> b \<in> set xs \<Longrightarrow> before a b \<Longrightarrow> \<not> before b a"
  shows "sorted_wrt (\<lambda>a b. \<not> before b a) (sort_by before xs)"
  using assms
proof (induction xs)
  case Nil
  show ?case by (simp add: sort_by_def)
next
  case (Cons x xs)
  have s: "set (foldr (insert_by before) xs []) = set xs"
    using set_sort_by [of before xs] by (simp add: sort_by_def)
  have "sorted_wrt (\<lambda>a b. \<not> before b a) (sort_by before xs)"
  proof (rule Cons.IH)
    show "\<not> before c a" if "a \<in> set xs" "b \<in> set xs" "c \<in> set xs" "\<not> before b a" "\<not> before c b" for a b c
      using Cons.prems(1) [of a b c] that by simp
    show "\<not> before b a" if "a \<in> set xs" "b \<in> set xs" "before a b" for a b
      using Cons.prems(2) [of a b] that by simp
  qed
  then have ih: "sorted_wrt (\<lambda>a b. \<not> before b a) (foldr (insert_by before) xs [])"
    by (simp add: sort_by_def)
  have "sorted_wrt (\<lambda>a b. \<not> before b a) (insert_by before x (foldr (insert_by before) xs []))"
  proof (rule sorted_insert_by [OF _ _ ih])
    show "\<not> before c a" if "a \<in> insert x (set (foldr (insert_by before) xs []))"
      "b \<in> insert x (set (foldr (insert_by before) xs []))"
      "c \<in> insert x (set (foldr (insert_by before) xs []))" "\<not> before b a" "\<not> before c b" for a b c
      using that unfolding s by (intro Cons.prems(1) [of a b c]) auto
    show "\<not> before b a" if "a \<in> insert x (set (foldr (insert_by before) xs []))"
      "b \<in> insert x (set (foldr (insert_by before) xs []))" "before a b" for a b
      using that unfolding s by (intro Cons.prems(2) [of a b]) auto
  qed
  then show ?case by (simp add: sort_by_def)
qed

definition all_numbers :: "MediaRange list \<Rightarrow> bool" where
  "all_numbers ranges \<longleftrightarrow> list_all (\<lambda>r. mr_quality r \<noteq> None) ranges"

lemma range_before_numbers:
  "mr_quality a = Some x \<Longrightarrow> mr_quality b = Some y \<Longrightarrow>
    range_before a b \<longleftrightarrow> y < x \<or> x = y \<and> media_specificity b < media_specificity a"
  by (auto simp: range_before_def quality_cmp_def Let_def)

lemma parse_accept_sorted:
  assumes "all_numbers (parse_accept h)"
  shows "sorted_wrt (\<lambda>a b. \<not> range_before b a) (parse_accept h)"
proof -
  let ?xs = "List.map_filter parse_media_range (split_on (CHR '','') h)"
  have n: "\<exists>x. mr_quality a = Some x" if "a \<in> set ?xs" for a
    using assms that by (auto simp: all_numbers_def parse_accept_def list_all_iff)
  show ?thesis
    unfolding parse_accept_def
  proof (rule sorted_sort_by)
    fix a b c
    assume abc: "a \<in> set ?xs" "b \<in> set ?xs" "c \<in> set ?xs" "\<not> range_before b a" "\<not> range_before c b"
    obtain x y z where "mr_quality a = Some x" "mr_quality b = Some y" "mr_quality c = Some z"
      using n [OF abc(1)] n [OF abc(2)] n [OF abc(3)] by auto
    then show "\<not> range_before c a" using abc(4,5) by (auto simp: range_before_numbers)
  next
    fix a b
    assume ab: "a \<in> set ?xs" "b \<in> set ?xs" "range_before a b"
    obtain x y where "mr_quality a = Some x" "mr_quality b = Some y"
      using n [OF ab(1)] n [OF ab(2)] by auto
    then show "\<not> range_before b a" using ab(3) by (auto simp: range_before_numbers)
  qed
qed

text \<open>The weight of a candidate: the highest quality of the ranges that match it, 0 if there is none.\<close>

definition weight :: "MediaRange list \<Rightarrow> string \<Rightarrow> int" where
  "weight ranges c =
    (let qs = {q. \<exists>r \<in> set ranges. range_matches r c \<and> mr_quality r = Some q} in if qs = {} then 0 else Max qs)"

lemma first_match_weight:
  assumes "sorted_wrt (\<lambda>a b. \<not> range_before b a) ranges" "all_numbers ranges"
  shows "(case Option.bind (List.find (\<lambda>r. range_matches r c) ranges) mr_quality of Some q \<Rightarrow> q | None \<Rightarrow> 0) =
    weight ranges c"
  using assms
proof (induction ranges)
  case (Cons r ranges)
  obtain q where q: "mr_quality r = Some q" using Cons.prems(2) by (auto simp: all_numbers_def)
  show ?case
  proof (cases "range_matches r c")
    case True
    let ?qs = "{p. \<exists>s \<in> set (r # ranges). range_matches s c \<and> mr_quality s = Some p}"
    have "q \<in> ?qs" using True q by auto
    moreover have "p \<le> q" if "p \<in> ?qs" for p
    proof -
      from that obtain s where s: "s \<in> set (r # ranges)" "mr_quality s = Some p" by fast
      then show ?thesis
        using Cons.prems(1) q range_before_numbers [OF s(2) q] by (cases "s = r") auto
    qed
    moreover have "finite ?qs"
      by (rule finite_subset [of _ "(\<lambda>s. the (mr_quality s)) ` set (r # ranges)"]) force+
    ultimately have "Max ?qs = q" by (intro Max_eqI) auto
    then show ?thesis using True q \<open>q \<in> ?qs\<close> by (auto simp: weight_def Let_def)
  next
    case False
    have "weight (r # ranges) c = weight ranges c" using False by (simp add: weight_def)
    then show ?thesis using False Cons by (simp add: all_numbers_def)
  qed
qed (simp add: weight_def)

definition heavier :: "MediaRange list \<Rightarrow> string list \<Rightarrow> string \<Rightarrow> bool" where
  "heavier ranges cs c \<longleftrightarrow> 0 < weight ranges c \<and> (\<forall>d \<in> set cs. weight ranges d \<le> weight ranges c)"

lemma find_split: "List.find P (xs @ ys) = (case List.find P xs of None \<Rightarrow> List.find P ys | Some x \<Rightarrow> Some x)"
  by (induction xs) auto

lemma find_heavier_None: "List.find (heavier ranges xs) xs = None \<longleftrightarrow> (\<forall>x \<in> set xs. \<not> 0 < weight ranges x)"
proof
  assume none: "List.find (heavier ranges xs) xs = None"
  show "\<forall>x \<in> set xs. \<not> 0 < weight ranges x"
  proof (rule ccontr)
    assume "\<not> (\<forall>x \<in> set xs. \<not> 0 < weight ranges x)"
    then obtain x where x: "x \<in> set xs" "0 < weight ranges x" by auto
    define m where "m = Max (weight ranges ` set xs)"
    have "m \<in> weight ranges ` set xs" using x unfolding m_def by (intro Max_in) auto
    then obtain y where y: "y \<in> set xs" "m = weight ranges y" by auto
    have le: "weight ranges z \<le> m" if "z \<in> set xs" for z using that by (simp add: m_def)
    have "heavier ranges xs y" unfolding heavier_def using le le [OF x(1)] x(2) y(2) by auto
    then show False using none y(1) by (auto simp: find_None_iff)
  qed
qed (auto simp: find_None_iff heavier_def)

text \<open>One more candidate replaces the best so far only if it is strictly heavier.\<close>

lemma best_append:
  fixes ranges seen c
  defines "best \<equiv> \<lambda>xs. map_option (\<lambda>c. (c, weight ranges c)) (List.find (heavier ranges xs) xs)"
  shows "(let q = weight ranges c in
     if \<not> 0 < q then best seen
     else (case best seen of Some (b, best_q) \<Rightarrow> if best_q < q then Some (c, q) else best seen | None \<Rightarrow> Some (c, q))) =
    best (seen @ [c])"
proof (cases "List.find (heavier ranges seen) seen")
  case None
  then have z: "\<forall>x \<in> set seen. \<not> 0 < weight ranges x" by (simp add: find_heavier_None)
  then have "List.find (heavier ranges (seen @ [c])) seen = None"
    by (auto simp: find_None_iff heavier_def)
  then show ?thesis using None z
    by (auto simp: best_def find_split Let_def heavier_def intro: order_trans less_imp_le)
next
  case (Some b)
  then have b: "b \<in> set seen" "heavier ranges seen b" by (auto simp: find_Some_iff)
  show ?thesis
  proof (cases "weight ranges b < weight ranges c")
    case True
    then have "List.find (heavier ranges (seen @ [c])) seen = None"
      using b(2) by (fastforce simp: find_None_iff heavier_def)
    moreover have "heavier ranges (seen @ [c]) c"
      using True b(2) by (auto simp: heavier_def intro: order_trans)
    moreover have "0 < weight ranges c" using True b(2) by (simp add: heavier_def)
    ultimately show ?thesis using True Some by (simp add: best_def find_split Let_def)
  next
    case False
    have "heavier ranges (seen @ [c]) x = heavier ranges seen x" if "x \<in> set seen" for x
      using that b False by (auto simp: heavier_def intro: order_trans)
    then have "List.find (heavier ranges (seen @ [c])) seen = Some b"
      using Some find_cong [of seen seen "heavier ranges (seen @ [c])" "heavier ranges seen"] by simp
    then show ?thesis using False Some by (simp add: best_def find_split Let_def)
  qed
qed

lemma negotiate_from_weight:
  assumes "sorted_wrt (\<lambda>a b. \<not> range_before b a) ranges" "all_numbers ranges"
  shows "negotiate_from ranges (c # cs) best = negotiate_from ranges cs
    (let q = weight ranges c in
     if \<not> 0 < q then best
     else (case best of Some (b, best_q) \<Rightarrow> if best_q < q then Some (c, q) else best | None \<Rightarrow> Some (c, q)))"
  using first_match_weight [OF assms, of c]
  by (simp split: option.splits add: Let_def)

lemma negotiate_from_heaviest:
  assumes "sorted_wrt (\<lambda>a b. \<not> range_before b a) ranges" "all_numbers ranges"
  shows "map_option fst (negotiate_from ranges cs (map_option (\<lambda>c. (c, weight ranges c))
      (List.find (heavier ranges seen) seen))) =
    List.find (heavier ranges (seen @ cs)) (seen @ cs)"
proof (induction cs arbitrary: seen)
  case Nil
  then show ?case by (simp add: option.map_comp comp_def option.map_ident)
next
  case (Cons c cs)
  let ?best = "\<lambda>xs. map_option (\<lambda>c. (c, weight ranges c)) (List.find (heavier ranges xs) xs)"
  have "(let q = weight ranges c in
     if \<not> 0 < q then ?best seen
     else (case ?best seen of Some (b, best_q) \<Rightarrow> if best_q < q then Some (c, q) else ?best seen | None \<Rightarrow> Some (c, q))) =
    ?best (seen @ [c])"
    by (rule best_append)
  then show ?case using Cons.IH [of "seen @ [c]"] by (simp add: negotiate_from_weight [OF assms] del: negotiate_from.simps)
qed

section \<open>Properties\<close>

text \<open>A range that matches nothing: no candidate is refused, and none is chosen.\<close>

lemma negotiate_unmatched:
  "negotiate ''a/b'' [''c/d''] = None"
  "map (\<lambda>r. (full_type r, mr_quality r)) (parse_accept ''a/b'') = [(''a/b'', Some q_one)]"
  by code_simp+

text \<open>
  C27. If no quality of the header is NaN, negotiation chooses the first of the server's media types that has
  the greatest weight, the weight of a type being the highest quality of the ranges that match it, and zero if
  none does; types of weight zero are not acceptable, and without any media range the server's first choice is
  taken. So nothing is chosen, out of a list that is not empty, exactly if there are ranges and every type
  has weight zero, be it refused or just not mentioned: for the header \<open>a/b\<close>, which refuses nothing, a server
  of \<open>c/d\<close> alone has nothing to offer.
\<close>

theorem negotiate_heaviest:
  assumes "all_numbers (parse_accept accept)"
  shows "negotiate accept available =
    (if parse_accept accept = [] then (case available of c # cs \<Rightarrow> Some c | [] \<Rightarrow> None)
     else List.find (\<lambda>c. 0 < weight (parse_accept accept) c \<and>
       (\<forall>d \<in> set available. weight (parse_accept accept) d \<le> weight (parse_accept accept) c)) available) \<and>
    (negotiate accept available = None \<longleftrightarrow>
      available = [] \<or> parse_accept accept \<noteq> [] \<and> list_all (\<lambda>c. weight (parse_accept accept) c \<le> 0) available) \<and>
    negotiate ''a/b'' [''c/d''] = None \<and>
    map (\<lambda>r. (full_type r, mr_quality r)) (parse_accept ''a/b'') = [(''a/b'', Some q_one)]"
proof -
  have n: "negotiate accept available =
    (if parse_accept accept = [] then (case available of c # cs \<Rightarrow> Some c | [] \<Rightarrow> None)
     else List.find (heavier (parse_accept accept) available) available)"
    using negotiate_from_heaviest [OF parse_accept_sorted [OF assms] assms, of available "[]"]
    by (simp add: negotiate_def Let_def)
  have "negotiate accept available = None \<longleftrightarrow>
      available = [] \<or> parse_accept accept \<noteq> [] \<and> list_all (\<lambda>c. weight (parse_accept accept) c \<le> 0) available"
    unfolding n by (auto simp: find_heavier_None list_all_iff not_less split: list.split)
  then show ?thesis using n negotiate_unmatched by (simp add: heavier_def [abs_def])
qed

theorem negotiate_heaviest_witness:
  "List.find (\<lambda>c. 0 < weight (parse_accept ''a/b;q=0.8,c/d'') c \<and>
     (\<forall>d \<in> {''a/b'', ''c/d''}. weight (parse_accept ''a/b;q=0.8,c/d'') d
        \<le> weight (parse_accept ''a/b;q=0.8,c/d'') c)) [''a/b'', ''c/d''] =
    Some ''c/d''"
proof -
  let ?accept = "''a/b;q=0.8,c/d''"
  have "all_numbers (parse_accept ?accept)" by code_simp
  note negotiate_heaviest [OF this, of "[''a/b'', ''c/d'']"]
  note this [THEN conjunct1]
  moreover have "parse_accept ?accept \<noteq> []" by code_simp
  moreover have "negotiate ?accept [''a/b'', ''c/d''] = Some ''c/d''" by code_simp
  ultimately show ?thesis by simp
qed

text \<open>
  A range that refuses a type does not override a more general one of a higher quality: the refused type is
  chosen.
\<close>

lemma negotiate_ignores_refusal: "negotiate ''*/*,a/b;q=0'' [''a/b''] = Some ''a/b''"
  by code_simp

end
