(* ===== verification/Ajp.thy ===== *)
theory Ajp
  imports Message
begin

text \<open>
  The AJP/1.3 connector: \<open>src/crates/tomcatrs-coyote/src/ajp.rs\<close>. Packets and their cursors, the
  \<open>Forward Request\<close> decoder with its attribute filter, the response encoders, the comparison of the
  shared secret and the driver of a connection.

  A connection is the sequence of bytes the proxy sends until it closes; a read that runs out of bytes
  fails with the end-of-file error of the transport. What the connector does is a sequence of events,
  the packets it writes and the requests it hands to the adapter. Writes succeed. The adapter is a
  parameter.
\<close>

section \<open>Codes\<close>

definition MAX_PACKET_PAYLOAD :: nat where
  "MAX_PACKET_PAYLOAD = 65535"

definition MAX_SEND_CHUNK :: nat where
  "MAX_SEND_CHUNK = 8192"

definition MAGIC_IN :: bytes where
  "MAGIC_IN = [0x12, 0x34]"

definition MAGIC_OUT :: bytes where
  "MAGIC_OUT = [0x41, 0x42]"

datatype AjpMessageType =
  FORWARD_REQUEST | SHUTDOWN | CPING | CPONG | SEND_BODY_CHUNK | SEND_HEADERS | END_RESPONSE | GET_BODY_CHUNK

fun message_type_code :: "AjpMessageType \<Rightarrow> u8" where
  "message_type_code FORWARD_REQUEST = 0x02"
| "message_type_code SHUTDOWN = 0x07"
| "message_type_code CPING = 0x08"
| "message_type_code CPONG = 0x09"
| "message_type_code SEND_BODY_CHUNK = 0x03"
| "message_type_code SEND_HEADERS = 0x04"
| "message_type_code END_RESPONSE = 0x05"
| "message_type_code GET_BODY_CHUNK = 0x06"

definition message_type_from_code :: "u8 \<Rightarrow> AjpMessageType option" where
  "message_type_from_code code =
    (if code = 0x02 then Some FORWARD_REQUEST
     else if code = 0x07 then Some SHUTDOWN
     else if code = 0x08 then Some CPING
     else None)"

definition ajp_methods :: "(u8 \<times> string) list" where
  "ajp_methods =
    [(1, ''OPTIONS''), (2, ''GET''), (3, ''HEAD''), (4, ''POST''), (5, ''PUT''), (6, ''DELETE''),
     (7, ''TRACE''), (8, ''PROPFIND''), (9, ''PROPPATCH''), (10, ''MKCOL''), (11, ''COPY''),
     (12, ''MOVE''), (13, ''LOCK''), (14, ''UNLOCK''), (15, ''ACL''), (16, ''REPORT''),
     (17, ''VERSION-CONTROL''), (18, ''CHECKIN''), (19, ''CHECKOUT''), (20, ''UNCHECKOUT''),
     (21, ''SEARCH''), (22, ''MKWORKSPACE''), (23, ''UPDATE''), (24, ''LABEL''), (25, ''MERGE''),
     (26, ''BASELINE-CONTROL''), (27, ''MKACTIVITY'')]"

definition ajp_method_name :: "u8 \<Rightarrow> string option" where
  "ajp_method_name code = map_of ajp_methods code"

definition ajp_request_headers :: "(u16 \<times> string) list" where
  "ajp_request_headers =
    [(0xA001, ''accept''), (0xA002, ''accept-charset''), (0xA003, ''accept-encoding''),
     (0xA004, ''accept-language''), (0xA005, ''authorization''), (0xA006, ''connection''),
     (0xA007, ''content-type''), (0xA008, ''content-length''), (0xA009, ''cookie''), (0xA00A, ''cookie2''),
     (0xA00B, ''host''), (0xA00C, ''pragma''), (0xA00D, ''referer''), (0xA00E, ''user-agent'')]"

definition ajp_request_header_name :: "u16 \<Rightarrow> string option" where
  "ajp_request_header_name code = map_of ajp_request_headers code"

definition ajp_response_header_code :: "string \<Rightarrow> u16 option" where
  "ajp_response_header_code n =
    map_option snd (List.find (\<lambda>(h, c). eq_ignore_ascii_case n h)
      [(''content-type'', 0xA001), (''content-language'', 0xA002), (''content-length'', 0xA003),
       (''date'', 0xA004), (''last-modified'', 0xA005), (''location'', 0xA006), (''set-cookie'', 0xA007),
       (''set-cookie2'', 0xA008), (''servlet-engine'', 0xA009), (''status'', 0xA00A),
       (''www-authenticate'', 0xA00B)])"

section \<open>Packets\<close>

record AjpMessage =
  am_payload :: bytes
  am_pos :: nat

definition ajp_message_new :: AjpMessage where
  "ajp_message_new = \<lparr>am_payload = [], am_pos = 0\<rparr>"

definition from_payload :: "bytes \<Rightarrow> AjpMessage" where
  "from_payload p = \<lparr>am_payload = p, am_pos = 0\<rparr>"

definition ajp_remaining :: "AjpMessage \<Rightarrow> nat" where
  "ajp_remaining m = length (am_payload m) - am_pos m"

definition ajp_message_type :: "AjpMessage \<Rightarrow> u8 option" where
  "ajp_message_type m = (case am_payload m of b # bs \<Rightarrow> Some b | [] \<Rightarrow> None)"

definition truncated :: "string \<Rightarrow> Error" where
  "truncated what = Protocol (''AJP packet truncated while reading '' @ what)"

definition read_u8 :: "AjpMessage \<Rightarrow> Error + u8 \<times> AjpMessage" where
  "read_u8 m =
    (if length (am_payload m) \<le> am_pos m then Err (truncated ''u8'')
     else Ok (am_payload m ! am_pos m, m\<lparr>am_pos := am_pos m + 1\<rparr>))"

definition read_u16 :: "AjpMessage \<Rightarrow> Error + u16 \<times> AjpMessage" where
  "read_u16 m =
    (if length (am_payload m) < am_pos m + 2 then Err (truncated ''u16'')
     else Ok (from_be16 (am_payload m ! am_pos m) (am_payload m ! (am_pos m + 1)),
              m\<lparr>am_pos := am_pos m + 2\<rparr>))"

definition read_bytes :: "nat \<Rightarrow> AjpMessage \<Rightarrow> Error + bytes \<times> AjpMessage" where
  "read_bytes n m =
    (if length (am_payload m) < am_pos m + n then Err (truncated ''bytes'')
     else Ok (take n (drop (am_pos m) (am_payload m)), m\<lparr>am_pos := am_pos m + n\<rparr>))"

definition read_string :: "AjpMessage \<Rightarrow> Error + string option \<times> AjpMessage" where
  "read_string m =
    and_then (read_u16 m) (\<lambda>(len, m).
      if len = 0xFFFF then Ok (None, m)
      else and_then (read_bytes (unat len) m) (\<lambda>(raw, m).
        and_then (read_u8 m) (\<lambda>(nul, m).
          if nul \<noteq> 0 then Err (Protocol ''AJP string missing NUL terminator'')
          else case from_utf8 raw of
            None \<Rightarrow> Err (Protocol ''AJP string is not valid UTF-8'')
          | Some s \<Rightarrow> Ok (Some s, m))))"

definition read_required_string :: "AjpMessage \<Rightarrow> Error + string \<times> AjpMessage" where
  "read_required_string m =
    and_then (read_string m) (\<lambda>(x, m).
      and_then (ok_or x (Protocol ''expected AJP string, found null'')) (\<lambda>s. Ok (s, m)))"

definition write_u8 :: "u8 \<Rightarrow> AjpMessage \<Rightarrow> AjpMessage" where
  "write_u8 b m = m\<lparr>am_payload := am_payload m @ [b]\<rparr>"

definition write_u16 :: "u16 \<Rightarrow> AjpMessage \<Rightarrow> AjpMessage" where
  "write_u16 v m = m\<lparr>am_payload := am_payload m @ be16 v\<rparr>"

definition write_string :: "string option \<Rightarrow> AjpMessage \<Rightarrow> AjpMessage" where
  "write_string x m =
    (case x of
       None \<Rightarrow> write_u16 0xFFFF m
     | Some s \<Rightarrow>
         (let m = write_u16 (of_nat (length s)) m
          in m\<lparr>am_payload := am_payload m @ as_bytes s @ [0]\<rparr>))"

definition write_raw :: "bytes \<Rightarrow> AjpMessage \<Rightarrow> AjpMessage" where
  "write_raw b m = m\<lparr>am_payload := am_payload m @ b\<rparr>"

definition ajp_encode :: "bytes \<Rightarrow> AjpMessage \<Rightarrow> Error + bytes" where
  "ajp_encode magic m =
    (if MAX_PACKET_PAYLOAD < length (am_payload m) then Err (Protocol ''AJP packet payload exceeds 65535 bytes'')
     else Ok (magic @ be16 (of_nat (length (am_payload m))) @ am_payload m))"

definition unexpected_eof :: Error where
  "unexpected_eof = Io ''early eof''"

definition read_exact :: "nat \<Rightarrow> bytes \<Rightarrow> Error + bytes \<times> bytes" where
  "read_exact n inp = (if length inp < n then Err unexpected_eof else Ok (take n inp, drop n inp))"

definition read_from :: "bytes \<Rightarrow> bytes \<Rightarrow> Error + (AjpMessage \<times> bytes) option" where
  "read_from magic inp =
    (case inp of
       [] \<Rightarrow> Ok None
     | first # inp \<Rightarrow>
         and_then (read_exact 3 inp) (\<lambda>(header, inp).
           if first \<noteq> magic ! 0 \<or> header ! 0 \<noteq> magic ! 1 then
             Err (Protocol ''AJP packet has invalid magic prefix'')
           else and_then (read_exact (unat (from_be16 (header ! 1) (header ! 2))) inp)
             (\<lambda>(payload, inp). Ok (Some (from_payload payload, inp)))))"

section \<open>Forward requests\<close>

record ForwardRequest =
  fr_method :: string
  fr_protocol :: string
  fr_req_uri :: string
  fr_remote_addr :: string
  fr_remote_host :: "string option"
  fr_server_name :: string
  fr_server_port :: u16
  fr_is_ssl :: bool
  fr_headers :: "(string \<times> string) list"
  fr_query_string :: "string option"
  fr_remote_user :: "string option"
  fr_auth_type :: "string option"
  fr_route :: "string option"
  fr_ssl_cert :: "string option"
  fr_secret :: "string option"
  fr_content_length :: nat

definition CONTEXT :: u8 where "CONTEXT = 0x01"
definition SERVLET_PATH :: u8 where "SERVLET_PATH = 0x02"
definition REMOTE_USER :: u8 where "REMOTE_USER = 0x03"
definition AUTH_TYPE :: u8 where "AUTH_TYPE = 0x04"
definition QUERY_STRING :: u8 where "QUERY_STRING = 0x05"
definition ROUTE :: u8 where "ROUTE = 0x06"
definition SSL_CERT :: u8 where "SSL_CERT = 0x07"
definition SSL_CIPHER :: u8 where "SSL_CIPHER = 0x08"
definition SSL_SESSION :: u8 where "SSL_SESSION = 0x09"
definition REQ_ATTRIBUTE :: u8 where "REQ_ATTRIBUTE = 0x0A"
definition SSL_KEY_SIZE :: u8 where "SSL_KEY_SIZE = 0x0B"
definition SECRET :: u8 where "SECRET = 0x0C"
definition STORED_METHOD :: u8 where "STORED_METHOD = 0x0D"
definition ARE_DONE :: u8 where "ARE_DONE = 0xFF"

lemmas attr_defs = CONTEXT_def SERVLET_PATH_def REMOTE_USER_def AUTH_TYPE_def QUERY_STRING_def ROUTE_def
  SSL_CERT_def SSL_CIPHER_def SSL_SESSION_def REQ_ATTRIBUTE_def SSL_KEY_SIZE_def SECRET_def
  STORED_METHOD_def ARE_DONE_def

text \<open>The formatting directives \<open>{:02x}\<close> and \<open>{:04x}\<close>.\<close>

definition hex_padded :: "nat \<Rightarrow> nat \<Rightarrow> string" where
  "hex_padded width n = replicate (width - length (hex_str n)) (CHR ''0'') @ hex_str n"

definition read_header_name :: "AjpMessage \<Rightarrow> Error + string \<times> AjpMessage" where
  "read_header_name m =
    and_then (read_u8 m) (\<lambda>(first, m).
      if first = 0xA0 then
        and_then (read_u8 m) (\<lambda>(second, m).
          let code = from_be16 first second in
          and_then (ok_or (ajp_request_header_name code)
              (Protocol (''unknown AJP header code 0x'' @ hex_padded 4 (unat code)))) (\<lambda>n. Ok (n, m)))
      else
        and_then (read_u8 m) (\<lambda>(second, m).
          and_then (read_bytes (unat (from_be16 first second)) m) (\<lambda>(raw, m).
            and_then (read_u8 m) (\<lambda>(nul, m).
              if nul \<noteq> 0 then Err (Protocol ''AJP header name missing NUL terminator'')
              else case from_utf8 raw of
                None \<Rightarrow> Err (Protocol ''AJP header name is not valid UTF-8'')
              | Some s \<Rightarrow> Ok (to_ascii_lowercase s, m)))))"

fun read_headers ::
  "nat \<Rightarrow> (string \<times> string) list \<Rightarrow> nat \<Rightarrow> AjpMessage \<Rightarrow> Error + ((string \<times> string) list \<times> nat) \<times> AjpMessage" where
  "read_headers 0 headers content_length m = Ok ((headers, content_length), m)"
| "read_headers (Suc n) headers content_length m =
    and_then (read_header_name m) (\<lambda>(k, m).
      and_then (read_required_string m) (\<lambda>(v, m).
        read_headers n (headers @ [(k, v)])
          (if k = ''content-length'' then (case parse_usize (trim v) of Some l \<Rightarrow> l | None \<Rightarrow> 0)
           else content_length) m))"

text \<open>One arm of the match on the attribute code.\<close>

definition read_attribute :: "u8 \<Rightarrow> ForwardRequest \<Rightarrow> AjpMessage \<Rightarrow> Error + ForwardRequest \<times> AjpMessage" where
  "read_attribute code fr m =
    (if code = REMOTE_USER then and_then (read_string m) (\<lambda>(x, m). Ok (fr\<lparr>fr_remote_user := x\<rparr>, m))
     else if code = AUTH_TYPE then and_then (read_string m) (\<lambda>(x, m). Ok (fr\<lparr>fr_auth_type := x\<rparr>, m))
     else if code = QUERY_STRING then and_then (read_string m) (\<lambda>(x, m). Ok (fr\<lparr>fr_query_string := x\<rparr>, m))
     else if code = ROUTE then and_then (read_string m) (\<lambda>(x, m). Ok (fr\<lparr>fr_route := x\<rparr>, m))
     else if code = SSL_CERT then and_then (read_string m) (\<lambda>(x, m). Ok (fr\<lparr>fr_ssl_cert := x\<rparr>, m))
     else if code = SECRET then and_then (read_string m) (\<lambda>(x, m). Ok (fr\<lparr>fr_secret := x\<rparr>, m))
     else if code = STORED_METHOD then
       and_then (read_string m) (\<lambda>(x, m).
         case x of Some v \<Rightarrow> Ok (fr\<lparr>fr_method := v\<rparr>, m) | None \<Rightarrow> Ok (fr, m))
     else if code \<in> {CONTEXT, SERVLET_PATH, SSL_CIPHER, SSL_SESSION, SSL_KEY_SIZE} then
       and_then (read_string m) (\<lambda>(_, m). Ok (fr, m))
     else if code = REQ_ATTRIBUTE then
       and_then (read_required_string m) (\<lambda>(_, m). and_then (read_required_string m) (\<lambda>(_, m). Ok (fr, m)))
     else Err (Protocol (''unknown AJP attribute code 0x'' @ hex_padded 2 (unat code))))"

lemma read_u8_remaining: "read_u8 m = Ok (b, m') \<Longrightarrow> ajp_remaining m' < ajp_remaining m"
  by (auto simp: read_u8_def ajp_remaining_def split: if_splits)

lemma read_u16_remaining: "read_u16 m = Ok (b, m') \<Longrightarrow> ajp_remaining m' < ajp_remaining m"
  by (auto simp: read_u16_def ajp_remaining_def split: if_splits)

lemma read_bytes_remaining: "read_bytes n m = Ok (b, m') \<Longrightarrow> ajp_remaining m' \<le> ajp_remaining m"
  by (auto simp: read_bytes_def ajp_remaining_def split: if_splits)

lemma read_string_remaining: "read_string m = Ok (x, m') \<Longrightarrow> ajp_remaining m' < ajp_remaining m"
  by (auto simp: read_string_def and_then_eq_Ok split: if_splits option.splits
      dest!: read_u16_remaining read_bytes_remaining read_u8_remaining)

lemma read_required_string_remaining: "read_required_string m = Ok (x, m') \<Longrightarrow> ajp_remaining m' < ajp_remaining m"
  by (auto simp: read_required_string_def and_then_eq_Ok dest!: read_string_remaining)

lemma read_attribute_remaining: "read_attribute code fr m = Ok (fr', m') \<Longrightarrow> ajp_remaining m' < ajp_remaining m"
  by (auto simp: read_attribute_def and_then_eq_Ok split: if_splits option.splits
      dest!: read_string_remaining read_required_string_remaining)

function read_attributes :: "ForwardRequest \<Rightarrow> AjpMessage \<Rightarrow> Error + ForwardRequest \<times> AjpMessage" where
  "read_attributes fr m =
    and_then (read_u8 m) (\<lambda>(code, m).
      if code = ARE_DONE then Ok (fr, m)
      else and_then (read_attribute code fr m) (\<lambda>(fr, m). read_attributes fr m))"
  by pat_completeness auto
termination
  by (relation "measure (\<lambda>(fr, m). ajp_remaining m)")
    (auto dest!: read_u8_remaining read_attribute_remaining)

declare read_attributes.simps [simp del]

definition forward_request_decode :: "AjpMessage \<Rightarrow> Error + ForwardRequest \<times> AjpMessage" where
  "forward_request_decode m =
    and_then (read_u8 m) (\<lambda>(ty, m).
      if ty \<noteq> message_type_code FORWARD_REQUEST then
        Err (Protocol (''expected Forward Request (0x02), got 0x'' @ hex_padded 2 (unat ty)))
      else
    and_then (read_u8 m) (\<lambda>(method_code, m).
    and_then (ok_or (ajp_method_name method_code)
      (Protocol (''unknown AJP method code '' @ dec_str (unat method_code)))) (\<lambda>meth.
    and_then (read_required_string m) (\<lambda>(protocol, m).
    and_then (read_required_string m) (\<lambda>(req_uri, m).
    and_then (read_required_string m) (\<lambda>(remote_addr, m).
    and_then (read_string m) (\<lambda>(remote_host, m).
    and_then (read_required_string m) (\<lambda>(server_name, m).
    and_then (read_u16 m) (\<lambda>(server_port, m).
    and_then (read_u8 m) (\<lambda>(is_ssl, m).
    and_then (read_u16 m) (\<lambda>(num_headers, m).
    and_then (read_headers (unat num_headers) [] 0 m) (\<lambda>((headers, content_length), m).
      read_attributes
        \<lparr>fr_method = meth, fr_protocol = protocol, fr_req_uri = req_uri, fr_remote_addr = remote_addr,
         fr_remote_host = remote_host, fr_server_name = server_name, fr_server_port = server_port,
         fr_is_ssl = (is_ssl \<noteq> 0), fr_headers = headers, fr_query_string = None, fr_remote_user = None,
         fr_auth_type = None, fr_route = None, fr_ssl_cert = None, fr_secret = None,
         fr_content_length = content_length\<rparr> m))))))))))))"

definition ascii_control :: "u8 \<Rightarrow> bool" where
  "ascii_control b \<longleftrightarrow> b < 0x20 \<or> b = 0x7F"

definition into_request :: "ForwardRequest \<Rightarrow> string \<Rightarrow> Error + Request" where
  "into_request fr peer =
    (if list_ex (\<lambda>b. b = 0 \<or> ascii_control b) (as_bytes (fr_req_uri fr)) then
       Err (Protocol ''AJP request URI contains control bytes'')
     else
       let target = (case fr_query_string fr of Some q \<Rightarrow> fr_req_uri fr @ ''?'' @ q | None \<Rightarrow> fr_req_uri fr) in
       case normalize_target target of
         Inl e \<Rightarrow> Err (Protocol (''AJP request URI rejected: '' @ normalize_error_str e))
       | Inr normalized \<Rightarrow>
           (let headers = fr_headers fr;
                headers = (if list_ex (\<lambda>(k, _). k = ''host'') headers then headers
                  else headers @ [(''host'',
                    if fr_server_port fr = 80 \<or> fr_server_port fr = 443 then fr_server_name fr
                    else fr_server_name fr @ '':'' @ dec_str (unat (fr_server_port fr)))]);
                headers = (if fr_is_ssl fr then headers @ [(''x-forwarded-proto'', ''https'')] else headers);
                headers = (case fr_remote_host fr of
                  Some rh \<Rightarrow> headers @ [(''x-forwarded-host'', rh)] | None \<Rightarrow> headers);
                headers = (case fr_remote_user fr of
                  Some user \<Rightarrow> headers @ [(''x-tomcatrs-remote-user'', user)] | None \<Rightarrow> headers);
                headers = (case fr_auth_type fr of
                  Some at \<Rightarrow> headers @ [(''x-tomcatrs-auth-type'', at)] | None \<Rightarrow> headers);
                headers = (case fr_route fr of
                  Some route \<Rightarrow> headers @ [(''x-tomcatrs-route'', route)] | None \<Rightarrow> headers);
                headers = (case fr_ssl_cert fr of
                  Some _ \<Rightarrow> headers @ [(''x-tomcatrs-ssl-client-cert'', ''present'')] | None \<Rightarrow> headers)
            in Ok \<lparr>rq_method = fr_method fr, rq_uri = target, rq_path = uri_path normalized,
                   rq_query = uri_query normalized, rq_version = fr_protocol fr, rq_headers = headers,
                   rq_body = [], rq_peer_addr = peer\<rparr>))"

section \<open>Responses\<close>

definition ajp_reasons :: "(u16 \<times> string) list" where
  "ajp_reasons =
    [(200, ''OK''), (201, ''Created''), (202, ''Accepted''), (204, ''No Content''), (301, ''Moved Permanently''),
     (302, ''Found''), (303, ''See Other''), (304, ''Not Modified''), (307, ''Temporary Redirect''),
     (308, ''Permanent Redirect''), (400, ''Bad Request''), (401, ''Unauthorized''), (403, ''Forbidden''),
     (404, ''Not Found''), (405, ''Method Not Allowed''), (408, ''Request Timeout''), (411, ''Length Required''),
     (413, ''Payload Too Large''), (414, ''URI Too Long''), (431, ''Request Header Fields Too Large''),
     (500, ''Internal Server Error''), (501, ''Not Implemented''), (502, ''Bad Gateway''),
     (503, ''Service Unavailable''), (505, ''HTTP Version Not Supported'')]"

definition ajp_reason_phrase :: "u16 \<Rightarrow> string" where
  "ajp_reason_phrase status = (case map_of ajp_reasons status of Some r \<Rightarrow> r | None \<Rightarrow> ''Status'')"

definition encode_send_headers :: "Response \<Rightarrow> AjpMessage" where
  "encode_send_headers resp =
    fold (\<lambda>(n, v) m. write_string (Some v) (write_string (Some n) m)) (rs_headers resp)
      (write_u16 (of_nat (length (rs_headers resp)))
        (write_string (Some (ajp_reason_phrase (rs_status resp)))
          (write_u16 (rs_status resp)
            (write_u8 (message_type_code SEND_HEADERS) ajp_message_new))))"

definition encode_send_body_chunk :: "bytes \<Rightarrow> Error + AjpMessage" where
  "encode_send_body_chunk data =
    (if MAX_SEND_CHUNK < length data then Err (Protocol ''AJP body chunk exceeds maximum size'')
     else Ok (write_u8 0 (write_raw data (write_u16 (of_nat (length data))
       (write_u8 (message_type_code SEND_BODY_CHUNK) ajp_message_new)))))"

definition encode_end_response :: "bool \<Rightarrow> AjpMessage" where
  "encode_end_response reuse =
    write_u8 (if reuse then 1 else 0) (write_u8 (message_type_code END_RESPONSE) ajp_message_new)"

definition encode_get_body_chunk :: "u16 \<Rightarrow> AjpMessage" where
  "encode_get_body_chunk n =
    write_u16 n (write_u8 (message_type_code GET_BODY_CHUNK) ajp_message_new)"

definition encode_cpong :: AjpMessage where
  "encode_cpong = write_u8 (message_type_code CPONG) ajp_message_new"

definition decode_body_data :: "AjpMessage \<Rightarrow> Error + bytes" where
  "decode_body_data m =
    (let payload = am_payload m in
     if length payload < 2 then Ok []
     else let len = unat (from_be16 (payload ! 0) (payload ! 1)) in
       if length payload < 2 + len then Err (Protocol ''AJP body data packet truncated'')
       else Ok (take len (drop 2 payload)))"

text \<open>The fold over the configured secret; the difference of the lengths is cut to eight bits.\<close>

fun secret_diff :: "u8 \<Rightarrow> bytes \<Rightarrow> bytes \<Rightarrow> u8" where
  "secret_diff diff [] b = diff"
| "secret_diff diff (x # a) [] = secret_diff (diff OR (x XOR 0)) a []"
| "secret_diff diff (x # a) (y # b) = secret_diff (diff OR (x XOR y)) a b"

definition secret_matches :: "string \<Rightarrow> string option \<Rightarrow> bool" where
  "secret_matches configured presented =
    (case presented of
       None \<Rightarrow> False
     | Some p \<Rightarrow>
         (let a = as_bytes configured; b = as_bytes p in
          secret_diff (ucast (of_nat (length a) XOR of_nat (length b) :: u64)) a b = 0))"

section \<open>The connection\<close>

datatype AjpEvent = Wrote bytes | Served Request

type_synonym 'a ajp_effect = "AjpEvent list \<times> (Error + 'a)"

definition effect_then :: "'a ajp_effect \<Rightarrow> ('a \<Rightarrow> 'b ajp_effect) \<Rightarrow> 'b ajp_effect" where
  "effect_then x f =
    (case x of
       (evs, Inl e) \<Rightarrow> (evs, Inl e)
     | (evs, Inr v) \<Rightarrow> (case f v of (evs', r) \<Rightarrow> (evs @ evs', r)))"

lemma effect_then_cong [fundef_cong]:
  "x = y \<Longrightarrow> (\<And>v. snd y = Inr v \<Longrightarrow> f v = g v) \<Longrightarrow> effect_then x f = effect_then y g"
  by (auto simp: effect_then_def split: prod.split sum.split)

lemma effect_then_Ok:
  "effect_then x f = (evs, Inr w) \<longleftrightarrow>
    (\<exists>evs1 v evs2. x = (evs1, Inr v) \<and> f v = (evs2, Inr w) \<and> evs = evs1 @ evs2)"
  by (cases x; cases "snd x") (auto simp: effect_then_def split: prod.splits)

definition write_to :: "AjpMessage \<Rightarrow> unit ajp_effect" where
  "write_to m = (case ajp_encode MAGIC_OUT m of Inl e \<Rightarrow> ([], Inl e) | Inr framed \<Rightarrow> ([Wrote framed], Inr ()))"

fun body_chunks_fuel :: "nat \<Rightarrow> bytes \<Rightarrow> bytes list" where
  "body_chunks_fuel 0 body = []"
| "body_chunks_fuel (Suc n) body =
    (if body = [] then [] else take MAX_SEND_CHUNK body # body_chunks_fuel n (drop MAX_SEND_CHUNK body))"

text \<open>\<open>chunks(MAX_SEND_CHUNK)\<close>: a body of \<open>n\<close> bytes has at most \<open>n\<close> chunks.\<close>

definition body_chunks :: "bytes \<Rightarrow> bytes list" where
  "body_chunks body = body_chunks_fuel (length body) body"

fun write_chunks :: "bytes list \<Rightarrow> unit ajp_effect" where
  "write_chunks [] = ([], Inr ())"
| "write_chunks (c # cs) =
    (case encode_send_body_chunk c of
       Inl e \<Rightarrow> ([], Inl e)
     | Inr m \<Rightarrow> effect_then (write_to m) (\<lambda>_. write_chunks cs))"

definition ajp_write_response :: "Response \<Rightarrow> unit ajp_effect" where
  "ajp_write_response resp =
    effect_then (write_to (encode_send_headers resp)) (\<lambda>_.
    effect_then (write_chunks (body_chunks (rs_body resp))) (\<lambda>_.
      write_to (encode_end_response True)))"

lemma read_from_shorter: "read_from magic inp = Ok (Some (m, inp')) \<Longrightarrow> length inp' < length inp"
  by (auto simp: read_from_def read_exact_def and_then_eq_Ok split: list.splits if_splits)

function ajp_read_body :: "nat \<Rightarrow> bytes \<Rightarrow> bytes \<Rightarrow> (bytes \<times> bytes) ajp_effect" where
  "ajp_read_body content_length body inp =
    (if \<not> length body < content_length then ([], Inr (body, inp))
     else
       let want = min (content_length - length body) MAX_SEND_CHUNK in
       effect_then (write_to (encode_get_body_chunk (of_nat want))) (\<lambda>_.
         case read_from MAGIC_IN inp of
           Inl e \<Rightarrow> ([], Inl e)
         | Inr None \<Rightarrow> ([], Inl (Protocol ''AJP connection closed mid-body''))
         | Inr (Some (m, inp')) \<Rightarrow>
             (case decode_body_data m of
                Inl e \<Rightarrow> ([], Inl e)
              | Inr chunk \<Rightarrow>
                  if chunk = [] then ([], Inr (body, inp'))
                  else ajp_read_body content_length (body @ chunk) inp')))"
  by pat_completeness auto
termination
  by (relation "measure (\<lambda>(_, _, inp). length inp)") (auto dest: read_from_shorter)

declare ajp_read_body.simps [simp del]

text \<open>
  One round of the loop after a packet was read: whether the loop goes on, and with which input. The
  adapter is a function from the request to its response.
\<close>

definition handle_packet ::
  "(Request \<Rightarrow> Response) \<Rightarrow> string option \<Rightarrow> string \<Rightarrow> AjpMessage \<Rightarrow> bytes \<Rightarrow> bytes option ajp_effect" where
  "handle_packet adapter secret peer m inp =
    (case ajp_message_type m of
       None \<Rightarrow> ([], Inl (Protocol ''empty AJP packet''))
     | Some ty_byte \<Rightarrow>
        (case message_type_from_code ty_byte of
           Some CPING \<Rightarrow> effect_then (write_to encode_cpong) (\<lambda>_. ([], Inr (Some inp)))
         | Some SHUTDOWN \<Rightarrow> ([], Inr None)
         | Some FORWARD_REQUEST \<Rightarrow>
             (case forward_request_decode m of
                Inl e \<Rightarrow> ([], Inl e)
              | Inr (fwd, _) \<Rightarrow>
                  if (case secret of Some configured \<Rightarrow> \<not> secret_matches configured (fr_secret fwd) | None \<Rightarrow> False) then
                    effect_then (ajp_write_response (response_with_body 403 (as_bytes ''Forbidden'')))
                      (\<lambda>_. ([], Inr (Some inp)))
                  else
                    (case into_request fwd peer of
                       Inl e \<Rightarrow>
                         effect_then (ajp_write_response (response_with_body 400 (as_bytes ''Bad Request'')))
                           (\<lambda>_. ([], Inr (Some inp)))
                     | Inr request \<Rightarrow>
                         effect_then
                           (if 0 < fr_content_length fwd then ajp_read_body (fr_content_length fwd) [] inp
                            else ([], Inr (rq_body request, inp)))
                           (\<lambda>(body, inp).
                             let request = request\<lparr>rq_body := body\<rparr>;
                                 response = adapter request
                             in effect_then ([Served request], Inr ()) (\<lambda>_.
                                effect_then (ajp_write_response response) (\<lambda>_. ([], Inr (Some inp)))))))
         | _ \<Rightarrow> ([], Inl (Protocol (''unexpected AJP packet type 0x'' @ hex_padded 2 (unat ty_byte))))))"

lemma read_body_shorter: "ajp_read_body n body inp = (evs, Inr (b, inp')) \<Longrightarrow> length inp' \<le> length inp"
proof (induction n body inp arbitrary: evs rule: ajp_read_body.induct)
  case (1 n body inp)
  show ?case
  proof (cases "length body < n")
    case False
    then show ?thesis using 1(2) by (simp add: ajp_read_body.simps)
  next
    case True
    then obtain evs' where r: "(case read_from MAGIC_IN inp of
           Inl e \<Rightarrow> ([], Inl e)
         | Inr None \<Rightarrow> ([], Inl (Protocol ''AJP connection closed mid-body''))
         | Inr (Some (m, inp')) \<Rightarrow>
             (case decode_body_data m of
                Inl e \<Rightarrow> ([], Inl e)
              | Inr chunk \<Rightarrow>
                  if chunk = [] then ([], Inr (body, inp'))
                  else ajp_read_body n (body @ chunk) inp')) = (evs', Inr (b, inp'))"
      and w: "snd (write_to (encode_get_body_chunk (of_nat (min (n - length body) MAX_SEND_CHUNK)))) = Inr ()"
      using 1(2) by (subst (asm) ajp_read_body.simps) (auto simp: Let_def effect_then_Ok)
    then obtain m inp1 chunk where m: "read_from MAGIC_IN inp = Ok (Some (m, inp1))" "decode_body_data m = Ok chunk"
      by (auto split: sum.splits option.splits)
    then have "length inp1 < length inp" by (auto dest: read_from_shorter)
    then show ?thesis
      using r m 1(1) [OF _ refl w m(1) refl refl m(2)] True by (cases "chunk = []") force+
  qed
qed

lemma handle_packet_shorter:
  "handle_packet adapter secret peer m inp = (evs, Inr (Some inp')) \<Longrightarrow> length inp' \<le> length inp"
  by (auto simp: handle_packet_def effect_then_Ok Let_def dest!: read_body_shorter
      split: option.splits AjpMessageType.splits sum.splits if_splits)

function ajp_run ::
  "(Request \<Rightarrow> Response) \<Rightarrow> string option \<Rightarrow> string \<Rightarrow> bytes \<Rightarrow> unit ajp_effect" where
  "ajp_run adapter secret peer inp =
    (case read_from MAGIC_IN inp of
       Inl e \<Rightarrow> ([], Inl e)
     | Inr None \<Rightarrow> ([], Inr ())
     | Inr (Some (m, inp')) \<Rightarrow>
         (case handle_packet adapter secret peer m inp' of
            (evs, Inl e) \<Rightarrow> (evs, Inl e)
          | (evs, Inr None) \<Rightarrow> (evs, Inr ())
          | (evs, Inr (Some inp'')) \<Rightarrow>
              (case ajp_run adapter secret peer inp'' of (evs', r) \<Rightarrow> (evs @ evs', r))))"
  by pat_completeness auto
termination
  by (relation "measure (\<lambda>(_, _, _, inp). length inp)")
    (auto dest!: read_from_shorter handle_packet_shorter [OF sym])

declare ajp_run.simps [simp del]

section \<open>The proxy\<close>

text \<open>
  What the proxy sends and reads, after the protocol: a forward request is a record of its own, its
  common header names are sent as codes, and its attributes are a list in which a later value of the
  same attribute replaces an earlier one.
\<close>

definition ajp_string :: "string option \<Rightarrow> bytes" where
  "ajp_string x = (case x of None \<Rightarrow> be16 0xFFFF | Some s \<Rightarrow> be16 (of_nat (length s)) @ as_bytes s @ [0])"

datatype AjpAttribute = StringAttribute u8 "string option" | RequestAttribute string string

record ProxyRequest =
  px_method :: u8
  px_protocol :: string
  px_uri :: string
  px_remote_addr :: string
  px_remote_host :: "string option"
  px_server_name :: string
  px_server_port :: u16
  px_is_ssl :: bool
  px_headers :: "(string \<times> string) list"
  px_attributes :: "AjpAttribute list"

definition proxy_header_name :: "string \<Rightarrow> bytes" where
  "proxy_header_name n =
    (case List.find (\<lambda>(c, h). h = n) ajp_request_headers of
       Some (c, _) \<Rightarrow> be16 c
     | None \<Rightarrow> ajp_string (Some n))"

fun proxy_attribute :: "AjpAttribute \<Rightarrow> bytes" where
  "proxy_attribute (StringAttribute code x) = code # ajp_string x"
| "proxy_attribute (RequestAttribute n v) = REQ_ATTRIBUTE # ajp_string (Some n) @ ajp_string (Some v)"

definition proxy_forward :: "ProxyRequest \<Rightarrow> bytes" where
  "proxy_forward p =
    [message_type_code FORWARD_REQUEST] @ [px_method p] @ ajp_string (Some (px_protocol p)) @
    ajp_string (Some (px_uri p)) @ ajp_string (Some (px_remote_addr p)) @ ajp_string (px_remote_host p) @
    ajp_string (Some (px_server_name p)) @ be16 (px_server_port p) @ [if px_is_ssl p then 1 else 0] @
    be16 (of_nat (length (px_headers p))) @
    concat (map (\<lambda>(n, v). proxy_header_name n @ ajp_string (Some v)) (px_headers p)) @
    concat (map proxy_attribute (px_attributes p)) @ [ARE_DONE]"

definition attribute_value :: "u8 \<Rightarrow> AjpAttribute list \<Rightarrow> string option \<Rightarrow> string option" where
  "attribute_value code as x =
    fold (\<lambda>a v. case a of StringAttribute c y \<Rightarrow> if c = code then y else v | RequestAttribute _ _ \<Rightarrow> v) as x"

definition stored_method :: "AjpAttribute list \<Rightarrow> string \<Rightarrow> string" where
  "stored_method as meth =
    fold (\<lambda>a v. case a of StringAttribute c (Some y) \<Rightarrow> if c = STORED_METHOD then y else v | _ \<Rightarrow> v) as meth"

text \<open>The length of the body: the last \<open>Content-Length\<close> header, 0 if it is not a number.\<close>

definition declared_length :: "(string \<times> string) list \<Rightarrow> nat \<Rightarrow> nat" where
  "declared_length hs n =
    fold (\<lambda>(k, v) n. if k = ''content-length'' then (case parse_usize (trim v) of Some l \<Rightarrow> l | None \<Rightarrow> 0) else n) hs n"

definition forwarded :: "ProxyRequest \<Rightarrow> ForwardRequest" where
  "forwarded p =
    \<lparr>fr_method = stored_method (px_attributes p) (the (ajp_method_name (px_method p))),
     fr_protocol = px_protocol p, fr_req_uri = px_uri p, fr_remote_addr = px_remote_addr p,
     fr_remote_host = px_remote_host p, fr_server_name = px_server_name p,
     fr_server_port = px_server_port p, fr_is_ssl = px_is_ssl p, fr_headers = px_headers p,
     fr_query_string = attribute_value QUERY_STRING (px_attributes p) None,
     fr_remote_user = attribute_value REMOTE_USER (px_attributes p) None,
     fr_auth_type = attribute_value AUTH_TYPE (px_attributes p) None,
     fr_route = attribute_value ROUTE (px_attributes p) None,
     fr_ssl_cert = attribute_value SSL_CERT (px_attributes p) None,
     fr_secret = attribute_value SECRET (px_attributes p) None,
     fr_content_length = declared_length (px_headers p) 0\<rparr>"

definition ajp_text_ok :: "string \<Rightarrow> bool" where
  "ajp_text_ok s \<longleftrightarrow> valid_str s \<and> length s < 0xFFFF"

definition string_attributes :: "u8 list" where
  "string_attributes = [CONTEXT, SERVLET_PATH, REMOTE_USER, AUTH_TYPE, QUERY_STRING, ROUTE, SSL_CERT,
     SSL_CIPHER, SSL_SESSION, SSL_KEY_SIZE, SECRET, STORED_METHOD]"

fun attribute_ok :: "AjpAttribute \<Rightarrow> bool" where
  "attribute_ok (StringAttribute code x) \<longleftrightarrow> code \<in> set string_attributes \<and> pred_option ajp_text_ok x"
| "attribute_ok (RequestAttribute n v) \<longleftrightarrow> ajp_text_ok n \<and> ajp_text_ok v"

definition header_name_ok :: "string \<Rightarrow> bool" where
  "header_name_ok n \<longleftrightarrow> ajp_text_ok n \<and> length n < 0xA000 \<and> to_ascii_lowercase n = n"

definition proxy_request_ok :: "ProxyRequest \<Rightarrow> bool" where
  "proxy_request_ok p \<longleftrightarrow>
    ajp_method_name (px_method p) \<noteq> None \<and> ajp_text_ok (px_protocol p) \<and> ajp_text_ok (px_uri p) \<and>
    ajp_text_ok (px_remote_addr p) \<and> pred_option ajp_text_ok (px_remote_host p) \<and>
    ajp_text_ok (px_server_name p) \<and> length (px_headers p) < 2 ^ 16 \<and>
    list_all (\<lambda>(n, v). header_name_ok n \<and> ajp_text_ok v) (px_headers p) \<and>
    list_all attribute_ok (px_attributes p)"

section \<open>Lemmas\<close>

text \<open>The bytes a cursor has before it; a reader that takes the bytes \<open>p\<close> off them and returns \<open>x\<close>.\<close>

definition before :: "AjpMessage \<Rightarrow> bytes \<Rightarrow> bool" where
  "before m bs \<longleftrightarrow> am_pos m \<le> length (am_payload m) \<and> drop (am_pos m) (am_payload m) = bs"

definition reads :: "(AjpMessage \<Rightarrow> Error + 'a \<times> AjpMessage) \<Rightarrow> bytes \<Rightarrow> 'a \<Rightarrow> bool" where
  "reads r p x \<longleftrightarrow> (\<forall>m bs. before m (p @ bs) \<longrightarrow> (\<exists>m'. r m = Ok (x, m') \<and> before m' bs))"

lemma readsI: "(\<And>m bs. before m (p @ bs) \<Longrightarrow> \<exists>m'. r m = Ok (x, m') \<and> before m' bs) \<Longrightarrow> reads r p x"
  by (simp add: reads_def)

lemma readsD: "reads r p x \<Longrightarrow> before m (p @ bs) \<Longrightarrow> \<exists>m'. r m = Ok (x, m') \<and> before m' bs"
  by (simp add: reads_def)

lemma reads_return: "reads (\<lambda>m. Ok (x, m)) [] x"
  by (simp add: reads_def)

lemma reads_bind: "reads r p x \<Longrightarrow> reads (f x) q y \<Longrightarrow> reads (\<lambda>m. and_then (r m) (\<lambda>(v, m). f v m)) (p @ q) y"
  unfolding reads_def by fastforce

lemma reads_bind_last: "reads r p x \<Longrightarrow> reads (f x) [] y \<Longrightarrow> reads (\<lambda>m. and_then (r m) (\<lambda>(v, m). f v m)) p y"
  using reads_bind [of r p x f "[]" y] by simp

lemma reads_map: "reads r p x \<Longrightarrow> reads (\<lambda>m. and_then (r m) (\<lambda>(v, m). Ok (g v, m))) p (g x)"
  using reads_bind [of r p x "\<lambda>v m. Ok (g v, m)" "[]" "g x", OF _ reads_return] by simp

lemma before_length: "before m (p @ bs) \<Longrightarrow> am_pos m + length p \<le> length (am_payload m)"
  unfolding before_def by (metis length_append length_drop le_add1 le_diff_conv2 add.commute)

lemma before_advance: "before m (p @ bs) \<Longrightarrow> before (m\<lparr>am_pos := am_pos m + length p\<rparr>) bs"
proof -
  assume m: "before m (p @ bs)"
  then have "drop (length p) (drop (am_pos m) (am_payload m)) = bs" by (simp add: before_def del: drop_drop)
  then have "drop (length p + am_pos m) (am_payload m) = bs" by (simp only: drop_drop)
  then show ?thesis using m before_length [OF m] by (simp add: before_def add.commute)
qed

lemma before_nth: "before m bs \<Longrightarrow> i < length bs \<Longrightarrow> am_payload m ! (am_pos m + i) = bs ! i"
  unfolding before_def by (metis nth_drop)

lemma reads_u8: "reads read_u8 [b] b"
proof (rule readsI)
  fix m bs
  assume m: "before m ([b] @ bs)"
  then show "\<exists>m'. read_u8 m = Ok (b, m') \<and> before m' bs"
    using before_length [OF m] before_advance [OF m] before_nth [OF m, of 0] by (simp add: read_u8_def)
qed

lemma reads_u16: "reads read_u16 (be16 w) w"
proof (rule readsI)
  fix m bs
  assume m: "before m (be16 w @ bs)"
  then show "\<exists>m'. read_u16 m = Ok (w, m') \<and> before m' bs"
    using before_length [OF m] before_advance [OF m] before_nth [OF m, of 0] before_nth [OF m, of 1]
    by (simp add: read_u16_def be16_def)
qed

lemma reads_bytes: "n = length p \<Longrightarrow> reads (read_bytes n) p p"
proof (rule readsI)
  fix m bs
  assume m: "before m (p @ bs)" and n: "n = length p"
  then show "\<exists>m'. read_bytes n m = Ok (p, m') \<and> before m' bs"
    using before_length [OF m] before_advance [OF m] by (simp add: read_bytes_def before_def)
qed

lemma unat_length_u16: "n < 2 ^ 16 \<Longrightarrow> unat (of_nat n :: u16) = n"
  by (simp add: unat_of_nat)

lemma not_null_length: "n < 0xFFFF \<Longrightarrow> (of_nat n :: u16) \<noteq> 0xFFFF"
  using unat_length_u16 [of n] by auto

lemma reads_string:
  assumes "pred_option ajp_text_ok x"
  shows "reads read_string (ajp_string x) x"
proof (cases x)
  case None
  have "reads read_string (be16 0xFFFF @ []) None"
    unfolding read_string_def by (rule reads_bind [OF reads_u16]) (simp add: reads_return)
  then show ?thesis by (simp add: None ajp_string_def)
next
  case (Some s)
  then have s: "valid_str s" "length s < 0xFFFF" using assms by (simp_all add: ajp_text_ok_def)
  then have n: "unat (of_nat (length s) :: u16) = length (as_bytes s)" by (simp add: unat_length_u16)
  have "reads read_string (be16 (of_nat (length s)) @ as_bytes s @ [0] @ []) (Some s)"
    unfolding read_string_def
    by (rule reads_bind [OF reads_u16], simp only: not_null_length [OF s(2)] if_False,
        rule reads_bind [OF reads_bytes [OF n]], rule reads_bind [OF reads_u8])
      (simp add: s(1) reads_return)
  then show ?thesis by (simp add: Some ajp_string_def)
qed

lemma reads_required_string: "ajp_text_ok s \<Longrightarrow> reads read_required_string (ajp_string (Some s)) s"
proof -
  assume "ajp_text_ok s"
  then have "reads read_string (ajp_string (Some s)) (Some s)" by (intro reads_string) simp
  then have "reads read_required_string (ajp_string (Some s) @ []) s"
    unfolding read_required_string_def by (rule reads_bind) (simp add: reads_return)
  then show ?thesis by simp
qed

lemma high_byte: "ucast (drop_bit 8 (w :: u16)) = (a :: u8) \<longleftrightarrow> unat w div 256 = unat a"
proof -
  have "unat w < 2 ^ 16" by (rule order_less_le_trans [OF unsigned_less]) simp
  then have "unat (ucast (drop_bit 8 w) :: u8) = unat w div 256"
    by (simp add: unsigned_ucast_eq unsigned_drop_bit_eq take_bit_eq_mod drop_bit_eq_div unat_div)
  then show ?thesis by (metis unsigned_word_eqI)
qed

lemma coded_headers:
  "list_all (\<lambda>(c, h). ucast (drop_bit 8 c) = (0xA0 :: u8) \<and> ajp_request_header_name c = Some h) ajp_request_headers"
  by (simp add: ajp_request_headers_def ajp_request_header_name_def high_byte)

lemma find_SomeD: "List.find P xs = Some x \<Longrightarrow> x \<in> set xs \<and> P x"
  by (induction xs) (auto split: if_splits)

lemma reads_header_name:
  assumes "header_name_ok n"
  shows "reads read_header_name (proxy_header_name n) n"
proof (cases "List.find (\<lambda>(c, h). h = n) ajp_request_headers")
  case (Some ch)
  then obtain c where c: "ch = (c, n)" "(c, n) \<in> set ajp_request_headers"
    by (cases ch) (auto dest!: find_SomeD)
  then have code: "ucast (drop_bit 8 c) = (0xA0 :: u8)" "ajp_request_header_name c = Some n"
    using coded_headers by (auto simp: list_all_iff)
  have "reads read_header_name ([0xA0] @ [ucast c] @ []) n"
    unfolding read_header_name_def
    by (rule reads_bind [OF reads_u8], simp only: if_True simp_thms, rule reads_bind [OF reads_u8])
      (simp add: code(2) reads_return from_be16_be16 [of c, unfolded code(1)])
  then show ?thesis by (simp add: proxy_header_name_def Some c(1) be16_def code(1))
next
  case None
  have n: "valid_str n" "length n < 0xA000" "to_ascii_lowercase n = n"
    using assms by (simp_all add: header_name_ok_def ajp_text_ok_def)
  define w :: u16 where "w = of_nat (length n)"
  have w: "unat w = length (as_bytes n)" using n(2) unfolding w_def by (simp add: unat_length_u16)
  have first: "ucast (drop_bit 8 w) \<noteq> (0xA0 :: u8)" using n(2) by (simp add: high_byte w)
  have "reads read_header_name ([ucast (drop_bit 8 w)] @ [ucast w] @ as_bytes n @ [0] @ []) n"
    unfolding read_header_name_def
    by (rule reads_bind [OF reads_u8], simp only: first if_False, rule reads_bind [OF reads_u8],
        rule reads_bind [OF reads_bytes], simp add: w, rule reads_bind [OF reads_u8])
      (simp add: n reads_return)
  then show ?thesis by (simp add: proxy_header_name_def None ajp_string_def be16_def w_def [symmetric])
qed

lemma reads_headers:
  "list_all (\<lambda>(n, v). header_name_ok n \<and> ajp_text_ok v) hs \<Longrightarrow>
    reads (read_headers (length hs) acc len)
      (concat (map (\<lambda>(n, v). proxy_header_name n @ ajp_string (Some v)) hs)) (acc @ hs, declared_length hs len)"
proof (induction hs arbitrary: acc len)
  case Nil
  then show ?case by (simp add: reads_return declared_length_def)
next
  case (Cons h hs)
  obtain n v where h: "h = (n, v)" by (cases h) auto
  then have ok: "header_name_ok n" "ajp_text_ok v" using Cons.prems by auto
  have ih: "reads (read_headers (length hs) (acc @ [(n, v)]) l)
      (concat (map (\<lambda>(n, v). proxy_header_name n @ ajp_string (Some v)) hs)) (acc @ h # hs, declared_length hs l)" for l
    using Cons.IH [of "acc @ [(n, v)]" l] Cons.prems h by simp
  have len: "declared_length (h # hs) len = declared_length hs
      (if n = ''content-length'' then (case parse_usize (trim v) of Some l \<Rightarrow> l | None \<Rightarrow> 0) else len)"
    by (simp add: declared_length_def h)
  have "reads (read_headers (length (h # hs)) acc len)
      (proxy_header_name n @ ajp_string (Some v) @
        concat (map (\<lambda>(n, v). proxy_header_name n @ ajp_string (Some v)) hs))
      (acc @ h # hs, declared_length (h # hs) len)"
    unfolding length_Cons read_headers.simps len
    by (rule reads_bind [OF reads_header_name [OF ok(1)]],
        rule reads_bind [OF reads_required_string [OF ok(2)]]) (rule ih)
  then show ?case unfolding h by (simp only: list.map concat.simps prod.case append_assoc)
qed

fun apply_attribute :: "AjpAttribute \<Rightarrow> ForwardRequest \<Rightarrow> ForwardRequest" where
  "apply_attribute (RequestAttribute n v) fr = fr"
| "apply_attribute (StringAttribute code x) fr =
    (if code = REMOTE_USER then fr\<lparr>fr_remote_user := x\<rparr>
     else if code = AUTH_TYPE then fr\<lparr>fr_auth_type := x\<rparr>
     else if code = QUERY_STRING then fr\<lparr>fr_query_string := x\<rparr>
     else if code = ROUTE then fr\<lparr>fr_route := x\<rparr>
     else if code = SSL_CERT then fr\<lparr>fr_ssl_cert := x\<rparr>
     else if code = SECRET then fr\<lparr>fr_secret := x\<rparr>
     else if code = STORED_METHOD then (case x of Some v \<Rightarrow> fr\<lparr>fr_method := v\<rparr> | None \<Rightarrow> fr)
     else fr)"

lemma reads_attribute:
  assumes "attribute_ok a"
  shows "\<exists>code p. proxy_attribute a = code # p \<and> code \<noteq> ARE_DONE \<and>
    reads (read_attribute code fr) p (apply_attribute a fr)"
proof (cases a)
  case (RequestAttribute n v)
  then have ok: "ajp_text_ok n" "ajp_text_ok v" using assms by simp_all
  have "reads (read_attribute REQ_ATTRIBUTE fr) (ajp_string (Some n) @ ajp_string (Some v)) fr"
    unfolding read_attribute_def attr_defs
    by (simp, rule reads_bind [OF reads_required_string [OF ok(1)]],
        rule reads_bind_last [OF reads_required_string [OF ok(2)]], rule reads_return)
  then show ?thesis by (simp add: RequestAttribute attr_defs)
next
  case (StringAttribute code x)
  then have ok: "code \<in> set string_attributes" "pred_option ajp_text_ok x" using assms by simp_all
  note r = reads_string [OF ok(2)]
  have "reads (read_attribute code fr) (ajp_string x) (apply_attribute a fr)"
    using ok(1)
    unfolding StringAttribute string_attributes_def list.set insert_iff empty_iff simp_thms read_attribute_def
    by (elim disjE; simp add: attr_defs; intro reads_bind_last [OF r]; simp add: reads_return split: option.split)
  moreover have "code \<noteq> ARE_DONE" using ok(1) by (auto simp: string_attributes_def attr_defs)
  ultimately show ?thesis by (simp add: StringAttribute)
qed

lemma reads_attributes:
  "list_all attribute_ok as \<Longrightarrow>
    reads (read_attributes fr) (concat (map proxy_attribute as) @ [ARE_DONE]) (fold apply_attribute as fr)"
proof (induction as arbitrary: fr)
  case Nil
  have "reads (read_attributes fr) ([ARE_DONE] @ []) fr"
    by (subst read_attributes.simps [abs_def], rule reads_bind [OF reads_u8]) (simp add: reads_return)
  then show ?case by simp
next
  case (Cons a as)
  obtain code p where a: "proxy_attribute a = code # p" "code \<noteq> ARE_DONE"
    "reads (read_attribute code fr) p (apply_attribute a fr)"
    using reads_attribute [of a fr] Cons.prems by auto
  have "reads (read_attributes fr) ([code] @ p @ concat (map proxy_attribute as) @ [ARE_DONE])
      (fold apply_attribute as (apply_attribute a fr))"
    by (subst read_attributes.simps [abs_def], rule reads_bind [OF reads_u8], simp only: a(2) if_False,
        rule reads_bind [OF a(3)]) (use Cons in simp)
  then show ?case by (simp add: a(1))
qed

lemma fold_apply_attribute:
  "fold apply_attribute as fr =
    fr\<lparr>fr_method := stored_method as (fr_method fr),
       fr_query_string := attribute_value QUERY_STRING as (fr_query_string fr),
       fr_remote_user := attribute_value REMOTE_USER as (fr_remote_user fr),
       fr_auth_type := attribute_value AUTH_TYPE as (fr_auth_type fr),
       fr_route := attribute_value ROUTE as (fr_route fr),
       fr_ssl_cert := attribute_value SSL_CERT as (fr_ssl_cert fr),
       fr_secret := attribute_value SECRET as (fr_secret fr)\<rparr>"
proof (induction as arbitrary: fr)
  case Nil
  then show ?case by (simp add: attribute_value_def stored_method_def)
next
  case (Cons a as)
  have "fold apply_attribute (a # as) fr = fold apply_attribute as (apply_attribute a fr)" by simp
  also have "\<dots> = fr\<lparr>fr_method := stored_method (a # as) (fr_method fr),
       fr_query_string := attribute_value QUERY_STRING (a # as) (fr_query_string fr),
       fr_remote_user := attribute_value REMOTE_USER (a # as) (fr_remote_user fr),
       fr_auth_type := attribute_value AUTH_TYPE (a # as) (fr_auth_type fr),
       fr_route := attribute_value ROUTE (a # as) (fr_route fr),
       fr_ssl_cert := attribute_value SSL_CERT (a # as) (fr_ssl_cert fr),
       fr_secret := attribute_value SECRET (a # as) (fr_secret fr)\<rparr>"
    unfolding Cons.IH
    by (cases a) (auto simp: attribute_value_def stored_method_def attr_defs split: option.split)
  finally show ?case .
qed

lemma reads_forward_request:
  assumes "proxy_request_ok p"
  shows "reads forward_request_decode (proxy_forward p) (forwarded p)"
proof -
  obtain meth where meth: "ajp_method_name (px_method p) = Some meth"
    using assms by (auto simp: proxy_request_ok_def)
  have ok: "ajp_text_ok (px_protocol p)" "ajp_text_ok (px_uri p)" "ajp_text_ok (px_remote_addr p)"
    "pred_option ajp_text_ok (px_remote_host p)" "ajp_text_ok (px_server_name p)"
    "list_all (\<lambda>(n, v). header_name_ok n \<and> ajp_text_ok v) (px_headers p)"
    "list_all attribute_ok (px_attributes p)"
    and n: "unat (of_nat (length (px_headers p)) :: u16) = length (px_headers p)"
    using assms by (auto simp: proxy_request_ok_def unat_length_u16)
  have final: "forwarded p = fold apply_attribute (px_attributes p)
      \<lparr>fr_method = meth, fr_protocol = px_protocol p, fr_req_uri = px_uri p, fr_remote_addr = px_remote_addr p,
       fr_remote_host = px_remote_host p, fr_server_name = px_server_name p, fr_server_port = px_server_port p,
       fr_is_ssl = ((if px_is_ssl p then 1 else 0) \<noteq> (0 :: u8)), fr_headers = [] @ px_headers p,
       fr_query_string = None, fr_remote_user = None, fr_auth_type = None, fr_route = None, fr_ssl_cert = None,
       fr_secret = None, fr_content_length = declared_length (px_headers p) 0\<rparr>"
    by (simp add: fold_apply_attribute forwarded_def meth)
  show ?thesis
    unfolding forward_request_decode_def proxy_forward_def
    apply (rule reads_bind [OF reads_u8], simp only: not_True_eq_False simp_thms if_False)
    apply (rule reads_bind [OF reads_u8], simp only: meth ok_or_Some and_then_Ok)
    apply (rule reads_bind [OF reads_required_string [OF ok(1)]])
    apply (rule reads_bind [OF reads_required_string [OF ok(2)]])
    apply (rule reads_bind [OF reads_required_string [OF ok(3)]])
    apply (rule reads_bind [OF reads_string [OF ok(4)]])
    apply (rule reads_bind [OF reads_required_string [OF ok(5)]])
    apply (rule reads_bind [OF reads_u16], rule reads_bind [OF reads_u8], rule reads_bind [OF reads_u16])
    apply (simp only: n)
    apply (rule reads_bind [OF reads_headers [OF ok(6)]])
    apply (simp only: prod.case final)
    apply (rule reads_attributes [OF ok(7)])
    done
qed

text \<open>The proxy's side of a response: the head, then body chunks up to the end of the response.\<close>

fun proxy_pairs :: "nat \<Rightarrow> (string \<times> string) list \<Rightarrow> AjpMessage \<Rightarrow> Error + (string \<times> string) list \<times> AjpMessage" where
  "proxy_pairs 0 hs m = Ok (hs, m)"
| "proxy_pairs (Suc n) hs m =
    and_then (read_required_string m) (\<lambda>(k, m).
      and_then (read_required_string m) (\<lambda>(v, m). proxy_pairs n (hs @ [(k, v)]) m))"

definition proxy_head :: "AjpMessage \<Rightarrow> Error + (u16 \<times> string \<times> (string \<times> string) list) \<times> AjpMessage" where
  "proxy_head m =
    and_then (read_u8 m) (\<lambda>(ty, m).
      if ty \<noteq> message_type_code SEND_HEADERS then Err (Protocol ''unexpected packet'')
      else and_then (read_u16 m) (\<lambda>(status, m).
        and_then (read_required_string m) (\<lambda>(reason, m).
        and_then (read_u16 m) (\<lambda>(n, m).
        and_then (proxy_pairs (unat n) [] m) (\<lambda>(hs, m). Ok ((status, reason, hs), m))))))"

text \<open>The data of a chunk packet, and the end of a response with its reuse flag.\<close>

datatype ProxyPacket = Chunk bytes | Finish bool | Unknown

definition proxy_packet :: "AjpMessage \<Rightarrow> ProxyPacket" where
  "proxy_packet m =
    (case am_payload m of
       [] \<Rightarrow> Unknown
     | ty # bs \<Rightarrow>
         if ty = message_type_code SEND_BODY_CHUNK then
           (case bs of a # b # ds \<Rightarrow> Chunk (take (unat (from_be16 a b)) ds) | _ \<Rightarrow> Unknown)
         else if ty = message_type_code END_RESPONSE then Finish (bs = [1])
         else Unknown)"

function proxy_body :: "bytes \<Rightarrow> bytes \<Rightarrow> (bytes \<times> bool \<times> bytes) option" where
  "proxy_body body inp =
    (case read_from MAGIC_OUT inp of
       Inr (Some (m, inp')) \<Rightarrow>
         (case proxy_packet m of
            Chunk d \<Rightarrow> proxy_body (body @ d) inp'
          | Finish reuse \<Rightarrow> Some (body, reuse, inp')
          | Unknown \<Rightarrow> None)
     | _ \<Rightarrow> None)"
  by pat_completeness auto
termination by (relation "measure (\<lambda>(_, inp). length inp)") (auto dest: read_from_shorter)

declare proxy_body.simps [simp del]

definition proxy_response ::
  "bytes \<Rightarrow> ((u16 \<times> string \<times> (string \<times> string) list) \<times> bytes \<times> bool \<times> bytes) option" where
  "proxy_response inp =
    (case read_from MAGIC_OUT inp of
       Inr (Some (m, inp')) \<Rightarrow>
         (case proxy_head m of
            Inr (head, _) \<Rightarrow> map_option (\<lambda>r. (head, r)) (proxy_body [] inp')
          | Inl _ \<Rightarrow> None)
     | _ \<Rightarrow> None)"

definition wire :: "AjpEvent list \<Rightarrow> bytes" where
  "wire evs = concat (map (\<lambda>e. case e of Wrote bs \<Rightarrow> bs | Served _ \<Rightarrow> []) evs)"

definition response_ok :: "Response \<Rightarrow> bool" where
  "response_ok resp \<longleftrightarrow>
    length (am_payload (encode_send_headers resp)) \<le> MAX_PACKET_PAYLOAD \<and>
    list_all (\<lambda>(n, v). valid_str n \<and> valid_str v) (rs_headers resp)"

lemma wire_append [simp]: "wire (xs @ ys) = wire xs @ wire ys"
  by (simp add: wire_def)

lemma write_payload [simp]:
  "am_payload (write_u8 b m) = am_payload m @ [b]"
  "am_payload (write_u16 w m) = am_payload m @ be16 w"
  "am_payload (write_raw bs m) = am_payload m @ bs"
  "am_payload (write_string x m) = am_payload m @ ajp_string x"
  "am_payload ajp_message_new = []"
  by (simp_all add: write_u8_def write_u16_def write_raw_def write_string_def ajp_string_def ajp_message_new_def
      Let_def split: option.split)

lemma write_headers_payload:
  "am_payload (fold (\<lambda>(n, v) m. write_string (Some v) (write_string (Some n) m)) hs m) =
    am_payload m @ concat (map (\<lambda>(n, v). ajp_string (Some n) @ ajp_string (Some v)) hs)"
  by (induction hs arbitrary: m) auto

lemma send_headers_payload:
  "am_payload (encode_send_headers resp) =
    [message_type_code SEND_HEADERS] @ be16 (rs_status resp) @ ajp_string (Some (ajp_reason_phrase (rs_status resp))) @
    be16 (of_nat (length (rs_headers resp))) @
    concat (map (\<lambda>(n, v). ajp_string (Some n) @ ajp_string (Some v)) (rs_headers resp))"
  by (simp add: encode_send_headers_def write_headers_payload)

lemma length_ajp_string: "length (ajp_string (Some s)) = length s + 3"
  by (simp add: ajp_string_def)

lemma headers_fit:
  "length (concat (map (\<lambda>(n, v). ajp_string (Some n) @ ajp_string (Some v)) hs)) < k \<Longrightarrow>
    length hs < k \<and> list_all (\<lambda>(n, v). length n < k \<and> length v < k) hs"
  by (induction hs arbitrary: k) (fastforce simp: length_ajp_string list_all_iff)+

lemma read_from_encode:
  assumes "length (am_payload m) \<le> MAX_PACKET_PAYLOAD"
  shows "ajp_encode [a, b] m = Ok ([a, b] @ be16 (of_nat (length (am_payload m))) @ am_payload m)"
    and "read_from [a, b] ([a, b] @ be16 (of_nat (length (am_payload m))) @ am_payload m @ later) =
      Ok (Some (from_payload (am_payload m), later))"
proof -
  have n: "unat (of_nat (length (am_payload m)) :: u16) = length (am_payload m)"
    using assms by (intro unat_length_u16) (simp add: MAX_PACKET_PAYLOAD_def)
  show "ajp_encode [a, b] m = Ok ([a, b] @ be16 (of_nat (length (am_payload m))) @ am_payload m)"
    using assms by (simp add: ajp_encode_def)
  show "read_from [a, b] ([a, b] @ be16 (of_nat (length (am_payload m))) @ am_payload m @ later) =
      Ok (Some (from_payload (am_payload m), later))"
    by (simp add: read_from_def read_exact_def be16_def numeral_3_eq_3 numeral_2_eq_2 n)
qed

lemma write_to_fits:
  assumes "length (am_payload m) \<le> MAX_PACKET_PAYLOAD"
  obtains framed where "write_to m = ([Wrote framed], Inr ())"
    and "\<And>later. read_from MAGIC_OUT (framed @ later) = Ok (Some (from_payload (am_payload m), later))"
proof -
  let ?framed = "MAGIC_OUT @ be16 (of_nat (length (am_payload m))) @ am_payload m"
  have "write_to m = ([Wrote ?framed], Inr ())"
    using read_from_encode(1) [OF assms, of "0x41" "0x42"] by (simp add: write_to_def MAGIC_OUT_def)
  moreover have "read_from MAGIC_OUT (?framed @ later) = Ok (Some (from_payload (am_payload m), later))" for later
    using read_from_encode(2) [OF assms, of "0x41" "0x42" later] by (simp add: MAGIC_OUT_def)
  ultimately show thesis by (rule that)
qed

lemma before_start: "before (from_payload bs) bs"
  by (simp add: before_def from_payload_def)

lemma reads_start: "reads r p x \<Longrightarrow> \<exists>m'. r (from_payload p) = Ok (x, m') \<and> ajp_remaining m' = 0"
proof -
  assume "reads r p x"
  moreover have "before (from_payload p) (p @ [])" using before_start by simp
  ultimately obtain m' where "r (from_payload p) = Ok (x, m')" "before m' []" by (blast dest: readsD)
  then show ?thesis by (auto simp: before_def ajp_remaining_def)
qed

lemma reads_pairs:
  "list_all (\<lambda>(n, v). ajp_text_ok n \<and> ajp_text_ok v) hs \<Longrightarrow>
    reads (proxy_pairs (length hs) acc) (concat (map (\<lambda>(n, v). ajp_string (Some n) @ ajp_string (Some v)) hs))
      (acc @ hs)"
proof (induction hs arbitrary: acc)
  case Nil
  then show ?case by (simp add: reads_return)
next
  case (Cons h hs)
  obtain n v where h: "h = (n, v)" by (cases h) auto
  then have ok: "ajp_text_ok n" "ajp_text_ok v" using Cons.prems by auto
  have ih: "reads (proxy_pairs (length hs) (acc @ [(n, v)]))
      (concat (map (\<lambda>(n, v). ajp_string (Some n) @ ajp_string (Some v)) hs)) (acc @ h # hs)"
    using Cons.IH [of "acc @ [(n, v)]"] Cons.prems h by simp
  have "reads (proxy_pairs (length (h # hs)) acc)
      (ajp_string (Some n) @ ajp_string (Some v) @
        concat (map (\<lambda>(n, v). ajp_string (Some n) @ ajp_string (Some v)) hs)) (acc @ h # hs)"
    unfolding length_Cons proxy_pairs.simps
    by (rule reads_bind [OF reads_required_string [OF ok(1)]],
        rule reads_bind [OF reads_required_string [OF ok(2)]]) (rule ih)
  then show ?case unfolding h by (simp only: list.map concat.simps prod.case append_assoc)
qed

lemma ajp_reason_ok: "ajp_text_ok (ajp_reason_phrase status)"
proof -
  have ascii: "valid_str s" if "list_all ascii s" for s
    using that by (induction s) (simp_all add: valid_str_Cons_ascii)
  have "list_all (\<lambda>(c, r). list_all ascii r \<and> length r < 0xFFFF) ajp_reasons"
    by (simp add: ajp_reasons_def ascii_def byte_of_def)
  then have "list_all (\<lambda>(c, r). ajp_text_ok r) ajp_reasons"
    using ascii by (auto simp: list_all_iff ajp_text_ok_def)
  moreover have "ajp_text_ok ''Status''"
    using ascii [of "''Status''"] by (simp add: ajp_text_ok_def ascii_def byte_of_def)
  ultimately show ?thesis
    by (auto simp: ajp_reason_phrase_def list_all_iff split: option.split dest: map_of_SomeD)
qed

lemma proxy_reads_head:
  assumes "response_ok resp"
  shows "reads proxy_head (am_payload (encode_send_headers resp))
    (rs_status resp, ajp_reason_phrase (rs_status resp), rs_headers resp)"
proof -
  have "length (concat (map (\<lambda>(n, v). ajp_string (Some n) @ ajp_string (Some v)) (rs_headers resp))) < 0xFFFF"
    using assms by (simp add: response_ok_def MAX_PACKET_PAYLOAD_def send_headers_payload)
  from headers_fit [OF this] have fit: "length (rs_headers resp) < 0xFFFF"
    "list_all (\<lambda>(n, v). length n < 0xFFFF \<and> length v < 0xFFFF) (rs_headers resp)" by simp_all
  have ok: "list_all (\<lambda>(n, v). ajp_text_ok n \<and> ajp_text_ok v) (rs_headers resp)"
    using assms fit(2) by (auto simp: response_ok_def list_all_iff ajp_text_ok_def)
  have n: "unat (of_nat (length (rs_headers resp)) :: u16) = length (rs_headers resp)"
    using fit(1) by (intro unat_length_u16) simp
  show ?thesis
    unfolding proxy_head_def send_headers_payload
    apply (rule reads_bind [OF reads_u8], simp only: not_True_eq_False simp_thms if_False)
    apply (rule reads_bind [OF reads_u16], rule reads_bind [OF reads_required_string [OF ajp_reason_ok]])
    apply (rule reads_bind [OF reads_u16], simp only: n)
    apply (rule reads_bind_last [OF reads_pairs [OF ok]], simp add: reads_return)
    done
qed

lemma body_chunks_fuel:
  "length body \<le> n \<Longrightarrow>
    concat (body_chunks_fuel n body) = body \<and> list_all (\<lambda>c. length c \<le> MAX_SEND_CHUNK) (body_chunks_fuel n body)"
proof (induction n arbitrary: body)
  case (Suc n)
  show ?case
  proof (cases "body = []")
    case False
    then have "length (drop MAX_SEND_CHUNK body) \<le> n" using Suc.prems by (cases body) (auto simp: MAX_SEND_CHUNK_def)
    from Suc.IH [OF this] show ?thesis using False by simp
  qed simp
qed simp

lemma write_chunks_read:
  assumes "list_all (\<lambda>c. length c \<le> MAX_SEND_CHUNK) cs"
  obtains evs where "write_chunks cs = (evs, Inr ())"
    and "\<And>body later. proxy_body body (wire evs @ later) = proxy_body (body @ concat cs) later"
  using assms
proof (induction cs arbitrary: thesis)
  case Nil
  then show ?case using Nil.prems(1) [of "[]"] by (simp add: wire_def)
next
  case (Cons c cs)
  obtain evs where evs: "write_chunks cs = (evs, Inr ())"
    "\<And>body later. proxy_body body (wire evs @ later) = proxy_body (body @ concat cs) later"
    using Cons.IH Cons.prems(2) by auto
  have c: "length c \<le> MAX_SEND_CHUNK" using Cons.prems(2) by simp
  define m where "m = write_u8 0 (write_raw c (write_u16 (of_nat (length c))
       (write_u8 (message_type_code SEND_BODY_CHUNK) ajp_message_new)))"
  have m: "encode_send_body_chunk c = Ok m" using c by (simp add: encode_send_body_chunk_def m_def)
  have n: "unat (of_nat (length c) :: u16) = length c"
    using c by (intro unat_length_u16) (simp add: MAX_SEND_CHUNK_def)
  have payload: "am_payload m = message_type_code SEND_BODY_CHUNK # be16 (of_nat (length c)) @ c @ [0]"
    by (simp add: m_def)
  have "length (am_payload m) \<le> MAX_PACKET_PAYLOAD"
    using c by (simp add: payload MAX_SEND_CHUNK_def MAX_PACKET_PAYLOAD_def)
  then obtain framed where f: "write_to m = ([Wrote framed], Inr ())"
    "\<And>later. read_from MAGIC_OUT (framed @ later) = Ok (Some (from_payload (am_payload m), later))"
    using write_to_fits by blast
  have chunk: "proxy_packet (from_payload (am_payload m)) = Chunk c"
    by (simp add: proxy_packet_def from_payload_def payload be16_def n)
  show ?case
  proof (rule Cons.prems(1))
    show "write_chunks (c # cs) = (Wrote framed # evs, Inr ())"
      by (simp add: m f(1) effect_then_def evs(1))
    show "proxy_body body (wire (Wrote framed # evs) @ later) = proxy_body (body @ concat (c # cs)) later" for body later
      using f(2) [of "wire evs @ later"] chunk evs(2) [of "body @ c" later]
      by (subst proxy_body.simps) (simp add: wire_def)
  qed
qed

text \<open>
  The proxy reads the response the adapter gave: head packet, body packets and end packet decode to its
  status, reason, headers and body, and what follows is untouched.
\<close>

lemma response_read:
  assumes "response_ok resp"
  shows "\<exists>evs. ajp_write_response resp = (evs, Inr ()) \<and>
    proxy_response (wire evs @ later) =
      Some ((rs_status resp, ajp_reason_phrase (rs_status resp), rs_headers resp), rs_body resp, True, later)"
proof -
  have "length (am_payload (encode_send_headers resp)) \<le> MAX_PACKET_PAYLOAD"
    using assms by (simp add: response_ok_def)
  then obtain h where h: "write_to (encode_send_headers resp) = ([Wrote h], Inr ())"
    "\<And>later. read_from MAGIC_OUT (h @ later) = Ok (Some (from_payload (am_payload (encode_send_headers resp)), later))"
    using write_to_fits by blast
  obtain m' where head: "proxy_head (from_payload (am_payload (encode_send_headers resp))) =
      Ok ((rs_status resp, ajp_reason_phrase (rs_status resp), rs_headers resp), m')"
    using reads_start [OF proxy_reads_head [OF assms]] by auto
  have chunks: "concat (body_chunks (rs_body resp)) = rs_body resp"
    "list_all (\<lambda>c. length c \<le> MAX_SEND_CHUNK) (body_chunks (rs_body resp))"
    using body_chunks_fuel by (simp_all add: body_chunks_def)
  obtain evs where evs: "write_chunks (body_chunks (rs_body resp)) = (evs, Inr ())"
    "\<And>body later. proxy_body body (wire evs @ later) = proxy_body (body @ concat (body_chunks (rs_body resp))) later"
    using write_chunks_read [OF chunks(2)] by blast
  have fin: "am_payload (encode_end_response True) = [message_type_code END_RESPONSE, 1]"
    by (simp add: encode_end_response_def)
  then obtain e where e: "write_to (encode_end_response True) = ([Wrote e], Inr ())"
    "\<And>later. read_from MAGIC_OUT (e @ later) = Ok (Some (from_payload [message_type_code END_RESPONSE, 1], later))"
    using write_to_fits [of "encode_end_response True"] by (auto simp: MAX_PACKET_PAYLOAD_def)
  have "proxy_packet (from_payload [message_type_code END_RESPONSE, 1]) = Finish True"
    by (simp add: proxy_packet_def from_payload_def)
  then have stop: "proxy_body body (e @ later) = Some (body, True, later)" for body
    by (subst proxy_body.simps) (simp add: e(2))
  have "ajp_write_response resp = (Wrote h # evs @ [Wrote e], Inr ())"
    by (simp add: ajp_write_response_def h(1) evs(1) e(1) effect_then_def)
  moreover have "wire (Wrote h # evs @ [Wrote e]) @ later = h @ wire evs @ e @ later"
    by (simp add: wire_def)
  ultimately show ?thesis
    by (simp add: proxy_response_def h(2) head evs(2) chunks(1) stop)
qed

text \<open>The comparison of secrets.\<close>

lemma secret_diff_zero:
  "secret_diff d a b = 0 \<longleftrightarrow> d = 0 \<and> (\<forall>i < length a. a ! i = (if i < length b then b ! i else 0))"
proof (induction d a b rule: secret_diff.induct)
  case (2 d x a)
  show ?case unfolding secret_diff.simps 2 or_eq_zero xor_eq_zero
    by (auto simp: nth_Cons split: nat.splits)
next
  case (3 d x a y b)
  show ?case unfolding secret_diff.simps 3 or_eq_zero xor_eq_zero
    by (auto simp: nth_Cons split: nat.splits)
qed simp

lemma length_diff_zero:
  "(ucast (of_nat m XOR of_nat n :: u64) :: u8) = 0 \<longleftrightarrow> m mod 256 = n mod 256"
proof -
  have "(ucast (of_nat m XOR of_nat n :: u64) :: u8) = of_nat m XOR of_nat n"
    by (rule bit_word_eqI) (simp add: bit_simps)
  also have "\<dots> = 0 \<longleftrightarrow> (of_nat m :: u8) = of_nat n" by (rule xor_eq_zero)
  also have "\<dots> \<longleftrightarrow> m mod 256 = n mod 256" by (simp add: word_of_nat_eq_iff take_bit_eq_mod)
  finally show ?thesis .
qed

lemma secret_matches_iff:
  assumes "CHR 0x00 \<notin> set c"
  shows "secret_matches c (Some p) \<longleftrightarrow> starts_with c p \<and> (length p - length c) mod 256 = 0"
proof
  assume m: "secret_matches c (Some p)"
  then have len: "length c mod 256 = length p mod 256"
    and eq: "\<forall>i < length c. as_bytes c ! i = (if i < length p then as_bytes p ! i else 0)"
    by (simp_all add: secret_matches_def secret_diff_zero length_diff_zero)
  have le: "length c \<le> length p"
  proof (rule ccontr)
    assume "\<not> length c \<le> length p"
    then have "length p < length c" by simp
    then have "0 \<in> set (as_bytes c)" using eq by (metis length_as_bytes less_irrefl nth_mem)
    then show False using assms mem_as_bytes [of "CHR 0x00" c] by (simp add: byte_of_ascii)
  qed
  have "take (length c) p = c"
  proof (rule nth_equalityI)
    show "take (length c) p ! i = c ! i" if "i < length (take (length c) p)" for i
      using eq that le by (simp add: as_bytes_def)
  qed (use le in simp)
  then show "starts_with c p \<and> (length p - length c) mod 256 = 0"
    using mod_eq_dvd_iff_nat [OF le, of 256] len by (simp add: starts_with_def mod_eq_0_iff_dvd)
next
  assume m: "starts_with c p \<and> (length p - length c) mod 256 = 0"
  then obtain t where p: "p = c @ t" by (auto elim: starts_withE)
  then have "length c mod 256 = length p mod 256" using m by (simp add: mod_add_right_eq [symmetric])
  then show "secret_matches c (Some p)"
    by (simp add: secret_matches_def secret_diff_zero length_diff_zero p nth_append)
qed

text \<open>The input as packets: a packet that is read is the bytes of its framed payload.\<close>

definition packet_bytes :: "bytes \<Rightarrow> bytes" where
  "packet_bytes payload = MAGIC_IN @ be16 (of_nat (length payload)) @ payload"

lemma read_from_packet:
  assumes "read_from MAGIC_IN inp = Ok (Some (m, inp'))"
  shows "m = from_payload (am_payload m) \<and> inp = packet_bytes (am_payload m) @ inp' \<and> length (am_payload m) < 2 ^ 16"
proof -
  obtain a b c d rest where i: "inp = a # b # c # d # rest" "a = 0x12" "b = 0x34"
    "unat (from_be16 c d) \<le> length rest" "m = from_payload (take (unat (from_be16 c d)) rest)"
    "inp' = drop (unat (from_be16 c d)) rest"
  proof -
    obtain a r where r: "inp = a # r" using assms by (cases inp) (auto simp: read_from_def)
    then have "3 \<le> length r" using assms by (auto simp: read_from_def read_exact_def split: if_splits)
    then obtain b c d rest where "r = b # c # d # rest"
      by (metis Suc_le_length_iff numeral_3_eq_3)
    then show ?thesis
      using that assms r by (auto simp: read_from_def read_exact_def MAGIC_IN_def and_then_eq_Ok split: if_splits)
  qed
  have "be16 (of_nat (unat (from_be16 c d))) = [c, d]" by simp
  then show ?thesis using i unsigned_less [of "from_be16 c d"] by (simp add: packet_bytes_def MAGIC_IN_def from_payload_def min_def)
qed

lemma read_body_packets:
  "ajp_read_body n body inp = (evs, Inr (b, inp')) \<Longrightarrow> \<exists>ps. inp = concat (map packet_bytes ps) @ inp'"
proof (induction n body inp arbitrary: evs rule: ajp_read_body.induct)
  case (1 n body inp)
  show ?case
  proof (cases "length body < n")
    case False
    then show ?thesis using 1(2) by (auto simp: ajp_read_body.simps intro: exI [of _ "[]"])
  next
    case True
    then obtain evs' where r: "(case read_from MAGIC_IN inp of
           Inl e \<Rightarrow> ([], Inl e)
         | Inr None \<Rightarrow> ([], Inl (Protocol ''AJP connection closed mid-body''))
         | Inr (Some (m, inp')) \<Rightarrow>
             (case decode_body_data m of
                Inl e \<Rightarrow> ([], Inl e)
              | Inr chunk \<Rightarrow>
                  if chunk = [] then ([], Inr (body, inp'))
                  else ajp_read_body n (body @ chunk) inp')) = (evs', Inr (b, inp'))"
      and w: "snd (write_to (encode_get_body_chunk (of_nat (min (n - length body) MAX_SEND_CHUNK)))) = Inr ()"
      using 1(2) by (subst (asm) ajp_read_body.simps) (auto simp: Let_def effect_then_Ok)
    then obtain m inp1 chunk where m: "read_from MAGIC_IN inp = Ok (Some (m, inp1))" "decode_body_data m = Ok chunk"
      by (auto split: sum.splits option.splits)
    note p = read_from_packet [OF m(1)]
    show ?thesis
    proof (cases "chunk = []")
      case True
      then have "inp1 = inp'" using r m by simp
      then show ?thesis using p by (intro exI [of _ "[am_payload m]"]) simp
    next
      case False
      then have "ajp_read_body n (body @ chunk) inp1 = (evs', Inr (b, inp'))" using r m by simp
      then obtain ps where "inp1 = concat (map packet_bytes ps) @ inp'"
        using 1(1) [OF _ refl w m(1) refl refl m(2) False] True by fastforce
      then show ?thesis using p by (intro exI [of _ "am_payload m # ps"]) simp
    qed
  qed
qed

definition after_packets :: "bytes \<Rightarrow> bytes \<Rightarrow> bool" where
  "after_packets inp behind \<longleftrightarrow> (\<exists>ps. inp = concat (map packet_bytes ps) @ behind)"

lemma after_packets_refl [simp]: "after_packets inp inp"
  unfolding after_packets_def by (intro exI [of _ "[]"]) simp

lemma handle_packet_packets:
  "handle_packet adapter secret peer m inp = (evs, Inr (Some inp')) \<Longrightarrow> after_packets inp inp'"
  by (auto simp: handle_packet_def effect_then_Ok Let_def dest!: read_body_packets [folded after_packets_def]
      split: option.splits AjpMessageType.splits sum.splits if_splits)

text \<open>What a request went through before the adapter got it, out of the packet that carried it.\<close>

definition admitted :: "string option \<Rightarrow> string \<Rightarrow> AjpMessage \<Rightarrow> Request \<Rightarrow> bool" where
  "admitted secret peer m rq \<longleftrightarrow>
    (\<exists>fwd m' rq0. ajp_message_type m = Some (message_type_code FORWARD_REQUEST) \<and> forward_request_decode m = Ok (fwd, m') \<and>
       (\<forall>c. secret = Some c \<longrightarrow> secret_matches c (fr_secret fwd)) \<and>
       into_request fwd peer = Ok rq0 \<and> rq = rq0\<lparr>rq_body := rq_body rq\<rparr>)"

definition serves :: "AjpEvent list \<Rightarrow> Request set" where
  "serves evs = {rq. Served rq \<in> set evs}"

lemma serves_simps [simp]:
  "serves [] = {}" "serves (Wrote bs # evs) = serves evs" "serves (Served rq # evs) = insert rq (serves evs)"
  "serves (xs @ ys) = serves xs \<union> serves ys"
  by (auto simp: serves_def)

lemma serves_effect_then:
  "serves (fst (effect_then x f)) \<subseteq> serves (fst x) \<union> (case snd x of Inl e \<Rightarrow> {} | Inr v \<Rightarrow> serves (fst (f v)))"
  by (cases x; cases "snd x") (auto simp: effect_then_def split: prod.split)

lemma serves_write_to [simp]: "serves (fst (write_to m)) = {}"
  by (simp add: write_to_def split: sum.split)

lemma serves_write_chunks [simp]: "serves (fst (write_chunks cs)) = {}"
proof (induction cs)
  case (Cons c cs)
  have "serves (fst (effect_then (write_to m) (\<lambda>_. write_chunks cs))) = {}" for m
    using serves_effect_then [of "write_to m" "\<lambda>_. write_chunks cs"] Cons by (auto split: sum.splits)
  then show ?case by (simp split: sum.split)
qed simp

lemma serves_write_response [simp]: "serves (fst (ajp_write_response r)) = {}"
proof -
  let ?rest = "\<lambda>_. effect_then (write_chunks (body_chunks (rs_body r))) (\<lambda>_. write_to (encode_end_response True))"
  have "serves (fst (?rest ())) = {}"
    using serves_effect_then [of "write_chunks (body_chunks (rs_body r))" "\<lambda>_. write_to (encode_end_response True)"]
    by (auto split: sum.splits)
  then show ?thesis
    using serves_effect_then [of "write_to (encode_send_headers r)" ?rest]
    unfolding ajp_write_response_def by (auto split: sum.splits)
qed

lemma serves_read_body [simp]: "serves (fst (ajp_read_body n body inp)) = {}"
proof (induction n body inp rule: ajp_read_body.induct)
  case (1 n body inp)
  let ?k = "\<lambda>_. case read_from MAGIC_IN inp of
           Inl e \<Rightarrow> ([], Inl e)
         | Inr None \<Rightarrow> ([], Inl (Protocol ''AJP connection closed mid-body''))
         | Inr (Some (m, inp')) \<Rightarrow>
             (case decode_body_data m of
                Inl e \<Rightarrow> ([], Inl e)
              | Inr chunk \<Rightarrow>
                  if chunk = [] then ([], Inr (body, inp'))
                  else ajp_read_body n (body @ chunk) inp')"
  let ?w = "write_to (encode_get_body_chunk (of_nat (min (n - length body) MAX_SEND_CHUNK)))"
  show ?case
  proof (cases "length body < n \<and> snd ?w = Inr ()")
    case True
    then have "serves (fst (?k ())) = {}" using 1 by (auto split: sum.split option.split)
    then show ?thesis
      using serves_effect_then [of ?w ?k] True
      by (subst ajp_read_body.simps) (auto simp: Let_def)
  next
    case False
    then show ?thesis
      using serves_effect_then [of ?w ?k]
      by (subst ajp_read_body.simps) (auto simp: Let_def split: sum.splits)
  qed
qed

lemma serves_effect_quiet:
  "serves (fst x) = {} \<Longrightarrow> (\<And>v. serves (fst (f v)) \<subseteq> A) \<Longrightarrow> serves (fst (effect_then x f)) \<subseteq> A"
  using serves_effect_then [of x f] by (fastforce split: sum.splits)

lemma handle_packet_admits:
  "serves (fst (handle_packet adapter secret peer m inp)) \<subseteq> {rq. admitted secret peer m rq}"
proof (cases "\<exists>b fwd m' request. ajp_message_type m = Some b \<and> message_type_from_code b = Some FORWARD_REQUEST \<and>
    forward_request_decode m = Ok (fwd, m') \<and>
    \<not> (case secret of Some configured \<Rightarrow> \<not> secret_matches configured (fr_secret fwd) | None \<Rightarrow> False) \<and>
    into_request fwd peer = Ok request")
  case True
  then obtain b fwd m' request where ok: "ajp_message_type m = Some b"
    "message_type_from_code b = Some FORWARD_REQUEST" "forward_request_decode m = Ok (fwd, m')"
    "\<not> (case secret of Some configured \<Rightarrow> \<not> secret_matches configured (fr_secret fwd) | None \<Rightarrow> False)"
    "into_request fwd peer = Ok request" by blast
  have "b = message_type_code FORWARD_REQUEST" using ok(2) by (auto simp: message_type_from_code_def split: if_splits)
  then have adm: "admitted secret peer m (request\<lparr>rq_body := body\<rparr>)" for body
    unfolding admitted_def using ok(1,3-5)
    by (intro exI [of _ fwd] exI [of _ m'] exI [of _ request]) (auto split: option.splits)
  have "serves (fst (effect_then (ajp_write_response r) (\<lambda>_. ([], Inr (Some i))))) = {}" for r :: Response and i :: bytes
    using serves_effect_then [of "ajp_write_response r" "\<lambda>_. ([], Inr (Some i))"] by (auto split: sum.splits)
  then have step: "serves (fst (effect_then ([Served rq], Inr ())
      (\<lambda>_. effect_then (ajp_write_response r) (\<lambda>_. ([], Inr (Some i)))))) \<subseteq> {rq}" for rq r and i :: bytes
    using serves_effect_then [of "([Served rq], Inr ())" "\<lambda>_. effect_then (ajp_write_response r) (\<lambda>_. ([], Inr (Some i)))"]
    by simp
  show ?thesis
    unfolding handle_packet_def ok(1) option.case ok(2) AjpMessageType.case ok(3) sum.case prod.case if_not_P [OF ok(4)] ok(5)
    using adm by (intro serves_effect_quiet) (auto simp: Let_def dest!: subsetD [OF step])
next
  case False
  have "serves (fst (effect_then (ajp_write_response r) (\<lambda>_. ([], Inr (Some i))))) = {}" for r :: Response and i :: bytes
    using serves_effect_then [of "ajp_write_response r" "\<lambda>_. ([], Inr (Some i))"] by (auto split: sum.splits)
  moreover have "serves (fst (effect_then (write_to x) (\<lambda>_. ([], Inr (Some i))))) = {}" for x and i :: bytes
    using serves_effect_then [of "write_to x" "\<lambda>_. ([], Inr (Some i))"] by (auto split: sum.splits)
  ultimately have "serves (fst (handle_packet adapter secret peer m inp)) = {}"
    using False unfolding handle_packet_def
    by (auto split: option.splits AjpMessageType.splits sum.splits)
  then show ?thesis by simp
qed

lemma ajp_run_admits:
  "rq \<in> serves (fst (ajp_run adapter secret peer inp)) \<Longrightarrow>
    \<exists>ps m behind. inp = concat (map packet_bytes ps) @ packet_bytes (am_payload m) @ behind \<and>
      m = from_payload (am_payload m) \<and> length (am_payload m) < 2 ^ 16 \<and> admitted secret peer m rq"
proof (induction adapter secret peer inp rule: ajp_run.induct)
  case (1 adapter secret peer inp)
  show ?case
  proof (cases "\<exists>m inp'. read_from MAGIC_IN inp = Ok (Some (m, inp'))")
    case True
    then obtain m inp' where m: "read_from MAGIC_IN inp = Ok (Some (m, inp'))" by blast
    note p = read_from_packet [OF m]
    show ?thesis
    proof (cases "rq \<in> serves (fst (handle_packet adapter secret peer m inp'))")
      case True
      then have "admitted secret peer m rq" using handle_packet_admits by blast
      then show ?thesis using p by (intro exI [of _ "[]"] exI [of _ m] exI [of _ inp']) simp
    next
      case False
      then obtain evs inp'' where h: "handle_packet adapter secret peer m inp' = (evs, Inr (Some inp''))"
        "rq \<in> serves (fst (ajp_run adapter secret peer inp''))"
        using 1(2) m by (subst (asm) ajp_run.simps) (auto split: prod.splits sum.splits option.splits)
      obtain qs where q: "inp' = concat (map packet_bytes qs) @ inp''" using handle_packet_packets [OF h(1)] by (auto simp: after_packets_def)
      obtain ps m' behind where i: "inp'' = concat (map packet_bytes ps) @ packet_bytes (am_payload m') @ behind"
        "m' = from_payload (am_payload m')" "length (am_payload m') < 2 ^ 16" "admitted secret peer m' rq"
        using 1(1) [OF m refl refl h(1) [symmetric] refl refl h(2)] by blast
      have "inp = concat (map packet_bytes (am_payload m # qs @ ps)) @ packet_bytes (am_payload m') @ behind"
        using p q i(1) by simp
      then show ?thesis using i(2-4) by blast
    qed
  next
    case False
    then show ?thesis using 1(2) by (subst (asm) ajp_run.simps) (auto split: sum.splits option.splits)
  qed
qed

lemma into_request_path:
  assumes "into_request fwd peer = Ok rq" "rq_path rq \<noteq> ''*''"
  shows "safe_path (rq_path rq)"
proof -
  obtain t u where "normalize_target t = Ok u" "rq_path rq = uri_path u"
    using assms(1) by (auto simp: into_request_def Let_def split: if_splits sum.splits)
  then show ?thesis using assms(2) by (auto intro: normalize_safe_path)
qed

lemma served_admitted:
  assumes "ajp_run adapter secret peer inp = (evs, r)" "Served rq \<in> set evs"
  obtains ps m behind where "inp = concat (map packet_bytes ps) @ packet_bytes (am_payload m) @ behind"
    "m = from_payload (am_payload m)" "length (am_payload m) < 2 ^ 16" "admitted secret peer m rq"
  using ajp_run_admits [of rq adapter secret peer inp] assms by (auto simp: serves_def)

text \<open>
  A secret that is longer by a multiple of 256 characters passes: only the low eight bits of the lengths
  are compared.
\<close>

lemma ajp_long_secret_accepted: "secret_matches ''s'' (Some (''s'' @ replicate 256 (CHR ''x'')))"
  by (subst secret_matches_iff) (simp_all add: starts_with_def)

text \<open>The proxy's last body packet may carry more than the declared length; all of it becomes the body.\<close>

lemma ajp_body_too_long:
  "snd (ajp_read_body 1 [] [0x12, 0x34, 0, 4, 0, 2, 7, 8]) = Inr ([7, 8], [])"
proof -
  have r: "read_from MAGIC_IN [0x12, 0x34, 0, 4, 0, 2, 7, 8] = Ok (Some (from_payload [0, 2, 7, 8], []))"
    using read_from_encode(2) [of "from_payload [0, 2, 7, 8]" "0x12" "0x34" "[]"]
    by (simp add: MAGIC_IN_def from_payload_def be16_def MAX_PACKET_PAYLOAD_def)
  have d: "decode_body_data (from_payload [0, 2, 7, 8]) = Ok [7, 8]"
    by (simp add: decode_body_data_def from_payload_def from_be16_def)
  have "length (am_payload (encode_get_body_chunk (of_nat (min (1 - length ([] :: bytes)) MAX_SEND_CHUNK)))) \<le>
      MAX_PACKET_PAYLOAD"
    by (simp add: encode_get_body_chunk_def MAX_PACKET_PAYLOAD_def)
  then obtain framed where
    w: "write_to (encode_get_body_chunk (of_nat (min (1 - length ([] :: bytes)) MAX_SEND_CHUNK))) = ([Wrote framed], Inr ())"
    using write_to_fits by blast
  have "ajp_read_body 1 [7, 8] [] = ([], Inr ([7, 8], []))" by (simp add: ajp_read_body.simps)
  then show ?thesis
    using w by (subst ajp_read_body.simps) (simp add: r d Let_def effect_then_def)
qed

text \<open>
  A request that is turned away leaves its body in the stream: whatever the proxy sends next is taken for a
  new packet.
\<close>

lemma ajp_rejected_body_stays:
  assumes "ajp_message_type m = Some (message_type_code FORWARD_REQUEST)"
    and "forward_request_decode m = Ok (fwd, m')" "into_request fwd peer = Err e"
    and "response_ok (response_with_body 400 (as_bytes ''Bad Request''))"
  shows "\<exists>evs. handle_packet adapter None peer m inp = (evs, Inr (Some inp))"
proof -
  obtain evs where "ajp_write_response (response_with_body 400 (as_bytes ''Bad Request'')) = (evs, Inr ())"
    using response_read [OF assms(4), of "[]"] by blast
  then show ?thesis
    using assms(1-3) by (simp add: handle_packet_def message_type_from_code_def effect_then_def)
qed

definition sample_forward :: ProxyRequest where
  "sample_forward =
    \<lparr>px_method = 2, px_protocol = ''HTTP/1.1'', px_uri = ''/a'', px_remote_addr = ''::1'', px_remote_host = None,
     px_server_name = ''h'', px_server_port = 80, px_is_ssl = False, px_headers = [(''host'', ''h'')],
     px_attributes = [RequestAttribute ''x'' ''y'', StringAttribute SECRET (Some ''s'')]\<rparr>"

lemma sample_forward_ok: "proxy_request_ok sample_forward"
proof -
  have "valid_str s" if "list_all ascii s" for s
    using that by (induction s) (simp_all add: valid_str_Cons_ascii)
  then have "ajp_text_ok s" if "list_all ascii s" "length s < 0xFFFF" for s
    using that by (simp add: ajp_text_ok_def)
  then show ?thesis
    by (simp add: proxy_request_ok_def sample_forward_def ajp_method_name_def ajp_methods_def header_name_ok_def
        ascii_def byte_of_def to_ascii_lowercase_def to_ascii_lower_def string_attributes_def)
qed

lemma sample_run:
  "\<exists>evs r rq. ajp_run (\<lambda>_. response_new 204) (Some ''s'') ''::1''
       (MAGIC_IN @ be16 (of_nat (length (proxy_forward sample_forward))) @ proxy_forward sample_forward) = (evs, r) \<and>
     Served rq \<in> set evs"
proof -
  have "length (proxy_forward sample_forward) \<le> MAX_PACKET_PAYLOAD"
    by (simp add: proxy_forward_def sample_forward_def ajp_string_def MAX_PACKET_PAYLOAD_def proxy_header_name_def
        ajp_request_headers_def)
  then have read: "read_from MAGIC_IN (MAGIC_IN @ be16 (of_nat (length (proxy_forward sample_forward))) @
      proxy_forward sample_forward) = Ok (Some (from_payload (proxy_forward sample_forward), []))"
    using read_from_encode(2) [of "from_payload (proxy_forward sample_forward)" "0x12" "0x34" "[]"]
    by (simp add: MAGIC_IN_def from_payload_def)
  obtain m' where dec: "forward_request_decode (from_payload (proxy_forward sample_forward)) =
      Ok (forwarded sample_forward, m')"
    using reads_start [OF reads_forward_request [OF sample_forward_ok]] by auto
  have secret: "secret_matches ''s'' (fr_secret (forwarded sample_forward))"
    by (simp add: forwarded_def sample_forward_def attribute_value_def attr_defs secret_matches_def secret_diff_zero)
  have "normalize_target ''/a'' = Ok \<lparr>uri_path = ''/a'', uri_query = None\<rparr>" by code_simp
  then obtain rq where rq: "into_request (forwarded sample_forward) ''::1'' = Ok rq"
    by (simp add: into_request_def forwarded_def sample_forward_def attribute_value_def attr_defs as_bytes_def
        ascii_control_def byte_of_def Let_def)
  have body: "fr_content_length (forwarded sample_forward) = 0"
    by (simp add: forwarded_def sample_forward_def declared_length_def)
  have "response_ok (response_new 204)"
    by (simp add: response_ok_def response_new_def send_headers_payload MAX_PACKET_PAYLOAD_def
        length_ajp_string ajp_reason_phrase_def ajp_reasons_def)
  then obtain evs where evs: "ajp_write_response (response_new 204) = (evs, Inr ())"
    using response_read [of "response_new 204" "[]"] by blast
  have type: "ajp_message_type (from_payload (proxy_forward sample_forward)) = Some 2"
    by (simp add: ajp_message_type_def from_payload_def proxy_forward_def)
  have "handle_packet (\<lambda>_. response_new 204) (Some ''s'') ''::1'' (from_payload (proxy_forward sample_forward)) [] =
      (Served (rq\<lparr>rq_body := rq_body rq\<rparr>) # evs, Inr (Some []))"
    by (simp add: handle_packet_def type message_type_from_code_def dec secret rq body effect_then_def evs)
  moreover have "ajp_run (\<lambda>_. response_new 204) (Some ''s'') ''::1'' [] = ([], Inr ())"
    by (subst ajp_run.simps) (simp add: read_from_def)
  ultimately have "ajp_run (\<lambda>_. response_new 204) (Some ''s'') ''::1''
       (MAGIC_IN @ be16 (of_nat (length (proxy_forward sample_forward))) @ proxy_forward sample_forward) =
      (Served (rq\<lparr>rq_body := rq_body rq\<rparr>) # evs, Inr ())"
    by (subst ajp_run.simps) (simp add: read)
  then show ?thesis by auto
qed

section \<open>Properties\<close>

text \<open>
  C28. The connector reads the request the proxy sent: decoding a forward request, with its header names
  coded or spelt out and its attributes in any order, gives back every field, the last value of each typed
  attribute, and nothing of the generic request attributes, whatever names and values they carry; no byte
  is left over.
\<close>

theorem ajp_forward_roundtrip:
  assumes "proxy_request_ok p"
  shows "\<exists>m. forward_request_decode (from_payload (proxy_forward p)) = Ok (forwarded p, m) \<and> ajp_remaining m = 0"
  using assms by (intro reads_start reads_forward_request)

theorem ajp_forward_roundtrip_witness:
  "\<exists>m. forward_request_decode (from_payload (proxy_forward sample_forward)) = Ok (forwarded sample_forward, m) \<and>
     ajp_remaining m = 0"
  by (rule ajp_forward_roundtrip [OF sample_forward_ok])

text \<open>
  C29. With a shared secret configured, whatever bytes arrive, a request reaches the adapter only if the bytes
  are whole packets, then a packet that is a well-formed forward request, and then any more, and it is that
  packet that presented the secret, possibly followed by a multiple of 256 further characters, and that says
  everything about the request but its body; and the path of the request cannot leave the document root.
\<close>

theorem ajp_adapter_guarded:
  assumes "ajp_run adapter (Some c) peer inp = (evs, r)" "Served rq \<in> set evs" "CHR 0x00 \<notin> set c"
  shows "(\<exists>ps payload behind fwd m' p. inp = concat (map packet_bytes ps) @ packet_bytes payload @ behind \<and>
      length payload < 2 ^ 16 \<and> forward_request_decode (from_payload payload) = Ok (fwd, m') \<and>
      into_request fwd peer = Ok (rq\<lparr>rq_body := []\<rparr>) \<and> fr_secret fwd = Some p \<and>
      starts_with c p \<and> (length p - length c) mod 256 = 0) \<and>
    (rq_path rq = ''*'' \<or> safe_path (rq_path rq))"
proof -
  obtain ps m behind where inp: "inp = concat (map packet_bytes ps) @ packet_bytes (am_payload m) @ behind"
    "m = from_payload (am_payload m)" "length (am_payload m) < 2 ^ 16" "admitted (Some c) peer m rq"
    by (rule served_admitted [OF assms(1,2)])
  then obtain fwd m' rq0 where m: "forward_request_decode (from_payload (am_payload m)) = Ok (fwd, m')"
    "secret_matches c (fr_secret fwd)" "into_request fwd peer = Ok rq0" "rq = rq0\<lparr>rq_body := rq_body rq\<rparr>"
    by (auto simp: admitted_def)
  obtain p where p: "fr_secret fwd = Some p" using m(2) by (cases "fr_secret fwd") (auto simp: secret_matches_def)
  have "rq_body rq0 = []"
    using m(3) by (auto simp: into_request_def Let_def split: if_splits sum.splits)
  then have rq0: "rq\<lparr>rq_body := []\<rparr> = rq0" by (subst m(4)) simp
  have "rq_path rq = rq_path rq0" by (subst m(4)) simp
  then have "rq_path rq = ''*'' \<or> safe_path (rq_path rq)" using into_request_path [OF m(3)] by auto
  moreover have "starts_with c p \<and> (length p - length c) mod 256 = 0"
    using m(2) secret_matches_iff [OF assms(3), of p] p by simp
  ultimately show ?thesis unfolding rq0 using inp(1,3) m(1,3) p
    by (intro conjI exI [of _ ps] exI [of _ "am_payload m"] exI [of _ behind] exI [of _ fwd] exI [of _ m'] exI [of _ p]) simp_all
qed

theorem ajp_adapter_guarded_witness:
  "\<exists>evs r rq. ajp_run (\<lambda>_. response_new 204) (Some ''s'') ''::1'' (packet_bytes (proxy_forward sample_forward)) = (evs, r) \<and>
     Served rq \<in> set evs \<and> (rq_path rq = ''*'' \<or> safe_path (rq_path rq))"
proof -
  obtain evs r rq where "ajp_run (\<lambda>_. response_new 204) (Some ''s'') ''::1'' (packet_bytes (proxy_forward sample_forward)) = (evs, r)"
      "Served rq \<in> set evs"
    using sample_run unfolding packet_bytes_def by blast
  with ajp_adapter_guarded [OF this] show ?thesis by auto
qed

end
