(* ===== verification/Cluster.thy ===== *)
theory Cluster
  imports SessionStores
begin

text \<open>
  Session replication: \<open>crates/tomcatrs-session/src/store_cluster.rs\<close>. A node is a memory store and a
  transport; the transport is the in-memory one, with one first-in first-out inbox for each node, which
  is \<open>None\<close> once its receiver is dropped. What a waiting \<open>load\<close> receives is a list of events.
\<close>

section \<open>Model\<close>

datatype ReplicationMode = AllToAll | PrimaryBackup

datatype ClusterMessage =
    SaveMsg SessionData
  | DeleteMsg string
  | FetchRequest string string
  | FetchResponse string "SessionData option"

type_synonym Net = "(string \<times> ClusterMessage list option) list"

definition net_cluster :: "string list \<Rightarrow> Net" where
  "net_cluster ids = map (\<lambda>i. (i, Some [])) ids"

definition net_join :: "string \<Rightarrow> Net \<Rightarrow> Net" where
  "net_join i net = net @ [(i, Some [])]"

definition broadcast :: "string \<Rightarrow> ClusterMessage \<Rightarrow> Net \<Rightarrow> Net" where
  "broadcast me msg net = map (\<lambda>(i, q). if i = me then (i, q) else (i, map_option (\<lambda>ms. ms @ [msg]) q)) net"

definition send_to :: "string \<Rightarrow> ClusterMessage \<Rightarrow> Net \<Rightarrow> Net \<times> (Error + unit)" where
  "send_to i msg net =
    (case map_of net i of
       Some (Some ms) \<Rightarrow> (AList.update i (Some (ms @ [msg])) net, Ok ())
     | Some None \<Rightarrow> (net, Err (Other (''cluster peer '' @ i @ '' unreachable'')))
     | None \<Rightarrow> (net, Err (Other (''unknown cluster node: '' @ i))))"

record ClusterNode =
  cn_id :: string
  cn_local :: MemoryStore
  cn_mode :: ReplicationMode
  cn_backup :: "string option"

definition cluster_node_new :: "string \<Rightarrow> ReplicationMode \<Rightarrow> ClusterNode" where
  "cluster_node_new i mode = \<lparr>cn_id = i, cn_local = [], cn_mode = mode, cn_backup = None\<rparr>"

definition with_backup :: "string \<Rightarrow> ClusterNode \<Rightarrow> ClusterNode" where
  "with_backup i n = n\<lparr>cn_backup := Some i\<rparr>"

definition apply_incoming :: "ClusterMessage \<Rightarrow> ClusterNode \<Rightarrow> Net \<Rightarrow> ClusterNode \<times> Net \<times> (Error + unit)" where
  "apply_incoming msg n net =
    (case msg of
       SaveMsg d \<Rightarrow> (case memory_save (cn_local n) d of (s, r) \<Rightarrow> (n\<lparr>cn_local := s\<rparr>, net, r))
     | DeleteMsg i \<Rightarrow> (case memory_delete (cn_local n) i of (s, r) \<Rightarrow> (n\<lparr>cn_local := s\<rparr>, net, r))
     | FetchRequest i reply_to \<Rightarrow>
         (case memory_load (cn_local n) i of
            (s, Inl e) \<Rightarrow> (n, net, Err e)
          | (s, Inr found) \<Rightarrow> (case send_to reply_to (FetchResponse i found) net of (net', r) \<Rightarrow> (n, net', r)))
     | FetchResponse _ _ \<Rightarrow> (n, net, Ok ()))"

definition replicate_msg :: "ClusterMessage \<Rightarrow> ClusterNode \<Rightarrow> Net \<Rightarrow> Net \<times> (Error + unit)" where
  "replicate_msg msg n net =
    (case cn_mode n of
       AllToAll \<Rightarrow> (broadcast (cn_id n) msg net, Ok ())
     | PrimaryBackup \<Rightarrow> (case cn_backup n of Some b \<Rightarrow> send_to b msg net | None \<Rightarrow> (net, Ok ())))"

definition cluster_save :: "SessionData \<Rightarrow> ClusterNode \<Rightarrow> Net \<Rightarrow> ClusterNode \<times> Net \<times> (Error + unit)" where
  "cluster_save d n net =
    (case memory_save (cn_local n) d of
       (s, Inl e) \<Rightarrow> (n\<lparr>cn_local := s\<rparr>, net, Err e)
     | (s, Inr _) \<Rightarrow> (case replicate_msg (SaveMsg d) n net of (net', r) \<Rightarrow> (n\<lparr>cn_local := s\<rparr>, net', r)))"

definition cluster_delete :: "string \<Rightarrow> ClusterNode \<Rightarrow> Net \<Rightarrow> ClusterNode \<times> Net \<times> (Error + unit)" where
  "cluster_delete i n net =
    (case memory_delete (cn_local n) i of
       (s, Inl e) \<Rightarrow> (n\<lparr>cn_local := s\<rparr>, net, Err e)
     | (s, Inr _) \<Rightarrow> (case replicate_msg (DeleteMsg i) n net of (net', r) \<Rightarrow> (n\<lparr>cn_local := s\<rparr>, net', r)))"

text \<open>What \<open>receive\<close> gives a waiting \<open>load\<close>; the end of the list is the timeout.\<close>

datatype WaitEvent = Incoming ClusterMessage | Shutdown | ReceiveError Error

fun await_response ::
    "string \<Rightarrow> WaitEvent list \<Rightarrow> ClusterNode \<Rightarrow> Net \<Rightarrow> ClusterNode \<times> Net \<times> (Error + SessionData option)" where
  "await_response i [] n net = (n, net, Ok None)"
| "await_response i (Shutdown # evs) n net = (n, net, Ok None)"
| "await_response i (ReceiveError e # evs) n net = (n, net, Err e)"
| "await_response i (Incoming msg # evs) n net =
    (if \<exists>found. msg = FetchResponse i found then
       (case msg of
          FetchResponse _ (Some d) \<Rightarrow> (n\<lparr>cn_local := fst (memory_save (cn_local n) d)\<rparr>, net, Ok (Some d))
        | _ \<Rightarrow> (n, net, Ok None))
     else
       (case apply_incoming msg n net of
          (n', net', Inl e) \<Rightarrow> (n', net', Err e)
        | (n', net', Inr _) \<Rightarrow> await_response i evs n' net'))"

definition cluster_load ::
    "string \<Rightarrow> WaitEvent list \<Rightarrow> ClusterNode \<Rightarrow> Net \<Rightarrow> ClusterNode \<times> Net \<times> (Error + SessionData option)" where
  "cluster_load i evs n net =
    (case memory_load (cn_local n) i of
       (_, Inl e) \<Rightarrow> (n, net, Err e)
     | (_, Inr (Some d)) \<Rightarrow> (n, net, Ok (Some d))
     | (_, Inr None) \<Rightarrow> await_response i evs n (broadcast (cn_id n) (FetchRequest i (cn_id n)) net))"

definition cluster_load_all :: "ClusterNode \<Rightarrow> Error + SessionData list" where
  "cluster_load_all n = memory_load_all (cn_local n)"

section \<open>The cluster\<close>

record Cluster =
  cl_node :: "string \<Rightarrow> ClusterNode"
  cl_net :: Net

definition mailbox :: "Net \<Rightarrow> string \<Rightarrow> ClusterMessage list" where
  "mailbox net i = (case map_of net i of Some (Some ms) \<Rightarrow> ms | _ \<Rightarrow> [])"

text \<open>One pass of \<open>run_receiver\<close>: the oldest message is taken and applied, its failure only logged.\<close>

definition receive_step :: "string \<Rightarrow> Cluster \<Rightarrow> Cluster" where
  "receive_step i c =
    (case mailbox (cl_net c) i of
       [] \<Rightarrow> c
     | msg # ms \<Rightarrow>
         (case apply_incoming msg (cl_node c i) (AList.update i (Some ms) (cl_net c)) of
            (n, net, _) \<Rightarrow> \<lparr>cl_node = (cl_node c)(i := n), cl_net = net\<rparr>))"

definition save_step :: "string \<Rightarrow> SessionData \<Rightarrow> Cluster \<Rightarrow> Cluster" where
  "save_step i d c =
    (case cluster_save d (cl_node c i) (cl_net c) of (n, net, _) \<Rightarrow> \<lparr>cl_node = (cl_node c)(i := n), cl_net = net\<rparr>)"

definition delete_step :: "string \<Rightarrow> string \<Rightarrow> Cluster \<Rightarrow> Cluster" where
  "delete_step i s c =
    (case cluster_delete s (cl_node c i) (cl_net c) of (n, net, _) \<Rightarrow> \<lparr>cl_node = (cl_node c)(i := n), cl_net = net\<rparr>)"

text \<open>
  The two halves of \<open>load\<close>: the lookup, which asks the peers if it misses, and the receipt of one message by a
  waiting \<open>load\<close> of the session \<open>s\<close>, which may end its wait. Between them other nodes and tasks run.
\<close>

definition lookup_step :: "string \<Rightarrow> string \<Rightarrow> Cluster \<Rightarrow> Cluster" where
  "lookup_step i s c =
    (case cluster_load s [] (cl_node c i) (cl_net c) of (n, net, _) \<Rightarrow> \<lparr>cl_node = (cl_node c)(i := n), cl_net = net\<rparr>)"

definition wait_step :: "string \<Rightarrow> string \<Rightarrow> Cluster \<Rightarrow> Cluster" where
  "wait_step i s c =
    (case mailbox (cl_net c) i of
       [] \<Rightarrow> c
     | msg # ms \<Rightarrow>
         (case await_response s [Incoming msg] (cl_node c i) (AList.update i (Some ms) (cl_net c)) of
            (n, net, _) \<Rightarrow> \<lparr>cl_node = (cl_node c)(i := n), cl_net = net\<rparr>))"

definition cluster_start :: "string list \<Rightarrow> Cluster" where
  "cluster_start ids = \<lparr>cl_node = (\<lambda>i. cluster_node_new i AllToAll), cl_net = net_cluster ids\<rparr>"

text \<open>
  The runs of an all-to-all cluster with sticky sessions: every session is saved, deleted and loaded at the node
  that owns it, and the nodes receive in any order, between these, be it in the receiver or in a \<open>load\<close>
  that waits. A node takes and applies one message at a time.
\<close>

inductive sticky_run :: "string list \<Rightarrow> (string \<Rightarrow> string) \<Rightarrow> Cluster \<Rightarrow> bool" for ids owner where
  start: "sticky_run ids owner (cluster_start ids)"
| save: "sticky_run ids owner c \<Longrightarrow> owner (sd_id d) \<in> set ids \<Longrightarrow> sticky_run ids owner (save_step (owner (sd_id d)) d c)"
| delete: "sticky_run ids owner c \<Longrightarrow> owner s \<in> set ids \<Longrightarrow> sticky_run ids owner (delete_step (owner s) s c)"
| lookup: "sticky_run ids owner c \<Longrightarrow> owner s \<in> set ids \<Longrightarrow> sticky_run ids owner (lookup_step (owner s) s c)"
| wait: "sticky_run ids owner c \<Longrightarrow> i \<in> set ids \<Longrightarrow> sticky_run ids owner (wait_step i s c)"
| receive: "sticky_run ids owner c \<Longrightarrow> i \<in> set ids \<Longrightarrow> sticky_run ids owner (receive_step i c)"

text \<open>Receipts alone.\<close>

inductive receipts :: "string list \<Rightarrow> Cluster \<Rightarrow> Cluster \<Rightarrow> bool" for ids where
  stop: "receipts ids c c"
| more: "i \<in> set ids \<Longrightarrow> receipts ids (receive_step i c) c' \<Longrightarrow> receipts ids c c'"

section \<open>Convergence\<close>

text \<open>What a list of messages makes of a store.\<close>

fun replay :: "ClusterMessage list \<Rightarrow> (string \<rightharpoonup> SessionData) \<Rightarrow> (string \<rightharpoonup> SessionData)" where
  "replay [] M = M"
| "replay (SaveMsg d # ms) M = replay ms (M(sd_id d \<mapsto> d))"
| "replay (DeleteMsg s # ms) M = replay ms (M(s := None))"
| "replay (_ # ms) M = replay ms M"

fun concerns :: "ClusterMessage \<Rightarrow> string \<Rightarrow> bool" where
  "concerns (SaveMsg d) s \<longleftrightarrow> sd_id d = s"
| "concerns (DeleteMsg s') s \<longleftrightarrow> s' = s"
| "concerns _ s \<longleftrightarrow> False"

lemma replay_append: "replay (ms @ ms') M = replay ms' (replay ms M)"
proof (induction ms arbitrary: M)
  case (Cons m ms)
  then show ?case by (cases m) (simp_all add: fun_upd_def)
qed simp

lemma replay_upd_other: "M s = M' s \<Longrightarrow> replay ms M s = replay ms M' s"
proof (induction ms arbitrary: M M')
  case (Cons m ms)
  show ?case by (cases m) (auto intro!: Cons.IH simp: Cons.prems)
qed simp

lemma replay_other: "\<forall>msg \<in> set ms. \<not> concerns msg s \<Longrightarrow> replay ms M s = M s"
proof (induction ms arbitrary: M)
  case (Cons m ms)
  then show ?case by (cases m) auto
qed simp

definition all_open :: "Net \<Rightarrow> bool" where
  "all_open net \<longleftrightarrow> distinct (map fst net) \<and> (\<forall>e \<in> set net. snd e \<noteq> None)"

lemma map_of_broadcast:
  "map_of (broadcast me msg net) i =
    map_option (\<lambda>q. if i = me then q else map_option (\<lambda>ms. ms @ [msg]) q) (map_of net i)"
  by (induction net) (auto simp: broadcast_def)

lemma open_lookup: "all_open net \<Longrightarrow> i \<in> fst ` set net \<Longrightarrow> \<exists>ms. map_of net i = Some (Some ms)"
  by (cases "map_of net i") (fastforce simp: all_open_def map_of_eq_None_iff dest: map_of_SomeD)+

lemma mailbox_broadcast:
  assumes "all_open net"
  shows "mailbox (broadcast me msg net) i = mailbox net i @ (if i \<noteq> me \<and> i \<in> fst ` set net then [msg] else [])"
proof (cases "i \<in> fst ` set net")
  case True
  then show ?thesis using open_lookup [OF assms True] by (auto simp: mailbox_def map_of_broadcast)
next
  case False
  then have "map_of net i = None" by (simp add: map_of_eq_None_iff)
  then show ?thesis using False by (simp add: mailbox_def map_of_broadcast)
qed

lemma broadcast_keys: "map fst (broadcast me msg net) = map fst net"
  by (auto simp: broadcast_def)

lemma broadcast_open: "all_open net \<Longrightarrow> all_open (broadcast me msg net)"
  unfolding all_open_def broadcast_keys by (auto simp: broadcast_def split: if_splits)

lemma update_net:
  assumes "all_open net" "i \<in> fst ` set net"
  shows "map fst (AList.update i (Some ms) net) = map fst net" "all_open (AList.update i (Some ms) net)"
    "mailbox (AList.update i (Some ms) net) j = (if j = i then ms else mailbox net j)"
proof -
  show k: "map fst (AList.update i (Some ms) net) = map fst net" using assms(2) by (simp add: update_keys)
  show "all_open (AList.update i (Some ms) net)"
    using assms(1) set_alist_update [of i "Some ms" net] unfolding all_open_def k by auto
  show "mailbox (AList.update i (Some ms) net) j = (if j = i then ms else mailbox net j)"
    by (simp add: mailbox_def AList.update_conv')
qed

lemma send_to_net:
  assumes "all_open net" "send_to i msg net = (net', r)"
  shows "map fst net' = map fst net \<and> all_open net' \<and>
    mailbox net' j = mailbox net j @ (if j = i \<and> i \<in> fst ` set net then [msg] else [])"
proof (cases "map_of net i")
  case None
  then have "i \<notin> fst ` set net" by (simp add: map_of_eq_None_iff)
  then show ?thesis using assms None by (simp add: send_to_def)
next
  case (Some q)
  then have i: "i \<in> fst ` set net" by (metis domI dom_map_of_conv_image_fst)
  obtain ms where q: "q = Some ms" using open_lookup [OF assms(1) i] Some by auto
  then have "net' = AList.update i (Some (ms @ [msg])) net" using assms(2) Some by (simp add: send_to_def)
  moreover have "mailbox net i = ms" using Some q by (simp add: mailbox_def)
  ultimately show ?thesis using update_net [OF assms(1) i, of "ms @ [msg]"] i by simp
qed

text \<open>The invariant, apart from the shape of the network.\<close>

definition agrees :: "string list \<Rightarrow> (string \<Rightarrow> string) \<Rightarrow> (string \<Rightarrow> ClusterMessage list) \<Rightarrow>
    (string \<Rightarrow> string \<rightharpoonup> SessionData) \<Rightarrow> bool" where
  "agrees ids owner box M \<longleftrightarrow>
    (\<forall>i \<in> set ids. \<forall>s. owner s \<in> set ids \<longrightarrow>
      (if owner s = i then \<forall>msg \<in> set (box i). \<not> concerns msg s
       else replay (box i) (M i) s = M (owner s) s))"

lemma agrees_write:
  assumes "agrees ids owner box M" "owner s = w" "\<And>s'. concerns msg s' \<longleftrightarrow> s' = s" "\<And>N. replay [msg] N = N(s := v)"
  shows "agrees ids owner (\<lambda>i. box i @ (if i \<noteq> w \<and> i \<in> set ids then [msg] else [])) (M(w := (M w)(s := v)))"
  unfolding agrees_def
proof (intro ballI allI impI)
  fix i t assume it: "i \<in> set ids" "owner t \<in> set ids"
  let ?box = "box i @ (if i \<noteq> w \<and> i \<in> set ids then [msg] else [])"
  have b: "if owner t = i then \<forall>msg \<in> set (box i). \<not> concerns msg t else replay (box i) (M i) t = M (owner t) t"
    using assms(1) it by (auto simp: agrees_def)
  have skip: "concerns msg t = False" if "owner t \<noteq> w" using that assms(2,3) by auto
  show "if owner t = i then \<forall>msg \<in> set ?box. \<not> concerns msg t
    else replay ?box ((M(w := (M w)(s := v))) i) t = (M(w := (M w)(s := v))) (owner t) t"
  proof (cases "owner t = i")
    case True
    then show ?thesis using b skip by auto
  next
    case False
    show ?thesis
    proof (cases "i = w")
      case True
      then have "t \<noteq> s" using False assms(2) by auto
      then have "replay (box i) ((M w)(s := v)) t = replay (box i) (M i) t" using True by (intro replay_upd_other) simp
      then show ?thesis using True False b by simp
    next
      case iw: False
      then show ?thesis using False it b by (simp add: replay_append assms(4) assms(2)) 
    qed
  qed
qed

lemma agrees_receive:
  assumes "agrees ids owner box M" "i \<in> set ids" "box i = msg # ms"
  shows "agrees ids owner (box(i := ms)) (M(i := replay [msg] (M i)))"
  unfolding agrees_def
proof (intro ballI allI impI)
  fix j t assume jt: "j \<in> set ids" "owner t \<in> set ids"
  have b: "if owner t = k then \<forall>msg \<in> set (box k). \<not> concerns msg t else replay (box k) (M k) t = M (owner t) t"
    if "k \<in> set ids" for k
    using assms(1) jt that by (auto simp: agrees_def)
  have own: "(M(i := replay [msg] (M i))) (owner t) t = M (owner t) t"
    using b [OF assms(2)] assms(3) replay_other [of "[msg]" t "M i"] by auto
  have hd: "replay (msg # ms) (M i) = replay ms (replay [msg] (M i))" using replay_append [of "[msg]" ms "M i"] by simp
  show "if owner t = j then \<forall>msg \<in> set ((box(i := ms)) j). \<not> concerns msg t
    else replay ((box(i := ms)) j) ((M(i := replay [msg] (M i))) j) t = (M(i := replay [msg] (M i))) (owner t) t"
    unfolding own using b [OF jt(1)] assms(3) hd by auto
qed

lemma agrees_more:
  assumes "agrees ids owner box M" "\<And>i. \<exists>ms. box' i = box i @ ms \<and> (\<forall>msg \<in> set ms. \<forall>s. \<not> concerns msg s)"
  shows "agrees ids owner box' M"
proof -
  have "replay (box' i) (M i) s = replay (box i) (M i) s \<and>
      ((\<forall>msg \<in> set (box' i). \<not> concerns msg s) \<longleftrightarrow> (\<forall>msg \<in> set (box i). \<not> concerns msg s))" for i s
    using assms(2) [of i] by (auto simp: replay_append replay_other)
  then show ?thesis using assms(1) by (simp add: agrees_def)
qed

text \<open>
  Nothing is fetched but what there is not: when a node takes a request out of its inbox, it no longer has the
  session, since the owner, which asks, had deleted it or never had it and had said so before.
\<close>

fun fetches_ok :: "(string \<Rightarrow> string) \<Rightarrow> string \<Rightarrow> ClusterMessage list \<Rightarrow> (string \<rightharpoonup> SessionData) \<Rightarrow> bool" where
  "fetches_ok owner i [] M = True"
| "fetches_ok owner i (msg # ms) M =
    ((case msg of FetchRequest s w \<Rightarrow> owner s \<noteq> i \<and> M s = None | FetchResponse s found \<Rightarrow> found = None | _ \<Rightarrow> True) \<and>
     fetches_ok owner i ms (replay [msg] M))"

lemma fetches_ok_append:
  "fetches_ok owner i (ms @ ms') M \<longleftrightarrow> fetches_ok owner i ms M \<and> fetches_ok owner i ms' (replay ms M)"
proof (induction ms arbitrary: M)
  case (Cons m ms)
  then show ?case using replay_append [of "[m]" ms M] by simp
qed simp

lemma fetches_ok_other:
  "owner s = i \<Longrightarrow> fetches_ok owner i ms M \<Longrightarrow> \<forall>t. t \<noteq> s \<longrightarrow> M' t = M t \<Longrightarrow> fetches_ok owner i ms M'"
proof (induction ms arbitrary: M M')
  case (Cons m ms)
  have "\<forall>t. t \<noteq> s \<longrightarrow> replay [m] M' t = replay [m] M t" using Cons.prems(3) by (auto intro: replay_upd_other)
  then show ?case using Cons.IH [of "replay [m] M" "replay [m] M'"] Cons.prems
    by (auto split: ClusterMessage.splits)
qed simp

definition all_fetches_ok :: "string list \<Rightarrow> (string \<Rightarrow> string) \<Rightarrow> (string \<Rightarrow> ClusterMessage list) \<Rightarrow>
    (string \<Rightarrow> string \<rightharpoonup> SessionData) \<Rightarrow> bool" where
  "all_fetches_ok ids owner box M \<longleftrightarrow> (\<forall>i \<in> set ids. fetches_ok owner i (box i) (M i))"

abbreviation content_of :: "Cluster \<Rightarrow> string \<Rightarrow> string \<rightharpoonup> SessionData" where
  "content_of c \<equiv> (\<lambda>i. map_of (cn_local (cl_node c i)))"

definition cluster_inv :: "string list \<Rightarrow> (string \<Rightarrow> string) \<Rightarrow> Cluster \<Rightarrow> bool" where
  "cluster_inv ids owner c \<longleftrightarrow>
    map fst (cl_net c) = ids \<and> all_open (cl_net c) \<and>
    (\<forall>i. cn_id (cl_node c i) = i \<and> cn_mode (cl_node c i) = AllToAll) \<and>
    agrees ids owner (mailbox (cl_net c)) (content_of c) \<and>
    all_fetches_ok ids owner (mailbox (cl_net c)) (content_of c)"

lemma cluster_inv_start: "distinct ids \<Longrightarrow> cluster_inv ids owner (cluster_start ids)"
proof -
  assume d: "distinct ids"
  have m: "mailbox (net_cluster ids) i = []" for i
    by (induction ids) (auto simp: mailbox_def net_cluster_def)
  have k: "map fst (net_cluster ids) = ids" by (simp add: net_cluster_def comp_def)
  show ?thesis
    using d m k
    by (auto simp: cluster_inv_def cluster_start_def cluster_node_new_def agrees_def all_fetches_ok_def all_open_def)
      (auto simp: net_cluster_def)
qed

lemma cluster_inv_write:
  assumes "cluster_inv ids owner c" "owner s = w" "w \<in> set ids"
    and "\<And>s'. concerns msg s' \<longleftrightarrow> s' = s" "\<And>N. replay [msg] N = N(s := v)"
    and "c' = \<lparr>cl_node = (cl_node c)(w := n), cl_net = broadcast w msg (cl_net c)\<rparr>"
    and "cn_id n = w" "cn_mode n = AllToAll" "map_of (cn_local n) = (content_of c w)(s := v)"
    and "\<And>t u. msg \<noteq> FetchRequest t u" "\<And>t found. msg \<noteq> FetchResponse t found"
  shows "cluster_inv ids owner c'"
proof -
  have c: "map fst (cl_net c) = ids" "all_open (cl_net c)" "agrees ids owner (mailbox (cl_net c)) (content_of c)"
    using assms(1) by (simp_all add: cluster_inv_def)
  have keys: "fst ` set (cl_net c) = set ids" using c(1) by (metis set_map)
  have box: "mailbox (cl_net c') = (\<lambda>i. mailbox (cl_net c) i @ (if i \<noteq> w \<and> i \<in> set ids then [msg] else []))"
    unfolding assms(6) by (simp add: mailbox_broadcast [OF c(2)] keys fun_eq_iff)
  have M: "content_of c' = (content_of c)(w := (content_of c w)(s := v))"
    unfolding assms(6) by (simp add: fun_eq_iff assms(9))
  have "agrees ids owner (mailbox (cl_net c')) (content_of c')"
    unfolding box M using agrees_write [OF c(3) assms(2,4,5)] .
  moreover have "all_fetches_ok ids owner (mailbox (cl_net c')) (content_of c')"
    unfolding all_fetches_ok_def
  proof
    fix i assume i: "i \<in> set ids"
    then have "fetches_ok owner i (mailbox (cl_net c) i) (content_of c i)"
      using assms(1) by (simp add: cluster_inv_def all_fetches_ok_def)
    moreover have "\<forall>t. t \<noteq> s \<longrightarrow> content_of c' w t = content_of c w t" "i \<noteq> w \<Longrightarrow> content_of c' i = content_of c i"
      using fun_cong [OF M, of w] fun_cong [OF M, of i] by simp_all
    ultimately have "fetches_ok owner i (mailbox (cl_net c) i) (content_of c' i)"
      using fetches_ok_other [where owner = owner and s = s and i = w, OF assms(2)] by (cases "i = w") auto
    then show "fetches_ok owner i (mailbox (cl_net c') i) (content_of c' i)"
      unfolding box using assms(10,11) by (cases msg) (force simp: fetches_ok_append)+
  qed
  ultimately show ?thesis
    using assms(1,7,8) broadcast_open [OF c(2)] by (simp add: cluster_inv_def assms(6) broadcast_keys)
qed

lemma cluster_inv_save:
  assumes "cluster_inv ids owner c" "owner (sd_id d) \<in> set ids"
  shows "cluster_inv ids owner (save_step (owner (sd_id d)) d c)"
proof (rule cluster_inv_write [OF assms(1) refl assms(2)])
  let ?w = "owner (sd_id d)"
  let ?n = "cl_node c ?w"
  have n: "cn_id ?n = ?w" "cn_mode ?n = AllToAll" using assms(1) by (simp_all add: cluster_inv_def)
  show "save_step ?w d c = \<lparr>cl_node = (cl_node c)(?w := ?n\<lparr>cn_local := AList.update (sd_id d) d (cn_local ?n)\<rparr>),
      cl_net = broadcast ?w (SaveMsg d) (cl_net c)\<rparr>"
    using n by (simp add: save_step_def cluster_save_def memory_save_def replicate_msg_def)
  show "cn_id (?n\<lparr>cn_local := AList.update (sd_id d) d (cn_local ?n)\<rparr>) = ?w"
    "cn_mode (?n\<lparr>cn_local := AList.update (sd_id d) d (cn_local ?n)\<rparr>) = AllToAll" using n by simp_all
  show "map_of (cn_local (?n\<lparr>cn_local := AList.update (sd_id d) d (cn_local ?n)\<rparr>)) =
      (content_of c ?w)(sd_id d := Some d)" by (simp add: AList.update_conv')
qed auto

lemma cluster_inv_delete:
  assumes "cluster_inv ids owner c" "owner s \<in> set ids"
  shows "cluster_inv ids owner (delete_step (owner s) s c)"
proof (rule cluster_inv_write [OF assms(1) refl assms(2)])
  let ?w = "owner s"
  let ?n = "cl_node c ?w"
  have n: "cn_id ?n = ?w" "cn_mode ?n = AllToAll" using assms(1) by (simp_all add: cluster_inv_def)
  show "delete_step ?w s c = \<lparr>cl_node = (cl_node c)(?w := ?n\<lparr>cn_local := AList.delete s (cn_local ?n)\<rparr>),
      cl_net = broadcast ?w (DeleteMsg s) (cl_net c)\<rparr>"
    using n by (simp add: delete_step_def cluster_delete_def memory_delete_def replicate_msg_def)
  show "cn_id (?n\<lparr>cn_local := AList.delete s (cn_local ?n)\<rparr>) = ?w"
    "cn_mode (?n\<lparr>cn_local := AList.delete s (cn_local ?n)\<rparr>) = AllToAll" using n by simp_all
  show "map_of (cn_local (?n\<lparr>cn_local := AList.delete s (cn_local ?n)\<rparr>)) = (content_of c ?w)(s := None)"
    by (simp add: AList.delete_conv')
qed auto

text \<open>An applied message changes the store as its replay says, and sends nothing but a response.\<close>

lemma apply_incoming_spec:
  assumes "apply_incoming msg n net = (n', net', r)" "all_open net"
  shows "map_of (cn_local n') = replay [msg] (map_of (cn_local n)) \<and> cn_id n' = cn_id n \<and> cn_mode n' = cn_mode n \<and>
    map fst net' = map fst net \<and> all_open net' \<and>
    (\<forall>j. mailbox net' j = mailbox net j @
      (case msg of
         FetchRequest s w \<Rightarrow> if j = w \<and> w \<in> fst ` set net then [FetchResponse s (map_of (cn_local n) s)] else []
       | _ \<Rightarrow> []))"
proof (cases msg)
  case (FetchRequest s reply_to)
  obtain net2 r2 where st: "send_to reply_to (FetchResponse s (map_of (cn_local n) s)) net = (net2, r2)" by fastforce
  have e: "n' = n" "net' = net2" using assms(1) FetchRequest st by (auto simp: apply_incoming_def memory_load_def)
  then show ?thesis using send_to_net [OF assms(2) st] by (simp add: FetchRequest)
next
  case (SaveMsg d)
  then have "n' = n\<lparr>cn_local := AList.update (sd_id d) d (cn_local n)\<rparr>" "net' = net"
    using assms(1) by (simp_all add: apply_incoming_def memory_save_def)
  then show ?thesis using assms(2) SaveMsg by (simp add: AList.update_conv')
next
  case (DeleteMsg s)
  then have "n' = n\<lparr>cn_local := AList.delete s (cn_local n)\<rparr>" "net' = net"
    using assms(1) by (simp_all add: apply_incoming_def memory_delete_def)
  then show ?thesis using assms(2) DeleteMsg by (simp add: AList.delete_conv')
next
  case (FetchResponse s d)
  then have "n' = n" "net' = net" using assms(1) by (simp_all add: apply_incoming_def)
  then show ?thesis using assms(2) FetchResponse by simp
qed

lemma cluster_inv_receive:
  assumes "cluster_inv ids owner c" "i \<in> set ids"
  shows "cluster_inv ids owner (receive_step i c)"
proof (cases "mailbox (cl_net c) i")
  case Nil
  then show ?thesis using assms(1) by (simp add: receive_step_def)
next
  case (Cons msg ms)
  have c: "map fst (cl_net c) = ids" "all_open (cl_net c)" "agrees ids owner (mailbox (cl_net c)) (content_of c)"
    "cn_id (cl_node c i) = i" "cn_mode (cl_node c i) = AllToAll" "all_fetches_ok ids owner (mailbox (cl_net c)) (content_of c)"
    using assms(1) by (simp_all add: cluster_inv_def)
  have i: "i \<in> fst ` set (cl_net c)" using c(1) assms(2) by (metis set_map)
  let ?net = "AList.update i (Some ms) (cl_net c)"
  note u = update_net [OF c(2) i, of ms]
  obtain n net r where ap: "apply_incoming msg (cl_node c i) ?net = (n, net, r)" by (metis prod_cases3)
  note sp = apply_incoming_spec [OF ap u(2)]
  have sp1: "map_of (cn_local n) = replay [msg] (content_of c i)" "cn_id n = i" "cn_mode n = AllToAll"
      "map fst net = ids" "all_open net"
    using sp u(1) c(1,4,5) by simp_all
  have "fetches_ok owner i (msg # ms) (content_of c i)" using c(6) assms(2) Cons by (auto simp: all_fetches_ok_def)
  then have hd: "case msg of FetchRequest s w \<Rightarrow> owner s \<noteq> i \<and> content_of c i s = None
      | FetchResponse s found \<Rightarrow> found = None | _ \<Rightarrow> True"
    and tl: "fetches_ok owner i ms (replay [msg] (content_of c i))" by simp_all
  have sp2: "\<exists>more. mailbox net j = mailbox ?net j @ more \<and> (\<forall>m \<in> set more. \<forall>s. \<not> concerns m s) \<and>
      (\<forall>M. fetches_ok owner j more M)" for j
  proof (intro exI conjI)
    show "mailbox net j = mailbox ?net j @
      (case msg of
         FetchRequest s w \<Rightarrow> if j = w \<and> w \<in> fst ` set ?net then [FetchResponse s (content_of c i s)] else []
       | _ \<Rightarrow> [])"
      using sp by blast
  qed (use hd in \<open>auto split: ClusterMessage.splits\<close>)
  have r: "receive_step i c = \<lparr>cl_node = (cl_node c)(i := n), cl_net = net\<rparr>"
    using Cons ap by (simp add: receive_step_def)
  have M: "content_of (receive_step i c) = (content_of c)(i := replay [msg] (content_of c i))"
    unfolding r using sp1(1) by (simp add: fun_eq_iff)
  have box: "mailbox ?net = (mailbox (cl_net c))(i := ms)" using u(3) by (simp add: fun_eq_iff)
  have "agrees ids owner (mailbox ?net) (content_of (receive_step i c))"
    unfolding box M by (rule agrees_receive [OF c(3) assms(2) Cons])
  then have "agrees ids owner (mailbox net) (content_of (receive_step i c))"
    by (rule agrees_more) (use sp2 in blast)
  moreover have "all_fetches_ok ids owner (mailbox net) (content_of (receive_step i c))"
    unfolding all_fetches_ok_def
  proof
    fix j assume "j \<in> set ids"
    then have "fetches_ok owner j (mailbox ?net j) (content_of (receive_step i c) j)"
      using fun_cong [OF M, of j] tl c(6) unfolding box by (simp add: all_fetches_ok_def)
    then show "fetches_ok owner j (mailbox net j) (content_of (receive_step i c) j)"
      using sp2 [of j] by (auto simp: fetches_ok_append)
  qed
  moreover have "\<forall>k. cn_id (cl_node (receive_step i c) k) = k \<and> cn_mode (cl_node (receive_step i c) k) = AllToAll"
    using assms(1) sp1(2,3) by (simp add: r cluster_inv_def)
  ultimately show ?thesis using sp1(4,5) unfolding cluster_inv_def r by simp
qed

text \<open>A waiting \<open>load\<close> handles a message as the receiver does, for it is only told that there is no such session.\<close>

lemma wait_step_receives:
  assumes "cluster_inv ids owner c" "i \<in> set ids"
  shows "wait_step i s c = receive_step i c"
proof (cases "mailbox (cl_net c) i")
  case Nil
  then show ?thesis by (simp add: wait_step_def receive_step_def)
next
  case (Cons msg ms)
  then have ok: "fetches_ok owner i (msg # ms) (content_of c i)"
    using assms by (auto simp: cluster_inv_def all_fetches_ok_def)
  show ?thesis
  proof (cases "\<exists>found. msg = FetchResponse s found")
    case True
    then have "msg = FetchResponse s None" using ok by auto
    then show ?thesis using Cons by (simp add: wait_step_def receive_step_def apply_incoming_def)
  next
    case False
    then show ?thesis using Cons by (simp add: wait_step_def receive_step_def split: prod.split sum.split)
  qed
qed

lemma cluster_inv_lookup:
  assumes "cluster_inv ids owner c" "owner s \<in> set ids"
  shows "cluster_inv ids owner (lookup_step (owner s) s c)"
proof (cases "content_of c (owner s) s")
  case (Some d)
  then have "lookup_step (owner s) s c = c" by (simp add: lookup_step_def cluster_load_def memory_load_def)
  then show ?thesis using assms(1) by simp
next
  case None
  let ?w = "owner s"
  let ?msg = "FetchRequest s ?w"
  have c: "map fst (cl_net c) = ids" "all_open (cl_net c)" "cn_id (cl_node c ?w) = ?w"
    using assms(1) by (simp_all add: cluster_inv_def)
  have keys: "fst ` set (cl_net c) = set ids" using c(1) by (metis set_map)
  have l: "lookup_step ?w s c = c\<lparr>cl_net := broadcast ?w ?msg (cl_net c)\<rparr>"
    using None c(3) by (simp add: lookup_step_def cluster_load_def memory_load_def)
  have box: "mailbox (broadcast ?w ?msg (cl_net c)) i = mailbox (cl_net c) i @ (if i \<noteq> ?w \<and> i \<in> set ids then [?msg] else [])" for i
    using mailbox_broadcast [OF c(2)] keys by simp
  have ag: "agrees ids owner (mailbox (cl_net c)) (content_of c)" using assms(1) by (simp add: cluster_inv_def)
  then have "agrees ids owner (mailbox (broadcast ?w ?msg (cl_net c))) (content_of c)"
    by (rule agrees_more) (use box in auto)
  moreover have "all_fetches_ok ids owner (mailbox (broadcast ?w ?msg (cl_net c))) (content_of c)"
    unfolding all_fetches_ok_def box
  proof
    fix i assume i: "i \<in> set ids"
    have "replay (mailbox (cl_net c) i) (content_of c i) s = None" if "i \<noteq> ?w"
      using ag [unfolded agrees_def, rule_format, OF i assms(2)] that None by (auto split: if_splits)
    then show "fetches_ok owner i (mailbox (cl_net c) i @ (if i \<noteq> ?w \<and> i \<in> set ids then [?msg] else [])) (content_of c i)"
      using assms(1) i by (auto simp: cluster_inv_def all_fetches_ok_def fetches_ok_append)
  qed
  ultimately show ?thesis
    using assms(1) broadcast_open [OF c(2)] by (simp add: cluster_inv_def l broadcast_keys)
qed

lemma sticky_run_inv: "sticky_run ids owner c \<Longrightarrow> distinct ids \<Longrightarrow> cluster_inv ids owner c"
  by (induction rule: sticky_run.induct)
    (auto simp: wait_step_receives
      intro: cluster_inv_start cluster_inv_save cluster_inv_delete cluster_inv_lookup cluster_inv_receive)

section \<open>Receipts come to an end\<close>

text \<open>A request is answered, so it weighs more than what it leads to.\<close>

fun message_weight :: "ClusterMessage \<Rightarrow> nat" where
  "message_weight (FetchRequest s w) = 2"
| "message_weight _ = 1"

definition in_flight :: "string list \<Rightarrow> Cluster \<Rightarrow> nat" where
  "in_flight ids c = (\<Sum>i \<in> set ids. sum_list (map message_weight (mailbox (cl_net c) i)))"

lemma in_flight_receive:
  assumes "cluster_inv ids owner c" "i \<in> set ids" "mailbox (cl_net c) i \<noteq> []"
  shows "in_flight ids (receive_step i c) < in_flight ids c"
proof -
  obtain msg ms where m: "mailbox (cl_net c) i = msg # ms" using assms(3) by (cases "mailbox (cl_net c) i") auto
  have c: "map fst (cl_net c) = ids" "all_open (cl_net c)" using assms(1) by (simp_all add: cluster_inv_def)
  have i: "i \<in> fst ` set (cl_net c)" using c(1) assms(2) by (metis set_map)
  let ?net = "AList.update i (Some ms) (cl_net c)"
  note u = update_net [OF c(2) i, of ms]
  obtain n net r where ap: "apply_incoming msg (cl_node c i) ?net = (n, net, r)" by (metis prod_cases3)
  note sp = apply_incoming_spec [OF ap u(2)]
  let ?w = "\<lambda>net j. sum_list (map message_weight (mailbox net j))"
  let ?new = "\<lambda>j. (case msg of FetchRequest s w \<Rightarrow> if j = w then 1 else 0 | _ \<Rightarrow> 0) :: nat"
  have w: "?w net j \<le> ?w ?net j + ?new j" for j using sp by (auto split: ClusterMessage.splits)
  have "(\<Sum>j \<in> set ids. ?w net j) \<le> (\<Sum>j \<in> set ids. ?w ?net j + ?new j)" by (intro sum_mono w)
  also have "\<dots> = (\<Sum>j \<in> set ids. ?w ?net j) + (\<Sum>j \<in> set ids. ?new j)" by (rule sum.distrib)
  also have "(\<Sum>j \<in> set ids. ?new j) < message_weight msg" by (cases msg) simp_all
  also have "(\<Sum>j \<in> set ids. ?w ?net j) + message_weight msg = (\<Sum>j \<in> set ids. ?w (cl_net c) j)"
    using assms(2) m u(3) by (simp add: sum.remove [of "set ids" i] cong: sum.cong_simp)
  finally show ?thesis using m ap by (simp add: in_flight_def receive_step_def)
qed

lemma receive_step_owner:
  assumes "cluster_inv ids owner c" "i \<in> set ids" "owner s \<in> set ids"
  shows "content_of (receive_step i c) (owner s) s = content_of c (owner s) s"
proof (cases "mailbox (cl_net c) i")
  case (Cons msg ms)
  have c: "all_open (cl_net c)" "agrees ids owner (mailbox (cl_net c)) (content_of c)" "i \<in> fst ` set (cl_net c)"
    using assms by (auto simp: cluster_inv_def simp flip: set_map)
  let ?net = "AList.update i (Some ms) (cl_net c)"
  obtain n net r where ap: "apply_incoming msg (cl_node c i) ?net = (n, net, r)" by (metis prod_cases3)
  have "map_of (cn_local n) = replay [msg] (content_of c i)"
    using apply_incoming_spec [OF ap update_net(2) [OF c(1,3)]] by simp
  moreover have "\<not> concerns msg s" if "owner s = i"
    using c(2) [unfolded agrees_def, rule_format, OF assms(2,3)] that Cons by simp
  ultimately show ?thesis using Cons ap replay_other [of "[msg]" s "content_of c i"] by (simp add: receive_step_def)
qed (simp add: receive_step_def)

lemma receipts_end:
  assumes "cluster_inv ids owner c"
  shows "\<exists>c'. receipts ids c c' \<and> cluster_inv ids owner c' \<and> (\<forall>i \<in> set ids. mailbox (cl_net c') i = []) \<and>
    (\<forall>s. owner s \<in> set ids \<longrightarrow> content_of c' (owner s) s = content_of c (owner s) s)"
  using assms
proof (induction "in_flight ids c" arbitrary: c rule: less_induct)
  case less
  show ?case
  proof (cases "\<forall>i \<in> set ids. mailbox (cl_net c) i = []")
    case True
    then show ?thesis using less.prems by (blast intro: receipts.stop)
  next
    case False
    then obtain i where i: "i \<in> set ids" "mailbox (cl_net c) i \<noteq> []" by blast
    obtain c' where c': "receipts ids (receive_step i c) c'" "cluster_inv ids owner c'"
      "\<forall>i \<in> set ids. mailbox (cl_net c') i = []"
      "\<forall>s. owner s \<in> set ids \<longrightarrow> content_of c' (owner s) s = content_of (receive_step i c) (owner s) s"
      using less.hyps [OF in_flight_receive [OF less.prems i] cluster_inv_receive [OF less.prems i(1)]] by blast
    have "content_of c' (owner s) s = content_of c (owner s) s" if "owner s \<in> set ids" for s
      using c'(4) receive_step_owner [OF less.prems i(1) that] that by simp
    then show ?thesis using c'(2,3) receipts.more [OF i(1) c'(1)] by blast
  qed
qed

section \<open>Properties\<close>

text \<open>
  C24. Replication to all converges under sticky sessions. In every run of an all-to-all cluster in which each
  session is saved, deleted and loaded only at its owner, whatever the order of receipts, a node that has emptied
  its inbox holds of every session exactly what the owner holds; a \<open>load\<close> that finds nothing and asks the peers
  brings nothing back, since a peer answers only after it has heard of the deletion. And once the owners write
  no more, receipts lead to a state in which every inbox is empty and every node holds what the owners held.
\<close>

theorem cluster_converges:
  assumes "sticky_run ids owner c" "distinct ids"
  shows "(\<forall>i \<in> set ids. \<forall>s. owner s \<in> set ids \<longrightarrow> mailbox (cl_net c) i = [] \<longrightarrow>
      map_of (cn_local (cl_node c i)) s = map_of (cn_local (cl_node c (owner s))) s) \<and>
    (\<exists>c'. receipts ids c c' \<and> (\<forall>i \<in> set ids. mailbox (cl_net c') i = [] \<and>
      (\<forall>s. owner s \<in> set ids \<longrightarrow>
        map_of (cn_local (cl_node c' i)) s = map_of (cn_local (cl_node c (owner s))) s)))"
proof -
  have inv: "cluster_inv ids owner c" using sticky_run_inv [OF assms] .
  have same: "content_of c i s = content_of c (owner s) s"
    if "cluster_inv ids owner c" "i \<in> set ids" "owner s \<in> set ids" "mailbox (cl_net c) i = []" for c i s
    using that by (fastforce simp: cluster_inv_def agrees_def split: if_splits)
  obtain c' where c': "receipts ids c c'" "cluster_inv ids owner c'" "\<forall>i \<in> set ids. mailbox (cl_net c') i = []"
    "\<forall>s. owner s \<in> set ids \<longrightarrow> content_of c' (owner s) s = content_of c (owner s) s"
    using receipts_end [OF inv] by blast
  have "content_of c' i s = content_of c (owner s) s" if "i \<in> set ids" "owner s \<in> set ids" for i s
    using same [OF c'(2) that] c'(3,4) that by simp
  then show ?thesis using same [OF inv] c'(1,3) by blast
qed

definition sample_session :: SessionData where
  "sample_session = session_new ''S'' 0"

theorem cluster_converges_witness:
  "\<exists>c'. receipts [''A'', ''B'']
      (lookup_step ''A'' ''S'' (delete_step ''A'' ''S'' (receive_step ''B'' (save_step ''A'' sample_session (cluster_start [''A'', ''B'']))))) c' \<and>
    mailbox (cl_net c') ''B'' = [] \<and> map_of (cn_local (cl_node c' ''B'')) ''S'' = None"
proof -
  let ?ids = "[''A'', ''B'']"
  let ?own = "\<lambda>_. ''A''"
  let ?c1 = "receive_step ''B'' (save_step ''A'' sample_session (cluster_start ?ids))"
  have "sticky_run ?ids ?own ?c1"
    using sticky_run.start [of ?ids ?own] sticky_run.save [of ?ids ?own "cluster_start ?ids" sample_session]
    by (auto intro: sticky_run.receive)
  then have run: "sticky_run ?ids ?own (lookup_step ''A'' ''S'' (delete_step ''A'' ''S'' ?c1))"
    using sticky_run.delete [of ?ids ?own ?c1 "''S''"] sticky_run.lookup [of ?ids ?own "delete_step ''A'' ''S'' ?c1" "''S''"]
    by simp
  have a: "cn_local (cl_node (cluster_start ?ids) i) = []" "cn_id (cl_node (cluster_start ?ids) i) = i"
    "cn_mode (cl_node (cluster_start ?ids) i) = AllToAll" for i
    by (simp_all add: cluster_start_def cluster_node_new_def)
  have "map_of (cn_local (cl_node (lookup_step ''A'' ''S'' (delete_step ''A'' ''S'' c)) ''A'')) ''S'' = None" for c
    by (auto simp: lookup_step_def cluster_load_def memory_load_def delete_step_def cluster_delete_def memory_delete_def
        delete_conv' split: prod.split sum.split option.split)
  then show ?thesis using cluster_converges [OF run] by auto
qed

text \<open>
  A fetch from the peers can answer wrongly. The first answer ends the wait: when a peer without the
  session answers before the one that has it, \<open>load\<close> reports that there is none, and drops the later
  answer. And an answer sent before its peer has heard of a deletion puts the deleted session back into
  the store of a node that had deleted it.
\<close>

lemma cluster_fetch_wrong:
  assumes "map_of (cn_local n) i = None" "sd_id d = i"
  shows "snd (snd (cluster_load i [Incoming (FetchResponse i None), Incoming (FetchResponse i (Some d))] n net)) = Ok None \<and>
    (case cluster_load i [Incoming (DeleteMsg i), Incoming (FetchResponse i (Some d))] n net of
       (n', _, r) \<Rightarrow> r = Ok (Some d) \<and> map_of (cn_local n') i = Some d)"
  using assms
  by (auto simp: cluster_load_def memory_load_def apply_incoming_def memory_delete_def memory_save_def AList.update_conv')

lemma cluster_fetch_wrong_witness:
  "snd (snd (cluster_load ''S'' [Incoming (FetchResponse ''S'' None), Incoming (FetchResponse ''S'' (Some sample_session))]
      (cluster_node_new ''C'' PrimaryBackup) (net_cluster [''A'', ''B'', ''C'']))) = Ok None"
  by (rule cluster_fetch_wrong [THEN conjunct1]) (simp_all add: cluster_node_new_def sample_session_def session_new_def)

end
