(* ===== verification/ElParser.thy ===== *)
theory ElParser
  imports Prelude
begin

text \<open>
  The expression language of JSP pages, \<open>src/crates/tomcatrs-jsp/src/el.rs\<close>: tokens, syntax trees and
  the recursive-descent parser.

  A text is the list of its Unicode code points, as the tokenizer sees it. The type \<open>'d\<close> stands for
  \<open>f64\<close>: nothing here depends on its arithmetic. Of the messages of errors only the fixed part is kept.
  The parser returns \<open>None\<close> when its fuel runs out; the fuel that \<open>parse_full\<close> gives it is always enough.
\<close>

section \<open>Texts\<close>

type_synonym utext = "int list"
type_synonym i64 = "64 word"

definition codes :: "string \<Rightarrow> utext" where
  "codes s = map of_char s"

section \<open>Errors\<close>

text \<open>\<open>Panicked\<close> is not a value of the code: it stands for a panic of the thread.\<close>

datatype ElError = Lex string | Parse string | Eval string | Panicked string

section \<open>Tokens and syntax trees\<close>

datatype 'd Token =
    TLong i64
  | TDouble 'd
  | TStr utext
  | TBool bool
  | TNull
  | TIdent utext
  | TOp string

datatype 'd LiteralAst = LNull | LBool bool | LLong i64 | LDouble 'd | LStr utext

datatype 'd Ast =
    Literal "'d LiteralAst"
  | Ident utext
  | Property "'d Ast" utext
  | Index "'d Ast" "'d Ast"
  | Unary string "'d Ast"
  | Binary string "'d Ast" "'d Ast"
  | Ternary "'d Ast" "'d Ast" "'d Ast"
  | Call utext "'d Ast list"

section \<open>The parser\<close>

text \<open>The state of the parser is the list of the tokens from its position on.\<close>

type_synonym ('d, 'a) parsed = "(ElError + 'a \<times> 'd Token list) option"

definition then_parse :: "('d, 'a) parsed \<Rightarrow> ('a \<Rightarrow> 'd Token list \<Rightarrow> ('d, 'b) parsed) \<Rightarrow> ('d, 'b) parsed" where
  "then_parse p f =
    (case p of
       None \<Rightarrow> None
     | Some (Inl e) \<Rightarrow> Some (Inl e)
     | Some (Inr (x, ts)) \<Rightarrow> f x ts)"

definition eat_op :: "string \<Rightarrow> 'd Token list \<Rightarrow> 'd Token list option" where
  "eat_op opr ts = (case ts of TOp q # rest \<Rightarrow> if q = opr then Some rest else None | _ \<Rightarrow> None)"

definition expect_op :: "string \<Rightarrow> 'd Token list \<Rightarrow> ('d, unit) parsed" where
  "expect_op opr ts =
    (case eat_op opr ts of
       Some rest \<Rightarrow> Some (Inr ((), rest))
     | None \<Rightarrow> Some (Inl (Parse (''expected '' @ opr))))"

text \<open>
  The six functions from \<open>parse_or\<close> to \<open>parse_multiplicative\<close> are one function of the level: a level parses
  the next one, then loops while it finds one of its operators.
\<close>

fun level_ops :: "nat \<Rightarrow> string list" where
  "level_ops 0 = [''||'']"
| "level_ops (Suc 0) = [''&&'']"
| "level_ops (Suc (Suc 0)) = [''=='', ''!='']"
| "level_ops (Suc (Suc (Suc 0))) = [''<'', ''>'', ''<='', ''>='']"
| "level_ops (Suc (Suc (Suc (Suc 0)))) = [''+'', ''-'']"
| "level_ops (Suc (Suc (Suc (Suc (Suc 0))))) = [''*'', ''/'', ''%'']"
| "level_ops k = []"

definition unary_ops :: "string list" where
  "unary_ops = [''-'', ''!'', ''empty'']"

function
  parse_ternary :: "nat \<Rightarrow> 'd Token list \<Rightarrow> ('d, 'd Ast) parsed" and
  parse_level :: "nat \<Rightarrow> nat \<Rightarrow> 'd Token list \<Rightarrow> ('d, 'd Ast) parsed" and
  level_loop :: "nat \<Rightarrow> nat \<Rightarrow> 'd Ast \<Rightarrow> 'd Token list \<Rightarrow> ('d, 'd Ast) parsed" and
  parse_unary :: "nat \<Rightarrow> 'd Token list \<Rightarrow> ('d, 'd Ast) parsed" and
  parse_postfix :: "nat \<Rightarrow> 'd Token list \<Rightarrow> ('d, 'd Ast) parsed" and
  postfix_loop :: "nat \<Rightarrow> 'd Ast \<Rightarrow> 'd Token list \<Rightarrow> ('d, 'd Ast) parsed" and
  parse_primary :: "nat \<Rightarrow> 'd Token list \<Rightarrow> ('d, 'd Ast) parsed" and
  parse_args :: "nat \<Rightarrow> 'd Ast list \<Rightarrow> 'd Token list \<Rightarrow> ('d, 'd Ast list) parsed"
where
  "parse_ternary 0 ts = None"
| "parse_ternary (Suc n) ts =
    then_parse (parse_level n 0 ts) (\<lambda>cond ts.
      case eat_op ''?'' ts of
        None \<Rightarrow> Some (Inr (cond, ts))
      | Some ts \<Rightarrow>
          then_parse (parse_ternary n ts) (\<lambda>th ts.
          then_parse (expect_op '':'' ts) (\<lambda>_ ts.
          then_parse (parse_ternary n ts) (\<lambda>otherwise ts. Some (Inr (Ternary cond th otherwise, ts))))))"
| "parse_level 0 k ts = None"
| "parse_level (Suc n) k ts =
    (if 6 \<le> k then parse_unary n ts
     else then_parse (parse_level n (Suc k) ts) (\<lambda>left ts. level_loop n k left ts))"
| "level_loop 0 k left ts = None"
| "level_loop (Suc n) k left ts =
    (case ts of
       TOp opr # rest \<Rightarrow>
         if opr \<in> set (level_ops k) then
           then_parse (parse_level n (Suc k) rest) (\<lambda>right ts. level_loop n k (Binary opr left right) ts)
         else Some (Inr (left, ts))
     | _ \<Rightarrow> Some (Inr (left, ts)))"
| "parse_unary 0 ts = None"
| "parse_unary (Suc n) ts =
    (case ts of
       TOp opr # rest \<Rightarrow>
         if opr \<in> set unary_ops then
           then_parse (parse_unary n rest) (\<lambda>operand ts. Some (Inr (Unary opr operand, ts)))
         else parse_postfix n ts
     | _ \<Rightarrow> parse_postfix n ts)"
| "parse_postfix 0 ts = None"
| "parse_postfix (Suc n) ts = then_parse (parse_primary n ts) (\<lambda>node ts. postfix_loop n node ts)"
| "postfix_loop 0 node ts = None"
| "postfix_loop (Suc n) node ts =
    (case eat_op ''.'' ts of
       Some ts \<Rightarrow>
         (case ts of
            TIdent name # rest \<Rightarrow> postfix_loop n (Property node name) rest
          | _ \<Rightarrow> Some (Inl (Parse ''expected property name'')))
     | None \<Rightarrow>
         (case eat_op ''['' ts of
            Some ts \<Rightarrow>
              then_parse (parse_ternary n ts) (\<lambda>index ts.
              then_parse (expect_op '']'' ts) (\<lambda>_ ts. postfix_loop n (Index node index) ts))
          | None \<Rightarrow> Some (Inr (node, ts))))"
| "parse_primary 0 ts = None"
| "parse_primary (Suc n) ts =
    (case ts of
       TLong v # rest \<Rightarrow> Some (Inr (Literal (LLong v), rest))
     | TDouble d # rest \<Rightarrow> Some (Inr (Literal (LDouble d), rest))
     | TStr s # rest \<Rightarrow> Some (Inr (Literal (LStr s), rest))
     | TBool b # rest \<Rightarrow> Some (Inr (Literal (LBool b), rest))
     | TNull # rest \<Rightarrow> Some (Inr (Literal LNull, rest))
     | TIdent name # rest \<Rightarrow>
         (case eat_op ''('' rest of
            None \<Rightarrow> Some (Inr (Ident name, rest))
          | Some ts \<Rightarrow>
              then_parse
                (case eat_op '')'' ts of
                   Some _ \<Rightarrow> Some (Inr ([], ts))
                 | None \<Rightarrow> parse_args n [] ts)
                (\<lambda>args ts. then_parse (expect_op '')'' ts) (\<lambda>_ ts. Some (Inr (Call name args, ts)))))
     | TOp opr # rest \<Rightarrow>
         if opr = ''('' then
           then_parse (parse_ternary n rest) (\<lambda>inner ts.
           then_parse (expect_op '')'' ts) (\<lambda>_ ts. Some (Inr (inner, ts))))
         else Some (Inl (Parse ''unexpected token in primary position''))
     | [] \<Rightarrow> Some (Inl (Parse ''unexpected token in primary position'')))"
| "parse_args 0 args ts = None"
| "parse_args (Suc n) args ts =
    then_parse (parse_ternary n ts) (\<lambda>arg ts.
      case eat_op '','' ts of
        Some ts \<Rightarrow> parse_args n (args @ [arg]) ts
      | None \<Rightarrow> Some (Inr (args @ [arg], ts)))"
  by pat_completeness auto
termination
  by (relation "measure (case_sum (case_sum (case_sum fst fst) (case_sum fst fst))
      (case_sum (case_sum fst fst) (case_sum fst fst)))") simp_all

lemmas parser_simps = parse_ternary.simps parse_level.simps level_loop.simps parse_unary.simps
  parse_postfix.simps postfix_loop.simps parse_primary.simps parse_args.simps

declare parser_simps [simp del]

text \<open>Sixteen calls for every token, and sixteen for the way down to the first.\<close>

definition parse_fuel :: "'d Token list \<Rightarrow> nat" where
  "parse_fuel ts = 16 * (length ts + 1)"

definition parse_full :: "'d Token list \<Rightarrow> (ElError + 'd Ast) option" where
  "parse_full ts =
    (if ts = [] then Some (Inl (Parse ''empty expression''))
     else case parse_ternary (parse_fuel ts) ts of
       None \<Rightarrow> None
     | Some (Inl e) \<Rightarrow> Some (Inl e)
     | Some (Inr (ast, rest)) \<Rightarrow>
         Some (if rest \<noteq> [] then Inl (Parse ''unexpected trailing token'') else Inr ast))"

section \<open>Fuel\<close>

text \<open>
  A parser finishes and leaves fewer tokens than it got, or at most as many for the loops, which may find
  nothing to do.
\<close>

definition finishes :: "nat \<Rightarrow> ('d, 'a) parsed \<Rightarrow> bool" where
  "finishes bound p \<longleftrightarrow> p \<noteq> None \<and> (\<forall>x ts. p = Some (Inr (x, ts)) \<longrightarrow> length ts \<le> bound)"

lemma then_parse_simps [simp]:
  "then_parse None f = None" "then_parse (Some (Inl e)) f = Some (Inl e)"
  "then_parse (Some (Inr (x, ts))) f = f x ts"
  by (simp_all add: then_parse_def)

lemma finishes_bind:
  "finishes m p \<Longrightarrow> (\<And>x ts. length ts \<le> m \<Longrightarrow> finishes b (f x ts)) \<Longrightarrow> finishes b (then_parse p f)"
  by (auto simp: finishes_def then_parse_def split: option.splits sum.splits)

lemma finishes_simps [simp]:
  "finishes b (Some (Inr (x, ts))) \<longleftrightarrow> length ts \<le> b" "finishes b (Some (Inl e))"
  by (auto simp: finishes_def)

lemma finishes_mono: "finishes a p \<Longrightarrow> a \<le> b \<Longrightarrow> finishes b p"
  by (fastforce simp: finishes_def)

lemma eat_op_length: "eat_op opr ts = Some rest \<Longrightarrow> length ts = Suc (length rest)"
  by (auto simp: eat_op_def split: list.splits Token.splits if_splits)

lemma finishes_expect: "finishes (length ts - 1) (expect_op opr ts)"
  by (auto simp: expect_op_def dest: eat_op_length split: option.split)

text \<open>What each function needs, beside sixteen for every token.\<close>

lemma parser_finishes:
  fixes ts :: "'d Token list"
  shows
    "12 + 16 * length ts \<le> n \<Longrightarrow> finishes (length ts - 1) (parse_ternary n ts)"
    "k \<le> 6 \<Longrightarrow> 11 - k + 16 * length ts \<le> n \<Longrightarrow> finishes (length ts - 1) (parse_level n k ts)"
    "1 + 16 * length ts \<le> n \<Longrightarrow> k < 6 \<Longrightarrow> finishes (length ts) (level_loop n k left ts)"
    "4 + 16 * length ts \<le> n \<Longrightarrow> finishes (length ts - 1) (parse_unary n ts)"
    "3 + 16 * length ts \<le> n \<Longrightarrow> finishes (length ts - 1) (parse_postfix n ts)"
    "1 + 16 * length ts \<le> n \<Longrightarrow> finishes (length ts) (postfix_loop n node ts)"
    "1 + 16 * length ts \<le> n \<Longrightarrow> finishes (length ts - 1) (parse_primary n ts)"
    "13 + 16 * length ts \<le> n \<Longrightarrow> finishes (length ts - 1) (parse_args n args ts)"
proof (induction n arbitrary: ts k left node args)
  case (Suc n)
  note bind = finishes_bind [OF Suc.IH(1)] finishes_bind [OF Suc.IH(2)] finishes_bind [OF Suc.IH(4)]
    finishes_bind [OF Suc.IH(7)] finishes_bind [OF finishes_expect]
  note last = Suc.IH [THEN finishes_mono]
  {
    case 1
    then show ?case
      unfolding parser_simps
      by (auto intro!: bind dest!: eat_op_length split: option.split)
  next
    case 2
    then show ?case
      unfolding parser_simps
      by (auto intro!: bind last)
  next
    case 3
    then show ?case
      unfolding parser_simps
      by (auto intro!: bind last split: list.split Token.split)
  next
    case 4
    then show ?case
      unfolding parser_simps
      by (auto intro!: bind last split: list.split Token.split)
  next
    case 5
    then show ?case
      unfolding parser_simps
      by (auto intro!: bind last)
  next
    case 6
    then show ?case
      unfolding parser_simps
      by (auto intro!: bind last dest!: eat_op_length split: option.split list.split Token.split)
  next
    case 7
    then show ?case
      unfolding parser_simps
      by (auto intro!: bind finishes_bind [OF Suc.IH(8)] dest!: eat_op_length
          split: option.split list.split Token.split)
  next
    case 8
    then show ?case
      unfolding parser_simps
      by (auto intro!: bind last dest!: eat_op_length split: option.split)
  }
qed (simp_all add: parser_simps)

text \<open>More fuel does not change a result.\<close>

definition extends :: "('d, 'a) parsed \<Rightarrow> ('d, 'a) parsed \<Rightarrow> bool" where
  "extends p q \<longleftrightarrow> (\<forall>r. p = Some r \<longrightarrow> q = Some r)"

lemma extends_refl [simp]: "extends p p" "extends None p"
  by (simp_all add: extends_def)

lemma extends_then:
  "extends p q \<Longrightarrow> (\<And>x ts. extends (f x ts) (g x ts)) \<Longrightarrow> extends (then_parse p f) (then_parse q g)"
  by (auto simp: extends_def then_parse_def split: option.splits sum.splits)

lemma parser_extends:
  fixes ts :: "'d Token list"
  shows
    "extends (parse_ternary n ts) (parse_ternary (Suc n) ts)"
    "extends (parse_level n k ts) (parse_level (Suc n) k ts)"
    "extends (level_loop n k left ts) (level_loop (Suc n) k left ts)"
    "extends (parse_unary n ts) (parse_unary (Suc n) ts)"
    "extends (parse_postfix n ts) (parse_postfix (Suc n) ts)"
    "extends (postfix_loop n node ts) (postfix_loop (Suc n) node ts)"
    "extends (parse_primary n ts) (parse_primary (Suc n) ts)"
    "extends (parse_args n args ts) (parse_args (Suc n) args ts)"
proof (induction n arbitrary: ts k left node args)
  case (Suc n)
  note less = parse_ternary.simps(2) [of n] parse_level.simps(2) [of n] level_loop.simps(2) [of n]
    parse_unary.simps(2) [of n] parse_postfix.simps(2) [of n] postfix_loop.simps(2) [of n]
    parse_primary.simps(2) [of n] parse_args.simps(2) [of n]
  note more = parse_ternary.simps(2) [of "Suc n"] parse_level.simps(2) [of "Suc n"] level_loop.simps(2) [of "Suc n"]
    parse_unary.simps(2) [of "Suc n"] parse_postfix.simps(2) [of "Suc n"] postfix_loop.simps(2) [of "Suc n"]
    parse_primary.simps(2) [of "Suc n"] parse_args.simps(2) [of "Suc n"]
  {
    case 1
    show ?case unfolding less unfolding more by (auto intro!: extends_then Suc.IH split: option.split)
  next
    case 2
    show ?case unfolding less unfolding more by (auto intro!: extends_then Suc.IH)
  next
    case 3
    show ?case unfolding less unfolding more by (auto intro!: extends_then Suc.IH split: list.split Token.split)
  next
    case 4
    show ?case unfolding less unfolding more by (auto intro!: extends_then Suc.IH split: list.split Token.split)
  next
    case 5
    show ?case unfolding less unfolding more by (auto intro!: extends_then Suc.IH)
  next
    case 6
    show ?case unfolding less unfolding more
      by (auto intro!: extends_then Suc.IH split: option.split list.split Token.split)
  next
    case 7
    show ?case unfolding less unfolding more
      by (auto intro!: extends_then Suc.IH split: option.split list.split Token.split)
  next
    case 8
    show ?case unfolding less unfolding more by (auto intro!: extends_then Suc.IH split: option.split)
  }
qed (simp_all add: parser_simps)

lemma parser_extends_le:
  fixes ts :: "'d Token list"
  assumes "n \<le> m"
  shows "extends (parse_ternary n ts) (parse_ternary m ts)"
  using assms
proof (induction m rule: dec_induct)
  case (step m)
  then show ?case using parser_extends(1) [of m ts] by (auto simp: extends_def)
qed simp

section \<open>Printing\<close>

text \<open>
  The reference for the grammar is a printer that sets parentheses only where the precedence asks for them:
  0 is the ternary operator, 1 to 6 are the binary levels, 7 the unary operators, 8 property and index
  access, 9 literals, identifiers and calls.
\<close>

definition op_level :: "string \<Rightarrow> nat" where
  "op_level opr = (case List.find (\<lambda>k. opr \<in> set (level_ops k)) [0, 1, 2, 3, 4, 5] of Some k \<Rightarrow> k | None \<Rightarrow> 6)"

fun prec :: "'d Ast \<Rightarrow> nat" where
  "prec (Ternary c a b) = 0"
| "prec (Binary opr l r) = Suc (op_level opr)"
| "prec (Unary opr a) = 7"
| "prec (Property b n) = 8"
| "prec (Index b i) = 8"
| "prec (Literal l) = 9"
| "prec (Ident n) = 9"
| "prec (Call n args) = 9"

fun literal_token :: "'d LiteralAst \<Rightarrow> 'd Token" where
  "literal_token LNull = TNull"
| "literal_token (LBool b) = TBool b"
| "literal_token (LLong n) = TLong n"
| "literal_token (LDouble d) = TDouble d"
| "literal_token (LStr s) = TStr s"

definition parens :: "bool \<Rightarrow> 'd Token list \<Rightarrow> 'd Token list" where
  "parens b ts = (if b then TOp ''('' # ts @ [TOp '')''] else ts)"

fun unparse :: "nat \<Rightarrow> 'd Ast \<Rightarrow> 'd Token list" and unparse_args :: "'d Ast list \<Rightarrow> 'd Token list" where
  "unparse p (Literal l) = [literal_token l]"
| "unparse p (Ident n) = [TIdent n]"
| "unparse p (Call n args) = TIdent n # TOp ''('' # unparse_args args @ [TOp '')'']"
| "unparse p (Property b n) = parens (8 < p) (unparse 8 b @ [TOp ''.'', TIdent n])"
| "unparse p (Index b i) = parens (8 < p) (unparse 8 b @ TOp ''['' # unparse 0 i @ [TOp '']''])"
| "unparse p (Unary opr a) = parens (7 < p) (TOp opr # unparse 7 a)"
| "unparse p (Binary opr l r) =
    parens (Suc (op_level opr) < p)
      (unparse (Suc (op_level opr)) l @ TOp opr # unparse (Suc (Suc (op_level opr))) r)"
| "unparse p (Ternary c a b) = parens (0 < p) (unparse 1 c @ TOp ''?'' # unparse 0 a @ TOp '':'' # unparse 0 b)"
| "unparse_args [] = []"
| "unparse_args [a] = unparse 0 a"
| "unparse_args (a # as) = unparse 0 a @ TOp '','' # unparse_args as"

text \<open>The operators of a tree are operators of the language.\<close>

fun ast_ok :: "'d Ast \<Rightarrow> bool" and asts_ok :: "'d Ast list \<Rightarrow> bool" where
  "ast_ok (Literal l) = True"
| "ast_ok (Ident n) = True"
| "ast_ok (Call n args) = asts_ok args"
| "ast_ok (Property b n) = ast_ok b"
| "ast_ok (Index b i) = (ast_ok b \<and> ast_ok i)"
| "ast_ok (Unary opr a) = (opr \<in> set unary_ops \<and> ast_ok a)"
| "ast_ok (Binary opr l r) = (op_level opr < 6 \<and> ast_ok l \<and> ast_ok r)"
| "ast_ok (Ternary c a b) = (ast_ok c \<and> ast_ok a \<and> ast_ok b)"
| "asts_ok [] = True"
| "asts_ok (a # as) = (ast_ok a \<and> asts_ok as)"

text \<open>The operators that would continue an expression at precedence \<open>p\<close>.\<close>

definition continues :: "nat \<Rightarrow> string set" where
  "continues p =
    {''(''} \<union> (if p \<le> 8 then {''.'', ''[''} else {}) \<union> \<Union> (set ` level_ops ` {k. p \<le> Suc k}) \<union>
    (if p = 0 then {''?''} else {})"

definition stops :: "nat \<Rightarrow> 'd Token list \<Rightarrow> bool" where
  "stops p rest \<longleftrightarrow> (case rest of TOp opr # _ \<Rightarrow> opr \<notin> continues p | _ \<Rightarrow> True)"

text \<open>With enough fuel, and with more, a parser returns \<open>x\<close> and leaves \<open>rest\<close>.\<close>

definition parses :: "(nat \<Rightarrow> 'd Token list \<Rightarrow> ('d, 'a) parsed) \<Rightarrow> 'd Token list \<Rightarrow> 'a \<Rightarrow> 'd Token list \<Rightarrow> bool" where
  "parses p ts x rest \<longleftrightarrow> (\<exists>N. \<forall>n \<ge> N. p n ts = Some (Inr (x, rest)))"

lemma parses_return: "(\<And>n. p (Suc n) ts = Some (Inr (x, rest))) \<Longrightarrow> parses p ts x rest"
  unfolding parses_def by (intro exI [of _ 1]) (metis Suc_le_D One_nat_def)

lemma parses_call: "(\<And>n. p (Suc n) ts = q n ts') \<Longrightarrow> parses q ts' x rest \<Longrightarrow> parses p ts x rest"
  unfolding parses_def by (metis Suc_le_D Suc_le_mono)

lemma parses_then:
  assumes "\<And>n. p (Suc n) ts = then_parse (q n ts') (f n)"
    and "parses q ts' x mid" "parses (\<lambda>n. f n x) mid y rest"
  shows "parses p ts y rest"
proof -
  obtain N where N: "\<And>n. N \<le> n \<Longrightarrow> q n ts' = Some (Inr (x, mid))" using assms(2) by (auto simp: parses_def)
  obtain M where M: "\<And>n. M \<le> n \<Longrightarrow> f n x mid = Some (Inr (y, rest))" using assms(3) by (auto simp: parses_def)
  show ?thesis
    unfolding parses_def
  proof (intro exI [of _ "Suc (max N M)"] allI impI)
    fix n
    assume "Suc (max N M) \<le> n"
    then obtain m where "n = Suc m" "N \<le> m" "M \<le> m" by (cases n) auto
    then show "p n ts = Some (Inr (y, rest))" by (simp add: assms(1) N M)
  qed
qed

text \<open>The same inside a function, where no call is counted.\<close>

lemma parses_then_inner:
  assumes "\<And>n. p n ts = then_parse (q n ts') (f n)"
    and "parses q ts' x mid" "parses (\<lambda>n. f n x) mid y rest"
  shows "parses p ts y rest"
proof -
  obtain N where N: "\<And>n. N \<le> n \<Longrightarrow> q n ts' = Some (Inr (x, mid))" using assms(2) by (auto simp: parses_def)
  obtain M where M: "\<And>n. M \<le> n \<Longrightarrow> f n x mid = Some (Inr (y, rest))" using assms(3) by (auto simp: parses_def)
  have "p n ts = Some (Inr (y, rest))" if "max N M \<le> n" for n
    using that by (simp add: assms(1) N M)
  then show ?thesis unfolding parses_def by blast
qed

lemma parses_same: "(\<And>n. p n ts = q n ts') \<Longrightarrow> parses q ts' x rest \<Longrightarrow> parses p ts x rest"
  by (simp add: parses_def)

lemma parses_inner: "(\<And>n. p n ts = Some (Inr (x, rest))) \<Longrightarrow> parses p ts x rest"
  by (simp add: parses_def)

lemma expect_op_found [simp]: "expect_op opr (TOp opr # ts) = Some (Inr ((), ts))"
  by (simp add: expect_op_def eat_op_def)

lemma eat_op_simps [simp]:
  "eat_op opr (TOp opr # ts) = Some ts" "opr \<noteq> q \<Longrightarrow> eat_op opr (TOp q # ts) = None" "eat_op opr [] = None"
  by (simp_all add: eat_op_def)

lemma eat_op_stops: "stops p rest \<Longrightarrow> opr \<in> continues p \<Longrightarrow> eat_op opr rest = None"
  by (auto simp: stops_def eat_op_def split: list.split Token.split)

lemma continues_mono: "p \<le> q \<Longrightarrow> continues q \<subseteq> continues p"
  by (auto simp: continues_def split: if_splits intro: le_trans)

lemma stops_mono: "p \<le> q \<Longrightarrow> stops p rest \<Longrightarrow> stops q rest"
  using continues_mono [of p q] by (auto simp: stops_def split: list.split Token.split)

definition parse_at :: "nat \<Rightarrow> nat \<Rightarrow> 'd Token list \<Rightarrow> ('d, 'd Ast) parsed" where
  "parse_at p n ts =
    (if p = 0 then parse_ternary n ts
     else if p \<le> 6 then parse_level n (p - 1) ts
     else if p = 7 then parse_unary n ts
     else if p = 8 then parse_postfix n ts
     else parse_primary n ts)"

definition good :: "nat \<Rightarrow> 'd Token list \<Rightarrow> 'd Ast \<Rightarrow> bool" where
  "good p ts x \<longleftrightarrow> (\<forall>rest. stops p rest \<longrightarrow> parses (parse_at p) (ts @ rest) x rest)"

definition good_level :: "nat \<Rightarrow> 'd Token list \<Rightarrow> 'd Ast \<Rightarrow> bool" where
  "good_level k ts x \<longleftrightarrow>
    (\<forall>rest y rest'. stops (k + 2) rest \<longrightarrow> parses (\<lambda>n. level_loop n k x) rest y rest' \<longrightarrow>
       parses (\<lambda>n. parse_level n k) (ts @ rest) y rest')"

definition good_postfix :: "'d Token list \<Rightarrow> 'd Ast \<Rightarrow> bool" where
  "good_postfix ts x \<longleftrightarrow>
    (\<forall>rest y rest'. stops 9 rest \<longrightarrow> parses (\<lambda>n. postfix_loop n x) rest y rest' \<longrightarrow>
       parses parse_postfix (ts @ rest) y rest')"

lemma postfix_loop_stops: "stops 8 rest \<Longrightarrow> parses (\<lambda>n. postfix_loop n x) rest x rest"
  by (rule parses_return)
    (simp add: parser_simps eat_op_stops [of 8] continues_def)

lemma level_loop_stops: "stops (Suc k) rest \<Longrightarrow> parses (\<lambda>n. level_loop n k x) rest x rest"
  by (rule parses_return)
    (auto simp: parser_simps stops_def continues_def split: list.split Token.split)

lemma good_9_postfix: "good 9 ts x \<Longrightarrow> good_postfix ts x"
  unfolding good_def good_postfix_def
  by (intro allI impI, rule parses_then [where p = parse_postfix and q = parse_primary])
    (auto simp: parser_simps parse_at_def [abs_def])

lemma good_postfix_8: "good_postfix ts x \<Longrightarrow> good 8 ts x"
  unfolding good_def
proof (intro allI impI)
  fix rest
  assume g: "good_postfix ts x" and r: "stops 8 (rest :: 'a Token list)"
  have "stops 9 rest" using stops_mono [of 8 9 rest] r by simp
  then have "parses parse_postfix (ts @ rest) x rest"
    using g postfix_loop_stops [OF r, of x] unfolding good_postfix_def by blast
  then show "parses (parse_at 8) (ts @ rest) x rest" by (simp add: parse_at_def [abs_def])
qed

definition starts_operand :: "'d Token list \<Rightarrow> bool" where
  "starts_operand ts \<longleftrightarrow> (case ts of [] \<Rightarrow> False | TOp opr # _ \<Rightarrow> opr \<notin> set unary_ops | _ \<Rightarrow> True)"

lemma good_8_7: "good 8 ts x \<Longrightarrow> starts_operand ts \<Longrightarrow> good 7 ts x"
  unfolding good_def
proof (intro allI impI)
  fix rest
  assume g: "\<forall>rest. stops 8 rest \<longrightarrow> parses (parse_at 8) (ts @ rest) x rest" and s: "starts_operand ts"
    and r: "stops 7 (rest :: 'a Token list)"
  have "stops 8 rest" using stops_mono [of 7 8 rest] r by simp
  then have "parses parse_postfix (ts @ rest) x rest" using g by (simp add: parse_at_def [abs_def])
  then have "parses parse_unary (ts @ rest) x rest"
    by (rule parses_call [rotated])
      (use s in \<open>auto simp: parser_simps starts_operand_def split: list.splits Token.splits\<close>)
  then show "parses (parse_at 7) (ts @ rest) x rest" by (simp add: parse_at_def [abs_def])
qed

lemma good_level_intro:
  assumes "good (k + 2) ts x" "k < 6"
  shows "good_level k ts x"
  unfolding good_level_def
proof (intro allI impI)
  fix rest y rest'
  assume r: "stops (k + 2) rest" and l: "parses (\<lambda>n. level_loop n k x) rest y rest'"
  have p: "parses (parse_at (k + 2)) (ts @ rest) x rest" using assms(1) r by (simp add: good_def)
  have "parses (\<lambda>n. parse_level n (Suc k)) (ts @ rest) x rest"
  proof (cases "k = 5")
    case True
    then have "parses parse_unary (ts @ rest) x rest" using p by (simp add: parse_at_def [abs_def])
    then show ?thesis by (rule parses_call [rotated]) (simp add: parser_simps True)
  next
    case False
    then show ?thesis using p assms(2) by (simp add: parse_at_def [abs_def])
  qed
  then show "parses (\<lambda>n. parse_level n k) (ts @ rest) y rest'"
    using l assms(2) by (intro parses_then [where p = "\<lambda>n. parse_level n k"]) (auto simp: parser_simps)
qed

lemma good_level_good:
  assumes "good_level k ts x" "k < 6"
  shows "good (Suc k) ts x"
  unfolding good_def
proof (intro allI impI)
  fix rest
  assume r: "stops (Suc k) (rest :: 'a Token list)"
  have "stops (k + 2) rest" using stops_mono [of "Suc k" "k + 2" rest] r by simp
  then show "parses (parse_at (Suc k)) (ts @ rest) x rest"
    using assms level_loop_stops [OF r] by (auto simp: good_level_def parse_at_def [abs_def])
qed

lemma good_1_0: "good 1 ts x \<Longrightarrow> good 0 ts x"
  unfolding good_def
proof (intro allI impI)
  fix rest
  assume g: "\<forall>rest. stops 1 rest \<longrightarrow> parses (parse_at 1) (ts @ rest) x rest" and r: "stops 0 (rest :: 'a Token list)"
  have "stops 1 rest" using stops_mono [of 0 1 rest] r by simp
  then have "parses (\<lambda>n. parse_level n 0) (ts @ rest) x rest" using g by (simp add: parse_at_def [abs_def])
  moreover have "eat_op ''?'' rest = None" using r by (rule eat_op_stops) (simp add: continues_def)
  ultimately have "parses parse_ternary (ts @ rest) x rest"
    by (intro parses_then [where p = parse_ternary and q = "\<lambda>n. parse_level n 0", OF parse_ternary.simps(2)])
      (auto intro: parses_inner)
  then show "parses (parse_at 0) (ts @ rest) x rest" by (simp add: parse_at_def [abs_def])
qed

text \<open>What is shown of a tree at its own precedence, and what follows for the lower ones.\<close>

definition strong :: "nat \<Rightarrow> 'd Token list \<Rightarrow> 'd Ast \<Rightarrow> bool" where
  "strong p ts x \<longleftrightarrow>
    (8 \<le> p \<longrightarrow> starts_operand ts) \<and>
    (if p = 0 then good 0 ts x
     else if p \<le> 6 then good_level (p - 1) ts x
     else if p = 8 then good_postfix ts x
     else good p ts x)"

lemma strong_good:
  assumes "strong p ts x" "p \<le> 9"
  shows "good p ts x"
proof -
  consider "p = 0" | k where "p = Suc k" "k < 6" | "p = 7" | "p = 8" | "p = 9"
    using assms(2) by (cases p) force+
  then show ?thesis
    using assms(1) by cases (auto simp: strong_def intro: good_level_good good_postfix_8)
qed

lemma strong_down:
  assumes s: "strong (Suc p) ts x" and p: "p < 9"
  shows "strong p ts x"
proof -
  have g: "good (Suc p) ts x" using strong_good [OF s] p by simp
  consider "p = 0" | k where "p = Suc k" "k < 6" | "p = 7" | "p = 8"
    using p by (cases p) force+
  then show ?thesis
  proof cases
    case 1
    then show ?thesis using g good_1_0 [of ts x] by (simp add: strong_def)
  next
    case (2 k)
    then show ?thesis using good_level_intro [of k ts x] g by (simp add: strong_def)
  next
    case 3
    then show ?thesis using good_8_7 [of ts x] g s by (simp add: strong_def)
  next
    case 4
    then show ?thesis using good_9_postfix [of ts x] g s by (simp add: strong_def)
  qed
qed

lemma strong_lower:
  assumes "q \<le> p" "p \<le> 9" "strong p ts x"
  shows "strong q ts x"
  using assms(1,3)
proof (induction q rule: inc_induct)
  case (step n)
  then show ?case using strong_down [of n ts x] assms(2) by simp
qed

lemma level_ops_cases:
  "opr \<in> set (level_ops k) \<Longrightarrow>
    opr \<in> {''||'', ''&&'', ''=='', ''!='', ''<'', ''>'', ''<='', ''>='', ''+'', ''-'', ''*'', ''/'', ''%''}"
  by (cases k rule: level_ops.cases) auto

lemma op_level_le: "op_level opr < 7"
  by (auto simp: op_level_def split: option.splits)

lemma op_level_eq: "opr \<in> set (level_ops k) \<Longrightarrow> op_level opr = k"
  by (cases k rule: level_ops.cases) (auto simp: op_level_def eval_nat_numeral)

lemma op_level_mem: "op_level opr < 6 \<Longrightarrow> opr \<in> set (level_ops (op_level opr))"
  by (auto simp: op_level_def split: option.splits if_splits)

lemma stops_close: "opr \<in> {'')'', '']'', '':'', '',''} \<Longrightarrow> stops p (TOp opr # rest)"
  by (auto simp: stops_def continues_def dest!: level_ops_cases)

lemma good_parens: "good 0 ts x \<Longrightarrow> strong 9 (TOp ''('' # ts @ [TOp '')'']) x"
proof -
  assume g: "good 0 ts x"
  have "parses parse_primary ((TOp ''('' # ts @ [TOp '')'']) @ rest) x rest" for rest
  proof (rule parses_then [where p = parse_primary and q = parse_ternary and ts' = "ts @ TOp '')'' # rest"])
    show "parses parse_ternary (ts @ TOp '')'' # rest) x (TOp '')'' # rest)"
      using g stops_close [of "'')''" 0 rest] by (auto simp: good_def parse_at_def [abs_def])
  qed (auto simp: parser_simps intro: parses_inner)
  then show ?thesis by (simp add: strong_def good_def parse_at_def [abs_def] starts_operand_def unary_ops_def)
qed

lemma unparse_parens: "unparse p a = parens (prec a < p \<and> prec a < 9) (unparse 0 a)"
  by (cases a) (auto simp: parens_def intro: less_trans [OF op_level_le])

lemma strong_unparse:
  assumes "strong (prec a) (unparse 0 a) a" "prec a \<le> 9" "p \<le> 9"
  shows "strong p (unparse p a) a"
proof (cases "prec a < p")
  case True
  have "good 0 (unparse 0 a) a" using strong_lower [OF _ assms(2,1), of 0] by (simp add: strong_def)
  then show ?thesis
    using strong_lower [OF assms(3) _ good_parens, of "unparse 0 a" a] True assms(3)
    by (subst unparse_parens) (simp add: parens_def)
next
  case False
  then show ?thesis
    using strong_lower [OF _ assms(2,1), of p] by (subst unparse_parens) (simp add: parens_def)
qed

lemma parse_args_unparse:
  assumes "\<And>a. a \<in> set as \<Longrightarrow> good 0 (unparse 0 a) a" "as \<noteq> []"
  shows "parses (\<lambda>n. parse_args n acc) (unparse_args as @ TOp '')'' # rest) (acc @ as) (TOp '')'' # rest)"
  using assms
proof (induction as arbitrary: acc rule: induct_list012)
  case (2 a)
  then have "parses parse_ternary (unparse 0 a @ TOp '')'' # rest) a (TOp '')'' # rest)"
    using stops_close [of "'')''" 0 rest] by (auto simp: good_def parse_at_def [abs_def])
  then show ?case
    by (intro parses_then [where p = "\<lambda>n. parse_args n acc" and q = parse_ternary, OF parse_args.simps(2)])
      (auto intro: parses_inner)
next
  case (3 a b as)
  let ?more = "unparse_args (b # as) @ TOp '')'' # rest"
  have a: "parses parse_ternary (unparse 0 a @ TOp '','' # ?more) a (TOp '','' # ?more)"
    using 3(3) [of a] stops_close [of "'',''" 0 ?more] by (auto simp: good_def parse_at_def [abs_def])
  have more: "parses (\<lambda>n. parse_args n (acc @ [a])) ?more (acc @ a # b # as) (TOp '')'' # rest)"
    using 3(2) [of "acc @ [a]"] 3(3) by simp
  have "parses (\<lambda>n. parse_args n acc) (unparse 0 a @ TOp '','' # ?more) (acc @ a # b # as) (TOp '')'' # rest)"
    by (rule parses_then [where p = "\<lambda>n. parse_args n acc" and q = parse_ternary, OF parse_args.simps(2) a],
        rule parses_same [OF _ more], simp)
  then show ?case by simp
qed simp

lemma starts_operand_append [simp]: "starts_operand ts \<Longrightarrow> starts_operand (ts @ us)"
  by (auto simp: starts_operand_def split: list.splits)

lemma asts_ok_all: "asts_ok as \<longleftrightarrow> (\<forall>a \<in> set as. ast_ok a)"
  by (induction as) auto

lemma unparse_head: "ast_ok a \<Longrightarrow> \<exists>t ts. unparse p a = t # ts \<and> t \<noteq> TOp '')''"
proof (induction a arbitrary: p)
  case (Literal l)
  then show ?case by (cases l) auto
next
  case (Unary opr a)
  then show ?case by (auto simp: parens_def unary_ops_def)
next
  case (Property b n)
  then obtain t ts where "unparse 8 b = t # ts" "t \<noteq> TOp '')''" by fastforce
  then show ?case by (simp add: parens_def)
next
  case (Index b i)
  then obtain t ts where "unparse 8 b = t # ts" "t \<noteq> TOp '')''" by fastforce
  then show ?case by (simp add: parens_def)
next
  case (Binary opr l r)
  then obtain t ts where "unparse (Suc (op_level opr)) l = t # ts" "t \<noteq> TOp '')''" by fastforce
  then show ?case by (simp add: parens_def)
next
  case (Ternary c a b)
  then obtain t ts where "unparse 1 c = t # ts" "t \<noteq> TOp '')''" by fastforce
  then show ?case by (simp add: parens_def)
qed auto

lemma unparse_args_head:
  "asts_ok as \<Longrightarrow> as \<noteq> [] \<Longrightarrow> eat_op '')'' (unparse_args as @ ts) = None"
  by (cases as rule: unparse_args.cases) (use unparse_head [of "hd as" 0] in \<open>auto simp: eat_op_def split: Token.split\<close>)

lemma level_loop_step:
  assumes "opr \<in> set (level_ops k)" "good (k + 2) tr r" "k < 6" "stops (k + 2) rest"
    and "parses (\<lambda>n. level_loop n k (Binary opr l r)) rest y rest'"
  shows "parses (\<lambda>n. level_loop n k l) (TOp opr # tr @ rest) y rest'"
proof -
  have p: "parses (parse_at (k + 2)) (tr @ rest) r rest" using assms(2,4) by (simp add: good_def)
  have "parses (\<lambda>n. parse_level n (Suc k)) (tr @ rest) r rest"
  proof (cases "k = 5")
    case True
    then have "parses parse_unary (tr @ rest) r rest" using p by (simp add: parse_at_def [abs_def])
    then show ?thesis by (rule parses_call [rotated]) (simp add: parser_simps True)
  next
    case False
    then show ?thesis using p assms(3) by (simp add: parse_at_def [abs_def])
  qed
  then show ?thesis
    using assms(1,5)
    by (intro parses_then [where p = "\<lambda>n. level_loop n k l" and q = "\<lambda>n. parse_level n (Suc k)"
          and ts' = "tr @ rest" and x = r and mid = rest
          and f = "\<lambda>n right. level_loop n k (Binary opr l right)"])
      (auto simp: level_loop.simps)
qed

lemma strong_Binary:
  assumes k: "op_level opr < 6"
    and l: "strong (Suc (op_level opr)) xl l" and r: "strong (Suc (Suc (op_level opr))) xr r"
  shows "strong (Suc (op_level opr)) (xl @ TOp opr # xr) (Binary opr l r)"
proof -
  let ?k = "op_level opr"
  have lv: "good_level ?k xl l" using l k by (simp add: strong_def)
  have gr: "good (?k + 2) xr r" using strong_good [OF r] k by simp
  have c: "opr \<notin> continues (?k + 2)"
    using level_ops_cases [OF op_level_mem [OF k]]
    by (auto simp: continues_def dest: op_level_eq split: if_splits)
  have "good_level ?k (xl @ TOp opr # xr) (Binary opr l r)"
    unfolding good_level_def
  proof (intro allI impI)
    fix rest y rest'
    assume rest: "stops (?k + 2) rest" and y: "parses (\<lambda>n. level_loop n ?k (Binary opr l r)) rest y rest'"
    have "parses (\<lambda>n. level_loop n ?k l) (TOp opr # xr @ rest) y rest'"
      using level_loop_step [OF op_level_mem [OF k] gr k rest y] .
    moreover have "stops (?k + 2) (TOp opr # xr @ rest)" using c by (simp add: stops_def)
    ultimately show "parses (\<lambda>n. parse_level n ?k) ((xl @ TOp opr # xr) @ rest) y rest'"
      using lv unfolding good_level_def append_assoc append_Cons by blast
  qed
  then show ?thesis using k by (simp add: strong_def)
qed

lemma strong_Unary:
  assumes "opr \<in> set unary_ops" "good 7 ts a"
  shows "strong 7 (TOp opr # ts) (Unary opr a)"
proof -
  have "parses parse_unary (TOp opr # ts @ rest) (Unary opr a) rest" if "stops 7 rest" for rest
  proof -
    have a: "parses parse_unary (ts @ rest) a rest"
      using assms(2) that by (simp add: good_def parse_at_def [abs_def])
    show ?thesis
      by (rule parses_then [where p = parse_unary and q = parse_unary
            and f = "\<lambda>_ operand ts. Some (Inr (Unary opr operand, ts))", OF _ a])
        (simp_all add: parse_unary.simps assms(1) parses_inner)
  qed
  then show ?thesis by (simp add: strong_def good_def parse_at_def [abs_def])
qed

lemma strong_Ternary:
  assumes "strong 1 tc c" "good 0 ta a" "good 0 tb b"
  shows "strong 0 (tc @ TOp ''?'' # ta @ TOp '':'' # tb) (Ternary c a b)"
proof -
  have c1: "stops 1 (TOp ''?'' # ts)" for ts :: "'a Token list"
    by (auto simp: stops_def continues_def dest!: level_ops_cases)
  have "parses parse_ternary (tc @ TOp ''?'' # ta @ TOp '':'' # tb @ rest) (Ternary c a b) rest" if "stops 0 rest" for rest
  proof -
    have c: "parses (\<lambda>n. parse_level n 0) (tc @ TOp ''?'' # ta @ TOp '':'' # tb @ rest) c (TOp ''?'' # ta @ TOp '':'' # tb @ rest)"
      using strong_good [OF assms(1)] c1 by (auto simp: good_def parse_at_def [abs_def])
    have a: "parses parse_ternary (ta @ TOp '':'' # tb @ rest) a (TOp '':'' # tb @ rest)"
      using assms(2) stops_close [of "'':''" 0] by (auto simp: good_def parse_at_def [abs_def])
    have b: "parses parse_ternary (tb @ rest) b rest"
      using assms(3) that by (auto simp: good_def parse_at_def [abs_def])
    show ?thesis
      by (rule parses_then [where p = parse_ternary and q = "\<lambda>n. parse_level n 0", OF parse_ternary.simps(2) c],
          rule parses_then_inner [where q = parse_ternary, OF _ a], simp,
          rule parses_then_inner [where q = parse_ternary, OF _ b], simp,
          rule parses_inner, simp)
  qed
  then show ?thesis by (simp add: strong_def good_def parse_at_def [abs_def])
qed

lemma strong_Property:
  assumes "strong 8 ts b"
  shows "strong 8 (ts @ [TOp ''.'', TIdent n]) (Property b n)"
proof -
  have "stops 9 (TOp ''.'' # us)" for us :: "'a Token list"
    by (auto simp: stops_def continues_def dest!: level_ops_cases)
  moreover have "parses (\<lambda>m. postfix_loop m b) (TOp ''.'' # TIdent n # rest) y rest'"
    if "parses (\<lambda>m. postfix_loop m (Property b n)) rest y rest'" for rest y rest'
    by (rule parses_call [OF _ that]) (simp add: postfix_loop.simps)
  ultimately show ?thesis using assms by (simp add: strong_def good_postfix_def)
qed

lemma strong_Index:
  assumes "strong 8 ts b" "good 0 ti i"
  shows "strong 8 (ts @ TOp ''['' # ti @ [TOp '']'']) (Index b i)"
proof -
  have "stops 9 (TOp ''['' # us)" for us :: "'a Token list"
    by (auto simp: stops_def continues_def dest!: level_ops_cases)
  moreover have "parses (\<lambda>m. postfix_loop m b) (TOp ''['' # ti @ TOp '']'' # rest) y rest'"
    if "parses (\<lambda>m. postfix_loop m (Index b i)) rest y rest'" for rest y rest'
  proof -
    have i: "parses parse_ternary (ti @ TOp '']'' # rest) i (TOp '']'' # rest)"
      using assms(2) stops_close [of "'']''" 0] by (auto simp: good_def parse_at_def [abs_def])
    show ?thesis
      by (rule parses_then [where p = "\<lambda>m. postfix_loop m b" and q = parse_ternary, OF _ i])
        (simp add: postfix_loop.simps, rule parses_same [OF _ that], simp)
  qed
  ultimately show ?thesis using assms(1) by (simp add: strong_def good_postfix_def)
qed

lemma strong_Call:
  assumes "asts_ok args" "\<And>a. a \<in> set args \<Longrightarrow> good 0 (unparse 0 a) a"
  shows "strong 9 (TIdent n # TOp ''('' # unparse_args args @ [TOp '')'']) (Call n args)"
proof -
  have "parses parse_primary (TIdent n # TOp ''('' # unparse_args args @ TOp '')'' # rest) (Call n args) rest" for rest
  proof (cases "args = []")
    case True
    then show ?thesis by (intro parses_return) (simp add: parse_primary.simps)
  next
    case False
    have a: "parses (\<lambda>m. parse_args m []) (unparse_args args @ TOp '')'' # rest) args (TOp '')'' # rest)"
      using parse_args_unparse [of args "[]" rest] assms(2) False by simp
    show ?thesis
      by (rule parses_then [where p = parse_primary and q = "\<lambda>m. parse_args m []"
            and f = "\<lambda>_ args ts. then_parse (expect_op '')'' ts) (\<lambda>_ ts. Some (Inr (Call n args, ts)))", OF _ a])
        (auto simp: parse_primary.simps unparse_args_head [OF assms(1) False] intro: parses_inner)
  qed
  then show ?thesis by (simp add: strong_def good_def parse_at_def [abs_def] starts_operand_def)
qed

lemma strong_Literal: "strong 9 [literal_token l] (Literal l)"
proof -
  have "parses parse_primary (literal_token l # rest) (Literal l) rest" for rest
    by (cases l) (auto intro!: parses_return simp: parse_primary.simps)
  then show ?thesis by (cases l) (auto simp: strong_def good_def parse_at_def [abs_def] starts_operand_def)
qed

lemma strong_Ident: "strong 9 [TIdent n] (Ident n)"
proof -
  have "parses parse_primary (TIdent n # rest) (Ident n) rest" if "stops 9 rest" for rest :: "'a Token list"
    by (rule parses_return) (simp add: parse_primary.simps eat_op_stops [OF that] continues_def)
  then show ?thesis by (simp add: strong_def good_def parse_at_def [abs_def] starts_operand_def)
qed

lemma prec_le: "ast_ok a \<Longrightarrow> prec a \<le> 9"
  by (cases a) auto

lemma unparse_strong: "ast_ok a \<Longrightarrow> p \<le> 9 \<Longrightarrow> strong p (unparse p a) a"
proof (induction a arbitrary: p)
  case (Call n args)
  have "good 0 (unparse 0 a) a" if "a \<in> set args" for a
    using strong_good [OF Call.IH [OF that, of 0]] that Call.prems by (simp add: asts_ok_all)
  then show ?case
    using strong_unparse [of "Call n args" p] strong_Call [of args n] Call.prems by simp
next
  case (Literal l)
  then show ?case using strong_unparse [of "Literal l" p] by (simp add: strong_Literal)
next
  case (Ident n)
  then show ?case using strong_unparse [of "Ident n" p] by (simp add: strong_Ident)
next
  case (Property b n)
  then show ?case
    using strong_unparse [of "Property b n" p] strong_Property [of "unparse 8 b" b n] by (simp add: parens_def)
next
  case (Index b i)
  then show ?case
    using strong_unparse [of "Index b i" p] strong_Index [of "unparse 8 b" b "unparse 0 i" i]
      strong_good [of 0 "unparse 0 i" i] by (simp add: parens_def)
next
  case (Unary opr a)
  then show ?case
    using strong_unparse [of "Unary opr a" p] strong_Unary [of opr "unparse 7 a" a]
      strong_good [of 7 "unparse 7 a" a] by (simp add: parens_def)
next
  case (Binary opr l r)
  then show ?case
    using strong_unparse [of "Binary opr l r" p] strong_Binary [of opr _ l _ r] by (simp add: parens_def)
next
  case (Ternary c a b)
  then show ?case
    using strong_unparse [of "Ternary c a b" p] strong_Ternary [of "unparse 1 c" c "unparse 0 a" a "unparse 0 b" b]
      strong_good [of 0 "unparse 0 a" a] strong_good [of 0 "unparse 0 b" b] by (simp add: parens_def)
qed

text \<open>
  The grammar is the one its precedences describe: a tree that is printed with parentheses only where
  precedence and associativity ask for them parses back to the same tree. So the ternary operator binds
  weakest and to the right, then \<open>||\<close>, \<open>&&\<close>, equality, relations, sums and products, each to the
  left, then the unary operators, then property and index access and calls.
\<close>

lemma parse_full_unparse:
  assumes "ast_ok ast"
  shows "parse_full (unparse 0 ast) = Some (Inr ast)"
proof -
  let ?ts = "unparse 0 ast"
  have "parses parse_ternary ?ts ast []"
    using strong_good [OF unparse_strong [OF assms, of 0]]
    by (fastforce simp: good_def parse_at_def [abs_def] stops_def dest!: spec [of _ "[]"])
  then obtain N where N: "\<And>n. N \<le> n \<Longrightarrow> parse_ternary n ?ts = Some (Inr (ast, []))" by (auto simp: parses_def)
  have f: "finishes (length ?ts - 1) (parse_ternary (parse_fuel ?ts) ?ts)"
    by (rule parser_finishes(1)) (simp add: parse_fuel_def)
  then obtain r where r: "parse_ternary (parse_fuel ?ts) ?ts = Some r" by (auto simp: finishes_def)
  have "parse_ternary (max N (parse_fuel ?ts)) ?ts = Some r"
    using parser_extends_le [of "parse_fuel ?ts" "max N (parse_fuel ?ts)" ?ts] r by (simp add: extends_def)
  then have "r = Inr (ast, [])" using N [of "max N (parse_fuel ?ts)"] by simp
  then show ?thesis using r unparse_head [OF assms, of 0] by (auto simp: parse_full_def)
qed

section \<open>Properties\<close>

text \<open>
  C30. The parser returns on every list of tokens: there is no expression on which the loops of the
  binary operators and of the property accesses, or the recursion between the rules of the grammar, run
  forever. The fuel of the model, sixteen calls for each token, is never used up.
\<close>

theorem el_parser_terminates: "\<exists>r. parse_full ts = Some r"
proof (cases "ts = []")
  case False
  have "finishes (length ts - 1) (parse_ternary (parse_fuel ts) ts)"
    by (rule parser_finishes(1)) (simp add: parse_fuel_def)
  then show ?thesis by (auto simp: parse_full_def finishes_def split: sum.splits option.splits)
qed (simp add: parse_full_def)

end
