(* ===== verification/ElLexer.thy ===== *)
theory ElLexer
  imports ElParser
begin

text \<open>
  The tokenizer of the expression language and \<open>Expression::parse\<close>, \<open>src/crates/tomcatrs-jsp/src/el.rs\<close>.

  What the code takes from the Unicode tables and from IEEE arithmetic is a parameter, the record
  \<open>el_ops\<close>: the alphabetic and numeric characters outside ASCII, and the operations of \<open>f64\<close>. ASCII and
  the white space of Unicode are written out.
\<close>

section \<open>Characters\<close>

record 'd el_ops =
  wide_alphabetic :: "int \<Rightarrow> bool"
  wide_numeric :: "int \<Rightarrow> bool"
  f64_parse :: "utext \<Rightarrow> 'd option"
  f64_of_i64 :: "i64 \<Rightarrow> 'd"
  f64_to_i64 :: "'d \<Rightarrow> i64"
  f64_neg :: "'d \<Rightarrow> 'd"
  f64_add :: "'d \<Rightarrow> 'd \<Rightarrow> 'd"
  f64_sub :: "'d \<Rightarrow> 'd \<Rightarrow> 'd"
  f64_mul :: "'d \<Rightarrow> 'd \<Rightarrow> 'd"
  f64_div :: "'d \<Rightarrow> 'd \<Rightarrow> 'd"
  f64_rem :: "'d \<Rightarrow> 'd \<Rightarrow> 'd"
  f64_less :: "'d \<Rightarrow> 'd \<Rightarrow> bool"
  f64_eq :: "'d \<Rightarrow> 'd \<Rightarrow> bool"
  f64_zero :: "'d"
  f64_integral :: "'d \<Rightarrow> bool"
  f64_show :: "'d \<Rightarrow> utext"
  f64_show1 :: "'d \<Rightarrow> utext"

abbreviation code :: "char \<Rightarrow> int" where
  "code c \<equiv> of_char c"

definition is_whitespace :: "int \<Rightarrow> bool" where
  "is_whitespace c \<longleftrightarrow>
    9 \<le> c \<and> c \<le> 13 \<or> c \<in> {32, 0x85, 0xA0, 0x1680, 0x2028, 0x2029, 0x202F, 0x205F, 0x3000} \<or>
    0x2000 \<le> c \<and> c \<le> 0x200A"

definition is_ascii_digit :: "int \<Rightarrow> bool" where
  "is_ascii_digit c \<longleftrightarrow> 48 \<le> c \<and> c \<le> 57"

definition is_alphabetic :: "'d el_ops \<Rightarrow> int \<Rightarrow> bool" where
  "is_alphabetic ops c \<longleftrightarrow>
    (if c < 128 then 65 \<le> c \<and> c \<le> 90 \<or> 97 \<le> c \<and> c \<le> 122 else wide_alphabetic ops c)"

definition is_alphanumeric :: "'d el_ops \<Rightarrow> int \<Rightarrow> bool" where
  "is_alphanumeric ops c \<longleftrightarrow>
    is_alphabetic ops c \<or> (if c < 128 then is_ascii_digit c else wide_numeric ops c)"

text \<open>\<open>str::trim\<close> and \<open>str::parse::<i64>\<close>.\<close>

definition trim_text :: "utext \<Rightarrow> utext" where
  "trim_text s = rev (dropWhile is_whitespace (rev (dropWhile is_whitespace s)))"

fun digits_value :: "int \<Rightarrow> utext \<Rightarrow> int option" where
  "digits_value acc [] = Some acc"
| "digits_value acc (c # cs) = (if is_ascii_digit c then digits_value (10 * acc + (c - 48)) cs else None)"

definition parse_i64 :: "utext \<Rightarrow> i64 option" where
  "parse_i64 s =
    (let (neg, ds) =
       (case s of
          c # cs \<Rightarrow> if c = code CHR ''-'' then (True, cs) else if c = code CHR ''+'' then (False, cs) else (False, s)
        | [] \<Rightarrow> (False, []))
     in if ds = [] then None
        else case digits_value 0 ds of
          None \<Rightarrow> None
        | Some v \<Rightarrow>
            let n = if neg then - v else v
            in if - (2 ^ 63) \<le> n \<and> n < 2 ^ 63 then Some (word_of_int n) else None)"

section \<open>Tokens\<close>

text \<open>
  The loop over the characters of a number returns them, whether it saw a dot and an exponent, and the
  rest.
\<close>

fun number_scan :: "bool \<Rightarrow> bool \<Rightarrow> utext \<Rightarrow> utext \<times> bool \<times> bool \<times> utext" where
  "number_scan seen_dot seen_exp [] = ([], seen_dot, seen_exp, [])"
| "number_scan seen_dot seen_exp (d # ds) =
    (if is_ascii_digit d then
       (let (num, r) = number_scan seen_dot seen_exp ds in (d # num, r))
     else if d = code CHR ''.'' \<and> \<not> seen_dot \<and> \<not> seen_exp then
       (let (num, r) = number_scan True seen_exp ds in (d # num, r))
     else if (d = code CHR ''e'' \<or> d = code CHR ''E'') \<and> \<not> seen_exp then
       (case ds of
          s # ds' \<Rightarrow>
            if s = code CHR ''+'' \<or> s = code CHR ''-'' then
              (let (num, r) = number_scan seen_dot True ds' in (d # s # num, r))
            else (let (num, r) = number_scan seen_dot True ds in (d # num, r))
        | [] \<Rightarrow> ([d], seen_dot, True, []))
     else ([], seen_dot, seen_exp, d # ds))"

definition unescape :: "int \<Rightarrow> int" where
  "unescape esc =
    (if esc = code CHR ''n'' then 10
     else if esc = code CHR ''t'' then 9
     else if esc = code CHR ''r'' then 13
     else esc)"

text \<open>The loop over a string literal; \<open>None\<close> when its quote is missing.\<close>

fun string_scan :: "int \<Rightarrow> utext \<Rightarrow> (utext \<times> utext) option" where
  "string_scan quot [] = None"
| "string_scan quot [d] = (if d = quot then Some ([], []) else None)"
| "string_scan quot (d # e # ds) =
    (if d = 92 then map_option (\<lambda>(s, r). (unescape e # s, r)) (string_scan quot ds)
     else if d = quot then Some ([], e # ds)
     else map_option (\<lambda>(s, r). (d # s, r)) (string_scan quot (e # ds)))"

definition ident_start :: "'d el_ops \<Rightarrow> int \<Rightarrow> bool" where
  "ident_start ops c \<longleftrightarrow> is_alphabetic ops c \<or> c = code CHR ''_'' \<or> c = code CHR ''$''"

definition ident_char :: "'d el_ops \<Rightarrow> int \<Rightarrow> bool" where
  "ident_char ops c \<longleftrightarrow>
    is_alphanumeric ops c \<or> c = code CHR ''_'' \<or> c = code CHR ''$'' \<or> c = code CHR '':''"

definition keywords_of :: "(utext \<times> 'd Token) list" where
  "keywords_of =
    [(codes ''true'', TBool True), (codes ''false'', TBool False), (codes ''null'', TNull),
     (codes ''div'', TOp ''/''), (codes ''mod'', TOp ''%''), (codes ''and'', TOp ''&&''),
     (codes ''or'', TOp ''||''), (codes ''not'', TOp ''!''), (codes ''eq'', TOp ''==''),
     (codes ''ne'', TOp ''!=''), (codes ''lt'', TOp ''<''), (codes ''gt'', TOp ''>''),
     (codes ''le'', TOp ''<=''), (codes ''ge'', TOp ''>=''), (codes ''empty'', TOp ''empty'')]"

definition word_token :: "utext \<Rightarrow> 'd Token" where
  "word_token w = (case map_of keywords_of w of Some t \<Rightarrow> t | None \<Rightarrow> TIdent w)"

definition two_char_ops :: "string list" where
  "two_char_ops = [''=='', ''!='', ''<='', ''>='', ''&&'', ''||'']"

definition one_char_ops :: "string list" where
  "one_char_ops =
    [''+'', ''-'', ''*'', ''/'', ''%'', ''('', '')'', ''['', '']'', ''.'', '','', ''?'', '':'', ''!'', ''<'', ''>'']"

definition find_op :: "string list \<Rightarrow> utext \<Rightarrow> string option" where
  "find_op oprs t = List.find (\<lambda>opr. codes opr = t) oprs"

definition number_token :: "'d el_ops \<Rightarrow> utext \<Rightarrow> ElError + 'd Token \<times> utext" where
  "number_token ops cs =
    (let (num, seen_dot, seen_exp, rest) = number_scan False False cs
     in if seen_dot \<or> seen_exp then
          (case f64_parse ops num of
             Some d \<Rightarrow> Ok (TDouble d, rest)
           | None \<Rightarrow> Err (Lex ''bad float literal''))
        else
          (case parse_i64 num of
             Some n \<Rightarrow> Ok (TLong n, rest)
           | None \<Rightarrow> Err (Lex ''bad int literal'')))"

text \<open>One turn of the loop of \<open>tokenize\<close>, at a character that is not white space.\<close>

definition next_token :: "'d el_ops \<Rightarrow> int \<Rightarrow> utext \<Rightarrow> ElError + 'd Token \<times> utext" where
  "next_token ops c cs =
    (if is_ascii_digit c \<or> c = code CHR ''.'' \<and> cs \<noteq> [] \<and> is_ascii_digit (hd cs) then
       number_token ops (c # cs)
     else if c = 39 \<or> c = 34 then
       (case string_scan c cs of
          None \<Rightarrow> Err (Lex ''unterminated string literal'')
        | Some (s, rest) \<Rightarrow> Ok (TStr s, rest))
     else if ident_start ops c then
       Ok (word_token (c # takeWhile (ident_char ops) cs), dropWhile (ident_char ops) cs)
     else
       (case find_op two_char_ops (take 2 (c # cs)) of
          Some opr \<Rightarrow> Ok (TOp opr, drop 1 cs)
        | None \<Rightarrow>
            (case find_op one_char_ops [c] of
               Some opr \<Rightarrow> Ok (TOp opr, cs)
             | None \<Rightarrow> Err (Lex ''unexpected character''))))"

lemma number_scan_split:
  "length (fst (number_scan sd se cs)) + length (snd (snd (snd (number_scan sd se cs)))) = length cs"
  by (induction sd se cs rule: number_scan.induct) (simp_all add: split_beta split: list.split)

lemma number_scan_length: "number_scan sd se cs = (num, d, e, rest) \<Longrightarrow> length num + length rest = length cs"
  using number_scan_split [of sd se cs] by simp

lemma number_scan_nonempty:
  "is_ascii_digit c \<or> c = 46 \<and> \<not> sd \<and> \<not> se \<Longrightarrow> number_scan sd se (c # cs) = (num, d, e, rest) \<Longrightarrow> num \<noteq> []"
  by (auto split: if_splits prod.splits)

declare number_scan.simps [simp del]

lemma string_scan_length: "string_scan q cs = Some (s, rest) \<Longrightarrow> length rest < length cs"
  by (induction q cs arbitrary: s rest rule: string_scan.induct) (fastforce split: if_splits)+

lemma number_token_length:
  assumes "is_ascii_digit c \<or> c = 46" "number_token ops (c # cs) = Ok (t, rest)"
  shows "length rest \<le> length cs"
proof -
  obtain num d e r where n: "number_scan False False (c # cs) = (num, d, e, r)"
    by (cases "number_scan False False (c # cs)") auto
  have "rest = r" using assms(2) by (simp add: number_token_def n split: if_splits option.splits)
  moreover have "num \<noteq> []" using number_scan_nonempty [OF _ n] assms(1) by simp
  ultimately show ?thesis using number_scan_length [OF n] by (cases num) simp_all
qed

lemma next_token_length: "next_token ops c cs = Ok (t, rest) \<Longrightarrow> length rest \<le> length cs"
  unfolding next_token_def
  by (auto simp del: number_scan.simps simp: length_dropWhile_le split: if_splits option.splits
      dest!: number_token_length [rotated] string_scan_length)

function tokenize :: "'d el_ops \<Rightarrow> utext \<Rightarrow> ElError + 'd Token list" where
  "tokenize ops [] = Ok []"
| "tokenize ops (c # cs) =
    (if is_whitespace c then tokenize ops cs
     else and_then (next_token ops c cs) (\<lambda>(t, rest).
          and_then (tokenize ops rest) (\<lambda>ts. Ok (t # ts))))"
  by pat_completeness auto
termination
  by (relation "measure (\<lambda>(ops, cs). length cs)") (auto simp: less_Suc_eq_le dest: next_token_length)

section \<open>Expressions\<close>

record 'd Expression =
  ast :: "'d Ast"
  source :: utext

definition strip_wrapper :: "utext \<Rightarrow> utext option" where
  "strip_wrapper s =
    (if 3 \<le> length s \<and> (s ! 0 = code CHR ''$'' \<or> s ! 0 = code CHR ''#'') \<and> s ! 1 = code CHR ''{'' \<and>
        last s = code CHR ''}''
     then Some (butlast (drop 2 s))
     else None)"

definition Expression_parse :: "'d el_ops \<Rightarrow> utext \<Rightarrow> (ElError + 'd Expression) option" where
  "Expression_parse ops input =
    (let body = (case strip_wrapper (trim_text input) of Some b \<Rightarrow> b | None \<Rightarrow> trim_text input)
     in case tokenize ops body of
          Inl e \<Rightarrow> Some (Err e)
        | Inr ts \<Rightarrow> map_option (\<lambda>r. and_then r (\<lambda>a. Ok \<lparr>ast = a, source = body\<rparr>)) (parse_full ts))"

definition show_expression :: "'d Expression \<Rightarrow> utext" where
  "show_expression e = codes ''${'' @ source e @ codes ''}''"

section \<open>Printing tokens\<close>

text \<open>The decimal digits of a number, as \<open>Display\<close> writes them.\<close>

fun show_digits :: "nat \<Rightarrow> utext" where
  "show_digits n = (if n < 10 then [48 + int n] else show_digits (n div 10) @ [48 + int (n mod 10)])"

declare show_digits.simps [simp del]

definition escape :: "int \<Rightarrow> utext" where
  "escape c = (if c = 34 \<or> c = 92 then [92, c] else [c])"

fun show_token :: "'d Token \<Rightarrow> utext" where
  "show_token (TLong n) = show_digits (unat n)"
| "show_token (TDouble d) = []"
| "show_token (TStr s) = 34 # concat (map escape s) @ [34]"
| "show_token (TBool b) = codes (if b then ''true'' else ''false'')"
| "show_token TNull = codes ''null''"
| "show_token (TIdent w) = w"
| "show_token (TOp opr) = codes opr"

definition valid_word :: "'d el_ops \<Rightarrow> utext \<Rightarrow> bool" where
  "valid_word ops w \<longleftrightarrow>
    w \<noteq> [] \<and> ident_start ops (hd w) \<and> list_all (\<lambda>c. ident_char ops c \<and> \<not> is_whitespace c) w \<and>
    w \<notin> fst ` set (keywords_of :: (utext \<times> 'd Token) list)"

text \<open>The tokens that can be written: the source has no negative literals, and floats are left out.\<close>

fun token_ok :: "'d el_ops \<Rightarrow> 'd Token \<Rightarrow> bool" where
  "token_ok ops (TLong n) \<longleftrightarrow> unat n < 2 ^ 63"
| "token_ok ops (TDouble d) \<longleftrightarrow> False"
| "token_ok ops (TIdent w) \<longleftrightarrow> valid_word ops w"
| "token_ok ops (TOp opr) \<longleftrightarrow> opr \<in> set (''empty'' # two_char_ops @ one_char_ops)"
| "token_ok ops t \<longleftrightarrow> True"

text \<open>Tokens are set apart by blanks.\<close>

fun show_tokens :: "'d Token list \<Rightarrow> utext" where
  "show_tokens [] = []"
| "show_tokens [t] = show_token t"
| "show_tokens (t # u # ts) = show_token t @ 32 # show_tokens (u # ts)"

definition ends :: "utext \<Rightarrow> bool" where
  "ends r \<longleftrightarrow> r = [] \<or> hd r = 32"

lemma endsE: "ends r \<Longrightarrow> (r = [] \<Longrightarrow> P) \<Longrightarrow> (\<And>r'. r = 32 # r' \<Longrightarrow> P) \<Longrightarrow> P"
  by (cases r) (auto simp: ends_def)

lemma digits_value_append:
  "digits_value acc (xs @ ys) = Option.bind (digits_value acc xs) (\<lambda>v. digits_value v ys)"
  by (induction xs arbitrary: acc) auto

lemma digits_value_show [simp]: "digits_value 0 (show_digits n) = Some (int n)"
proof (induction n rule: show_digits.induct)
  case (1 n)
  show ?case
  proof (cases "n < 10")
    case True
    then show ?thesis by (simp add: show_digits.simps [of n] is_ascii_digit_def)
  next
    case False
    have "n mod 10 \<le> 9" by (simp add: less_Suc_eq_le [symmetric])
    moreover have "10 * int (n div 10) + int (n mod 10) = int n"
      by (metis mult_div_mod_eq of_nat_add of_nat_mult of_nat_numeral)
    ultimately show ?thesis
      using False by (subst show_digits.simps) (simp add: digits_value_append is_ascii_digit_def 1)
  qed
qed

lemma show_digits_digits: "c \<in> set (show_digits n) \<Longrightarrow> is_ascii_digit c"
proof (induction n rule: show_digits.induct)
  case (1 n)
  then show ?case
    by (subst (asm) show_digits.simps) (auto simp: is_ascii_digit_def split: if_splits)
qed

lemma show_digits_ne [simp]: "show_digits n \<noteq> []"
  by (subst show_digits.simps) simp

lemma number_scan_digits:
  "(\<And>c. c \<in> set ds \<Longrightarrow> is_ascii_digit c) \<Longrightarrow> ends r \<Longrightarrow>
    number_scan False False (ds @ r) = (ds, False, False, r)"
  by (induction ds) (auto simp: number_scan.simps is_ascii_digit_def elim!: endsE)

lemma parse_i64_digits:
  "unat n < 2 ^ 63 \<Longrightarrow> parse_i64 (show_digits (unat n)) = Some n"
proof -
  assume n: "unat n < 2 ^ 63"
  obtain c cs where c: "show_digits (unat n) = c # cs" by (cases "show_digits (unat n)") simp_all
  then have "is_ascii_digit c" using show_digits_digits [of c "unat n"] by simp
  then have sgn: "c \<noteq> 45" "c \<noteq> 43" by (auto simp: is_ascii_digit_def)
  have "digits_value 0 (c # cs) = Some (int (unat n))" using digits_value_show [of "unat n"] by (simp add: c)
  moreover have "int (unat n) < 2 ^ 63" using n by (metis of_nat_less_iff of_nat_numeral of_nat_power)
  moreover have "- (2 ^ 63) \<le> int (unat n)" by (rule order_trans [of _ 0]) simp_all
  ultimately show ?thesis by (simp add: parse_i64_def c sgn)
qed

lemma string_scan_Cons:
  "rest \<noteq> [] \<Longrightarrow> d \<noteq> 92 \<Longrightarrow> d \<noteq> q \<Longrightarrow> string_scan q (d # rest) = map_option (\<lambda>(s, r). (d # s, r)) (string_scan q rest)"
  by (cases rest) auto

lemma string_scan_escape: "string_scan 34 (concat (map escape s) @ 34 # r) = Some (s, r)"
proof (induction s)
  case Nil
  then show ?case by (cases r) simp_all
next
  case (Cons c s)
  show ?case
  proof (cases "c = 34 \<or> c = 92")
    case True
    then show ?thesis using Cons by (auto simp: escape_def unescape_def)
  next
    case False
    then show ?thesis using Cons by (simp add: escape_def string_scan_Cons)
  qed
qed

lemma takeWhile_stop: "list_all P xs \<Longrightarrow> r = [] \<or> \<not> P (hd r) \<Longrightarrow> takeWhile P (xs @ r) = xs"
  by (induction xs) (auto, cases r, auto)

lemma dropWhile_stop: "list_all P xs \<Longrightarrow> r = [] \<or> \<not> P (hd r) \<Longrightarrow> dropWhile P (xs @ r) = r"
  by (induction xs) (auto, cases r, auto)

lemma next_token_word:
  assumes "ident_start ops c" "list_all (ident_char ops) cs" "ends r"
  shows "next_token ops c (cs @ r) = Ok (word_token (c # cs), r)"
proof -
  have "r = [] \<or> \<not> ident_char ops (hd r)"
    using assms(3) by (auto simp: ends_def ident_char_def is_alphanumeric_def is_alphabetic_def is_ascii_digit_def)
  moreover have "\<not> is_ascii_digit c" "c \<noteq> 46" "c \<noteq> 39" "c \<noteq> 34"
    using assms(1) by (auto simp: ident_start_def is_alphabetic_def is_ascii_digit_def split: if_splits)
  ultimately show ?thesis
    using assms by (simp add: next_token_def takeWhile_stop dropWhile_stop)
qed

lemma word_token_keyword:
  "opr \<in> {''true'', ''false'', ''null'', ''empty''} \<Longrightarrow> ends r \<Longrightarrow>
    next_token ops (hd (codes opr)) (tl (codes opr) @ r) = Ok (word_token (codes opr), r)"
  by (intro next_token_word [of ops "hd (codes opr)" "tl (codes opr)" r, THEN trans])
    (auto simp: codes_def ident_start_def ident_char_def is_alphanumeric_def is_alphabetic_def)

lemma word_token_ident: "w \<notin> fst ` set (keywords_of :: (utext \<times> 'd Token) list) \<Longrightarrow> word_token w = (TIdent w :: 'd Token)"
  by (auto simp: word_token_def split: option.split dest: map_of_SomeD intro: rev_image_eqI)

definition symbol :: "int \<Rightarrow> bool" where
  "symbol c \<longleftrightarrow> 33 \<le> c \<and> c \<noteq> 34 \<and> c \<noteq> 36 \<and> c \<noteq> 39 \<and> c < 48 \<or> 57 < c \<and> c < 65 \<or> c \<in> {91, 93, 124}"

lemma symbol_ops: "\<forall>opr \<in> set (two_char_ops @ one_char_ops). codes opr \<noteq> [] \<and> symbol (hd (codes opr))"
  by (simp add: two_char_ops_def one_char_ops_def codes_def symbol_def)

lemma symbol_next:
  assumes "symbol c" "cs = [] \<or> \<not> is_ascii_digit (hd cs)"
  shows "\<not> is_whitespace c"
    "next_token ops c cs =
      (case find_op two_char_ops (take 2 (c # cs)) of
         Some opr \<Rightarrow> Ok (TOp opr, drop 1 cs)
       | None \<Rightarrow>
           (case find_op one_char_ops [c] of
              Some opr \<Rightarrow> Ok (TOp opr, cs)
            | None \<Rightarrow> Err (Lex ''unexpected character'')))"
proof -
  have "\<not> is_ascii_digit c" "\<not> ident_start ops c" "c \<noteq> 39" "c \<noteq> 34"
    using assms(1) by (auto simp: symbol_def is_ascii_digit_def ident_start_def is_alphabetic_def)
  then show "next_token ops c cs =
      (case find_op two_char_ops (take 2 (c # cs)) of
         Some opr \<Rightarrow> Ok (TOp opr, drop 1 cs)
       | None \<Rightarrow>
           (case find_op one_char_ops [c] of
              Some opr \<Rightarrow> Ok (TOp opr, cs)
            | None \<Rightarrow> Err (Lex ''unexpected character'')))"
    using assms(2) by (auto simp: next_token_def)
  show "\<not> is_whitespace c" using assms(1) by (auto simp: symbol_def is_whitespace_def)
qed

lemma find_two_char:
  "\<forall>opr \<in> set two_char_ops. length (codes opr) = 2 \<and> \<not> is_ascii_digit (codes opr ! 1) \<and>
    find_op two_char_ops (codes opr) = Some opr"
  by (simp add: two_char_ops_def codes_def find_op_def is_ascii_digit_def)

lemma find_one_char:
  "\<forall>opr \<in> set one_char_ops. length (codes opr) = 1 \<and> find_op two_char_ops (codes opr @ [32]) = None \<and>
    find_op two_char_ops (codes opr) = None \<and> find_op one_char_ops (codes opr) = Some opr"
  by (simp add: two_char_ops_def one_char_ops_def codes_def find_op_def)

lemma next_token_op:
  assumes "opr \<in> set (two_char_ops @ one_char_ops)" "ends r"
  shows "\<exists>c cs. codes opr = c # cs \<and> \<not> is_whitespace c \<and> next_token ops c (cs @ r) = Ok (TOp opr, r)"
proof (cases "opr \<in> set two_char_ops")
  case True
  then have f: "length (codes opr) = 2" "\<not> is_ascii_digit (codes opr ! 1)" "find_op two_char_ops (codes opr) = Some opr"
    using find_two_char by auto
  then obtain c d where c: "codes opr = [c, d]" by (auto simp: numeral_2_eq_2 length_Suc_conv)
  have "symbol c" using bspec [OF symbol_ops assms(1)] c by simp
  then show ?thesis using symbol_next(1) [of c "d # r"] symbol_next(2) [of c "d # r" ops] f c by simp
next
  case False
  then have f: "length (codes opr) = 1" "find_op two_char_ops (codes opr @ [32]) = None"
      "find_op two_char_ops (codes opr) = None" "find_op one_char_ops (codes opr) = Some opr"
    using find_one_char assms(1) by auto
  then obtain c where c: "codes opr = [c]" by (auto simp: length_Suc_conv)
  have "symbol c" using bspec [OF symbol_ops assms(1)] c by simp
  from assms(2) show ?thesis
    by (rule endsE)
      (use \<open>symbol c\<close> symbol_next(1) [of c r] symbol_next(2) [of c r ops] f c in
        \<open>simp_all add: is_ascii_digit_def numeral_2_eq_2\<close>)
qed

lemma next_token_show:
  assumes "token_ok ops t" "ends r"
  shows "\<exists>c cs. show_token t = c # cs \<and> \<not> is_whitespace c \<and> next_token ops c (cs @ r) = Ok (t, r)"
proof (cases t)
  case (TLong n)
  obtain c cs where c: "show_digits (unat n) = c # cs" by (cases "show_digits (unat n)") simp_all
  have d: "is_ascii_digit c" using show_digits_digits [of c "unat n"] c by simp
  then have "\<not> is_whitespace c" by (auto simp: is_ascii_digit_def is_whitespace_def)
  moreover have "number_scan False False (c # cs @ r) = (c # cs, False, False, r)"
    using number_scan_digits [of "show_digits (unat n)" r, OF show_digits_digits [of _ "unat n"]] assms(2)
    unfolding c append_Cons by blast
  moreover have "parse_i64 (c # cs) = Some n" using parse_i64_digits [of n] assms(1) TLong by (simp add: c)
  ultimately show ?thesis using d by (simp add: TLong c next_token_def number_token_def)
next
  case (TStr s)
  then show ?thesis
    by (simp add: is_whitespace_def next_token_def is_ascii_digit_def string_scan_escape)
next
  case (TIdent w)
  then obtain c cs where "w = c # cs" using assms(1) by (cases w) (auto simp: valid_word_def)
  then show ?thesis
    using assms TIdent word_token_ident [of w] by (auto simp: valid_word_def next_token_word list_all_iff)
next
  case (TBool b)
  then show ?thesis
    using word_token_keyword [of "if b then ''true'' else ''false''" r ops] assms(2)
    by (cases b) (auto simp: codes_def word_token_def keywords_of_def is_whitespace_def)
next
  case TNull
  then show ?thesis
    using word_token_keyword [of "''null''" r ops] assms(2)
    by (auto simp: codes_def word_token_def keywords_of_def is_whitespace_def)
next
  case (TOp opr)
  show ?thesis
  proof (cases "opr = ''empty''")
    case True
    then show ?thesis
      using word_token_keyword [of "''empty''" r ops] TOp assms(2)
      by (auto simp: codes_def word_token_def keywords_of_def is_whitespace_def)
  next
    case False
    then have "opr \<in> set (two_char_ops @ one_char_ops)" using assms(1) TOp by simp
    then show ?thesis
      using next_token_op [of opr r ops] TOp assms(2) by auto
  qed
qed (use assms in simp)

lemma tokenize_show: "list_all (token_ok ops) ts \<Longrightarrow> tokenize ops (show_tokens ts) = Ok ts"
proof (induction ts rule: show_tokens.induct)
  case (2 t)
  then show ?case using next_token_show [of ops t "[]"] by (auto simp: ends_def)
next
  case (3 t u ts)
  have "is_whitespace 32" by (simp add: is_whitespace_def)
  then show ?case using 3 next_token_show [of ops t "32 # show_tokens (u # ts)"] by (auto simp: ends_def)
qed simp

section \<open>From source text to trees\<close>

lemma trim_text_unchanged:
  assumes "\<not> is_whitespace (hd s)" "\<not> is_whitespace (last s)"
  shows "trim_text s = s"
proof -
  have "dropWhile is_whitespace s = s" using assms(1) by (cases s) auto
  moreover have "dropWhile is_whitespace (rev s) = rev s" using assms(2) by (cases s rule: rev_cases) auto
  ultimately show ?thesis by (simp add: trim_text_def)
qed

lemma Expression_parse_wrapped:
  "Expression_parse ops (codes ''${'' @ body @ codes ''}'') =
    (case tokenize ops body of
       Inl e \<Rightarrow> Some (Err e)
     | Inr ts \<Rightarrow> map_option (\<lambda>r. and_then r (\<lambda>a. Ok \<lparr>ast = a, source = body\<rparr>)) (parse_full ts))"
proof -
  have "trim_text (codes ''${'' @ body @ codes ''}'') = codes ''${'' @ body @ codes ''}''"
    by (rule trim_text_unchanged) (simp_all add: codes_def is_whitespace_def)
  moreover have "strip_wrapper (codes ''${'' @ body @ codes ''}'') = Some body"
    by (simp add: strip_wrapper_def codes_def butlast_append)
  ultimately show ?thesis by (simp add: Expression_parse_def)
qed

text \<open>
  C31. Text and tree of an expression agree: the source text of a tree, its tokens written out with the
  fewest parentheses, escaped strings and decimal numbers, and wrapped as a page has it in \<open>${\<close> and
  \<open>}\<close>, goes through \<open>trim\<close>, the wrapper, the tokenizer and the parser and comes back as that tree. A
  name that is spelled like a keyword or has other characters than those of identifiers cannot be written.
\<close>

theorem el_source_roundtrip:
  assumes "ast_ok a" "list_all (token_ok ops) (unparse 0 a)"
  shows "\<exists>e. Expression_parse ops (codes ''${'' @ show_tokens (unparse 0 a) @ codes ''}'') = Some (Ok e) \<and> ast e = a"
  using assms(2) by (simp add: Expression_parse_wrapped tokenize_show parse_full_unparse [OF assms(1)])

text \<open>An instance of the parameters: no letters beyond ASCII, and integers for the floats.\<close>

definition integer_ops :: "int el_ops" where
  "integer_ops =
    \<lparr>wide_alphabetic = (\<lambda>_. False), wide_numeric = (\<lambda>_. False), f64_parse = (\<lambda>_. None),
     f64_of_i64 = sint, f64_to_i64 = word_of_int, f64_neg = uminus, f64_add = (+), f64_sub = (-),
     f64_mul = (*), f64_div = (div), f64_rem = (mod), f64_less = (<), f64_eq = (=), f64_zero = 0,
     f64_integral = (\<lambda>_. True), f64_show = (\<lambda>_. []), f64_show1 = (\<lambda>_. [])\<rparr>"

lemma keyword_names:
  "fst ` set (keywords_of :: (utext \<times> 'd Token) list) =
    set (map codes [''true'', ''false'', ''null'', ''div'', ''mod'', ''and'', ''or'', ''not'', ''eq'',
      ''ne'', ''lt'', ''gt'', ''le'', ''ge'', ''empty''])"
  by (simp add: keywords_of_def)

lemma op_level_values:
  "op_level ''||'' = 0" "op_level ''&&'' = 1" "op_level ''=='' = 2" "op_level ''<'' = 3"
  "op_level ''+'' = 4" "op_level ''*'' = 5" "op_level ''%'' = 5"
  by (simp_all add: op_level_def eval_nat_numeral)

lemmas el_source_eval = op_level_values unary_ops_def parens_def valid_word_def keyword_names
  codes_def ident_start_def ident_char_def is_alphanumeric_def is_alphabetic_def is_ascii_digit_def
  is_whitespace_def two_char_ops_def one_char_ops_def

theorem el_source_roundtrip_witness:
  "\<exists>e. Expression_parse integer_ops (codes ''${'' @ show_tokens (unparse 0
       (Binary ''*'' (Binary ''+'' (Ident (codes ''a'')) (Literal (LLong 1)))
         (Index (Ident (codes ''m'')) (Literal (LStr (codes ''x}''))))) :: int Token list) @ codes ''}'') = Some (Ok e) \<and>
     ast e = Binary ''*'' (Binary ''+'' (Ident (codes ''a'')) (Literal (LLong 1)))
         (Index (Ident (codes ''m'')) (Literal (LStr (codes ''x}''))))"
  by (rule el_source_roundtrip) (simp_all add: el_source_eval)

end
