(* ===== verification/ElEval.thy ===== *)
theory ElEval
  imports ElLexer
begin

text \<open>
  Values, coercions, evaluation and template interpolation of the expression language,
  \<open>src/crates/tomcatrs-jsp/src/el.rs\<close>.

  A \<open>BTreeMap\<close> is the list of its entries in the order of the keys. Arithmetic on \<open>i64\<close> is that of a
  release build; a panic is the error \<open>Panicked\<close>. Of the messages of errors only the fixed part is kept.
\<close>

section \<open>Ordered maps\<close>

datatype Ordering = Less | Equal | Greater

text \<open>The order of strings: that of their bytes, which for UTF-8 is the order of the code points.\<close>

fun cmp_text :: "utext \<Rightarrow> utext \<Rightarrow> Ordering" where
  "cmp_text [] [] = Equal"
| "cmp_text [] (b # bs) = Less"
| "cmp_text (a # as) [] = Greater"
| "cmp_text (a # as) (b # bs) = (if a < b then Less else if b < a then Greater else cmp_text as bs)"

fun btree_insert :: "utext \<Rightarrow> 'a \<Rightarrow> (utext \<times> 'a) list \<Rightarrow> (utext \<times> 'a) list" where
  "btree_insert k v [] = [(k, v)]"
| "btree_insert k v ((k', v') # m) =
    (case cmp_text k k' of
       Less \<Rightarrow> (k, v) # (k', v') # m
     | Equal \<Rightarrow> (k, v) # m
     | Greater \<Rightarrow> (k', v') # btree_insert k v m)"

section \<open>Values\<close>

datatype 'd ElValue =
    VNull
  | VBool bool
  | VLong i64
  | VDouble 'd
  | VString utext
  | VList "'d ElValue list"
  | VMap "(utext \<times> 'd ElValue) list"

definition ascii_lower :: "int \<Rightarrow> int" where
  "ascii_lower c = (if 65 \<le> c \<and> c \<le> 90 then c + 32 else c)"

definition same_word :: "utext \<Rightarrow> utext \<Rightarrow> bool" where
  "same_word a b \<longleftrightarrow> map ascii_lower a = map ascii_lower b"

fun is_truthy :: "'d el_ops \<Rightarrow> 'd ElValue \<Rightarrow> bool" where
  "is_truthy ops VNull = False"
| "is_truthy ops (VBool b) = b"
| "is_truthy ops (VLong n) = (n \<noteq> 0)"
| "is_truthy ops (VDouble d) = (\<not> f64_eq ops d (f64_zero ops))"
| "is_truthy ops (VString s) = (s \<noteq> [] \<and> \<not> same_word s (codes ''false''))"
| "is_truthy ops (VList v) = (v \<noteq> [])"
| "is_truthy ops (VMap m) = (m \<noteq> [])"

fun is_empty_value :: "'d ElValue \<Rightarrow> bool" where
  "is_empty_value VNull = True"
| "is_empty_value (VString s) = (s = [])"
| "is_empty_value (VList v) = (v = [])"
| "is_empty_value (VMap m) = (m = [])"
| "is_empty_value v = False"

fun coerce_to_bool :: "'d el_ops \<Rightarrow> 'd ElValue \<Rightarrow> bool" where
  "coerce_to_bool ops (VBool b) = b"
| "coerce_to_bool ops (VString s) = same_word s (codes ''true'')"
| "coerce_to_bool ops v = is_truthy ops v"

text \<open>What \<open>as_number\<close> returns, a \<open>Long\<close> or a \<open>Double\<close> and nothing else, has its own type.\<close>

datatype 'd number = NLong i64 | NDouble 'd

fun as_number :: "'d el_ops \<Rightarrow> 'd ElValue \<Rightarrow> ElError + 'd number" where
  "as_number ops VNull = Ok (NLong 0)"
| "as_number ops (VBool b) = Err (Eval ''cannot coerce boolean to number'')"
| "as_number ops (VLong n) = Ok (NLong n)"
| "as_number ops (VDouble d) = Ok (NDouble d)"
| "as_number ops (VString s) =
    (let t = trim_text s in
     if t = [] then Ok (NLong 0)
     else case parse_i64 t of
       Some i \<Rightarrow> Ok (NLong i)
     | None \<Rightarrow>
         (case f64_parse ops t of
            Some d \<Rightarrow> Ok (NDouble d)
          | None \<Rightarrow> Err (Eval ''cannot coerce string to number'')))"
| "as_number ops (VList v) = Err (Eval ''cannot coerce collection to number'')"
| "as_number ops (VMap m) = Err (Eval ''cannot coerce collection to number'')"

fun number_f64 :: "'d el_ops \<Rightarrow> 'd number \<Rightarrow> 'd" where
  "number_f64 ops (NLong i) = f64_of_i64 ops i"
| "number_f64 ops (NDouble d) = d"

fun number_i64 :: "'d el_ops \<Rightarrow> 'd number \<Rightarrow> i64" where
  "number_i64 ops (NLong i) = i"
| "number_i64 ops (NDouble d) = f64_to_i64 ops d"

definition as_f64 :: "'d el_ops \<Rightarrow> 'd ElValue \<Rightarrow> ElError + 'd" where
  "as_f64 ops v = and_then (as_number ops v) (\<lambda>n. Ok (number_f64 ops n))"

definition as_i64 :: "'d el_ops \<Rightarrow> 'd ElValue \<Rightarrow> ElError + i64" where
  "as_i64 ops v = and_then (as_number ops v) (\<lambda>n. Ok (number_i64 ops n))"

definition type_name :: "'d ElValue \<Rightarrow> string" where
  "type_name v =
    (case v of
       VNull \<Rightarrow> ''null'' | VBool _ \<Rightarrow> ''boolean'' | VLong _ \<Rightarrow> ''long'' | VDouble _ \<Rightarrow> ''double''
     | VString _ \<Rightarrow> ''string'' | VList _ \<Rightarrow> ''list'' | VMap _ \<Rightarrow> ''map'')"

definition show_i64 :: "i64 \<Rightarrow> utext" where
  "show_i64 n = (if sint n < 0 then 45 # show_digits (nat (- sint n)) else show_digits (nat (sint n)))"

fun display :: "'d el_ops \<Rightarrow> 'd ElValue \<Rightarrow> utext"
and display_items :: "'d el_ops \<Rightarrow> 'd ElValue list \<Rightarrow> utext"
and display_entries :: "'d el_ops \<Rightarrow> (utext \<times> 'd ElValue) list \<Rightarrow> utext" where
  "display ops VNull = []"
| "display ops (VBool b) = codes (if b then ''true'' else ''false'')"
| "display ops (VLong n) = show_i64 n"
| "display ops (VDouble d) = (if f64_integral ops d then f64_show1 ops d else f64_show ops d)"
| "display ops (VString s) = s"
| "display ops (VList v) = codes ''['' @ display_items ops v @ codes '']''"
| "display ops (VMap m) = codes ''{'' @ display_entries ops m @ codes ''}''"
| "display_items ops [] = []"
| "display_items ops (v # vs) = display ops v @ (if vs = [] then [] else codes '', '') @ display_items ops vs"
| "display_entries ops [] = []"
| "display_entries ops ((k, v) # m) =
    k @ codes ''='' @ display ops v @ (if m = [] then [] else codes '', '') @ display_entries ops m"

definition coerce_to_string :: "'d el_ops \<Rightarrow> 'd ElValue \<Rightarrow> utext" where
  "coerce_to_string ops v = (case v of VNull \<Rightarrow> [] | _ \<Rightarrow> display ops v)"

text \<open>\<open>PartialEq\<close>: numbers across their two types, collections item by item.\<close>

fun value_eq :: "'d el_ops \<Rightarrow> 'd ElValue \<Rightarrow> 'd ElValue \<Rightarrow> bool"
and values_eq :: "'d el_ops \<Rightarrow> 'd ElValue list \<Rightarrow> 'd ElValue list \<Rightarrow> bool"
and entries_eq :: "'d el_ops \<Rightarrow> (utext \<times> 'd ElValue) list \<Rightarrow> (utext \<times> 'd ElValue) list \<Rightarrow> bool" where
  "value_eq ops VNull w = (w = VNull)"
| "value_eq ops (VBool a) w = (w = VBool a)"
| "value_eq ops (VString a) w = (w = VString a)"
| "value_eq ops (VLong a) w =
    (case w of VLong b \<Rightarrow> a = b | VDouble y \<Rightarrow> f64_eq ops (f64_of_i64 ops a) y | _ \<Rightarrow> False)"
| "value_eq ops (VDouble x) w =
    (case w of VLong b \<Rightarrow> f64_eq ops x (f64_of_i64 ops b) | VDouble y \<Rightarrow> f64_eq ops x y | _ \<Rightarrow> False)"
| "value_eq ops (VList a) w = (case w of VList b \<Rightarrow> values_eq ops a b | _ \<Rightarrow> False)"
| "value_eq ops (VMap a) w = (case w of VMap b \<Rightarrow> entries_eq ops a b | _ \<Rightarrow> False)"
| "values_eq ops [] ws = (ws = [])"
| "values_eq ops (v # vs) ws = (case ws of w # ws' \<Rightarrow> value_eq ops v w \<and> values_eq ops vs ws' | [] \<Rightarrow> False)"
| "entries_eq ops [] ws = (ws = [])"
| "entries_eq ops ((k, v) # vs) ws =
    (case ws of (l, w) # ws' \<Rightarrow> k = l \<and> value_eq ops v w \<and> entries_eq ops vs ws' | [] \<Rightarrow> False)"

section \<open>Contexts\<close>

type_synonym 'd ElFunction = "'d ElValue list \<Rightarrow> ElError + 'd ElValue"

record 'd ElContext =
  variables :: "(utext \<times> 'd ElValue) list"
  scopes :: "(utext \<times> (utext \<times> 'd ElValue) list) list"
  host_functions :: "(utext \<times> 'd ElFunction) list"

definition new_context :: "'d ElContext" where
  "new_context = \<lparr>variables = [], scopes = [], host_functions = []\<rparr>"

definition set_variable :: "utext \<Rightarrow> 'd ElValue \<Rightarrow> 'd ElContext \<Rightarrow> 'd ElContext" where
  "set_variable name v ctx = ctx\<lparr>variables := btree_insert name v (variables ctx)\<rparr>"

definition set_scope :: "utext \<Rightarrow> (utext \<times> 'd ElValue) list \<Rightarrow> 'd ElContext \<Rightarrow> 'd ElContext" where
  "set_scope name entries ctx = ctx\<lparr>scopes := btree_insert name entries (scopes ctx)\<rparr>"

definition register_function :: "utext \<Rightarrow> 'd ElFunction \<Rightarrow> 'd ElContext \<Rightarrow> 'd ElContext" where
  "register_function name func ctx = ctx\<lparr>host_functions := btree_insert name func (host_functions ctx)\<rparr>"

fun search_scopes :: "utext \<Rightarrow> (utext \<times> (utext \<times> 'd ElValue) list) list \<Rightarrow> 'd ElValue option" where
  "search_scopes name [] = None"
| "search_scopes name ((_, scope) # rest) =
    (case map_of scope name of Some v \<Rightarrow> Some v | None \<Rightarrow> search_scopes name rest)"

definition resolve_name :: "'d ElContext \<Rightarrow> utext \<Rightarrow> 'd ElValue option" where
  "resolve_name ctx name =
    (case map_of (variables ctx) name of
       Some v \<Rightarrow> Some v
     | None \<Rightarrow>
         (case map_of (scopes ctx) name of
            Some scope \<Rightarrow> Some (VMap scope)
          | None \<Rightarrow> search_scopes name (scopes ctx)))"

section \<open>Evaluation\<close>

fun literal_value :: "'d LiteralAst \<Rightarrow> 'd ElValue" where
  "literal_value LNull = VNull"
| "literal_value (LBool b) = VBool b"
| "literal_value (LLong n) = VLong n"
| "literal_value (LDouble d) = VDouble d"
| "literal_value (LStr s) = VString s"

definition values_equal :: "'d el_ops \<Rightarrow> 'd ElValue \<Rightarrow> 'd ElValue \<Rightarrow> bool" where
  "values_equal ops l r =
    (let numeric = (\<lambda>v. case v of VLong _ \<Rightarrow> True | VDouble _ \<Rightarrow> True | _ \<Rightarrow> False);
         stringy = (\<lambda>v. case v of VString _ \<Rightarrow> True | _ \<Rightarrow> False);
         boxed = (\<lambda>n. case n of NLong i \<Rightarrow> VLong i | NDouble d \<Rightarrow> VDouble d)
     in if numeric l \<and> stringy r \<or> stringy l \<and> numeric r then
          (case (as_number ops l, as_number ops r) of
             (Inr a, Inr b) \<Rightarrow> value_eq ops (boxed a) (boxed b)
           | _ \<Rightarrow> False)
        else value_eq ops l r)"

text \<open>The remainder of two \<open>i64\<close> takes the sign of the dividend; it panics where the quotient overflows.\<close>

definition trunc_rem :: "int \<Rightarrow> int \<Rightarrow> int" where
  "trunc_rem x y = sgn x * (\<bar>x\<bar> mod \<bar>y\<bar>)"

definition i64_rem :: "i64 \<Rightarrow> i64 \<Rightarrow> ElError + i64" where
  "i64_rem a b =
    (if sint a = - (2 ^ 63) \<and> sint b = - 1 then Err (Panicked ''attempt to calculate the remainder with overflow'')
     else Ok (word_of_int (trunc_rem (sint a) (sint b))))"

definition arithmetic :: "'d el_ops \<Rightarrow> string \<Rightarrow> 'd ElValue \<Rightarrow> 'd ElValue \<Rightarrow> ElError + 'd ElValue" where
  "arithmetic ops opr l r =
    and_then (as_number ops l) (\<lambda>ln. and_then (as_number ops r) (\<lambda>rn.
      if opr = ''/'' then Ok (VDouble (f64_div ops (number_f64 ops ln) (number_f64 ops rn)))
      else
        (case (ln, rn) of
           (NLong a, NLong b) \<Rightarrow>
             if opr = ''+'' then Ok (VLong (a + b))
             else if opr = ''-'' then Ok (VLong (a - b))
             else if opr = ''*'' then Ok (VLong (a * b))
             else if b = 0 then Err (Eval ''integer modulo by zero'')
             else and_then (i64_rem a b) (\<lambda>n. Ok (VLong n))
         | _ \<Rightarrow>
             (let a = number_f64 ops ln; b = number_f64 ops rn in
              Ok (VDouble
                (if opr = ''+'' then f64_add ops a b
                 else if opr = ''-'' then f64_sub ops a b
                 else if opr = ''*'' then f64_mul ops a b
                 else f64_rem ops a b))))))"

definition compare_values :: "'d el_ops \<Rightarrow> 'd ElValue \<Rightarrow> 'd ElValue \<Rightarrow> ElError + Ordering" where
  "compare_values ops l r =
    (case (l, r) of
       (VString a, VString b) \<Rightarrow> Ok (cmp_text a b)
     | _ \<Rightarrow>
         if l = VNull \<or> r = VNull then Err (Eval ''cannot apply relational operator to null'')
         else and_then (as_f64 ops l) (\<lambda>a. and_then (as_f64 ops r) (\<lambda>b.
           if f64_less ops a b then Ok Less
           else if f64_eq ops a b then Ok Equal
           else if f64_less ops b a then Ok Greater
           else Err (Eval ''cannot order NaN values''))))"

definition get_member :: "'d el_ops \<Rightarrow> 'd ElValue \<Rightarrow> 'd ElValue \<Rightarrow> ElError + 'd ElValue" where
  "get_member ops base member =
    (case base of
       VNull \<Rightarrow> Ok VNull
     | VMap m \<Rightarrow> Ok (case map_of m (coerce_to_string ops member) of Some v \<Rightarrow> v | None \<Rightarrow> VNull)
     | VList v \<Rightarrow> and_then (as_i64 ops member) (\<lambda>idx.
         if sint idx < 0 \<or> int (length v) \<le> sint idx then Ok VNull else Ok (v ! nat (sint idx)))
     | VString s \<Rightarrow> and_then (as_i64 ops member) (\<lambda>idx.
         if sint idx < 0 then Ok VNull
         else if int (length s) \<le> sint idx then Ok VNull
         else Ok (VString [s ! nat (sint idx)]))
     | other \<Rightarrow> Err (Eval (''cannot access member of '' @ type_name other @ '' value'')))"

fun unary_value :: "'d el_ops \<Rightarrow> string \<Rightarrow> 'd ElValue \<Rightarrow> ElError + 'd ElValue" where
  "unary_value ops opr v =
    (if opr = ''-'' then
       and_then (as_number ops v) (\<lambda>n. case n of
         NLong i \<Rightarrow> Ok (VLong (- i))
       | NDouble d \<Rightarrow> Ok (VDouble (f64_neg ops d)))
     else if opr = ''!'' then Ok (VBool (\<not> is_truthy ops v))
     else if opr = ''empty'' then Ok (VBool (is_empty_value v))
     else Err (Eval ''unknown unary operator''))"

definition relation_holds :: "string \<Rightarrow> Ordering \<Rightarrow> bool" where
  "relation_holds opr ord \<longleftrightarrow>
    (if opr = ''<'' then ord = Less
     else if opr = ''>'' then ord = Greater
     else if opr = ''<='' then ord \<noteq> Greater
     else ord \<noteq> Less)"

text \<open>\<open>eval_binary\<close> after both operands: the operators that do not short-circuit.\<close>

definition binary_value :: "'d el_ops \<Rightarrow> string \<Rightarrow> 'd ElValue \<Rightarrow> 'd ElValue \<Rightarrow> ElError + 'd ElValue" where
  "binary_value ops opr l r =
    (if opr \<in> set [''+'', ''-'', ''*'', ''/'', ''%''] then arithmetic ops opr l r
     else if opr = ''=='' then Ok (VBool (values_equal ops l r))
     else if opr = ''!='' then Ok (VBool (\<not> values_equal ops l r))
     else if opr \<in> set [''<'', ''>'', ''<='', ''>=''] then
       and_then (compare_values ops l r) (\<lambda>ord. Ok (VBool (relation_holds opr ord)))
     else Err (Eval ''unknown binary operator''))"

fun eval :: "'d el_ops \<Rightarrow> 'd ElContext \<Rightarrow> 'd Ast \<Rightarrow> ElError + 'd ElValue"
and eval_args :: "'d el_ops \<Rightarrow> 'd ElContext \<Rightarrow> 'd Ast list \<Rightarrow> ElError + 'd ElValue list" where
  "eval ops ctx (Literal l) = Ok (literal_value l)"
| "eval ops ctx (Ident name) = Ok (case resolve_name ctx name of Some v \<Rightarrow> v | None \<Rightarrow> VNull)"
| "eval ops ctx (Property base name) =
    and_then (eval ops ctx base) (\<lambda>b. get_member ops b (VString name))"
| "eval ops ctx (Index base index) =
    and_then (eval ops ctx base) (\<lambda>b. and_then (eval ops ctx index) (\<lambda>i. get_member ops b i))"
| "eval ops ctx (Unary opr operand) = and_then (eval ops ctx operand) (unary_value ops opr)"
| "eval ops ctx (Binary opr left right) =
    (if opr = ''&&'' then
       and_then (eval ops ctx left) (\<lambda>l.
         if \<not> is_truthy ops l then Ok (VBool False)
         else and_then (eval ops ctx right) (\<lambda>r. Ok (VBool (is_truthy ops r))))
     else if opr = ''||'' then
       and_then (eval ops ctx left) (\<lambda>l.
         if is_truthy ops l then Ok (VBool True)
         else and_then (eval ops ctx right) (\<lambda>r. Ok (VBool (is_truthy ops r))))
     else
       and_then (eval ops ctx left) (\<lambda>l. and_then (eval ops ctx right) (\<lambda>r. binary_value ops opr l r)))"
| "eval ops ctx (Ternary cond th otherwise) =
    and_then (eval ops ctx cond) (\<lambda>c. if is_truthy ops c then eval ops ctx th else eval ops ctx otherwise)"
| "eval ops ctx (Call name args) =
    (case map_of (host_functions ctx) name of
       None \<Rightarrow> Err (Eval ''unknown function'')
     | Some func \<Rightarrow> and_then (eval_args ops ctx args) func)"
| "eval_args ops ctx [] = Ok []"
| "eval_args ops ctx (a # as) =
    and_then (eval ops ctx a) (\<lambda>v. and_then (eval_args ops ctx as) (\<lambda>vs. Ok (v # vs)))"

definition evaluate :: "'d el_ops \<Rightarrow> 'd Expression \<Rightarrow> 'd ElContext \<Rightarrow> ElError + 'd ElValue" where
  "evaluate ops e ctx = eval ops ctx (ast e)"

section \<open>Interpolation\<close>

text \<open>
  The scan for the brace that closes a fragment, with the depth of braces and the quote of the string it
  is in; \<open>None\<close> when the template ends first.
\<close>

fun fragment_scan :: "nat \<Rightarrow> int option \<Rightarrow> utext \<Rightarrow> (utext \<times> utext) option" where
  "fragment_scan depth in_str [] = None"
| "fragment_scan depth (Some q) (d # ds) =
    (if d = 92 \<and> ds \<noteq> [] then
       map_option (\<lambda>(body, rest). (d # hd ds # body, rest)) (fragment_scan depth (Some q) (tl ds))
     else if d = q then map_option (\<lambda>(body, rest). (d # body, rest)) (fragment_scan depth None ds)
     else map_option (\<lambda>(body, rest). (d # body, rest)) (fragment_scan depth (Some q) ds))"
| "fragment_scan depth None (d # ds) =
    (if d = 39 \<or> d = 34 then map_option (\<lambda>(body, rest). (d # body, rest)) (fragment_scan depth (Some d) ds)
     else if d = code CHR ''{'' then
       map_option (\<lambda>(body, rest). (d # body, rest)) (fragment_scan (depth + 1) None ds)
     else if d = code CHR ''}'' then
       (if depth = 1 then Some ([], ds)
        else map_option (\<lambda>(body, rest). (d # body, rest)) (fragment_scan (depth - 1) None ds))
     else map_option (\<lambda>(body, rest). (d # body, rest)) (fragment_scan depth None ds))"

definition fragment_text :: "'d el_ops \<Rightarrow> 'd ElContext \<Rightarrow> utext \<Rightarrow> (ElError + utext) option" where
  "fragment_text ops ctx body =
    map_option (\<lambda>r. and_then r (\<lambda>e. and_then (evaluate ops e ctx) (\<lambda>v. Ok (coerce_to_string ops v))))
      (Expression_parse ops body)"

definition append_then :: "utext \<Rightarrow> (ElError + utext) option \<Rightarrow> (ElError + utext) option" where
  "append_then s r = map_option (\<lambda>x. and_then x (\<lambda>t. Ok (s @ t))) r"

lemma fragment_scan_length: "fragment_scan depth q cs = Some (body, rest) \<Longrightarrow> length rest < length cs"
  by (induction depth q cs arbitrary: body rest rule: fragment_scan.induct)
    (fastforce split: if_splits)+

function interpolate :: "'d el_ops \<Rightarrow> 'd ElContext \<Rightarrow> utext \<Rightarrow> (ElError + utext) option" where
  "interpolate ops ctx [] = Some (Ok [])"
| "interpolate ops ctx (c # cs) =
    (if (c = code CHR ''$'' \<or> c = code CHR ''#'') \<and> cs \<noteq> [] \<and> hd cs = code CHR ''{'' then
       (case fragment_scan 1 None (tl cs) of
          None \<Rightarrow> Some (Err (Parse ''unterminated EL fragment''))
        | Some (body, rest) \<Rightarrow>
            (case fragment_text ops ctx body of
               None \<Rightarrow> None
             | Some (Inl e) \<Rightarrow> Some (Inl e)
             | Some (Inr s) \<Rightarrow> append_then s (interpolate ops ctx rest)))
     else append_then [c] (interpolate ops ctx cs))"
  by pat_completeness auto
termination
  by (relation "measure (\<lambda>(ops, ctx, cs). length cs)") (auto dest!: fragment_scan_length)

section \<open>Contexts and maps\<close>

definition text_less :: "utext \<Rightarrow> utext \<Rightarrow> bool" where
  "text_less a b \<longleftrightarrow> cmp_text a b = Less"

lemma cmp_text_Equal [simp]: "cmp_text a b = Equal \<longleftrightarrow> a = b"
  by (induction a b rule: cmp_text.induct) auto

lemma cmp_text_refl [simp]: "cmp_text a a = Equal"
  by simp

lemma cmp_text_Greater: "cmp_text a b = Greater \<longleftrightarrow> cmp_text b a = Less"
  by (induction a b rule: cmp_text.induct) auto

lemma cmp_text_Less_Cons: "cmp_text (a # as) (b # bs) = Less \<longleftrightarrow> a < b \<or> a = b \<and> cmp_text as bs = Less"
  by auto

lemma cmp_text_trans: "cmp_text a b = Less \<Longrightarrow> cmp_text b c = Less \<Longrightarrow> cmp_text a c = Less"
proof (induction a b arbitrary: c rule: cmp_text.induct)
  case (2 b bs)
  then show ?case by (cases c) simp_all
next
  case (4 a as b bs)
  then show ?case
    by (cases c) (auto simp: cmp_text_Less_Cons simp del: cmp_text.simps(4) intro: less_trans)
qed simp_all

lemma map_of_btree_insert [simp]: "map_of (btree_insert k v m) = (map_of m)(k \<mapsto> v)"
proof (induction k v m rule: btree_insert.induct)
  case (2 k v k' v' m)
  show ?case
  proof (cases "cmp_text k k'")
    case Less
    then show ?thesis by (auto simp: fun_eq_iff)
  next
    case Equal
    then show ?thesis by (auto simp: fun_eq_iff)
  next
    case Greater
    then have "k \<noteq> k'" using cmp_text_Equal [of k k'] by auto
    then show ?thesis using Greater 2 by (auto simp: fun_eq_iff)
  qed
qed simp

lemma fst_btree_insert: "fst ` set (btree_insert k v m) = insert k (fst ` set m)"
  by (induction k v m rule: btree_insert.induct) (auto split: Ordering.splits)

lemma sorted_btree_insert:
  "sorted_wrt (\<lambda>x y. text_less (fst x) (fst y)) m \<Longrightarrow>
    sorted_wrt (\<lambda>x y. text_less (fst x) (fst y)) (btree_insert k v m)"
proof (induction k v m rule: btree_insert.induct)
  case (2 k v k' v' m)
  have k: "\<And>y. y \<in> set m \<Longrightarrow> text_less k' (fst y)" using 2(2) by simp
  show ?case
  proof (cases "cmp_text k k'")
    case Less
    then show ?thesis using 2(2) k by (auto simp: text_less_def intro: cmp_text_trans)
  next
    case Equal
    then show ?thesis using 2(2) by simp
  next
    case Greater
    have "text_less k' (fst y)" if y: "y \<in> set (btree_insert k v m)" for y
    proof -
      have "fst y \<in> insert k (fst ` set m)" using y fst_btree_insert [of k v m] by blast
      then show ?thesis using Greater k by (auto simp: text_less_def cmp_text_Greater)
    qed
    then show ?thesis using Greater 2 by simp
  qed
qed simp

text \<open>A variable hides the scopes, and a name of no scope or variable is null.\<close>

lemma resolve_set_variable:
  "resolve_name (set_variable name v ctx) x = (if x = name then Some v else resolve_name ctx x)"
  by (simp add: resolve_name_def set_variable_def split: option.split)

lemma resolve_new [simp]: "resolve_name new_context name = None"
  by (simp add: resolve_name_def new_context_def)

section \<open>Panics\<close>

fun subterms :: "'d Ast \<Rightarrow> 'd Ast list" and subterms_args :: "'d Ast list \<Rightarrow> 'd Ast list" where
  "subterms (Literal l) = [Literal l]"
| "subterms (Ident n) = [Ident n]"
| "subterms (Property b n) = Property b n # subterms b"
| "subterms (Index b i) = Index b i # subterms b @ subterms i"
| "subterms (Unary opr a) = Unary opr a # subterms a"
| "subterms (Binary opr l r) = Binary opr l r # subterms l @ subterms r"
| "subterms (Ternary c a b) = Ternary c a b # subterms c @ subterms a @ subterms b"
| "subterms (Call n args) = Call n args # subterms_args args"
| "subterms_args [] = []"
| "subterms_args (a # as) = subterms a @ subterms_args as"

definition calm :: "ElError + 'a \<Rightarrow> bool" where
  "calm r \<longleftrightarrow> (\<forall>m. r \<noteq> Inl (Panicked m))"

lemma calm_simps [simp]:
  "calm (Inr x)" "calm (Inl (Eval m))" "calm (Inl (Parse m))" "calm (Inl (Lex m))" "\<not> calm (Inl (Panicked m))"
  by (simp_all add: calm_def)

lemma calm_split [simp]:
  "calm (if b then x else y) \<longleftrightarrow> (b \<longrightarrow> calm x) \<and> (\<not> b \<longrightarrow> calm y)"
  "calm (case n of NLong i \<Rightarrow> f i | NDouble d \<Rightarrow> g d) \<longleftrightarrow>
    (\<forall>i. n = NLong i \<longrightarrow> calm (f i)) \<and> (\<forall>d. n = NDouble d \<longrightarrow> calm (g d))"
  by (auto split: number.split)

lemma calm_bind: "calm r \<Longrightarrow> (\<And>x. r = Inr x \<Longrightarrow> calm (f x)) \<Longrightarrow> calm (and_then r f)"
  by (cases r) (auto simp: calm_def)

lemma calm_as_number [simp]: "calm (as_number ops v)"
  by (cases v) (auto simp: Let_def split: option.split)

lemma calm_as [simp]: "calm (as_f64 ops v)" "calm (as_i64 ops v)"
  by (auto simp: as_f64_def as_i64_def intro: calm_bind)

lemma calm_get_member: "calm (get_member ops b m)"
  by (auto simp: get_member_def intro!: calm_bind split: ElValue.split)

lemma calm_compare: "calm (compare_values ops l r)"
  by (auto simp: compare_values_def intro!: calm_bind split: ElValue.split)

lemma calm_unary: "calm (unary_value ops opr v)"
  by (auto intro!: calm_bind split: number.split)

lemma calm_binary:
  assumes "\<And>a b. opr = ''%'' \<Longrightarrow> as_number ops l = Inr (NLong a) \<Longrightarrow> as_number ops r = Inr (NLong b) \<Longrightarrow>
      \<not> (sint a = - (2 ^ 63) \<and> sint b = - 1)"
  shows "calm (binary_value ops opr l r)"
proof (cases "opr \<in> set [''+'', ''-'', ''*'', ''/'', ''%'']")
  case True
  have "calm (arithmetic ops opr l r)"
    unfolding arithmetic_def
  proof (intro calm_bind)
    fix ln rn
    assume n: "as_number ops l = Inr ln" "as_number ops r = Inr rn"
    have rem: "calm (i64_rem x y)" if "ln = NLong x" "rn = NLong y" "opr = ''%''" for x y
      using assms [of x y] that n by (simp add: i64_rem_def)
    show "calm (if opr = ''/'' then Ok (VDouble (f64_div ops (number_f64 ops ln) (number_f64 ops rn)))
      else
        (case (ln, rn) of
           (NLong a, NLong b) \<Rightarrow>
             if opr = ''+'' then Ok (VLong (a + b))
             else if opr = ''-'' then Ok (VLong (a - b))
             else if opr = ''*'' then Ok (VLong (a * b))
             else if b = 0 then Err (Eval ''integer modulo by zero'')
             else and_then (i64_rem a b) (\<lambda>n. Ok (VLong n))
         | _ \<Rightarrow>
             (let a = number_f64 ops ln; b = number_f64 ops rn in
              Ok (VDouble
                (if opr = ''+'' then f64_add ops a b
                 else if opr = ''-'' then f64_sub ops a b
                 else if opr = ''*'' then f64_mul ops a b
                 else f64_rem ops a b)))))"
    proof (cases "opr = ''%''")
      case True
      then show ?thesis using rem by (cases ln; cases rn) (simp_all add: Let_def calm_bind)
    next
      case False
      then have "opr \<in> {''+'', ''-'', ''*'', ''/''}" using \<open>opr \<in> set [''+'', ''-'', ''*'', ''/'', ''%'']\<close> by simp
      then show ?thesis by (cases ln; cases rn) (auto simp: Let_def)
    qed
  qed simp_all
  then show ?thesis using True by (simp add: binary_value_def)
next
  case False
  then show ?thesis by (simp add: binary_value_def calm_bind calm_compare)
qed

text \<open>The remainder that panics.\<close>

definition overflowing_rem :: "'d el_ops \<Rightarrow> 'd ElContext \<Rightarrow> 'd Ast \<Rightarrow> bool" where
  "overflowing_rem ops ctx a \<longleftrightarrow>
    (case a of
       Binary opr l r \<Rightarrow>
         opr = ''%'' \<and>
         (case (eval ops ctx l, eval ops ctx r) of
            (Inr lv, Inr rv) \<Rightarrow>
              (case (as_number ops lv, as_number ops rv) of
                 (Inr (NLong x), Inr (NLong y)) \<Rightarrow> sint x = - (2 ^ 63) \<and> sint y = - 1
               | _ \<Rightarrow> False)
          | _ \<Rightarrow> False)
     | _ \<Rightarrow> False)"

lemma eval_calm:
  assumes f: "\<And>name func vs. map_of (host_functions ctx) name = Some func \<Longrightarrow> calm (func vs)"
  shows "\<forall>b \<in> set (subterms a). \<not> overflowing_rem ops ctx b \<Longrightarrow> calm (eval ops ctx a)"
    and "\<forall>b \<in> set (subterms_args as). \<not> overflowing_rem ops ctx b \<Longrightarrow> calm (eval_args ops ctx as)"
proof (induction a and as rule: subterms_subterms_args.induct)
  case (6 opr l r)
  have lr: "calm (eval ops ctx l)" "calm (eval ops ctx r)" using 6 by auto
  have "calm (binary_value ops opr lv rv)" if "eval ops ctx l = Inr lv" "eval ops ctx r = Inr rv" for lv rv
    using 6(3) that by (intro calm_binary) (auto simp: overflowing_rem_def)
  then show ?case using lr by (auto intro!: calm_bind)
next
  case (8 n args)
  then show ?case using f by (auto intro!: calm_bind split: option.split)
qed (auto intro!: calm_bind calm_get_member calm_unary simp del: unary_value.simps)

section \<open>Fragments in templates\<close>

definition plain :: "int \<Rightarrow> bool" where
  "plain c \<longleftrightarrow> c \<notin> {34, 39, 123, 125}"

definition prefix_scan :: "utext \<Rightarrow> (utext \<times> utext) option \<Rightarrow> (utext \<times> utext) option" where
  "prefix_scan s = map_option (\<lambda>(body, rest). (s @ body, rest))"

lemma prefix_scan_simps [simp]:
  "prefix_scan s None = None" "prefix_scan s (Some (b, r)) = Some (s @ b, r)"
  by (auto simp: prefix_scan_def)

lemma fragment_scan_plain:
  "list_all plain s \<Longrightarrow> fragment_scan 1 None (s @ r) = prefix_scan s (fragment_scan 1 None r)"
proof (induction s)
  case (Cons c s)
  then show ?case by (cases "fragment_scan 1 None r") (auto simp: plain_def)
qed (cases "fragment_scan 1 None r", auto)

lemma fragment_scan_string:
  "fragment_scan 1 (Some 34) (concat (map escape s) @ 34 # r) = prefix_scan (concat (map escape s) @ [34]) (fragment_scan 1 None r)"
proof (induction s)
  case (Cons c s)
  then show ?case
    by (cases "fragment_scan 1 None r") (auto simp: escape_def)
qed (cases "fragment_scan 1 None r", auto)

lemma plain_words: "ident_char ops c \<Longrightarrow> plain c"
  by (auto simp: ident_char_def plain_def is_alphanumeric_def is_alphabetic_def is_ascii_digit_def)

lemma plain_ops: "\<forall>opr \<in> set (''empty'' # two_char_ops @ one_char_ops). list_all plain (codes opr) \<and> codes opr \<noteq> [] \<and>
    \<not> is_whitespace (last (codes opr)) \<and> hd (codes opr) \<notin> {35, 36}"
  by (simp add: two_char_ops_def one_char_ops_def codes_def plain_def is_whitespace_def)

lemma plain_token:
  assumes "token_ok ops t" "\<And>s. t \<noteq> TStr s"
  shows "list_all plain (show_token t)"
proof (cases t)
  case (TLong n)
  have "plain c" if "is_ascii_digit c" for c using that by (auto simp: is_ascii_digit_def plain_def)
  then show ?thesis using TLong show_digits_digits by (auto simp: list_all_iff)
next
  case (TIdent w)
  then show ?thesis using assms(1) plain_words by (auto simp: valid_word_def list_all_iff)
next
  case (TOp opr)
  then show ?thesis using assms(1) bspec [OF plain_ops, of opr] by (simp only: token_ok.simps show_token.simps)
next
  case (TBool b)
  then show ?thesis by (simp add: codes_def plain_def)
qed (use assms in \<open>simp_all add: codes_def plain_def\<close>)

lemma fragment_scan_token:
  assumes "token_ok ops t"
  shows "fragment_scan 1 None (show_token t @ r) = prefix_scan (show_token t) (fragment_scan 1 None r)"
proof (cases "\<exists>s. t = TStr s")
  case True
  then obtain s where "t = TStr s" by blast
  then show ?thesis
    using fragment_scan_string [of s r] by (cases "fragment_scan 1 None r") auto
next
  case False
  then have "list_all plain (show_token t)" using plain_token [OF assms] by blast
  then show ?thesis by (rule fragment_scan_plain)
qed

lemma fragment_scan_tokens:
  "list_all (token_ok ops) ts \<Longrightarrow>
    fragment_scan 1 None (show_tokens ts @ 125 # rest) = Some (show_tokens ts, rest)"
proof (induction ts rule: show_tokens.induct)
  case (3 t u ts)
  have "fragment_scan 1 None (32 # show_tokens (u # ts) @ 125 # rest) = Some (32 # show_tokens (u # ts), rest)"
    using 3 by simp
  then show ?case using 3(2) by (simp add: fragment_scan_token [of ops t] del: One_nat_def)
qed (simp_all add: fragment_scan_token del: One_nat_def)

lemma show_token_shape:
  assumes "token_ok ops t"
  shows "show_token t \<noteq> [] \<and> \<not> is_whitespace (hd (show_token t)) \<and> \<not> is_whitespace (last (show_token t))"
proof -
  obtain c cs where c: "show_token t = c # cs" "\<not> is_whitespace c"
    using next_token_show [OF assms, of "[]"] by (auto simp: ends_def)
  have "\<not> is_whitespace (last (show_token t))"
  proof (cases t)
    case (TLong n)
    have "is_ascii_digit (last (show_digits (unat n)))" using show_digits_digits last_in_set show_digits_ne by metis
    then show ?thesis using TLong by (auto simp: is_ascii_digit_def is_whitespace_def)
  next
    case (TIdent w)
    then show ?thesis using assms last_in_set [of w] by (auto simp: valid_word_def list_all_iff)
  next
    case (TOp opr)
    then have "opr \<in> set (''empty'' # two_char_ops @ one_char_ops)" using assms by (simp only: token_ok.simps)
    from bspec [OF plain_ops this] show ?thesis unfolding TOp show_token.simps by blast
  next
    case (TBool b)
    then show ?thesis by (simp add: codes_def is_whitespace_def)
  qed (use assms in \<open>simp_all add: codes_def is_whitespace_def\<close>)
  then show ?thesis using c by simp
qed

lemma show_tokens_shape:
  assumes "list_all (token_ok ops) ts" "ts \<noteq> []"
  shows "show_tokens ts \<noteq> [] \<and> \<not> is_whitespace (hd (show_tokens ts)) \<and> \<not> is_whitespace (last (show_tokens ts))"
  using assms
proof (induction ts rule: show_tokens.induct)
  case (3 t u ts)
  then show ?case using show_token_shape [of ops t] by auto
qed (use show_token_shape in auto)

lemma strip_wrapper_token:
  assumes "token_ok ops t" "r = [] \<or> hd r = 32"
  shows "strip_wrapper (show_token t @ r) = None"
proof -
  have "hd (show_token t) \<notin> {35, 36} \<or> (length (show_token t) \<noteq> 1 \<longrightarrow> show_token t ! 1 \<noteq> 123)"
  proof (cases "\<exists>s. t = TStr s")
    case False
    then have "list_all plain (show_token t)" using plain_token [OF assms(1)] by blast
    then show ?thesis
      using show_token_shape [OF assms(1)] by (cases "show_token t"; cases "tl (show_token t)") (auto simp: plain_def)
  qed auto
  moreover obtain c cs where "show_token t = c # cs" using show_token_shape [OF assms(1)] by (cases "show_token t") auto
  ultimately show ?thesis
    using assms(2) by (cases cs; cases r) (auto simp: strip_wrapper_def)
qed

lemma Expression_parse_bare:
  assumes "list_all (token_ok ops) ts" "ts \<noteq> []"
  shows "Expression_parse ops (show_tokens ts) =
    map_option (\<lambda>r. and_then r (\<lambda>a. Ok \<lparr>ast = a, source = show_tokens ts\<rparr>)) (parse_full ts)"
proof -
  have "trim_text (show_tokens ts) = show_tokens ts"
    using show_tokens_shape [OF assms] by (simp add: trim_text_unchanged)
  moreover have "strip_wrapper (show_tokens ts) = None"
    using assms strip_wrapper_token [of ops _ "[]"] strip_wrapper_token [of ops _ "32 # _"]
    by (cases ts rule: show_tokens.cases) auto
  ultimately show ?thesis by (simp add: Expression_parse_def tokenize_show [OF assms(1)])
qed

section \<open>Properties\<close>

text \<open>The reference for templates: text and trees in turn, and the text at the end.\<close>

fun template_source :: "(utext \<times> 'd Ast) list \<Rightarrow> utext \<Rightarrow> utext" where
  "template_source [] end_text = end_text"
| "template_source ((l, a) # ps) end_text =
    l @ codes ''${'' @ show_tokens (unparse 0 a) @ codes ''}'' @ template_source ps end_text"

fun template_text :: "'d el_ops \<Rightarrow> 'd ElContext \<Rightarrow> (utext \<times> 'd Ast) list \<Rightarrow> utext \<Rightarrow> ElError + utext" where
  "template_text ops ctx [] end_text = Ok end_text"
| "template_text ops ctx ((l, a) # ps) end_text =
    and_then (eval ops ctx a) (\<lambda>v. and_then (template_text ops ctx ps end_text) (\<lambda>t.
      Ok (l @ coerce_to_string ops v @ t)))"

text \<open>A text without the beginning of a fragment.\<close>

fun verbatim :: "utext \<Rightarrow> bool" where
  "verbatim [] = True"
| "verbatim (c # cs) = (\<not> ((c = 36 \<or> c = 35) \<and> cs \<noteq> [] \<and> hd cs = 123) \<and> verbatim cs)"

definition fragment_ok :: "'d el_ops \<Rightarrow> 'd Ast \<Rightarrow> bool" where
  "fragment_ok ops a \<longleftrightarrow> ast_ok a \<and> list_all (token_ok ops) (unparse 0 a)"

lemma append_then_simps [simp]:
  "append_then s (Some (Inr t)) = Some (Inr (s @ t))" "append_then s (Some (Inl e)) = Some (Inl e)"
  "append_then s None = None" "append_then s (append_then t r) = append_then (s @ t) r" "append_then [] r = r"
  by (cases r; auto simp: append_then_def and_then_def split: sum.splits)+

lemma interpolate_verbatim:
  "verbatim l \<Longrightarrow> r = [] \<or> hd r \<noteq> 123 \<Longrightarrow> interpolate ops ctx (l @ r) = append_then l (interpolate ops ctx r)"
proof (induction l)
  case (Cons c l)
  then have "\<not> ((c = 36 \<or> c = 35) \<and> l @ r \<noteq> [] \<and> hd (l @ r) = 123)" by (cases l) auto
  then show ?case using Cons by auto
qed simp

lemma fragment_text_tokens:
  assumes "fragment_ok ops a"
  shows "fragment_text ops ctx (show_tokens (unparse 0 a)) =
    Some (and_then (eval ops ctx a) (\<lambda>v. Ok (coerce_to_string ops v)))"
proof -
  have a: "ast_ok a" "list_all (token_ok ops) (unparse 0 a)" using assms by (simp_all add: fragment_ok_def)
  moreover have "unparse 0 a \<noteq> []" using unparse_head [OF a(1), of 0] by auto
  ultimately show ?thesis
    by (simp add: fragment_text_def Expression_parse_bare parse_full_unparse evaluate_def)
qed

lemma interpolate_fragment:
  assumes "fragment_ok ops a"
  shows "interpolate ops ctx (codes ''${'' @ show_tokens (unparse 0 a) @ codes ''}'' @ r) =
    (case eval ops ctx a of
       Inl e \<Rightarrow> Some (Inl e)
     | Inr v \<Rightarrow> append_then (coerce_to_string ops v) (interpolate ops ctx r))"
proof -
  have s: "fragment_scan 1 None (show_tokens (unparse 0 a) @ 125 # r) = Some (show_tokens (unparse 0 a), r)"
    using assms fragment_scan_tokens [of ops "unparse 0 a" r] by (simp add: fragment_ok_def)
  show ?thesis
    by (simp add: codes_def s [simplified] fragment_text_tokens [OF assms] split: sum.split)
qed

text \<open>
  C32. A template is rendered piece by piece: between the fragments its text is copied as it is, and each
  \<open>${...}\<close> is replaced by the value of its expression as text, whatever braces and quotes stand in the
  strings of that expression; the first expression that fails, in the order of the template, is the error
  of the whole. The scan for the closing brace, the tokenizer, the parser and the evaluator agree.
\<close>

theorem el_interpolate_template:
  assumes "\<And>l a. (l, a) \<in> set ps \<Longrightarrow> verbatim l \<and> fragment_ok ops a" "verbatim end_text"
  shows "interpolate ops ctx (template_source ps end_text) = Some (template_text ops ctx ps end_text)"
  using assms(1)
proof (induction ps)
  case Nil
  then show ?case using interpolate_verbatim [of end_text "[]" ops ctx] assms(2) by simp
next
  case (Cons p ps)
  obtain l a where p: "p = (l, a)" by (cases p)
  have la: "verbatim l" "fragment_ok ops a" using Cons.prems [of l a] p by auto
  have ih: "interpolate ops ctx (template_source ps end_text) = Some (template_text ops ctx ps end_text)"
    using Cons by auto
  let ?r = "codes ''${'' @ show_tokens (unparse 0 a) @ codes ''}'' @ template_source ps end_text"
  have "interpolate ops ctx (l @ ?r) = append_then l (interpolate ops ctx ?r)"
    using la(1) by (rule interpolate_verbatim) (simp add: codes_def)
  then show ?case
    by (cases "eval ops ctx a"; cases "template_text ops ctx ps end_text")
      (simp_all add: p interpolate_fragment [OF la(2)] ih)
qed

theorem el_interpolate_template_witness:
  "interpolate integer_ops (set_variable (codes ''user'') (VString (codes ''Bob'')) new_context)
     (template_source
       [(codes ''Hi $'', Ident (codes ''user'')), (codes '', #'', Binary ''+'' (Literal (LLong 2)) (Literal (LStr (codes ''3''))) :: int Ast)]
       (codes ''!'')) =
   Some (Ok (codes ''Hi $Bob, #5!''))"
proof -
  let ?ctx = "set_variable (codes ''user'') (VString (codes ''Bob'')) new_context :: int ElContext"
  let ?ps = "[(codes ''Hi $'', Ident (codes ''user'')), (codes '', #'', Binary ''+'' (Literal (LLong 2)) (Literal (LStr (codes ''3''))))]
    :: (utext \<times> int Ast) list"
  have "interpolate integer_ops ?ctx (template_source ?ps (codes ''!'')) = Some (template_text integer_ops ?ctx ?ps (codes ''!''))"
    by (rule el_interpolate_template) (auto simp: fragment_ok_def el_source_eval)
  also have "template_text integer_ops ?ctx ?ps (codes ''!'') = Ok (codes ''Hi $Bob, #5!'')"
    by (simp add: codes_def resolve_set_variable binary_value_def arithmetic_def trim_text_def is_whitespace_def
        parse_i64_def is_ascii_digit_def coerce_to_string_def show_i64_def show_digits.simps)
  finally show ?thesis .
qed

text \<open>
  Evaluation never takes the thread down but in one case: an expression whose host functions do not
  panic makes \<open>eval\<close> panic only if it contains a remainder whose dividend is the least \<open>i64\<close> and whose
  divisor is minus one. Every other failure is an error value.
\<close>

lemma el_only_panic:
  assumes "\<And>name func vs m. map_of (host_functions ctx) name = Some func \<Longrightarrow> func vs \<noteq> Inl (Panicked m)"
    and "eval ops ctx a = Inl (Panicked m)"
  shows "\<exists>b \<in> set (subterms a). overflowing_rem ops ctx b"
  using eval_calm(1) [of ctx a ops] assms by (auto simp: calm_def)

lemma el_only_panic_witness:
  "\<exists>b \<in> set (subterms (Binary ''%''
       (Binary ''-'' (Unary ''-'' (Literal (LLong 9223372036854775807))) (Literal (LLong 1)))
       (Unary ''-'' (Literal (LLong 1))))). overflowing_rem integer_ops new_context b"
  by (rule el_only_panic [where m = "''attempt to calculate the remainder with overflow''"])
    (simp_all add: new_context_def binary_value_def arithmetic_def i64_rem_def)

end
