(* ===== verification/HttpDate.thy ===== *)
theory HttpDate
  imports Calendar
begin

text \<open>
  The dates of the default servlet, \<open>http_date\<close> and \<open>parse_http_date\<close> of
  \<open>src/crates/tomcatrs-catalina/src/default_servlet.rs\<close>, and the number parsers of the standard library
  they and the servlet use. The formatter is the one of the cookies, for timestamps that are not negative;
  the parser is its inverse. Arithmetic on \<open>i64\<close> wraps, as it does in a release build: the fields
  of a date that a client sends are not checked.
\<close>

section \<open>Numbers and fields\<close>

definition wrap64 :: "int \<Rightarrow> int" where
  "wrap64 x = sint (word_of_int x :: 64 word)"

text \<open>Division of \<open>i64\<close> rounds towards zero.\<close>

definition tdiv :: "int \<Rightarrow> int \<Rightarrow> int" where
  "tdiv x y = sgn x * sgn y * (\<bar>x\<bar> div \<bar>y\<bar>)"

fun digits_int :: "int \<Rightarrow> string \<Rightarrow> int option" where
  "digits_int acc [] = Some acc"
| "digits_int acc (c # s) =
    (case digit_value c of None \<Rightarrow> None | Some d \<Rightarrow> digits_int (10 * acc + int d) s)"

definition parse_int64 :: "string \<Rightarrow> int option" where
  "parse_int64 s =
    (let (neg, digits) =
       (case s of
          c # r \<Rightarrow> if c = CHR ''-'' then (True, r) else if c = CHR ''+'' then (False, r) else (False, s)
        | [] \<Rightarrow> (False, []))
     in if digits = [] then None
        else case digits_int 0 digits of
          None \<Rightarrow> None
        | Some v \<Rightarrow>
            let n = if neg then - v else v
            in if - (2 ^ 63) \<le> n \<and> n < 2 ^ 63 then Some n else None)"

text \<open>\<open>split_whitespace\<close>: the maximal runs without white space.\<close>

fun ws_token :: "bytes \<Rightarrow> bytes \<times> bytes" where
  "ws_token [] = ([], [])"
| "ws_token (b # bs) =
    (if ws_front (b # bs) \<noteq> 0 then ([], b # bs)
     else (let (t, r) = ws_token bs in (b # t, r)))"

lemma ws_token_length: "length (snd (ws_token bs)) \<le> length bs"
  by (induction bs) (auto simp: split_beta)

lemma trim_start_length: "length (trim_start_bytes bs) \<le> length bs"
proof (induction bs rule: trim_start_bytes.induct)
  case (1 bs)
  then show ?case by (subst trim_start_bytes.simps) fastforce
qed

lemma trim_start_front: "trim_start_bytes bs = [] \<or> ws_front (trim_start_bytes bs) = 0"
proof (induction bs rule: trim_start_bytes.induct)
  case (1 bs)
  then show ?case by (metis trim_start_bytes.simps)
qed

function split_ws_bytes :: "bytes \<Rightarrow> bytes list" where
  "split_ws_bytes bs =
    (let s = trim_start_bytes bs in
     if s = [] then [] else fst (ws_token s) # split_ws_bytes (snd (ws_token s)))"
  by pat_completeness auto
termination
proof (relation "measure length")
  fix bs s :: bytes
  assume s: "s = trim_start_bytes bs" "s \<noteq> []"
  then obtain b r where b: "s = b # r" by (metis neq_Nil_conv)
  then have "ws_front (b # r) = 0" using trim_start_front [of bs] s by auto
  then have "length (snd (ws_token s)) \<le> length r" using b ws_token_length [of r] by (simp add: split_beta)
  then show "(snd (ws_token s), bs) \<in> measure length" using b s trim_start_length [of bs] by simp
qed simp

declare split_ws_bytes.simps [simp del]

definition split_whitespace :: "string \<Rightarrow> string list" where
  "split_whitespace s = map of_bytes (split_ws_bytes (as_bytes s))"

text \<open>\<open>split_once\<close> at a string.\<close>

fun split_once_str :: "string \<Rightarrow> string \<Rightarrow> (string \<times> string) option" where
  "split_once_str p [] = (if p = [] then Some ([], []) else None)"
| "split_once_str p (c # s) =
    (if starts_with p (c # s) then Some ([], drop (length p) (c # s))
     else map_option (\<lambda>(a, b). (c # a, b)) (split_once_str p s))"

section \<open>Dates\<close>

text \<open>The day count of the code is not negative, so its divisions are those of \<open>int\<close>.\<close>

definition http_date :: "int \<Rightarrow> string" where
  "http_date secs =
    (let days = secs div 86400;
         rem = secs mod 86400;
         hour = rem div 3600;
         minute = rem mod 3600 div 60;
         second = rem mod 60;
         dow = (days mod 7 + 4) mod 7;
         z = days + 719468;
         era = (if 0 \<le> z then z else z - 146096) div 146097;
         doe = z - era * 146097;
         yoe = (doe - doe div 1460 + doe div 36524 - doe div 146096) div 365;
         year = yoe + era * 400;
         doy = doe - (365 * yoe + yoe div 4 - yoe div 100);
         mp = (5 * doy + 2) div 153;
         day = doy - (153 * mp + 2) div 5 + 1;
         month = (if mp < 10 then mp + 3 else mp - 9);
         year = (if month \<le> 2 then year + 1 else year)
     in [''Sun'', ''Mon'', ''Tue'', ''Wed'', ''Thu'', ''Fri'', ''Sat''] ! nat dow @ '', '' @ zero_padded 2 day @ '' '' @
        [''Jan'', ''Feb'', ''Mar'', ''Apr'', ''May'', ''Jun'',
         ''Jul'', ''Aug'', ''Sep'', ''Oct'', ''Nov'', ''Dec''] ! nat (month - 1) @ '' '' @
        zero_padded 4 year @ '' '' @ zero_padded 2 hour @ '':'' @ zero_padded 2 minute @ '':'' @
        zero_padded 2 second @ '' GMT'')"

definition month_index :: "string \<Rightarrow> int option" where
  "month_index name =
    map_of [(''Jan'', 1), (''Feb'', 2), (''Mar'', 3), (''Apr'', 4), (''May'', 5), (''Jun'', 6),
      (''Jul'', 7), (''Aug'', 8), (''Sep'', 9), (''Oct'', 10), (''Nov'', 11), (''Dec'', 12)] name"

text \<open>The last part of \<open>parse_http_date\<close>: the timestamp of a date and a time.\<close>

definition seconds_of_civil :: "int \<Rightarrow> int \<Rightarrow> int \<Rightarrow> int \<Rightarrow> int \<Rightarrow> int \<Rightarrow> int" where
  "seconds_of_civil year month day hour minute second =
    (let y = wrap64 (if month \<le> 2 then year - 1 else year);
         era = tdiv (if 0 \<le> y then y else wrap64 (y - 399)) 400;
         yoe = wrap64 (y - era * 400);
         mp = (if month > 2 then month - 3 else month + 9);
         doy = wrap64 ((153 * mp + 2) div 5 + day - 1);
         doe = wrap64 (yoe * 365 + tdiv yoe 4 - tdiv yoe 100 + doy);
         days = wrap64 (era * 146097 + doe - 719468)
     in wrap64 (days * 86400 + hour * 3600 + minute * 60 + second))"

definition parse_http_date :: "string \<Rightarrow> int option" where
  "parse_http_date val =
    (let v = trim val;
         v = (case split_once_str '', '' v of Some (_, rest) \<Rightarrow> rest | None \<Rightarrow> v)
     in case split_whitespace v of
          day_s # month_s # year_s # time # _ \<Rightarrow>
            (case (parse_int64 day_s, month_index month_s, parse_int64 year_s) of
               (Some day, Some month, Some year) \<Rightarrow>
                 (case split_on CHR '':'' time of
                    hour_s # minute_s # second_s # _ \<Rightarrow>
                      (case (parse_int64 hour_s, parse_int64 minute_s, parse_int64 second_s) of
                         (Some hour, Some minute, Some second) \<Rightarrow>
                           (let total = seconds_of_civil year month day hour minute second
                            in if total < 0 then None else Some total)
                       | _ \<Rightarrow> None)
                  | _ \<Rightarrow> None)
             | _ \<Rightarrow> None)
        | _ \<Rightarrow> None)"

section \<open>Lemmas\<close>

text \<open>The formatter is the one of the cookies.\<close>

lemma http_date_imf:
  assumes "0 \<le> secs"
  shows "http_date secs = format_imf_fixdate secs"
proof -
  have "0 \<le> secs div 86400 + 719468" using assms by (simp add: pos_imp_zdiv_nonneg_iff)
  then have z: "(0 \<le> secs div 86400 + 719468) = True" by simp
  have doe: "secs div 86400 + 719468 - (secs div 86400 + 719468) div 146097 * 146097 =
      (secs div 86400 + 719468) mod 146097"
    by (rule minus_div_mult_eq_mod)
  show ?thesis
    unfolding http_date_def format_imf_fixdate_def print_fixdate_def broken_down_def civil_from_days_def
      civil_of_doy_def civil_year_def WEEKDAYS_def MONTHS_def Let_def z if_True doe prod.case
    by (rule refl)
qed

lemma wrap64_id: "- (2 ^ 63) \<le> x \<Longrightarrow> x < 2 ^ 63 \<Longrightarrow> wrap64 x = x"
  by (simp add: wrap64_def int_word_sint mod_pos_pos_trivial)

lemma tdiv_nonneg: "0 \<le> x \<Longrightarrow> 0 < y \<Longrightarrow> tdiv x y = x div y"
  by (cases "x = 0") (simp_all add: tdiv_def)

lemma digits_int_append: "digits_int acc (s @ t) = Option.bind (digits_int acc s) (\<lambda>v. digits_int v t)"
  by (induction s arbitrary: acc) (auto split: option.split)

lemma digit_value_char [simp]: "d < 10 \<Longrightarrow> digit_value (digit_char d) = Some d"
  by (simp add: digit_value_def digit_char_def of_char_of)

lemma digits_int_dec [simp]: "digits_int 0 (dec_str n) = Some (int n)"
proof (induction n rule: dec_str.induct)
  case (1 n)
  show ?case
  proof (cases "n < 10")
    case True
    then show ?thesis by (subst dec_str.simps) simp
  next
    case False
    have "10 * int (n div 10) + int (n mod 10) = int n"
      by (metis mult_div_mod_eq of_nat_add of_nat_mult of_nat_numeral)
    then show ?thesis using False 1 by (subst dec_str.simps) (simp add: digits_int_append)
  qed
qed

lemma digits_int_zeros: "digits_int 0 (replicate k CHR ''0'' @ s) = digits_int 0 s"
  by (induction k) (simp_all add: digit_value_def)

text \<open>The timestamp of a civil date is found again.\<close>

lemma civil_split:
  obtains era k doy where "0 \<le> k" "k \<le> 399" "0 \<le> doy" "doy < year_days k"
    and "days + 719468 = 146097 * era + (year_start k + doy)"
    and "civil_from_days days = civil_of_doy (k + era * 400) doy"
proof -
  define era where "era = (days + 719468) div 146097"
  have "0 \<le> (days + 719468) mod 146097" "(days + 719468) mod 146097 < 146097" by simp_all
  from year_found [OF this] obtain k doy where k: "0 \<le> k" "k \<le> 399" "0 \<le> doy" "doy < year_days k"
    and doe: "(days + 719468) mod 146097 = year_start k + doy" by auto
  have "days + 719468 = 146097 * era + (year_start k + doy)"
    unfolding era_def doe [symmetric] by simp
  then show thesis using that [OF k _ civil_from_days_at [OF _ k]] by blast
qed

lemma doy_inverse:
  assumes "civil_of_doy y0 doy = (y, m, d)" "0 \<le> doy" "doy \<le> 365"
  shows "(if m \<le> 2 then y - 1 else y) = y0"
    and "(153 * (if m > 2 then m - 3 else m + 9) + 2) div 5 + d - 1 = doy"
    and "1 \<le> m" "m \<le> 12"
proof -
  define mp where "mp = (5 * doy + 2) div 153"
  have "0 \<le> mp \<and> mp < 12" unfolding mp_def by (rule div_bounds) (use assms in auto)
  moreover have "m = (if mp < 10 then mp + 3 else mp - 9)" "d = doy - (153 * mp + 2) div 5 + 1"
      "y = (if m \<le> 2 then y0 + 1 else y0)"
    using assms(1) by (auto simp: civil_of_doy_def Let_def mp_def)
  ultimately show "(if m \<le> 2 then y - 1 else y) = y0" "1 \<le> m" "m \<le> 12"
      "(153 * (if m > 2 then m - 3 else m + 9) + 2) div 5 + d - 1 = doy"
    by (auto split: if_splits)
qed

lemma seconds_of_broken_down:
  assumes "0 \<le> t" "t < 2 ^ 63" "broken_down t = (dow, (y, m, d), (h, mi, s))"
  shows "seconds_of_civil y m d h mi s = t"
proof -
  define days where "days = t div 86400"
  obtain era k doy where k: "0 \<le> k" "k \<le> 399" "0 \<le> doy" "doy < year_days k"
    and days: "days + 719468 = 146097 * era + (year_start k + doy)"
    and civil: "civil_from_days days = civil_of_doy (k + era * 400) doy"
    by (rule civil_split)
  have doy: "doy \<le> 365" using k(4) by (simp add: year_days_def split: if_splits)
  have c: "civil_of_doy (k + era * 400) doy = (y, m, d)"
    using civil assms(3) by (simp add: broken_down_def Let_def days_def)
  note inv = doy_inverse [OF c k(3) doy]
  define q where "q = t mod 86400"
  have f: "h = q div 3600" "mi = q mod 3600 div 60" "s = q mod 60"
    using assms(3) by (simp_all add: broken_down_def Let_def q_def)
  have "s = q mod 3600 mod 60" unfolding f by (simp add: mod_mod_cancel)
  then have "q mod 3600 = mi * 60 + s" unfolding f(2) by (metis div_mult_mod_eq)
  then have hms: "h * 3600 + mi * 60 + s = t mod 86400"
    unfolding f(1) q_def [symmetric] by (metis add.assoc div_mult_mod_eq)
  have ys: "0 \<le> year_start k" "year_start k \<le> 365 * 399 + 99"
    using k unfolding year_start_def by linarith+
  have d: "0 \<le> days" "days < 140737488355328"
    using div_bounds [of 86400 t 140737488355328] assms(1,2) by (simp_all add: days_def)
  then have era: "0 \<le> era" "era < 1000000000" using days ys k(3) doy by linarith+
  have y: "wrap64 (if m \<le> 2 then y - 1 else y) = k + era * 400"
    unfolding inv(1) by (rule wrap64_id; use k era in simp)
  have e: "tdiv (if 0 \<le> k + era * 400 then k + era * 400 else wrap64 (k + era * 400 - 399)) 400 = era"
  proof -
    have "(k + era * 400) div 400 = era" by (rule int_div_pos_eq [where r = k]) (use k in auto)
    then show ?thesis using k era by (simp add: tdiv_nonneg)
  qed
  have yoe: "wrap64 (k + era * 400 - era * 400) = k" using k by (simp add: wrap64_id)
  have doy': "wrap64 ((153 * (if m > 2 then m - 3 else m + 9) + 2) div 5 + d - 1) = doy"
    unfolding inv(2) by (rule wrap64_id; use k doy in simp)
  have doe: "wrap64 (k * 365 + tdiv k 4 - tdiv k 100 + doy) = year_start k + doy"
    by (subst wrap64_id) (use k doy ys in \<open>simp_all add: tdiv_nonneg year_start_def algebra_simps\<close>)
  have ds: "wrap64 (era * 146097 + (year_start k + doy) - 719468) = days"
    using days d by (subst wrap64_id) (simp_all add: algebra_simps)
  have "wrap64 (days * 86400 + h * 3600 + mi * 60 + s) = t"
  proof -
    have "days * 86400 + h * 3600 + mi * 60 + s = t"
      using hms unfolding days_def by (metis add.assoc div_mult_mod_eq)
    then show ?thesis using assms(1,2) by (simp add: wrap64_id)
  qed
  then show ?thesis
    unfolding seconds_of_civil_def Let_def y e yoe doy' doe ds .
qed

section \<open>Printed dates are read back\<close>

lemma digits_visible:
  assumes "digit_value c \<noteq> None"
  shows "visible (byte_of c)" "c \<notin> {CHR ''-'', CHR ''+'', CHR '':'', CHR '',''}"
proof -
  have "48 \<le> (of_char c :: nat) \<and> (of_char c :: nat) \<le> 57"
    using assms by (simp add: digit_value_def Let_def split: if_splits)
  then show "visible (byte_of c)" "c \<notin> {CHR ''-'', CHR ''+'', CHR '':'', CHR '',''}"
    by (auto simp: visible_def word_le_nat_alt word_less_nat_alt unat_byte_of)
qed

lemma dec_str_digits: "c \<in> set (dec_str n) \<Longrightarrow> digit_value c \<noteq> None"
proof (induction n rule: dec_str.induct)
  case (1 n)
  show ?case
  proof (cases "n < 10")
    case True
    then have "dec_str n = [digit_char n]" by (subst dec_str.simps) simp
    then show ?thesis using 1(2) True by simp
  next
    case False
    then have "dec_str n = dec_str (n div 10) @ [digit_char (n mod 10)]" by (subst dec_str.simps) simp
    then show ?thesis using 1 False by auto
  qed
qed

lemma dec_str_ne [simp]: "dec_str n \<noteq> []"
  by (subst dec_str.simps) simp

lemma parse_int64_digits:
  assumes "s \<noteq> []" "\<And>c. c \<in> set s \<Longrightarrow> digit_value c \<noteq> None" "digits_int 0 s = Some n" "0 \<le> n" "n < 2 ^ 63"
  shows "parse_int64 s = Some n"
proof -
  obtain c r where c: "s = c # r" using assms(1) by (cases s) auto
  have "c \<noteq> CHR ''-''" "c \<noteq> CHR ''+''" using digits_visible(2) [of c] assms(2) [of c] c by auto
  moreover have "- (2 ^ 63) \<le> n" by (rule order_trans [OF _ assms(4)]) simp
  ultimately show ?thesis using assms(3,5) c by (simp add: parse_int64_def)
qed

lemma zero_padded_nonneg: "0 \<le> n \<Longrightarrow> zero_padded w n = replicate (w - length (dec_str (nat n))) CHR ''0'' @ dec_str (nat n)"
  by (simp add: zero_padded_def Let_def)

lemma zero_padded_digits: "0 \<le> n \<Longrightarrow> c \<in> set (zero_padded w n) \<Longrightarrow> digit_value c \<noteq> None"
  using dec_str_digits by (auto simp: zero_padded_nonneg digit_value_def)

lemma parse_zero_padded: "0 \<le> n \<Longrightarrow> n < 2 ^ 63 \<Longrightarrow> parse_int64 (zero_padded w n) = Some n"
  using zero_padded_digits by (intro parse_int64_digits) (auto simp: zero_padded_nonneg digits_int_zeros)

definition visible_str :: "string \<Rightarrow> bool" where
  "visible_str s \<longleftrightarrow> s \<noteq> [] \<and> (\<forall>c \<in> set s. visible (byte_of c))"

lemma visible_zero_padded: "0 \<le> n \<Longrightarrow> visible_str (zero_padded w n)"
  using zero_padded_digits digits_visible(1) by (auto simp: visible_str_def zero_padded_nonneg)

lemma ws_token_visible:
  "(\<forall>b \<in> set t. visible b) \<Longrightarrow> r = [] \<or> ws_front r \<noteq> 0 \<Longrightarrow> ws_token (t @ r) = (t, r)"
  by (induction t) (auto simp: ws_front_visible, cases r, auto)

lemma ws_front_blank [simp]: "ws_front (0x20 # r) = 1"
  by (simp add: ws_front_def whitespace_def)

lemma trim_start_blank: "trim_start_bytes (0x20 # r) = trim_start_bytes r"
  by (subst trim_start_bytes.simps) simp

lemma split_ws_blank: "split_ws_bytes (0x20 # r) = split_ws_bytes r"
  by (subst (1 2) split_ws_bytes.simps) (simp add: trim_start_blank)

lemma trim_start_visible: "visible b \<Longrightarrow> trim_start_bytes (b # bs) = b # bs"
  by (subst trim_start_bytes.simps) (simp add: ws_front_visible)

lemma split_ws_token:
  assumes "t \<noteq> []" "\<forall>b \<in> set t. visible b" "r = [] \<or> ws_front r \<noteq> 0"
  shows "split_ws_bytes (t @ r) = t # split_ws_bytes r"
proof -
  have "trim_start_bytes (t @ r) = t @ r"
    using assms(1,2) by (cases t) (auto simp: trim_start_visible)
  then show ?thesis
    using assms(1) ws_token_visible [OF assms(2,3)] by (subst split_ws_bytes.simps) simp
qed

lemma byte_of_blank [simp]: "byte_of CHR '' '' = 0x20"
  by (simp add: byte_of_def)

lemma split_whitespace_token:
  assumes "visible_str t"
  shows "split_whitespace (t @ CHR '' '' # s) = t # split_whitespace s" "split_whitespace t = [t]"
proof -
  have t: "as_bytes t \<noteq> []" "\<forall>b \<in> set (as_bytes t). visible b"
    using assms by (auto simp: visible_str_def as_bytes_def)
  have b: "as_bytes (t @ CHR '' '' # s) = as_bytes t @ 0x20 # as_bytes s" by (simp add: as_bytes_def)
  show "split_whitespace (t @ CHR '' '' # s) = t # split_whitespace s"
    unfolding split_whitespace_def b by (subst split_ws_token [OF t]) (simp_all add: split_ws_blank)
  have "split_ws_bytes [] = []" by (simp add: split_ws_bytes.simps trim_start_bytes.simps)
  then show "split_whitespace t = [t]"
    using split_ws_token [OF t, of "[]"] by (simp add: split_whitespace_def)
qed

lemma trim_ends:
  assumes "s \<noteq> []" "visible (byte_of (hd s))" "visible (byte_of (last s))"
  shows "trim s = s"
proof -
  obtain c t where c: "s = c # t" using assms(1) by (cases s) auto
  obtain u d where d: "s = u @ [d]" using assms(1) by (cases s rule: rev_cases) auto
  have "trim_start_bytes (as_bytes s) = as_bytes s"
    using assms(2) trim_start_visible by (simp add: c as_bytes_def)
  moreover have "trim_end_bytes (as_bytes s) = as_bytes s"
    using assms(3) ws_back_visible [of "byte_of d"]
    by (subst trim_end_bytes.simps) (simp add: d as_bytes_def)
  ultimately show ?thesis by (simp add: trim_def)
qed

lemma weekday_prefix:
  assumes "0 \<le> dow" "dow < 7"
  shows "split_once_str '', '' (WEEKDAYS ! nat dow @ '', '' @ s) = Some (WEEKDAYS ! nat dow, s)"
    and "visible (byte_of (hd (WEEKDAYS ! nat dow @ '', '' @ s)))"
proof -
  have "dow \<in> {0, 1, 2, 3, 4, 5, 6}" using assms by auto
  then have "split_once_str '', '' (WEEKDAYS ! nat dow @ '', '' @ s) = Some (WEEKDAYS ! nat dow, s) \<and>
      visible (byte_of (hd (WEEKDAYS ! nat dow @ '', '' @ s)))"
    by (elim insertE) (simp_all add: WEEKDAYS_def starts_with_def visible_def byte_of_def)
  then show "split_once_str '', '' (WEEKDAYS ! nat dow @ '', '' @ s) = Some (WEEKDAYS ! nat dow, s)"
      "visible (byte_of (hd (WEEKDAYS ! nat dow @ '', '' @ s)))" by simp_all
qed

lemma month_names:
  assumes "1 \<le> m" "m \<le> 12"
  shows "month_index (MONTHS ! nat (m - 1)) = Some m" "visible_str (MONTHS ! nat (m - 1))"
proof -
  have "m \<in> {1, 2, 3, 4, 5, 6, 7, 8, 9, 10, 11, 12}" using assms by (simp; presburger)
  then have "month_index (MONTHS ! nat (m - 1)) = Some m \<and> visible_str (MONTHS ! nat (m - 1))"
    by (elim insertE) (simp_all add: MONTHS_def month_index_def visible_str_def visible_def byte_of_def)
  then show "month_index (MONTHS ! nat (m - 1)) = Some m" "visible_str (MONTHS ! nat (m - 1))" by simp_all
qed

lemma parse_print_fixdate:
  assumes "on_calendar (dow, (y, m, d), (h, mi, s))" "0 \<le> y" "y < 2 ^ 63" "0 \<le> seconds_of_civil y m d h mi s"
  shows "parse_http_date (print_fixdate (dow, (y, m, d), (h, mi, s))) = Some (seconds_of_civil y m d h mi s)"
proof -
  let ?z = zero_padded
  have b: "0 \<le> dow" "dow < 7" "1 \<le> m" "m \<le> 12" "0 \<le> d" "d < 2 ^ 63" "0 \<le> h" "h < 2 ^ 63" "0 \<le> mi" "mi < 2 ^ 63"
      "0 \<le> s" "s < 2 ^ 63"
    using assms(1) by (auto simp: on_calendar_def month_length_def split: if_splits)
  define time where "time = ?z 2 h @ '':'' @ ?z 2 mi @ '':'' @ ?z 2 s"
  define rest where "rest = ?z 2 d @ '' '' @ MONTHS ! nat (m - 1) @ '' '' @ ?z 4 y @ '' '' @ time @ '' GMT''"
  have p: "print_fixdate (dow, (y, m, d), (h, mi, s)) = WEEKDAYS ! nat dow @ '', '' @ rest"
    by (simp add: print_fixdate_def rest_def time_def)
  have "visible (byte_of CHR ''T'')" by (simp add: visible_def byte_of_def)
  then have t: "trim (WEEKDAYS ! nat dow @ '', '' @ rest) = WEEKDAYS ! nat dow @ '', '' @ rest"
    using weekday_prefix(2) [OF b(1,2)] by (intro trim_ends) (simp_all add: rest_def)
  have vis: "visible_str time"
    using visible_zero_padded b unfolding time_def visible_str_def by (auto simp: visible_def byte_of_def)
  have "split_whitespace rest = [?z 2 d, MONTHS ! nat (m - 1), ?z 4 y, time, ''GMT'']"
  proof -
    have "visible_str ''GMT''" by (simp add: visible_str_def visible_def byte_of_def)
    then show ?thesis
      using visible_zero_padded [OF b(5)] month_names(2) [OF b(3,4)] visible_zero_padded [OF assms(2)] vis
      by (simp add: rest_def split_whitespace_token)
  qed
  moreover have "split_on CHR '':'' time = [?z 2 h, ?z 2 mi, ?z 2 s]"
  proof -
    have "CHR '':'' \<notin> set (?z 2 x)" if "0 \<le> x" for x
      using zero_padded_digits [OF that] digits_visible(2) by blast
    then show ?thesis using b by (simp add: time_def split_on_append)
  qed
  ultimately show ?thesis
    using assms(2-4) b month_names(1) [OF b(3,4)]
    unfolding p parse_http_date_def Let_def t weekday_prefix(1) [OF b(1,2)]
    by (simp add: parse_zero_padded)
qed

lemma parse_http_date_http_date:
  assumes "0 \<le> t" "t < 2 ^ 63"
  shows "parse_http_date (http_date t) = Some t"
proof -
  obtain dow y m d h mi s where t: "broken_down t = (dow, (y, m, d), (h, mi, s))" by (cases "broken_down t") auto
  obtain era k doy where k: "0 \<le> k" "k \<le> 399" "0 \<le> doy" "doy < year_days k"
    and days: "t div 86400 + 719468 = 146097 * era + (year_start k + doy)"
    and civil: "civil_from_days (t div 86400) = civil_of_doy (k + era * 400) doy"
    by (rule civil_split)
  have doy: "doy \<le> 365" using k(4) by (simp add: year_days_def split: if_splits)
  have "civil_of_doy (k + era * 400) doy = (y, m, d)" using civil t by (simp add: broken_down_def Let_def)
  from doy_inverse(1) [OF this k(3) doy] have y: "y = k + era * 400 \<or> y = k + era * 400 + 1"
    by (auto split: if_splits)
  have ys: "0 \<le> year_start k" "year_start k \<le> 365 * 399 + 99"
    using k unfolding year_start_def by linarith+
  have "0 \<le> t div 86400 \<and> t div 86400 < 140737488355328"
    using div_bounds [of 86400 t 140737488355328] assms by simp
  then have "0 \<le> era" "era < 1000000000" using days ys k(3) doy by linarith+
  then have "0 \<le> y" "y < 2 ^ 63" using y k by auto
  then show ?thesis
    using parse_print_fixdate [of dow y m d h mi s] broken_down_on_calendar [of t]
      seconds_of_broken_down [OF assms t] assms
    by (simp add: http_date_imf format_imf_fixdate_def t)
qed

end
