(* ===== verification/DefaultServlet.thy ===== *)
theory DefaultServlet
  imports HttpDate Message
begin

text \<open>
  The servlet for static files, \<open>src/crates/tomcatrs-catalina/src/default_servlet.rs\<close>: path resolution,
  welcome files, listings, conditional requests, byte ranges.

  The file system is a parameter, the record \<open>FileSystem\<close>: the results of \<open>fs::metadata\<close>,
  \<open>fs::read\<close> and \<open>fs::read_dir\<close> for each path. A path is its text; \<open>Path::components\<close>, \<open>push\<close>,
  \<open>starts_with\<close> and \<open>extension\<close> are those of Unix. A response is \<open>None\<close> where the code panics.
\<close>

section \<open>Paths\<close>

datatype Component = RootDir | CurDir | ParentDir | Normal string

definition piece_component :: "string \<Rightarrow> Component option" where
  "piece_component p =
    (if p = [] \<or> p = ''.'' then None else if p = ''..'' then Some ParentDir else Some (Normal p))"

definition path_components :: "string \<Rightarrow> Component list" where
  "path_components p =
    (if p = [] then []
     else if hd p = CHR ''/'' then [RootDir]
     else if hd (split_on CHR ''/'' p) = ''.'' then [CurDir]
     else []) @ List.map_filter piece_component (split_on CHR ''/'' p)"

definition path_push :: "string \<Rightarrow> string \<Rightarrow> string" where
  "path_push base p =
    (if p \<noteq> [] \<and> hd p = CHR ''/'' then p
     else if base = [] \<or> last base = CHR ''/'' then base @ p
     else base @ CHR ''/'' # p)"

definition path_starts_with :: "string \<Rightarrow> string \<Rightarrow> bool" where
  "path_starts_with p base \<longleftrightarrow>
    take (length (path_components base)) (path_components p) = path_components base"

definition path_extension :: "string \<Rightarrow> string option" where
  "path_extension p =
    (case path_components p of
       [] \<Rightarrow> None
     | cs \<Rightarrow>
         (case last cs of
            Normal name \<Rightarrow>
              (case rsplit_once CHR ''.'' name of
                 Some (stem, ext) \<Rightarrow> if stem = [] then None else Some ext
               | None \<Rightarrow> None)
          | _ \<Rightarrow> None))"

section \<open>The file system\<close>

record Metadata =
  md_is_dir :: bool
  md_is_file :: bool
  md_len :: nat
  md_modified :: "nat option"

record FileSystem =
  fs_metadata :: "string \<Rightarrow> Metadata option"
  fs_read :: "string \<Rightarrow> bytes option"
  fs_read_dir :: "string \<Rightarrow> (string \<times> bool \<times> nat) list option"

section \<open>The servlet\<close>

record DefaultServletConfig =
  listings :: bool
  read_only :: bool
  sendfile_threshold :: nat

definition default_servlet_config :: DefaultServletConfig where
  "default_servlet_config = \<lparr>listings = False, read_only = True, sendfile_threshold = 48 * 1024\<rparr>"

record DefaultServlet =
  ds_doc_base :: string
  ds_config :: DefaultServletConfig
  ds_welcome_files :: "string list"

definition servlet_for_context :: "string \<Rightarrow> string list \<Rightarrow> DefaultServlet" where
  "servlet_for_context doc_base welcome =
    \<lparr>ds_doc_base = doc_base, ds_config = default_servlet_config,
     ds_welcome_files = (if welcome = [] then [''index.html'', ''index.htm''] else welcome)\<rparr>"

definition VERSION :: string where
  "VERSION = ''1.0.0''"

definition nl :: string where
  "nl = [CHR 0x0A]"

definition error_report :: "nat \<Rightarrow> string \<Rightarrow> string \<Rightarrow> string" where
  \<open>error_report status reason detail =
    ''<!DOCTYPE html>'' @ nl @ ''<html lang="en">'' @ nl @
    ''<head><meta charset="utf-8"><title>'' @ dec_str status @ '' '' @ reason @ ''</title></head>'' @ nl @
    ''<body style="font-family: system-ui, sans-serif;">'' @ nl @
    ''<h1>HTTP Status '' @ dec_str status @ '' &mdash; '' @ reason @ ''</h1>'' @ nl @ ''<hr>'' @ nl @
    ''<p><strong>Detail:</strong> '' @ detail @ ''</p>'' @ nl @ ''<hr>'' @ nl @
    ''<h3>Tomcat-RS Compatibility Runtime v'' @ VERSION @ ''</h3>'' @ nl @
    ''</body>'' @ nl @ ''</html>'' @ nl\<close>

definition stamp :: "nat \<Rightarrow> Response \<Rightarrow> Response" where
  "stamp now resp = set_header ''Date'' (http_date (int now)) (set_header ''Server'' (''Tomcat-RS/'' @ VERSION) resp)"

definition servlet_finalize :: "nat \<Rightarrow> string \<Rightarrow> nat \<Rightarrow> Response \<Rightarrow> Response" where
  "servlet_finalize now content_type content_length resp =
    stamp now (set_header ''Content-Length'' (dec_str content_length)
      (set_header ''Content-Type'' content_type resp))"

definition servlet_error :: "nat \<Rightarrow> nat \<Rightarrow> string \<Rightarrow> string \<Rightarrow> Response" where
  "servlet_error now status reason detail =
    (let body = as_bytes (error_report status reason detail)
     in servlet_finalize now ''text/html; charset=utf-8'' (length body)
          (response_with_body (word_of_nat status) body))"

definition head_aware :: "bool \<Rightarrow> Response \<Rightarrow> Response" where
  "head_aware is_head resp = (if is_head then resp\<lparr>rs_body := []\<rparr> else resp)"

definition maybe_sendfile :: "DefaultServlet \<Rightarrow> string \<Rightarrow> nat \<Rightarrow> Response \<Rightarrow> Response" where
  "maybe_sendfile ds path len resp =
    (let threshold = sendfile_threshold (ds_config ds)
     in if 0 < threshold \<and> threshold \<le> len then set_header ''X-Tomcatrs-Sendfile'' path resp else resp)"

section \<open>Path resolution\<close>

datatype Resolved = ResolvedOk string | Traversal | Protected

fun resolve_loop :: "Component list \<Rightarrow> string \<Rightarrow> string option \<Rightarrow> (string \<times> string option) option" where
  "resolve_loop [] resolved fst_seg = Some (resolved, fst_seg)"
| "resolve_loop (Normal part # cs) resolved fst_seg =
    resolve_loop cs (path_push resolved part)
      (if fst_seg = None then Some (to_ascii_uppercase part) else fst_seg)"
| "resolve_loop (CurDir # cs) resolved fst_seg = resolve_loop cs resolved fst_seg"
| "resolve_loop (RootDir # cs) resolved fst_seg = resolve_loop cs resolved fst_seg"
| "resolve_loop (ParentDir # cs) resolved fst_seg = None"

definition servlet_resolve :: "DefaultServlet \<Rightarrow> string \<Rightarrow> Resolved" where
  "servlet_resolve ds request_path =
    (let rel = dropWhile (\<lambda>c. c = CHR ''/'') request_path
     in case resolve_loop (path_components rel) (ds_doc_base ds) None of
          None \<Rightarrow> Traversal
        | Some (resolved, fst_seg) \<Rightarrow>
            if fst_seg = Some ''WEB-INF'' \<or> fst_seg = Some ''META-INF'' then Protected
            else if path_starts_with resolved (ds_doc_base ds) then ResolvedOk resolved
            else Traversal)"

section \<open>Validators\<close>

definition weak_etag :: "nat \<Rightarrow> nat \<Rightarrow> string" where
  \<open>weak_etag len mtime_secs = ''W/"'' @ hex_str len @ ''-'' @ hex_str mtime_secs @ ''"''\<close>

definition opaque_tag :: "string \<Rightarrow> string" where
  "opaque_tag t = (case strip_prefix ''W/'' t of Some r \<Rightarrow> r | None \<Rightarrow> t)"

definition etag_matches :: "string \<Rightarrow> string \<Rightarrow> bool \<Rightarrow> bool" where
  "etag_matches header etag weak_ok =
    (let header = trim header
     in header = ''*'' \<or>
        (\<exists>cand \<in> set (map trim (split_on CHR '','' header)).
           opaque_tag cand = opaque_tag etag \<and> (weak_ok \<or> \<not> starts_with ''W/'' cand)))"

definition content_type_for :: "string \<Rightarrow> string" where
  "content_type_for path =
    (case path_extension path of
       None \<Rightarrow> ''application/octet-stream''
     | Some e \<Rightarrow>
         (case map_of
             [(''html'', ''text/html; charset=utf-8''), (''htm'', ''text/html; charset=utf-8''),
              (''css'', ''text/css; charset=utf-8''), (''js'', ''application/javascript; charset=utf-8''),
              (''mjs'', ''application/javascript; charset=utf-8''), (''json'', ''application/json''),
              (''map'', ''application/json''), (''xml'', ''application/xml; charset=utf-8''),
              (''txt'', ''text/plain; charset=utf-8''), (''text'', ''text/plain; charset=utf-8''),
              (''md'', ''text/markdown; charset=utf-8''), (''csv'', ''text/csv; charset=utf-8''),
              (''png'', ''image/png''), (''jpg'', ''image/jpeg''), (''jpeg'', ''image/jpeg''),
              (''gif'', ''image/gif''), (''svg'', ''image/svg+xml''), (''webp'', ''image/webp''),
              (''ico'', ''image/x-icon''), (''bmp'', ''image/bmp''), (''woff'', ''font/woff''),
              (''woff2'', ''font/woff2''), (''ttf'', ''font/ttf''), (''otf'', ''font/otf''),
              (''eot'', ''application/vnd.ms-fontobject''), (''pdf'', ''application/pdf''),
              (''wasm'', ''application/wasm''), (''zip'', ''application/zip''), (''gz'', ''application/gzip''),
              (''tar'', ''application/x-tar''), (''mp4'', ''video/mp4''), (''webm'', ''video/webm''),
              (''mp3'', ''audio/mpeg''), (''ogg'', ''audio/ogg''), (''wav'', ''audio/wav'')]
             (to_ascii_lowercase e) of
            Some t \<Rightarrow> t
          | None \<Rightarrow> ''application/octet-stream''))"

section \<open>Ranges\<close>

datatype RangeParse = RangeNone | Single nat nat | Multiple "(nat \<times> nat) list" | Unsatisfiable

text \<open>One part of the header: \<open>None\<close> if it is malformed, \<open>Some None\<close> if it selects nothing.\<close>

definition one_range :: "nat \<Rightarrow> string \<Rightarrow> string \<Rightarrow> (nat \<times> nat) option option" where
  "one_range len start_s end_s =
    (if start_s = [] \<and> end_s = [] then None
     else if start_s = [] then
       (case parse_usize end_s of
          None \<Rightarrow> None
        | Some n \<Rightarrow> if n = 0 then Some None else Some (Some (len - min n len, len - 1)))
     else if end_s = [] then
       (case parse_usize start_s of
          None \<Rightarrow> None
        | Some s \<Rightarrow> if len \<le> s then Some None else Some (Some (s, len - 1)))
     else
       (case (parse_usize start_s, parse_usize end_s) of
          (Some s, Some e) \<Rightarrow> if e < s \<or> len \<le> s then Some None else Some (Some (s, min e (len - 1)))
        | _ \<Rightarrow> None))"

fun range_parts :: "nat \<Rightarrow> string list \<Rightarrow> (bool \<times> (nat \<times> nat) list) option" where
  "range_parts len [] = Some (False, [])"
| "range_parts len (part # parts) =
    (let part = trim part in
     if part = [] then range_parts len parts
     else case split_once CHR ''-'' part of
       None \<Rightarrow> None
     | Some (start_s, end_s) \<Rightarrow>
         (case one_range len (trim start_s) (trim end_s) of
            None \<Rightarrow> None
          | Some r \<Rightarrow>
              (case range_parts len parts of
                 None \<Rightarrow> None
               | Some (_, rs) \<Rightarrow> Some (True, case r of None \<Rightarrow> rs | Some x \<Rightarrow> x # rs))))"

definition parse_range :: "string \<Rightarrow> nat \<Rightarrow> RangeParse" where
  "parse_range header len =
    (case strip_prefix ''bytes='' (trim header) of
       None \<Rightarrow> RangeNone
     | Some spec \<Rightarrow>
         if len = 0 then Unsatisfiable
         else case range_parts len (split_on CHR '','' spec) of
           None \<Rightarrow> RangeNone
         | Some (saw_any, ranges) \<Rightarrow>
             if \<not> saw_any then RangeNone
             else case ranges of
               [] \<Rightarrow> Unsatisfiable
             | [(s, e)] \<Rightarrow> Single s e
             | _ \<Rightarrow> Multiple ranges)"

text \<open>\<open>data[start..=end]\<close>, which panics outside of the data.\<close>

definition slice_inclusive :: "bytes \<Rightarrow> nat \<Rightarrow> nat \<Rightarrow> bytes option" where
  "slice_inclusive bs s e = (if s \<le> e + 1 \<and> e + 1 \<le> length bs then Some (take (e + 1 - s) (drop s bs)) else None)"

definition line_end :: string where
  "line_end = [CHR 0x0D, CHR 0x0A]"

definition part_head :: "string \<Rightarrow> nat \<Rightarrow> string \<Rightarrow> nat \<Rightarrow> nat \<Rightarrow> bytes" where
  "part_head content_type full_len boundary s e =
    as_bytes (line_end @ ''--'' @ boundary @ line_end @ ''Content-Type: '' @ content_type @ line_end @
      ''Content-Range: bytes '' @ dec_str s @ ''-'' @ dec_str e @ ''/'' @ dec_str full_len @ line_end @ line_end)"

fun multipart_parts :: "bytes \<Rightarrow> (nat \<times> nat) list \<Rightarrow> string \<Rightarrow> nat \<Rightarrow> string \<Rightarrow> bytes option" where
  "multipart_parts bs [] content_type full_len boundary = Some []"
| "multipart_parts bs ((s, e) # rs) content_type full_len boundary =
    (case (slice_inclusive bs s e, multipart_parts bs rs content_type full_len boundary) of
       (Some part, Some parts) \<Rightarrow>
         Some (part_head content_type full_len boundary s e @ part @ parts)
     | _ \<Rightarrow> None)"

definition build_multipart :: "bytes \<Rightarrow> (nat \<times> nat) list \<Rightarrow> string \<Rightarrow> nat \<Rightarrow> string \<Rightarrow> bytes option" where
  "build_multipart bs ranges content_type full_len boundary =
    map_option (\<lambda>parts. parts @ as_bytes (line_end @ ''--'' @ boundary @ ''--'' @ line_end))
      (multipart_parts bs ranges content_type full_len boundary)"

definition alphanumeric_char :: "char \<Rightarrow> bool" where
  "alphanumeric_char c \<longleftrightarrow>
    (let n = (of_char c :: nat) in 48 \<le> n \<and> n \<le> 57 \<or> 65 \<le> n \<and> n \<le> 90 \<or> 97 \<le> n \<and> n \<le> 122)"

definition multipart_boundary :: "string \<Rightarrow> nat \<Rightarrow> string" where
  "multipart_boundary etag mtime =
    ''tomcatrs_byteranges_'' @ hex_str mtime @ ''_'' @ filter alphanumeric_char etag"

section \<open>Files and directories\<close>

definition validators :: "string \<Rightarrow> nat \<Rightarrow> Response \<Rightarrow> Response" where
  "validators etag mtime resp =
    set_header ''Accept-Ranges'' ''bytes'' (set_header ''Last-Modified'' (http_date (int mtime))
      (set_header ''ETag'' etag resp))"

definition precondition_failed :: "nat \<Rightarrow> string \<Rightarrow> string \<Rightarrow> nat \<Rightarrow> Response" where
  "precondition_failed now path etag mtime =
    validators etag mtime (servlet_error now 412 ''Precondition Failed'' path)"

definition gate_fails :: "Request \<Rightarrow> string \<Rightarrow> nat \<Rightarrow> bool" where
  "gate_fails req etag mtime =
    (case request_header ''If-Match'' req of
       Some if_match \<Rightarrow> \<not> etag_matches if_match etag False
     | None \<Rightarrow>
         (case request_header ''If-Unmodified-Since'' req of
            Some ius \<Rightarrow> (case parse_http_date ius of Some since \<Rightarrow> since < int mtime | None \<Rightarrow> False)
          | None \<Rightarrow> False))"

definition not_modified :: "Request \<Rightarrow> string \<Rightarrow> nat \<Rightarrow> bool" where
  "not_modified req etag mtime =
    (case request_header ''If-None-Match'' req of
       Some inm \<Rightarrow> etag_matches inm etag True
     | None \<Rightarrow>
         (case request_header ''If-Modified-Since'' req of
            Some ims \<Rightarrow> (case parse_http_date ims of Some since \<Rightarrow> int mtime \<le> since | None \<Rightarrow> False)
          | None \<Rightarrow> False))"

definition partial_response ::
    "DefaultServlet \<Rightarrow> nat \<Rightarrow> string \<Rightarrow> nat \<Rightarrow> nat \<Rightarrow> string \<Rightarrow> bool \<Rightarrow> bytes \<Rightarrow> Response \<Rightarrow> Response" where
  "partial_response ds now path len mtime content_type is_head body resp =
    head_aware is_head (maybe_sendfile ds path len (validators (weak_etag len mtime) mtime
      (servlet_finalize now content_type (length body) resp)))"

definition serve_file ::
    "DefaultServlet \<Rightarrow> FileSystem \<Rightarrow> nat \<Rightarrow> Request \<Rightarrow> string \<Rightarrow> Metadata \<Rightarrow> bool \<Rightarrow> Response option" where
  "serve_file ds fs now req path metadata is_head =
    (let len = md_len metadata;
         mtime = (case md_modified metadata of Some t \<Rightarrow> t | None \<Rightarrow> 0);
         etag = weak_etag len mtime;
         content_type = content_type_for path
     in if gate_fails req etag mtime then
          Some (head_aware is_head (precondition_failed now (rq_path req) etag mtime))
        else if not_modified req etag mtime then
          Some ((stamp now (validators etag mtime (response_new 304)))\<lparr>rs_body := []\<rparr>)
        else case fs_read fs path of
          None \<Rightarrow> Some (head_aware is_head (servlet_error now 404 ''Not Found'' (rq_path req)))
        | Some content \<Rightarrow>
            (let full = partial_response ds now path len mtime content_type is_head content
                   (response_with_body 200 content)
             in case request_header ''Range'' req of
                  None \<Rightarrow> Some full
                | Some range_header \<Rightarrow>
                    (case parse_range range_header len of
                       RangeNone \<Rightarrow> Some full
                     | Unsatisfiable \<Rightarrow>
                         Some (head_aware is_head (set_header ''Accept-Ranges'' ''bytes''
                           (set_header ''Content-Range'' (''bytes */'' @ dec_str len)
                             (servlet_error now 416 ''Range Not Satisfiable'' (rq_path req)))))
                     | Single s e \<Rightarrow>
                         map_option (\<lambda>body. partial_response ds now path len mtime content_type is_head body
                           (set_header ''Content-Range''
                             (''bytes '' @ dec_str s @ ''-'' @ dec_str e @ ''/'' @ dec_str len)
                             (response_with_body 206 body)))
                           (slice_inclusive content s e)
                     | Multiple ranges \<Rightarrow>
                         (let boundary = multipart_boundary etag mtime in
                          map_option (\<lambda>body. partial_response ds now path len mtime
                              (''multipart/byteranges; boundary='' @ boundary) is_head body
                              (response_with_body 206 body))
                            (build_multipart content ranges content_type len boundary)))))"

text \<open>The order of a listing: directories first, then by name.\<close>

fun str_less :: "string \<Rightarrow> string \<Rightarrow> bool" where
  "str_less [] [] = False"
| "str_less [] (b # bs) = True"
| "str_less (a # as) [] = False"
| "str_less (a # as) (b # bs) =
    ((of_char a :: nat) < of_char b \<or> a = b \<and> str_less as bs)"

definition entry_less :: "string \<times> bool \<times> nat \<Rightarrow> string \<times> bool \<times> nat \<Rightarrow> bool" where
  "entry_less a b \<longleftrightarrow>
    (case (a, b) of ((n, d, _), (m, c, _)) \<Rightarrow> d \<and> \<not> c \<or> d = c \<and> str_less n m)"

fun insert_entry :: "string \<times> bool \<times> nat \<Rightarrow> (string \<times> bool \<times> nat) list \<Rightarrow> (string \<times> bool \<times> nat) list" where
  "insert_entry e [] = [e]"
| "insert_entry e (f # fs) = (if entry_less f e then f # insert_entry e fs else e # f # fs)"

definition sort_entries :: "(string \<times> bool \<times> nat) list \<Rightarrow> (string \<times> bool \<times> nat) list" where
  "sort_entries es = foldr insert_entry es []"

definition listing_row :: "string \<Rightarrow> string \<times> bool \<times> nat \<Rightarrow> string" where
  \<open>listing_row base entry =
    (case entry of (name, is_dir, len) \<Rightarrow>
       if is_dir then ''<li><a href="'' @ base @ ''/'' @ name @ ''/">'' @ name @ ''/</a></li>'' @ nl
       else ''<li><a href="'' @ base @ ''/'' @ name @ ''">'' @ name @ ''</a> &mdash; '' @ dec_str len @ '' bytes</li>'' @ nl)\<close>

definition render_listing :: "FileSystem \<Rightarrow> string \<Rightarrow> string \<Rightarrow> string option" where
  \<open>render_listing fs url_path dir =
    map_option (\<lambda>entries.
      ''<!DOCTYPE html>'' @ nl @ ''<html lang="en">'' @ nl @ ''<head><meta charset="utf-8">'' @
      ''<title>Directory listing for '' @ url_path @ ''</title></head>'' @ nl @
      ''<body style="font-family: system-ui, sans-serif;">'' @ nl @
      ''<h1>Directory listing for '' @ url_path @ ''</h1>'' @ nl @ ''<hr>'' @ nl @ ''<ul>'' @ nl @
      concat (map (listing_row (rev (dropWhile (\<lambda>c. c = CHR ''/'') (rev url_path)))) (sort_entries entries)) @
      ''</ul>'' @ nl @ ''<hr>'' @ nl @ ''<h3>Tomcat-RS Compatibility Runtime v'' @ VERSION @ ''</h3>'' @ nl @
      ''</body>'' @ nl @ ''</html>'' @ nl)
    (fs_read_dir fs dir)\<close>

fun find_welcome :: "FileSystem \<Rightarrow> string \<Rightarrow> string list \<Rightarrow> (string \<times> Metadata) option" where
  "find_welcome fs dir [] = None"
| "find_welcome fs dir (w # ws) =
    (case fs_metadata fs (path_push dir w) of
       Some md \<Rightarrow> if md_is_file md then Some (path_push dir w, md) else find_welcome fs dir ws
     | None \<Rightarrow> find_welcome fs dir ws)"

definition serve_directory ::
    "DefaultServlet \<Rightarrow> FileSystem \<Rightarrow> nat \<Rightarrow> Request \<Rightarrow> string \<Rightarrow> bool \<Rightarrow> Response option" where
  "serve_directory ds fs now req dir is_head =
    (case find_welcome fs dir (ds_welcome_files ds) of
       Some (candidate, md) \<Rightarrow> serve_file ds fs now req candidate md is_head
     | None \<Rightarrow>
         if listings (ds_config ds) then
           (case render_listing fs (rq_path req) dir of
              Some html \<Rightarrow>
                (let body = as_bytes html in
                 Some (head_aware is_head (servlet_finalize now ''text/html; charset=utf-8'' (length body)
                   (response_with_body 200 body))))
            | None \<Rightarrow> Some (head_aware is_head (servlet_error now 404 ''Not Found'' (rq_path req))))
         else Some (head_aware is_head (servlet_error now 403 ''Forbidden'' (rq_path req))))"

definition serve_get :: "DefaultServlet \<Rightarrow> FileSystem \<Rightarrow> nat \<Rightarrow> Request \<Rightarrow> Response option" where
  "serve_get ds fs now req =
    (let is_head = (rq_method req = ''HEAD'')
     in case servlet_resolve ds (rq_path req) of
          Protected \<Rightarrow> Some (head_aware is_head (servlet_error now 404 ''Not Found'' (rq_path req)))
        | Traversal \<Rightarrow> Some (head_aware is_head (servlet_error now 403 ''Forbidden'' (rq_path req)))
        | ResolvedOk resolved \<Rightarrow>
            (case fs_metadata fs resolved of
               None \<Rightarrow> Some (head_aware is_head (servlet_error now 404 ''Not Found'' (rq_path req)))
             | Some md \<Rightarrow>
                 if md_is_dir md then serve_directory ds fs now req resolved is_head
                 else serve_file ds fs now req resolved md is_head))"

definition servlet_serve :: "DefaultServlet \<Rightarrow> FileSystem \<Rightarrow> nat \<Rightarrow> Request \<Rightarrow> Response option" where
  "servlet_serve ds fs now req =
    (if rq_method req \<in> {''GET'', ''HEAD''} then serve_get ds fs now req
     else if rq_method req \<in> {''PUT'', ''DELETE''} then
       (if read_only (ds_config ds) then Some (servlet_error now 405 ''Method Not Allowed'' (rq_path req))
        else Some (set_header ''Allow'' ''GET, HEAD, PUT, DELETE''
          (servlet_error now 501 ''Not Implemented''
            (rq_method req @ '' is accepted (servlet is not read-only) but the write path is not implemented in this build''))))
     else Some (set_header ''Allow''
       (if read_only (ds_config ds) then ''GET, HEAD'' else ''GET, HEAD, PUT, DELETE'')
       (servlet_error now 405 ''Method Not Allowed'' (rq_path req))))"

section \<open>Lemmas\<close>

text \<open>Names of files, and the two trees that are not served.\<close>

definition file_name_ok :: "string \<Rightarrow> bool" where
  "file_name_ok n \<longleftrightarrow> n \<noteq> [] \<and> n \<noteq> ''.'' \<and> n \<noteq> ''..'' \<and> CHR ''/'' \<notin> set n"

definition hidden_tree :: "string \<Rightarrow> bool" where
  "hidden_tree n \<longleftrightarrow> to_ascii_uppercase n \<in> {''WEB-INF'', ''META-INF''}"

definition path_under :: "string \<Rightarrow> string list \<Rightarrow> string" where
  "path_under base names = fold (\<lambda>n p. path_push p n) names base"

definition public_path :: "DefaultServlet \<Rightarrow> string \<Rightarrow> bool" where
  "public_path ds p \<longleftrightarrow>
    (\<exists>names. list_all file_name_ok names \<and> (names \<noteq> [] \<longrightarrow> \<not> hidden_tree (hd names)) \<and>
       p = path_under (ds_doc_base ds) names)"

lemma piece_component_name: "file_name_ok n \<Longrightarrow> piece_component n = Some (Normal n)"
  by (auto simp: piece_component_def file_name_ok_def)

lemma map_filter_append [simp]: "List.map_filter f (xs @ ys) = List.map_filter f xs @ List.map_filter f ys"
  by (induction xs) (auto simp: map_filter_simps split: option.split)

lemma path_components_push:
  assumes "file_name_ok n"
  shows "path_components (path_push base n) = path_components base @ [Normal n]"
proof -
  have n: "n \<noteq> []" "n \<noteq> ''.''" "CHR ''/'' \<notin> set n" "hd n \<noteq> CHR ''/''"
    using assms by (cases n; auto simp: file_name_ok_def)+
  have single: "List.map_filter piece_component [n] = [Normal n]"
    by (simp add: map_filter_simps piece_component_name [OF assms])
  consider "base = []" | b where "base = b @ ''/''" | "base \<noteq> []" "last base \<noteq> CHR ''/''"
    by (cases base rule: rev_cases) auto
  then show ?thesis
  proof cases
    case 1
    moreover have "List.map_filter piece_component [[]] = []" by (simp add: map_filter_simps piece_component_def)
    ultimately show ?thesis using n single by (simp add: path_push_def path_components_def)
  next
    case (2 b)
    have push: "path_push base n = base @ n" and ne: "base \<noteq> []" using n 2 by (simp_all add: path_push_def)
    have split: "split_on CHR ''/'' (base @ n) = split_on CHR ''/'' b @ [n]"
        "split_on CHR ''/'' base = split_on CHR ''/'' b @ [[]]"
      using split_on_at [of "CHR ''/''" b n] split_on_at [of "CHR ''/''" b "[]"] n 2 by simp_all
    have "List.map_filter piece_component [[]] = []" by (simp add: map_filter_simps piece_component_def)
    then show ?thesis
      unfolding push path_components_def split using single ne by (simp add: hd_append)
  next
    case 3
    have "path_push base n = base @ CHR ''/'' # n" using n 3 by (simp add: path_push_def)
    moreover have "hd (split_on CHR ''/'' (base @ CHR ''/'' # n)) = hd (split_on CHR ''/'' base)"
      using split_on_at [of "CHR ''/''" base n] split_on_not_Nil [of "CHR ''/''" base] by (simp add: hd_append)
    ultimately show ?thesis
      using single n 3 split_on_at [of "CHR ''/''" base n] by (simp add: path_components_def)
  qed
qed

lemma under_Nil [simp]: "path_under base [] = base"
  by (simp add: path_under_def)

lemma under_snoc: "path_under base (names @ [n]) = path_push (path_under base names) n"
  by (simp add: path_under_def)

lemma path_components_under:
  "list_all file_name_ok names \<Longrightarrow> path_components (path_under base names) = path_components base @ map Normal names"
  by (induction names rule: rev_induct) (simp_all add: under_snoc path_components_push)

lemma path_starts_with_under: "list_all file_name_ok names \<Longrightarrow> path_starts_with (path_under base names) base"
  by (simp add: path_starts_with_def path_components_under)

lemma path_components_normal: "Normal n \<in> set (path_components p) \<Longrightarrow> file_name_ok n"
proof -
  assume "Normal n \<in> set (path_components p)"
  then have "Normal n \<in> set (List.map_filter piece_component (split_on CHR ''/'' p))"
    by (auto simp: path_components_def split: if_splits)
  then have "n \<in> set (split_on CHR ''/'' p)" "piece_component n = Some (Normal n)"
    by (auto simp: List.map_filter_def piece_component_def split: if_splits)
  then show "file_name_ok n"
    using split_on_no_sep by (auto simp: file_name_ok_def piece_component_def split: if_splits)
qed

lemma resolve_loop_names:
  assumes "resolve_loop cs base f = Some (p, g)" "\<And>n. Normal n \<in> set cs \<Longrightarrow> file_name_ok n"
  shows "\<exists>names. list_all file_name_ok names \<and> p = path_under base names \<and>
    g = (if f = None \<and> names \<noteq> [] then Some (to_ascii_uppercase (hd names)) else f)"
  using assms
proof (induction cs base f rule: resolve_loop.induct)
  case (1 base f)
  then show ?case by (intro exI [of _ "[]"]) simp
next
  case (2 part cs base f)
  then obtain names where "list_all file_name_ok names" "p = path_under (path_push base part) names"
    "g = (if f = None then Some (to_ascii_uppercase part) else f)"
    by (auto split: if_splits)
  then show ?case using 2(3) [of part] by (intro exI [of _ "part # names"]) (auto simp: path_under_def)
qed simp_all

lemma servlet_resolve_public: "servlet_resolve ds path = ResolvedOk p \<Longrightarrow> public_path ds p"
proof -
  assume r: "servlet_resolve ds path = ResolvedOk p"
  let ?rel = "dropWhile (\<lambda>c. c = CHR ''/'') path"
  obtain g where loop: "resolve_loop (path_components ?rel) (ds_doc_base ds) None = Some (p, g)"
      and g: "g \<noteq> Some ''WEB-INF''" "g \<noteq> Some ''META-INF''"
    using r by (auto simp: servlet_resolve_def Let_def split: option.splits if_splits)
  from resolve_loop_names [OF loop path_components_normal [where p = ?rel]]
  obtain names where "list_all file_name_ok names" "p = path_under (ds_doc_base ds) names"
    "g = (if names \<noteq> [] then Some (to_ascii_uppercase (hd names)) else None)" by auto
  then show "public_path ds p"
    using g unfolding public_path_def hidden_tree_def by (intro exI [of _ names]) auto
qed

lemma public_push: "public_path ds p \<Longrightarrow> file_name_ok w \<Longrightarrow> \<not> hidden_tree w \<Longrightarrow> public_path ds (path_push p w)"
proof -
  assume "public_path ds p" and w: "file_name_ok w" "\<not> hidden_tree w"
  then obtain names where n: "list_all file_name_ok names" "names \<noteq> [] \<longrightarrow> \<not> hidden_tree (hd names)"
    "p = path_under (ds_doc_base ds) names" by (auto simp: public_path_def)
  then show "public_path ds (path_push p w)"
    unfolding public_path_def using w
    by (intro exI [of _ "names @ [w]"]) (auto simp: under_snoc hd_append)
qed

text \<open>A path of names resolves to the file of those names.\<close>

lemma resolve_loop_normal:
  "resolve_loop (map Normal names) base f =
    Some (path_under base names, if f = None \<and> names \<noteq> [] then Some (to_ascii_uppercase (hd names)) else f)"
  by (induction names arbitrary: base f) (auto simp: path_under_def)

lemma servlet_resolve_names:
  assumes "list_all file_name_ok names" "names \<noteq> []" "\<not> hidden_tree (hd names)"
  shows "servlet_resolve ds (CHR ''/'' # join_with CHR ''/'' names) = ResolvedOk (path_under (ds_doc_base ds) names)"
proof -
  have n: "hd names \<noteq> []" "hd (hd names) \<noteq> CHR ''/''" "hd names \<noteq> ''.''"
  proof -
    have "file_name_ok (hd names)" using assms(1,2) by (cases names) auto
    then show "hd names \<noteq> []" "hd (hd names) \<noteq> CHR ''/''" "hd names \<noteq> ''.''"
      by (cases "hd names"; auto simp: file_name_ok_def)+
  qed
  have split: "split_on CHR ''/'' (join_with CHR ''/'' names) = names"
    using assms(1,2) by (intro split_on_join) (auto simp: list_all_iff file_name_ok_def)
  obtain t where "join_with CHR ''/'' names = hd names @ t"
    using assms(2) that by (cases "(CHR ''/'', names)" rule: join_with.cases) auto
  then have h: "join_with CHR ''/'' names \<noteq> []" "hd (join_with CHR ''/'' names) \<noteq> CHR ''/''"
    using n by (simp_all add: hd_append)
  then have "dropWhile (\<lambda>c. c = CHR ''/'') (join_with CHR ''/'' names) = join_with CHR ''/'' names"
    by (cases "join_with CHR ''/'' names") auto
  moreover have "path_components (join_with CHR ''/'' names) = map Normal names"
  proof -
    have "List.map_filter piece_component names = map Normal names"
      using assms(1) by (induction names) (simp_all add: map_filter_simps piece_component_name)
    then show ?thesis using h n by (simp add: path_components_def split)
  qed
  ultimately show ?thesis
    using assms path_starts_with_under by (simp add: servlet_resolve_def resolve_loop_normal hidden_tree_def)
qed

text \<open>Two file systems that agree on the public paths are served alike.\<close>

definition same_public :: "DefaultServlet \<Rightarrow> FileSystem \<Rightarrow> FileSystem \<Rightarrow> bool" where
  "same_public ds fs fs' \<longleftrightarrow>
    (\<forall>p. public_path ds p \<longrightarrow>
       fs_metadata fs p = fs_metadata fs' p \<and> fs_read fs p = fs_read fs' p \<and> fs_read_dir fs p = fs_read_dir fs' p)"

lemma serve_file_same:
  assumes "same_public ds fs fs'" "public_path ds p"
  shows "serve_file ds fs now req p md h = serve_file ds fs' now req p md h"
proof -
  have "fs_read fs p = fs_read fs' p" using assms by (simp add: same_public_def)
  then show ?thesis unfolding serve_file_def by (simp only:)
qed

lemma find_welcome_same:
  assumes "same_public ds fs fs'" "public_path ds dir" "list_all (\<lambda>w. file_name_ok w \<and> \<not> hidden_tree w) ws"
  shows "find_welcome fs dir ws = find_welcome fs' dir ws \<and>
    (\<forall>p md. find_welcome fs dir ws = Some (p, md) \<longrightarrow> public_path ds p)"
  using assms(3)
proof (induction ws)
  case (Cons w ws)
  have "public_path ds (path_push dir w)" using Cons.prems assms(2) public_push by simp
  moreover have "fs_metadata fs (path_push dir w) = fs_metadata fs' (path_push dir w)"
    using assms(1) calculation by (simp add: same_public_def)
  ultimately show ?case using Cons by (auto split: option.split)
qed simp

lemma serve_directory_same:
  assumes "same_public ds fs fs'" "public_path ds dir"
    "list_all (\<lambda>w. file_name_ok w \<and> \<not> hidden_tree w) (ds_welcome_files ds)"
  shows "serve_directory ds fs now req dir h = serve_directory ds fs' now req dir h"
proof -
  have "render_listing fs u dir = render_listing fs' u dir" for u
    using assms(1,2) by (simp add: render_listing_def same_public_def)
  then show ?thesis
    using find_welcome_same [OF assms] serve_file_same [OF assms(1)]
    by (auto simp: serve_directory_def split: option.splits)
qed

section \<open>The ranges of RFC 9110\<close>

text \<open>A range names positions: the last \<open>n\<close>, those from \<open>a\<close> on, those from \<open>a\<close> to \<open>b\<close>.\<close>

datatype RangeSpec = Suffix nat | From nat | Between nat nat

fun names_position :: "nat \<Rightarrow> RangeSpec \<Rightarrow> nat \<Rightarrow> bool" where
  "names_position len (Suffix n) i \<longleftrightarrow> i < len \<and> len \<le> i + n"
| "names_position len (From a) i \<longleftrightarrow> a \<le> i \<and> i < len"
| "names_position len (Between a b) i \<longleftrightarrow> a \<le> i \<and> i \<le> b \<and> i < len"

fun print_spec :: "RangeSpec \<Rightarrow> string" where
  "print_spec (Suffix n) = ''-'' @ dec_str n"
| "print_spec (From a) = dec_str a @ ''-''"
| "print_spec (Between a b) = dec_str a @ ''-'' @ dec_str b"

fun spec_ok :: "RangeSpec \<Rightarrow> bool" where
  "spec_ok (Suffix n) \<longleftrightarrow> n \<le> usize_max"
| "spec_ok (From a) \<longleftrightarrow> a \<le> usize_max"
| "spec_ok (Between a b) \<longleftrightarrow> a \<le> usize_max \<and> b \<le> usize_max"

fun spec_range :: "nat \<Rightarrow> RangeSpec \<Rightarrow> (nat \<times> nat) option" where
  "spec_range len (Suffix n) = (if n = 0 then None else Some (len - min n len, len - 1))"
| "spec_range len (From a) = (if len \<le> a then None else Some (a, len - 1))"
| "spec_range len (Between a b) = (if b < a \<or> len \<le> a then None else Some (a, min b (len - 1)))"

definition range_header :: "RangeSpec list \<Rightarrow> string" where
  "range_header specs = ''bytes='' @ join_with CHR '','' (map print_spec specs)"

text \<open>The interval of a range is the set of positions it names.\<close>

lemma spec_range_positions:
  assumes "0 < len"
  shows "spec_range len r = None \<longleftrightarrow> (\<forall>i. \<not> names_position len r i)"
    and "spec_range len r = Some (s, e) \<Longrightarrow> s \<le> e \<and> e < len \<and> (\<forall>i. names_position len r i \<longleftrightarrow> s \<le> i \<and> i \<le> e)"
proof -
  show "spec_range len r = None \<longleftrightarrow> (\<forall>i. \<not> names_position len r i)"
  proof (cases r)
    case (Suffix n)
    have "names_position len r (len - 1)" if "0 < n" using assms Suffix that by auto
    then show ?thesis using Suffix by auto
  next
    case (From a)
    have "names_position len r a" if "a < len" using From that by simp
    then show ?thesis using From by (auto simp: not_less)
  next
    case (Between a b)
    have "names_position len r a" if "a < len" "a \<le> b" using Between that by simp
    then show ?thesis using Between by (auto simp: not_less)
  qed
  show "spec_range len r = Some (s, e) \<Longrightarrow> s \<le> e \<and> e < len \<and> (\<forall>i. names_position len r i \<longleftrightarrow> s \<le> i \<and> i \<le> e)"
    using assms by (cases r) (auto split: if_splits)
qed

lemma nths_interval: "nths xs {i. a \<le> i \<and> i \<le> b} = drop a (take (Suc b) xs)"
proof (induction xs arbitrary: a b)
  case (Cons x xs)
  show ?case
  proof (cases a)
    case 0
    show ?thesis
    proof (cases b)
      case 0
      then show ?thesis using \<open>a = 0\<close> by (simp add: nths_Cons)
    next
      case (Suc b')
      have "{j. j \<le> b'} = {j. 0 \<le> j \<and> j \<le> b'}" by simp
      then show ?thesis using \<open>a = 0\<close> Suc Cons [of 0 b'] by (simp add: nths_Cons)
    qed
  next
    case (Suc a')
    show ?thesis
    proof (cases b)
      case 0
      then show ?thesis using Suc by (simp add: nths_Cons)
    next
      case (Suc b')
      then show ?thesis using \<open>a = Suc a'\<close> Cons [of a' b'] by (simp add: nths_Cons)
    qed
  qed
qed simp

lemma slice_inclusive_nths:
  assumes "spec_range (length bs) r = Some (s, e)" "bs \<noteq> []"
  shows "slice_inclusive bs s e = Some (nths bs {i. names_position (length bs) r i})"
proof -
  have p: "s \<le> e" "e < length bs" "{i. names_position (length bs) r i} = {i. s \<le> i \<and> i \<le> e}"
    using spec_range_positions(2) [OF _ assms(1)] assms(2) by auto
  then show ?thesis
    unfolding p(3) nths_interval by (simp add: slice_inclusive_def drop_take Suc_le_eq)
qed

text \<open>The header of printed ranges is read back.\<close>

lemma parse_dec_from_digits:
  assumes "digits_int (int acc) s = Some (int n)" "n \<le> usize_max"
  shows "parse_dec_from acc s = Some n"
  using assms
proof (induction s arbitrary: acc)
  case (Cons c s)
  then obtain d where d: "digit_value c = Some d" "digits_int (int (10 * acc + d)) s = Some (int n)"
    by (auto split: option.splits)
  have "int m \<le> int n" if "digits_int (int m) t = Some (int n)" for m t
    using that
  proof (induction t arbitrary: m)
    case (Cons c t)
    then obtain d where "digits_int (int (10 * m + d)) t = Some (int n)" by (auto split: option.splits)
    then have "int (10 * m + d) \<le> int n" by (rule Cons.IH)
    then show ?case by simp
  qed simp
  from this [OF d(2)] have "10 * acc + d \<le> n" by linarith
  then show ?case using Cons.IH [OF d(2) Cons.prems(2)] Cons.prems(2) d(1) by (simp add: mult.commute)
qed simp

lemma parse_usize_dec [simp]: "n \<le> usize_max \<Longrightarrow> parse_usize (dec_str n) = Some n"
proof -
  assume n: "n \<le> usize_max"
  obtain c r where c: "dec_str n = c # r" by (cases "dec_str n") simp_all
  then have "c \<noteq> CHR ''+''" using digits_visible(2) [of c] dec_str_digits [of c n] by auto
  moreover have "parse_dec_from 0 (c # r) = Some n"
    using parse_dec_from_digits [of 0 "dec_str n" n] n by (simp add: c [symmetric])
  ultimately show ?thesis by (simp add: parse_usize_def c del: parse_dec_from.simps)
qed

lemma visible_dec: "visible_str (dec_str n)"
  using dec_str_digits digits_visible(1) by (auto simp: visible_str_def)

lemma trim_visible_str: "visible_str s \<Longrightarrow> trim s = s"
  by (auto simp: visible_str_def intro: trim_visible)

lemma visible_spec: "visible_str (print_spec r)"
  using visible_dec by (cases r) (auto simp: visible_str_def visible_def byte_of_def)

lemma dec_str_no: "c \<in> {CHR ''-'', CHR '',''} \<Longrightarrow> c \<notin> set (dec_str n)"
  using dec_str_digits digits_visible(2) by blast

lemma split_spec:
  "\<exists>a b. split_once CHR ''-'' (print_spec r) = Some (a, b) \<and>
     (spec_ok r \<longrightarrow> one_range len (trim a) (trim b) = Some (spec_range len r))"
proof (cases r)
  case (Suffix n)
  then show ?thesis
    by (intro exI [of _ "[]"] exI [of _ "dec_str n"])
      (simp add: split_once_Some one_range_def trim_visible_str visible_dec)
next
  case (From a)
  then show ?thesis
    by (intro exI [of _ "dec_str a"] exI [of _ "[]"])
      (simp add: split_once_Some one_range_def trim_visible_str visible_dec dec_str_no)
next
  case (Between a b)
  then show ?thesis
    by (intro exI [of _ "dec_str a"] exI [of _ "dec_str b"])
      (simp add: split_once_Some one_range_def trim_visible_str visible_dec dec_str_no)
qed

lemma range_parts_specs:
  "list_all spec_ok specs \<Longrightarrow> specs \<noteq> [] \<Longrightarrow>
    range_parts len (map print_spec specs) = Some (True, List.map_filter (spec_range len) specs)"
proof (induction specs)
  case (Cons r specs)
  obtain a b where ab: "split_once CHR ''-'' (print_spec r) = Some (a, b)"
      "one_range len (trim a) (trim b) = Some (spec_range len r)"
    using split_spec [of r len] Cons.prems by auto
  have t: "trim (print_spec r) = print_spec r" "print_spec r \<noteq> []"
    using visible_spec [of r] trim_visible_str by (auto simp: visible_str_def)
  have "range_parts len (map print_spec specs) = Some (specs \<noteq> [], List.map_filter (spec_range len) specs)"
    using Cons by (cases "specs = []") (simp_all add: map_filter_simps)
  then show ?case using ab t by (simp add: Let_def map_filter_simps split: option.split)
qed simp

lemma parse_range_header:
  assumes "list_all spec_ok specs" "specs \<noteq> []" "0 < len"
  shows "parse_range (range_header specs) len =
    (case List.map_filter (spec_range len) specs of
       [] \<Rightarrow> Unsatisfiable
     | [(s, e)] \<Rightarrow> Single s e
     | rs \<Rightarrow> Multiple rs)"
proof -
  have "c \<noteq> CHR '',''" if "c \<in> set (print_spec r)" for c r
    using that dec_str_no [of "CHR '',''"] by (cases r) auto
  then have split: "split_on CHR '','' (join_with CHR '','' (map print_spec specs)) = map print_spec specs"
    using assms(2) by (intro split_on_join) auto
  have "visible (byte_of c)" if "c \<in> set (range_header specs)" for c
  proof -
    have "c \<in> set ''bytes='' \<or> c = CHR '','' \<or> (\<exists>r. c \<in> set (print_spec r))"
      using that set_join_with [of "CHR '',''" "map print_spec specs"] by (auto simp: range_header_def)
    moreover have "\<forall>c \<in> set (CHR '','' # ''bytes=''). visible (byte_of c)" by (simp add: visible_def byte_of_def)
    ultimately show ?thesis using visible_spec by (auto simp: visible_str_def)
  qed
  then have "trim (range_header specs) = range_header specs" by (intro trim_visible) (simp_all add: range_header_def)
  moreover have "strip_prefix ''bytes='' (range_header specs) = Some (join_with CHR '','' (map print_spec specs))"
    by (simp add: strip_prefix_Some range_header_def)
  ultimately show ?thesis
    using assms by (simp add: parse_range_def split range_parts_specs split: list.split)
qed

section \<open>Validators are recognised\<close>

lemma hex_str_visible: "c \<in> set (hex_str n) \<Longrightarrow> visible (byte_of c) \<and> c \<noteq> CHR '',''"
proof -
  assume "c \<in> set (hex_str n)"
  then have "hex_digit_value c \<noteq> None" by (rule set_hex_str)
  then have "48 \<le> (of_char c :: nat) \<and> (of_char c :: nat) \<le> 102"
    by (simp add: hex_digit_value_def Let_def split: if_splits)
  then show ?thesis
    by (auto simp: visible_def word_le_nat_alt word_less_nat_alt unat_byte_of)
qed

lemma weak_etag_visible: "visible_str (weak_etag len t)" "CHR '','' \<notin> set (weak_etag len t)"
  using hex_str_visible by (auto simp: weak_etag_def visible_str_def visible_def byte_of_def)

lemma weak_etag_matches: "etag_matches (weak_etag len t) (weak_etag len t) True"
  using weak_etag_visible [of len t] by (simp add: etag_matches_def trim_visible_str)

lemma header_of_simps [simp]:
  "header_of n (rs_headers (set_header m v r)) = (if eq_ignore_ascii_case n m then Some v else header_of n (rs_headers r))"
  "rs_status (set_header m v r) = rs_status r" "rs_body (set_header m v r) = rs_body r"
  by (simp_all add: set_header_def header_of_put)

lemma response_header_set:
  "response_header n (set_header m v r) = (if eq_ignore_ascii_case n m then Some v else response_header n r)"
  by (simp add: response_header_def)

lemma head_aware_simps [simp]:
  "rs_status (head_aware h r) = rs_status r" "rs_headers (head_aware h r) = rs_headers r"
  "rs_body (head_aware False r) = rs_body r"
  by (simp_all add: head_aware_def)

lemma maybe_sendfile_simps [simp]:
  "rs_status (maybe_sendfile ds p l r) = rs_status r" "rs_body (maybe_sendfile ds p l r) = rs_body r"
  by (simp_all add: maybe_sendfile_def Let_def)

lemma names_differ [simp]:
  "\<not> eq_ignore_ascii_case ''ETag'' ''X-Tomcatrs-Sendfile''" "\<not> eq_ignore_ascii_case ''ETag'' ''Last-Modified''"
  "\<not> eq_ignore_ascii_case ''ETag'' ''Accept-Ranges''" "\<not> eq_ignore_ascii_case ''Last-Modified'' ''X-Tomcatrs-Sendfile''"
  "\<not> eq_ignore_ascii_case ''Last-Modified'' ''Accept-Ranges''"
  "\<not> eq_ignore_ascii_case ''Content-Range'' ''X-Tomcatrs-Sendfile''" "\<not> eq_ignore_ascii_case ''Content-Range'' ''ETag''"
  "\<not> eq_ignore_ascii_case ''Content-Range'' ''Last-Modified''" "\<not> eq_ignore_ascii_case ''Content-Range'' ''Accept-Ranges''"
  "\<not> eq_ignore_ascii_case ''Content-Range'' ''Date''" "\<not> eq_ignore_ascii_case ''Content-Range'' ''Server''"
  "\<not> eq_ignore_ascii_case ''Content-Range'' ''Content-Length''" "\<not> eq_ignore_ascii_case ''Content-Range'' ''Content-Type''"
  by code_simp+

lemma sendfile_headers:
  "\<not> eq_ignore_ascii_case n ''X-Tomcatrs-Sendfile'' \<Longrightarrow>
    header_of n (rs_headers (maybe_sendfile ds p l r)) = header_of n (rs_headers r)"
  by (simp add: maybe_sendfile_def Let_def)

lemma partial_response_simps:
  "rs_status (partial_response ds now p len t ct h body r) = rs_status r"
  "rs_body (partial_response ds now p len t ct False body r) = rs_body r"
  "response_header ''ETag'' (partial_response ds now p len t ct h body r) = Some (weak_etag len t)"
  "response_header ''Last-Modified'' (partial_response ds now p len t ct h body r) = Some (http_date (int t))"
  "response_header ''Content-Range'' (partial_response ds now p len t ct h body r) = response_header ''Content-Range'' r"
  by (simp_all add: partial_response_def validators_def servlet_finalize_def stamp_def response_header_def
      sendfile_headers)

lemma servlet_error_status [simp]: "rs_status (servlet_error now st reason detail) = word_of_nat st"
  by (simp add: servlet_error_def Let_def servlet_finalize_def stamp_def response_with_body_def)

section \<open>Properties\<close>

text \<open>
  C33. The servlet shows nothing but what is under the document base and outside of \<open>WEB-INF\<close> and
  \<open>META-INF\<close>: its response to any request is the same on two file systems that agree on those paths,
  whatever dots, slashes and percent signs the path of the request has.
\<close>

theorem default_servlet_confined:
  assumes "same_public ds fs fs'"
    and "list_all (\<lambda>w. file_name_ok w \<and> \<not> hidden_tree w) (ds_welcome_files ds)"
  shows "servlet_serve ds fs now req = servlet_serve ds fs' now req"
proof -
  have "serve_get ds fs now req = serve_get ds fs' now req"
  proof (cases "servlet_resolve ds (rq_path req)")
    case (ResolvedOk p)
    then have p: "public_path ds p" by (rule servlet_resolve_public)
    then have "fs_metadata fs p = fs_metadata fs' p" using assms(1) by (simp add: same_public_def)
    then show ?thesis
      using ResolvedOk serve_directory_same [OF assms(1) p assms(2)] serve_file_same [OF assms(1) p]
      by (simp add: serve_get_def Let_def split: option.split)
  qed (simp_all add: serve_get_def)
  then show ?thesis unfolding servlet_serve_def by (simp only:)
qed

text \<open>A regular file, requested by its name without conditions.\<close>

definition requests_file :: "DefaultServlet \<Rightarrow> FileSystem \<Rightarrow> Request \<Rightarrow> string list \<Rightarrow> Metadata \<Rightarrow> bytes \<Rightarrow> bool" where
  "requests_file ds fs req names md content \<longleftrightarrow>
    list_all file_name_ok names \<and> names \<noteq> [] \<and> \<not> hidden_tree (hd names) \<and>
    rq_path req = CHR ''/'' # join_with CHR ''/'' names \<and>
    fs_metadata fs (path_under (ds_doc_base ds) names) = Some md \<and> \<not> md_is_dir md \<and>
    fs_read fs (path_under (ds_doc_base ds) names) = Some content \<and> md_len md = length content"

definition unconditional :: "Request \<Rightarrow> bool" where
  "unconditional req \<longleftrightarrow>
    list_all (\<lambda>n. request_header n req = None)
      [''If-Match'', ''If-Unmodified-Since'', ''If-None-Match'', ''If-Modified-Since'']"

lemma serve_requested_file:
  assumes "requests_file ds fs req names md content" "rq_method req \<in> {''GET'', ''HEAD''}"
  shows "servlet_serve ds fs now req =
    serve_file ds fs now req (path_under (ds_doc_base ds) names) md (rq_method req = ''HEAD'')"
  using assms servlet_resolve_names [of names ds]
  by (auto simp: requests_file_def servlet_serve_def serve_get_def Let_def)

lemma map_filter_spec_range:
  "List.map_filter (spec_range len) specs =
    map (\<lambda>spec. the (spec_range len spec)) (filter (\<lambda>spec. spec_range len spec \<noteq> None) specs)"
proof (induction specs)
  case (Cons spec specs)
  then show ?case by (cases "spec_range len spec") (simp_all add: map_filter_simps)
qed (simp add: map_filter_simps)

definition expected_part :: "string \<Rightarrow> string \<Rightarrow> bytes \<Rightarrow> RangeSpec \<Rightarrow> bytes" where
  "expected_part content_type boundary content spec =
    (case the (spec_range (length content) spec) of
       (s, e) \<Rightarrow> part_head content_type (length content) boundary s e @
         nths content {i. names_position (length content) spec i})"

lemma multipart_parts_specs:
  assumes "content \<noteq> []" "\<And>spec. spec \<in> set specs \<Longrightarrow> spec_range (length content) spec \<noteq> None"
  shows "multipart_parts content (map (\<lambda>spec. the (spec_range (length content) spec)) specs) ct (length content) b =
    Some (concat (map (expected_part ct b content) specs))"
  using assms(2)
proof (induction specs)
  case (Cons spec specs)
  obtain s e where se: "spec_range (length content) spec = Some (s, e)"
    using Cons.prems [of spec] by (cases "spec_range (length content) spec") auto
  then show ?case
    using Cons slice_inclusive_nths [OF se assms(1)] by (simp add: expected_part_def)
qed simp

text \<open>
  C34. Ranges are served as RFC 9110 has it: for a file that is read whole and ranges that are well-formed,
  a single satisfiable range gives status 206, its interval in \<open>Content-Range\<close> and exactly the bytes at the
  positions it names; several give one part each, in the order asked, each with its interval and its bytes;
  and where no range names a position of the file the status is 416. The slicing never panics.
\<close>

theorem default_servlet_ranges:
  assumes "requests_file ds fs req names md content" "rq_method req = ''GET''" "unconditional req" "content \<noteq> []"
    and "request_header ''Range'' req = Some (range_header specs)" "list_all spec_ok specs" "specs \<noteq> []"
  shows "\<exists>r. servlet_serve ds fs now req = Some r \<and>
    (case filter (\<lambda>spec. \<exists>i. names_position (length content) spec i) specs of
       [] \<Rightarrow> rs_status r = 416
     | [spec] \<Rightarrow>
         rs_status r = 206 \<and> rs_body r = nths content {i. names_position (length content) spec i} \<and>
         (\<exists>s e. (\<forall>i. names_position (length content) spec i \<longleftrightarrow> s \<le> i \<and> i \<le> e) \<and>
            response_header ''Content-Range'' r =
              Some (''bytes '' @ dec_str s @ ''-'' @ dec_str e @ ''/'' @ dec_str (length content)))
     | satisfiable \<Rightarrow>
         rs_status r = 206 \<and>
         (\<exists>content_type boundary. rs_body r =
            concat (map (expected_part content_type boundary content) satisfiable) @
            as_bytes (line_end @ ''--'' @ boundary @ ''--'' @ line_end)))"
proof -
  define path where "path = path_under (ds_doc_base ds) names"
  define mtime where "mtime = (case md_modified md of Some t \<Rightarrow> t | None \<Rightarrow> 0)"
  let ?len = "length content"
  let ?ct = "content_type_for path" and ?b = "multipart_boundary (weak_etag ?len mtime) mtime"
  define sat where "sat = filter (\<lambda>spec. \<exists>i. names_position ?len spec i) specs"
  have len: "0 < ?len" using assms(4) by simp
  have f: "fs_read fs path = Some content" "md_len md = ?len" using assms(1) by (simp_all add: requests_file_def path_def)
  have sat_iff: "spec_range ?len spec \<noteq> None \<longleftrightarrow> (\<exists>i. names_position ?len spec i)" for spec
    using spec_range_positions(1) [OF len, of spec] by auto
  have ranges: "List.map_filter (spec_range ?len) specs = map (\<lambda>spec. the (spec_range ?len spec)) sat"
    by (simp only: map_filter_spec_range sat_iff sat_def)
  have serve: "servlet_serve ds fs now req = serve_file ds fs now req path md False"
    using serve_requested_file [OF assms(1)] assms(2) by (simp add: path_def)
  have pass: "\<not> gate_fails req etag t" "\<not> not_modified req etag t" for etag t
    using assms(3) by (simp_all add: unconditional_def gate_fails_def not_modified_def)
  note serving = serve_file_def Let_def pass f assms(5) parse_range_header [OF assms(6,7) len] ranges
    mtime_def [symmetric]
  consider "sat = []" | spec where "sat = [spec]" | spec spec' rest where "sat = spec # spec' # rest"
    by (cases sat rule: remdups_adj.cases) auto
  then show ?thesis
  proof cases
    case 1
    then show ?thesis by (simp add: serve serving sat_def [symmetric])
  next
    case (2 spec)
    then have "spec \<in> set sat" by simp
    then obtain s e where se: "spec_range ?len spec = Some (s, e)" using sat_iff [of spec] by (auto simp: sat_def)
    let ?body = "nths content {i. names_position ?len spec i}"
    let ?range = "''bytes '' @ dec_str s @ ''-'' @ dec_str e @ ''/'' @ dec_str ?len"
    let ?r = "partial_response ds now path ?len mtime ?ct False ?body
      (set_header ''Content-Range'' ?range (response_with_body 206 ?body))"
    have "servlet_serve ds fs now req = Some ?r"
      using 2 slice_inclusive_nths [OF se assms(4)] by (simp add: serve serving se)
    moreover have "rs_status ?r = 206" "rs_body ?r = ?body" "response_header ''Content-Range'' ?r = Some ?range"
      by (simp_all add: partial_response_simps response_with_body_def response_header_set)
    moreover have "\<forall>i. names_position ?len spec i \<longleftrightarrow> s \<le> i \<and> i \<le> e"
      using spec_range_positions(2) [OF len se] by blast
    ultimately show ?thesis
      unfolding sat_def [symmetric] 2 list.case by blast
  next
    case (3 spec spec' rest)
    have all: "spec_range ?len x \<noteq> None" if "x \<in> set sat" for x using that sat_iff by (simp add: sat_def)
    have parts: "build_multipart content (map (\<lambda>spec. the (spec_range ?len spec)) sat) ?ct ?len ?b =
        Some (concat (map (expected_part ?ct ?b content) sat) @ as_bytes (line_end @ ''--'' @ ?b @ ''--'' @ line_end))"
      using multipart_parts_specs [OF assms(4) all] by (simp only: build_multipart_def option.map)
    obtain a1 b1 a2 b2 where "the (spec_range ?len spec) = (a1, b1)" "the (spec_range ?len spec') = (a2, b2)"
      by (cases "the (spec_range ?len spec)"; cases "the (spec_range ?len spec')") auto
    then show ?thesis
      using parts unfolding 3
      by (simp add: serve serving sat_def [symmetric] 3 partial_response_simps response_with_body_def) blast
  qed
qed

text \<open>A file that is cut between \<open>fs::metadata\<close> and \<open>fs::read\<close> takes the slice out of bounds.\<close>

lemma truncated_file_panics:
  assumes "fs_read fs path = Some content" "length content < md_len md" "md_len md \<le> usize_max"
    and "unconditional req" "request_header ''Range'' req = Some (range_header [From 0])"
  shows "serve_file ds fs now req path md h = None"
proof -
  have "parse_range (range_header [From 0]) (md_len md) = Single 0 (md_len md - 1)"
    using assms(2) by (simp add: parse_range_header map_filter_simps)
  moreover have "slice_inclusive content 0 (md_len md - 1) = None" using assms(2) by (simp add: slice_inclusive_def)
  ultimately show ?thesis
    using assms by (simp add: serve_file_def Let_def unconditional_def gate_fails_def not_modified_def)
qed

text \<open>Ranges may overlap, so a short request makes a body as many times the file as it has ranges.\<close>

lemma overlapping_ranges_amplify:
  assumes "content \<noteq> []" "multipart_parts content (replicate n (0, length content - 1)) ct full_len b = Some body"
  shows "n * length content \<le> length body"
  using assms(2)
proof (induction n arbitrary: body)
  case (Suc n)
  have "slice_inclusive content 0 (length content - 1) = Some content"
    using assms(1) by (simp add: slice_inclusive_def)
  then obtain parts where "multipart_parts content (replicate n (0, length content - 1)) ct full_len b = Some parts"
      "body = part_head ct full_len b 0 (length content - 1) @ content @ parts"
    using Suc.prems by (auto split: option.splits)
  then show ?case using Suc.IH [of parts] by simp
qed simp

text \<open>The conditional requests of a client that has the file.\<close>

definition with_header :: "string \<Rightarrow> string \<Rightarrow> Request \<Rightarrow> Request" where
  "with_header n v req = req\<lparr>rq_headers := (n, v) # rq_headers req\<rparr>"

lemma request_header_with:
  "request_header n (with_header m v req) = (if eq_ignore_ascii_case m n then Some v else request_header n req)"
  by (simp add: request_header_def with_header_def)

lemma with_header_simps [simp]: "rq_method (with_header n v req) = rq_method req" "rq_path (with_header n v req) = rq_path req"
  by (simp_all add: with_header_def)

lemma condition_names [simp]:
  "\<not> eq_ignore_ascii_case ''If-None-Match'' ''If-Match''" "\<not> eq_ignore_ascii_case ''If-None-Match'' ''If-Unmodified-Since''"
  "\<not> eq_ignore_ascii_case ''If-Modified-Since'' ''If-Match''" "\<not> eq_ignore_ascii_case ''If-Modified-Since'' ''If-Unmodified-Since''"
  "\<not> eq_ignore_ascii_case ''If-Modified-Since'' ''If-None-Match''"
  by code_simp+

lemma serve_file_full:
  assumes "serve_file ds fs now req path md h = Some r" "rs_status r = 200"
  shows "\<not> gate_fails req (weak_etag (md_len md) (case md_modified md of Some t \<Rightarrow> t | None \<Rightarrow> 0))
      (case md_modified md of Some t \<Rightarrow> t | None \<Rightarrow> 0)"
    and "response_header ''ETag'' r = Some (weak_etag (md_len md) (case md_modified md of Some t \<Rightarrow> t | None \<Rightarrow> 0))"
    and "response_header ''Last-Modified'' r = Some (http_date (int (case md_modified md of Some t \<Rightarrow> t | None \<Rightarrow> 0)))"
proof -
  let ?t = "case md_modified md of Some t \<Rightarrow> t | None \<Rightarrow> 0"
  have "\<not> gate_fails req (weak_etag (md_len md) ?t) ?t \<and>
      (\<exists>now ct body r'. r = partial_response ds now path (md_len md) ?t ct h body r')"
    using assms
    by (auto simp: serve_file_def Let_def precondition_failed_def validators_def stamp_def response_new_def
        split: if_splits option.splits RangeParse.splits)
  then show "\<not> gate_fails req (weak_etag (md_len md) ?t) ?t"
      "response_header ''ETag'' r = Some (weak_etag (md_len md) ?t)"
      "response_header ''Last-Modified'' r = Some (http_date (int ?t))"
    by (auto simp: partial_response_simps)
qed

lemma serve_file_304:
  assumes "\<not> gate_fails req (weak_etag (md_len md) t) t" "t = (case md_modified md of Some t \<Rightarrow> t | None \<Rightarrow> 0)"
    "not_modified req (weak_etag (md_len md) t) t"
  shows "\<exists>r. serve_file ds fs now req path md h = Some r \<and> rs_status r = 304 \<and> rs_body r = []"
  using assms by (simp add: serve_file_def Let_def stamp_def validators_def response_new_def)

text \<open>
  C35. What the servlet tells a cache is what it accepts back: a file served in full carries an
  \<open>ETag\<close> and a \<open>Last-Modified\<close> date, and a request with that tag in \<open>If-None-Match\<close>, or with that date in
  \<open>If-Modified-Since\<close>, is answered with 304 and no body as long as the file is the same. For this the date is
  printed, sent back, parsed and compared.
\<close>

theorem default_servlet_revalidates:
  assumes "requests_file ds fs req names md content" "rq_method req \<in> {''GET'', ''HEAD''}"
    and "servlet_serve ds fs now req = Some r" "rs_status r = 200"
    and "case md_modified md of Some t \<Rightarrow> t < 2 ^ 63 | None \<Rightarrow> True"
  shows "\<exists>tag date. response_header ''ETag'' r = Some tag \<and> response_header ''Last-Modified'' r = Some date \<and>
    (\<exists>r'. servlet_serve ds fs later (with_header ''If-None-Match'' tag req) = Some r' \<and>
       rs_status r' = 304 \<and> rs_body r' = []) \<and>
    (request_header ''If-None-Match'' req = None \<longrightarrow>
       (\<exists>r'. servlet_serve ds fs later (with_header ''If-Modified-Since'' date req) = Some r' \<and>
          rs_status r' = 304 \<and> rs_body r' = []))"
proof -
  define t where "t = (case md_modified md of Some t \<Rightarrow> t | None \<Rightarrow> 0)"
  let ?tag = "weak_etag (md_len md) t" and ?date = "http_date (int t)"
  let ?inm = "with_header ''If-None-Match'' ?tag req" and ?ims = "with_header ''If-Modified-Since'' ?date req"
  have serve: "servlet_serve ds fs n q =
      serve_file ds fs n q (path_under (ds_doc_base ds) names) md (rq_method q = ''HEAD'')"
    if "rq_method q = rq_method req" "rq_path q = rq_path req" for n q
    using serve_requested_file [of ds fs q names md content] assms(1,2) that by (simp add: requests_file_def)
  note full = serve_file_full [OF assms(3) [unfolded serve [OF refl refl]] assms(4), folded t_def]
  have same: "request_header ''If-Match'' ?inm = request_header ''If-Match'' req"
      "request_header ''If-Unmodified-Since'' ?inm = request_header ''If-Unmodified-Since'' req"
      "request_header ''If-Match'' ?ims = request_header ''If-Match'' req"
      "request_header ''If-Unmodified-Since'' ?ims = request_header ''If-Unmodified-Since'' req"
    by (simp_all add: request_header_with)
  have gate: "\<not> gate_fails ?inm ?tag t" "\<not> gate_fails ?ims ?tag t"
    using full(1) unfolding gate_fails_def same by simp_all
  have "not_modified ?inm ?tag t" by (simp add: not_modified_def request_header_with weak_etag_matches)
  moreover have "not_modified ?ims ?tag t" if "request_header ''If-None-Match'' req = None"
  proof -
    have "parse_http_date ?date = Some (int t)"
      using assms(5) by (intro parse_http_date_http_date) (auto simp: t_def split: option.splits)
    then show ?thesis using that by (simp add: not_modified_def request_header_with)
  qed
  ultimately show ?thesis
    using full(2,3) serve_file_304 [OF gate(1) t_def] serve_file_304 [OF gate(2) t_def]
      serve [of ?inm] serve [of ?ims] by auto
qed

section \<open>An example\<close>

definition sample_fs :: FileSystem where
  "sample_fs =
    \<lparr>fs_metadata = (\<lambda>p. if p = ''/w/a.txt'' then
         Some \<lparr>md_is_dir = False, md_is_file = True, md_len = 4, md_modified = Some 0\<rparr> else None),
     fs_read = (\<lambda>p. if p = ''/w/a.txt'' then Some [1, 2, 3, 4] else None),
     fs_read_dir = (\<lambda>_. None)\<rparr>"

definition sample_servlet :: DefaultServlet where
  "sample_servlet = servlet_for_context ''/w'' []"

definition sample_request :: "(string \<times> string) list \<Rightarrow> Request" where
  "sample_request hs =
    \<lparr>rq_method = ''GET'', rq_uri = ''/a.txt'', rq_path = ''/a.txt'', rq_query = None, rq_version = ''HTTP/1.1'',
     rq_headers = hs, rq_body = [], rq_peer_addr = ''127.0.0.1:4000''\<rparr>"

lemma sample_requests_file:
  "requests_file sample_servlet sample_fs (sample_request hs) [''a.txt'']
    \<lparr>md_is_dir = False, md_is_file = True, md_len = 4, md_modified = Some 0\<rparr> [1, 2, 3, 4]"
  by (simp add: requests_file_def file_name_ok_def hidden_tree_def to_ascii_uppercase_def to_ascii_upper_def
      sample_request_def sample_servlet_def servlet_for_context_def sample_fs_def path_under_def path_push_def Let_def)

theorem default_servlet_confined_witness:
  "servlet_serve sample_servlet sample_fs 0 (sample_request []) =
    servlet_serve sample_servlet
      (sample_fs\<lparr>fs_read := (\<lambda>p. if p = ''/w/WEB-INF/web.xml'' then Some [9] else fs_read sample_fs p)\<rparr>) 0 (sample_request [])"
proof (rule default_servlet_confined)
  have "p \<noteq> ''/w/WEB-INF/web.xml''" if public: "public_path sample_servlet p" for p
  proof
    assume p: "p = ''/w/WEB-INF/web.xml''"
    from public obtain names where names: "list_all file_name_ok names" "names \<noteq> [] \<longrightarrow> \<not> hidden_tree (hd names)"
      "p = path_under ''/w'' names" by (auto simp: public_path_def sample_servlet_def servlet_for_context_def)
    have "path_components ''/w/WEB-INF/web.xml'' = path_components ''/w'' @ [Normal ''WEB-INF'', Normal ''web.xml'']"
      by code_simp
    then have "map Normal names = [Normal ''WEB-INF'', Normal ''web.xml'']"
      using path_components_under [OF names(1), of "''/w''"] names(3) p by simp
    then have "names = [''WEB-INF'', ''web.xml'']" by (auto simp: map_eq_Cons_conv)
    then show False using names(2) by (simp add: hidden_tree_def to_ascii_uppercase_def to_ascii_upper_def)
  qed
  then show "same_public sample_servlet sample_fs
      (sample_fs\<lparr>fs_read := (\<lambda>p. if p = ''/w/WEB-INF/web.xml'' then Some [9] else fs_read sample_fs p)\<rparr>)"
    by (simp add: same_public_def)
  show "list_all (\<lambda>w. file_name_ok w \<and> \<not> hidden_tree w) (ds_welcome_files sample_servlet)"
    by (simp add: sample_servlet_def servlet_for_context_def file_name_ok_def hidden_tree_def
        to_ascii_uppercase_def to_ascii_upper_def)
qed

lemma sample_unconditional: "unconditional (sample_request [(''Range'', v)])" "unconditional (sample_request [])"
  by (simp_all add: unconditional_def request_header_def sample_request_def eq_ignore_ascii_case_def
      to_ascii_lowercase_def to_ascii_lower_def)

theorem default_servlet_ranges_witness:
  "\<exists>r. servlet_serve sample_servlet sample_fs 0 (sample_request [(''Range'', ''bytes=1-2,9-'')]) = Some r \<and>
    rs_status r = 206 \<and> rs_body r = [2, 3]"
proof -
  let ?req = "sample_request [(''Range'', ''bytes=1-2,9-'')]"
  have header: "range_header [Between 1 2, From 9] = ''bytes=1-2,9-''" by code_simp
  have get: "rq_method ?req = ''GET''" by (simp add: sample_request_def)
  have asked: "request_header ''Range'' ?req = Some (range_header [Between 1 2, From 9])"
    unfolding header by (simp add: request_header_def sample_request_def)
  have ok: "list_all spec_ok [Between 1 2, From 9]" by (simp add: usize_max_def)
  have len: "length [1, 2, 3, 4 :: 8 word] = 4" by simp
  have "\<exists>i. names_position 4 (Between 1 2) i" by (rule exI [of _ 1]) simp
  moreover have "\<not> (\<exists>i. names_position 4 (From 9) i)" by simp
  ultimately have "filter (\<lambda>spec. \<exists>i. names_position 4 spec i) [Between 1 2, From 9] = [Between 1 2]"
    by (simp only: filter.simps if_True if_False)
  note asserted = default_servlet_ranges [OF sample_requests_file get sample_unconditional(1) _ asked ok, of 0,
      unfolded len this list.case]
  then obtain r where "servlet_serve sample_servlet sample_fs 0 ?req = Some r" "rs_status r = 206"
    "rs_body r = nths [1, 2, 3, 4] {i. names_position 4 (Between 1 2) i}" by (auto simp del: names_position.simps)
  moreover have "{i. names_position 4 (Between 1 2) i} = {i. 1 \<le> i \<and> i \<le> 2}" by auto
  ultimately show ?thesis using nths_interval [of "[1, 2, 3, 4 :: 8 word]" 1 2] by simp
qed

theorem default_servlet_revalidates_witness:
  "\<exists>r tag r'. servlet_serve sample_servlet sample_fs 0 (sample_request []) = Some r \<and>
    response_header ''ETag'' r = Some tag \<and>
    servlet_serve sample_servlet sample_fs 9 (with_header ''If-None-Match'' tag (sample_request [])) = Some r' \<and>
    rs_status r' = 304 \<and> rs_body r' = []"
proof -
  have get: "rq_method (sample_request []) = ''GET''" by (simp add: sample_request_def)
  obtain r where r: "servlet_serve sample_servlet sample_fs 0 (sample_request []) = Some r" "rs_status r = 200"
    using serve_requested_file [OF sample_requests_file, of "[]" 0] sample_unconditional(2)
    by (simp add: get serve_file_def Let_def unconditional_def gate_fails_def not_modified_def sample_fs_def
        path_under_def path_push_def sample_servlet_def servlet_for_context_def partial_response_simps
        response_with_body_def request_header_def sample_request_def)
  then show ?thesis
    using default_servlet_revalidates [OF sample_requests_file _ r, of 9] get by auto
qed

end
