(* ===== verification/Adapter.thy ===== *)
theory Adapter
  imports DefaultServlet Mapper
begin

text \<open>
  The adapter that the server hands to its connectors, \<open>src/crates/tomcatrs-catalina/src/adapter.rs\<close>:
  routing by the mapper, a placeholder for servlets, static files. The file system is the parameter of the
  default servlet; \<open>is_dir\<close> and \<open>exists\<close> read its metadata. The current time is a parameter.
\<close>

section \<open>The adapter\<close>

record CatalinaAdapter =
  ca_engine :: Engine
  ca_app_base :: string

definition display_context_path :: "string \<Rightarrow> string" where
  "display_context_path path = (if path = [] then ''/'' else path)"

text \<open>The arithmetic of \<open>http_date_now\<close> is that of \<open>http_date\<close> in the default servlet, line by line.\<close>

definition adapter_http_date_now :: "nat \<Rightarrow> string" where
  "adapter_http_date_now secs = http_date (int secs)"

definition adapter_finalize :: "nat \<Rightarrow> string \<Rightarrow> Response \<Rightarrow> Response" where
  "adapter_finalize now content_type resp =
    set_header ''Content-Type'' content_type
      (set_header ''Date'' (adapter_http_date_now now) (set_header ''Server'' (''Tomcat-RS/'' @ VERSION) resp))"

definition mapped_placeholder :: "nat \<Rightarrow> MappingResult \<Rightarrow> Response" where
  \<open>mapped_placeholder now m =
    (let context_path = display_context_path (cx_path (mr_context m));
         servlet_name = wr_servlet_name (mr_wrapper m);
         body =
           ''<!DOCTYPE html>'' @ nl @ ''<html lang="en">'' @ nl @
           ''<head><meta charset="utf-8"><title>501 Not Implemented</title></head>'' @ nl @
           ''<body style="font-family: system-ui, sans-serif;">'' @ nl @
           ''<h1>501 &mdash; servlet routing succeeded</h1>'' @ nl @
           ''<p>The Catalina mapper resolved this request, but the JVM servlet'' @ nl @
           ''bridge is not wired into this build, so the servlet was not'' @ nl @ ''invoked.</p>'' @ nl @
           ''<ul>'' @ nl @
           ''<li><strong>Host:</strong> '' @ ho_name (mr_host m) @ ''</li>'' @ nl @
           ''<li><strong>Context:</strong> '' @ context_path @ ''</li>'' @ nl @
           ''<li><strong>Servlet:</strong> '' @ servlet_name @ '' ('' @ wr_servlet_class (mr_wrapper m) @ '')</li>'' @ nl @
           ''<li><strong>Servlet path:</strong> '' @ mr_servlet_path m @ ''</li>'' @ nl @
           ''<li><strong>Path info:</strong> '' @ (case mr_path_info m of Some i \<Rightarrow> i | None \<Rightarrow> []) @ ''</li>'' @ nl @
           ''<li><strong>Matched pattern:</strong> '' @ as_pattern_string (mr_matched_pattern m) @ ''</li>'' @ nl @
           ''</ul>'' @ nl @ ''</body>'' @ nl @ ''</html>'' @ nl
     in adapter_finalize now ''text/html; charset=utf-8''
          (set_header ''X-Tomcatrs-Mapped'' (context_path @ '';'' @ servlet_name)
            (response_with_body 501 (as_bytes body))))\<close>

definition adapter_content_type_for :: "string \<Rightarrow> string" where
  "adapter_content_type_for path =
    (case path_extension path of
       None \<Rightarrow> ''text/plain; charset=utf-8''
     | Some e \<Rightarrow>
         (case map_of
             [(''html'', ''text/html; charset=utf-8''), (''htm'', ''text/html; charset=utf-8''),
              (''css'', ''text/css; charset=utf-8''), (''js'', ''application/javascript; charset=utf-8''),
              (''mjs'', ''application/javascript; charset=utf-8''), (''json'', ''application/json''),
              (''png'', ''image/png''), (''jpg'', ''image/jpeg''), (''jpeg'', ''image/jpeg''),
              (''svg'', ''image/svg+xml''), (''txt'', ''text/plain; charset=utf-8'')]
             (to_ascii_lowercase e) of
            Some t \<Rightarrow> t
          | None \<Rightarrow> ''text/plain; charset=utf-8''))"

definition landing_page :: string where
  \<open>landing_page =
    ''<!DOCTYPE html>'' @ nl @ ''<html lang="en">'' @ nl @
    ''<head><meta charset="utf-8"><title>Tomcat-RS Compatibility Runtime</title></head>'' @ nl @
    ''<body style="font-family: system-ui, sans-serif; max-width: 40rem; margin: 4rem auto;">'' @ nl @
    ''<h1>Tomcat-RS Compatibility Runtime v'' @ VERSION @ '' &mdash; it works!</h1>'' @ nl @
    ''<p>This request was routed through the Catalina mapper. No servlet or'' @ nl @
    ''static file claimed it, so this default page is served from the'' @ nl @
    ''document root.</p>'' @ nl @
    ''<p><strong>Note:</strong> Servlet and JSP execution is delegated to the'' @ nl @
    ''JVM bridge, which is <em>not</em> wired into this build.</p>'' @ nl @
    ''</body>'' @ nl @ ''</html>'' @ nl\<close>

definition adapter_error_report :: "nat \<Rightarrow> string \<Rightarrow> string \<Rightarrow> string" where
  \<open>adapter_error_report status reason path =
    ''<!DOCTYPE html>'' @ nl @ ''<html lang="en">'' @ nl @
    ''<head><meta charset="utf-8"><title>'' @ dec_str status @ '' '' @ reason @ ''</title></head>'' @ nl @
    ''<body style="font-family: system-ui, sans-serif;">'' @ nl @
    ''<h1>HTTP Status '' @ dec_str status @ '' &mdash; '' @ reason @ ''</h1>'' @ nl @ ''<hr>'' @ nl @
    ''<p><strong>Path:</strong> '' @ path @ ''</p>'' @ nl @
    ''<p><strong>Description:</strong> The origin server did not find a'' @ nl @
    ''current representation for the target resource or is not willing to'' @ nl @
    ''disclose that one exists.</p>'' @ nl @ ''<hr>'' @ nl @
    ''<h3>Tomcat-RS Compatibility Runtime v'' @ VERSION @ ''</h3>'' @ nl @
    ''</body>'' @ nl @ ''</html>'' @ nl\<close>

fun push_components :: "Component list \<Rightarrow> string \<Rightarrow> string option" where
  "push_components [] resolved = Some resolved"
| "push_components (Normal part # cs) resolved = push_components cs (path_push resolved part)"
| "push_components (CurDir # cs) resolved = push_components cs resolved"
| "push_components (RootDir # cs) resolved = push_components cs resolved"
| "push_components (ParentDir # cs) resolved = None"

definition resolve_under :: "string \<Rightarrow> string \<Rightarrow> string option" where
  "resolve_under doc_base request_path =
    (let rel = dropWhile (\<lambda>c. c = CHR ''/'') request_path
     in case push_components (path_components rel) doc_base of
          None \<Rightarrow> None
        | Some resolved \<Rightarrow> if path_starts_with resolved doc_base then Some resolved else None)"

definition path_is_dir :: "FileSystem \<Rightarrow> string \<Rightarrow> bool" where
  "path_is_dir fs p \<longleftrightarrow> (case fs_metadata fs p of Some md \<Rightarrow> md_is_dir md | None \<Rightarrow> False)"

definition serve_static :: "FileSystem \<Rightarrow> nat \<Rightarrow> string \<Rightarrow> Request \<Rightarrow> Response" where
  "serve_static fs now doc_base req =
    (if rq_method req \<noteq> ''GET'' \<and> rq_method req \<noteq> ''HEAD'' then
       adapter_finalize now ''text/html; charset=utf-8''
         (response_with_body 405 (as_bytes (adapter_error_report 405 ''Method Not Allowed'' (rq_path req))))
     else case resolve_under doc_base (rq_path req) of
       None \<Rightarrow>
         adapter_finalize now ''text/html; charset=utf-8''
           (response_with_body 403 (as_bytes (adapter_error_report 403 ''Forbidden'' (rq_path req))))
     | Some resolved \<Rightarrow>
         (let target = (if path_is_dir fs resolved then path_push resolved ''index.html'' else resolved);
              without_body = (\<lambda>resp. if rq_method req = ''HEAD'' then resp\<lparr>rs_body := []\<rparr> else resp)
          in case fs_read fs target of
            Some content \<Rightarrow>
              adapter_finalize now (adapter_content_type_for target) (without_body (response_with_body 200 content))
          | None \<Rightarrow>
              if rq_path req = ''/'' \<or> rq_path req = [] \<or>
                 path_components resolved = path_components doc_base \<and>
                   fs_metadata fs (path_push resolved ''index.html'') = None then
                adapter_finalize now ''text/html; charset=utf-8''
                  (without_body (response_with_body 200 (as_bytes landing_page)))
              else
                adapter_finalize now ''text/html; charset=utf-8''
                  (without_body (response_with_body 404
                    (as_bytes (adapter_error_report 404 ''Not Found'' (rq_path req)))))))"

definition adapter_host :: "Request \<Rightarrow> string" where
  "adapter_host req = (case request_header ''Host'' req of Some h \<Rightarrow> h | None \<Rightarrow> [])"

definition adapter_doc_base :: "CatalinaAdapter \<Rightarrow> Request \<Rightarrow> string" where
  "adapter_doc_base ca req =
    (case resolve_host (ca_engine ca) (adapter_host req) of
       None \<Rightarrow> ca_app_base ca
     | Some host \<Rightarrow>
         (case resolve_context host (rq_path req) of
            Some ctx \<Rightarrow> cx_doc_base ctx
          | None \<Rightarrow> ca_app_base ca))"

definition adapter_service :: "FileSystem \<Rightarrow> nat \<Rightarrow> CatalinaAdapter \<Rightarrow> Request \<Rightarrow> Response" where
  "adapter_service fs now ca req =
    (case map_request (ca_engine ca) (adapter_host req) (rq_path req) of
       Some mapping \<Rightarrow>
         (let resp = mapped_placeholder now mapping
          in if rq_method req = ''HEAD'' then resp\<lparr>rs_body := []\<rparr> else resp)
     | None \<Rightarrow> serve_static fs now (adapter_doc_base ca req) req)"

section \<open>Lemmas\<close>

lemma push_components_resolve:
  "push_components cs base = map_option fst (resolve_loop cs base f)"
  by (induction cs base f rule: resolve_loop.induct) simp_all

lemma adapter_finalize_simps [simp]:
  "rs_status (adapter_finalize now ct r) = rs_status r" "rs_body (adapter_finalize now ct r) = rs_body r"
  "response_header ''Content-Type'' (adapter_finalize now ct r) = Some ct"
  by (simp_all add: adapter_finalize_def response_header_set)

text \<open>Whatever is resolved is a name list below the base.\<close>

lemma resolve_under_names:
  "resolve_under base p = Some q \<Longrightarrow> \<exists>names. list_all file_name_ok names \<and> q = path_under base names"
proof -
  assume "resolve_under base p = Some q"
  then obtain g where "resolve_loop (path_components (dropWhile (\<lambda>c. c = CHR ''/'') p)) base None = Some (q, g)"
    by (auto simp: resolve_under_def Let_def push_components_resolve [where f = None] split: option.splits if_splits)
  from resolve_loop_names [OF this path_components_normal [where p = "dropWhile (\<lambda>c. c = CHR ''/'') p"]]
  show ?thesis by blast
qed

text \<open>A path from the normaliser is its segments.\<close>

lemma name_file_ok: "is_name s \<Longrightarrow> CHR ''/'' \<notin> set s \<Longrightarrow> file_name_ok s"
  by (auto simp: is_name_def file_name_ok_def)

definition path_names :: "string \<Rightarrow> string list" where
  "path_names p = filter (\<lambda>s. s \<noteq> []) (split_on CHR ''/'' p)"

lemma safe_path_names: "safe_path p \<Longrightarrow> list_all file_name_ok (path_names p)"
proof -
  assume safe: "safe_path p"
  then obtain segs where p: "split_on CHR ''/'' p = [] # segs" and ne: "segs \<noteq> []"
    and names: "list_all is_name (butlast segs)" "last segs = [] \<or> is_name (last segs)"
    by (auto simp: safe_path_def split: list.splits)
  have "is_name s" if "s \<in> set segs" "s \<noteq> []" for s
  proof -
    have "segs = butlast segs @ [last segs]" using ne by simp
    then have "s \<in> set (butlast segs) \<or> s = last segs" using that(1) by (metis Un_iff empty_iff insert_iff list.set set_append)
    then show ?thesis using names that(2) by (auto simp: list_all_iff)
  qed
  then show ?thesis
    using split_on_no_sep [of _ "CHR ''/''" p] by (auto simp: path_names_def p list_all_iff intro!: name_file_ok)
qed

lemma path_components_names:
  assumes "list_all file_name_ok (path_names p)" "hd p \<noteq> CHR ''/''"
  shows "path_components p = map Normal (path_names p)"
proof -
  have "List.map_filter piece_component ss = map Normal (filter (\<lambda>s. s \<noteq> []) ss)"
    if "list_all file_name_ok (filter (\<lambda>s. s \<noteq> []) ss)" for ss
    using that
  proof (induction ss)
    case (Cons s ss)
    then show ?case
      by (cases "s = []") (simp_all add: map_filter_simps piece_component_name, simp add: piece_component_def)
  qed (simp add: map_filter_simps)
  moreover have "hd (split_on CHR ''/'' p) \<noteq> ''.''"
  proof
    assume dot: "hd (split_on CHR ''/'' p) = ''.''"
    then have "''.'' \<in> set (path_names p)"
      using split_on_not_Nil [of "CHR ''/''" p] hd_in_set [of "split_on CHR ''/'' p"] by (auto simp: path_names_def)
    then show False using assms(1) by (auto simp: list_all_iff file_name_ok_def)
  qed
  ultimately show ?thesis
    using assms by (auto simp: path_components_def path_names_def)
qed

lemma path_names_drop: "path_names (dropWhile (\<lambda>c. c = CHR ''/'') p) = path_names p"
  by (induction p) (simp_all add: path_names_def)

lemma resolve_safe_path:
  "safe_path p \<Longrightarrow> resolve_under base p = Some (path_under base (path_names p))"
proof -
  assume safe: "safe_path p"
  let ?rel = "dropWhile (\<lambda>c. c = CHR ''/'') p"
  have ok: "list_all file_name_ok (path_names p)" using safe by (rule safe_path_names)
  have "path_components ?rel = map Normal (path_names p)"
  proof (cases "?rel = []")
    case True
    have "path_names [] = []" by (simp add: path_names_def)
    then show ?thesis
      using path_names_drop [of p] unfolding True by (simp add: path_components_def map_filter_simps piece_component_def)
  next
    case False
    then have "hd ?rel \<noteq> CHR ''/''" using hd_dropWhile by blast
    then show ?thesis using path_components_names [of ?rel] ok by (simp add: path_names_drop)
  qed
  then show ?thesis
    using path_starts_with_under [OF ok]
    by (simp add: resolve_under_def push_components_resolve [where f = None] resolve_loop_normal)
qed

lemma safe_path_root: "safe_path p \<Longrightarrow> path_names p = [] \<Longrightarrow> p = ''/''"
proof -
  assume safe: "safe_path p" and none: "path_names p = []"
  then obtain segs where p: "split_on CHR ''/'' p = [] # segs" and ne: "segs \<noteq> []"
    and names: "list_all is_name (butlast segs)" by (auto simp: safe_path_def split: list.splits)
  have empty: "s = []" if "s \<in> set segs" for s using none that by (auto simp: path_names_def p filter_empty_conv)
  have "butlast segs = []"
  proof (cases "butlast segs")
    case (Cons s ss)
    then have "s \<in> set segs" "is_name s" using names in_set_butlastD [of s segs] by simp_all
    then show ?thesis using empty by (simp add: is_name_def)
  qed
  then have "segs = [last segs]" using ne by (metis append_butlast_last_id append_Nil)
  moreover have "last segs = []" using empty ne by simp
  ultimately show "p = ''/''" using join_with_split_on [of "CHR ''/''" p] unfolding p by simp
qed

lemma components_of_base: "list_all file_name_ok names \<Longrightarrow> path_components (path_under base names) = path_components base \<longleftrightarrow> names = []"
  by (simp add: path_components_under)

section \<open>Properties\<close>

text \<open>
  C37. Behind the normaliser the adapter never answers 403: a GET that no servlet claims gets the file
  that the segments of its normalised path name below the document base (the \<open>index.html\<close> of a
  directory), the landing page at an empty root, or 404. The segments are those of the whole path, the
  path of the context included, and \<open>WEB-INF\<close> and \<open>META-INF\<close> are names like any other.
\<close>

theorem adapter_static_files:
  assumes "normalize_target t = Ok u" "uri_path u \<noteq> ''*''" "rq_path req = uri_path u" "rq_method req = ''GET''"
    and "map_request (ca_engine ca) (adapter_host req) (rq_path req) = None"
  shows "let r = adapter_service fs now ca req;
      names = path_names (rq_path req);
      file = path_under (adapter_doc_base ca req) names;
      target = (if path_is_dir fs file then path_push file ''index.html'' else file)
    in case fs_read fs target of
      Some content \<Rightarrow>
        rs_status r = 200 \<and> rs_body r = content \<and>
        response_header ''Content-Type'' r = Some (adapter_content_type_for target)
    | None \<Rightarrow>
        if names = [] then rs_status r = 200 \<and> rs_body r = as_bytes landing_page
        else rs_status r = 404"
proof -
  have safe: "safe_path (rq_path req)" using normalize_safe_path [OF assms(1,2)] assms(3) by simp
  have "path_names (rq_path req) = [] \<longleftrightarrow> rq_path req = ''/''"
    using safe_path_root [OF safe] by (auto simp: path_names_def)
  moreover have "rq_path req \<noteq> []" using safe by (auto simp: safe_path_def)
  ultimately show ?thesis
    using assms(4,5) components_of_base [OF safe_path_names [OF safe]]
    by (auto simp: adapter_service_def serve_static_def resolve_safe_path [OF safe] Let_def response_with_body_def
        split: option.split)
qed

text \<open>
  The response to a request depends on nothing but the files below the document base chosen for it, and
  the adapter never panics: on two file systems that agree there it is the same, whatever the path.
\<close>

lemma adapter_confined:
  assumes "\<forall>names. list_all file_name_ok names \<longrightarrow>
      fs_metadata fs (path_under (adapter_doc_base ca req) names) = fs_metadata fs' (path_under (adapter_doc_base ca req) names) \<and>
      fs_read fs (path_under (adapter_doc_base ca req) names) = fs_read fs' (path_under (adapter_doc_base ca req) names)"
  shows "adapter_service fs now ca req = adapter_service fs' now ca req"
proof -
  let ?base = "adapter_doc_base ca req"
  have "serve_static fs now ?base req = serve_static fs' now ?base req"
  proof (cases "resolve_under ?base (rq_path req)")
    case (Some q)
    then obtain names where names: "list_all file_name_ok names" "q = path_under ?base names"
      using resolve_under_names by blast
    have "path_push q ''index.html'' = path_under ?base (names @ [''index.html''])"
      by (simp add: names(2) under_snoc)
    moreover have "list_all file_name_ok (names @ [''index.html''])" using names(1) by (simp add: file_name_ok_def)
    ultimately have "fs_metadata fs (path_push q ''index.html'') = fs_metadata fs' (path_push q ''index.html'')"
      "fs_read fs (path_push q ''index.html'') = fs_read fs' (path_push q ''index.html'')"
      using assms by metis+
    moreover have "fs_metadata fs q = fs_metadata fs' q" "fs_read fs q = fs_read fs' q" using assms names by simp_all
    ultimately show ?thesis by (simp only: serve_static_def Some option.case path_is_dir_def Let_def if_distrib [of "fs_read _"])
  qed (simp add: serve_static_def)
  then show ?thesis by (simp add: adapter_service_def split: option.split)
qed

section \<open>Examples\<close>

definition sample_adapter :: CatalinaAdapter where
  "sample_adapter = \<lparr>ca_engine = engine_new ''Catalina'' ''localhost'', ca_app_base = ''/w''\<rparr>"

definition adapter_fs :: FileSystem where
  "adapter_fs =
    \<lparr>fs_metadata = (\<lambda>p. None), fs_read = (\<lambda>p. if p = ''/w/WEB-INF/web.xml'' then Some [60] else None),
     fs_read_dir = (\<lambda>p. None)\<rparr>"

definition adapter_request :: Request where
  "adapter_request =
    \<lparr>rq_method = ''GET'', rq_uri = ''/WEB-INF/web.xml'', rq_path = ''/WEB-INF/web.xml'', rq_query = None,
     rq_version = ''HTTP/1.1'', rq_headers = [], rq_body = [], rq_peer_addr = ''10.0.0.1:4000''\<rparr>"

text \<open>The deployment descriptor is served.\<close>

theorem adapter_static_files_witness:
  "rs_status (adapter_service adapter_fs 0 sample_adapter adapter_request) = 200 \<and>
   rs_body (adapter_service adapter_fs 0 sample_adapter adapter_request) = [60]"
proof -
  have norm: "normalize_target ''/WEB-INF/web.xml'' = Ok \<lparr>uri_path = ''/WEB-INF/web.xml'', uri_query = None\<rparr>"
    by code_simp
  have unmapped: "map_request (ca_engine sample_adapter) (adapter_host adapter_request) (rq_path adapter_request) = None"
    by code_simp
  have base: "adapter_doc_base sample_adapter adapter_request = ''/w''" by code_simp
  have served: "path_under ''/w'' (path_names (rq_path adapter_request)) = ''/w/WEB-INF/web.xml''" by code_simp
  have plain: "\<not> path_is_dir adapter_fs ''/w/WEB-INF/web.xml''" "fs_read adapter_fs ''/w/WEB-INF/web.xml'' = Some [60]"
    by (simp_all add: path_is_dir_def adapter_fs_def)
  have "rq_path adapter_request = uri_path \<lparr>uri_path = ''/WEB-INF/web.xml'', uri_query = None\<rparr>"
    "rq_method adapter_request = ''GET''" by (simp_all add: adapter_request_def)
  from adapter_static_files [OF norm _ this unmapped, of adapter_fs 0] show ?thesis
    by (simp add: Let_def base served plain)
qed

lemma adapter_confined_witness:
  "adapter_service adapter_fs 0 sample_adapter adapter_request =
    adapter_service
      (adapter_fs\<lparr>fs_read := (\<lambda>p. if p = ''/etc/passwd'' then Some [9] else fs_read adapter_fs p)\<rparr>) 0 sample_adapter adapter_request"
proof (rule adapter_confined)
  have base: "adapter_doc_base sample_adapter adapter_request = ''/w''" by code_simp
  have "path_under ''/w'' names \<noteq> ''/etc/passwd''" if names: "list_all file_name_ok names" for names
  proof
    assume eq: "path_under ''/w'' names = ''/etc/passwd''"
    have "path_components ''/w'' = [RootDir, Normal ''w'']"
      "path_components ''/etc/passwd'' = [RootDir, Normal ''etc'', Normal ''passwd'']" by code_simp+
    then show False using path_components_under [OF names, of "''/w''"] eq by simp
  qed
  then show "\<forall>names. list_all file_name_ok names \<longrightarrow>
      fs_metadata adapter_fs (path_under (adapter_doc_base sample_adapter adapter_request) names) =
        fs_metadata (adapter_fs\<lparr>fs_read := (\<lambda>p. if p = ''/etc/passwd'' then Some [9] else fs_read adapter_fs p)\<rparr>)
          (path_under (adapter_doc_base sample_adapter adapter_request) names) \<and>
      fs_read adapter_fs (path_under (adapter_doc_base sample_adapter adapter_request) names) =
        fs_read (adapter_fs\<lparr>fs_read := (\<lambda>p. if p = ''/etc/passwd'' then Some [9] else fs_read adapter_fs p)\<rparr>)
          (path_under (adapter_doc_base sample_adapter adapter_request) names)"
    by (simp add: base)
qed

end
