(* ===== verification/Pipeline.thy ===== *)
theory Pipeline
  imports Mapper Message
begin

text \<open>
  Pipelines of valves: \<open>src/crates/tomcatrs-catalina/src/pipeline.rs\<close>, \<open>valve.rs\<close> and
  \<open>security_valve.rs\<close>. A valve is what its \<open>invoke\<close> does with the context and with the cursor
  \<open>next\<close>, here a function; a valve that does not apply it ends the traversal. The lines of the
  access log are collected in the context; the milliseconds of a request are a parameter of the
  valve that measures them. Other log output is left out.
\<close>

section \<open>Valves and pipelines\<close>

record ValveContext =
  vc_request :: Request
  vc_response :: Response
  vc_mapping :: "MappingResult option"
  vc_log :: "string list"

definition valve_context_new :: "Request \<Rightarrow> Response \<Rightarrow> ValveContext" where
  "valve_context_new req res = \<lparr>vc_request = req, vc_response = res, vc_mapping = None, vc_log = []\<rparr>"

definition with_mapping :: "Request \<Rightarrow> Response \<Rightarrow> MappingResult \<Rightarrow> ValveContext" where
  "with_mapping req res m = \<lparr>vc_request = req, vc_response = res, vc_mapping = Some m, vc_log = []\<rparr>"

type_synonym outcome = "ValveContext \<times> (Error + unit)"

record Valve =
  va_name :: string
  va_invoke :: "ValveContext \<Rightarrow> (ValveContext \<Rightarrow> outcome) \<Rightarrow> outcome"

text \<open>The cursor \<open>NextValve\<close>: the remaining valves, the basic valve, and whether that has run.\<close>

function next_valve_invoke :: "Valve list \<Rightarrow> Valve \<Rightarrow> bool \<Rightarrow> ValveContext \<Rightarrow> outcome" where
  "next_valve_invoke (head # tail) basic basic_done ctx =
    va_invoke head ctx (\<lambda>c. next_valve_invoke tail basic basic_done c)"
| "next_valve_invoke [] basic False ctx = va_invoke basic ctx (\<lambda>c. next_valve_invoke [] basic True c)"
| "next_valve_invoke [] basic True ctx = (ctx, Inr ())"
  by pat_completeness auto
termination
  by (relation "measure (\<lambda>(remaining, basic, basic_done, ctx). length remaining + (if basic_done then 0 else 1))") auto

record StandardPipeline =
  pl_valves :: "Valve list"
  pl_basic :: "Valve option"

definition pipeline_new :: StandardPipeline where
  "pipeline_new = \<lparr>pl_valves = [], pl_basic = None\<rparr>"

definition add_valve :: "Valve \<Rightarrow> StandardPipeline \<Rightarrow> StandardPipeline" where
  "add_valve v p = p\<lparr>pl_valves := pl_valves p @ [v]\<rparr>"

definition set_basic :: "Valve \<Rightarrow> StandardPipeline \<Rightarrow> StandardPipeline" where
  "set_basic v p = p\<lparr>pl_basic := Some v\<rparr>"

definition valve_names :: "StandardPipeline \<Rightarrow> string list" where
  "valve_names p = map va_name (pl_valves p)"

definition has_basic :: "StandardPipeline \<Rightarrow> bool" where
  "has_basic p \<longleftrightarrow> pl_basic p \<noteq> None"

definition pipeline_invoke_with :: "StandardPipeline \<Rightarrow> ValveContext \<Rightarrow> outcome" where
  "pipeline_invoke_with p ctx =
    (case pl_basic p of
       None \<Rightarrow> (ctx, Inl (Error.Lifecycle ''StandardPipeline invoked without a basic valve''))
     | Some basic \<Rightarrow> next_valve_invoke (pl_valves p) basic False ctx)"

definition pipeline_invoke :: "StandardPipeline \<Rightarrow> Request \<Rightarrow> Response \<Rightarrow> outcome" where
  "pipeline_invoke p req res = pipeline_invoke_with p (valve_context_new req res)"

section \<open>The standard valves\<close>

text \<open>The address without the port, as \<open>peer_addr.ip()\<close> prints it.\<close>

definition peer_ip :: "string \<Rightarrow> string" where
  "peer_ip addr =
    (let host = (case rsplit_once CHR '':'' addr of Some (h, _) \<Rightarrow> h | None \<Rightarrow> addr)
     in if starts_with ''['' host then takeWhile (\<lambda>c. c \<noteq> CHR '']'' \<and> c \<noteq> CHR ''%'') (tl host) else host)"

definition format_line :: "Request \<Rightarrow> Response \<Rightarrow> nat \<Rightarrow> string" where
  \<open>format_line req res elapsed_ms =
    peer_ip (rq_peer_addr req) @ '' "'' @ rq_method req @ '' '' @ rq_uri req @ '' '' @ rq_version req @
    ''" '' @ dec_str (unat (rs_status res)) @ '' '' @ dec_str (length (rs_body res)) @ '' '' @
    dec_str elapsed_ms @ ''ms''\<close>

definition access_log_valve :: "nat \<Rightarrow> Valve" where
  "access_log_valve elapsed_ms =
    \<lparr>va_name = ''AccessLogValve'',
     va_invoke = (\<lambda>ctx next.
       (let (ctx, result) = next ctx
        in (ctx\<lparr>vc_log := vc_log ctx @ [format_line (vc_request ctx) (vc_response ctx) elapsed_ms]\<rparr>, result)))\<rparr>"

definition valve_reason_phrase :: "u16 \<Rightarrow> string" where
  "valve_reason_phrase status =
    (case map_of
       [(400 :: u16, ''Bad Request''), (401, ''Unauthorized''), (403, ''Forbidden''), (404, ''Not Found''),
        (405, ''Method Not Allowed''), (408, ''Request Timeout''), (500, ''Internal Server Error''),
        (501, ''Not Implemented''), (502, ''Bad Gateway''), (503, ''Service Unavailable''),
        (504, ''Gateway Timeout'')] status of
       Some r \<Rightarrow> r
     | None \<Rightarrow>
         if 400 \<le> status \<and> status < 500 then ''Client Error''
         else if 500 \<le> status \<and> status < 600 then ''Server Error''
         else ''Error'')"

text \<open>The dash between the status and its reason is U+2013, three bytes in UTF-8.\<close>

definition render_page :: "u16 \<Rightarrow> string" where
  "render_page status =
    (let line_end = [CHR 0x0A];
         heading = ''HTTP Status '' @ dec_str (unat status) @ '' '' @ [CHR 0xE2, CHR 0x80, CHR 0x93] @ '' '' @
           valve_reason_phrase status
     in ''<!DOCTYPE html>'' @ line_end @ ''<html>'' @ line_end @
        ''<head><title>'' @ heading @ ''</title></head>'' @ line_end @
        ''<body>'' @ line_end @ ''<h1>'' @ heading @ ''</h1>'' @ line_end @ ''<hr/>'' @ line_end @
        ''<p>Tomcat-RS Compatibility Runtime</p>'' @ line_end @ ''</body>'' @ line_end @ ''</html>'' @ line_end)"

definition fill_error_page :: "Response \<Rightarrow> Response" where
  "fill_error_page res =
    (if 400 \<le> rs_status res \<and> rs_status res < 600 \<and> rs_body res = [] then
       (set_header ''Content-Type'' ''text/html;charset=UTF-8'' res)\<lparr>rs_body := as_bytes (render_page (rs_status res))\<rparr>
     else res)"

definition error_report_valve :: Valve where
  "error_report_valve =
    \<lparr>va_name = ''ErrorReportValve'',
     va_invoke = (\<lambda>ctx next.
       (let (ctx, result) = next ctx in (ctx\<lparr>vc_response := fill_error_page (vc_response ctx)\<rparr>, result)))\<rparr>"

definition standard_engine_valve :: Valve where
  "standard_engine_valve = \<lparr>va_name = ''StandardEngineValve'', va_invoke = (\<lambda>ctx next. next ctx)\<rparr>"

definition standard_host_valve :: Valve where
  "standard_host_valve = \<lparr>va_name = ''StandardHostValve'', va_invoke = (\<lambda>ctx next. next ctx)\<rparr>"

definition standard_context_valve :: Valve where
  "standard_context_valve = \<lparr>va_name = ''StandardContextValve'', va_invoke = (\<lambda>ctx next. next ctx)\<rparr>"

definition default_status :: "ValveContext \<Rightarrow> ValveContext" where
  "default_status ctx =
    (if rs_status (vc_response ctx) = 0 then ctx\<lparr>vc_response := (vc_response ctx)\<lparr>rs_status := 200\<rparr>\<rparr> else ctx)"

definition standard_wrapper_valve :: Valve where
  "standard_wrapper_valve =
    \<lparr>va_name = ''StandardWrapperValve'', va_invoke = (\<lambda>ctx next. next (default_status ctx))\<rparr>"

definition permits_addr :: "string set option \<Rightarrow> string set option \<Rightarrow> string \<Rightarrow> bool" where
  "permits_addr allow deny ip =
    (if (case deny of Some d \<Rightarrow> ip \<in> d | None \<Rightarrow> False) then False
     else case allow of Some a \<Rightarrow> ip \<in> a | None \<Rightarrow> True)"

definition deny_response :: "Response \<Rightarrow> Response" where
  "deny_response res = res\<lparr>rs_status := 403, rs_body := rs_body (response_new 403)\<rparr>"

definition remote_addr_valve :: "string set option \<Rightarrow> string set option \<Rightarrow> Valve" where
  "remote_addr_valve allow deny =
    \<lparr>va_name = ''RemoteAddrValve'',
     va_invoke = (\<lambda>ctx next.
       if permits_addr allow deny (peer_ip (rq_peer_addr (vc_request ctx))) then next ctx
       else (ctx\<lparr>vc_response := deny_response (vc_response ctx)\<rparr>, Inr ()))\<rparr>"

record SecurityHeadersConfig =
  hsts :: "string option"
  x_content_type_options :: "string option"
  x_frame_options :: "string option"
  referrer_policy :: "string option"
  content_security_policy :: "string option"

definition security_headers_config :: SecurityHeadersConfig where
  "security_headers_config =
    \<lparr>hsts = Some ''max-age=31536000; includeSubDomains'', x_content_type_options = Some ''nosniff'',
     x_frame_options = Some ''DENY'', referrer_policy = Some ''same-origin'',
     content_security_policy = Some (''default-src '' @ [CHR 0x27] @ ''self'' @ [CHR 0x27])\<rparr>"

definition set_if_absent :: "string \<Rightarrow> string option \<Rightarrow> Response \<Rightarrow> Response" where
  "set_if_absent name configured res =
    (case configured of
       Some v \<Rightarrow> if response_header name res = None then set_header name v res else res
     | None \<Rightarrow> res)"

definition apply_headers :: "SecurityHeadersConfig \<Rightarrow> Response \<Rightarrow> Response" where
  "apply_headers cfg res =
    set_if_absent ''Content-Security-Policy'' (content_security_policy cfg)
      (set_if_absent ''Referrer-Policy'' (referrer_policy cfg)
        (set_if_absent ''X-Frame-Options'' (x_frame_options cfg)
          (set_if_absent ''X-Content-Type-Options'' (x_content_type_options cfg)
            (set_if_absent ''Strict-Transport-Security'' (hsts cfg) res))))"

definition security_headers_valve :: "SecurityHeadersConfig \<Rightarrow> Valve" where
  "security_headers_valve cfg =
    \<lparr>va_name = ''SecurityHeadersValve'',
     va_invoke = (\<lambda>ctx next.
       (let (ctx, result) = next ctx in (ctx\<lparr>vc_response := apply_headers cfg (vc_response ctx)\<rparr>, result)))\<rparr>"

definition method_permits :: "string list \<Rightarrow> string \<Rightarrow> bool" where
  "method_permits allowed method_name \<longleftrightarrow> to_ascii_uppercase method_name \<in> set allowed"

definition allow_header_value :: "string list \<Rightarrow> string" where
  "allow_header_value allowed =
    (case allowed of [] \<Rightarrow> [] | a # as \<Rightarrow> a @ concat (map (\<lambda>m. '', '' @ m) as))"

definition refuse_method :: "string list \<Rightarrow> Response \<Rightarrow> Response" where
  "refuse_method allowed res = set_header ''Allow'' (allow_header_value allowed) (res\<lparr>rs_status := 405\<rparr>)"

definition http_method_filter_valve :: "string list \<Rightarrow> Valve" where
  "http_method_filter_valve methods =
    (let allowed = map to_ascii_uppercase methods in
     \<lparr>va_name = ''HttpMethodFilterValve'',
      va_invoke = (\<lambda>ctx next.
        if method_permits allowed (rq_method (vc_request ctx)) then next ctx
        else (ctx\<lparr>vc_response := refuse_method allowed (vc_response ctx)\<rparr>, Inr ()))\<rparr>)"

section \<open>The traversal as two loops\<close>

text \<open>
  A reference for pipelines of the standard valves, without continuations: a first loop enters the
  valves in order until one refuses the request, a second leaves those entered, the last one first.
\<close>

datatype Stage =
    AccessLog nat
  | ErrorReport
  | EngineStage | HostStage | ContextStage | WrapperStage
  | RemoteAddr "string set option" "string set option"
  | SecurityHeaders SecurityHeadersConfig
  | MethodFilter "string list"

fun stage_valve :: "Stage \<Rightarrow> Valve" where
  "stage_valve (AccessLog ms) = access_log_valve ms"
| "stage_valve ErrorReport = error_report_valve"
| "stage_valve EngineStage = standard_engine_valve"
| "stage_valve HostStage = standard_host_valve"
| "stage_valve ContextStage = standard_context_valve"
| "stage_valve WrapperStage = standard_wrapper_valve"
| "stage_valve (RemoteAddr allow deny) = remote_addr_valve allow deny"
| "stage_valve (SecurityHeaders cfg) = security_headers_valve cfg"
| "stage_valve (MethodFilter methods) = http_method_filter_valve methods"

fun admits :: "Request \<Rightarrow> Stage \<Rightarrow> bool" where
  "admits req (RemoteAddr allow deny) =
    ((\<forall>d. deny = Some d \<longrightarrow> peer_ip (rq_peer_addr req) \<notin> d) \<and>
     (\<forall>a. allow = Some a \<longrightarrow> peer_ip (rq_peer_addr req) \<in> a))"
| "admits req (MethodFilter methods) =
    (\<exists>m \<in> set methods. eq_ignore_ascii_case m (rq_method req))"
| "admits req _ = True"

fun refusal :: "Stage \<Rightarrow> Response \<Rightarrow> Response" where
  "refusal (RemoteAddr _ _) res = deny_response res"
| "refusal (MethodFilter methods) res = refuse_method (map to_ascii_uppercase methods) res"
| "refusal _ res = res"

fun enter_stage :: "Stage \<Rightarrow> ValveContext \<Rightarrow> ValveContext" where
  "enter_stage WrapperStage ctx = default_status ctx"
| "enter_stage _ ctx = ctx"

fun leave_stage :: "Stage \<Rightarrow> ValveContext \<Rightarrow> ValveContext" where
  "leave_stage (AccessLog ms) ctx =
    ctx\<lparr>vc_log := vc_log ctx @ [format_line (vc_request ctx) (vc_response ctx) ms]\<rparr>"
| "leave_stage ErrorReport ctx = ctx\<lparr>vc_response := fill_error_page (vc_response ctx)\<rparr>"
| "leave_stage (SecurityHeaders cfg) ctx = ctx\<lparr>vc_response := apply_headers cfg (vc_response ctx)\<rparr>"
| "leave_stage _ ctx = ctx"

fun enter_all :: "Stage list \<Rightarrow> Stage list \<Rightarrow> ValveContext \<Rightarrow> Stage list \<times> bool \<times> ValveContext" where
  "enter_all [] entered ctx = (entered, True, ctx)"
| "enter_all (s # ss) entered ctx =
    (if admits (vc_request ctx) s then enter_all ss (s # entered) (enter_stage s ctx)
     else (entered, False, ctx\<lparr>vc_response := refusal s (vc_response ctx)\<rparr>))"

definition two_pass :: "Stage list \<Rightarrow> (ValveContext \<Rightarrow> outcome) \<Rightarrow> ValveContext \<Rightarrow> outcome" where
  "two_pass stages basic ctx =
    (let (entered, admitted, ctx) = enter_all stages [] ctx;
         (ctx, result) = (if admitted then basic ctx else (ctx, Inr ()))
     in (fold leave_stage entered ctx, result))"

definition standard_pipeline :: "Stage list \<Rightarrow> Valve \<Rightarrow> StandardPipeline" where
  "standard_pipeline stages basic = set_basic basic (fold (add_valve \<circ> stage_valve) stages pipeline_new)"

section \<open>Lemmas\<close>

lemma upper_lower: "to_ascii_upper (to_ascii_lower c) = to_ascii_upper c" "to_ascii_lower (to_ascii_upper c) = to_ascii_lower c"
  by (auto simp: to_ascii_lower_def to_ascii_upper_def Let_def)

lemma to_ascii_uppercase_eq:
  "to_ascii_uppercase s = to_ascii_uppercase t \<longleftrightarrow> eq_ignore_ascii_case s t"
proof -
  have "to_ascii_uppercase (to_ascii_lowercase s) = to_ascii_uppercase s"
      "to_ascii_lowercase (to_ascii_uppercase s) = to_ascii_lowercase s" for s
    by (simp_all add: to_ascii_lowercase_def to_ascii_uppercase_def upper_lower)
  then show ?thesis unfolding eq_ignore_ascii_case_def by metis
qed

lemma va_invoke_stage:
  "va_invoke (stage_valve s) ctx next =
    (if admits (vc_request ctx) s then
       (let (c, r) = next (enter_stage s ctx) in (leave_stage s c, r))
     else (ctx\<lparr>vc_response := refusal s (vc_response ctx)\<rparr>, Inr ()))"
proof (cases s)
  case (RemoteAddr allow deny)
  then show ?thesis
    by (auto simp: remote_addr_valve_def permits_addr_def split: option.splits prod.split)
next
  case (MethodFilter methods)
  then show ?thesis
    by (auto simp: http_method_filter_valve_def method_permits_def to_ascii_uppercase_eq [symmetric]
        Let_def image_iff split: prod.split)
qed (simp_all add: access_log_valve_def error_report_valve_def standard_engine_valve_def standard_host_valve_def
    standard_context_valve_def standard_wrapper_valve_def security_headers_valve_def Let_def split: prod.split)

lemma enter_all_acc:
  "enter_all ss acc ctx = (let (e, a, c) = enter_all ss [] ctx in (e @ acc, a, c))"
proof (induction ss arbitrary: acc ctx)
  case (Cons s ss)
  show ?case
    by (simp add: Cons [of "s # acc"] Cons [of "[s]"] split: prod.split)
qed simp

lemma next_valve_exhausted [simp]: "next_valve_invoke [] basic True = (\<lambda>c. (c, Inr ()))"
  by (rule ext) simp

lemma next_valve_two_pass:
  "next_valve_invoke (map stage_valve ss) basic False ctx =
    two_pass ss (\<lambda>c. va_invoke basic c (\<lambda>c. (c, Inr ()))) ctx"
proof (induction ss arbitrary: ctx)
  case Nil
  then show ?case by (simp add: two_pass_def split: prod.split)
next
  case (Cons s ss)
  then show ?case
    by (auto simp: two_pass_def va_invoke_stage enter_all_acc [of ss "[s]"] Let_def split: prod.split)
qed

lemma standard_pipeline_simps [simp]:
  "pl_valves (standard_pipeline ss basic) = map stage_valve ss" "pl_basic (standard_pipeline ss basic) = Some basic"
proof -
  have "fold (add_valve \<circ> stage_valve) ss p = p\<lparr>pl_valves := pl_valves p @ map stage_valve ss\<rparr>" for p
    by (induction ss arbitrary: p) (simp_all add: add_valve_def)
  then show "pl_valves (standard_pipeline ss basic) = map stage_valve ss"
      "pl_basic (standard_pipeline ss basic) = Some basic"
    by (simp_all add: standard_pipeline_def set_basic_def pipeline_new_def)
qed

lemma enter_stage_request [simp]: "vc_request (enter_stage s ctx) = vc_request ctx"
  by (cases s) (simp_all add: default_status_def)

lemma fill_error_page_status [simp]: "rs_status (fill_error_page r) = rs_status r"
  by (simp add: fill_error_page_def set_header_def)

lemma set_if_absent_simps [simp]:
  "rs_status (set_if_absent n v r) = rs_status r" "rs_body (set_if_absent n v r) = rs_body r"
  by (simp_all add: set_if_absent_def set_header_def split: option.split)

lemma apply_headers_simps [simp]:
  "rs_status (apply_headers cfg r) = rs_status r" "rs_body (apply_headers cfg r) = rs_body r"
  by (simp_all add: apply_headers_def)

lemma leave_stage_status [simp]: "rs_status (vc_response (leave_stage s c)) = rs_status (vc_response c)"
  by (cases s) simp_all

lemma fold_leave_status [simp]: "rs_status (vc_response (fold leave_stage ss c)) = rs_status (vc_response c)"
  by (induction ss arbitrary: c) simp_all

lemma enter_all_admitted:
  "list_all (admits (vc_request ctx)) ss \<Longrightarrow>
    \<exists>e c. enter_all ss [] ctx = (e, True, c) \<and> vc_request c = vc_request ctx"
proof (induction ss arbitrary: ctx)
  case (Cons s ss)
  then show ?case using Cons.IH [of "enter_stage s ctx"] by (auto simp: enter_all_acc [of ss "[s]"])
qed simp

lemma enter_all_refused:
  assumes "list_all (admits (vc_request ctx)) ss" "\<not> admits (vc_request ctx) s"
  shows "\<exists>e c. \<forall>rest. enter_all (ss @ s # rest) [] ctx = (e, False, c\<lparr>vc_response := refusal s (vc_response c)\<rparr>)"
  using assms
proof (induction ss arbitrary: ctx)
  case Nil
  then show ?case by auto
next
  case (Cons s' ss)
  then obtain e c where
    "\<forall>rest. enter_all (ss @ s # rest) [] (enter_stage s' ctx) = (e, False, c\<lparr>vc_response := refusal s (vc_response c)\<rparr>)"
    using Cons.IH [of "enter_stage s' ctx"] Cons.prems unfolding list.pred_inject(2) enter_stage_request by blast
  moreover have "enter_all ((s' # ss) @ s # rest) [] ctx =
      (let (e, a, c) = enter_all (ss @ s # rest) [] (enter_stage s' ctx) in (e @ [s'], a, c))" for rest
    using Cons.prems(1) by (simp add: enter_all_acc [of "ss @ s # rest" "[s']"])
  ultimately show ?case by (intro exI [of _ "e @ [s']"] exI [of _ c]) simp
qed

lemma refusal_status: "\<not> admits req s \<Longrightarrow> rs_status (refusal s r) \<in> {403, 405}"
  by (cases s) (simp_all add: deny_response_def refuse_method_def set_header_def)

section \<open>Properties\<close>

text \<open>
  C36. A pipeline to which standard valves were added in some order, with any basic valve, runs as two
  loops: it enters the valves in that order until one refuses the request, runs the basic valve once if
  none did, and leaves the valves it entered in the opposite order, whatever the result.
\<close>

theorem pipeline_two_pass:
  "pipeline_invoke_with (standard_pipeline ss basic) ctx =
    two_pass ss (\<lambda>c. va_invoke basic c (\<lambda>c. (c, Inr ()))) ctx"
  by (simp add: pipeline_invoke_with_def next_valve_two_pass)

text \<open>
  A request that a remote-address or method valve refuses goes no further: neither the valves after
  it nor the basic valve can be told from any others by the outcome, which has status 403 or 405.
\<close>

lemma refused_request_stops:
  assumes "list_all (admits (vc_request ctx)) before" "\<not> admits (vc_request ctx) s"
  shows "\<exists>ctx'. pipeline_invoke_with (standard_pipeline (before @ s # after) basic) ctx = (ctx', Inr ()) \<and>
    pipeline_invoke_with (standard_pipeline (before @ s # after') basic') ctx = (ctx', Inr ()) \<and>
    rs_status (vc_response ctx') \<in> {403, 405}"
proof -
  obtain e c where e: "\<And>rest. enter_all (before @ s # rest) [] ctx = (e, False, c\<lparr>vc_response := refusal s (vc_response c)\<rparr>)"
    using enter_all_refused [OF assms] by blast
  have "pipeline_invoke_with (standard_pipeline (before @ s # rest) b) ctx =
      (fold leave_stage e (c\<lparr>vc_response := refusal s (vc_response c)\<rparr>), Inr ())" for rest b
    unfolding pipeline_invoke_with_def standard_pipeline_simps option.case next_valve_two_pass
    by (simp add: two_pass_def e del: append_Cons)
  then show ?thesis using refusal_status [OF assms(2)] by simp
qed

text \<open>
  With the security-headers valve in front, the response of whatever valves follow gets every
  configured header that it lacks and keeps those that it has; its status, body, other headers and
  result are not changed.
\<close>

definition configured_headers :: "SecurityHeadersConfig \<Rightarrow> (string \<times> string) list" where
  "configured_headers cfg =
    concat (map (\<lambda>(n, v). case v of Some v \<Rightarrow> [(n, v)] | None \<Rightarrow> [])
      [(''Strict-Transport-Security'', hsts cfg), (''X-Content-Type-Options'', x_content_type_options cfg),
       (''X-Frame-Options'', x_frame_options cfg), (''Referrer-Policy'', referrer_policy cfg),
       (''Content-Security-Policy'', content_security_policy cfg)])"

lemma response_header_set_if_absent:
  "response_header n (set_if_absent m v r) =
    (case response_header n r of
       Some x \<Rightarrow> Some x
     | None \<Rightarrow> if eq_ignore_ascii_case m n then v else None)"
proof -
  have "response_header n r = response_header m r" if "eq_ignore_ascii_case n m"
    using header_of_cong [OF that] by (simp add: response_header_def)
  then show ?thesis
    by (auto simp: set_if_absent_def response_header_def set_header_def header_of_put eq_ignore_ascii_case_def
        split: option.split)
qed

lemma header_of_append: "header_of n (hs @ hs') = (case header_of n hs of Some v \<Rightarrow> Some v | None \<Rightarrow> header_of n hs')"
  by (induction hs) auto

lemma apply_headers_configured:
  "response_header n (apply_headers cfg r) =
    (case response_header n r of Some v \<Rightarrow> Some v | None \<Rightarrow> header_of n (configured_headers cfg))"
  by (auto simp: apply_headers_def response_header_set_if_absent configured_headers_def header_of_append split: option.split)

lemma security_headers_added:
  "\<exists>inner result ctx'.
    pipeline_invoke_with \<lparr>pl_valves = vs, pl_basic = Some basic\<rparr> ctx = (inner, result) \<and>
    pipeline_invoke_with \<lparr>pl_valves = security_headers_valve cfg # vs, pl_basic = Some basic\<rparr> ctx = (ctx', result) \<and>
    rs_status (vc_response ctx') = rs_status (vc_response inner) \<and> rs_body (vc_response ctx') = rs_body (vc_response inner) \<and>
    (\<forall>n. response_header n (vc_response ctx') =
       (case response_header n (vc_response inner) of
          Some v \<Rightarrow> Some v
        | None \<Rightarrow> header_of n (configured_headers cfg)))"
proof -
  obtain inner result where "next_valve_invoke vs basic False ctx = (inner, result)" by fastforce
  then show ?thesis
    by (simp add: pipeline_invoke_with_def security_headers_valve_def apply_headers_configured)
qed

section \<open>Examples\<close>

definition sample_context :: ValveContext where
  "sample_context = valve_context_new
    \<lparr>rq_method = ''POST'', rq_uri = ''/'', rq_path = ''/'', rq_query = None, rq_version = ''HTTP/1.1'',
     rq_headers = [], rq_body = [], rq_peer_addr = ''10.0.0.1:4000''\<rparr> (response_new 0)"

definition refusing_stage :: Stage where
  "refusing_stage = RemoteAddr None (Some {''10.0.0.1''})"

lemma refused_request_stops_witness:
  "pipeline_invoke_with (standard_pipeline [ErrorReport, refusing_stage, WrapperStage] standard_host_valve) sample_context =
    pipeline_invoke_with (standard_pipeline [ErrorReport, refusing_stage] standard_wrapper_valve) sample_context"
proof -
  have "peer_ip ''10.0.0.1:4000'' = ''10.0.0.1''" by code_simp
  then show ?thesis
    using refused_request_stops [of sample_context "[ErrorReport]" refusing_stage "[WrapperStage]" standard_host_valve "[]"
        standard_wrapper_valve]
    by (auto simp: sample_context_def valve_context_new_def refusing_stage_def)
qed

end
