(* ===== verification/Realms.thy ===== *)
theory Realms
  imports HttpDate Constraints Message
begin

text \<open>
  Realms, BASIC and FORM authentication and CSRF tokens: \<open>realm.rs\<close>, \<open>auth_basic.rs\<close>,
  \<open>auth_form.rs\<close> and \<open>csrf.rs\<close> of \<open>src/crates/tomcatrs-security/src/\<close>.

  The digests MD5 and SHA-256 and the decoder of Base64 come from other packages and are parameters. A realm
  is the record of its functions; hash maps are maps, the hash set of tokens is the list of its elements in
  the order of iteration, whatever that is. Random bytes are arguments.
\<close>

section \<open>Strings\<close>

definition hex_lower :: "bytes \<Rightarrow> string" where
  "hex_lower bs = concat (map (\<lambda>b. [hex_char (unat b div 16), hex_char (unat b mod 16)]) bs)"

text \<open>The inverse, of the module of DIGEST; digits in either case, an odd length is refused.\<close>

fun hex_chunks :: "string \<Rightarrow> bytes option" where
  "hex_chunks (h # l # s) =
    (case (hex_digit_value h, hex_digit_value l) of
       (Some hi, Some lo) \<Rightarrow> map_option (Cons (push_bit 4 (of_nat hi) OR of_nat lo)) (hex_chunks s)
     | _ \<Rightarrow> None)"
| "hex_chunks _ = Some []"

definition hex_decode :: "string \<Rightarrow> bytes option" where
  "hex_decode s = (if odd (length s) then None else hex_chunks s)"

text \<open>\<open>split_once(char::is_whitespace)\<close>\<close>

definition split_once_ws :: "string \<Rightarrow> (string \<times> string) option" where
  "split_once_ws s =
    (let (t, r) = ws_token (as_bytes s)
     in if r = [] then None else Some (of_bytes t, of_bytes (drop (ws_front r) r)))"

text \<open>
  \<open>from_utf8_lossy\<close>: every longest prefix of a sequence that has no continuation is replaced by U+FFFD.
  A leading byte has the ranges of the bytes that must follow it.
\<close>

definition utf8_tail :: "u8 \<Rightarrow> (u8 \<times> u8) list option" where
  "utf8_tail b =
    (let c = (0x80, 0xBF) in
     if b \<le> 0x7F then Some []
     else if 0xC2 \<le> b \<and> b \<le> 0xDF then Some [c]
     else if b = 0xE0 then Some [(0xA0, 0xBF), c]
     else if b = 0xED then Some [(0x80, 0x9F), c]
     else if 0xE1 \<le> b \<and> b \<le> 0xEF then Some [c, c]
     else if b = 0xF0 then Some [(0x90, 0xBF), c, c]
     else if b = 0xF4 then Some [(0x80, 0x8F), c, c]
     else if 0xF1 \<le> b \<and> b \<le> 0xF3 then Some [c, c, c]
     else None)"

fun tail_length :: "(u8 \<times> u8) list \<Rightarrow> bytes \<Rightarrow> nat" where
  "tail_length ((lo, hi) # rs) (b # bs) = (if lo \<le> b \<and> b \<le> hi then Suc (tail_length rs bs) else 0)"
| "tail_length _ _ = 0"

definition replacement :: bytes where
  "replacement = [0xEF, 0xBF, 0xBD]"

fun utf8_lossy :: "bytes \<Rightarrow> bytes" where
  "utf8_lossy [] = []"
| "utf8_lossy (b # bs) =
    (case utf8_tail b of
       None \<Rightarrow> replacement @ utf8_lossy bs
     | Some rs \<Rightarrow>
         (let n = tail_length rs bs
          in (if n = length rs then b # take n bs else replacement) @ utf8_lossy (drop n bs)))"

section \<open>Realms\<close>

record Realm =
  rl_authenticate :: "string \<Rightarrow> string \<Rightarrow> Error + Principal option"
  rl_has_role :: "Principal \<Rightarrow> string \<Rightarrow> bool"
  rl_digest_ha1 :: "string \<Rightarrow> string \<Rightarrow> string option"

definition digest_ha1 :: "(bytes \<Rightarrow> bytes) \<Rightarrow> string \<Rightarrow> string \<Rightarrow> string \<Rightarrow> string" where
  "digest_ha1 md5 username realm password = hex_lower (md5 (as_bytes (username @ '':'' @ realm @ '':'' @ password)))"

definition hash_credential :: "(bytes \<Rightarrow> bytes) \<Rightarrow> string \<Rightarrow> string" where
  "hash_credential sha256 credential = hex_lower (sha256 (as_bytes credential))"

record StoredUser =
  su_credential_hash :: string
  su_roles :: "string list"
  su_digest_ha1 :: "string option"

type_synonym InMemoryRealm = "string \<rightharpoonup> StoredUser"

definition in_memory_new :: InMemoryRealm where
  "in_memory_new = Map.empty"

definition add_user :: "(bytes \<Rightarrow> bytes) \<Rightarrow> string \<Rightarrow> string \<Rightarrow> string list \<Rightarrow> InMemoryRealm \<Rightarrow> InMemoryRealm" where
  "add_user sha256 username password roles users =
    users(username \<mapsto>
      \<lparr>su_credential_hash = hash_credential sha256 password, su_roles = roles, su_digest_ha1 = None\<rparr>)"

definition add_digest_user ::
    "(bytes \<Rightarrow> bytes) \<Rightarrow> (bytes \<Rightarrow> bytes) \<Rightarrow> string \<Rightarrow> string \<Rightarrow> string \<Rightarrow> string list \<Rightarrow> InMemoryRealm \<Rightarrow> InMemoryRealm" where
  "add_digest_user sha256 md5 username digest_realm password roles users =
    users(username \<mapsto>
      \<lparr>su_credential_hash = hash_credential sha256 password, su_roles = roles,
       su_digest_ha1 = Some (digest_ha1 md5 username digest_realm password)\<rparr>)"

definition user_count :: "InMemoryRealm \<Rightarrow> nat" where
  "user_count users = card (dom users)"

definition in_memory_authenticate ::
    "(bytes \<Rightarrow> bytes) \<Rightarrow> InMemoryRealm \<Rightarrow> string \<Rightarrow> string \<Rightarrow> Error + Principal option" where
  "in_memory_authenticate sha256 users username credential =
    (case users username of
       Some user \<Rightarrow>
         if su_credential_hash user = hash_credential sha256 credential
         then Inr (Some \<lparr>pr_name = username, pr_roles = su_roles user\<rparr>) else Inr None
     | None \<Rightarrow> Inr None)"

definition in_memory_digest_ha1 :: "InMemoryRealm \<Rightarrow> string \<Rightarrow> string \<Rightarrow> string option" where
  "in_memory_digest_ha1 users username realm = Option.bind (users username) su_digest_ha1"

definition in_memory_realm :: "(bytes \<Rightarrow> bytes) \<Rightarrow> InMemoryRealm \<Rightarrow> Realm" where
  "in_memory_realm sha256 users =
    \<lparr>rl_authenticate = in_memory_authenticate sha256 users, rl_has_role = (\<lambda>p r. has_role r p),
     rl_digest_ha1 = in_memory_digest_ha1 users\<rparr>"

section \<open>BASIC\<close>

definition basic_challenge :: "string \<Rightarrow> string" where
  \<open>basic_challenge realm_name = ''Basic realm="'' @ filter (\<lambda>c. c \<noteq> CHR 0x22) realm_name @ ''"''\<close>

definition basic_parse_authorization ::
    "(string \<Rightarrow> bytes option) \<Rightarrow> string \<Rightarrow> (string \<times> string) option" where
  "basic_parse_authorization base64 header =
    (case split_once_ws (trim header) of
       None \<Rightarrow> None
     | Some (scheme, rest) \<Rightarrow>
         if eq_ignore_ascii_case scheme ''basic'' then
           (case base64 (trim rest) of
              None \<Rightarrow> None
            | Some decoded \<Rightarrow>
                (case from_utf8 decoded of None \<Rightarrow> None | Some t \<Rightarrow> split_once CHR '':'' t))
         else None)"

definition basic_authenticate ::
    "(string \<Rightarrow> bytes option) \<Rightarrow> Realm \<Rightarrow> string option \<Rightarrow> Error + Principal option" where
  "basic_authenticate base64 realm header =
    (case Option.bind header (basic_parse_authorization base64) of
       None \<Rightarrow> Inr None
     | Some (user, pass) \<Rightarrow> rl_authenticate realm user pass)"

section \<open>CSRF tokens\<close>

definition csrf_generate :: "bytes \<Rightarrow> string" where
  "csrf_generate random = hex_lower random"

text \<open>The loop to the longer length; a missing byte counts as zero.\<close>

fun csrf_diff :: "u8 \<Rightarrow> bytes \<Rightarrow> bytes \<Rightarrow> u8" where
  "csrf_diff diff [] [] = diff"
| "csrf_diff diff (x # a) [] = csrf_diff (diff OR (x XOR 0)) a []"
| "csrf_diff diff [] (y # b) = csrf_diff (diff OR (0 XOR y)) [] b"
| "csrf_diff diff (x # a) (y # b) = csrf_diff (diff OR (x XOR y)) a b"

definition csrf_matches :: "string \<Rightarrow> string \<Rightarrow> bool" where
  "csrf_matches s t =
    (let a = as_bytes s; b = as_bytes t;
         len = (of_nat (length a) XOR of_nat (length b) :: u64)
     in csrf_diff (ucast len OR ucast (drop_bit 8 len)) a b = 0)"

type_synonym CsrfTokenStore = "string list"

definition csrf_issue :: "bytes \<Rightarrow> CsrfTokenStore \<Rightarrow> CsrfTokenStore \<times> string" where
  "csrf_issue random tokens = (List.insert (csrf_generate random) tokens, csrf_generate random)"

definition csrf_validate :: "CsrfTokenStore \<Rightarrow> string \<Rightarrow> bool" where
  "csrf_validate tokens presented = foldl (\<lambda>ok stored. ok \<or> csrf_matches stored presented) False tokens"

definition csrf_consume :: "CsrfTokenStore \<Rightarrow> string \<Rightarrow> CsrfTokenStore \<times> bool" where
  "csrf_consume tokens presented =
    (case List.find (\<lambda>t. csrf_matches t presented) tokens of
       Some t \<Rightarrow> (remove1 t tokens, True)
     | None \<Rightarrow> (tokens, False))"

section \<open>FORM\<close>

definition J_SECURITY_CHECK :: string where
  "J_SECURITY_CHECK = ''/j_security_check''"

definition J_USERNAME :: string where
  "J_USERNAME = ''j_username''"

definition J_PASSWORD :: string where
  "J_PASSWORD = ''j_password''"

record FormCredentials =
  fc_username :: string
  fc_password :: string

fun url_decode_bytes :: "string \<Rightarrow> bytes" where
  "url_decode_bytes [] = []"
| "url_decode_bytes (c # s) =
    (if c = CHR ''+'' then 0x20 # url_decode_bytes s
     else case s of
       h # l # s' \<Rightarrow>
         if c = CHR 0x25 then
           (case (hex_digit_value h, hex_digit_value l) of
              (Some h, Some l) \<Rightarrow> of_nat (h * 16 + l) # url_decode_bytes s'
            | _ \<Rightarrow> 0x25 # url_decode_bytes s)
         else byte_of c # url_decode_bytes s
     | _ \<Rightarrow> byte_of c # url_decode_bytes s)"

definition url_decode :: "string \<Rightarrow> string" where
  "url_decode s = of_bytes (utf8_lossy (url_decode_bytes s))"

text \<open>One parameter of the body.\<close>

definition form_pair :: "string \<Rightarrow> string option \<times> string option \<Rightarrow> string option \<times> string option" where
  "form_pair pair acc =
    (case split_once CHR ''='' pair of
       None \<Rightarrow> acc
     | Some (key, v) \<Rightarrow>
         if url_decode key = J_USERNAME then (Some (url_decode v), snd acc)
         else if url_decode key = J_PASSWORD then (fst acc, Some (url_decode v))
         else acc)"

definition from_form_body :: "string \<Rightarrow> FormCredentials option" where
  "from_form_body body =
    (case fold form_pair (split_on CHR ''&'' body) (None, None) of
       (Some u, Some p) \<Rightarrow> Some \<lparr>fc_username = u, fc_password = p\<rparr>
     | _ \<Rightarrow> None)"

record SavedRequest =
  sv_method :: string
  sv_path :: string
  sv_query :: "string option"

type_synonym SavedRequestStore = "string \<rightharpoonup> SavedRequest"

definition store_save :: "string \<Rightarrow> SavedRequest \<Rightarrow> SavedRequestStore \<Rightarrow> SavedRequestStore" where
  "store_save token req entries = entries(token \<mapsto> req)"

definition store_take :: "string \<Rightarrow> SavedRequestStore \<Rightarrow> SavedRequestStore \<times> SavedRequest option" where
  "store_take token entries = (entries(token := None), entries token)"

datatype FormAuthOutcome =
    ShowLoginPage
  | Authenticated Principal string
  | ShowErrorPage
  | Continue

definition is_security_check :: "string \<Rightarrow> bool" where
  "is_security_check path \<longleftrightarrow> path = J_SECURITY_CHECK"

definition form_authenticate :: "Realm \<Rightarrow> FormCredentials \<Rightarrow> Error + Principal option" where
  "form_authenticate realm creds = rl_authenticate realm (fc_username creds) (fc_password creds)"

definition saved_target :: "SavedRequest \<Rightarrow> string" where
  "saved_target req =
    (case sv_query req of
       Some q \<Rightarrow> if q \<noteq> [] then sv_path req @ ''?'' @ q else sv_path req
     | None \<Rightarrow> sv_path req)"

definition form_process ::
    "Realm \<Rightarrow> string \<Rightarrow> string \<Rightarrow> string option \<Rightarrow> string option \<Rightarrow> SavedRequestStore \<Rightarrow>
     SavedRequestStore \<times> (Error + FormAuthOutcome)" where
  "form_process realm path method_name body saved_token entries =
    (if is_security_check path \<and> eq_ignore_ascii_case method_name ''POST'' then
       (case body of
          None \<Rightarrow> (entries, Inr ShowErrorPage)
        | Some body \<Rightarrow>
            (case from_form_body body of
               None \<Rightarrow> (entries, Inr ShowErrorPage)
             | Some creds \<Rightarrow>
                 (case form_authenticate realm creds of
                    Inl e \<Rightarrow> (entries, Inl e)
                  | Inr None \<Rightarrow> (entries, Inr ShowErrorPage)
                  | Inr (Some who) \<Rightarrow>
                      (let (entries', saved) =
                         (case saved_token of Some t \<Rightarrow> store_take t entries | None \<Rightarrow> (entries, None))
                       in (entries', Inr (Authenticated who
                            (case saved of Some req \<Rightarrow> saved_target req | None \<Rightarrow> ''/'')))))))
     else
       (case saved_token of
          Some t \<Rightarrow>
            (let (path_only, query) =
               (case split_once CHR ''?'' path of Some (p, q) \<Rightarrow> (p, Some q) | None \<Rightarrow> (path, None))
             in (store_save t \<lparr>sv_method = method_name, sv_path = path_only, sv_query = query\<rparr> entries, Inr ShowLoginPage))
        | None \<Rightarrow> (entries, Inr Continue)))"

section \<open>Lemmas\<close>

lemma tail_length_simps [simp]: "tail_length [] bs = 0" "tail_length rs [] = 0"
  by (cases rs; simp)+

lemma utf8_valid_tail:
  "utf8_valid (b # bs) \<Longrightarrow>
    \<exists>rs. utf8_tail b = Some rs \<and> tail_length rs bs = length rs \<and> utf8_valid (drop (length rs) bs)"
  by (auto simp: utf8_tail_def Let_def utf8_cont_def word_le_nat_alt word_unat_eq_iff split: if_splits list.splits)

lemma utf8_lossy_valid: "utf8_valid bs \<Longrightarrow> utf8_lossy bs = bs"
proof (induction bs rule: utf8_lossy.induct)
  case (2 b bs)
  then obtain rs where "utf8_tail b = Some rs" "tail_length rs bs = length rs" "utf8_valid (drop (length rs) bs)"
    using utf8_valid_tail by blast
  moreover from this have "utf8_lossy (drop (length rs) bs) = drop (length rs) bs" using 2(2) [of rs "length rs"] by simp
  ultimately show ?case by (simp add: Let_def)
qed simp

lemma hex_lower_simps [simp]:
  "hex_lower [] = []" "hex_lower (b # bs) = hex_char (unat b div 16) # hex_char (unat b mod 16) # hex_lower bs"
  by (simp_all add: hex_lower_def)

lemma length_hex_lower [simp]: "length (hex_lower bs) = 2 * length bs"
  by (induction bs) simp_all

lemma byte_of_nibbles: "push_bit 4 (of_nat (unat b div 16)) OR of_nat (unat b mod 16) = (b :: u8)"
proof -
  have "of_nat (unat b div 16) = drop_bit 4 b" by (simp add: drop_bit_eq_div word_arith_nat_div)
  moreover have "of_nat (unat b mod 16) = take_bit 4 b" by (simp add: take_bit_eq_mod word_arith_nat_mod)
  ultimately show ?thesis by (auto simp: bit_eq_iff bit_simps)
qed

lemma hex_decode_lower [simp]: "hex_decode (hex_lower bs) = Some bs"
proof -
  have "unat b div 16 < 16" "unat b mod 16 < 16" for b :: u8 using unat_less_256 [of b] by linarith+
  then have "hex_chunks (hex_lower bs) = Some bs" by (induction bs) (simp_all add: byte_of_nibbles)
  then show ?thesis by (simp add: hex_decode_def)
qed

lemma hex_lower_digits: "c \<in> set (hex_lower bs) \<Longrightarrow> \<exists>d<16. c = hex_char d"
proof (induction bs)
  case (Cons b bs)
  have "unat b div 16 < 16" "unat b mod 16 < 16" using unat_less_256 [of b] by linarith+
  then show ?case using Cons by (simp only: hex_lower_simps list.set insert_iff) blast
qed simp

section \<open>The contract of a store of users\<close>

text \<open>What an authenticator may rely on, whatever digest the store keeps in place of the password.\<close>

locale user_store =
  fixes register :: "string \<Rightarrow> string \<Rightarrow> string list \<Rightarrow> 's \<Rightarrow> 's"
    and login :: "'s \<Rightarrow> string \<Rightarrow> string \<Rightarrow> Error + Principal option"
  assumes login_registered: "login (register u p rs s) u p = Inr (Some \<lparr>pr_name = u, pr_roles = rs\<rparr>)"
    and login_other: "v \<noteq> u \<Longrightarrow> login (register u p rs s) v q = login s v q"
begin

definition register_all :: "(string \<times> string \<times> string list) list \<Rightarrow> 's \<Rightarrow> 's" where
  "register_all accounts s = fold (\<lambda>(u, p, rs). register u p rs) accounts s"

lemma login_not_registered: "v \<notin> fst ` set accounts \<Longrightarrow> login (register_all accounts s) v q = login s v q"
  by (induction accounts arbitrary: s) (auto simp: register_all_def login_other)

lemma login_last_registration:
  assumes "v \<notin> fst ` set later"
  shows "login (register_all (earlier @ (v, p, rs) # later) s) v p = Inr (Some \<lparr>pr_name = v, pr_roles = rs\<rparr>)"
  using login_not_registered [OF assms] by (simp add: register_all_def login_registered)

end

interpretation plain: user_store "add_user sha256" "in_memory_authenticate sha256" for sha256
  by unfold_locales (simp_all add: add_user_def in_memory_authenticate_def)

interpretation digest: user_store "\<lambda>u p. add_digest_user sha256 md5 u realm_name p" "in_memory_authenticate sha256"
  for sha256 md5 realm_name
  by unfold_locales (simp_all add: add_digest_user_def in_memory_authenticate_def)

section \<open>Tokens\<close>

definition byte_at :: "bytes \<Rightarrow> nat \<Rightarrow> u8" where
  "byte_at bs i = (if i < length bs then bs ! i else 0)"

lemma byte_at_simps [simp]:
  "byte_at [] i = 0" "byte_at (x # a) 0 = x" "byte_at (x # a) (Suc i) = byte_at a i"
  by (simp_all add: byte_at_def)

lemma all_nat_Suc: "(\<forall>i. P i) \<longleftrightarrow> P 0 \<and> (\<forall>i. P (Suc i))"
  by (metis nat.exhaust)

lemma csrf_diff_zero: "csrf_diff d a b = 0 \<longleftrightarrow> d = 0 \<and> (\<forall>i. byte_at a i = byte_at b i)"
proof (induction d a b rule: csrf_diff.induct)
  case (2 d x a)
  then show ?case by (subst all_nat_Suc) (simp add: or_eq_zero)
next
  case (3 d y b)
  then show ?case by (subst all_nat_Suc) (auto simp: or_eq_zero)
next
  case (4 d x a y b)
  then show ?case by (subst all_nat_Suc) (simp add: or_eq_zero xor_eq_zero)
qed simp

lemma length_bits_zero:
  "(ucast (of_nat m XOR of_nat n :: u64) OR ucast (drop_bit 8 (of_nat m XOR of_nat n :: u64)) :: u8) = 0 \<longleftrightarrow>
    m mod 65536 = n mod 65536"
proof -
  define x where "x = (of_nat m XOR of_nat n :: u64)"
  have "(ucast x OR ucast (drop_bit 8 x) :: u8) = 0 \<longleftrightarrow> (\<forall>i < 8. \<not> bit x i) \<and> (\<forall>i < 8. \<not> bit x (i + 8))"
    unfolding or_eq_zero by (auto simp: bit_eq_iff bit_simps add.commute)
  also have "\<dots> \<longleftrightarrow> (\<forall>i < 16. \<not> bit x i)"
  proof
    assume l: "(\<forall>i < 8. \<not> bit x i) \<and> (\<forall>i < 8. \<not> bit x (i + 8))"
    show "\<forall>i < 16. \<not> bit x i"
    proof (intro allI impI)
      fix i :: nat
      assume "i < 16"
      then show "\<not> bit x i" using l[THEN conjunct1, rule_format, of i] l[THEN conjunct2, rule_format, of "i - 8"]
        by (cases "i < 8") auto
    qed
  qed auto
  also have "\<dots> \<longleftrightarrow> (ucast x :: 16 word) = 0" by (auto simp: bit_eq_iff bit_simps)
  also have "(ucast x :: 16 word) = of_nat m XOR of_nat n"
    unfolding x_def by (rule bit_word_eqI) (simp add: bit_simps)
  also have "\<dots> = 0 \<longleftrightarrow> (of_nat m :: 16 word) = of_nat n" by (rule xor_eq_zero)
  also have "\<dots> \<longleftrightarrow> m mod 65536 = n mod 65536" by (simp add: word_of_nat_eq_iff take_bit_eq_mod)
  finally show ?thesis by (simp add: x_def)
qed

lemma csrf_matches_iff:
  "csrf_matches s t \<longleftrightarrow> length s mod 65536 = length t mod 65536 \<and> (\<forall>i. byte_at (as_bytes s) i = byte_at (as_bytes t) i)"
  unfolding csrf_matches_def Let_def csrf_diff_zero length_bits_zero length_as_bytes by (rule refl)

lemma byte_at_eq: "length a = length b \<Longrightarrow> (\<forall>i. byte_at a i = byte_at b i) \<longleftrightarrow> a = b"
  by (auto simp: byte_at_def list_eq_iff_nth_eq)

lemma csrf_matches_eq: "length s < 65536 \<Longrightarrow> length t < 65536 \<Longrightarrow> csrf_matches s t \<longleftrightarrow> s = t"
  using byte_at_eq [of "as_bytes s" "as_bytes t"] by (auto simp: csrf_matches_iff)

text \<open>The length is compared modulo \<open>65536\<close> and the text padded with NUL, so a longer text can match.\<close>

lemma csrf_padding_matches: "csrf_matches s (s @ replicate 65536 CHR 0x00)"
  by (auto simp: csrf_matches_iff byte_at_def nth_append byte_of_def as_bytes_def)

definition short_tokens :: "CsrfTokenStore \<Rightarrow> bool" where
  "short_tokens tokens \<longleftrightarrow> distinct tokens \<and> list_all (\<lambda>t. length t < 65536) tokens"

lemma csrf_validate_any: "csrf_validate tokens t \<longleftrightarrow> list_ex (\<lambda>s. csrf_matches s t) tokens"
proof -
  have "foldl (\<lambda>ok stored. ok \<or> csrf_matches stored t) b tokens \<longleftrightarrow> b \<or> list_ex (\<lambda>s. csrf_matches s t) tokens" for b
    by (induction tokens arbitrary: b) auto
  then show ?thesis by (simp add: csrf_validate_def)
qed

section \<open>Form data\<close>

text \<open>The encoding of a browser.\<close>

definition url_encode :: "string \<Rightarrow> string" where
  "url_encode s =
    concat (map (\<lambda>c. let n = (of_char c :: nat) in
      if 48 \<le> n \<and> n \<le> 57 \<or> 65 \<le> n \<and> n \<le> 90 \<or> 97 \<le> n \<and> n \<le> 122 then [c]
      else if c = CHR '' '' then ''+''
      else CHR 0x25 # hex_lower [byte_of c]) s)"

lemma url_encode_simps [simp]:
  "url_encode [] = []"
  "url_encode (c # s) =
    (let n = (of_char c :: nat) in
      if 48 \<le> n \<and> n \<le> 57 \<or> 65 \<le> n \<and> n \<le> 90 \<or> 97 \<le> n \<and> n \<le> 122 then [c]
      else if c = CHR '' '' then ''+''
      else CHR 0x25 # hex_lower [byte_of c]) @ url_encode s"
  by (simp_all add: url_encode_def)

lemma url_decode_plain: "c \<noteq> CHR ''+'' \<Longrightarrow> c \<noteq> CHR 0x25 \<Longrightarrow> url_decode_bytes (c # s) = byte_of c # url_decode_bytes s"
  by (cases s rule: remdups_adj.cases) simp_all

lemma url_decode_plain_str:
  assumes "CHR ''+'' \<notin> set s" "CHR 0x25 \<notin> set s" "valid_str s"
  shows "url_decode s = s"
proof -
  have "url_decode_bytes s = as_bytes s"
    using assms(1,2) by (induction s) (auto simp: url_decode_plain as_bytes_def simp del: url_decode_bytes.simps(2))
  then show ?thesis using assms(3) by (simp add: url_decode_def utf8_lossy_valid valid_str_def)
qed

lemma url_decode_bytes_encode: "url_decode_bytes (url_encode s) = as_bytes s"
proof (induction s)
  case (Cons c s)
  let ?n = "of_char c :: nat"
  consider "48 \<le> ?n \<and> ?n \<le> 57 \<or> 65 \<le> ?n \<and> ?n \<le> 90 \<or> 97 \<le> ?n \<and> ?n \<le> 122" |
    "\<not> (48 \<le> ?n \<and> ?n \<le> 57 \<or> 65 \<le> ?n \<and> ?n \<le> 90 \<or> 97 \<le> ?n \<and> ?n \<le> 122)" "c = CHR '' ''" |
    "\<not> (48 \<le> ?n \<and> ?n \<le> 57 \<or> 65 \<le> ?n \<and> ?n \<le> 90 \<or> 97 \<le> ?n \<and> ?n \<le> 122)" "c \<noteq> CHR '' ''" by blast
  then show ?case
  proof cases
    case 1
    then have "c \<noteq> CHR ''+''" "c \<noteq> CHR 0x25" by auto
    then show ?thesis using 1 Cons by (simp add: url_decode_plain as_bytes_def Let_def del: url_decode_bytes.simps(2))
  next
    case 2
    then show ?thesis using Cons by (simp add: as_bytes_def Let_def)
  next
    case 3
    have "unat (byte_of c) div 16 < 16" using unat_less_256 [of "byte_of c"] by linarith
    moreover have "url_encode (c # s) =
        CHR 0x25 # hex_char (unat (byte_of c) div 16) # hex_char (unat (byte_of c) mod 16) # url_encode s"
      using 3 by (simp add: Let_def)
    ultimately show ?thesis using Cons by (simp add: as_bytes_def)
  qed
qed (simp add: as_bytes_def)

lemma url_decode_encode: "valid_str s \<Longrightarrow> url_decode (url_encode s) = s"
  by (simp add: url_decode_def url_decode_bytes_encode utf8_lossy_valid valid_str_def)

lemma hex_char_plain: "d < 16 \<Longrightarrow> hex_char d \<noteq> CHR ''&'' \<and> hex_char d \<noteq> CHR ''='' \<and> hex_char d \<noteq> CHR '':'' \<and> hex_char d \<noteq> CHR 0x22 \<and> hex_char d \<noteq> CHR '',''"
proof -
  assume "d < 16"
  then have "hex_digit_value (hex_char d) = Some d" by simp
  then show ?thesis by (auto simp: hex_digit_value_def)
qed

lemma url_encode_chars: "c \<in> set (url_encode s) \<Longrightarrow> c \<noteq> CHR ''&'' \<and> c \<noteq> CHR ''=''"
proof (induction s)
  case (Cons d s)
  have "unat (byte_of d) div 16 < 16" using unat_less_256 [of "byte_of d"] by linarith
  then show ?case using Cons hex_char_plain by (auto simp: Let_def split: if_splits)
qed simp

definition login_body :: "string \<Rightarrow> string \<Rightarrow> string" where
  "login_body user pass = J_USERNAME @ ''='' @ url_encode user @ ''&'' @ J_PASSWORD @ ''='' @ url_encode pass"

lemma from_form_body_login:
  assumes "valid_str user" "valid_str pass"
  shows "from_form_body (login_body user pass) = Some \<lparr>fc_username = user, fc_password = pass\<rparr>"
proof -
  let ?u = "J_USERNAME @ ''='' @ url_encode user" and ?p = "J_PASSWORD @ ''='' @ url_encode pass"
  have no: "CHR ''&'' \<notin> set (url_encode s)" "CHR ''='' \<notin> set (url_encode s)" for s
    using url_encode_chars by blast+
  have "CHR ''&'' \<notin> set ?u" "CHR ''&'' \<notin> set ?p" using no by (simp_all add: J_USERNAME_def J_PASSWORD_def)
  then have split: "split_on CHR ''&'' (login_body user pass) = [?u, ?p]"
    using split_on_append [of "CHR ''&''" ?u ?p] by (simp add: login_body_def)
  have pairs: "split_once CHR ''='' (J_USERNAME @ CHR ''='' # url_encode user) = Some (J_USERNAME, url_encode user)"
    "split_once CHR ''='' (J_PASSWORD @ CHR ''='' # url_encode pass) = Some (J_PASSWORD, url_encode pass)"
    unfolding split_once_Some by (simp_all add: J_USERNAME_def J_PASSWORD_def)
  have names: "url_decode J_USERNAME = J_USERNAME" "url_decode J_PASSWORD = J_PASSWORD" "J_PASSWORD \<noteq> J_USERNAME"
    by (simp_all add: J_USERNAME_def J_PASSWORD_def url_decode_plain_str valid_str_Cons_ascii ascii_def byte_of_def)
  have "form_pair ?u acc = (Some user, snd acc)" "form_pair ?p acc = (fst acc, Some pass)" for acc
    using pairs names by (simp_all add: form_pair_def url_decode_encode assms)
  then show ?thesis unfolding from_form_body_def split by simp
qed

lemma split_once_ws_scheme:
  assumes "visible_str scheme" "rest \<noteq> []" "visible (byte_of (last rest))"
  shows "split_once_ws (trim (scheme @ CHR '' '' # rest)) = Some (scheme, rest)"
proof -
  have "trim (scheme @ CHR '' '' # rest) = scheme @ CHR '' '' # rest"
    using assms by (intro trim_ends) (auto simp: visible_str_def hd_append)
  moreover have "ws_token (as_bytes scheme @ 0x20 # as_bytes rest) = (as_bytes scheme, 0x20 # as_bytes rest)"
    using assms(1) by (intro ws_token_visible) (auto simp: visible_str_def as_bytes_def)
  moreover have "as_bytes (scheme @ CHR '' '' # rest) = as_bytes scheme @ 0x20 # as_bytes rest" by (simp add: as_bytes_def)
  ultimately show ?thesis by (simp add: split_once_ws_def)
qed

section \<open>Properties\<close>

text \<open>
  A browser that sends the name and the password of an account in a BASIC header, with the
  scheme in any case, is logged in with the roles of the last registration of that name, whatever other
  accounts there are; the decoder is only assumed to undo the encoder of the browser.
\<close>

lemma basic_login:
  assumes "\<And>bs. decode (encode bs) = Some bs" "\<And>bs. bs \<noteq> [] \<Longrightarrow> visible_str (encode bs)"
    and "eq_ignore_ascii_case scheme ''basic''" "visible_str scheme"
    and "valid_str user" "valid_str pass" "CHR '':'' \<notin> set user" "user \<notin> fst ` set later"
  shows "basic_authenticate decode
      (in_memory_realm sha256
        (fold (\<lambda>(u, p, rs). add_user sha256 u p rs) (earlier @ (user, pass, roles) # later) in_memory_new))
      (Some (scheme @ '' '' @ encode (as_bytes (user @ '':'' @ pass)))) =
    Inr (Some \<lparr>pr_name = user, pr_roles = roles\<rparr>)"
proof -
  let ?pair = "user @ CHR '':'' # pass"
  have rest: "visible_str (encode (as_bytes ?pair))" using assms(2) by (simp add: as_bytes_def)
  have "trim (encode (as_bytes ?pair)) = encode (as_bytes ?pair)"
    using rest by (auto simp: visible_str_def intro: trim_visible)
  moreover have "valid_str ?pair" using assms(5,6) by (simp add: valid_str_append_ascii ascii_def byte_of_def)
  moreover have "split_once CHR '':'' ?pair = Some (user, pass)" using assms(7) by (simp add: split_once_Some)
  ultimately have "basic_parse_authorization decode (scheme @ '' '' @ encode (as_bytes (user @ '':'' @ pass))) = Some (user, pass)"
    using split_once_ws_scheme [OF assms(4), of "encode (as_bytes ?pair)"] rest assms(1,3)
    by (simp add: basic_parse_authorization_def visible_str_def del: as_bytes_append)
  then show ?thesis
    using plain.login_last_registration [OF assms(8), of sha256 earlier pass roles in_memory_new]
    by (simp add: basic_authenticate_def in_memory_realm_def plain.register_all_def)
qed

text \<open>
  A store of CSRF tokens is a set: a presented text is valid exactly if it is one of the tokens
  issued and not yet consumed, and consuming it takes out that token and no other. (Lengths are below 65536:
  a longer text can match, \<open>csrf_padding_matches\<close>.)
\<close>

lemma csrf_store_is_set:
  assumes "short_tokens tokens" "length t < 65536"
  shows "(csrf_validate tokens t \<longleftrightarrow> t \<in> set tokens) \<and>
    (case csrf_consume tokens t of
       (rest, ok) \<Rightarrow> (ok \<longleftrightarrow> t \<in> set tokens) \<and> set rest = set tokens - {t} \<and> short_tokens rest)"
proof -
  have eq: "csrf_matches s t \<longleftrightarrow> s = t" if "s \<in> set tokens" for s
    using that assms by (intro csrf_matches_eq) (simp_all add: short_tokens_def list_all_iff)
  have "csrf_validate tokens t \<longleftrightarrow> t \<in> set tokens" by (auto simp: csrf_validate_any list_ex_iff eq)
  moreover have "csrf_consume tokens t = (if t \<in> set tokens then (remove1 t tokens, True) else (tokens, False))"
  proof (cases "List.find (\<lambda>s. csrf_matches s t) tokens")
    case None
    then have "t \<notin> set tokens" using eq by (auto simp: find_None_iff)
    then show ?thesis by (simp add: csrf_consume_def None)
  next
    case (Some s)
    then have "s \<in> set tokens" "csrf_matches s t" by (auto simp: find_Some_iff in_set_conv_nth)
    then show ?thesis using eq by (simp add: csrf_consume_def Some)
  qed
  moreover have "short_tokens (remove1 t tokens)" "set (remove1 t tokens) = set tokens - {t}"
    using assms(1) notin_set_remove1 by (auto simp: short_tokens_def list_all_iff)
  ultimately show ?thesis using assms(1) by simp
qed

text \<open>
  C40. A user who asks for a page without being logged in is shown the login page, and after sending
  credentials that the realm accepts is sent back to that page, its query included, once; requests under
  other tokens in between do not matter. The form may have any text in its fields.
\<close>

theorem form_login_returns:
  assumes "\<not> is_security_check path" "\<And>p. path \<noteq> p @ ''?''"
    and "rl_authenticate realm user pass = Inr (Some who)" "valid_str user" "valid_str pass"
    and "eq_ignore_ascii_case post ''POST''"
    and "form_process realm path meth body (Some token) entries = (entries1, shown)" "entries2 token = entries1 token"
  shows "shown = Inr ShowLoginPage \<and>
    form_process realm J_SECURITY_CHECK post (Some (login_body user pass)) (Some token) entries2 =
      (entries2(token := None), Inr (Authenticated who path))"
proof -
  obtain p q where pq: "(case split_once CHR ''?'' path of Some (p, q) \<Rightarrow> (p, Some q) | None \<Rightarrow> (path, None)) = (p, q)"
    by fastforce
  let ?saved = "\<lparr>sv_method = meth, sv_path = p, sv_query = q\<rparr>"
  have first: "entries1 = entries(token \<mapsto> ?saved)" "shown = Inr ShowLoginPage"
    using assms(1,7) by (auto simp: form_process_def pq store_save_def)
  have "saved_target ?saved = path"
    using pq assms(2) [of p] by (auto simp: saved_target_def split_once_Some split_once_None split: option.splits)
  then show ?thesis
    using assms(3,6,8) first from_form_body_login [OF assms(4,5)]
    by (simp add: form_process_def is_security_check_def form_authenticate_def store_take_def)
qed

section \<open>Examples\<close>

definition sample_users :: InMemoryRealm where
  "sample_users = add_user (\<lambda>bs. bs) ''ann'' ''pw'' [''admin''] in_memory_new"

lemma csrf_store_is_set_witness:
  "csrf_validate [''a1'', ''b2''] ''b2'' \<and> \<not> csrf_validate [''a1'', ''b2''] ''c3''"
  using csrf_store_is_set [of "[''a1'', ''b2'']" "''b2''"] csrf_store_is_set [of "[''a1'', ''b2'']" "''c3''"]
  by (simp add: short_tokens_def)

lemma basic_login_witness:
  "basic_authenticate hex_decode (in_memory_realm (\<lambda>bs. bs) sample_users) (Some ''BASIC 616e6e3a7077'') =
    Inr (Some \<lparr>pr_name = ''ann'', pr_roles = [''admin'']\<rparr>)"
proof -
  have "visible_str (hex_lower bs)" if "bs \<noteq> []" for bs
  proof -
    have "visible (byte_of c)" if c: "c \<in> set (hex_lower bs)" for c
    proof -
      obtain d where "d < 16" "c = hex_char d" using hex_lower_digits [OF c] by blast
      then have "hex_digit_value c \<noteq> None" by simp
      then have "48 \<le> (of_char c :: nat) \<and> (of_char c :: nat) \<le> 102" by (auto simp: hex_digit_value_def Let_def split: if_splits)
      then show ?thesis by (auto simp: visible_def word_le_nat_alt word_less_nat_alt unat_byte_of)
    qed
    moreover have "hex_lower bs \<noteq> []" using that by (cases bs) simp_all
    ultimately show ?thesis by (simp add: visible_str_def)
  qed
  note login = basic_login [where decode = hex_decode and encode = hex_lower and scheme = "''BASIC''" and user = "''ann''"
      and pass = "''pw''" and later = "[]" and earlier = "[]" and roles = "[''admin'']" and ?sha256.0 = "\<lambda>bs. bs",
      OF hex_decode_lower this]
  have "eq_ignore_ascii_case ''BASIC'' ''basic''" by code_simp
  moreover have "visible_str ''BASIC''" by (simp add: visible_str_def visible_def byte_of_def)
  moreover have "valid_str ''ann''" "valid_str ''pw''" by code_simp+
  moreover have "''BASIC'' @ '' '' @ hex_lower (as_bytes (''ann'' @ '':'' @ ''pw'')) = ''BASIC 616e6e3a7077''" by code_simp
  ultimately show ?thesis using login by (simp add: sample_users_def)
qed

theorem form_login_returns_witness:
  "form_process (in_memory_realm (\<lambda>bs. bs) sample_users) ''/j_security_check'' ''POST''
      (Some ''j_username=ann&j_password=pw'') (Some ''s1'') (fst (form_process (in_memory_realm (\<lambda>bs. bs) sample_users)
        ''/a?x=1'' ''GET'' None (Some ''s1'') Map.empty)) =
    (Map.empty, Inr (Authenticated \<lparr>pr_name = ''ann'', pr_roles = [''admin'']\<rparr> ''/a?x=1''))"
proof -
  let ?realm = "in_memory_realm (\<lambda>bs. bs) sample_users"
  obtain entries1 shown where first: "form_process ?realm ''/a?x=1'' ''GET'' None (Some ''s1'') Map.empty = (entries1, shown)"
    by fastforce
  have "\<not> is_security_check ''/a?x=1''" by (simp add: is_security_check_def J_SECURITY_CHECK_def)
  moreover have "p @ ''?'' \<noteq> ''/a?x=1''" for p
  proof
    assume "p @ ''?'' = ''/a?x=1''"
    then have "last (p @ ''?'') = last ''/a?x=1''" by (simp only:)
    then show False by simp
  qed
  moreover have "rl_authenticate ?realm ''ann'' ''pw'' = Inr (Some \<lparr>pr_name = ''ann'', pr_roles = [''admin'']\<rparr>)"
    by (simp add: in_memory_realm_def in_memory_authenticate_def sample_users_def add_user_def)
  moreover have "valid_str ''ann''" "valid_str ''pw''" by code_simp+
  ultimately have "form_process ?realm J_SECURITY_CHECK ''POST'' (Some (login_body ''ann'' ''pw'')) (Some ''s1'') entries1 =
      (entries1(''s1'' := None), Inr (Authenticated \<lparr>pr_name = ''ann'', pr_roles = [''admin'']\<rparr> ''/a?x=1''))"
    using form_login_returns [OF _ _ _ _ _ _ first, where user = "''ann''" and pass = "''pw''" and post = "''POST''"
        and ?entries2.0 = entries1 and who = "\<lparr>pr_name = ''ann'', pr_roles = [''admin'']\<rparr>"]
    by simp
  moreover have "login_body ''ann'' ''pw'' = ''j_username=ann&j_password=pw''" by code_simp
  moreover have "entries1(''s1'' := None) = Map.empty"
    using first by (auto simp: form_process_def is_security_check_def J_SECURITY_CHECK_def store_save_def split: prod.splits option.splits)
  ultimately show ?thesis using first by (simp add: J_SECURITY_CHECK_def)
qed

end
