(* ===== verification/Digest.thy ===== *)
theory Digest
  imports Realms
begin

text \<open>
  DIGEST authentication, \<open>src/crates/tomcatrs-security/src/auth_digest.rs\<close>: nonces, the parser of the
  header, the table of nonce counts. MD5 comes from another package and is a parameter; random bytes and
  the readings of the clock are arguments. The clock is read twice for a request, when its nonce is
  validated and when the table is pruned.
\<close>

section \<open>Types\<close>

definition QOP :: string where
  "QOP = ''auth''"

definition NONCE_TTL_MILLIS :: nat where
  "NONCE_TTL_MILLIS = 5 * 60 * 1000"

datatype DigestAlgorithm = Md5 | Md5Sess

fun algorithm_str :: "DigestAlgorithm \<Rightarrow> string" where
  "algorithm_str Md5 = ''MD5''"
| "algorithm_str Md5Sess = ''MD5-sess''"

definition algorithm_parse :: "string option \<Rightarrow> DigestAlgorithm option" where
  "algorithm_parse s =
    (case s of
       None \<Rightarrow> Some Md5
     | Some v \<Rightarrow>
         if eq_ignore_ascii_case v ''MD5'' then Some Md5
         else if eq_ignore_ascii_case v ''MD5-sess'' then Some Md5Sess
         else None)"

record DigestResponse =
  dr_username :: string
  dr_realm :: string
  dr_nonce :: string
  dr_uri :: string
  dr_response :: string
  dr_qop :: "string option"
  dr_cnonce :: "string option"
  dr_nc :: "string option"
  dr_opaque :: "string option"
  dr_algorithm :: "string option"

definition digest_response_default :: DigestResponse where
  "digest_response_default =
    \<lparr>dr_username = [], dr_realm = [], dr_nonce = [], dr_uri = [], dr_response = [], dr_qop = None,
     dr_cnonce = None, dr_nc = None, dr_opaque = None, dr_algorithm = None\<rparr>"

record NonceState =
  ns_issued_millis :: nat
  ns_seen_ncs :: "nat set"

type_synonym NonceTable = "string \<rightharpoonup> NonceState"

record DigestAuthenticator =
  da_realm :: Realm
  da_realm_name :: string
  da_opaque_key :: bytes

section \<open>Helpers\<close>

fun ct_diff :: "u8 \<Rightarrow> bytes \<Rightarrow> bytes \<Rightarrow> u8" where
  "ct_diff diff (x # a) (y # b) = ct_diff (diff OR (x XOR y)) a b"
| "ct_diff diff _ _ = diff"

definition constant_time_eq :: "bytes \<Rightarrow> bytes \<Rightarrow> bool" where
  "constant_time_eq a b = (if length a \<noteq> length b then False else ct_diff 0 a b = 0)"

definition unquote :: "string \<Rightarrow> string" where
  "unquote s =
    (if 2 \<le> length s \<and> hd s = CHR 0x22 \<and> last s = CHR 0x22 then take (length s - 2) (drop 1 s) else s)"

definition keep_directive :: "string \<Rightarrow> string list" where
  "keep_directive buf = (if trim buf \<noteq> [] then [trim buf] else [])"

fun split_directives_from :: "bool \<Rightarrow> string \<Rightarrow> string \<Rightarrow> string list" where
  "split_directives_from in_quote buf [] = keep_directive buf"
| "split_directives_from in_quote buf (ch # s) =
    (if ch = CHR 0x22 then split_directives_from (\<not> in_quote) (buf @ [ch]) s
     else if ch = CHR '','' \<and> \<not> in_quote then keep_directive buf @ split_directives_from in_quote [] s
     else split_directives_from in_quote (buf @ [ch]) s)"

definition split_directives :: "string \<Rightarrow> string list" where
  "split_directives s = split_directives_from False [] s"

text \<open>The parsers of \<open>u128\<close> and, in base 16, of \<open>u64\<close>; both take a plus sign.\<close>

definition strip_plus :: "string \<Rightarrow> string" where
  "strip_plus s = (case strip_prefix ''+'' s of Some r \<Rightarrow> r | None \<Rightarrow> s)"

definition parse_u128 :: "string \<Rightarrow> nat option" where
  "parse_u128 s =
    (if strip_plus s = [] then None
     else case digits_int 0 (strip_plus s) of
       Some v \<Rightarrow> if v < 2 ^ 128 then Some (nat v) else None
     | None \<Rightarrow> None)"

definition parse_nc :: "string \<Rightarrow> nat option" where
  "parse_nc s = parse_hex (strip_plus s)"

definition be_bytes128 :: "nat \<Rightarrow> bytes" where
  "be_bytes128 n = map (\<lambda>i. of_nat (n div 256 ^ (15 - i))) [0..<16]"

section \<open>Nonces\<close>

definition md5_hex :: "(bytes \<Rightarrow> bytes) \<Rightarrow> string \<Rightarrow> string" where
  "md5_hex md5 s = hex_lower (md5 (as_bytes s))"

definition keyed_digest :: "(bytes \<Rightarrow> bytes) \<Rightarrow> DigestAuthenticator \<Rightarrow> nat \<Rightarrow> bytes \<Rightarrow> string" where
  "keyed_digest md5 da issued_millis salt = hex_lower (md5 (be_bytes128 issued_millis @ salt @ da_opaque_key da))"

definition generate_nonce :: "(bytes \<Rightarrow> bytes) \<Rightarrow> DigestAuthenticator \<Rightarrow> nat \<Rightarrow> bytes \<Rightarrow> string" where
  "generate_nonce md5 da now salt =
    dec_str now @ '':'' @ hex_lower salt @ '':'' @ keyed_digest md5 da now salt"

text \<open>\<open>splitn(3, ':')\<close>, if it gives three parts.\<close>

definition split_three :: "string \<Rightarrow> (string \<times> string \<times> string) option" where
  "split_three s =
    (case split_once CHR '':'' s of
       None \<Rightarrow> None
     | Some (a, r) \<Rightarrow> map_option (Pair a) (split_once CHR '':'' r))"

definition validate_nonce :: "(bytes \<Rightarrow> bytes) \<Rightarrow> DigestAuthenticator \<Rightarrow> nat \<Rightarrow> string \<Rightarrow> nat option" where
  "validate_nonce md5 da now nonce =
    (case split_three nonce of
       None \<Rightarrow> None
     | Some (ts, salt_hex, digest_hex) \<Rightarrow>
         (case parse_u128 ts of
            None \<Rightarrow> None
          | Some issued \<Rightarrow>
              (case hex_decode salt_hex of
                 None \<Rightarrow> None
               | Some salt \<Rightarrow>
                   if \<not> constant_time_eq (as_bytes (keyed_digest md5 da issued salt)) (as_bytes digest_hex) then None
                   else if now + 1000 < issued then None
                   else if NONCE_TTL_MILLIS < now - issued then None
                   else Some issued)))"

definition digest_challenge :: "(bytes \<Rightarrow> bytes) \<Rightarrow> DigestAuthenticator \<Rightarrow> nat \<Rightarrow> bytes \<Rightarrow> bytes \<Rightarrow> string" where
  \<open>digest_challenge md5 da now salt random =
    ''Digest realm="'' @ filter (\<lambda>c. c \<noteq> CHR 0x22) (da_realm_name da) @ ''", qop="'' @ QOP @
    ''", nonce="'' @ generate_nonce md5 da now salt @ ''", opaque="'' @ hex_lower random @ ''", algorithm=MD5''\<close>

definition stale_challenge :: "(bytes \<Rightarrow> bytes) \<Rightarrow> DigestAuthenticator \<Rightarrow> nat \<Rightarrow> bytes \<Rightarrow> bytes \<Rightarrow> string" where
  \<open>stale_challenge md5 da now salt random =
    ''Digest realm="'' @ filter (\<lambda>c. c \<noteq> CHR 0x22) (da_realm_name da) @ ''", qop="'' @ QOP @
    ''", nonce="'' @ generate_nonce md5 da now salt @ ''", opaque="'' @ hex_lower random @
    ''", algorithm=MD5, stale=true''\<close>

section \<open>The header\<close>

text \<open>One directive; the second component lists the mandatory ones that were seen.\<close>

definition digest_directive :: "string \<Rightarrow> DigestResponse \<times> string list \<Rightarrow> DigestResponse \<times> string list" where
  "digest_directive part acc =
    (case split_once CHR ''='' part of
       None \<Rightarrow> acc
     | Some (k, raw) \<Rightarrow>
         (let key = to_ascii_lowercase (trim k); v = unquote (trim raw); (out, saw) = acc in
          if key = ''username'' then (out\<lparr>dr_username := v\<rparr>, key # saw)
          else if key = ''realm'' then (out\<lparr>dr_realm := v\<rparr>, key # saw)
          else if key = ''nonce'' then (out\<lparr>dr_nonce := v\<rparr>, key # saw)
          else if key = ''uri'' then (out\<lparr>dr_uri := v\<rparr>, key # saw)
          else if key = ''response'' then (out\<lparr>dr_response := v\<rparr>, key # saw)
          else if key = ''qop'' then (out\<lparr>dr_qop := Some v\<rparr>, saw)
          else if key = ''cnonce'' then (out\<lparr>dr_cnonce := Some v\<rparr>, saw)
          else if key = ''nc'' then (out\<lparr>dr_nc := Some v\<rparr>, saw)
          else if key = ''opaque'' then (out\<lparr>dr_opaque := Some v\<rparr>, saw)
          else if key = ''algorithm'' then (out\<lparr>dr_algorithm := Some v\<rparr>, saw)
          else acc))"

definition digest_parse_authorization :: "string \<Rightarrow> DigestResponse option" where
  "digest_parse_authorization header =
    (case split_once_ws (trim header) of
       None \<Rightarrow> None
     | Some (scheme, rest) \<Rightarrow>
         if eq_ignore_ascii_case scheme ''digest'' then
           (let (out, saw) = fold digest_directive (split_directives rest) (digest_response_default, [])
            in if list_all (\<lambda>k. k \<in> set saw) [''username'', ''realm'', ''nonce'', ''uri'', ''response'']
               then Some out else None)
         else None)"

section \<open>Authentication\<close>

text \<open>The table without the expired nonces.\<close>

definition prune :: "nat \<Rightarrow> NonceTable \<Rightarrow> NonceTable" where
  "prune now nonces n =
    (case nonces n of
       Some st \<Rightarrow> if now - ns_issued_millis st \<le> NONCE_TTL_MILLIS then Some st else None
     | None \<Rightarrow> None)"

text \<open>The replay check: the new table, and whether the request goes on.\<close>

definition check_replay :: "nat \<Rightarrow> nat \<Rightarrow> DigestResponse \<Rightarrow> NonceTable \<Rightarrow> NonceTable \<times> bool" where
  "check_replay now issued parsed nonces =
    (case dr_nc parsed of
       None \<Rightarrow> (nonces, True)
     | Some nc_str \<Rightarrow>
         (case parse_nc nc_str of
            None \<Rightarrow> (nonces, False)
          | Some nc \<Rightarrow>
              (let nonces = prune now nonces;
                   st = (case nonces (dr_nonce parsed) of
                           Some st \<Rightarrow> st
                         | None \<Rightarrow> \<lparr>ns_issued_millis = issued, ns_seen_ncs = {}\<rparr>)
               in (nonces(dr_nonce parsed \<mapsto> st\<lparr>ns_seen_ncs := insert nc (ns_seen_ncs st)\<rparr>), nc \<notin> ns_seen_ncs st))))"

definition qop_ok :: "DigestResponse \<Rightarrow> bool" where
  "qop_ok parsed \<longleftrightarrow>
    (case dr_qop parsed of
       Some q \<Rightarrow> eq_ignore_ascii_case q ''auth'' \<and> dr_nc parsed \<noteq> None \<and> dr_cnonce parsed \<noteq> None
     | None \<Rightarrow> True)"

definition rebind_ha1 :: "(bytes \<Rightarrow> bytes) \<Rightarrow> DigestAlgorithm \<Rightarrow> DigestResponse \<Rightarrow> string \<Rightarrow> string option" where
  "rebind_ha1 md5 algorithm parsed stored =
    (case algorithm of
       Md5 \<Rightarrow> Some stored
     | Md5Sess \<Rightarrow>
         map_option (\<lambda>cnonce. md5_hex md5 (stored @ '':'' @ dr_nonce parsed @ '':'' @ cnonce)) (dr_cnonce parsed))"

definition or_empty :: "string option \<Rightarrow> string" where
  "or_empty s = (case s of Some t \<Rightarrow> t | None \<Rightarrow> [])"

definition expected_response :: "(bytes \<Rightarrow> bytes) \<Rightarrow> string \<Rightarrow> DigestResponse \<Rightarrow> string \<Rightarrow> string" where
  "expected_response md5 http_method parsed ha1 =
    (let ha2 = md5_hex md5 (http_method @ '':'' @ dr_uri parsed) in
     case dr_qop parsed of
       Some _ \<Rightarrow>
         md5_hex md5 (ha1 @ '':'' @ dr_nonce parsed @ '':'' @ or_empty (dr_nc parsed) @ '':'' @
           or_empty (dr_cnonce parsed) @ '':auth:'' @ ha2)
     | None \<Rightarrow> md5_hex md5 (ha1 @ '':'' @ dr_nonce parsed @ '':'' @ ha2))"

text \<open>After the replay check: the realm is asked, the response computed again and compared.\<close>

definition verify_response ::
    "(bytes \<Rightarrow> bytes) \<Rightarrow> DigestAuthenticator \<Rightarrow> DigestAlgorithm \<Rightarrow> string \<Rightarrow> DigestResponse \<Rightarrow> Principal option" where
  "verify_response md5 da algorithm http_method parsed =
    (case rl_digest_ha1 (da_realm da) (dr_username parsed) (da_realm_name da) of
       None \<Rightarrow> None
     | Some stored \<Rightarrow>
         (case rebind_ha1 md5 algorithm parsed stored of
            None \<Rightarrow> None
          | Some ha1 \<Rightarrow>
              if constant_time_eq (as_bytes (expected_response md5 http_method parsed ha1)) (as_bytes (dr_response parsed))
              then Some \<lparr>pr_name = dr_username parsed, pr_roles = []\<rparr> else None))"

definition digest_authenticate ::
    "(bytes \<Rightarrow> bytes) \<Rightarrow> DigestAuthenticator \<Rightarrow> nat \<Rightarrow> nat \<Rightarrow> string \<Rightarrow> string \<Rightarrow> NonceTable \<Rightarrow>
     NonceTable \<times> Principal option" where
  "digest_authenticate md5 da now1 now2 header http_method nonces =
    (case digest_parse_authorization header of
       None \<Rightarrow> (nonces, None)
     | Some parsed \<Rightarrow>
         if dr_realm parsed \<noteq> da_realm_name da then (nonces, None)
         else case algorithm_parse (dr_algorithm parsed) of
           None \<Rightarrow> (nonces, None)
         | Some algorithm \<Rightarrow>
             if \<not> qop_ok parsed then (nonces, None)
             else case validate_nonce md5 da now1 (dr_nonce parsed) of
               None \<Rightarrow> (nonces, None)
             | Some issued \<Rightarrow>
                 (let (nonces, go) = check_replay now2 issued parsed nonces
                  in (nonces, if go then verify_response md5 da algorithm http_method parsed else None)))"

section \<open>No response counts twice\<close>

text \<open>
  A run: requests, in the order in which they get at the table, each with the two readings of the clock, when
  its nonce is validated and when the table is looked at.
\<close>

type_synonym DigestRequest = "nat \<times> nat \<times> string \<times> string"

fun digest_run ::
    "(bytes \<Rightarrow> bytes) \<Rightarrow> DigestAuthenticator \<Rightarrow> DigestRequest list \<Rightarrow> NonceTable \<Rightarrow> Principal option list" where
  "digest_run md5 da [] nonces = []"
| "digest_run md5 da ((now1, now2, header, meth) # reqs) nonces =
    (let (nonces, result) = digest_authenticate md5 da now1 now2 header meth nonces
     in result # digest_run md5 da reqs nonces)"

definition nonce_use :: "string \<Rightarrow> (string \<times> nat) option" where
  "nonce_use header =
    (case digest_parse_authorization header of
       Some parsed \<Rightarrow>
         (case Option.bind (dr_nc parsed) parse_nc of Some nc \<Rightarrow> Some (dr_nonce parsed, nc) | None \<Rightarrow> None)
     | None \<Rightarrow> None)"

definition nonce_issued :: "string \<Rightarrow> nat option" where
  "nonce_issued nonce = Option.bind (split_three nonce) (\<lambda>(ts, _). parse_u128 ts)"

definition table_ok :: "NonceTable \<Rightarrow> bool" where
  "table_ok nonces \<longleftrightarrow> (\<forall>n st. nonces n = Some st \<longrightarrow> nonce_issued n = Some (ns_issued_millis st))"

definition spent :: "NonceTable \<Rightarrow> nat \<Rightarrow> string \<times> nat \<Rightarrow> bool" where
  "spent nonces now u \<longleftrightarrow>
    (\<exists>st. nonces (fst u) = Some st \<and> snd u \<in> ns_seen_ncs st) \<or>
    (\<exists>issued. nonce_issued (fst u) = Some issued \<and> NONCE_TTL_MILLIS < now - issued)"

lemma validate_nonce_issued:
  "validate_nonce md5 da now n = Some t \<Longrightarrow> nonce_issued n = Some t \<and> now - t \<le> NONCE_TTL_MILLIS"
  by (auto simp: validate_nonce_def nonce_issued_def split: option.splits if_splits)

lemma check_replay_ok:
  assumes "table_ok nonces" "nonce_issued (dr_nonce parsed) = Some issued"
  shows "table_ok (fst (check_replay now issued parsed nonces))"
  using assms by (auto simp: check_replay_def table_ok_def prune_def Let_def split: option.splits if_splits)

lemma prune_spent: "spent nonces now0 u \<Longrightarrow> now0 \<le> now \<Longrightarrow> table_ok nonces \<Longrightarrow> spent (prune now nonces) now u"
  by (fastforce simp: spent_def prune_def table_ok_def split: option.splits)

lemma check_replay_spent:
  assumes "spent nonces now0 u" "now0 \<le> now" "table_ok nonces"
  shows "spent (fst (check_replay now issued parsed nonces)) now u"
proof -
  have "spent nonces now u" using assms(1,2) unfolding spent_def by (meson diff_le_mono le_trans not_less)
  then show ?thesis
    using prune_spent [OF assms(1,2,3)]
    by (auto simp: check_replay_def spent_def Let_def split: option.splits)
qed

lemma check_replay_records:
  assumes "check_replay now issued parsed nonces = (nonces', True)" "table_ok nonces"
    and "Option.bind (dr_nc parsed) parse_nc = Some nc"
    and "nonce_issued (dr_nonce parsed) = Some issued" "now - issued \<le> NONCE_TTL_MILLIS"
  shows "spent nonces' now (dr_nonce parsed, nc) \<and> \<not> spent nonces now (dr_nonce parsed, nc)"
  using assms
  by (auto simp: check_replay_def spent_def prune_def table_ok_def Let_def bind_eq_Some_conv split: option.splits if_splits)

lemma digest_authenticate_cases:
  obtains "digest_authenticate md5 da now1 now2 header meth nonces = (nonces, None)"
  | parsed issued algorithm where "digest_parse_authorization header = Some parsed"
      "validate_nonce md5 da now1 (dr_nonce parsed) = Some issued"
      "digest_authenticate md5 da now1 now2 header meth nonces =
        (fst (check_replay now2 issued parsed nonces),
         if snd (check_replay now2 issued parsed nonces) then verify_response md5 da algorithm meth parsed else None)"
proof (cases "digest_parse_authorization header")
  case (Some parsed)
  note p = Some
  show ?thesis
  proof (cases "validate_nonce md5 da now1 (dr_nonce parsed)")
    case (Some issued)
    consider "digest_authenticate md5 da now1 now2 header meth nonces = (nonces, None)" |
      algorithm where "digest_authenticate md5 da now1 now2 header meth nonces =
        (fst (check_replay now2 issued parsed nonces),
         if snd (check_replay now2 issued parsed nonces) then verify_response md5 da algorithm meth parsed else None)"
    proof (cases "dr_realm parsed \<noteq> da_realm_name da \<or> algorithm_parse (dr_algorithm parsed) = None \<or> \<not> qop_ok parsed")
      case True
      then have "digest_authenticate md5 da now1 now2 header meth nonces = (nonces, None)"
        by (auto simp: digest_authenticate_def p split: option.split)
      then show ?thesis by (rule that(1))
    next
      case False
      then obtain algorithm where "algorithm_parse (dr_algorithm parsed) = Some algorithm" by auto
      then show ?thesis using that(2) [of algorithm] False p Some by (simp add: digest_authenticate_def split_beta)
    qed
    then show ?thesis using that p Some by cases blast+
  next
    case None
    have "digest_authenticate md5 da now1 now2 header meth nonces = (nonces, None)"
      by (simp add: digest_authenticate_def p None split: option.split)
    then show ?thesis by (rule that(1))
  qed
next
  case None
  have "digest_authenticate md5 da now1 now2 header meth nonces = (nonces, None)"
    by (simp add: digest_authenticate_def None)
  then show ?thesis by (rule that(1))
qed

lemma authenticate_table_ok:
  assumes "table_ok nonces"
  shows "table_ok (fst (digest_authenticate md5 da now1 now2 header meth nonces))"
  by (cases rule: digest_authenticate_cases [of md5 da now1 now2 header meth nonces])
    (use assms validate_nonce_issued check_replay_ok in auto)

lemma spent_later: "spent nonces now0 u \<Longrightarrow> now0 \<le> now \<Longrightarrow> spent nonces now u"
  unfolding spent_def by (meson diff_le_mono le_trans not_less)

lemma authenticate_spent:
  assumes "spent nonces now0 u" "now0 \<le> now2" "table_ok nonces"
  shows "spent (fst (digest_authenticate md5 da now1 now2 header meth nonces)) now2 u"
  using spent_later [OF assms(1,2)]
  by (cases rule: digest_authenticate_cases [of md5 da now1 now2 header meth nonces])
    (use check_replay_spent [OF assms] in auto)

text \<open>A use is in time if its nonce has not run out when the table is looked at.\<close>

definition in_time :: "nat \<Rightarrow> string \<times> nat \<Rightarrow> bool" where
  "in_time now u \<longleftrightarrow> (case nonce_issued (fst u) of Some issued \<Rightarrow> now - issued \<le> NONCE_TTL_MILLIS | None \<Rightarrow> False)"

lemma authenticate_records:
  assumes "digest_authenticate md5 da now1 now2 header meth nonces = (nonces', Some who)" "table_ok nonces"
    and "nonce_use header = Some u" "in_time now2 u"
  shows "spent nonces' now2 u \<and> \<not> spent nonces now2 u"
proof (cases rule: digest_authenticate_cases [of md5 da now1 now2 header meth nonces])
  case (2 parsed issued algorithm)
  obtain nc where nc: "Option.bind (dr_nc parsed) parse_nc = Some nc" "u = (dr_nonce parsed, nc)"
    using assms(3) 2(1) by (auto simp: nonce_use_def split: option.splits)
  moreover have issued: "nonce_issued (dr_nonce parsed) = Some issued" "now2 - issued \<le> NONCE_TTL_MILLIS"
    using validate_nonce_issued [OF 2(2)] assms(4) nc(2) by (simp_all add: in_time_def)
  moreover have "check_replay now2 issued parsed nonces = (nonces', True)"
    using assms(1) 2(3) by (auto simp: prod_eq_iff split: if_splits)
  ultimately show ?thesis using check_replay_records [OF _ assms(2) _ issued] by simp
qed (use assms(1) in simp)

text \<open>The uses that a run accepts, each with the time at which the table was looked at.\<close>

fun accepted_uses :: "DigestRequest list \<Rightarrow> Principal option list \<Rightarrow> (nat \<times> string \<times> nat) list" where
  "accepted_uses ((now1, now2, header, meth) # reqs) (result # results) =
    (case (nonce_use header, result) of (Some u, Some _) \<Rightarrow> [(now2, u)] | _ \<Rightarrow> []) @ accepted_uses reqs results"
| "accepted_uses _ _ = []"

definition table_times :: "DigestRequest list \<Rightarrow> nat list" where
  "table_times reqs = map (\<lambda>(now1, now2, header, meth). now2) reqs"

lemma accepted_not_spent:
  assumes "table_ok nonces" "sorted (table_times reqs)" "\<forall>t \<in> set (table_times reqs). now0 \<le> t"
    and "(t, u) \<in> set (accepted_uses reqs (digest_run md5 da reqs nonces))" "in_time t u"
  shows "\<not> spent nonces now0 u"
  using assms
proof (induction reqs arbitrary: nonces now0)
  case (Cons r reqs)
  obtain now1 now2 h m where r: "r = (now1, now2, h, m)" by (cases r)
  obtain nonces' res where a: "digest_authenticate md5 da now1 now2 h m nonces = (nonces', res)" by fastforce
  have le: "now0 \<le> now2" using Cons.prems(3) by (simp add: r table_times_def)
  have ok: "table_ok nonces'" using authenticate_table_ok [OF Cons.prems(1), of md5 da now1 now2 h m] a by simp
  show ?case
  proof
    assume spent: "spent nonces now0 u"
    have "\<not> (nonce_use h = Some u \<and> res \<noteq> None \<and> t = now2)"
      using authenticate_records [OF _ Cons.prems(1)] a spent_later [OF spent le] Cons.prems(5) by blast
    then have "(t, u) \<in> set (accepted_uses reqs (digest_run md5 da reqs nonces'))"
      using Cons.prems(4) by (auto simp: r a split: option.splits)
    moreover have "\<forall>t \<in> set (table_times reqs). now2 \<le> t" "sorted (table_times reqs)"
      using Cons.prems(2) by (simp_all add: r table_times_def)
    ultimately have "\<not> spent nonces' now2 u" using Cons.IH [OF ok] Cons.prems(5) by blast
    then show False using authenticate_spent [OF spent le Cons.prems(1), of md5 da now1 h m] a by simp
  qed
qed simp

section \<open>Properties\<close>

text \<open>
  C38. Let requests get at the table of nonces in an order in which the clock does not run backwards. No use of
  a nonce, that is no pair of a nonce and a count, is accepted twice by requests whose nonce has not run out when
  they look at the table, however long they wait and whatever comes between: the table forgets a nonce only when
  it has run out. The clock is read before that, too, to validate the nonce, and a request whose nonce runs out
  between the two readings is not covered: for it the table is empty, and it can repeat a use.
\<close>

theorem digest_no_replay:
  assumes "sorted (table_times reqs)" "table_ok nonces"
  shows "distinct (map snd (filter (\<lambda>(t, u). in_time t u) (accepted_uses reqs (digest_run md5 da reqs nonces))))"
  using assms
proof (induction reqs arbitrary: nonces)
  case (Cons r reqs)
  obtain now1 now2 h m where r: "r = (now1, now2, h, m)" by (cases r)
  obtain nonces' res where a: "digest_authenticate md5 da now1 now2 h m nonces = (nonces', res)" by fastforce
  have ok: "table_ok nonces'" using authenticate_table_ok [OF Cons.prems(2), of md5 da now1 now2 h m] a by simp
  have later: "\<forall>t \<in> set (table_times reqs). now2 \<le> t" and sorted: "sorted (table_times reqs)"
    using Cons.prems(1) by (simp_all add: r table_times_def)
  have "\<not> in_time t u" if "nonce_use h = Some u" "res = Some who" "in_time now2 u"
      "(t, u) \<in> set (accepted_uses reqs (digest_run md5 da reqs nonces'))" for t u who
  proof -
    have "spent nonces' now2 u" using authenticate_records [OF _ Cons.prems(2) that(1,3)] a that(2) by blast
    then show ?thesis using accepted_not_spent [OF ok sorted later that(4)] by blast
  qed
  then show ?case using Cons.IH [OF sorted ok] by (auto simp: r a split: option.splits)
qed simp

text \<open>Without a count nothing is recorded, so a response captured from such a client is good again.\<close>

lemma digest_legacy_replayed:
  assumes "digest_authenticate md5 da now now header meth nonces = (nonces', Some who)"
    and "digest_parse_authorization header = Some parsed" "dr_nc parsed = None"
  shows "digest_authenticate md5 da now now header meth nonces' = (nonces', Some who)"
proof -
  have "check_replay now issued parsed table = (table, True)" for issued table by (simp add: check_replay_def assms(3))
  then show ?thesis using assms(1,2) by (auto simp: digest_authenticate_def split: if_splits option.splits)
qed

text \<open>If the nonce expires between the two readings of the clock, its counts are forgotten before they are looked at.\<close>

lemma digest_race:
  assumes "digest_parse_authorization header = Some parsed" "table_ok nonces"
    and "nonce_issued (dr_nonce parsed) = Some issued" "now1 - issued \<le> NONCE_TTL_MILLIS" "NONCE_TTL_MILLIS < now2 - issued"
  shows "snd (digest_authenticate md5 da now1 now2 header meth nonces) = snd (digest_authenticate md5 da now1 now2 header meth Map.empty)"
proof -
  have "prune now2 nonces (dr_nonce parsed) = None"
    using assms(2,3,5) by (auto simp: prune_def table_ok_def split: option.split)
  then have "snd (check_replay now2 t parsed nonces) = snd (check_replay now2 t parsed Map.empty)" for t
    by (simp add: check_replay_def prune_def Let_def split: option.split)
  then show ?thesis by (simp add: digest_authenticate_def assms(1) split_beta split: option.split)
qed

text \<open>A request spends its count before its response is checked, so one without credentials can use up counts.\<close>

lemma digest_failure_spends:
  assumes "digest_parse_authorization header = Some parsed" "dr_realm parsed = da_realm_name da" "qop_ok parsed"
    "algorithm_parse (dr_algorithm parsed) = Some algorithm" "validate_nonce md5 da now (dr_nonce parsed) = Some issued"
    "Option.bind (dr_nc parsed) parse_nc = Some nc"
  shows "spent (fst (digest_authenticate md5 da now now header meth nonces)) now (dr_nonce parsed, nc)"
  using assms(6)
  by (auto simp: digest_authenticate_def assms(1-5) check_replay_def split_beta Let_def spent_def bind_eq_Some_conv)

section \<open>A client\<close>

text \<open>A directive: key, value, and whether the value is quoted.\<close>

fun print_directive :: "string \<times> string \<times> bool \<Rightarrow> string" where
  \<open>print_directive (k, v, True) = k @ ''="'' @ v @ ''"''\<close>
| "print_directive (k, v, False) = k @ ''='' @ v"

fun directive_ok :: "string \<times> string \<times> bool \<Rightarrow> bool" where
  "directive_ok (k, v, quoted) \<longleftrightarrow>
    visible_str k \<and> CHR 0x22 \<notin> set k \<and> CHR '','' \<notin> set k \<and> CHR ''='' \<notin> set k \<and> CHR 0x22 \<notin> set v \<and>
    (quoted \<or> visible_str v \<and> CHR '','' \<notin> set v)"

definition client_header :: "string \<Rightarrow> string \<Rightarrow> string \<Rightarrow> string \<Rightarrow> string \<Rightarrow> string \<Rightarrow> string \<Rightarrow> string" where
  "client_header user realm_name nonce uri nc cnonce response =
    ''Digest '' @ print_directive (''username'', user, True) @
    concat (map (\<lambda>d. '', '' @ print_directive d)
      [(''realm'', realm_name, True), (''nonce'', nonce, True), (''uri'', uri, True), (''qop'', ''auth'', False),
       (''nc'', nc, False), (''cnonce'', cnonce, True), (''response'', response, True)])"

lemma split_from_plain:
  "CHR 0x22 \<notin> set s \<Longrightarrow> CHR '','' \<notin> set s \<Longrightarrow>
    split_directives_from False buf (s @ rest) = split_directives_from False (buf @ s) rest"
  by (induction s arbitrary: buf) auto

lemma split_from_quoted:
  "CHR 0x22 \<notin> set s \<Longrightarrow> split_directives_from True buf (s @ rest) = split_directives_from True (buf @ s) rest"
  by (induction s arbitrary: buf) auto

lemma split_from_directive:
  assumes "directive_ok d"
  shows "split_directives_from False buf (print_directive d @ rest) = split_directives_from False (buf @ print_directive d) rest"
proof -
  obtain k v q where d: "d = (k, v, q)" by (cases d)
  show ?thesis
  proof (cases q)
    case True
    then show ?thesis
      using assms d split_from_plain [of "k @ ''=''"] split_from_quoted [of v]
      by (simp add: split_from_plain)
  next
    case False
    then show ?thesis using assms d split_from_plain [of "k @ ''='' @ v"] by simp
  qed
qed

lemma print_directive_ends:
  assumes "directive_ok d"
  shows "print_directive d \<noteq> []" "visible (byte_of (hd (print_directive d)))" "visible (byte_of (last (print_directive d)))"
proof -
  obtain k v q where d: "d = (k, v, q)" by (cases d)
  have "visible (byte_of CHR 0x22)" by (simp add: visible_def byte_of_def)
  then show "print_directive d \<noteq> []" "visible (byte_of (hd (print_directive d)))" "visible (byte_of (last (print_directive d)))"
    using assms d by (cases q; auto simp: visible_str_def hd_append)+
qed

lemma keep_directive_print:
  assumes "directive_ok d"
  shows "keep_directive (print_directive d) = [print_directive d]" "keep_directive (CHR '' '' # print_directive d) = [print_directive d]"
proof -
  have "trim (print_directive d) = print_directive d" using print_directive_ends [OF assms] by (intro trim_ends)
  moreover have "trim (CHR '' '' # s) = trim s" for s
    by (simp add: trim_def as_bytes_def trim_start_blank)
  ultimately show "keep_directive (print_directive d) = [print_directive d]"
      "keep_directive (CHR '' '' # print_directive d) = [print_directive d]"
    using print_directive_ends [OF assms] by (simp_all add: keep_directive_def)
qed

lemma split_directives_tail:
  assumes "list_all directive_ok ds" "directive_ok d" "buf = [] \<or> buf = '' ''"
  shows "split_directives_from False (buf @ print_directive d) (concat (map (\<lambda>d. '', '' @ print_directive d) ds)) =
    map print_directive (d # ds)"
  using assms
proof (induction ds arbitrary: d buf)
  case Nil
  then show ?case using keep_directive_print [OF Nil.prems(2)] by auto
next
  case (Cons e ds)
  have "keep_directive (buf @ print_directive d) = [print_directive d]"
    using keep_directive_print [OF Cons.prems(2)] Cons.prems(3) by auto
  moreover have "split_directives_from False [] (CHR '' '' # print_directive e @ rest) =
      split_directives_from False (CHR '' '' # print_directive e) rest" for rest
    using Cons.prems(1) split_from_directive [of e "'' ''" rest] by simp
  ultimately show ?case using Cons.IH [of e "'' ''"] Cons.prems(1) by simp
qed

lemma split_directives_print:
  assumes "directive_ok d" "list_all directive_ok ds"
  shows "split_directives (print_directive d @ concat (map (\<lambda>d. '', '' @ print_directive d) ds)) = map print_directive (d # ds)"
  using split_directives_tail [OF assms(2,1), of "[]"] split_from_directive [OF assms(1), of "[]"]
  by (simp add: split_directives_def)

lemma directive_parts:
  assumes "directive_ok (k, v, q)"
  shows "split_once CHR ''='' (print_directive (k, v, q)) = Some (k, if q then CHR 0x22 # v @ [CHR 0x22] else v)"
    "trim k = k" "unquote (trim (if q then CHR 0x22 # v @ [CHR 0x22] else v)) = v"
proof -
  show "split_once CHR ''='' (print_directive (k, v, q)) = Some (k, if q then CHR 0x22 # v @ [CHR 0x22] else v)"
    using assms by (cases q) (simp_all add: split_once_Some)
  show "trim k = k" using assms by (auto simp: visible_str_def intro: trim_visible)
  have "trim (CHR 0x22 # v @ [CHR 0x22]) = CHR 0x22 # v @ [CHR 0x22]"
    by (intro trim_ends) (simp_all add: visible_def byte_of_def)
  moreover have "trim v = v" if "\<not> q" using that assms by (auto simp: visible_str_def intro: trim_visible)
  moreover have "unquote v = v" if "\<not> q" using that assms by (cases v) (auto simp: unquote_def)
  moreover have "unquote (CHR 0x22 # v @ [CHR 0x22]) = v" by (simp add: unquote_def)
  ultimately show "unquote (trim (if q then CHR 0x22 # v @ [CHR 0x22] else v)) = v" by (cases q) simp_all
qed

lemma digest_directive_print:
  "directive_ok (k, v, q) \<Longrightarrow> digest_directive (print_directive (k, v, q)) acc =
    (let key = to_ascii_lowercase k; (out, saw) = acc in
          if key = ''username'' then (out\<lparr>dr_username := v\<rparr>, key # saw)
          else if key = ''realm'' then (out\<lparr>dr_realm := v\<rparr>, key # saw)
          else if key = ''nonce'' then (out\<lparr>dr_nonce := v\<rparr>, key # saw)
          else if key = ''uri'' then (out\<lparr>dr_uri := v\<rparr>, key # saw)
          else if key = ''response'' then (out\<lparr>dr_response := v\<rparr>, key # saw)
          else if key = ''qop'' then (out\<lparr>dr_qop := Some v\<rparr>, saw)
          else if key = ''cnonce'' then (out\<lparr>dr_cnonce := Some v\<rparr>, saw)
          else if key = ''nc'' then (out\<lparr>dr_nc := Some v\<rparr>, saw)
          else if key = ''opaque'' then (out\<lparr>dr_opaque := Some v\<rparr>, saw)
          else if key = ''algorithm'' then (out\<lparr>dr_algorithm := Some v\<rparr>, saw)
          else acc)"
  using directive_parts [of k v q] by (simp only: digest_directive_def option.case prod.case Let_def)

lemma key_cases:
  "to_ascii_lowercase ''username'' = ''username''" "to_ascii_lowercase ''realm'' = ''realm''"
  "to_ascii_lowercase ''nonce'' = ''nonce''" "to_ascii_lowercase ''uri'' = ''uri''" "to_ascii_lowercase ''qop'' = ''qop''"
  "to_ascii_lowercase ''nc'' = ''nc''" "to_ascii_lowercase ''cnonce'' = ''cnonce''"
  "to_ascii_lowercase ''response'' = ''response''"
  by code_simp+

definition no_quote :: "string \<Rightarrow> bool" where
  "no_quote s \<longleftrightarrow> CHR 0x22 \<notin> set s"

definition client_response ::
    "string \<Rightarrow> string \<Rightarrow> string \<Rightarrow> string \<Rightarrow> string \<Rightarrow> string \<Rightarrow> string \<Rightarrow> DigestResponse" where
  "client_response user realm_name nonce uri nc cnonce response =
    \<lparr>dr_username = user, dr_realm = realm_name, dr_nonce = nonce, dr_uri = uri, dr_response = response,
     dr_qop = Some ''auth'', dr_cnonce = Some cnonce, dr_nc = Some nc, dr_opaque = None, dr_algorithm = None\<rparr>"

lemma parse_client_header:
  assumes "list_all no_quote [user, realm_name, nonce, uri, nc, cnonce, response]" "visible_str nc" "CHR '','' \<notin> set nc"
  shows "digest_parse_authorization (client_header user realm_name nonce uri nc cnonce response) =
    Some (client_response user realm_name nonce uri nc cnonce response)"
proof -
  let ?d = "(''username'', user, True)"
  let ?ds = "[(''realm'', realm_name, True), (''nonce'', nonce, True), (''uri'', uri, True), (''qop'', ''auth'', False),
       (''nc'', nc, False), (''cnonce'', cnonce, True), (''response'', response, True)]"
  let ?rest = "print_directive ?d @ concat (map (\<lambda>d. '', '' @ print_directive d) ?ds)"
  have vis: "visible_str s" if "s \<in> {''username'', ''realm'', ''nonce'', ''uri'', ''qop'', ''auth'', ''nc'', ''cnonce'', ''response'', ''Digest''}" for s
    using that by (auto simp: visible_str_def visible_def byte_of_def)
  have ok: "directive_ok ?d" "list_all directive_ok ?ds"
    using assms by (simp_all add: vis no_quote_def)
  have "?rest \<noteq> []" "last ?rest = CHR 0x22" by simp_all
  then have "split_once_ws (trim (''Digest'' @ CHR '' '' # ?rest)) = Some (''Digest'', ?rest)"
    using split_once_ws_scheme [of "''Digest''" ?rest] vis by (simp add: visible_def byte_of_def del: append.simps)
  moreover have "client_header user realm_name nonce uri nc cnonce response = ''Digest'' @ CHR '' '' # ?rest"
    by (simp add: client_header_def)
  moreover have "eq_ignore_ascii_case ''Digest'' ''digest''" by code_simp
  moreover have "fold digest_directive (map print_directive (?d # ?ds)) (digest_response_default, []) =
      (client_response user realm_name nonce uri nc cnonce response,
       [''response'', ''uri'', ''nonce'', ''realm'', ''username''])"
    using ok
    by (simp only: list.map fold_simps list.pred_inject digest_directive_print key_cases Let_def prod.case)
      (simp add: client_response_def digest_response_default_def)
  ultimately show ?thesis
    by (simp only: digest_parse_authorization_def option.case prod.case split_directives_print [OF ok] Let_def) simp
qed

lemma ct_diff_zero: "length a = length b \<Longrightarrow> ct_diff d a b = 0 \<longleftrightarrow> d = 0 \<and> a = b"
  by (induction d a b rule: ct_diff.induct) (auto simp: or_eq_zero xor_eq_zero)

lemma constant_time_eq_iff [simp]: "constant_time_eq a b \<longleftrightarrow> a = b"
  by (auto simp: constant_time_eq_def ct_diff_zero)

lemma hex_lower_no: "c \<in> {CHR '':'', CHR 0x22, CHR '',''} \<Longrightarrow> c \<notin> set (hex_lower bs)"
proof
  assume c: "c \<in> {CHR '':'', CHR 0x22, CHR '',''}" "c \<in> set (hex_lower bs)"
  then obtain d where "d < 16" "c = hex_char d" using hex_lower_digits by blast
  then show False using c(1) hex_char_plain [of d] by auto
qed

lemma dec_str_no_quote: "c \<in> {CHR '':'', CHR 0x22, CHR ''+''} \<Longrightarrow> c \<notin> set (dec_str n)"
  using dec_str_digits [of c n] by (auto simp: digit_value_def)

lemma parse_u128_dec: "n < 2 ^ 128 \<Longrightarrow> parse_u128 (dec_str n) = Some n"
proof -
  assume n: "n < 2 ^ 128"
  then have "int n < 2 ^ 128" by simp
  moreover have "strip_plus (dec_str n) = dec_str n"
    using dec_str_no_quote [of "CHR ''+''" n] by (auto simp: strip_plus_def strip_prefix_Some split: option.split)
  ultimately show ?thesis by (simp add: parse_u128_def)
qed

lemma split_nonce:
  "split_three (generate_nonce md5 da t salt) = Some (dec_str t, hex_lower salt, keyed_digest md5 da t salt)"
proof -
  have "split_once CHR '':'' (dec_str t @ CHR '':'' # r) = Some (dec_str t, r)" for r
    using dec_str_no_quote [of "CHR '':''" t] by (simp add: split_once_Some)
  moreover have "split_once CHR '':'' (hex_lower salt @ CHR '':'' # r) = Some (hex_lower salt, r)" for r
    using hex_lower_no [of "CHR '':''" salt] by (simp add: split_once_Some)
  ultimately show ?thesis by (simp add: split_three_def generate_nonce_def)
qed

lemma validate_generated:
  assumes "t < 2 ^ 128" "t \<le> now + 1000" "now - t \<le> NONCE_TTL_MILLIS"
  shows "validate_nonce md5 da now (generate_nonce md5 da t salt) = Some t"
  using assms by (simp add: validate_nonce_def split_nonce parse_u128_dec)

lemma nonce_no_quote: "no_quote (generate_nonce md5 da t salt)"
  using dec_str_no_quote hex_lower_no by (simp add: no_quote_def generate_nonce_def keyed_digest_def)

lemma login_accepted:
  assumes "list_all no_quote [user, da_realm_name da, uri, nc, cnonce]" "visible_str nc" "CHR '','' \<notin> set nc"
    and "rl_digest_ha1 (da_realm da) user (da_realm_name da) = Some (digest_ha1 md5 user (da_realm_name da) pass)"
    and "t < 2 ^ 128" "t \<le> now1 + 1000" "now1 - t \<le> NONCE_TTL_MILLIS"
    and "nonce = generate_nonce md5 da t salt" "parse_nc nc = Some n"
    and "\<And>st. nonces nonce = Some st \<Longrightarrow> n \<notin> ns_seen_ncs st"
    and "response = md5_hex md5 (digest_ha1 md5 user (da_realm_name da) pass @ '':'' @ nonce @ '':'' @ nc @ '':'' @
      cnonce @ '':auth:'' @ md5_hex md5 (meth @ '':'' @ uri))"
  shows "snd (digest_authenticate md5 da now1 now2
      (client_header user (da_realm_name da) nonce uri nc cnonce response) meth nonces) =
    Some \<lparr>pr_name = user, pr_roles = []\<rparr>"
proof -
  let ?parsed = "client_response user (da_realm_name da) nonce uri nc cnonce response"
  have "no_quote response" using hex_lower_no by (simp add: assms(11) md5_hex_def no_quote_def)
  then have "list_all no_quote [user, da_realm_name da, nonce, uri, nc, cnonce, response]"
    using assms(1) nonce_no_quote by (simp add: assms(8))
  note parsed = parse_client_header [OF this assms(2,3)]
  have "qop_ok ?parsed" by (simp add: qop_ok_def client_response_def)
  moreover have "validate_nonce md5 da now1 (dr_nonce ?parsed) = Some t"
    using validate_generated [OF assms(5-7)] by (simp add: client_response_def assms(8))
  moreover have "snd (check_replay now2 t ?parsed nonces)"
    using assms(9,10) by (auto simp: check_replay_def client_response_def prune_def Let_def split: option.splits if_splits)
  moreover have "verify_response md5 da Md5 meth ?parsed = Some \<lparr>pr_name = user, pr_roles = []\<rparr>"
    using assms(4)
    by (simp add: verify_response_def client_response_def rebind_ha1_def expected_response_def or_empty_def assms(11))
  moreover have "dr_realm ?parsed = da_realm_name da" "algorithm_parse (dr_algorithm ?parsed) = Some Md5"
    by (simp_all add: client_response_def algorithm_parse_def)
  ultimately show ?thesis by (simp add: digest_authenticate_def parsed split_beta)
qed

text \<open>
  C39. A client that knows the password and answers a challenge within five minutes, with a count
  it has not used, is accepted: its header, with any user name, address and client nonce free of double
  quotes, is taken apart, the nonce recognised as the server's own, and the response computed to the same digest.
\<close>

theorem digest_login:
  assumes "list_all no_quote [user, da_realm_name da, uri, nc, cnonce]" "visible_str nc" "CHR '','' \<notin> set nc"
    and "rl_digest_ha1 (da_realm da) user (da_realm_name da) = Some (digest_ha1 md5 user (da_realm_name da) pass)"
    and "t < 2 ^ 128" "t \<le> now1 + 1000" "now1 - t \<le> NONCE_TTL_MILLIS"
    and "nonce = generate_nonce md5 da t salt" "parse_nc nc = Some n"
    and "\<And>st. nonces nonce = Some st \<Longrightarrow> n \<notin> ns_seen_ncs st"
    and "response = md5_hex md5 (digest_ha1 md5 user (da_realm_name da) pass @ '':'' @ nonce @ '':'' @ nc @ '':'' @
      cnonce @ '':auth:'' @ md5_hex md5 (meth @ '':'' @ uri))"
  shows "snd (digest_authenticate md5 da now1 now2
      (client_header user (da_realm_name da) nonce uri nc cnonce response) meth nonces) =
    Some \<lparr>pr_name = user, pr_roles = []\<rparr>"
  using assms by (rule login_accepted)

section \<open>Examples\<close>

definition sample_digest :: DigestAuthenticator where
  "sample_digest =
    \<lparr>da_realm = in_memory_realm (\<lambda>bs. bs) (add_digest_user (\<lambda>bs. bs) (\<lambda>bs. take 2 bs) ''ann'' ''r'' ''pw'' [] in_memory_new),
     da_realm_name = ''r'', da_opaque_key = [7]\<rparr>"

abbreviation sample_header :: string where
  "sample_header \<equiv> client_header ''ann'' ''r'' ''1000:05:0000'' ''/'' ''00000001'' ''x'' ''3631''"

lemma sample_login_facts:
  "da_realm_name sample_digest = ''r''"
  "list_all no_quote [''ann'', da_realm_name sample_digest, ''/'', ''00000001'', ''x'']"
  "visible_str ''00000001''" "CHR '','' \<notin> set ''00000001''"
  "rl_digest_ha1 (da_realm sample_digest) ''ann'' (da_realm_name sample_digest) =
    Some (digest_ha1 (take 2) ''ann'' (da_realm_name sample_digest) ''pw'')"
  "''1000:05:0000'' = generate_nonce (take 2) sample_digest 1000 [5]"
  "parse_nc ''00000001'' = Some 1"
  "''3631'' = md5_hex (take 2) (digest_ha1 (take 2) ''ann'' (da_realm_name sample_digest) ''pw'' @ '':'' @ ''1000:05:0000'' @
    '':'' @ ''00000001'' @ '':'' @ ''x'' @ '':auth:'' @ md5_hex (take 2) (''GET'' @ '':'' @ ''/''))"
proof -
  show r: "da_realm_name sample_digest = ''r''" by (simp add: sample_digest_def)
  show "list_all no_quote [''ann'', da_realm_name sample_digest, ''/'', ''00000001'', ''x'']"
    by (simp add: no_quote_def r)
  show "visible_str ''00000001''" "CHR '','' \<notin> set ''00000001''"
    by (simp_all add: visible_str_def visible_def byte_of_def)
  show "rl_digest_ha1 (da_realm sample_digest) ''ann'' (da_realm_name sample_digest) =
      Some (digest_ha1 (take 2) ''ann'' (da_realm_name sample_digest) ''pw'')"
    by (simp add: sample_digest_def in_memory_realm_def in_memory_digest_ha1_def add_digest_user_def)
  show "''1000:05:0000'' = generate_nonce (take 2) sample_digest 1000 [5]"
  proof -
    have "be_bytes128 1000 = [0, 0, 0, 0, 0, 0, 0, 0, 0, 0, 0, 0, 0, 0, 3, 232]" by (simp add: be_bytes128_def upt_rec)
    moreover have "dec_str 1000 = ''1000''" "hex_lower [5] = ''05''" "hex_lower [0, 0] = ''0000''" by code_simp+
    ultimately show ?thesis by (simp add: generate_nonce_def keyed_digest_def del: hex_lower_simps)
  qed
  show "parse_nc ''00000001'' = Some 1"
    by (simp add: parse_nc_def strip_plus_def strip_prefix_def starts_with_def parse_hex_def hex_digit_value_def usize_max_def)
  show "''3631'' = md5_hex (take 2) (digest_ha1 (take 2) ''ann'' (da_realm_name sample_digest) ''pw'' @ '':'' @ ''1000:05:0000'' @
      '':'' @ ''00000001'' @ '':'' @ ''x'' @ '':auth:'' @ md5_hex (take 2) (''GET'' @ '':'' @ ''/''))"
    unfolding r by code_simp
qed

text \<open>While the nonce lives, the count is good as long as the table does not have it.\<close>

lemma sample_login:
  assumes "1000 \<le> now1 + 1000" "now1 - 1000 \<le> NONCE_TTL_MILLIS"
    and "\<And>st. nonces ''1000:05:0000'' = Some st \<Longrightarrow> 1 \<notin> ns_seen_ncs st"
  shows "snd (digest_authenticate (take 2) sample_digest now1 now2 sample_header ''GET'' nonces) =
    Some \<lparr>pr_name = ''ann'', pr_roles = []\<rparr>"
proof -
  note f = sample_login_facts
  have "(1000 :: nat) < 2 ^ 128" by simp
  show ?thesis
    by (rule login_accepted [where nonces = nonces and ?now2.0 = now2, OF f(2-5) \<open>1000 < 2 ^ 128\<close> assms(1,2) f(6,7) assms(3) f(8), unfolded f(1)])
qed

lemma sample_parsed:
  "digest_parse_authorization sample_header = Some (client_response ''ann'' ''r'' ''1000:05:0000'' ''/'' ''00000001'' ''x'' ''3631'')"
  by (rule parse_client_header) (simp_all add: no_quote_def visible_str_def visible_def byte_of_def)

lemma sample_issued: "nonce_issued ''1000:05:0000'' = Some 1000"
  unfolding sample_login_facts(6) by (simp add: nonce_issued_def split_nonce parse_u128_dec)

text \<open>If the nonce runs out between the two readings, the same header is good a second time.\<close>

lemma digest_replayed_in_race:
  "digest_run (take 2) sample_digest [(2000, 2000, sample_header, ''GET''), (301000, 301001, sample_header, ''GET'')] Map.empty =
    [Some \<lparr>pr_name = ''ann'', pr_roles = []\<rparr>, Some \<lparr>pr_name = ''ann'', pr_roles = []\<rparr>]"
proof -
  obtain nonces where a: "digest_authenticate (take 2) sample_digest 2000 2000 sample_header ''GET'' Map.empty =
      (nonces, Some \<lparr>pr_name = ''ann'', pr_roles = []\<rparr>)"
    using sample_login [of 2000 Map.empty 2000] by (auto simp: NONCE_TTL_MILLIS_def prod_eq_iff)
  have "table_ok nonces"
    using authenticate_table_ok [of Map.empty "take 2" sample_digest 2000 2000 sample_header "''GET''"] a
    by (simp add: table_ok_def)
  then have "snd (digest_authenticate (take 2) sample_digest 301000 301001 sample_header ''GET'' nonces) =
      snd (digest_authenticate (take 2) sample_digest 301000 301001 sample_header ''GET'' Map.empty)"
    using sample_issued by (intro digest_race [OF sample_parsed]) (auto simp: client_response_def NONCE_TTL_MILLIS_def)
  then show ?thesis
    using a sample_login [of 301000 Map.empty 301001] by (simp add: NONCE_TTL_MILLIS_def split_beta)
qed

theorem digest_login_witness:
  "snd (digest_authenticate (take 2) sample_digest 2000 2000 sample_header ''GET'' Map.empty) =
    Some \<lparr>pr_name = ''ann'', pr_roles = []\<rparr>"
proof -
  note f = sample_login_facts
  have times: "(1000 :: nat) < 2 ^ 128" "1000 \<le> (2000 :: nat) + 1000" "2000 - 1000 \<le> NONCE_TTL_MILLIS"
    by (simp_all add: NONCE_TTL_MILLIS_def)
  have fresh: "1 \<notin> ns_seen_ncs st" if "Map.empty ''1000:05:0000'' = Some st" for st :: NonceState using that by simp
  show ?thesis
    by (rule digest_login [where nonces = Map.empty and ?now2.0 = 2000, OF f(2-5) times f(6,7) fresh f(8), unfolded f(1)])
qed

theorem digest_no_replay_witness:
  "digest_run (take 2) sample_digest [(2000, 2000, sample_header, ''GET''), (2500, 2600, sample_header, ''GET'')] Map.empty =
    [Some \<lparr>pr_name = ''ann'', pr_roles = []\<rparr>, None]"
proof -
  let ?reqs = "[(2000, 2000, sample_header, ''GET''), (2500, 2600, sample_header, ''GET'')]"
  obtain nonces where a: "digest_authenticate (take 2) sample_digest 2000 2000 sample_header ''GET'' Map.empty =
      (nonces, Some \<lparr>pr_name = ''ann'', pr_roles = []\<rparr>)"
    using sample_login [of 2000 Map.empty 2000] by (auto simp: NONCE_TTL_MILLIS_def prod_eq_iff)
  obtain nonces' res where b: "digest_authenticate (take 2) sample_digest 2500 2600 sample_header ''GET'' nonces = (nonces', res)"
    by fastforce
  have use: "nonce_use sample_header = Some (''1000:05:0000'', 1)"
    using sample_login_facts(7) by (simp add: nonce_use_def sample_parsed client_response_def)
  have "in_time 2000 (''1000:05:0000'', 1)" "in_time 2600 (''1000:05:0000'', 1)"
    by (simp_all add: in_time_def sample_issued NONCE_TTL_MILLIS_def)
  moreover have "distinct (map snd (filter (\<lambda>(t, u). in_time t u)
      (accepted_uses ?reqs (digest_run (take 2) sample_digest ?reqs Map.empty))))"
    by (rule digest_no_replay) (simp_all add: table_times_def table_ok_def)
  ultimately have "res = None" using use by (cases res) (simp_all add: a b)
  then show ?thesis by (simp add: a b)
qed

end
