(* ===== verification/Spec2Isabelle.thy ===== *)
theory Spec2Isabelle
  imports Normalize Http2ConnProps Chunked Mapper Http1 WsSession Constraints AccessControl Negotiate Ajp Cluster ElEval Adapter Pipeline Digest
begin

text \<open>
  Verification of Tomcat-RS, a servlet container in Rust. File names below are those of the crates under
  \<open>src/crates\<close>; the manifest \<open>PROJECT.json\<close> maps every definition to the lines it translates.

  The program. Connectors (\<open>tomcatrs-coyote\<close>: HTTP/1.1, HTTP/2, AJP) read requests off a socket, check and
  normalise them and hand them to an adapter, whose responses they write. The adapter, the container tree with
  its life cycle, the request mapper, filters, valves and the servlet for static files are
  \<open>tomcatrs-catalina\<close>. Beside them stand sessions and their stores (\<open>tomcatrs-session\<close>), authentication,
  constraints and request hardening (\<open>tomcatrs-security\<close>), WebSocket connections (\<open>tomcatrs-websocket\<close>) and the
  expression language of JSP pages (\<open>tomcatrs-jsp\<close>).

  Conventions (\<open>Prelude\<close>, \<open>Text\<close>, \<open>Wire\<close>, \<open>BitLists\<close>, \<open>Socket\<close>). Integers are words where their width can
  be felt, and natural numbers where a bound of the code keeps them small. A string is the list of its UTF-8
  bytes as characters, so lengths are those of Rust; the theories of the expression language use code points
  instead. A \<open>Result\<close> is a sum, with \<open>Ok\<close>, \<open>Err\<close> and \<open>and_then\<close> for the question mark. State is passed
  explicitly, in records with the fields of the structs. Panics are values where the code can reach them. A
  socket is the list of what its reads will meet: arrivals, timeouts, faults, the end; so a property that holds
  for every such list holds for every segmentation of the bytes. Loops over a socket recurse on what is left to
  read.

  Connectors.
  \<^item> \<open>Normalize\<close> (\<open>normalize.rs\<close>): percent decoding and dot segments; safety of every accepted path, and the exact
    result against names that later dots cross out.
  \<^item> \<open>HpackPrim\<close>, \<open>HpackHuffman\<close>, \<open>HpackTable\<close>, \<open>Hpack\<close> (\<open>hpack.rs\<close>): integers, Huffman code, tables, decoder and
    encoder; round trips over a whole connection, bounds of the decoder on any bytes.
  \<^item> \<open>Http2Frame\<close> (\<open>http2.rs\<close>), \<open>Http2Conn\<close>, \<open>Http2ConnInv\<close>, \<open>Http2ConnProps\<close> (\<open>http2_conn.rs\<close>): frames; the driver
    as a step relation over frames, responses and the closing of the peer, its invariant, the requests it emits,
    and flow control.
  \<^item> \<open>Message\<close> (\<open>lib.rs\<close>), \<open>Chunked\<close> (\<open>chunked.rs\<close>), \<open>Http1\<close> (\<open>http1.rs\<close>): heads, framing of bodies, readers and the
    loop of a connection; which messages are given a framing, how requests are cut out of the stream, and what
    every request satisfies.
  \<^item> \<open>Ajp\<close> (\<open>ajp.rs\<close>): packets, forward requests, the exchange with the proxy, the shared secret.
  \<^item> \<open>Calendar\<close>, \<open>Cookies\<close>, \<open>Negotiate\<close> (\<open>cookies.rs\<close>, \<open>cookie.rs\<close>): dates against a ticking calendar, cookies there
    and back, negotiation against weights. An \<open>f32\<close> between 0 and 1 is a number of units of \<open>2^-149\<close>.

  Containers.
  \<^item> \<open>Container\<close> (\<open>lifecycle.rs\<close>, \<open>server.rs\<close> down to \<open>wrapper.rs\<close>): one record for each level; the locale
    \<open>lifecycle_level\<close> is interpreted at every level, and its facts add up to the life cycle of the tree.
  \<^item> \<open>UrlPattern\<close>, \<open>Mapper\<close> (\<open>mapper.rs\<close>) and \<open>Filters\<close> (\<open>filter.rs\<close>): precedence of patterns and the order of filter
    chains, against specifications of their own.
  \<^item> \<open>Pipeline\<close> (\<open>pipeline.rs\<close>, \<open>valve.rs\<close>, \<open>security_valve.rs\<close>): valves as functions of their continuation; the
    pipeline is two passes.
  \<^item> \<open>HttpDate\<close>, \<open>DefaultServlet\<close> (\<open>default_servlet.rs\<close>): resolution of paths, ranges, conditional requests over a
    file system that is a function; confinement as noninterference, ranges as intervals, revalidation.
  \<^item> \<open>Adapter\<close> (\<open>adapter.rs\<close>): mapping to a context, built-in servlets and static files, as a connector calls it.

  Security and sessions.
  \<^item> \<open>Constraints\<close> (\<open>constraints.rs\<close>) and \<open>AccessControl\<close> (\<open>access_control.rs\<close>): the decision against sets of
    governing constraints; the second normaliser, compared with that of the connectors.
  \<^item> \<open>Realms\<close> (\<open>realm.rs\<close>, \<open>auth_basic.rs\<close>, \<open>auth_form.rs\<close>, \<open>csrf.rs\<close>) and \<open>Digest\<close> (\<open>auth_digest.rs\<close>): users and
    passwords, the login by form as a state machine, DIGEST with its table of nonces. The locale \<open>user_store\<close> is
    what both kinds of stored passwords provide.
  \<^item> \<open>Session\<close>, \<open>SessionManager\<close>, \<open>SessionStores\<close> (\<open>lib.rs\<close>, \<open>manager.rs\<close>, \<open>store_memory.rs\<close>, \<open>store_file.rs\<close>): the contract
    of a store is the locale \<open>session_store\<close>; the manager over any store refines a map of sessions, and both
    stores are interpretations.
  \<^item> \<open>Cluster\<close> (\<open>store_cluster.rs\<close>): replication over first-in first-out inboxes, as interleaved steps of nodes, with
    the fetch from peers in two steps.

  WebSocket and expression language.
  \<^item> \<open>WsFrame\<close> (\<open>frame.rs\<close>), \<open>WsTransport\<close>, \<open>WsSession\<close> (\<open>transport.rs\<close>): frames, messages and their fragments, the
    closing handshake; the states a connection can get to, and messages read back whole.
  \<^item> \<open>ElParser\<close>, \<open>ElLexer\<close>, \<open>ElEval\<close> (\<open>el.rs\<close>): tokens, the parser, values and evaluation, templates.

  Interfaces. Codecs share the locales \<open>prefix_codec\<close>, \<open>prefix_code\<close> and \<open>incremental_parser\<close>, and the HTTP/2 driver
  the locale \<open>driver_invariant\<close>; each is interpreted on the definitions of the model.

  Bounds and fuel. The parser of the expression language runs on fuel linear in the number of tokens, and is proved
  to end before it for every list of tokens; the depth of the machine's stack is not modelled. The chunks of an
  AJP body are at most its bytes. Every other recursion is structural or has a measure, mostly of what is left to
  read. Sizes are those of a 64-bit machine; where arithmetic wraps or panics on values a peer can choose, it
  does so in the model.

  Parameters. MD5, SHA-256 and base64 are arguments of the definitions that use them, as are random bytes and the
  readings of the clock; so are the request handlers behind a connector, the valves and filters of an application
  and the contents of the file system. A hypothesis about such a parameter stands in the theorem that needs it.

  Not modelled. The bridge to Java (\<open>tomcatrs-servlet-bridge\<close>, the Jakarta side of WebSocket, JSP compilation):
  what it does is what the JVM does behind its handles. Sockets, TLS, acceptors, timers and the asynchronous
  runtime: input and output. The readers of configuration files, archives and class files, deployment, the manager
  application: work on the file system and on packages for XML and zip. Stores and realms in Redis, LDAP or
  databases, the cluster over TCP: clients of services. The opening handshake of WebSocket and the negotiation of
  its extensions. Logs and metrics. Tasks that run at the same time are interleaved in steps that each do one
  thing: where two tasks could meet inside such a step, as on the inbox of a cluster node or between a reading of
  the clock and a lock, the theorem says which order it assumes.
\<close>

end
